(* ===== verification/Prelude.thy ===== *)
theory Prelude
  imports Main "HOL-Library.Word"
begin

unbundle bit_operations_syntax

text \<open>
  What every component shares: the machine integer types of types.h, the ways a kernel
  routine can fail to return (\<open>stop\<close>), the result type \<open>'a res\<close> with its sequencing
  operator, the loop combinators \<open>for_each\<close> (a C \<open>for\<close> loop whose body may panic) and
  \<open>rr_scan\<close> (the round-robin \<open>do\<close>/\<open>while\<close> loop of the two schedulers), the search for the
  first index of an array (\<open>first_index\<close>), and the lemmas about them that the component
  proofs use.
\<close>

type_synonym u8 = "8 word"
type_synonym u16 = "16 word"
type_synonym u32 = "32 word"

text \<open>
  Sleep channels. The C code sleeps on the address of an object; a channel names that object
  (the index of the process, buffer, inode, pipe \<dots>), so two channels are equal exactly when
  the addresses are.
\<close>

datatype chan =
    ChProc nat
  | ChBuf nat
  | ChInode nat
  | ChLog
  | ChTicks
  | ChPipeRead nat
  | ChPipeWrite nat
  | ChInput

text \<open>
  How a routine can stop without returning: \<open>Panic\<close> is a call of \<open>panic\<close> with its message,
  \<open>Fault\<close> is behaviour C leaves undefined (a null pointer dereferenced, an array written out
  of its bounds, a loop that does not end), \<open>Sleeps\<close> says that the routine would have to
  wait on a channel.
\<close>

datatype stop =
    Panic string
  | Fault string
  | Sleeps chan

type_synonym 'a res = "stop + 'a"

definition bind_res :: "'a res \<Rightarrow> ('a \<Rightarrow> 'b res) \<Rightarrow> 'b res" where
  "bind_res r f = (case r of Inl e \<Rightarrow> Inl e | Inr x \<Rightarrow> f x)"

lemma bind_res_simps [simp]:
  "bind_res (Inl e) f = Inl e"
  "bind_res (Inr x) f = f x"
  by (simp_all add: bind_res_def)

lemma bind_res_Inr_iff: "bind_res r f = Inr y \<longleftrightarrow> (\<exists>x. r = Inr x \<and> f x = Inr y)"
  by (cases r) auto

lemma bind_res_assoc: "bind_res (bind_res r f) g = bind_res r (\<lambda>x. bind_res (f x) g)"
  by (cases r) auto

lemma bind_res_cong [fundef_cong]:
  "r = r' \<Longrightarrow> (\<And>x. r' = Inr x \<Longrightarrow> f x = g x) \<Longrightarrow> bind_res r f = bind_res r' g"
  by (cases r') auto

text \<open>A null pointer is \<open>None\<close>; following it is a fault.\<close>

definition deref :: "string \<Rightarrow> 'a option \<Rightarrow> 'a res" where
  "deref what p = (case p of None \<Rightarrow> Inl (Fault what) | Some x \<Rightarrow> Inr x)"

lemma deref_simps [simp]:
  "deref w None = Inl (Fault w)"
  "deref w (Some x) = Inr x"
  by (simp_all add: deref_def)

lemma deref_Inr_iff [simp]: "deref w p = Inr x \<longleftrightarrow> p = Some x"
  by (cases p) auto


subsection \<open>Loops over an index range\<close>

fun for_each :: "('i \<Rightarrow> 's \<Rightarrow> 's res) \<Rightarrow> 'i list \<Rightarrow> 's \<Rightarrow> 's res" where
  "for_each f [] s = Inr s"
| "for_each f (x # xs) s = bind_res (f x s) (for_each f xs)"

lemma for_each_append: "for_each f (xs @ ys) s = bind_res (for_each f xs s) (for_each f ys)"
  by (induction xs arbitrary: s) (auto simp: bind_res_assoc intro: bind_res_cong)

text \<open>Total correctness of a counting loop, from an invariant on the counter.\<close>

lemma for_each_upt:
  assumes "I 0 s"
    and "\<And>i s. i < n \<Longrightarrow> I i s \<Longrightarrow> \<exists>s'. f i s = Inr s' \<and> I (Suc i) s'"
  shows "\<exists>s'. for_each f [0..<n] s = Inr s' \<and> I n s'"
  using assms(2)
proof (induction n)
  case 0
  then show ?case using assms(1) by simp
next
  case (Suc n)
  then obtain s' where s': "for_each f [0..<n] s = Inr s'" "I n s'"
    using less_Suc_eq by metis
  moreover from s' Suc.prems obtain s'' where "f n s' = Inr s''" "I (Suc n) s''"
    by blast
  ultimately show ?case
    by (simp add: for_each_append)
qed

text \<open>Total correctness of a loop over the elements of a list, from a plain invariant.\<close>

lemma for_each_inv:
  assumes "I s"
    and "\<And>x s. x \<in> set xs \<Longrightarrow> I s \<Longrightarrow> \<exists>s'. f x s = Inr s' \<and> I s'"
  shows "\<exists>s'. for_each f xs s = Inr s' \<and> I s'"
  using assms
proof (induction xs arbitrary: s)
  case Nil
  then show ?case by simp
next
  case (Cons x xs)
  from Cons.prems obtain s' where "f x s = Inr s'" "I s'"
    using list.set_intros(1) by metis
  with Cons show ?case by simp
qed

lemma for_each_preserves:
  assumes "for_each f xs s = Inr s'"
    and "I s"
    and "\<And>x s s'. x \<in> set xs \<Longrightarrow> I s \<Longrightarrow> f x s = Inr s' \<Longrightarrow> I s'"
  shows "I s'"
  using assms
proof (induction xs arbitrary: s)
  case Nil
  then show ?case by simp
next
  case (Cons x xs)
  from Cons.prems(1) obtain t where t: "f x s = Inr t" "for_each f xs t = Inr s'"
    by (auto simp: bind_res_Inr_iff)
  with Cons.prems(2,3) have "I t"
    using list.set_intros(1) by metis
  with Cons.IH [OF t(2)] Cons.prems(3) show ?case
    by (meson list.set_intros(2))
qed

lemma fold_upt_inv:
  assumes "I 0 s"
    and "\<And>i s. i < n \<Longrightarrow> I i s \<Longrightarrow> I (Suc i) (f i s)"
  shows "I n (fold f [0..<n] s)"
  using assms(2)
proof (induction n)
  case 0
  then show ?case using assms(1) by simp
next
  case (Suc n)
  have "I n (fold f [0..<n] s)"
    using Suc.prems by (intro Suc.IH) simp
  then have "I (Suc n) (f n (fold f [0..<n] s))"
    using Suc.prems by blast
  then show ?case by simp
qed


lemma find_SomeD: "find P xs = Some x \<Longrightarrow> x \<in> set xs \<and> P x"
  by (auto simp: find_Some_iff)


subsection \<open>The first index of an array that satisfies a test\<close>

lemma upt_at: "n < m \<Longrightarrow> [0..<m] = [0..<n] @ n # [Suc n..<m]"
  using upt_add_eq_append [of 0 n "m - n"] upt_conv_Cons [of n m] by simp

definition first_index :: "(nat \<Rightarrow> bool) \<Rightarrow> nat \<Rightarrow> nat option" where
  "first_index P n = find P [0..<n]"

lemma first_index_None [simp]: "first_index P n = None \<longleftrightarrow> (\<forall>i<n. \<not> P i)"
  by (auto simp: first_index_def find_None_iff)

lemma first_index_Some:
  "first_index P n = Some i \<longleftrightarrow> i < n \<and> P i \<and> (\<forall>j<i. \<not> P j)"
  by (auto simp: first_index_def find_Some_iff)

lemma first_index_SomeD: "first_index P n = Some i \<Longrightarrow> i < n \<and> P i"
  by (simp add: first_index_Some)

lemma first_index_unique:
  assumes "i < n" and "P i" and "\<And>j. j < n \<Longrightarrow> P j \<Longrightarrow> j = i"
  shows "first_index P n = Some i"
  unfolding first_index_Some using assms less_trans nat_neq_iff by blast

lemma first_index_exists: "i < n \<Longrightarrow> P i \<Longrightarrow> \<exists>j. first_index P n = Some j"
  by (metis first_index_None option.exhaust)

lemma first_index_cong:
  "(\<And>i. i < n \<Longrightarrow> P i = Q i) \<Longrightarrow> first_index P n = first_index Q n"
  by (auto simp: first_index_def intro: find_cong)


subsection \<open>The round-robin scan\<close>

text \<open>
  The loop \<open>do { r = (r + 1) % n; if(ok(r)) return r; } while(stop != r)\<close>. Its result is
  \<open>None\<close> when the fuel ran out, \<open>Some None\<close> when the loop ended at \<open>stop\<close> and
  \<open>Some (Some r)\<close> when it found \<open>r\<close>.
\<close>

fun rr_scan :: "nat \<Rightarrow> nat \<Rightarrow> (nat \<Rightarrow> bool) \<Rightarrow> nat \<Rightarrow> nat \<Rightarrow> nat option option" where
  "rr_scan 0 n ok stop r = None"
| "rr_scan (Suc fuel) n ok stop r =
     (let r' = (r + 1) mod n in
      if ok r' then Some (Some r')
      else if r' = stop then Some None
      else rr_scan fuel n ok stop r')"

text \<open>The order in which the scan visits the slots: once round the ring, ending at its start.\<close>

definition rr_order :: "nat \<Rightarrow> nat \<Rightarrow> nat list" where
  "rr_order n stop = map (\<lambda>k. (stop + k) mod n) [1..<Suc n]"

lemma rr_scan_aux:
  assumes "stop < n" and "j < n"
  shows "rr_scan (n - j) n ok stop ((stop + j) mod n) =
    Some (find ok (map (\<lambda>k. (stop + k) mod n) [Suc j..<Suc n]))"
  using assms(2)
proof (induction "n - j" arbitrary: j)
  case 0
  then show ?case using assms by simp
next
  case (Suc d)
  then have nj: "n - j = Suc d" by simp
  have step: "((stop + j) mod n + 1) mod n = (stop + Suc j) mod n"
    by (simp add: mod_Suc_eq)
  have upt: "[Suc j..<Suc n] = Suc j # [Suc (Suc j)..<Suc n]"
    using Suc.prems by (simp add: upt_conv_Cons)
  show ?case
  proof (cases "Suc j < n")
    case True
    have "(stop + Suc j) mod n \<noteq> stop"
    proof (cases "stop + Suc j < n")
      case False
      then have "(stop + Suc j) mod n = stop + Suc j - n"
        using True assms by (simp add: le_mod_geq)
      then show ?thesis using True False by arith
    qed simp
    moreover have "n - Suc j = d" using nj by simp
    ultimately show ?thesis
      using Suc.hyps(1) [of "Suc j"] True nj step upt by (simp add: Let_def)
  next
    case False
    then have j: "Suc j = n" using Suc.prems by simp
    then have "d = 0" using nj by simp
    have "(stop + n) mod n = stop" using assms by simp
    with j nj step upt \<open>d = 0\<close> show ?thesis by (simp add: Let_def)
  qed
qed

lemma rr_scan_find: "stop < n \<Longrightarrow> rr_scan n n ok stop stop = Some (find ok (rr_order n stop))"
  using rr_scan_aux [of stop n 0 ok] by (simp add: rr_order_def)

lemma set_rr_order: "stop < n \<Longrightarrow> set (rr_order n stop) = {..<n}"
proof -
  assume s: "stop < n"
  have "i \<in> (\<lambda>k. (stop + k) mod n) ` {1..<Suc n}" if "i < n" for i
  proof (cases "stop < i")
    case True
    then show ?thesis using that by (intro image_eqI [of _ _ "i - stop"]) auto
  next
    case False
    then have "(stop + (n - stop + i)) mod n = i" "n - stop + i \<in> {1..<Suc n}"
      using s that by auto
    then show ?thesis by (metis imageI)
  qed
  then show ?thesis using s by (auto simp: rr_order_def simp del: upt_Suc)
qed

lemma rr_order_nth: "k < n \<Longrightarrow> rr_order n stop ! k = (stop + Suc k) mod n"
  unfolding rr_order_def by (simp del: upt_Suc)

lemma rr_order_shift:
  assumes "Suc (k + e) < n"
  shows "rr_order n (rr_order n stop ! k) ! e = rr_order n stop ! Suc (k + e)"
proof -
  have "((stop + Suc k) mod n + Suc e) mod n = (stop + Suc k + Suc e) mod n"
    by (rule mod_add_left_eq)
  also have "stop + Suc k + Suc e = stop + Suc (Suc (k + e))" by simp
  finally show ?thesis using assms by (simp only: rr_order_nth)
qed

lemma length_rr_order [simp]: "length (rr_order n stop) = n"
  by (simp add: rr_order_def)

lemma rr_scan_found:
  "stop < n \<Longrightarrow> i < n \<Longrightarrow> ok i \<Longrightarrow> \<exists>r. rr_scan n n ok stop stop = Some (Some r) \<and> r < n \<and> ok r"
proof -
  assume a: "stop < n" "i < n" "ok i"
  then have "find ok (rr_order n stop) \<noteq> None"
    by (auto simp: find_None_iff set_rr_order)
  then obtain r where r: "find ok (rr_order n stop) = Some r" by blast
  then have "ok r" "r \<in> set (rr_order n stop)"
    by (auto simp: find_Some_iff)
  with a r show ?thesis by (auto simp: rr_scan_find set_rr_order)
qed

lemma rr_scan_SomeD:
  "stop < n \<Longrightarrow> rr_scan n n ok stop stop = Some (Some r) \<Longrightarrow> r < n \<and> ok r"
  by (auto simp: rr_scan_find find_Some_iff)
     (metis length_rr_order nth_mem set_rr_order lessThan_iff)

lemma rr_scan_not_found:
  "stop < n \<Longrightarrow> rr_scan n n ok stop stop = Some None \<longleftrightarrow> (\<forall>i<n. \<not> ok i)"
  by (auto simp: rr_scan_find find_None_iff set_rr_order)

end
