(* ===== verification/Proc_Types.thy ===== *)
theory Proc_Types
  imports Prelude
begin

text \<open>
  The data of proc.h, param.h and x86.h: process states, the stride and MLFQ tables of the
  scheduler, the trap frame, the process structure, and the state \<open>kst\<close> of the process table
  and the scheduler, which proc.c and sched.c protect with \<open>ptable.lock\<close>. Arrays are functions
  from an index, pointers into an array are \<open>option\<close> indices (a queue and a slot for an MLFQ
  node). The searches over the process table that both files share come last.
\<close>

definition NPROC :: nat where "NPROC = 64"
definition NOFILE :: nat where "NOFILE = 16"

datatype procstate = UNUSED | EMBRYO | SLEEPING | RUNNABLE | RUNNING | ZOMBIE

datatype stridestate = USED | EMPTY | MLFQ | STRIDE

record stride =
  st_tickets :: int
  st_stride :: int
  st_pass :: int
  st_pid :: int
  st_isMLFQ :: int
  st_state :: stridestate

record mlfq_node =
  m_state :: stridestate
  m_eticks :: int
  m_pid :: int
  m_prior :: nat

record fq =
  q_table :: "nat \<Rightarrow> mlfq_node"
  q_count :: int
  q_recent :: nat

record trapframe =
  tf_edi :: u32
  tf_esi :: u32
  tf_ebp :: u32
  tf_ebx :: u32
  tf_edx :: u32
  tf_ecx :: u32
  tf_eax :: u32
  tf_gs :: u16
  tf_fs :: u16
  tf_es :: u16
  tf_ds :: u16
  tf_trapno :: u32
  tf_err :: u32
  tf_eip :: u32
  tf_cs :: u16
  tf_eflags :: u32
  tf_esp :: u32
  tf_ss :: u16

text \<open>
  \<open>p_pgdir\<close> and \<open>p_kstack\<close> are kernel addresses (0 is the null pointer). \<open>p_ofile\<close> holds indices
  into the file table, \<open>p_cwd\<close> an index into the inode cache. The saved kernel context is the
  machine's and is not kept.
\<close>

record proc =
  p_sz :: u32
  p_pgdir :: u32
  p_kstack :: u32
  p_state :: procstate
  p_pid :: int
  p_parent :: "nat option"
  p_tf :: trapframe
  p_chan :: "chan option"
  p_killed :: bool
  p_ofile :: "nat \<Rightarrow> nat option"
  p_cwd :: "nat option"
  p_name :: "u8 list"
  p_schedstate :: stridestate
  p_pstride :: "nat option"
  p_mlfq :: "(nat \<times> nat) option"
  p_retVal :: u32
  p_tid :: int
  p_master :: "nat option"
  p_base :: u32
  p_cur :: nat
  p_stack_size :: int
  p_stack :: "nat \<Rightarrow> u32"

record kst =
  ptable :: "nat \<Rightarrow> proc"
  s_table :: "nat \<Rightarrow> stride"
  m_table :: "nat \<Rightarrow> fq"
  nextpid :: int
  initproc :: "nat option"
  schedticks :: u32

definition stride1 :: int where "stride1 = 2 ^ 20"

abbreviation upd_proc :: "nat \<Rightarrow> (proc \<Rightarrow> proc) \<Rightarrow> kst \<Rightarrow> kst" where
  "upd_proc i f s \<equiv> s\<lparr>ptable := (ptable s)(i := f (ptable s i))\<rparr>"

abbreviation upd_stride :: "nat \<Rightarrow> (stride \<Rightarrow> stride) \<Rightarrow> kst \<Rightarrow> kst" where
  "upd_stride i f s \<equiv> s\<lparr>s_table := (s_table s)(i := f (s_table s i))\<rparr>"

abbreviation upd_fq :: "nat \<Rightarrow> (fq \<Rightarrow> fq) \<Rightarrow> kst \<Rightarrow> kst" where
  "upd_fq q f s \<equiv> s\<lparr>m_table := (m_table s)(q := f (m_table s q))\<rparr>"

abbreviation node :: "kst \<Rightarrow> nat \<Rightarrow> nat \<Rightarrow> mlfq_node" where
  "node s q i \<equiv> q_table (m_table s q) i"

abbreviation upd_node :: "nat \<Rightarrow> nat \<Rightarrow> (mlfq_node \<Rightarrow> mlfq_node) \<Rightarrow> kst \<Rightarrow> kst" where
  "upd_node q i f s \<equiv>
     upd_fq q (\<lambda>t. t\<lparr>q_table := (q_table t)(i := f (q_table t i))\<rparr>) s"

text \<open>
  The loop \<open>for(p = ptable.proc; p < &ptable.proc[NPROC]; p++) if(c(p)) ...\<close> whose body
  writes only \<open>*p\<close>.
\<close>

definition upd_procs :: "(nat \<Rightarrow> proc \<Rightarrow> bool) \<Rightarrow> (proc \<Rightarrow> proc) \<Rightarrow> kst \<Rightarrow> kst" where
  "upd_procs c f s =
     s\<lparr>ptable := \<lambda>i. if i < NPROC \<and> c i (ptable s i) then f (ptable s i) else ptable s i\<rparr>"

lemma upd_procs_sel [simp]:
  "s_table (upd_procs c f s) = s_table s"
  "m_table (upd_procs c f s) = m_table s"
  "nextpid (upd_procs c f s) = nextpid s"
  "initproc (upd_procs c f s) = initproc s"
  "schedticks (upd_procs c f s) = schedticks s"
  "ptable (upd_procs c f s) i =
     (if i < NPROC \<and> c i (ptable s i) then f (ptable s i) else ptable s i)"
  by (simp_all add: upd_procs_def)

text \<open>proc.c: the master thread of a process is the slot with its pid and tid 1.\<close>

definition find_master :: "int \<Rightarrow> kst \<Rightarrow> nat option" where
  "find_master pid s = first_index (\<lambda>i. p_pid (ptable s i) = pid \<and> p_tid (ptable s i) = 1) NPROC"

text \<open>sched.c: is some thread of this process ready to run?\<close>

definition isRunnable :: "int \<Rightarrow> kst \<Rightarrow> bool" where
  "isRunnable pid s \<longleftrightarrow>
     first_index (\<lambda>i. p_pid (ptable s i) = pid \<and> p_state (ptable s i) = RUNNABLE) NPROC \<noteq> None"

lemma find_master_SomeD:
  "find_master pid s = Some m \<Longrightarrow>
     m < NPROC \<and> p_pid (ptable s m) = pid \<and> p_tid (ptable s m) = 1"
  by (auto simp: find_master_def dest: first_index_SomeD)

lemma isRunnable_iff:
  "isRunnable pid s \<longleftrightarrow>
     (\<exists>i<NPROC. p_pid (ptable s i) = pid \<and> p_state (ptable s i) = RUNNABLE)"
  unfolding isRunnable_def using first_index_None by (metis (mono_tags, lifting))

lemma NPROC_pos [simp]: "0 < NPROC" by (simp add: NPROC_def)

end
