(* ===== verification/Sched.thy ===== *)
theory Sched
  imports Proc_Types
begin

text \<open>
  sched.c: the two-level scheduler. Stride scheduling shares the CPU between the processes
  that asked for a share (\<open>s_table\<close>, entry 0 standing for all the others), and a three-level
  feedback queue (\<open>m_table\<close>) orders the others; \<open>pick_lwp\<close> rotates among the threads of the
  chosen process. Every operation runs with \<open>ptable.lock\<close> held and is one state transformer;
  \<open>me\<close> is the slot of the running process, the result of \<open>myproc()\<close>.
\<close>

subsection \<open>Choosing a thread of a process\<close>

definition pick_lwp :: "int \<Rightarrow> kst \<Rightarrow> (nat option \<times> kst) res" where
  "pick_lwp pid s =
     bind_res (deref ''pick_lwp: master_thread'' (find_master pid s)) (\<lambda>m.
     let cur = p_cur (ptable s m);
         ok = (\<lambda>i. p_state (ptable s i) = RUNNABLE \<and> p_pid (ptable s i) = pid)
     in case rr_scan NPROC NPROC ok cur cur of
          None \<Rightarrow> Inl (Fault ''pick_lwp: endless loop'')
        | Some (Some r) \<Rightarrow> Inr (Some r, upd_proc m (\<lambda>p. p\<lparr>p_cur := r\<rparr>) s)
        | Some None \<Rightarrow>
            if p_state (ptable s cur) = RUNNABLE
            then Inr (Some cur, upd_proc m (\<lambda>p. p\<lparr>p_cur := cur\<rparr>) s)
            else Inr (None, s))"


subsection \<open>The feedback queues\<close>

text \<open>The slots of the three queues in the order the nested loops visit them.\<close>

definition all_nodes :: "(nat \<times> nat) list" where
  "all_nodes = List.product [0..<3] [0..<NPROC]"

definition find_node :: "int \<Rightarrow> kst \<Rightarrow> (nat \<times> nat) option" where
  "find_node pid s = find (\<lambda>(q, i). m_pid (node s q i) = pid) all_nodes"

text \<open>
  \<open>schedstate = UNUSED\<close> stores the procstate constant 0 in a field of another enum, where 0
  is \<open>USED\<close>.
\<close>

definition unlink_procs :: "int \<Rightarrow> kst \<Rightarrow> kst" where
  "unlink_procs pid = upd_procs (\<lambda>_ p. p_pid p = pid) (\<lambda>p. p\<lparr>p_schedstate := USED, p_mlfq := None\<rparr>)"

definition pop_mlfq :: "int \<Rightarrow> kst \<Rightarrow> int \<times> kst" where
  "pop_mlfq pid s =
     (case find_node pid s of
        None \<Rightarrow> (-1, s)
      | Some (q, i) \<Rightarrow>
          let s = unlink_procs pid s;
              s = upd_node q i (\<lambda>m. m\<lparr>m_state := EMPTY, m_pid := 0, m_eticks := 0\<rparr>) s;
              k = m_prior (node s q i)
          in (0, upd_fq k (\<lambda>t. t\<lparr>q_count := q_count t - 1\<rparr>) s))"

definition push_mlfq :: "int \<Rightarrow> int \<Rightarrow> kst \<Rightarrow> int \<times> kst" where
  "push_mlfq pid prior s =
     (if prior < 0 \<or> prior > 2 then (-1, s)
      else let q = nat prior in
        (case first_index (\<lambda>i. m_state (node s q i) = EMPTY) NPROC of
           None \<Rightarrow> (0, s)
         | Some i \<Rightarrow>
             let s = upd_procs (\<lambda>_ p. p_pid p = pid)
                       (\<lambda>p. p\<lparr>p_schedstate := MLFQ, p_mlfq := Some (q, i)\<rparr>) s;
                 s = upd_fq q (\<lambda>t. t\<lparr>q_count := q_count t + 1\<rparr>) s
             in (0, upd_node q i (\<lambda>m. m\<lparr>m_pid := pid, m_state := USED, m_eticks := 0\<rparr>) s)))"

definition move_prior :: "int \<Rightarrow> int \<Rightarrow> kst \<Rightarrow> int \<times> kst" where
  "move_prior pid prior s =
     (let (r, s') = pop_mlfq pid s in
      if r = -1 then (-1, s') else push_mlfq pid prior s')"

text \<open>One queue of \<open>pick_mlfq\<close>; the outer loop takes the first queue that yields a process.\<close>

fun pick_queue :: "nat list \<Rightarrow> kst \<Rightarrow> (nat option \<times> kst) res" where
  "pick_queue [] s = Inr (None, s)"
| "pick_queue (q # qs) s =
     (if q_count (m_table s q) = 0 then pick_queue qs s
      else let recent = q_recent (m_table s q);
               ok = (\<lambda>i. m_state (node s q i) = USED \<and> isRunnable (m_pid (node s q i)) s)
           in case rr_scan NPROC NPROC ok recent recent of
                None \<Rightarrow> Inl (Fault ''pick_mlfq: endless loop'')
              | Some (Some r) \<Rightarrow>
                  let s = upd_fq q (\<lambda>t. t\<lparr>q_recent := r\<rparr>) s
                  in pick_lwp (m_pid (node s q r)) s
              | Some None \<Rightarrow> pick_queue qs s)"

definition pick_mlfq :: "kst \<Rightarrow> (nat option \<times> kst) res" where
  "pick_mlfq = pick_queue [0..<3]"

text \<open>Priority boost: every used node, queue by queue, goes back to the top queue.\<close>

definition boost_node :: "nat \<Rightarrow> nat \<Rightarrow> kst \<Rightarrow> kst" where
  "boost_node q i s =
     (if m_state (node s q i) \<noteq> USED then s else snd (move_prior (m_pid (node s q i)) 0 s))"

definition boost_queue :: "nat \<Rightarrow> kst \<Rightarrow> kst" where
  "boost_queue q s =
     (if q_count (m_table s q) = 0 then s else fold (boost_node q) [0..<NPROC] s)"

definition prior_boost :: "kst \<Rightarrow> kst" where
  "prior_boost s = (fold boost_queue [0..<3] s)\<lparr>schedticks := 0\<rparr>"


subsection \<open>Stride scheduling\<close>

definition add_pass_stride :: "nat \<Rightarrow> kst \<Rightarrow> kst res" where
  "add_pass_stride me s =
     bind_res (deref ''add_pass_stride: pstride'' (p_pstride (ptable s me))) (\<lambda>k.
     let s = upd_stride k (\<lambda>t. t\<lparr>st_pass := st_pass t + st_stride t\<rparr>) s in
     if st_pass (s_table s k) > 100000000
     then Inr (s\<lparr>s_table := \<lambda>i. if i < NPROC \<and> st_state (s_table s i) = USED
                               then (s_table s i)\<lparr>st_pass := 0\<rparr> else s_table s i\<rparr>)
     else Inr s)"

text \<open>The first loop of \<open>pick_stride\<close>: the runnable entry with the least pass, entry 0 winning ties.\<close>

definition min_stride :: "kst \<Rightarrow> nat" where
  "min_stride s =
     fold (\<lambda>i ret. if st_state (s_table s i) = USED \<and> isRunnable (st_pid (s_table s i)) s
                      \<and> st_pass (s_table s ret) > st_pass (s_table s i)
                    then i else ret) [0..<NPROC] 0"

text \<open>The second loop: the same minimum, taken when no process of the feedback queues can run.\<close>

definition min_stride_alone :: "kst \<Rightarrow> nat" where
  "min_stride_alone s =
     snd (fold (\<lambda>i (minimum, ret).
                  if st_state (s_table s i) \<noteq> EMPTY \<and> isRunnable (st_pid (s_table s i)) s
                     \<and> minimum > st_pass (s_table s i)
                  then (st_pass (s_table s i), i) else (minimum, ret))
            [0..<NPROC] (1000000000, 0))"

definition pick_stride :: "kst \<Rightarrow> (nat option \<times> kst) res" where
  "pick_stride s =
     (let ret = min_stride s in
      if ret = 0 then
        bind_res (pick_mlfq s) (\<lambda>(p, s).
        case p of
          None \<Rightarrow> pick_lwp (st_pid (s_table s (min_stride_alone s))) s
        | Some _ \<Rightarrow> Inr (p, s))
      else pick_lwp (st_pid (s_table s ret)) s)"

definition set_cpu_share :: "nat \<Rightarrow> int \<Rightarrow> kst \<Rightarrow> (int \<times> kst) res" where
  "set_cpu_share me inquire s =
     (let master = find_master (p_pid (ptable s me)) s in
      if inquire \<le> 0 \<or> inquire > 80 then Inr (-1, s)
      else if p_schedstate (ptable s me) = STRIDE then Inr (-1, s)
      else
        let used = filter (\<lambda>i. st_state (s_table s i) = USED) [1..<NPROC];
            sum = fold (\<lambda>i a. a + st_tickets (s_table s i)) used inquire;
            min_pass = fold (\<lambda>i a. if a > st_pass (s_table s i) then st_pass (s_table s i) else a)
                         used 1000000000;
            min_pass = (if min_pass > st_pass (s_table s 0) then st_pass (s_table s 0) else min_pass)
        in
        if sum > 80 then Inr (-1, s)
        else bind_res (deref ''set_cpu_share: master_thread'' master) (\<lambda>m.
          let mpid = p_pid (ptable s m);
              s = snd (pop_mlfq mpid s)
          in case first_index (\<lambda>i. st_state (s_table s (Suc i)) = EMPTY) (NPROC - 1) of
               None \<Rightarrow> Inl (Fault ''set_cpu_share: s_table overrun'')
             | Some j \<Rightarrow>
                 let k = Suc j;
                     s = upd_stride k (\<lambda>t. t\<lparr>st_tickets := inquire, st_stride := stride1 div inquire,
                                            st_pass := min_pass, st_state := USED, st_pid := mpid\<rparr>) s;
                     t0 = st_tickets (s_table s 0) - inquire
                 in if t0 = 0 then Inl (Fault ''set_cpu_share: division by zero'')
                    else
                      let s = upd_stride 0 (\<lambda>t. t\<lparr>st_tickets := t0, st_stride := stride1 div t0\<rparr>) s
                      in Inr (0, upd_procs (\<lambda>_ p. p_pid p = mpid)
                                   (\<lambda>p. p\<lparr>p_schedstate := STRIDE, p_pstride := Some k\<rparr>) s)))"

definition getlev :: "nat \<Rightarrow> kst \<Rightarrow> int res" where
  "getlev me s =
     (let p = ptable s me in
      if p_schedstate p = STRIDE then Inr (-1)
      else bind_res (deref ''getlev: pmlfq_node'' (p_mlfq p)) (\<lambda>(q, i).
           Inr (int (m_prior (node s q i)))))"


subsection \<open>The clock tick\<close>

text \<open>
  \<open>add_tick\<close> charges a tick to the running process and answers whether it must yield. The
  priority is read before \<open>move_prior\<close>, and \<open>elapsed_ticks\<close> is the local copy.
\<close>

definition add_tick :: "nat \<Rightarrow> kst \<Rightarrow> (bool \<times> kst) res" where
  "add_tick me s =
     bind_res (add_pass_stride me s) (\<lambda>s.
     if p_state (ptable s me) \<noteq> RUNNING then Inr (True, s)
     else
       let cur_tick = sint (schedticks s);
           s = s\<lparr>schedticks := schedticks s + 1\<rparr>
       in
       if p_schedstate (ptable s me) \<noteq> MLFQ then Inr (cur_tick mod 5 = 0, s)
       else bind_res (deref ''add_tick: pmlfq_node'' (p_mlfq (ptable s me))) (\<lambda>(q, i).
         let s = upd_node q i (\<lambda>m. m\<lparr>m_eticks := m_eticks m + 1\<rparr>) s;
             elapsed = m_eticks (node s q i);
             prior = m_prior (node s q i);
             pid = p_pid (ptable s me)
         in
         if prior = 0 then
           let s = (if elapsed \<ge> 20 then snd (move_prior pid 1 s) else s) in
           if elapsed mod 5 = 0
           then Inr (True, if cur_tick \<ge> 200 then prior_boost s else s)
           else Inr (False, s)
         else if prior = 1 then
           let s = (if elapsed \<ge> 40 then snd (move_prior pid 2 s) else s) in
           if elapsed mod 10 = 0
           then Inr (True, if cur_tick \<ge> 200 then prior_boost s else s)
           else Inr (False, s)
         else if prior = 2 then
           if elapsed mod 20 = 0
           then Inr (True, if cur_tick \<ge> 200 then (prior_boost s)\<lparr>schedticks := 0\<rparr> else s)
           else Inr (False, s)
         else Inr (True, s)))"


subsection \<open>The scheduler loop\<close>

text \<open>
  The checks of \<open>switchuvm\<close> in vm.c: the process must exist and have a kernel stack and a
  page directory. Loading the registers is the machine's.
\<close>

definition switchuvm :: "nat option \<Rightarrow> kst \<Rightarrow> nat res" where
  "switchuvm p s =
     (case p of
        None \<Rightarrow> Inl (Panic ''switchuvm: no process'')
      | Some i \<Rightarrow>
          if p_kstack (ptable s i) = 0 then Inl (Panic ''switchuvm: no kstack'')
          else if p_pgdir (ptable s i) = 0 then Inl (Panic ''switchuvm: no pgdir'')
          else Inr i)"

text \<open>
  The body of the inner loop of \<open>scheduler\<close> for one candidate slot, up to \<open>swtch\<close>: it
  answers the slot it dispatched. The test \<open>p < 0 || p > &ptable.proc[NPROC]\<close> fails for a null
  pointer and for every slot of the table, so \<open>cand\<close> is never used as the process to run.
\<close>

definition sched_cand :: "nat \<Rightarrow> kst \<Rightarrow> (nat option \<times> kst) res" where
  "sched_cand cand s =
     (if p_state (ptable s cand) \<noteq> RUNNABLE then Inr (None, s)
      else bind_res (pick_stride s) (\<lambda>(p, s).
           bind_res (switchuvm p s) (\<lambda>i.
           Inr (Some i, upd_proc i (\<lambda>p. p\<lparr>p_state := RUNNING\<rparr>) s))))"

end
