(* ===== verification/Mlfq_Queue.thy ===== *)
theory Mlfq_Queue
  imports Sched
begin

text \<open>
  The feedback queues as an abstract object: a finite map from a process id to its level and
  elapsed ticks. \<open>mlfq_ok\<close> is the representation invariant, \<open>abs_mlfq\<close> the abstraction; the
  contract of push and pop is the locale \<open>feedback_queue\<close>, whose client lemma covers moving a
  process and boosting all of them. The queue counters are only an upper bound, because
  \<open>delete_thread\<close> and \<open>thread_create\<close> empty a node without counting it.
\<close>

definition used :: "kst \<Rightarrow> nat \<Rightarrow> nat set" where
  "used s q = {i. i < NPROC \<and> m_state (node s q i) = USED}"

definition used_nodes :: "kst \<Rightarrow> (nat \<times> nat) set" where
  "used_nodes s = {(q, i). q < 3 \<and> i < NPROC \<and> m_state (node s q i) = USED}"

abbreviation node_pid :: "kst \<Rightarrow> nat \<times> nat \<Rightarrow> int" where
  "node_pid s \<equiv> \<lambda>(q, i). m_pid (node s q i)"

definition node_ok :: "kst \<Rightarrow> nat \<Rightarrow> nat \<Rightarrow> bool" where
  "node_ok s q i \<longleftrightarrow> m_prior (node s q i) = q
     \<and> (m_state (node s q i) = USED \<and> m_pid (node s q i) \<noteq> 0
        \<or> m_state (node s q i) = EMPTY \<and> m_pid (node s q i) = 0)"

definition mlfq_ok :: "kst \<Rightarrow> bool" where
  "mlfq_ok s \<longleftrightarrow>
     (\<forall>q<3. \<forall>i<NPROC. node_ok s q i)
     \<and> (\<forall>q<3. q_recent (m_table s q) < NPROC \<and> int (card (used s q)) \<le> q_count (m_table s q))
     \<and> inj_on (node_pid s) (used_nodes s)
     \<and> card (used_nodes s) \<le> NPROC"

definition abs_mlfq :: "kst \<Rightarrow> int \<rightharpoonup> nat \<times> int" where
  "abs_mlfq s pid =
     (if pid = 0 then None
      else map_option (\<lambda>(q, i). (q, m_eticks (node s q i))) (find_node pid s))"

lemma used_nodes_Sigma: "used_nodes s = Sigma {..<3} (used s)"
  by (auto simp: used_nodes_def used_def)

lemma finite_used [simp]: "finite (used s q)"
  by (simp add: used_def)

lemma finite_used_nodes [simp]: "finite (used_nodes s)"
  by (simp add: used_nodes_Sigma)

lemma card_used_nodes: "card (used_nodes s) = card (used s 0) + card (used s 1) + card (used s 2)"
proof -
  have "{..<3::nat} = {0, 1, 2}" by auto
  then show ?thesis by (simp add: used_nodes_Sigma card_SigmaI)
qed

lemma used_nodes_cong:
  "(\<And>q i. q < 3 \<Longrightarrow> i < NPROC \<Longrightarrow> m_state (node s' q i) = m_state (node s q i)) \<Longrightarrow>
     used_nodes s' = used_nodes s"
  by (auto simp: used_nodes_def)

lemma set_all_nodes: "set all_nodes = {(q, i). q < 3 \<and> i < NPROC}"
  by (auto simp: all_nodes_def)

lemma mlfq_okD:
  assumes "mlfq_ok s"
  shows "q < 3 \<Longrightarrow> i < NPROC \<Longrightarrow> node_ok s q i"
    and "q < 3 \<Longrightarrow> q_recent (m_table s q) < NPROC"
    and "q < 3 \<Longrightarrow> int (card (used s q)) \<le> q_count (m_table s q)"
    and "inj_on (node_pid s) (used_nodes s)"
    and "card (used_nodes s) \<le> NPROC"
  using assms by (auto simp: mlfq_ok_def)

lemma used_nodesD:
  assumes "mlfq_ok s" and "(q, i) \<in> used_nodes s"
  shows "q < 3" "i < NPROC" "m_state (node s q i) = USED" "m_pid (node s q i) \<noteq> 0"
    "m_prior (node s q i) = q"
  using assms(2) mlfq_okD(1) [OF assms(1), of q i] by (auto simp: used_nodes_def node_ok_def)

text \<open>Under the invariant a process id names at most one node, and that node is in use.\<close>

lemma find_node_iff:
  assumes "mlfq_ok s" and "pid \<noteq> 0"
  shows "find_node pid s = Some (q, i) \<longleftrightarrow>
    (q, i) \<in> used_nodes s \<and> m_pid (node s q i) = pid"
proof
  assume "find_node pid s = Some (q, i)"
  then have "(q, i) \<in> set all_nodes" "m_pid (node s q i) = pid"
    by (auto simp: find_node_def dest!: find_SomeD)
  then show "(q, i) \<in> used_nodes s \<and> m_pid (node s q i) = pid"
    using mlfq_okD(1) [OF assms(1), of q i] assms(2)
    by (auto simp: used_nodes_def set_all_nodes node_ok_def)
next
  assume r: "(q, i) \<in> used_nodes s \<and> m_pid (node s q i) = pid"
  then have "find_node pid s \<noteq> None"
    by (auto simp: find_node_def find_None_iff used_nodes_def set_all_nodes)
  then obtain q' i' where f: "find_node pid s = Some (q', i')" by auto
  then have "(q', i') \<in> set all_nodes" "m_pid (node s q' i') = pid"
    by (auto simp: find_node_def dest!: find_SomeD)
  then have "(q', i') \<in> used_nodes s" "m_pid (node s q' i') = pid"
    using mlfq_okD(1) [OF assms(1), of q' i'] assms(2)
    by (auto simp: used_nodes_def set_all_nodes node_ok_def)
  then have "(q', i') = (q, i)"
    using r inj_onD [OF mlfq_okD(4) [OF assms(1)], of "(q', i')" "(q, i)"] by simp
  then show "find_node pid s = Some (q, i)" using f by simp
qed

lemma find_node_None_iff:
  assumes "mlfq_ok s" and "pid \<noteq> 0"
  shows "find_node pid s = None \<longleftrightarrow> pid \<notin> node_pid s ` used_nodes s"
proof -
  have "find_node pid s \<noteq> None \<longleftrightarrow> (\<exists>q i. find_node pid s = Some (q, i))" by auto
  also have "\<dots> \<longleftrightarrow> pid \<in> node_pid s ` used_nodes s"
    by (force simp: find_node_iff [OF assms])
  finally show ?thesis by blast
qed

lemma dom_abs_mlfq:
  assumes "mlfq_ok s"
  shows "dom (abs_mlfq s) = node_pid s ` used_nodes s"
proof (intro set_eqI)
  fix pid
  have "0 \<notin> node_pid s ` used_nodes s"
    using used_nodesD(4) [OF assms] by fastforce
  then show "pid \<in> dom (abs_mlfq s) \<longleftrightarrow> pid \<in> node_pid s ` used_nodes s"
    using find_node_None_iff [OF assms, of pid] by (auto simp: abs_mlfq_def dom_def)
qed

lemma card_dom_abs_mlfq: "mlfq_ok s \<Longrightarrow> card (dom (abs_mlfq s)) = card (used_nodes s)"
  by (simp add: dom_abs_mlfq card_image mlfq_okD(4))

lemma abs_mlfq_Some:
  assumes "mlfq_ok s"
  shows "abs_mlfq s pid = Some (q, e) \<longleftrightarrow>
    (\<exists>i. (q, i) \<in> used_nodes s \<and> m_pid (node s q i) = pid \<and> m_eticks (node s q i) = e)"
proof (cases "pid = 0")
  case True
  then show ?thesis
    using used_nodesD(4) [OF assms] by (fastforce simp: abs_mlfq_def)
next
  case False
  then show ?thesis by (auto simp: abs_mlfq_def find_node_iff [OF assms False])
qed

lemma used_node_abs:
  assumes "mlfq_ok s" and "(q, i) \<in> used_nodes s"
  shows "abs_mlfq s (m_pid (node s q i)) = Some (q, m_eticks (node s q i))"
  using assms by (auto simp: abs_mlfq_Some)

lemma abs_mlfq_None:
  assumes "mlfq_ok s"
  shows "abs_mlfq s pid = None \<longleftrightarrow> pid \<notin> node_pid s ` used_nodes s"
  by (metis dom_abs_mlfq [OF assms] domIff)

text \<open>The abstraction is determined by the used nodes.\<close>

lemma abs_mlfq_eqI:
  assumes "mlfq_ok s"
    and "\<And>pid q e. f pid = Some (q, e) \<longleftrightarrow>
      (\<exists>i. (q, i) \<in> used_nodes s \<and> m_pid (node s q i) = pid \<and> m_eticks (node s q i) = e)"
  shows "abs_mlfq s = f"
proof (rule ext)
  fix pid
  have "abs_mlfq s pid = Some qe \<longleftrightarrow> f pid = Some qe" for qe
    by (cases qe) (simp add: abs_mlfq_Some [OF assms(1)] assms(2))
  then show "abs_mlfq s pid = f pid" by (metis option.exhaust)
qed


subsection \<open>Removing a process from its queue\<close>

lemma used_Diff:
  assumes "used s' q = used s q - {i}" and "i \<in> used s q"
  shows "int (card (used s' q)) = int (card (used s q)) - 1"
  using assms by (simp add: card_Diff_singleton card_gt_0_iff of_nat_diff) (metis Suc_pred
      card_gt_0_iff empty_iff finite_used of_nat_Suc add_diff_cancel_left')

lemma pop_mlfq_effect:
  assumes ok: "mlfq_ok s" and f: "find_node pid s = Some (q, i)" and "pid \<noteq> 0"
  defines "s' \<equiv> snd (pop_mlfq pid s)"
  shows "fst (pop_mlfq pid s) = 0"
    and "node s' q' i' = (if (q', i') = (q, i)
           then (node s q i)\<lparr>m_state := EMPTY, m_pid := 0, m_eticks := 0\<rparr> else node s q' i')"
    and "q_recent (m_table s' q') = q_recent (m_table s q')"
    and "q_count (m_table s' q') = (if q' = q then q_count (m_table s q) - 1 else q_count (m_table s q'))"
    and "ptable s' = ptable (unlink_procs pid s)"
    and "s_table s' = s_table s" "nextpid s' = nextpid s" "initproc s' = initproc s"
      "schedticks s' = schedticks s"
proof -
  have "(q, i) \<in> used_nodes s"
    using f find_node_iff [OF ok \<open>pid \<noteq> 0\<close>] by simp
  then have pr: "m_prior (node s q i) = q"
    using mlfq_okD(1) [OF ok, of q i] by (simp add: used_nodes_def node_ok_def)
  show "fst (pop_mlfq pid s) = 0"
    and "node s' q' i' = (if (q', i') = (q, i)
           then (node s q i)\<lparr>m_state := EMPTY, m_pid := 0, m_eticks := 0\<rparr> else node s q' i')"
    and "q_recent (m_table s' q') = q_recent (m_table s q')"
    and "q_count (m_table s' q') = (if q' = q then q_count (m_table s q) - 1 else q_count (m_table s q'))"
    and "ptable s' = ptable (unlink_procs pid s)"
    and "s_table s' = s_table s" "nextpid s' = nextpid s" "initproc s' = initproc s"
      "schedticks s' = schedticks s"
    using f pr by (auto simp: s'_def pop_mlfq_def Let_def unlink_procs_def)
qed


text \<open>Two states with the same nodes up to one emptied slot.\<close>

lemma pop_mlfq_used:
  assumes ok: "mlfq_ok s" and f: "find_node pid s = Some (q, i)" and "pid \<noteq> 0"
  defines "s' \<equiv> snd (pop_mlfq pid s)"
  shows "used_nodes s' = used_nodes s - {(q, i)}"
    and "used s' k = (if k = q then used s q - {i} else used s k)"
    and "(k, j) \<in> used_nodes s' \<Longrightarrow> node s' k j = node s k j"
proof -
  note e = pop_mlfq_effect(2) [OF ok f \<open>pid \<noteq> 0\<close>, folded s'_def]
  show "used_nodes s' = used_nodes s - {(q, i)}"
    and "used s' k = (if k = q then used s q - {i} else used s k)"
    and "(k, j) \<in> used_nodes s' \<Longrightarrow> node s' k j = node s k j"
    by (auto simp: used_nodes_def used_def e split: if_splits)
qed

lemma pop_mlfq_ok:
  assumes ok: "mlfq_ok s" and "pid \<noteq> 0"
  shows "mlfq_ok (snd (pop_mlfq pid s))"
proof (cases "find_node pid s")
  case None
  then show ?thesis using ok by (simp add: pop_mlfq_def)
next
  case (Some qi)
  obtain q i where f: "find_node pid s = Some (q, i)" using Some by (cases qi) auto
  let ?s = "snd (pop_mlfq pid s)"
  note e = pop_mlfq_effect [OF ok f \<open>pid \<noteq> 0\<close>]
  note u = pop_mlfq_used [OF ok f \<open>pid \<noteq> 0\<close>]
  have qi: "(q, i) \<in> used_nodes s" using f find_node_iff [OF ok \<open>pid \<noteq> 0\<close>] by simp
  then have iu: "i \<in> used s q" by (simp add: used_nodes_Sigma)
  have "node_ok ?s k j" if "k < 3" "j < NPROC" for k j
    using mlfq_okD(1) [OF ok that] by (auto simp: node_ok_def e(2))
  moreover have "q_recent (m_table ?s k) < NPROC \<and> int (card (used ?s k)) \<le> q_count (m_table ?s k)"
    if "k < 3" for k
    using mlfq_okD(2,3) [OF ok that] used_Diff [of ?s q s i] iu
    by (auto simp: e(3,4) u(2))
  moreover have "inj_on (node_pid ?s) (used_nodes ?s)"
  proof (rule inj_on_cong [THEN iffD2])
    show "inj_on (node_pid s) (used_nodes ?s)"
      using mlfq_okD(4) [OF ok] by (rule inj_on_subset) (auto simp: u(1))
  qed (use u(3) in auto)
  moreover have "card (used_nodes ?s) \<le> NPROC"
    using mlfq_okD(5) [OF ok] card_mono [of "used_nodes s" "used_nodes ?s"] by (auto simp: u(1))
  ultimately show ?thesis by (simp add: mlfq_ok_def)
qed

lemma pop_mlfq_abs:
  assumes ok: "mlfq_ok s" and "pid \<noteq> 0"
  shows "abs_mlfq (snd (pop_mlfq pid s)) = (abs_mlfq s)(pid := None)"
proof (cases "find_node pid s")
  case None
  then show ?thesis using assms by (auto simp: pop_mlfq_def abs_mlfq_def)
next
  case (Some qi)
  obtain q i where f: "find_node pid s = Some (q, i)" using Some by (cases qi) auto
  note u = pop_mlfq_used [OF ok f \<open>pid \<noteq> 0\<close>]
  have qi: "(q, i) \<in> used_nodes s" "m_pid (node s q i) = pid"
    using f find_node_iff [OF ok \<open>pid \<noteq> 0\<close>] by auto
  have other: "m_pid (node s k j) \<noteq> pid" if "(k, j) \<in> used_nodes s" "(k, j) \<noteq> (q, i)" for k j
    using that qi inj_onD [OF mlfq_okD(4) [OF ok], of "(k, j)" "(q, i)"] by auto
  show ?thesis
  proof (rule abs_mlfq_eqI [OF pop_mlfq_ok [OF ok \<open>pid \<noteq> 0\<close>]])
    fix p k e
    let ?s = "snd (pop_mlfq pid s)"
    have "(k, j) \<in> used_nodes ?s \<and> m_pid (node ?s k j) = p \<and> m_eticks (node ?s k j) = e \<longleftrightarrow>
      p \<noteq> pid \<and> (k, j) \<in> used_nodes s \<and> m_pid (node s k j) = p \<and> m_eticks (node s k j) = e" for j
      using other [of k j] qi(2)
      by (auto simp: u(1) pop_mlfq_effect(2) [OF ok f \<open>pid \<noteq> 0\<close>])
    then show "((abs_mlfq s)(pid := None)) p = Some (k, e) \<longleftrightarrow>
      (\<exists>j. (k, j) \<in> used_nodes ?s \<and> m_pid (node ?s k j) = p \<and> m_eticks (node ?s k j) = e)"
      by (auto simp: abs_mlfq_Some [OF ok])
  qed
qed

lemma pop_mlfq_result:
  assumes "mlfq_ok s" and "pid \<noteq> 0"
  shows "fst (pop_mlfq pid s) = (if pid \<in> dom (abs_mlfq s) then 0 else -1)"
  using assms by (auto simp: pop_mlfq_def abs_mlfq_def dom_def Let_def split: option.splits)


subsection \<open>Entering a process into a queue\<close>

lemma push_mlfq_effect:
  fixes pid :: int
  assumes "0 \<le> prior" "prior \<le> 2"
    and f: "first_index (\<lambda>i. m_state (node s (nat prior) i) = EMPTY) NPROC = Some i"
  defines "s' \<equiv> snd (push_mlfq pid prior s)" and "q \<equiv> nat prior"
  shows "fst (push_mlfq pid prior s) = 0"
    and "node s' q' i' = (if (q', i') = (q, i)
           then (node s q i)\<lparr>m_pid := pid, m_state := USED, m_eticks := 0\<rparr> else node s q' i')"
    and "q_recent (m_table s' q') = q_recent (m_table s q')"
    and "q_count (m_table s' q') = (if q' = q then q_count (m_table s q) + 1 else q_count (m_table s q'))"
    and "ptable s' j = (if j < NPROC \<and> p_pid (ptable s j) = pid
           then (ptable s j)\<lparr>p_schedstate := MLFQ, p_mlfq := Some (q, i)\<rparr> else ptable s j)"
    and "s_table s' = s_table s" "nextpid s' = nextpid s" "initproc s' = initproc s"
      "schedticks s' = schedticks s"
  using assms by (auto simp: push_mlfq_def Let_def)

lemma free_slot:
  assumes "card (used_nodes s) < NPROC" and ok: "mlfq_ok s" and "q < 3"
  shows "\<exists>i. first_index (\<lambda>i. m_state (node s q i) = EMPTY) NPROC = Some i"
proof (rule ccontr)
  assume "\<not> ?thesis"
  then have "first_index (\<lambda>i. m_state (node s q i) = EMPTY) NPROC = None" by auto
  then have "m_state (node s q i) = USED" if "i < NPROC" for i
    using that mlfq_okD(1) [OF ok \<open>q < 3\<close> that] by (auto simp: node_ok_def)
  then have "Pair q ` {..<NPROC} \<subseteq> used_nodes s"
    using \<open>q < 3\<close> by (auto simp: used_nodes_def)
  then have "card (Pair q ` {..<NPROC}) \<le> card (used_nodes s)"
    by (rule card_mono [OF finite_used_nodes])
  then show False using assms(1) by (simp add: card_image inj_on_def)
qed

lemma push_mlfq_fresh:
  "first_index (\<lambda>i. m_state (node s q i) = EMPTY) NPROC = Some i \<Longrightarrow> (q, i) \<notin> used_nodes s"
  by (auto simp: used_nodes_def dest!: first_index_SomeD)

lemma push_mlfq_used:
  fixes pid :: int
  assumes ok: "mlfq_ok s" and "0 \<le> prior" "prior \<le> 2"
    and f: "first_index (\<lambda>i. m_state (node s (nat prior) i) = EMPTY) NPROC = Some i"
  defines "s' \<equiv> snd (push_mlfq pid prior s)" and "q \<equiv> nat prior"
  shows "used_nodes s' = insert (q, i) (used_nodes s)"
    and "used s' k = (if k = q then insert i (used s q) else used s k)"
    and "(k, j) \<in> used_nodes s \<Longrightarrow> node s' k j = node s k j"
proof -
  note e = push_mlfq_effect(2) [OF assms(2,3) f, of pid, folded s'_def q_def]
  have i: "i < NPROC" "m_state (node s q i) = EMPTY" and q: "q < 3"
    using f assms(2,3) by (auto simp: q_def dest!: first_index_SomeD)
  show "used_nodes s' = insert (q, i) (used_nodes s)"
    and "used s' k = (if k = q then insert i (used s q) else used s k)"
    and "(k, j) \<in> used_nodes s \<Longrightarrow> node s' k j = node s k j"
    using i q by (auto simp: used_nodes_def used_def e split: if_splits)
qed


lemma push_mlfq_ok:
  assumes ok: "mlfq_ok s" and "pid \<noteq> 0" and fresh: "pid \<notin> dom (abs_mlfq s)"
    and room: "card (dom (abs_mlfq s)) < NPROC" and p: "0 \<le> prior" "prior \<le> 2"
  shows "mlfq_ok (snd (push_mlfq pid prior s))"
proof -
  let ?s = "snd (push_mlfq pid prior s)" and ?q = "nat prior"
  have q: "?q < 3" using p by simp
  have room': "card (used_nodes s) < NPROC" using room ok by (simp add: card_dom_abs_mlfq)
  obtain i where f: "first_index (\<lambda>i. m_state (node s ?q i) = EMPTY) NPROC = Some i"
    using free_slot [OF room' ok q] by blast
  note e = push_mlfq_effect [OF p f, of pid]
  note u = push_mlfq_used [OF ok p f, where pid = pid] and fr = push_mlfq_fresh [OF f]
  have i: "i < NPROC" "i \<notin> used s ?q"
    using f by (auto simp: used_def dest!: first_index_SomeD)
  have "node_ok ?s k j" if "k < 3" "j < NPROC" for k j
    using mlfq_okD(1) [OF ok that] \<open>pid \<noteq> 0\<close> by (auto simp: node_ok_def e(2))
  moreover have "q_recent (m_table ?s k) < NPROC \<and> int (card (used ?s k)) \<le> q_count (m_table ?s k)"
    if "k < 3" for k
    using mlfq_okD(2,3) [OF ok that] i by (auto simp: e(3,4) u(2))
  moreover have "inj_on (node_pid ?s) (used_nodes ?s)"
  proof -
    have "inj_on (node_pid ?s) (used_nodes s)"
      using mlfq_okD(4) [OF ok] by (rule inj_on_cong [THEN iffD1, rotated]) (use u(3) in auto)
    moreover have "node_pid ?s ` used_nodes s = node_pid s ` used_nodes s"
      by (rule image_cong) (use u(3) in auto)
    moreover have "node_pid ?s (?q, i) = pid" by (simp add: e(2))
    ultimately show ?thesis
      using fresh fr by (simp add: u(1) dom_abs_mlfq [OF ok])
  qed
  moreover have "card (used_nodes ?s) \<le> NPROC"
    using room' fr by (simp add: u(1))
  ultimately show ?thesis by (simp add: mlfq_ok_def)
qed

lemma push_mlfq_abs:
  assumes ok: "mlfq_ok s" and "pid \<noteq> 0" and fresh: "pid \<notin> dom (abs_mlfq s)"
    and room: "card (dom (abs_mlfq s)) < NPROC" and p: "0 \<le> prior" "prior \<le> 2"
  shows "abs_mlfq (snd (push_mlfq pid prior s)) = (abs_mlfq s)(pid \<mapsto> (nat prior, 0))"
proof -
  let ?s = "snd (push_mlfq pid prior s)" and ?q = "nat prior"
  have q: "?q < 3" using p by simp
  have room': "card (used_nodes s) < NPROC" using room ok by (simp add: card_dom_abs_mlfq)
  obtain i where f: "first_index (\<lambda>i. m_state (node s ?q i) = EMPTY) NPROC = Some i"
    using free_slot [OF room' ok q] by blast
  note e = push_mlfq_effect [OF p f, of pid]
  note u = push_mlfq_used [OF ok p f, where pid = pid] and fr = push_mlfq_fresh [OF f]
  have ne: "m_pid (node s k j) \<noteq> pid" if "(k, j) \<in> used_nodes s" for k j
    using that fresh image_eqI [of pid "node_pid s" "(k, j)" "used_nodes s"]
    by (auto simp: dom_abs_mlfq [OF ok])
  show ?thesis
  proof (rule abs_mlfq_eqI [OF push_mlfq_ok [OF assms]])
    fix p k t
    have new: "m_pid (node ?s ?q i) = pid" "m_eticks (node ?s ?q i) = 0" by (simp_all add: e(2))
    show "((abs_mlfq s)(pid \<mapsto> (?q, 0))) p = Some (k, t) \<longleftrightarrow>
      (\<exists>j. (k, j) \<in> used_nodes ?s \<and> m_pid (node ?s k j) = p \<and> m_eticks (node ?s k j) = t)"
      using new ne fr by (auto simp: abs_mlfq_Some [OF ok] u(1,3))
  qed
qed


subsection \<open>The contract of the queues, and what its clients may conclude\<close>

text \<open>
  The operations \<open>push\<close> and \<open>pop\<close> keep the invariant and change the map at one process id.
  From that alone moving a process re-enters it at the new level with no elapsed ticks, and
  moving every process of a list to one level empties all other levels of them.
\<close>

locale feedback_queue =
  fixes ok :: "'s \<Rightarrow> bool"
    and abs :: "'s \<Rightarrow> int \<rightharpoonup> nat \<times> int"
    and pop :: "int \<Rightarrow> 's \<Rightarrow> int \<times> 's"
    and push :: "int \<Rightarrow> int \<Rightarrow> 's \<Rightarrow> int \<times> 's"
    and cap :: nat
  assumes pop_ok: "ok s \<Longrightarrow> pid \<noteq> 0 \<Longrightarrow> ok (snd (pop pid s))"
    and pop_abs: "ok s \<Longrightarrow> pid \<noteq> 0 \<Longrightarrow> abs (snd (pop pid s)) = (abs s)(pid := None)"
    and pop_result: "ok s \<Longrightarrow> pid \<noteq> 0 \<Longrightarrow> fst (pop pid s) = (if pid \<in> dom (abs s) then 0 else -1)"
    and push_ok: "ok s \<Longrightarrow> pid \<noteq> 0 \<Longrightarrow> pid \<notin> dom (abs s) \<Longrightarrow> card (dom (abs s)) < cap \<Longrightarrow>
      0 \<le> l \<Longrightarrow> l \<le> 2 \<Longrightarrow> ok (snd (push pid l s))"
    and push_abs: "ok s \<Longrightarrow> pid \<noteq> 0 \<Longrightarrow> pid \<notin> dom (abs s) \<Longrightarrow> card (dom (abs s)) < cap \<Longrightarrow>
      0 \<le> l \<Longrightarrow> l \<le> 2 \<Longrightarrow> abs (snd (push pid l s)) = (abs s)(pid \<mapsto> (nat l, 0))"
    and size_le: "ok s \<Longrightarrow> finite (dom (abs s)) \<and> card (dom (abs s)) \<le> cap"
    and pid_nonzero: "ok s \<Longrightarrow> 0 \<notin> dom (abs s)"
begin

lemma room_after_pop:
  assumes "ok s" and "pid \<in> dom (abs s)"
  shows "card (dom (abs (snd (pop pid s)))) < cap"
proof -
  have "pid \<noteq> 0" using assms pid_nonzero by metis
  then have "dom (abs (snd (pop pid s))) = dom (abs s) - {pid}"
    by (simp add: pop_abs [OF \<open>ok s\<close>])
  then have "card (dom (abs (snd (pop pid s)))) < card (dom (abs s))"
    using assms size_le [OF \<open>ok s\<close>] by (simp only: card_Diff1_less)
  then show ?thesis using size_le [OF \<open>ok s\<close>] by simp
qed

lemma repush:
  assumes "ok s" and "pid \<in> dom (abs s)" and "0 \<le> l" "l \<le> 2"
  shows "ok (snd (push pid l (snd (pop pid s))))"
    and "abs (snd (push pid l (snd (pop pid s)))) = (abs s)(pid \<mapsto> (nat l, 0))"
proof -
  have p: "pid \<noteq> 0" using assms pid_nonzero by metis
  note a = pop_abs [OF \<open>ok s\<close> p]
  have c: "pid \<notin> dom (abs (snd (pop pid s)))" by (simp add: a)
  note r = pop_ok [OF \<open>ok s\<close> p] p c room_after_pop [OF assms(1,2)] assms(3,4)
  show "ok (snd (push pid l (snd (pop pid s))))" by (rule push_ok [OF r])
  show "abs (snd (push pid l (snd (pop pid s)))) = (abs s)(pid \<mapsto> (nat l, 0))"
    by (simp add: push_abs [OF r] a)
qed

end

interpretation mq: feedback_queue mlfq_ok abs_mlfq pop_mlfq push_mlfq NPROC
proof unfold_locales
  fix s assume ok: "mlfq_ok s"
  show "finite (dom (abs_mlfq s)) \<and> card (dom (abs_mlfq s)) \<le> NPROC"
    using mlfq_okD(5) [OF ok] card_dom_abs_mlfq [OF ok] by (simp add: dom_abs_mlfq [OF ok])
  show "0 \<notin> dom (abs_mlfq s)" by (simp add: abs_mlfq_def domIff)
qed (fact pop_mlfq_ok pop_mlfq_abs pop_mlfq_result push_mlfq_ok push_mlfq_abs)+

lemma move_prior_eq:
  assumes "mlfq_ok s" and "pid \<in> dom (abs_mlfq s)"
  shows "move_prior pid l s = push_mlfq pid l (snd (pop_mlfq pid s))"
proof -
  have "pid \<noteq> 0" using assms mq.pid_nonzero by metis
  then show ?thesis
    using assms mq.pop_result [of s pid] by (auto simp: move_prior_def split: prod.splits)
qed

lemma move_prior_refines:
  assumes "mlfq_ok s" and "pid \<in> dom (abs_mlfq s)" and "0 \<le> l" "l \<le> 2"
  shows "mlfq_ok (snd (move_prior pid l s))"
    and "abs_mlfq (snd (move_prior pid l s)) = (abs_mlfq s)(pid \<mapsto> (nat l, 0))"
  using mq.repush [OF assms] by (simp_all add: move_prior_eq [OF assms(1,2)])

end
