(* ===== verification/Mlfq_Boost.thy ===== *)
theory Mlfq_Boost
  imports Mlfq_Queue
begin

text \<open>
  What the queue operations do to the rest of the scheduler state (\<open>same_frame\<close>), the links
  from the process table into the queues (\<open>linked\<close>), and the priority boost: after it every
  process of the feedback queues stands in the top queue with no elapsed ticks.
\<close>

definition linked :: "kst \<Rightarrow> bool" where
  "linked s \<longleftrightarrow> (\<forall>i<NPROC. p_pid (ptable s i) \<in> dom (abs_mlfq s) \<longrightarrow>
     p_schedstate (ptable s i) = MLFQ \<and> p_mlfq (ptable s i) = find_node (p_pid (ptable s i)) s)"

text \<open>Everything but the queues and the two scheduling links of the processes.\<close>

definition frame_of :: "kst \<Rightarrow> (nat \<Rightarrow> proc) \<times> (nat \<Rightarrow> stride) \<times> int \<times> nat option" where
  "frame_of s = (\<lambda>i. (ptable s i)\<lparr>p_schedstate := USED, p_mlfq := None\<rparr>, s_table s, nextpid s, initproc s)"

definition same_frame :: "kst \<Rightarrow> kst \<Rightarrow> bool" where
  "same_frame s s' \<longleftrightarrow> frame_of s' = frame_of s"

lemma same_frame_refl [simp]: "same_frame s s"
  by (simp add: same_frame_def)

lemma same_frame_trans: "same_frame s t \<Longrightarrow> same_frame t u \<Longrightarrow> same_frame s u"
  by (simp add: same_frame_def)

lemma same_frame_tables:
  assumes "same_frame s s'"
  shows "s_table s' = s_table s" "nextpid s' = nextpid s" "initproc s' = initproc s"
  using assms by (simp_all add: same_frame_def frame_of_def)

lemma same_frame_proc:
  assumes "same_frame s s'"
  shows "p_pid (ptable s' i) = p_pid (ptable s i)" "p_state (ptable s' i) = p_state (ptable s i)"
    "p_tid (ptable s' i) = p_tid (ptable s i)" "p_cur (ptable s' i) = p_cur (ptable s i)"
    "p_pstride (ptable s' i) = p_pstride (ptable s i)"
    "p_pgdir (ptable s' i) = p_pgdir (ptable s i)" "p_kstack (ptable s' i) = p_kstack (ptable s i)"
    "p_master (ptable s' i) = p_master (ptable s i)" "p_parent (ptable s' i) = p_parent (ptable s i)"
proof -
  have e: "(ptable s' i)\<lparr>p_schedstate := USED, p_mlfq := None\<rparr> =
      (ptable s i)\<lparr>p_schedstate := USED, p_mlfq := None\<rparr>"
    using assms by (auto simp: same_frame_def frame_of_def dest: fun_cong [of _ _ i])
  show "p_pid (ptable s' i) = p_pid (ptable s i)" "p_state (ptable s' i) = p_state (ptable s i)"
    "p_tid (ptable s' i) = p_tid (ptable s i)" "p_cur (ptable s' i) = p_cur (ptable s i)"
    "p_pstride (ptable s' i) = p_pstride (ptable s i)"
    "p_pgdir (ptable s' i) = p_pgdir (ptable s i)" "p_kstack (ptable s' i) = p_kstack (ptable s i)"
    "p_master (ptable s' i) = p_master (ptable s i)" "p_parent (ptable s' i) = p_parent (ptable s i)"
    using arg_cong [OF e, of p_pid] arg_cong [OF e, of p_state] arg_cong [OF e, of p_tid]
      arg_cong [OF e, of p_cur] arg_cong [OF e, of p_pstride] arg_cong [OF e, of p_pgdir]
      arg_cong [OF e, of p_kstack] arg_cong [OF e, of p_master] arg_cong [OF e, of p_parent]
    by simp_all
qed

lemma same_frame_upd_procs:
  "same_frame s (upd_procs c (\<lambda>p. p\<lparr>p_schedstate := a, p_mlfq := b\<rparr>) s)"
  by (auto simp: same_frame_def frame_of_def)

lemma same_frame_m_table [simp]:
  "same_frame s (t\<lparr>m_table := m\<rparr>) = same_frame s t"
  "same_frame s (t\<lparr>schedticks := k\<rparr>) = same_frame s t"
  by (simp_all add: same_frame_def frame_of_def)

lemma same_frame_pop: "same_frame s (snd (pop_mlfq pid s))"
  by (auto simp: pop_mlfq_def unlink_procs_def same_frame_upd_procs Let_def split: option.splits)

lemma same_frame_push: "same_frame s (snd (push_mlfq pid l s))"
  by (auto simp: push_mlfq_def same_frame_upd_procs Let_def split: option.splits)

lemma same_frame_move: "same_frame s (snd (move_prior pid l s))"
proof (cases "pop_mlfq pid s")
  case (Pair r t)
  then have "same_frame s t" using same_frame_pop [of s pid] by simp
  then show ?thesis
    using Pair same_frame_trans [OF _ same_frame_push] by (simp add: move_prior_def)
qed


subsection \<open>The links from processes to nodes\<close>

lemma find_node_eqI:
  "(\<And>q i. find_node p s' = Some (q, i) \<longleftrightarrow> find_node p s = Some (q, i)) \<Longrightarrow>
    find_node p s' = find_node p s"
  by (metis option.exhaust surj_pair)

lemma find_node_pop:
  assumes ok: "mlfq_ok s" and "pid \<noteq> 0" "p \<noteq> 0" "p \<noteq> pid"
  shows "find_node p (snd (pop_mlfq pid s)) = find_node p s"
proof (cases "find_node pid s")
  case None
  then show ?thesis by (simp add: pop_mlfq_def)
next
  case (Some qi)
  obtain q i where f: "find_node pid s = Some (q, i)" using Some by (cases qi) auto
  then have "m_pid (node s q i) = pid" using find_node_iff [OF ok \<open>pid \<noteq> 0\<close>] by simp
  then show ?thesis
    using assms by (intro find_node_eqI)
      (auto simp: find_node_iff ok pop_mlfq_ok pop_mlfq_used(1) [OF ok f] pop_mlfq_effect(2) [OF ok f])
qed

lemma linked_pop:
  assumes ok: "mlfq_ok s" and l: "linked s" and "pid \<noteq> 0"
  shows "linked (snd (pop_mlfq pid s))"
  unfolding linked_def
proof (intro allI impI)
  fix i assume i: "i < NPROC"
    and d: "p_pid (ptable (snd (pop_mlfq pid s)) i) \<in> dom (abs_mlfq (snd (pop_mlfq pid s)))"
  let ?p = "p_pid (ptable s i)"
  have p: "?p \<noteq> pid" "?p \<in> dom (abs_mlfq s)"
    using d same_frame_proc(1) [OF same_frame_pop [of s pid], of i]
    by (auto simp: pop_mlfq_abs [OF ok \<open>pid \<noteq> 0\<close>] split: if_splits)
  then have "?p \<noteq> 0" using mq.pid_nonzero [OF ok] by metis
  moreover have "ptable (snd (pop_mlfq pid s)) i = ptable s i"
    using p by (auto simp: pop_mlfq_def unlink_procs_def Let_def split: option.splits)
  ultimately show "p_schedstate (ptable (snd (pop_mlfq pid s)) i) = MLFQ \<and>
    p_mlfq (ptable (snd (pop_mlfq pid s)) i) =
      find_node (p_pid (ptable (snd (pop_mlfq pid s)) i)) (snd (pop_mlfq pid s))"
    using l i p \<open>pid \<noteq> 0\<close> by (simp add: linked_def find_node_pop [OF ok])
qed

lemma linked_push:
  assumes ok: "mlfq_ok s" and l: "linked s" and p: "pid \<noteq> 0" "pid \<notin> dom (abs_mlfq s)"
    "card (dom (abs_mlfq s)) < NPROC" "0 \<le> prior" "prior \<le> 2"
  shows "linked (snd (push_mlfq pid prior s))"
  unfolding linked_def
proof (intro allI impI)
  let ?s = "snd (push_mlfq pid prior s)" and ?q = "nat prior"
  fix j assume j: "j < NPROC" and d: "p_pid (ptable ?s j) \<in> dom (abs_mlfq ?s)"
  have room: "card (used_nodes s) < NPROC" "?q < 3"
    using p ok by (auto simp: card_dom_abs_mlfq)
  obtain i where f: "first_index (\<lambda>i. m_state (node s ?q i) = EMPTY) NPROC = Some i"
    using free_slot [OF room(1) ok room(2)] by blast
  note e = push_mlfq_effect [OF p(4,5) f, of pid]
  note u = push_mlfq_used [OF ok p(4,5) f, where pid = pid]
  note ok' = push_mlfq_ok [OF ok p]
  show "p_schedstate (ptable ?s j) = MLFQ \<and> p_mlfq (ptable ?s j) = find_node (p_pid (ptable ?s j)) ?s"
  proof (cases "p_pid (ptable s j) = pid")
    case True
    have "find_node pid ?s = Some (?q, i)"
      using p(1) by (simp add: find_node_iff [OF ok'] u(1) e(2))
    then show ?thesis using True j by (simp add: e(5))
  next
    case False
    let ?p = "p_pid (ptable s j)"
    have dp: "?p \<in> dom (abs_mlfq s)"
      using d False by (auto simp: push_mlfq_abs [OF ok p] e(5))
    then have "?p \<noteq> 0" using mq.pid_nonzero [OF ok] by metis
    then have "find_node ?p ?s = find_node ?p s"
      using False push_mlfq_fresh [OF f]
      by (intro find_node_eqI) (auto simp: find_node_iff ok ok' u(1) e(2))
    then show ?thesis using l j dp False by (simp add: linked_def e(5))
  qed
qed

lemma linked_move:
  assumes "mlfq_ok s" and "linked s" and "pid \<in> dom (abs_mlfq s)" and "0 \<le> l" "l \<le> 2"
  shows "linked (snd (move_prior pid l s))"
proof -
  have p: "pid \<noteq> 0" using assms mq.pid_nonzero by metis
  show ?thesis
    unfolding move_prior_eq [OF assms(1,3)]
    using assms p mq.room_after_pop [OF assms(1,3)]
    by (intro linked_push pop_mlfq_ok linked_pop) (auto simp: pop_mlfq_abs)
qed


subsection \<open>Moving one used node to the top queue\<close>

lemma move_up_nodes:
  assumes ok: "mlfq_ok s" and qi: "(q, i) \<in> used_nodes s" and pid: "m_pid (node s q i) = pid"
  shows "\<exists>k. (q = 0 \<longrightarrow> k \<le> i) \<and> (0, k) \<notin> used_nodes s - {(q, i)}
    \<and> used_nodes (snd (move_prior pid 0 s)) = insert (0, k) (used_nodes s - {(q, i)})
    \<and> m_eticks (node (snd (move_prior pid 0 s)) 0 k) = 0
    \<and> (\<forall>x y. (x, y) \<in> used_nodes s - {(q, i)} \<longrightarrow> node (snd (move_prior pid 0 s)) x y = node s x y)"
proof -
  have p: "pid \<noteq> 0" using used_nodesD [OF ok qi] pid by simp
  then have f: "find_node pid s = Some (q, i)" using qi pid by (simp add: find_node_iff ok)
  then have d: "pid \<in> dom (abs_mlfq s)" using p by (simp add: abs_mlfq_def dom_def)
  let ?t = "snd (pop_mlfq pid s)"
  have okt: "mlfq_ok ?t" by (rule pop_mlfq_ok [OF ok p])
  have "card (used_nodes ?t) < NPROC"
    using mq.room_after_pop [OF ok d] by (simp add: card_dom_abs_mlfq [OF okt])
  then obtain k where k: "first_index (\<lambda>i. m_state (node ?t (nat 0) i) = EMPTY) NPROC = Some k"
    using free_slot [OF _ okt, of 0] by auto
  note e = push_mlfq_effect(2) [OF _ _ k, of pid]
  note u = push_mlfq_used [OF okt _ _ k, where pid = pid]
  note eq = move_prior_eq [OF ok d, of 0]
  have "q = 0 \<longrightarrow> k \<le> i"
    using k used_nodesD(2) [OF ok qi]
    by (auto simp: first_index_Some pop_mlfq_effect(2) [OF ok f p] not_less [symmetric])
  moreover have "(0, k) \<notin> used_nodes s - {(q, i)}"
    using push_mlfq_fresh [OF k] by (simp add: pop_mlfq_used(1) [OF ok f p])
  ultimately show ?thesis
    by (intro exI [of _ k])
       (auto simp: eq u(1) e pop_mlfq_used(1) [OF ok f p] pop_mlfq_effect(2) [OF ok f p])
qed


subsection \<open>The priority boost\<close>

text \<open>
  What holds of the state during the boost: the queues stay well formed and linked, the same
  processes are queued, and each of them is where it was or fresh in the top queue.
\<close>

definition boosting :: "kst \<Rightarrow> kst \<Rightarrow> bool" where
  "boosting s0 s \<longleftrightarrow> mlfq_ok s \<and> (linked s0 \<longrightarrow> linked s) \<and> same_frame s0 s
     \<and> dom (abs_mlfq s) = dom (abs_mlfq s0)
     \<and> (\<forall>p. abs_mlfq s p = abs_mlfq s0 p \<or> abs_mlfq s p = Some (0, 0))"

lemma boosting_refl: "mlfq_ok s \<Longrightarrow> boosting s s"
  by (simp add: boosting_def)

lemma boosting_trans: "boosting s t \<Longrightarrow> boosting t u \<Longrightarrow> boosting s u"
  unfolding boosting_def using same_frame_trans by metis

lemma boosting_move_up:
  assumes "mlfq_ok s" and "pid \<in> dom (abs_mlfq s)"
  shows "boosting s (snd (move_prior pid 0 s))"
  using move_prior_refines [OF assms, of 0] linked_move [OF assms(1) _ assms(2), of 0] assms
  by (auto simp: boosting_def same_frame_move)

text \<open>The nodes of a queue that the loop has already visited.\<close>

definition visited :: "nat \<Rightarrow> nat \<Rightarrow> kst \<Rightarrow> bool" where
  "visited q i s \<longleftrightarrow> (\<forall>j<i. (q, j) \<in> used_nodes s \<longrightarrow> q = 0 \<and> m_eticks (node s q j) = 0)"

lemma boost_node_step:
  assumes "boosting s0 s" and "visited q i s" and "q < 3" and "i < NPROC"
  shows "boosting s0 (boost_node q i s) \<and> visited q (Suc i) (boost_node q i s)"
proof (cases "m_state (node s q i) = USED")
  case False
  then show ?thesis
    using assms by (auto simp: boost_node_def visited_def used_nodes_def less_Suc_eq)
next
  case True
  let ?pid = "m_pid (node s q i)"
  have ok: "mlfq_ok s" using assms by (simp add: boosting_def)
  have qi: "(q, i) \<in> used_nodes s" using True assms by (simp add: used_nodes_def)
  then have d: "?pid \<in> dom (abs_mlfq s)" by (simp add: used_node_abs [OF ok] domIff)
  obtain k where k: "q = 0 \<longrightarrow> k \<le> i"
      "used_nodes (boost_node q i s) = insert (0, k) (used_nodes s - {(q, i)})"
      "m_eticks (node (boost_node q i s) 0 k) = 0"
      "\<forall>x y. (x, y) \<in> used_nodes s - {(q, i)} \<longrightarrow> node (boost_node q i s) x y = node s x y"
    using move_up_nodes [OF ok qi refl] True by (auto simp: boost_node_def)
  have "visited q (Suc i) (boost_node q i s)"
    using assms(2) k(3,4) by (auto simp: visited_def k(2) less_Suc_eq)
  moreover have "boosting s0 (boost_node q i s)"
    using boosting_trans [OF assms(1) boosting_move_up [OF ok d]] True by (simp add: boost_node_def)
  ultimately show ?thesis by simp
qed

lemma boost_queue_step:
  assumes "boosting s0 s" and "q < 3"
  shows "boosting s0 (boost_queue q s) \<and> visited q NPROC (boost_queue q s)"
proof (cases "q_count (m_table s q) = 0")
  case True
  have "mlfq_ok s" using assms by (simp add: boosting_def)
  then have "used s q = {}" using mlfq_okD(3) [of s q] assms True by simp
  then show ?thesis
    using assms True by (auto simp: boost_queue_def visited_def used_nodes_Sigma)
next
  case False
  have "boosting s0 (fold (boost_node q) [0..<NPROC] s)
      \<and> visited q NPROC (fold (boost_node q) [0..<NPROC] s)"
    by (rule fold_upt_inv [where I = "\<lambda>i t. boosting s0 t \<and> visited q i t"])
       (use assms boost_node_step in \<open>auto simp: visited_def [of _ 0]\<close>)
  then show ?thesis using False by (simp add: boost_queue_def)
qed

lemma visited_level:
  assumes "mlfq_ok s" and "visited q NPROC s" and "abs_mlfq s p = Some (q, e)"
  shows "(q, e) = (0, 0)"
  using assms by (auto simp: abs_mlfq_Some visited_def used_nodes_def)

lemma prior_boost_boosting:
  assumes ok: "mlfq_ok s"
  defines "t \<equiv> fold boost_queue [0..<3] s"
  shows "boosting s t \<and> (\<forall>p q e. abs_mlfq t p = Some (q, e) \<longrightarrow> (q, e) = (0, 0))"
proof -
  let ?I = "\<lambda>k t. boosting s t \<and> (\<forall>p q e. abs_mlfq t p = Some (q, e) \<longrightarrow> q < k \<longrightarrow> (q, e) = (0, 0))"
  have "?I 3 t" unfolding t_def
  proof (rule fold_upt_inv [where I = ?I])
    show "?I 0 s" using boosting_refl [OF ok] by simp
  next
    fix q t assume q: "q < (3::nat)" and I: "?I q t"
    have okt: "mlfq_ok t" using I by (simp add: boosting_def)
    have b: "boosting t (boost_queue q t)" "visited q NPROC (boost_queue q t)"
      using boost_queue_step [OF boosting_refl [OF okt] q] by simp_all
    have okb: "mlfq_ok (boost_queue q t)" using b(1) by (simp add: boosting_def)
    have "(k, e) = (0, 0)" if a: "abs_mlfq (boost_queue q t) p = Some (k, e)" and k: "k < Suc q" for p k e
    proof (cases "k = q")
      case True
      then show ?thesis using visited_level [OF okb b(2)] a by blast
    next
      case False
      then show ?thesis
        using a b(1) I k by (auto simp: boosting_def) (metis less_antisym option.inject Pair_inject)+
    qed
    then show "?I (Suc q) (boost_queue q t)"
      using boosting_trans b(1) I by blast
  qed
  moreover have "q < 3" if "abs_mlfq t p = Some (q, e)" for p q e
    using that calculation by (auto simp: boosting_def abs_mlfq_Some used_nodes_def)
  ultimately show ?thesis by blast
qed

lemma used_nodes_schedticks [simp]: "used_nodes (s\<lparr>schedticks := k\<rparr>) = used_nodes s"
  by (simp add: used_nodes_def)

lemma find_node_schedticks [simp]: "find_node p (s\<lparr>schedticks := k\<rparr>) = find_node p s"
  by (simp add: find_node_def)

lemma abs_mlfq_schedticks [simp]: "abs_mlfq (s\<lparr>schedticks := k\<rparr>) = abs_mlfq s"
  by (rule ext) (simp add: abs_mlfq_def)

lemma mlfq_ok_schedticks [simp]: "mlfq_ok (s\<lparr>schedticks := k\<rparr>) = mlfq_ok s"
  by (simp add: mlfq_ok_def node_ok_def used_def)

lemma linked_schedticks [simp]: "linked (s\<lparr>schedticks := k\<rparr>) = linked s"
  by (simp add: linked_def)

lemma prior_boost_refines:
  assumes ok: "mlfq_ok s"
  shows "mlfq_ok (prior_boost s)" and "linked s \<Longrightarrow> linked (prior_boost s)"
    and "same_frame s (prior_boost s)" and "schedticks (prior_boost s) = 0"
    and "abs_mlfq (prior_boost s) = (\<lambda>p. if p \<in> dom (abs_mlfq s) then Some (0, 0) else None)"
proof -
  let ?t = "fold boost_queue [0..<3] s"
  note b = prior_boost_boosting [OF ok]
  show "mlfq_ok (prior_boost s)" and "linked s \<Longrightarrow> linked (prior_boost s)"
    and "same_frame s (prior_boost s)" and "schedticks (prior_boost s) = 0"
    using b by (simp_all add: prior_boost_def boosting_def)
  have "abs_mlfq ?t p = (if p \<in> dom (abs_mlfq s) then Some (0, 0) else None)" for p
  proof -
    have "dom (abs_mlfq ?t) = dom (abs_mlfq s)" using b by (simp add: boosting_def)
    then have "p \<in> dom (abs_mlfq s) \<longleftrightarrow> abs_mlfq ?t p \<noteq> None" by (metis domIff)
    moreover have "abs_mlfq ?t p = Some qe \<Longrightarrow> qe = (0, 0)" for qe
      using b by (metis surj_pair)
    ultimately show ?thesis by auto
  qed
  then show "abs_mlfq (prior_boost s) = (\<lambda>p. if p \<in> dom (abs_mlfq s) then Some (0, 0) else None)"
    by (simp add: prior_boost_def fun_eq_iff)
qed

end
