(* ===== verification/Sched_Pick.thy ===== *)
theory Sched_Pick
  imports Mlfq_Boost
begin

text \<open>
  Which process the scheduler chooses: \<open>pick_lwp\<close> rotates fairly among the runnable threads of
  a process, \<open>pick_mlfq\<close> serves the highest level with a runnable process, \<open>pick_stride\<close> the
  least pass, and under \<open>live_ok\<close> the scheduler always finds a process to dispatch.
\<close>

subsection \<open>Rotation among the threads of a process\<close>

abbreviation ready :: "int \<Rightarrow> kst \<Rightarrow> nat \<Rightarrow> bool" where
  "ready pid s i \<equiv> p_state (ptable s i) = RUNNABLE \<and> p_pid (ptable s i) = pid"

definition master_ok :: "int \<Rightarrow> kst \<Rightarrow> bool" where
  "master_ok pid s \<longleftrightarrow> (\<exists>m. find_master pid s = Some m \<and> p_cur (ptable s m) < NPROC)"

lemma pick_lwp_eq:
  assumes m: "find_master pid s = Some m" and c: "p_cur (ptable s m) < NPROC"
    and r: "find (ready pid s) (rr_order NPROC (p_cur (ptable s m))) = Some r"
  shows "pick_lwp pid s = Inr (Some r, upd_proc m (\<lambda>p. p\<lparr>p_cur := r\<rparr>) s)"
    and "r < NPROC" "ready pid s r"
proof -
  let ?c = "p_cur (ptable s m)"
  have scan: "rr_scan NPROC NPROC (ready pid s) ?c ?c = Some (Some r)"
    using rr_scan_find [OF c] r by simp
  then show "pick_lwp pid s = Inr (Some r, upd_proc m (\<lambda>p. p\<lparr>p_cur := r\<rparr>) s)"
    using m by (simp add: pick_lwp_def Let_def)
  show "r < NPROC" "ready pid s r"
    using rr_scan_SomeD [OF c scan] by simp_all
qed

lemma pick_lwp_ready:
  assumes "master_ok pid s" and "isRunnable pid s"
  obtains m r where "find_master pid s = Some m" "r < NPROC" "ready pid s r"
    "pick_lwp pid s = Inr (Some r, upd_proc m (\<lambda>p. p\<lparr>p_cur := r\<rparr>) s)"
proof -
  obtain m where m: "find_master pid s = Some m" "p_cur (ptable s m) < NPROC"
    using assms(1) by (auto simp: master_ok_def)
  obtain i where i: "i < NPROC" "ready pid s i"
    using assms(2) by (auto simp: isRunnable_iff)
  then have "find (ready pid s) (rr_order NPROC (p_cur (ptable s m))) \<noteq> None"
    by (auto simp: find_None_iff set_rr_order [OF m(2)])
  then obtain r where r: "find (ready pid s) (rr_order NPROC (p_cur (ptable s m))) = Some r"
    by blast
  show ?thesis using that [OF m(1)] pick_lwp_eq [OF m r] by blast
qed

text \<open>Consecutive picks, as the timer makes them while the threads of the process stay ready.\<close>

fun lwp_run :: "nat \<Rightarrow> int \<Rightarrow> kst \<Rightarrow> nat option list" where
  "lwp_run 0 pid s = []"
| "lwp_run (Suc n) pid s =
     (case pick_lwp pid s of Inl _ \<Rightarrow> [] | Inr (p, s') \<Rightarrow> p # lwp_run n pid s')"

lemma find_master_cur [simp]:
  "find_master pid (upd_proc m (\<lambda>p. p\<lparr>p_cur := r\<rparr>) s) = find_master pid s"
  unfolding find_master_def by (rule first_index_cong) simp

lemma find_rr_order:
  assumes "c < n" and "d < n" and "P (rr_order n c ! d)"
  obtains k where "k \<le> d" "find P (rr_order n c) = Some (rr_order n c ! k)"
proof -
  have "find P (rr_order n c) \<noteq> None"
    using assms by (auto simp: find_None_iff) (metis length_rr_order nth_mem)
  then obtain x where "find P (rr_order n c) = Some x" by blast
  then obtain k where "k < n" "rr_order n c ! k = x" "\<forall>j<k. \<not> P (rr_order n c ! j)"
    by (auto simp: find_Some_iff)
  then show ?thesis
    using that [of k] \<open>find P (rr_order n c) = Some x\<close> assms(3) not_le_imp_less by blast
qed

lemma lwp_run_reaches:
  assumes "find_master pid s = Some m" and "p_cur (ptable s m) < NPROC"
    and "i < NPROC" "ready pid s i" and "rr_order NPROC (p_cur (ptable s m)) ! d = i" "d < NPROC"
    and "d < n"
  shows "Some i \<in> set (lwp_run n pid s)"
  using assms
proof (induction d arbitrary: s n rule: less_induct)
  case (less d)
  let ?c = "p_cur (ptable s m)"
  obtain k where k: "k \<le> d" "find (ready pid s) (rr_order NPROC ?c) = Some (rr_order NPROC ?c ! k)"
    using find_rr_order [of ?c NPROC d "ready pid s"] less.prems by metis
  let ?r = "rr_order NPROC ?c ! k"
  let ?t = "upd_proc m (\<lambda>p. p\<lparr>p_cur := ?r\<rparr>) s"
  note p = pick_lwp_eq [OF less.prems(1,2) k(2)]
  obtain n' where n: "n = Suc n'" using less.prems(7) by (cases n) auto
  show ?case
  proof (cases "k = d")
    case True
    then show ?thesis using p(1) less.prems(5) by (simp add: n)
  next
    case False
    then obtain e where d: "d = Suc (k + e)"
      using k(1) less_imp_Suc_add [of k d] by auto
    then have "rr_order NPROC ?r ! e = i"
      using less.prems(5,6) rr_order_shift [of k e NPROC ?c] by simp
    moreover have "ready pid ?t i" using less.prems(4) by auto
    ultimately have "Some i \<in> set (lwp_run n' pid ?t)"
      using less.prems d p(2) n by (intro less.IH [of e ?t n']) simp_all
    then show ?thesis using p(1) by (simp add: n)
  qed
qed

lemma ready_reached:
  assumes "master_ok pid s" and "i < NPROC" and "ready pid s i"
  shows "Some i \<in> set (lwp_run NPROC pid s)"
proof -
  obtain m where m: "find_master pid s = Some m" "p_cur (ptable s m) < NPROC"
    using assms(1) by (auto simp: master_ok_def)
  have "i \<in> set (rr_order NPROC (p_cur (ptable s m)))"
    using assms(2) by (simp add: set_rr_order [OF m(2)])
  then obtain d where "d < NPROC" "rr_order NPROC (p_cur (ptable s m)) ! d = i"
    by (auto simp: in_set_conv_nth)
  then show ?thesis using lwp_run_reaches [OF m assms(2,3)] by blast
qed


subsection \<open>The feedback queues\<close>

definition runnable_at :: "kst \<Rightarrow> nat \<Rightarrow> bool" where
  "runnable_at s q \<longleftrightarrow> (\<exists>p e. abs_mlfq s p = Some (q, e) \<and> isRunnable p s)"

lemma runnable_at_iff:
  assumes "mlfq_ok s" and "q < 3"
  shows "runnable_at s q \<longleftrightarrow>
    (\<exists>i<NPROC. m_state (node s q i) = USED \<and> isRunnable (m_pid (node s q i)) s)"
  using assms by (auto simp: runnable_at_def abs_mlfq_Some used_nodes_def)

lemma isRunnable_m_table [simp]: "isRunnable p (s\<lparr>m_table := t\<rparr>) = isRunnable p s"
  by (simp add: isRunnable_iff)

lemma find_master_m_table [simp]: "find_master p (s\<lparr>m_table := t\<rparr>) = find_master p s"
  by (simp add: find_master_def)

lemma pick_queue_none:
  assumes "mlfq_ok s" and "\<And>q. q \<in> set qs \<Longrightarrow> q < 3 \<and> \<not> runnable_at s q"
  shows "pick_queue qs s = Inr (None, s)"
  using assms(2)
proof (induction qs)
  case Nil
  then show ?case by simp
next
  case (Cons q qs)
  let ?r = "q_recent (m_table s q)"
  let ?ok = "\<lambda>i. m_state (node s q i) = USED \<and> isRunnable (m_pid (node s q i)) s"
  have "q < 3" "\<not> runnable_at s q" using Cons.prems by simp_all
  then have "rr_scan NPROC NPROC ?ok ?r ?r = Some None"
    using rr_scan_not_found [of ?r NPROC ?ok] mlfq_okD(2) [OF assms(1)]
      runnable_at_iff [OF assms(1)] by blast
  then show ?case using Cons by (simp add: Let_def)
qed

lemma pick_queue_hit:
  assumes ok: "mlfq_ok s" and q: "q < 3" "runnable_at s q"
    and pre: "\<And>k. k \<in> set as \<Longrightarrow> k < 3 \<and> \<not> runnable_at s k"
    and ms: "\<And>p. isRunnable p s \<Longrightarrow> master_ok p s"
  shows "\<exists>r i m e. pick_queue (as @ q # bs) s =
      Inr (Some r, upd_proc m (\<lambda>p. p\<lparr>p_cur := r\<rparr>) (upd_fq q (\<lambda>t. t\<lparr>q_recent := i\<rparr>) s))
    \<and> i < NPROC \<and> r < NPROC \<and> p_state (ptable s r) = RUNNABLE
    \<and> find_master (p_pid (ptable s r)) s = Some m
    \<and> abs_mlfq s (p_pid (ptable s r)) = Some (q, e)"
  using pre
proof (induction as)
  case Nil
  let ?rec = "q_recent (m_table s q)"
  let ?ok = "\<lambda>i. m_state (node s q i) = USED \<and> isRunnable (m_pid (node s q i)) s"
  obtain j where "j < NPROC" "?ok j" using q runnable_at_iff [OF ok] by blast
  then obtain i where i: "rr_scan NPROC NPROC ?ok ?rec ?rec = Some (Some i)" "i < NPROC" "?ok i"
    using rr_scan_found [of ?rec NPROC j ?ok] mlfq_okD(2) [OF ok q(1)] by auto
  let ?p = "m_pid (node s q i)"
  let ?s = "upd_fq q (\<lambda>t. t\<lparr>q_recent := i\<rparr>) s"
  have "(q, i) \<in> used_nodes s" using i q by (simp add: used_nodes_def)
  then have a: "abs_mlfq s ?p = Some (q, m_eticks (node s q i))" by (rule used_node_abs [OF ok])
  have "i \<in> used s q" using i by (simp add: used_def)
  then have "card (used s q) \<noteq> 0" by auto
  then have c: "q_count (m_table s q) \<noteq> 0" using mlfq_okD(3) [OF ok q(1)] by auto
  have "master_ok ?p ?s" using ms i(3) by (simp add: master_ok_def)
  moreover have "isRunnable ?p ?s" using i(3) by simp
  ultimately obtain m r where "find_master ?p ?s = Some m" "r < NPROC" "ready ?p ?s r"
      "pick_lwp ?p ?s = Inr (Some r, upd_proc m (\<lambda>p. p\<lparr>p_cur := r\<rparr>) ?s)"
    by (rule pick_lwp_ready)
  then show ?case
    using i a c
    by (rule_tac exI [of _ r], rule_tac exI [of _ i], rule_tac exI [of _ m],
        rule_tac exI [of _ "m_eticks (node s q i)"]) (simp add: Let_def fun_upd_def)
next
  case (Cons k as)
  let ?r = "q_recent (m_table s k)"
  let ?ok = "\<lambda>i. m_state (node s k i) = USED \<and> isRunnable (m_pid (node s k i)) s"
  have "k < 3" "\<not> runnable_at s k" using Cons.prems by simp_all
  then have "rr_scan NPROC NPROC ?ok ?r ?r = Some None"
    using rr_scan_not_found [of ?r NPROC ?ok] mlfq_okD(2) [OF ok] runnable_at_iff [OF ok] by blast
  then show ?case using Cons by (simp add: Let_def)
qed

text \<open>The level served is the least level at which some process can run.\<close>

lemma pick_mlfq_hit:
  assumes ok: "mlfq_ok s" and q: "runnable_at s q"
    and ms: "\<And>p. isRunnable p s \<Longrightarrow> master_ok p s"
  shows "\<exists>r k i m e. pick_mlfq s =
      Inr (Some r, upd_proc m (\<lambda>p. p\<lparr>p_cur := r\<rparr>) (upd_fq k (\<lambda>t. t\<lparr>q_recent := i\<rparr>) s))
    \<and> i < NPROC \<and> r < NPROC \<and> p_state (ptable s r) = RUNNABLE
    \<and> find_master (p_pid (ptable s r)) s = Some m
    \<and> abs_mlfq s (p_pid (ptable s r)) = Some (k, e) \<and> (\<forall>j. runnable_at s j \<longrightarrow> k \<le> j)"
proof -
  define k where "k = (LEAST j. runnable_at s j)"
  have k: "runnable_at s k" "\<And>j. runnable_at s j \<Longrightarrow> k \<le> j"
    using q by (auto simp: k_def intro: LeastI Least_le)
  then have "k < 3"
    by (auto simp: runnable_at_def abs_mlfq_Some [OF ok] used_nodes_def)
  then have split: "[0..<3] = [0..<k] @ k # [Suc k..<3]"
    using upt_add_eq_append [of 0 k "3 - k"] by (simp add: upt_conv_Cons)
  have "\<And>j. j \<in> set [0..<k] \<Longrightarrow> j < 3 \<and> \<not> runnable_at s j"
    using k(2) \<open>k < 3\<close> by fastforce
  then show ?thesis
    using pick_queue_hit [OF ok \<open>k < 3\<close> k(1), of "[0..<k]" "[Suc k..<3]"] ms k(2)
    unfolding pick_mlfq_def split by metis
qed

lemma pick_mlfq_none:
  assumes "mlfq_ok s" and "\<And>q. \<not> runnable_at s q"
  shows "pick_mlfq s = Inr (None, s)"
  unfolding pick_mlfq_def using assms by (intro pick_queue_none) auto

end
