(* ===== verification/Stride_Share.thy ===== *)
theory Stride_Share
  imports Sched_Pick
begin

text \<open>
  The stride table: the tickets always add up to 100 with at least 20 left for the feedback
  queues, no pass overflows an \<open>int\<close>, \<open>pick_stride\<close> takes the least pass, and the scheduler
  finds a process whenever a slot is ready (\<open>sched_ok\<close>).
\<close>

definition shares :: "kst \<Rightarrow> nat set" where
  "shares s = {i. 0 < i \<and> i < NPROC \<and> st_state (s_table s i) = USED}"

definition tickets_ok :: "kst \<Rightarrow> bool" where
  "tickets_ok s \<longleftrightarrow>
     st_state (s_table s 0) = USED \<and> st_pid (s_table s 0) = 0
     \<and> st_stride (s_table s 0) = stride1 div st_tickets (s_table s 0)
     \<and> (\<forall>i\<in>shares s. 1 \<le> st_tickets (s_table s i) \<and> st_pid (s_table s i) \<noteq> 0
          \<and> st_stride (s_table s i) = stride1 div st_tickets (s_table s i))
     \<and> (\<forall>i<NPROC. st_state (s_table s i) = USED \<or> st_state (s_table s i) = EMPTY)
     \<and> st_tickets (s_table s 0) + (\<Sum>i\<in>shares s. st_tickets (s_table s i)) = 100
     \<and> (\<Sum>i\<in>shares s. st_tickets (s_table s i)) \<le> 80
     \<and> (\<forall>i<NPROC. 0 \<le> st_pass (s_table s i) \<and> st_pass (s_table s i) \<le> 100000000)"

lemma finite_shares [simp]: "finite (shares s)"
  by (simp add: shares_def)

lemma zero_notin_shares [simp]: "0 \<notin> shares s"
  by (simp add: shares_def)

lemma shares_pos: "i \<in> shares s \<Longrightarrow> 0 < i"
  by (simp add: shares_def)

lemma tickets_okD:
  assumes "tickets_ok s"
  shows "st_state (s_table s 0) = USED" "st_pid (s_table s 0) = 0"
    "st_stride (s_table s 0) = stride1 div st_tickets (s_table s 0)"
    "i \<in> shares s \<Longrightarrow> 1 \<le> st_tickets (s_table s i)"
    "i \<in> shares s \<Longrightarrow> st_pid (s_table s i) \<noteq> 0"
    "i \<in> shares s \<Longrightarrow> st_stride (s_table s i) = stride1 div st_tickets (s_table s i)"
    "i < NPROC \<Longrightarrow> st_state (s_table s i) = USED \<or> st_state (s_table s i) = EMPTY"
    "st_tickets (s_table s 0) + (\<Sum>i\<in>shares s. st_tickets (s_table s i)) = 100"
    "(\<Sum>i\<in>shares s. st_tickets (s_table s i)) \<le> 80"
    "i < NPROC \<Longrightarrow> 0 \<le> st_pass (s_table s i)"
    "i < NPROC \<Longrightarrow> st_pass (s_table s i) \<le> 100000000"
  using assms by (simp_all add: tickets_ok_def)

lemma stride1_div: "1 \<le> t \<Longrightarrow> 0 \<le> stride1 div t \<and> stride1 div t \<le> stride1"
  using zdiv_mono2 [of stride1 1 t] by (simp add: stride1_def pos_imp_zdiv_nonneg_iff)

lemma tickets_range:
  assumes "tickets_ok s" and "i < NPROC" and "st_state (s_table s i) = USED"
  shows "1 \<le> st_tickets (s_table s i)" "0 \<le> st_stride (s_table s i)" "st_stride (s_table s i) \<le> stride1"
proof -
  note d = tickets_okD [OF assms(1)]
  show "1 \<le> st_tickets (s_table s i)"
    using d(4) [of i] d(8,9) assms(2,3) by (cases "i = 0") (auto simp: shares_def)
  moreover have "st_stride (s_table s i) = stride1 div st_tickets (s_table s i)"
    using d(3) d(6) [of i] assms(2,3) by (cases "i = 0") (auto simp: shares_def)
  ultimately show "0 \<le> st_stride (s_table s i)" "st_stride (s_table s i) \<le> stride1"
    using stride1_div [of "st_tickets (s_table s i)"] by auto
qed


subsection \<open>Charging a tick\<close>

lemma add_pass_stride_ok:
  assumes ok: "tickets_ok s" and k: "p_pstride (ptable s me) = Some k" "k < NPROC"
    and u: "st_state (s_table s k) = USED"
  shows "\<exists>s'. add_pass_stride me s = Inr s' \<and> tickets_ok s' \<and> ptable s' = ptable s
    \<and> m_table s' = m_table s \<and> shares s' = shares s \<and> schedticks s' = schedticks s
    \<and> st_pass (s_table s k) + st_stride (s_table s k) < 2 ^ 31"
proof -
  let ?s = "upd_stride k (\<lambda>t. t\<lparr>st_pass := st_pass t + st_stride t\<rparr>) s"
  let ?r = "?s\<lparr>s_table := \<lambda>i. if i < NPROC \<and> st_state (s_table ?s i) = USED
      then (s_table ?s i)\<lparr>st_pass := 0\<rparr> else s_table ?s i\<rparr>"
  note d = tickets_okD [OF ok] and r = tickets_range [OF ok k(2) u]
  have sh: "shares ?s = shares s" "shares ?r = shares s" by (auto simp: shares_def)
  have bnd: "st_pass (s_table s k) + st_stride (s_table s k) < 2 ^ 31"
    using d(11) [OF k(2)] r by (simp add: stride1_def)
  have sum: "(\<Sum>i\<in>shares s. st_tickets (s_table ?s i)) = (\<Sum>i\<in>shares s. st_tickets (s_table s i))"
    "(\<Sum>i\<in>shares s. st_tickets (s_table ?r i)) = (\<Sum>i\<in>shares s. st_tickets (s_table s i))"
    by (auto intro: sum.cong)
  show ?thesis
  proof (cases "st_pass (s_table s k) + st_stride (s_table s k) > 100000000")
    case True
    have "tickets_ok ?r"
      using d u shares_pos unfolding tickets_ok_def sh sum by auto
    then show ?thesis
      using k True bnd sh by (auto simp: add_pass_stride_def Let_def)
  next
    case False
    have "tickets_ok ?s"
      using d r u False shares_pos unfolding tickets_ok_def sh sum by auto
    then show ?thesis
      using k False bnd sh by (auto simp: add_pass_stride_def Let_def)
  qed
qed


subsection \<open>Asking for a share\<close>

lemma fold_add_sum: "fold (\<lambda>i a. a + f i) xs (b::int) = b + sum_list (map f xs)"
  by (induction xs arbitrary: b) auto

lemma fold_min_bounds:
  "\<forall>i\<in>set xs. l \<le> f i \<Longrightarrow> l \<le> (b::int) \<Longrightarrow>
    l \<le> fold (\<lambda>i a. if a > f i then f i else a) xs b \<and> fold (\<lambda>i a. if a > f i then f i else a) xs b \<le> b"
  by (induction xs arbitrary: b) fastforce+

lemma shares_sum_list:
  "sum_list (map (\<lambda>i. st_tickets (s_table s i))
      (filter (\<lambda>i. st_state (s_table s i) = USED) [1..<NPROC])) =
    (\<Sum>i\<in>shares s. st_tickets (s_table s i))"
proof -
  have "set (filter (\<lambda>i. st_state (s_table s i) = USED) [1..<NPROC]) = shares s"
    by (auto simp: shares_def)
  moreover have "distinct (filter (\<lambda>i. st_state (s_table s i) = USED) [1..<NPROC])"
    by simp
  ultimately show ?thesis by (metis sum_list_distinct_conv_sum_set)
qed

text \<open>The pass a new share starts with.\<close>

definition start_pass :: "kst \<Rightarrow> int" where
  "start_pass s =
     (let m = fold (\<lambda>i a. if a > st_pass (s_table s i) then st_pass (s_table s i) else a)
                (filter (\<lambda>i. st_state (s_table s i) = USED) [1..<NPROC]) 1000000000
      in if m > st_pass (s_table s 0) then st_pass (s_table s 0) else m)"

lemma start_pass_bounds:
  assumes "tickets_ok s"
  shows "0 \<le> start_pass s" "start_pass s \<le> st_pass (s_table s 0)"
proof -
  let ?xs = "filter (\<lambda>i. st_state (s_table s i) = USED) [1..<NPROC]"
  have "\<forall>i\<in>set ?xs. 0 \<le> st_pass (s_table s i)"
    using tickets_okD(10) [OF assms] by auto
  from fold_min_bounds [OF this, of 1000000000]
  show "0 \<le> start_pass s" "start_pass s \<le> st_pass (s_table s 0)"
    using tickets_okD(10) [OF assms, of 0] by (auto simp: start_pass_def Let_def)
qed

text \<open>The table after the share has been entered at slot \<open>k\<close>.\<close>

definition share_table :: "kst \<Rightarrow> nat \<Rightarrow> int \<Rightarrow> int \<Rightarrow> nat \<Rightarrow> stride" where
  "share_table s k n pid =
     (let t0 = st_tickets (s_table s 0) - n in
      (s_table s)(k := (s_table s k)\<lparr>st_tickets := n, st_stride := stride1 div n,
                       st_pass := start_pass s, st_state := USED, st_pid := pid\<rparr>,
                  0 := (s_table s 0)\<lparr>st_tickets := t0, st_stride := stride1 div t0\<rparr>))"

lemma share_table_ok:
  assumes ok: "tickets_ok s" and k: "0 < k" "k < NPROC" "st_state (s_table s k) = EMPTY"
    and n: "0 < n" "n + (\<Sum>i\<in>shares s. st_tickets (s_table s i)) \<le> 80" and "pid \<noteq> 0"
    and t: "s_table t = share_table s k n pid"
  shows "tickets_ok t \<and> shares t = insert k (shares s)"
proof -
  note d = tickets_okD [OF ok] and sp = start_pass_bounds [OF ok]
  have k': "k \<notin> shares s" using k by (simp add: shares_def)
  have sh: "shares t = insert k (shares s)"
    using k by (auto simp: t share_table_def shares_def Let_def)
  have old: "(\<Sum>i\<in>shares s. st_tickets (s_table t i)) = (\<Sum>i\<in>shares s. st_tickets (s_table s i))"
    using k' by (intro sum.cong) (auto simp: t share_table_def Let_def)
  have sum: "(\<Sum>i\<in>shares t. st_tickets (s_table t i)) = n + (\<Sum>i\<in>shares s. st_tickets (s_table s i))"
    using k k' by (simp add: sh old) (simp add: t share_table_def Let_def)
  have pos: "i \<noteq> 0" if "i \<in> shares s" for i using that by (auto simp: shares_def)
  have "start_pass s \<le> 100000000" using sp(2) d(11) [of 0] by simp
  then have "tickets_ok t"
    unfolding tickets_ok_def sum
    using d sp(1) k k' n \<open>pid \<noteq> 0\<close> pos
    by (auto simp: sh t share_table_def Let_def)
  then show ?thesis using sh by simp
qed

text \<open>Few enough shares leave a free slot: every share holds at least one ticket.\<close>

lemma free_share_slot:
  assumes "card (shares s) < NPROC - 1" and "tickets_ok s"
  shows "\<exists>j. first_index (\<lambda>i. st_state (s_table s (Suc i)) = EMPTY) (NPROC - 1) = Some j"
proof (rule ccontr)
  assume "\<not> ?thesis"
  then have "first_index (\<lambda>i. st_state (s_table s (Suc i)) = EMPTY) (NPROC - 1) = None" by auto
  then have n: "\<forall>i<NPROC - 1. st_state (s_table s (Suc i)) \<noteq> EMPTY" by simp
  have "Suc ` {..<NPROC - 1} \<subseteq> shares s"
  proof
    fix x assume "x \<in> Suc ` {..<NPROC - 1}"
    then obtain i where i: "x = Suc i" "i < NPROC - 1" by blast
    then show "x \<in> shares s"
      using n tickets_okD(7) [OF assms(2), of x] by (auto simp: shares_def)
  qed
  then have "card (Suc ` {..<NPROC - 1}) \<le> card (shares s)"
    by (rule card_mono [OF finite_shares])
  then show False using assms(1) by (simp add: card_image)
qed

lemma same_frame_shares: "same_frame s t \<Longrightarrow> shares t = shares s"
  by (simp add: shares_def same_frame_tables)

lemma start_pass_frame: "same_frame s t \<Longrightarrow> start_pass t = start_pass s"
  unfolding start_pass_def by (simp only: same_frame_tables(1))

lemma tickets_ok_frame: "same_frame s t \<Longrightarrow> tickets_ok t = tickets_ok s"
  by (simp add: tickets_ok_def same_frame_tables same_frame_shares)

lemma set_cpu_share_granted:
  assumes ok: "tickets_ok s" and n: "0 < n" "n + (\<Sum>i\<in>shares s. st_tickets (s_table s i)) \<le> 80"
    and st: "p_schedstate (ptable s me) \<noteq> STRIDE"
    and m: "find_master (p_pid (ptable s me)) s = Some m" and pid: "p_pid (ptable s me) \<noteq> 0"
    and room: "card (shares s) < NPROC - 1"
  shows "\<exists>k s'. set_cpu_share me n s = Inr (0, s') \<and> 0 < k \<and> k < NPROC \<and> k \<notin> shares s
    \<and> s_table s' = share_table s k n (p_pid (ptable s me))
    \<and> m_table s' = m_table (snd (pop_mlfq (p_pid (ptable s me)) s))
    \<and> (\<forall>i<NPROC. p_pid (ptable s i) = p_pid (ptable s me) \<longrightarrow>
          p_schedstate (ptable s' i) = STRIDE \<and> p_pstride (ptable s' i) = Some k)
    \<and> (\<forall>i. p_pid (ptable s i) \<noteq> p_pid (ptable s me) \<longrightarrow> ptable s' i = ptable s i)
    \<and> tickets_ok s' \<and> shares s' = insert k (shares s)"
proof -
  let ?pid = "p_pid (ptable s me)"
  let ?t = "snd (pop_mlfq ?pid s)"
  have fr: "same_frame s ?t" by (rule same_frame_pop)
  note st' = same_frame_tables(1) [OF fr]
  have mp: "p_pid (ptable s m) = ?pid" using find_master_SomeD [OF m] by simp
  have le: "n \<le> 80"
    using n sum_nonneg [of "shares s" "\<lambda>i. st_tickets (s_table s i)"] tickets_okD(4) [OF ok] by force
  have sum: "fold (\<lambda>i a. a + st_tickets (s_table s i))
      (filter (\<lambda>i. st_state (s_table s i) = USED) [1..<NPROC]) n \<le> 80"
    using n by (simp add: fold_add_sum shares_sum_list [simplified])
  obtain j where j: "first_index (\<lambda>i. st_state (s_table s (Suc i)) = EMPTY) (NPROC - 1) = Some j"
    using free_share_slot [OF room ok] by blast
  let ?k = "Suc j"
  have k: "?k < NPROC" "st_state (s_table s ?k) = EMPTY"
    using first_index_SomeD [OF j] by auto
  have t0: "st_tickets (s_table s 0) - n \<noteq> 0"
    using tickets_okD(8) [OF ok] n by simp
  let ?s' = "upd_procs (\<lambda>_ p. p_pid p = ?pid) (\<lambda>p. p\<lparr>p_schedstate := STRIDE, p_pstride := Some ?k\<rparr>)
    (?t\<lparr>s_table := share_table s ?k n ?pid\<rparr>)"
  have eq: "set_cpu_share me n s = Inr (0, ?s')"
    using m mp n le st sum j t0
    by (simp add: set_cpu_share_def Let_def st' start_pass_def share_table_def)
  have "tickets_ok ?s' \<and> shares ?s' = insert ?k (shares s)"
    by (rule share_table_ok [OF ok _ k n pid]) simp_all
  moreover have "ptable ?t i = ptable s i" if "p_pid (ptable s i) \<noteq> ?pid" for i
    using that by (auto simp: pop_mlfq_def unlink_procs_def Let_def split: option.splits)
  ultimately show ?thesis
    using eq k same_frame_proc(1) [OF fr] by (intro exI [of _ ?k] exI [of _ ?s']) (auto simp: shares_def)
qed

lemma set_cpu_share_refused:
  assumes "n \<le> 0 \<or> n > 80 \<or> p_schedstate (ptable s me) = STRIDE
    \<or> n + (\<Sum>i\<in>shares s. st_tickets (s_table s i)) > 80"
  shows "set_cpu_share me n s = Inr (-1, s)"
  using assms by (auto simp: set_cpu_share_def Let_def fold_add_sum shares_sum_list [simplified])

end
