(* ===== verification/Dispatch.thy ===== *)
theory Dispatch
  imports Stride_Share
begin

text \<open>
  What the scheduler decides: \<open>pick_stride\<close> serves the least pass, a ready process is always
  found (\<open>sched_ok\<close>), and a clock tick moves the running process between the queues by its
  quantum and allotment.
\<close>

subsection \<open>The least pass\<close>

definition elig :: "kst \<Rightarrow> nat \<Rightarrow> bool" where
  "elig s i \<longleftrightarrow> i \<in> shares s \<and> isRunnable (st_pid (s_table s i)) s"

definition sched_ok :: "kst \<Rightarrow> bool" where
  "sched_ok s \<longleftrightarrow> mlfq_ok s \<and> tickets_ok s
     \<and> (\<forall>i<NPROC. p_state (ptable s i) = RUNNABLE \<longrightarrow> p_pid (ptable s i) \<noteq> 0
          \<and> p_kstack (ptable s i) \<noteq> 0 \<and> p_pgdir (ptable s i) \<noteq> 0
          \<and> master_ok (p_pid (ptable s i)) s
          \<and> (p_pid (ptable s i) \<in> dom (abs_mlfq s)
             \<or> (\<exists>k\<in>shares s. st_pid (s_table s k) = p_pid (ptable s i))))"

lemma sched_ok_runnable:
  assumes "sched_ok s" and "isRunnable p s"
  shows "p \<noteq> 0" "master_ok p s" "p \<in> dom (abs_mlfq s) \<or> (\<exists>k. elig s k \<and> st_pid (s_table s k) = p)"
proof -
  obtain i where i: "i < NPROC" "p_pid (ptable s i) = p" "p_state (ptable s i) = RUNNABLE"
    using assms(2) by (auto simp: isRunnable_iff)
  then have "p \<noteq> 0 \<and> master_ok p s
      \<and> (p \<in> dom (abs_mlfq s) \<or> (\<exists>k\<in>shares s. st_pid (s_table s k) = p))"
    using assms(1) unfolding sched_ok_def by blast
  then show "p \<noteq> 0" "master_ok p s"
      "p \<in> dom (abs_mlfq s) \<or> (\<exists>k. elig s k \<and> st_pid (s_table s k) = p)"
    using assms(2) unfolding elig_def by blast+
qed

text \<open>A slot of the table is eligible when it passes the test of the loops of \<open>pick_stride\<close>.\<close>

lemma elig_iff:
  assumes "sched_ok s" and "i < NPROC"
  shows "st_state (s_table s i) = USED \<and> isRunnable (st_pid (s_table s i)) s \<longleftrightarrow> elig s i"
    and "st_state (s_table s i) \<noteq> EMPTY \<and> isRunnable (st_pid (s_table s i)) s \<longleftrightarrow> elig s i"
proof -
  have t: "tickets_ok s" using assms(1) by (simp add: sched_ok_def)
  have z: "\<not> isRunnable 0 s" using sched_ok_runnable(1) [OF assms(1)] by blast
  show "st_state (s_table s i) = USED \<and> isRunnable (st_pid (s_table s i)) s \<longleftrightarrow> elig s i"
    using assms(2) z tickets_okD(2) [OF t]
    by (cases "i = 0") (auto simp: elig_def shares_def)
  moreover have "st_state (s_table s i) \<noteq> EMPTY \<longleftrightarrow> st_state (s_table s i) = USED"
    using tickets_okD(7) [OF t assms(2)] by auto
  ultimately show "st_state (s_table s i) \<noteq> EMPTY \<and> isRunnable (st_pid (s_table s i)) s \<longleftrightarrow> elig s i"
    by simp
qed

lemma min_stride_least:
  assumes "sched_ok s"
  shows "(min_stride s = 0 \<or> elig s (min_stride s))
    \<and> st_pass (s_table s (min_stride s)) \<le> st_pass (s_table s 0)
    \<and> (\<forall>i. elig s i \<longrightarrow> st_pass (s_table s (min_stride s)) \<le> st_pass (s_table s i))
    \<and> (min_stride s \<noteq> 0 \<longrightarrow> st_pass (s_table s (min_stride s)) < st_pass (s_table s 0))"
proof -
  let ?p = "\<lambda>i. st_pass (s_table s i)"
  let ?I = "\<lambda>n r. (r = 0 \<or> elig s r) \<and> ?p r \<le> ?p 0 \<and> (\<forall>i<n. elig s i \<longrightarrow> ?p r \<le> ?p i)
    \<and> (r \<noteq> 0 \<longrightarrow> ?p r < ?p 0)"
  have "?I NPROC (min_stride s)"
    unfolding min_stride_def
  proof (rule fold_upt_inv [where I = ?I])
    fix i r assume "i < NPROC" and I: "?I i r"
    then show "?I (Suc i) (if st_state (s_table s i) = USED \<and> isRunnable (st_pid (s_table s i)) s
        \<and> ?p r > ?p i then i else r)"
      using elig_iff(1) [OF assms \<open>i < NPROC\<close>] by (auto simp: less_Suc_eq)
  qed simp
  then show ?thesis by (auto simp: elig_def shares_def)
qed

lemma min_stride_alone_least:
  assumes "sched_ok s" and "elig s k"
  shows "elig s (min_stride_alone s)
    \<and> (\<forall>i. elig s i \<longrightarrow> st_pass (s_table s (min_stride_alone s)) \<le> st_pass (s_table s i))"
proof -
  let ?p = "\<lambda>i. st_pass (s_table s i)"
  let ?f = "\<lambda>i (m, r). if st_state (s_table s i) \<noteq> EMPTY \<and> isRunnable (st_pid (s_table s i)) s
      \<and> m > ?p i then (?p i, i) else (m, r)"
  let ?I = "\<lambda>n (m, r). (\<forall>i<n. elig s i \<longrightarrow> m \<le> ?p i) \<and> (m = 1000000000 \<or> elig s r \<and> m = ?p r)"
  have "?I NPROC (fold ?f [0..<NPROC] (1000000000, 0))"
  proof (rule fold_upt_inv [where I = ?I])
    fix i mr assume i: "i < NPROC" and I: "?I i mr"
    obtain m r where mr: "mr = (m, r)" by (cases mr)
    show "?I (Suc i) (?f i mr)"
      using I elig_iff(2) [OF assms(1) i] unfolding mr by (auto simp: less_Suc_eq)
  qed simp
  moreover obtain m r where mr: "fold ?f [0..<NPROC] (1000000000, 0) = (m, r)" by fastforce
  ultimately have I: "\<And>i. elig s i \<Longrightarrow> m \<le> ?p i" "m = 1000000000 \<or> elig s r \<and> m = ?p r"
    by (auto simp: elig_def shares_def)
  have "?p k \<le> 100000000"
    using assms tickets_okD(11) [of s k] by (auto simp: sched_ok_def elig_def shares_def)
  then have "m \<noteq> 1000000000" using I(1) [OF assms(2)] by auto
  moreover have "min_stride_alone s = r" by (simp only: min_stride_alone_def mr snd_conv)
  ultimately show ?thesis using I by auto
qed

text \<open>
  The process that \<open>pick_stride\<close> answers is ready, and it belongs to a share of the least pass
  or, when no share is behind the feedback queues, to the best level of the queues.
\<close>

definition served :: "kst \<Rightarrow> nat \<Rightarrow> bool" where
  "served s r \<longleftrightarrow>
     (\<exists>k. elig s k \<and> st_pid (s_table s k) = p_pid (ptable s r)
        \<and> (\<forall>i. elig s i \<longrightarrow> st_pass (s_table s k) \<le> st_pass (s_table s i))
        \<and> (st_pass (s_table s k) < st_pass (s_table s 0) \<or> (\<forall>q. \<not> runnable_at s q)))
     \<or> (\<exists>q e. abs_mlfq s (p_pid (ptable s r)) = Some (q, e)
        \<and> (\<forall>j. runnable_at s j \<longrightarrow> q \<le> j)
        \<and> (\<forall>i. elig s i \<longrightarrow> st_pass (s_table s 0) \<le> st_pass (s_table s i)))"

lemma pick_stride_served:
  assumes ok: "sched_ok s" and run: "c < NPROC" "p_state (ptable s c) = RUNNABLE"
  shows "\<exists>r m f. pick_stride s = Inr (Some r, upd_proc m (\<lambda>p. p\<lparr>p_cur := r\<rparr>) (s\<lparr>m_table := f\<rparr>))
    \<and> r < NPROC \<and> p_state (ptable s r) = RUNNABLE \<and> served s r"
proof -
  have mq: "mlfq_ok s" using ok by (simp add: sched_ok_def)
  have ms: "\<And>p. isRunnable p s \<Longrightarrow> master_ok p s" using sched_ok_runnable(2) [OF ok] .
  note least = min_stride_least [OF ok]
  have share: "\<exists>r m. pick_lwp (st_pid (s_table s k)) s =
      Inr (Some r, upd_proc m (\<lambda>p. p\<lparr>p_cur := r\<rparr>) (s\<lparr>m_table := m_table s\<rparr>))
    \<and> r < NPROC \<and> p_state (ptable s r) = RUNNABLE \<and> p_pid (ptable s r) = st_pid (s_table s k)"
    if "elig s k" for k
  proof -
    have "isRunnable (st_pid (s_table s k)) s" using that by (simp add: elig_def)
    then obtain m r where "find_master (st_pid (s_table s k)) s = Some m" "r < NPROC"
        "ready (st_pid (s_table s k)) s r"
        "pick_lwp (st_pid (s_table s k)) s = Inr (Some r, upd_proc m (\<lambda>p. p\<lparr>p_cur := r\<rparr>) s)"
      by (rule pick_lwp_ready [OF ms [OF \<open>isRunnable (st_pid (s_table s k)) s\<close>]])
    then show ?thesis by (intro exI [of _ r] exI [of _ m]) simp
  qed
  show ?thesis
  proof (cases "min_stride s = 0")
    case False
    then have e: "elig s (min_stride s)" using least by simp
    moreover have "pick_stride s = pick_lwp (st_pid (s_table s (min_stride s))) s"
      using False by (simp add: pick_stride_def Let_def)
    moreover have "served s r" if "p_pid (ptable s r) = st_pid (s_table s (min_stride s))" for r
      using that False least unfolding served_def by metis
    ultimately show ?thesis using share [OF e] by metis
  next
    case True
    show ?thesis
    proof (cases "\<exists>q. runnable_at s q")
      case q: True
      then obtain q where "runnable_at s q" ..
      from pick_mlfq_hit [OF mq this ms] obtain r k i m e where
        r: "pick_mlfq s = Inr (Some r, upd_proc m (\<lambda>p. p\<lparr>p_cur := r\<rparr>) (upd_fq k (\<lambda>t. t\<lparr>q_recent := i\<rparr>) s))"
          "r < NPROC" "p_state (ptable s r) = RUNNABLE"
          "abs_mlfq s (p_pid (ptable s r)) = Some (k, e)" "\<forall>j. runnable_at s j \<longrightarrow> k \<le> j" by blast
      then have "served s r" using least True unfolding served_def by auto
      moreover have "pick_stride s = Inr (Some r, upd_proc m (\<lambda>p. p\<lparr>p_cur := r\<rparr>)
          (upd_fq k (\<lambda>t. t\<lparr>q_recent := i\<rparr>) s))"
        using r(1) True by (simp add: pick_stride_def)
      ultimately show ?thesis using r by blast
    next
      case False
      have "isRunnable (p_pid (ptable s c)) s" using run by (auto simp: isRunnable_iff)
      then obtain k where k: "elig s k"
        using sched_ok_runnable(3) [OF ok] False by (fastforce simp: runnable_at_def dom_def)
      note a = min_stride_alone_least [OF ok k]
      have "pick_stride s = pick_lwp (st_pid (s_table s (min_stride_alone s))) s"
        using True False pick_mlfq_none [OF mq] by (simp add: pick_stride_def)
      then show ?thesis
        using a False share [of "min_stride_alone s"] unfolding served_def by metis
    qed
  qed
qed

text \<open>The scheduler dispatches a ready process whenever the slot it looks at is ready.\<close>

lemma sched_cand_dispatches:
  assumes ok: "sched_ok s" and run: "c < NPROC" "p_state (ptable s c) = RUNNABLE"
  shows "\<exists>r s'. sched_cand c s = Inr (Some r, s') \<and> r < NPROC
    \<and> p_state (ptable s r) = RUNNABLE \<and> p_state (ptable s' r) = RUNNING \<and> served s r
    \<and> (\<forall>i. i \<noteq> r \<longrightarrow> p_state (ptable s' i) = p_state (ptable s i))"
proof -
  obtain r m f where r: "pick_stride s = Inr (Some r, upd_proc m (\<lambda>p. p\<lparr>p_cur := r\<rparr>) (s\<lparr>m_table := f\<rparr>))"
      "r < NPROC" "p_state (ptable s r) = RUNNABLE" "served s r"
    using pick_stride_served [OF assms] by blast
  have "p_kstack (ptable s r) \<noteq> 0" "p_pgdir (ptable s r) \<noteq> 0"
    using ok r by (simp_all add: sched_ok_def)
  then show ?thesis
    using run r by (auto simp: sched_cand_def switchuvm_def)
qed

lemma sched_cand_idle:
  "p_state (ptable s c) \<noteq> RUNNABLE \<Longrightarrow> sched_cand c s = Inr (None, s)"
  by (simp add: sched_cand_def)

end
