(* ===== verification/Tick.thy ===== *)
theory Tick
  imports Dispatch
begin

text \<open>
  The clock tick: what \<open>add_tick\<close> charges to the running process, when the process drops a
  level, when it must yield and when all of them are boosted.
\<close>

lemma queue_cong:
  assumes "m_table t = m_table s"
  shows "mlfq_ok t = mlfq_ok s" "abs_mlfq t = abs_mlfq s" "find_node p t = find_node p s"
    "used_nodes t = used_nodes s"
proof -
  show f: "find_node p t = find_node p s" for p using assms by (simp add: find_node_def)
  show "mlfq_ok t = mlfq_ok s" "used_nodes t = used_nodes s"
    using assms by (simp_all add: mlfq_ok_def node_ok_def used_def used_nodes_def)
  show "abs_mlfq t = abs_mlfq s"
    using assms f by (simp add: abs_mlfq_def fun_eq_iff)
qed

lemma linked_cong:
  "m_table t = m_table s \<Longrightarrow> ptable t = ptable s \<Longrightarrow> linked t = linked s"
  unfolding linked_def queue_cong(2,3) [of t s] by (simp only:)

lemma tickets_ok_cong: "s_table t = s_table s \<Longrightarrow> tickets_ok t = tickets_ok s"
  by (simp only: tickets_ok_def shares_def)

lemma tick_node:
  fixes e :: int
  assumes ok: "mlfq_ok s" and qi: "(q, i) \<in> used_nodes s"
  defines "t \<equiv> upd_node q i (\<lambda>m. m\<lparr>m_eticks := e\<rparr>) s"
  shows "mlfq_ok t" "linked s \<Longrightarrow> linked t"
    "abs_mlfq t = (abs_mlfq s)(m_pid (node s q i) \<mapsto> (q, e))"
proof -
  have fields: "m_state (node t k j) = m_state (node s k j)" "m_pid (node t k j) = m_pid (node s k j)"
    "m_prior (node t k j) = m_prior (node s k j)" "q_recent (m_table t k) = q_recent (m_table s k)"
    "q_count (m_table t k) = q_count (m_table s k)" for k j
    by (simp_all add: t_def)
  then show okt: "mlfq_ok t"
    using ok by (simp add: mlfq_ok_def node_ok_def used_def used_nodes_def)
  have f: "find_node p t = find_node p s" for p by (simp add: find_node_def fields)
  have u: "used_nodes t = used_nodes s" by (simp add: used_nodes_def fields)
  have "dom (abs_mlfq t) = dom (abs_mlfq s)"
    by (simp add: dom_abs_mlfq ok okt u fields)
  then show "linked s \<Longrightarrow> linked t" by (simp add: linked_def f) (simp add: t_def)
  have e: "m_eticks (node t k j) = (if (k, j) = (q, i) then e else m_eticks (node s k j))" for k j
    by (simp add: t_def)
  have inj: "m_pid (node s k j) = m_pid (node s q i) \<longleftrightarrow> (k, j) = (q, i)" if "(k, j) \<in> used_nodes s" for k j
    using inj_onD [OF mlfq_okD(4) [OF ok], of "(k, j)" "(q, i)"] that qi by auto
  show "abs_mlfq t = (abs_mlfq s)(m_pid (node s q i) \<mapsto> (q, e))"
  proof (rule abs_mlfq_eqI [OF okt])
    fix p k n
    show "((abs_mlfq s)(m_pid (node s q i) \<mapsto> (q, e))) p = Some (k, n) \<longleftrightarrow>
      (\<exists>j. (k, j) \<in> used_nodes t \<and> m_pid (node t k j) = p \<and> m_eticks (node t k j) = n)"
      using qi inj by (auto simp: u fields e abs_mlfq_Some [OF ok])
  qed
qed

text \<open>The quantum of a level, and where a process goes when its elapsed ticks reach \<open>e\<close>.\<close>

definition quantum :: "nat \<Rightarrow> int" where
  "quantum q = (if q = 0 then 5 else if q = 1 then 10 else 20)"

definition charge :: "nat \<Rightarrow> int \<Rightarrow> nat \<times> int" where
  "charge q e = (if q = 0 \<and> 20 \<le> e then (1, 0) else if q = 1 \<and> 40 \<le> e then (2, 0) else (q, e))"

definition queues_ok :: "kst \<Rightarrow> bool" where
  "queues_ok s \<longleftrightarrow> mlfq_ok s \<and> linked s \<and> tickets_ok s"

lemma prior_boost_queues:
  assumes "queues_ok s"
  shows "queues_ok (prior_boost s)"
    and "abs_mlfq (prior_boost s) = (\<lambda>p. if p \<in> dom (abs_mlfq s) then Some (0, 0) else None)"
    and "schedticks (prior_boost s) = 0"
  using assms prior_boost_refines [of s] tickets_ok_frame [of s "prior_boost s"]
  by (simp_all add: queues_ok_def)

lemma move_prior_queues:
  assumes "queues_ok s" and "pid \<in> dom (abs_mlfq s)" and "0 \<le> l" "l \<le> 2"
  shows "queues_ok (snd (move_prior pid l s))"
    and "abs_mlfq (snd (move_prior pid l s)) = (abs_mlfq s)(pid \<mapsto> (nat l, 0))"
    and "schedticks (snd (move_prior pid l s)) = schedticks s"
proof -
  show "queues_ok (snd (move_prior pid l s))"
    and "abs_mlfq (snd (move_prior pid l s)) = (abs_mlfq s)(pid \<mapsto> (nat l, 0))"
    using assms move_prior_refines [of s pid l] linked_move [of s pid l]
      tickets_ok_frame [OF same_frame_move [of s pid l]]
    by (simp_all add: queues_ok_def)
  show "schedticks (snd (move_prior pid l s)) = schedticks s"
    by (auto simp: move_prior_def pop_mlfq_def push_mlfq_def unlink_procs_def Let_def
        split: option.splits prod.splits)
qed

text \<open>The charge to a node, as one state: ticks, then the drop to the next level.\<close>

definition charged :: "int \<Rightarrow> nat \<Rightarrow> int \<Rightarrow> kst \<Rightarrow> kst" where
  "charged pid q e t = (if charge q e = (q, e) then t else snd (move_prior pid (int q + 1) t))"

lemma charged_queues:
  assumes "queues_ok t" and "abs_mlfq t pid = Some (q, e)"
  shows "queues_ok (charged pid q e t)"
    and "abs_mlfq (charged pid q e t) = (abs_mlfq t)(pid \<mapsto> charge q e)"
    and "schedticks (charged pid q e t) = schedticks t"
proof -
  have d: "pid \<in> dom (abs_mlfq t)" using assms(2) by auto
  have n: "nat (int q + 1) = Suc q" by simp
  have "charge q e \<noteq> (q, e) \<Longrightarrow> q \<le> 1 \<and> charge q e = (Suc q, 0)"
    by (auto simp: charge_def split: if_splits)
  moreover have "charge q e = (q, e) \<Longrightarrow> abs_mlfq t = (abs_mlfq t)(pid \<mapsto> charge q e)"
    using assms(2) by (simp add: fun_upd_idem)
  ultimately show "queues_ok (charged pid q e t)"
    "abs_mlfq (charged pid q e t) = (abs_mlfq t)(pid \<mapsto> charge q e)"
    "schedticks (charged pid q e t) = schedticks t"
    using move_prior_queues [OF assms(1) d, of "int q + 1"] assms(1)
    unfolding charged_def n by auto
qed

lemma add_tick_mlfq:
  assumes ok: "queues_ok s" and me: "me < NPROC" "p_state (ptable s me) = RUNNING"
    and st: "p_pstride (ptable s me) = Some k" "k < NPROC" "st_state (s_table s k) = USED"
    and a: "abs_mlfq s (p_pid (ptable s me)) = Some (q, e)"
  shows "\<exists>s'. add_tick me s = Inr ((e + 1) mod quantum q = 0, s') \<and> queues_ok s'
    \<and> (if (e + 1) mod quantum q = 0 \<and> 200 \<le> sint (schedticks s)
       then schedticks s' = 0
         \<and> abs_mlfq s' = (\<lambda>p. if p \<in> dom (abs_mlfq s) then Some (0, 0) else None)
       else schedticks s' = schedticks s + 1
         \<and> abs_mlfq s' = (abs_mlfq s)(p_pid (ptable s me) \<mapsto> charge q (e + 1)))"
proof -
  let ?pid = "p_pid (ptable s me)"
  obtain s1 where s1: "add_pass_stride me s = Inr s1" "tickets_ok s1" "ptable s1 = ptable s"
      "m_table s1 = m_table s" "schedticks s1 = schedticks s"
    using add_pass_stride_ok [of s me k] ok st by (auto simp: queues_ok_def)
  have mq: "mlfq_ok s" and ln: "linked s" using ok by (auto simp: queues_ok_def)
  obtain i where i: "(q, i) \<in> used_nodes s" "m_pid (node s q i) = ?pid" "m_eticks (node s q i) = e"
    using a by (auto simp: abs_mlfq_Some [OF mq])
  note u = used_nodesD [OF mq i(1)]
  have f: "find_node ?pid s = Some (q, i)" using find_node_iff [OF mq] i u by simp
  have p: "p_schedstate (ptable s me) = MLFQ" "p_mlfq (ptable s me) = Some (q, i)"
    using ln me(1) a f by (auto simp: linked_def)
  define s2 where "s2 = s1\<lparr>schedticks := schedticks s + 1\<rparr>"
  define t where "t = upd_node q i (\<lambda>m. m\<lparr>m_eticks := e + 1\<rparr>) s2"
  have s2: "m_table s2 = m_table s" "ptable s2 = ptable s" "s_table s2 = s_table s1"
    by (simp_all add: s2_def s1)
  note c2 = queue_cong [OF s2(1)] linked_cong [OF s2(1,2)]
  have t: "mlfq_ok t" "linked t" "abs_mlfq t = (abs_mlfq s)(?pid \<mapsto> (q, e + 1))"
    using tick_node [of s2 q i "e + 1"] mq ln i c2 by (simp_all add: t_def s2)
  have "tickets_ok t" using s1(2) tickets_ok_cong [of t s1] by (simp add: t_def s2)
  then have tq: "queues_ok t" using t by (simp add: queues_ok_def)
  have at: "abs_mlfq t ?pid = Some (q, e + 1)" by (simp add: t)
  define c where "c = charged ?pid q (e + 1) t"
  note cq = charged_queues [OF tq at, folded c_def]
  have tk: "schedticks c = schedticks s + 1" by (simp add: cq) (simp add: t_def s2_def)
  have ac: "abs_mlfq c = (abs_mlfq s)(?pid \<mapsto> charge q (e + 1))" by (simp add: cq t)
  have dc: "dom (abs_mlfq c) = dom (abs_mlfq s)" using a by (auto simp: ac)
  let ?y = "(e + 1) mod quantum q = 0"
  have "q = 0 \<or> q = 1 \<or> q = 2" using u(1) by auto
  moreover have "node t q i = (node s q i)\<lparr>m_eticks := e + 1\<rparr>" by (simp add: t_def s2)
  ultimately have eq: "add_tick me s =
      Inr (?y, if ?y \<and> 200 \<le> sint (schedticks s) then prior_boost c else c)"
    using s1 me p i u
    by (elim disjE) (simp_all add: add_tick_def Let_def c_def t_def s2_def charged_def charge_def
        quantum_def prior_boost_def)
  note b = prior_boost_queues [OF cq(1), unfolded dc]
  show ?thesis
  proof (cases "?y \<and> 200 \<le> sint (schedticks s)")
    case True
    then show ?thesis using eq b by simp
  next
    case False
    then show ?thesis using eq cq(1) ac tk by auto
  qed
qed

lemma add_tick_no_share:
  "p_pstride (ptable s me) = None \<Longrightarrow> add_tick me s = Inl (Fault ''add_pass_stride: pstride'')"
  by (simp add: add_tick_def add_pass_stride_def)

end
