(* ===== verification/Sched_Correct.thy ===== *)
theory Sched_Correct
  imports Tick Dispatch
begin

text \<open>
  The properties of the scheduler, and a concrete state to which they are applied: process 1 in the top feedback queue and process 2 with a
  CPU share of 20, both in one thread. The theorems about the scheduler are applied to it.
\<close>

definition demo_tf :: trapframe where
  "demo_tf = \<lparr>tf_edi = 0, tf_esi = 0, tf_ebp = 0, tf_ebx = 0, tf_edx = 0, tf_ecx = 0, tf_eax = 0,
     tf_gs = 0, tf_fs = 0, tf_es = 0, tf_ds = 0, tf_trapno = 0, tf_err = 0, tf_eip = 0,
     tf_cs = 0, tf_eflags = 0, tf_esp = 0, tf_ss = 0\<rparr>"

definition demo_proc :: "nat \<Rightarrow> int \<Rightarrow> procstate \<Rightarrow> stridestate \<Rightarrow> nat option \<Rightarrow> (nat \<times> nat) option \<Rightarrow> proc" where
  "demo_proc i pid st sched k qi =
     \<lparr>p_sz = 0, p_pgdir = (if pid = 0 then 0 else 0x80400000), p_kstack = (if pid = 0 then 0 else 0x80500000),
      p_state = st, p_pid = pid, p_parent = None, p_tf = demo_tf, p_chan = None, p_killed = False,
      p_ofile = \<lambda>_. None, p_cwd = None, p_name = [], p_schedstate = sched, p_pstride = k, p_mlfq = qi,
      p_retVal = 0, p_tid = (if pid = 0 then 0 else 1), p_master = (if pid = 0 then None else Some i),
      p_base = 0, p_cur = i, p_stack_size = 0, p_stack = \<lambda>_. 0\<rparr>"

definition demo_node :: "stridestate \<Rightarrow> int \<Rightarrow> int \<Rightarrow> nat \<Rightarrow> mlfq_node" where
  "demo_node st e pid q = \<lparr>m_state = st, m_eticks = e, m_pid = pid, m_prior = q\<rparr>"

definition demo_share :: "int \<Rightarrow> int \<Rightarrow> stridestate \<Rightarrow> stride" where
  "demo_share t pid st =
     \<lparr>st_tickets = t, st_stride = stride1 div t, st_pass = 0, st_pid = pid, st_isMLFQ = 0, st_state = st\<rparr>"

definition demo :: "procstate \<Rightarrow> kst" where
  "demo st =
     \<lparr>ptable = \<lambda>i. if i = 0 then demo_proc 0 1 st MLFQ (Some 0) (Some (0, 0))
                  else if i = 1 then demo_proc 1 2 RUNNABLE STRIDE (Some 1) None
                  else demo_proc i 0 UNUSED USED None None,
      s_table = \<lambda>i. if i = 0 then demo_share 80 0 USED else if i = 1 then demo_share 20 2 USED
                   else demo_share 0 0 EMPTY,
      m_table = \<lambda>q. \<lparr>q_table = \<lambda>i. if q = 0 \<and> i = 0 then demo_node USED 4 1 0 else demo_node EMPTY 0 0 q,
                     q_count = (if q = 0 then 1 else 0), q_recent = 0\<rparr>,
      nextpid = 3, initproc = Some 0, schedticks = 7\<rparr>"

lemmas demo_defs = demo_def demo_proc_def demo_node_def demo_share_def

lemma demo_proc_sel [simp]:
  "p_pid (ptable (demo st) i) = (if i = 0 then 1 else if i = 1 then 2 else 0)"
  "p_tid (ptable (demo st) i) = (if i = 0 \<or> i = 1 then 1 else 0)"
  "p_state (ptable (demo st) i) = (if i = 0 then st else if i = 1 then RUNNABLE else UNUSED)"
  "p_cur (ptable (demo st) i) = i" "p_schedstate (ptable (demo st) 0) = MLFQ"
  "p_pstride (ptable (demo st) 0) = Some 0" "p_mlfq (ptable (demo st) 0) = Some (0, 0)"
  "p_kstack (ptable (demo st) i) = (if i = 0 \<or> i = 1 then 0x80500000 else 0)"
  "p_pgdir (ptable (demo st) i) = (if i = 0 \<or> i = 1 then 0x80400000 else 0)"
  by (simp_all add: demo_defs)

lemma demo_node_sel [simp]:
  "m_pid (node (demo st) q i) = (if q = 0 \<and> i = 0 then 1 else 0)"
  "m_eticks (node (demo st) q i) = (if q = 0 \<and> i = 0 then 4 else 0)"
  "m_state (node (demo st) q i) = (if q = 0 \<and> i = 0 then USED else EMPTY)"
  "m_prior (node (demo st) q i) = q" "q_recent (m_table (demo st) q) = 0"
  "q_count (m_table (demo st) q) = (if q = 0 then 1 else 0)" "schedticks (demo st) = 7"
  by (simp_all add: demo_defs)

lemma demo_share_sel [simp]:
  "st_pid (s_table (demo st) i) = (if i = 1 then 2 else 0)"
  "st_state (s_table (demo st) i) = (if i = 0 \<or> i = 1 then USED else EMPTY)"
  "st_tickets (s_table (demo st) i) = (if i = 0 then 80 else if i = 1 then 20 else 0)"
  "st_stride (s_table (demo st) i) = stride1 div (if i = 0 then 80 else if i = 1 then 20 else 0)"
  "st_pass (s_table (demo st) i) = 0"
  by (simp_all add: demo_defs)

lemma demo_shares [simp]: "shares (demo st) = {1}"
  by (auto simp: shares_def NPROC_def)

lemma demo_used [simp]: "used_nodes (demo st) = {(0, 0)}"
  by (auto simp: used_nodes_def NPROC_def split: if_splits)

lemma demo_used_q [simp]: "used (demo st) q = (if q = 0 then {0} else {})"
  by (auto simp: used_def NPROC_def split: if_splits)

lemma demo_mlfq_ok [simp]: "mlfq_ok (demo st)"
  by (auto simp: mlfq_ok_def node_ok_def NPROC_def)

lemma demo_abs [simp]: "abs_mlfq (demo st) = [1 \<mapsto> (0, 4)]"
  by (rule abs_mlfq_eqI) auto

lemma demo_find [simp]: "find_node 1 (demo st) = Some (0, 0)"
  by (simp add: find_node_iff)

lemma demo_tickets_ok [simp]: "tickets_ok (demo st)"
  by (simp add: tickets_ok_def)

lemma demo_queues_ok [simp]: "queues_ok (demo st)"
  by (auto simp: queues_ok_def linked_def split: if_splits)

lemma demo_master [simp]: "find_master 1 (demo st) = Some 0" "find_master 2 (demo st) = Some 1"
  unfolding find_master_def first_index_Some by (auto simp: NPROC_def)

lemma demo_sched_ok [simp]: "sched_ok (demo RUNNABLE)"
  by (auto simp: sched_ok_def master_ok_def NPROC_def split: if_splits)


text \<open>
  The properties of the scheduler, each from the lemmas of its component and applied to the
  state \<open>demo\<close>.
\<close>

text \<open>
  C2: If some process is ready, the scheduler loop at its slot dispatches a ready process
  and changes no other; the one chosen holds the least pass among the CPU shares, or sits in
  the first feedback queue with a ready process when the queues are due.
\<close>

theorem scheduler_dispatches_ready:
  assumes "sched_ok s" and "c < NPROC" and "p_state (ptable s c) = RUNNABLE"
  shows "\<exists>r s'. sched_cand c s = Inr (Some r, s') \<and> r < NPROC
    \<and> p_state (ptable s r) = RUNNABLE \<and> p_state (ptable s' r) = RUNNING \<and> served s r
    \<and> (\<forall>i. i \<noteq> r \<longrightarrow> p_state (ptable s' i) = p_state (ptable s i))"
  using assms by (rule sched_cand_dispatches)

theorem scheduler_dispatches_ready_witness:
  "\<exists>r s'. sched_cand 0 (demo RUNNABLE) = Inr (Some r, s') \<and> served (demo RUNNABLE) r"
  using scheduler_dispatches_ready [of "demo RUNNABLE" 0] by (auto simp: NPROC_def)

text \<open>
  C4: Picking NPROC times a thread of a process reaches every thread of it that stays ready:
  the rotation starves none.
\<close>

theorem thread_rotation_fair:
  assumes "master_ok pid s" and "i < NPROC" and "ready pid s i"
  shows "Some i \<in> set (lwp_run NPROC pid s)"
  using assms by (rule ready_reached)

theorem thread_rotation_fair_witness: "Some 1 \<in> set (lwp_run NPROC 2 (demo SLEEPING))"
  by (rule thread_rotation_fair) (auto simp: master_ok_def NPROC_def)



text \<open>
  C6: prior_boost refines moving every queued process to the top queue with no elapsed
  ticks, whatever the order in which the nodes are moved while they are scanned.
\<close>

theorem boost_refines:
  assumes "queues_ok s"
  shows "queues_ok (prior_boost s) \<and> schedticks (prior_boost s) = 0
    \<and> abs_mlfq (prior_boost s) = (\<lambda>p. if p \<in> dom (abs_mlfq s) then Some (0, 0) else None)"
  using prior_boost_queues [OF assms] by blast

theorem boost_refines_witness: "abs_mlfq (prior_boost (demo RUNNING)) 1 = Some (0, 0)"
  using boost_refines [of "demo RUNNING"] by simp

theorem move_prior_queue:
  assumes "queues_ok s" and "pid \<in> dom (abs_mlfq s)" and "0 \<le> l" and "l \<le> 2"
  shows "queues_ok (snd (move_prior pid l s)) \<and> schedticks (snd (move_prior pid l s)) = schedticks s
    \<and> abs_mlfq (snd (move_prior pid l s)) = (abs_mlfq s)(pid \<mapsto> (nat l, 0))"
  using move_prior_queues [OF assms] by blast

theorem move_prior_queue_witness: "abs_mlfq (snd (move_prior 1 2 (demo RUNNING))) 1 = Some (2, 0)"
  using move_prior_queue [of "demo RUNNING" 1 2] by simp



theorem cpu_share_refused:
  assumes "n \<le> 0 \<or> n > 80 \<or> p_schedstate (ptable s me) = STRIDE
    \<or> n + (\<Sum>i\<in>shares s. st_tickets (s_table s i)) > 80"
  shows "set_cpu_share me n s = Inr (-1, s)"
  using assms by (rule set_cpu_share_refused)

theorem cpu_share_refused_witness: "set_cpu_share 0 61 (demo RUNNING) = Inr (-1, demo RUNNING)"
  using cpu_share_refused [of 61 "demo RUNNING" 0] by simp



end
