(* ===== verification/Bytes.thy ===== *)
theory Bytes
  imports Prelude
begin

text \<open>
  Raw memory as a function from a byte index, and the little-endian layout in which the x86
  kernel and mkfs store 16- and 32-bit integers: loads, stores, that a load gives back what
  was stored, and that stores to disjoint places do not interfere.
\<close>

type_synonym mem = "nat \<Rightarrow> u8"

definition get16 :: "mem \<Rightarrow> nat \<Rightarrow> u16" where
  "get16 m a = ucast (m a) OR push_bit 8 (ucast (m (a + 1)))"

definition put16 :: "nat \<Rightarrow> u16 \<Rightarrow> mem \<Rightarrow> mem" where
  "put16 a v m = m(a := ucast v, a + 1 := ucast (drop_bit 8 v))"

definition get32 :: "mem \<Rightarrow> nat \<Rightarrow> u32" where
  "get32 m a = ucast (m a) OR push_bit 8 (ucast (m (a + 1)))
     OR push_bit 16 (ucast (m (a + 2))) OR push_bit 24 (ucast (m (a + 3)))"

definition put32 :: "nat \<Rightarrow> u32 \<Rightarrow> mem \<Rightarrow> mem" where
  "put32 a v m = m(a := ucast v, a + 1 := ucast (drop_bit 8 v),
     a + 2 := ucast (drop_bit 16 v), a + 3 := ucast (drop_bit 24 v))"

text \<open>memmove and memset on disjoint areas.\<close>

definition mcopy :: "mem \<Rightarrow> nat \<Rightarrow> nat \<Rightarrow> nat \<Rightarrow> mem \<Rightarrow> mem" where
  "mcopy src soff doff n dst = (\<lambda>i. if doff \<le> i \<and> i < doff + n then src (soff + (i - doff)) else dst i)"

definition mset :: "nat \<Rightarrow> u8 \<Rightarrow> nat \<Rightarrow> mem \<Rightarrow> mem" where
  "mset off c n dst = (\<lambda>i. if off \<le> i \<and> i < off + n then c else dst i)"

definition bytes :: "mem \<Rightarrow> nat \<Rightarrow> nat \<Rightarrow> u8 list" where
  "bytes m off n = map (\<lambda>i. m (off + i)) [0..<n]"

subsection \<open>Word arithmetic without overflow\<close>

lemma unat_less_32 [simp]: "unat (a :: u32) < 2 ^ 32"
proof -
  have "unat a < 2 ^ LENGTH(32)" by (rule unsigned_less)
  then show ?thesis by simp
qed

lemma unat_of_nat_32: "n < 2 ^ 32 \<Longrightarrow> unat (of_nat n :: u32) = n"
  by (simp add: unsigned_of_nat take_bit_nat_eq_self)

lemma unat_add_32: "unat (a :: u32) + unat b < 2 ^ 32 \<Longrightarrow> unat (a + b) = unat a + unat b"
  by (simp add: unat_word_ariths)

lemma unat_add_nat_32: "unat (a :: u32) + n < 2 ^ 32 \<Longrightarrow> unat (a + of_nat n) = unat a + n"
  by (simp add: unat_add_32 unat_of_nat_32)


subsection \<open>Loads and stores\<close>

lemma get_put16 [simp]: "get16 (put16 a v m) a = v"
  by (rule bit_eqI) (auto simp: get16_def put16_def bit_simps)

lemma get_put32 [simp]: "get32 (put32 a v m) a = v"
proof (rule bit_eqI)
  fix n assume "possible_bit TYPE(u32) n"
  then consider "n < 16" | "16 \<le> n" "n < 24" | "24 \<le> n" "n < 32" by fastforce
  then show "bit (get32 (put32 a v m) a) n = bit v n"
    by cases (auto simp: get32_def put32_def bit_simps)
qed

lemma get_put16_other: "a + 2 \<le> b \<or> b + 2 \<le> a \<Longrightarrow> get16 (put16 a v m) b = get16 m b"
  by (auto simp: get16_def put16_def)

lemma get_put32_other: "a + 4 \<le> b \<or> b + 4 \<le> a \<Longrightarrow> get32 (put32 a v m) b = get32 m b"
  by (auto simp: get32_def put32_def)

lemma get32_put16_other: "a + 2 \<le> b \<or> b + 4 \<le> a \<Longrightarrow> get32 (put16 a v m) b = get32 m b"
  by (auto simp: get32_def put16_def)

lemma get16_put32_other: "a + 4 \<le> b \<or> b + 2 \<le> a \<Longrightarrow> get16 (put32 a v m) b = get16 m b"
  by (auto simp: get16_def put32_def)

lemma put16_outside: "i < a \<or> a + 2 \<le> i \<Longrightarrow> put16 a v m i = m i"
  by (auto simp: put16_def)

lemma put32_outside: "i < a \<or> a + 4 \<le> i \<Longrightarrow> put32 a v m i = m i"
  by (auto simp: put32_def)

lemma get32_cong: "(\<And>i. a \<le> i \<Longrightarrow> i < a + 4 \<Longrightarrow> m i = m' i) \<Longrightarrow> get32 m a = get32 m' a"
  by (simp add: get32_def)

lemma get16_cong: "(\<And>i. a \<le> i \<Longrightarrow> i < a + 2 \<Longrightarrow> m i = m' i) \<Longrightarrow> get16 m a = get16 m' a"
  by (simp add: get16_def)

lemma length_bytes [simp]: "length (bytes m off n) = n"
  by (simp add: bytes_def)

lemma nth_bytes [simp]: "i < n \<Longrightarrow> bytes m off n ! i = m (off + i)"
  by (simp add: bytes_def)

lemma bytes_0 [simp]: "bytes m off 0 = []"
  by (simp add: bytes_def)

lemma bytes_cong: "(\<And>i. i < n \<Longrightarrow> m (off + i) = m' (off' + i)) \<Longrightarrow> bytes m off n = bytes m' off' n"
  by (simp add: bytes_def)

lemma bytes_append: "bytes m off (n + k) = bytes m off n @ bytes m (off + n) k"
  by (rule nth_equalityI) (auto simp: nth_append add.assoc)

lemma bytes_mcopy: "bytes (mcopy src soff doff n dst) doff n = bytes src soff n"
  by (simp add: bytes_def mcopy_def)

lemma bytes_mcopy_other:
  "off + k \<le> doff \<or> doff + n \<le> off \<Longrightarrow> bytes (mcopy src soff doff n dst) off k = bytes dst off k"
  by (auto simp: bytes_def mcopy_def)

lemma mcopy_in: "doff \<le> i \<Longrightarrow> i < doff + n \<Longrightarrow> mcopy src soff doff n dst i = src (soff + (i - doff))"
  by (simp add: mcopy_def)

lemma mcopy_out: "i < doff \<or> doff + n \<le> i \<Longrightarrow> mcopy src soff doff n dst i = dst i"
  by (auto simp: mcopy_def)

end
