(* ===== verification/Fs_Types.thy ===== *)
theory Fs_Types
  imports Bytes
begin

text \<open>
  The data of buf.h, sleeplock.h, fs.h, file.h and the log header: blocks, buffers, the
  in-memory log, the super block, in-memory inodes, and the state \<open>fsys\<close> of the file system.
  A block is a \<open>mem\<close> of which the first \<open>BSIZE\<close> bytes count; an array is a function from its
  index. The spin lock inside a sleep lock, a table or the log only makes a sequence of
  assignments atomic and is not a field. \<open>f_writes\<close> is a ghost: the writes that reached the
  disk, in their order. \<open>f_wakes\<close> lists the channels woken up.
\<close>

definition BSIZE :: nat where "BSIZE = 512"
definition MAXOPBLOCKS :: nat where "MAXOPBLOCKS = 10"
definition LOGSIZE :: nat where "LOGSIZE = 30"
definition NBUF :: nat where "NBUF = 30"
definition NINODE :: nat where "NINODE = 50"
definition NDEV :: nat where "NDEV = 10"
definition ROOTDEV :: u32 where "ROOTDEV = 1"
definition ROOTINO :: u32 where "ROOTINO = 1"
definition NDIRECT :: nat where "NDIRECT = 10"
definition NINDIRECT :: nat where "NINDIRECT = 128"
definition MAXFILE :: nat where "MAXFILE = 10 + 128 + 128 * 128 + 128 * 128 * 128"
definition IPB :: nat where "IPB = 8"
definition BPB :: nat where "BPB = 4096"
definition DIRSIZ :: nat where "DIRSIZ = 14"

record sleeplock =
  sl_locked :: bool
  sl_pid :: int

record buf =
  b_valid :: bool
  b_dirty :: bool
  b_dev :: u32
  b_blockno :: u32
  b_lock :: sleeplock
  b_refcnt :: u32
  b_data :: mem

record log =
  lg_start :: u32
  lg_size :: int
  lg_outstanding :: int
  lg_committing :: bool
  lg_dev :: u32
  lh_n :: int
  lh_block :: "nat \<Rightarrow> u32"

record superblock =
  sb_size :: u32
  sb_nblocks :: u32
  sb_ninodes :: u32
  sb_nlog :: u32
  sb_logstart :: u32
  sb_inodestart :: u32
  sb_bmapstart :: u32

record inode =
  i_dev :: u32
  i_inum :: u32
  i_ref :: int
  i_lock :: sleeplock
  i_valid :: bool
  i_type :: u16
  i_major :: u16
  i_minor :: u16
  i_nlink :: u16
  i_size :: u32
  i_addrs :: "nat \<Rightarrow> u32"

record fsys =
  f_pid :: int
  f_disk :: "u32 \<Rightarrow> mem"
  f_disksize :: u32
  f_writes :: "(u32 \<times> mem) list"
  f_bufs :: "nat \<Rightarrow> buf"
  f_next :: "nat \<Rightarrow> nat"
  f_prev :: "nat \<Rightarrow> nat"
  f_log :: log
  f_sb :: superblock
  f_icache :: "nat \<Rightarrow> inode"
  f_devread :: "nat \<Rightarrow> bool"
  f_devwrite :: "nat \<Rightarrow> bool"
  f_wakes :: "chan list"

abbreviation upd_buf :: "nat \<Rightarrow> (buf \<Rightarrow> buf) \<Rightarrow> fsys \<Rightarrow> fsys" where
  "upd_buf i g s \<equiv> s\<lparr>f_bufs := (f_bufs s)(i := g (f_bufs s i))\<rparr>"

abbreviation upd_log :: "(log \<Rightarrow> log) \<Rightarrow> fsys \<Rightarrow> fsys" where
  "upd_log g s \<equiv> s\<lparr>f_log := g (f_log s)\<rparr>"

abbreviation upd_inode :: "nat \<Rightarrow> (inode \<Rightarrow> inode) \<Rightarrow> fsys \<Rightarrow> fsys" where
  "upd_inode i g s \<equiv> s\<lparr>f_icache := (f_icache s)(i := g (f_icache s i))\<rparr>"

abbreviation fwake :: "chan \<Rightarrow> fsys \<Rightarrow> fsys" where
  "fwake c s \<equiv> s\<lparr>f_wakes := f_wakes s @ [c]\<rparr>"

text \<open>
  sleeplock.c. \<open>acquiresleep\<close> would wait while the lock is taken; \<open>releasesleep\<close> leaves the
  wakeup to its caller, who knows the channel.
\<close>

definition initsleeplock :: sleeplock where
  "initsleeplock = \<lparr>sl_locked = False, sl_pid = 0\<rparr>"

definition acquiresleep :: "chan \<Rightarrow> int \<Rightarrow> sleeplock \<Rightarrow> sleeplock res" where
  "acquiresleep c pid lk =
     (if sl_locked lk then Inl (Sleeps c) else Inr \<lparr>sl_locked = True, sl_pid = pid\<rparr>)"

definition releasesleep :: "sleeplock \<Rightarrow> sleeplock" where
  "releasesleep lk = lk\<lparr>sl_locked := False, sl_pid := 0\<rparr>"

definition holdingsleep :: "int \<Rightarrow> sleeplock \<Rightarrow> bool" where
  "holdingsleep pid lk \<longleftrightarrow> sl_locked lk \<and> sl_pid lk = pid"

lemma acquiresleep_Inr [simp]:
  "acquiresleep c pid lk = Inr lk' \<longleftrightarrow> \<not> sl_locked lk \<and> lk' = \<lparr>sl_locked = True, sl_pid = pid\<rparr>"
  by (auto simp: acquiresleep_def)

lemma sleeplock_held [simp]:
  "holdingsleep pid \<lparr>sl_locked = True, sl_pid = pid\<rparr>" "\<not> sl_locked (releasesleep lk)"
  "\<not> holdingsleep pid (releasesleep lk)"
  by (simp_all add: holdingsleep_def releasesleep_def)

end
