(* ===== verification/Ring.thy ===== *)
theory Ring
  imports Prelude
begin

text \<open>
  The circular doubly linked list of bio.c, as next and previous pointers: \<open>ring\<close> relates the
  pointers to the list of its members, and inserting at the head, unlinking and scanning in
  either direction are proved against that list.
\<close>

text \<open>The loop \<open>for(b = head.next; b != &head; b = b->next) if(ok(b)) return b;\<close>.\<close>

fun ring_scan :: "nat \<Rightarrow> nat \<Rightarrow> (nat \<Rightarrow> nat) \<Rightarrow> (nat \<Rightarrow> bool) \<Rightarrow> nat \<Rightarrow> nat option option" where
  "ring_scan 0 h nxt ok b = None"
| "ring_scan (Suc fuel) h nxt ok b =
     (if b = h then Some None
      else if ok b then Some (Some b)
      else ring_scan fuel h nxt ok (nxt b))"

text \<open>The four assignments that put \<open>b\<close> behind the head, and the two that take it out.\<close>

definition ring_insert :: "nat \<Rightarrow> nat \<Rightarrow> (nat \<Rightarrow> nat) \<times> (nat \<Rightarrow> nat) \<Rightarrow> (nat \<Rightarrow> nat) \<times> (nat \<Rightarrow> nat)" where
  "ring_insert h b = (\<lambda>(nxt, prv).
     let nxt = nxt(b := nxt h);
         prv = prv(b := h);
         prv = prv(nxt h := b);
         nxt = nxt(h := b)
     in (nxt, prv))"

definition ring_unlink :: "nat \<Rightarrow> (nat \<Rightarrow> nat) \<times> (nat \<Rightarrow> nat) \<Rightarrow> (nat \<Rightarrow> nat) \<times> (nat \<Rightarrow> nat)" where
  "ring_unlink b = (\<lambda>(nxt, prv).
     let prv = prv(nxt b := prv b);
         nxt = nxt(prv b := nxt b)
     in (nxt, prv))"

fun chain :: "(nat \<Rightarrow> nat) \<Rightarrow> (nat \<Rightarrow> nat) \<Rightarrow> nat \<Rightarrow> nat list \<Rightarrow> nat \<Rightarrow> bool" where
  "chain nxt prv a [] c \<longleftrightarrow> nxt a = c \<and> prv c = a"
| "chain nxt prv a (x # xs) c \<longleftrightarrow> nxt a = x \<and> prv x = a \<and> chain nxt prv x xs c"

definition ring :: "nat \<Rightarrow> (nat \<Rightarrow> nat) \<Rightarrow> (nat \<Rightarrow> nat) \<Rightarrow> nat list \<Rightarrow> bool" where
  "ring h nxt prv xs \<longleftrightarrow> distinct (h # xs) \<and> chain nxt prv h xs h"

lemma chain_append:
  "chain nxt prv a (xs @ x # ys) c \<longleftrightarrow> chain nxt prv a xs x \<and> chain nxt prv x ys c"
  by (induction xs arbitrary: a) auto

lemma chain_cong:
  assumes "\<And>x. x \<in> insert a (set xs) \<Longrightarrow> nxt' x = nxt x"
    and "\<And>x. x \<in> insert c (set xs) \<Longrightarrow> prv' x = prv x"
  shows "chain nxt' prv' a xs c = chain nxt prv a xs c"
  using assms by (induction xs arbitrary: a) auto

lemma chain_rev: "chain nxt prv a xs c = chain prv nxt c (rev xs) a"
  by (induction xs arbitrary: a) (auto simp: chain_append)

lemma ring_rev: "ring h nxt prv xs \<Longrightarrow> ring h prv nxt (rev xs)"
  using chain_rev by (simp add: ring_def)

lemma chain_scan:
  "chain nxt prv a xs h \<Longrightarrow> h \<notin> set xs \<Longrightarrow> length xs < fuel \<Longrightarrow>
     ring_scan fuel h nxt ok (nxt a) = Some (find ok xs)"
proof (induction xs arbitrary: a fuel)
  case Nil
  then show ?case by (cases fuel) auto
next
  case (Cons x xs)
  then obtain f where f: "fuel = Suc f" by (cases fuel) auto
  with Cons show ?case by auto
qed

lemma ring_scan_next:
  "ring h nxt prv xs \<Longrightarrow> length xs < fuel \<Longrightarrow> ring_scan fuel h nxt ok (nxt h) = Some (find ok xs)"
  by (auto simp: ring_def chain_scan)

lemma ring_scan_prev:
  "ring h nxt prv xs \<Longrightarrow> length xs < fuel \<Longrightarrow> ring_scan fuel h prv ok (prv h) = Some (find ok (rev xs))"
  using ring_scan_next [OF ring_rev, of h nxt prv xs fuel ok] by simp

lemma ring_empty: "ring h (nxt(h := h)) (prv(h := h)) []"
  by (simp add: ring_def)

lemma ring_insert:
  assumes "ring h nxt prv xs" and "b \<notin> set (h # xs)" and "ring_insert h b (nxt, prv) = (nxt', prv')"
  shows "ring h nxt' prv' (b # xs)"
proof -
  have d: "distinct (h # xs)" "chain nxt prv h xs h" using assms(1) by (simp_all add: ring_def)
  have e: "nxt' = nxt(b := nxt h, h := b)" "prv' = prv(b := h, nxt h := b)"
    using assms(2,3) by (auto simp: ring_insert_def Let_def)
  have "chain nxt' prv' b xs h"
  proof (cases xs)
    case Nil
    then show ?thesis using d assms(2) by (simp add: e)
  next
    case (Cons y ys)
    have "chain nxt' prv' y ys h = chain nxt prv y ys h"
      using d assms(2) Cons by (intro chain_cong) (auto simp: e)
    then show ?thesis using d assms(2) Cons by (simp add: e)
  qed
  then show ?thesis
    using d assms(2) by (cases xs) (auto simp: ring_def e)
qed

lemma chain_ends:
  assumes "chain nxt prv a xs c"
  shows "nxt a = hd (xs @ [c])" "prv c = last (a # xs)"
  using assms by (induction xs arbitrary: a) auto

lemma ring_unlink:
  assumes r: "ring h nxt prv (xs @ b # ys)" and u: "ring_unlink b (nxt, prv) = (nxt', prv')"
  shows "ring h nxt' prv' (xs @ ys)"
proof -
  have d: "distinct (h # xs @ b # ys)" "chain nxt prv h xs b" "chain nxt prv b ys h"
    using r by (auto simp: ring_def chain_append)
  let ?p = "last (h # xs)" and ?n = "hd (ys @ [h])"
  have pn: "prv b = ?p" "nxt b = ?n" using chain_ends d(2,3) by blast+
  have nb: "?n \<noteq> b" using d(1) by (cases ys) auto
  have e: "prv' = prv(?n := ?p)" "nxt' = nxt(?p := ?n)"
    using u nb pn by (auto simp: ring_unlink_def Let_def)
  have left: "chain nxt' prv' h zs ?p" if "xs = zs @ [?p]" for zs
  proof -
    have xs: "chain nxt prv h zs ?p" using d(2) that by (metis chain_append)
    have dd: "distinct (h # zs @ ?p # b # ys)" using d(1) that by (metis append.assoc append_Cons append_Nil)
    have "?p \<noteq> h" "?p \<notin> set zs" "?n \<notin> set zs" "?n \<noteq> ?p"
      using dd by (cases ys; auto)+
    then show ?thesis using xs by (subst chain_cong [of h zs _ nxt ?p _ prv]) (auto simp: e)
  qed
  have right: "chain nxt' prv' ?n zs h" if "ys = ?n # zs" for zs
  proof -
    have ys: "chain nxt prv ?n zs h" using d(3) that by (metis chain.simps(2))
    have dd: "distinct (h # xs @ b # ?n # zs)" using d(1) that by metis
    have "?n \<noteq> h" "?n \<notin> set zs" "?p \<notin> set zs" "?p \<noteq> ?n"
      using dd by (cases xs rule: rev_cases; auto)+
    then show ?thesis using ys by (subst chain_cong [of ?n zs _ nxt h _ prv]) (auto simp: e)
  qed
  have mid: "nxt' ?p = ?n" "prv' ?n = ?p" by (simp_all add: e)
  have "chain nxt' prv' h (xs @ ys) h"
  proof (cases xs rule: rev_cases)
    case Nil
    then show ?thesis using mid right by (cases ys) auto
  next
    case (snoc zs p)
    then show ?thesis using mid right left [of zs] by (cases ys) (auto simp: chain_append)
  qed
  then show ?thesis using d(1) by (auto simp: ring_def)
qed

end
