(* ===== verification/Bio.thy ===== *)
theory Bio
  imports Fs_Types Ring
begin

text \<open>
  bio.c over the disk of memide.c: the buffer cache. Buffers are the indices below \<open>NBUF\<close>, the
  head of the list is the index \<open>NBUF\<close> (\<open>HEAD\<close>).
\<close>

abbreviation (input) HEAD :: nat where "HEAD \<equiv> NBUF"

text \<open>memide.c: synchronise a buffer with the disk.\<close>

definition iderw :: "nat \<Rightarrow> fsys \<Rightarrow> fsys res" where
  "iderw i s =
     (let b = f_bufs s i in
      if \<not> holdingsleep (f_pid s) (b_lock b) then Inl (Panic ''iderw: buf not locked'')
      else if b_valid b \<and> \<not> b_dirty b then Inl (Panic ''iderw: nothing to do'')
      else if b_dev b \<noteq> 1 then Inl (Panic ''iderw: request not for disk 1'')
      else if b_blockno b \<ge> f_disksize s then Inl (Panic ''iderw: block out of range'')
      else if b_dirty b then
        Inr (upd_buf i (\<lambda>b. b\<lparr>b_dirty := False, b_valid := True\<rparr>)
          (s\<lparr>f_disk := (f_disk s)(b_blockno b := b_data b),
             f_writes := f_writes s @ [(b_blockno b, b_data b)]\<rparr>))
      else Inr (upd_buf i (\<lambda>b. b\<lparr>b_data := f_disk s (b_blockno b), b_valid := True\<rparr>) s))"

definition binit :: "fsys \<Rightarrow> fsys" where
  "binit s =
     fold (\<lambda>b s. let (nxt, prv) = ring_insert HEAD b (f_next s, f_prev s)
                 in upd_buf b (\<lambda>x. x\<lparr>b_lock := initsleeplock\<rparr>) (s\<lparr>f_next := nxt, f_prev := prv\<rparr>))
       [0..<NBUF] (s\<lparr>f_next := (f_next s)(HEAD := HEAD), f_prev := (f_prev s)(HEAD := HEAD)\<rparr>)"

definition lock_buf :: "nat \<Rightarrow> fsys \<Rightarrow> (nat \<times> fsys) res" where
  "lock_buf i s =
     bind_res (acquiresleep (ChBuf i) (f_pid s) (b_lock (f_bufs s i))) (\<lambda>lk.
     Inr (i, upd_buf i (\<lambda>b. b\<lparr>b_lock := lk\<rparr>) s))"

definition bget :: "u32 \<Rightarrow> u32 \<Rightarrow> fsys \<Rightarrow> (nat \<times> fsys) res" where
  "bget dev blockno s =
     (case ring_scan (Suc NBUF) HEAD (f_next s)
             (\<lambda>i. b_dev (f_bufs s i) = dev \<and> b_blockno (f_bufs s i) = blockno) (f_next s HEAD) of
        None \<Rightarrow> Inl (Fault ''bget: endless list'')
      | Some (Some i) \<Rightarrow> lock_buf i (upd_buf i (\<lambda>b. b\<lparr>b_refcnt := b_refcnt b + 1\<rparr>) s)
      | Some None \<Rightarrow>
          (case ring_scan (Suc NBUF) HEAD (f_prev s)
                  (\<lambda>i. b_refcnt (f_bufs s i) = 0 \<and> \<not> b_dirty (f_bufs s i)) (f_prev s HEAD) of
             None \<Rightarrow> Inl (Fault ''bget: endless list'')
           | Some (Some i) \<Rightarrow>
               lock_buf i (upd_buf i (\<lambda>b. b\<lparr>b_dev := dev, b_blockno := blockno, b_valid := False,
                                            b_dirty := False, b_refcnt := 1\<rparr>) s)
           | Some None \<Rightarrow> Inl (Panic ''bget: no buffers'')))"

definition bread :: "u32 \<Rightarrow> u32 \<Rightarrow> fsys \<Rightarrow> (nat \<times> fsys) res" where
  "bread dev blockno s =
     bind_res (bget dev blockno s) (\<lambda>(i, s).
     if b_valid (f_bufs s i) then Inr (i, s)
     else bind_res (iderw i s) (\<lambda>s. Inr (i, s)))"

definition bwrite :: "nat \<Rightarrow> fsys \<Rightarrow> fsys res" where
  "bwrite i s =
     (if \<not> holdingsleep (f_pid s) (b_lock (f_bufs s i)) then Inl (Panic ''bwrite'')
      else iderw i (upd_buf i (\<lambda>b. b\<lparr>b_dirty := True\<rparr>) s))"

definition brelse :: "nat \<Rightarrow> fsys \<Rightarrow> fsys res" where
  "brelse i s =
     (if \<not> holdingsleep (f_pid s) (b_lock (f_bufs s i)) then Inl (Panic ''brelse'')
      else
        let s = fwake (ChBuf i) (upd_buf i (\<lambda>b. b\<lparr>b_lock := releasesleep (b_lock b)\<rparr>) s);
            s = upd_buf i (\<lambda>b. b\<lparr>b_refcnt := b_refcnt b - 1\<rparr>) s
        in if b_refcnt (f_bufs s i) = 0 then
             let (nxt, prv) = ring_insert HEAD i (ring_unlink i (f_next s, f_prev s))
             in Inr (s\<lparr>f_next := nxt, f_prev := prv\<rparr>)
           else Inr s)"

text \<open>Writing into a held buffer: the caller stores into \<open>b->data\<close>.\<close>

definition bstore :: "nat \<Rightarrow> (mem \<Rightarrow> mem) \<Rightarrow> fsys \<Rightarrow> fsys" where
  "bstore i g s = upd_buf i (\<lambda>b. b\<lparr>b_data := g (b_data b)\<rparr>) s"

end
