(* ===== verification/Bio_Ok.thy ===== *)
theory Bio_Ok
  imports Bio
begin

text \<open>
  The buffer cache as an abstract object. A client sees a \<open>cview\<close>: the current content of every
  block, the disk, the writes that reached it, the blocks pinned by \<open>B_DIRTY\<close>, the blocks it
  holds, and the rest of the state. \<open>bio_ok\<close> is the invariant, \<open>view\<close> the abstraction, and
  each operation refines one update of the view.
\<close>

record 'r cview =
  v_cont :: "u32 \<Rightarrow> mem"
  v_disk :: "u32 \<Rightarrow> mem"
  v_writes :: "(u32 \<times> mem) list"
  v_pinned :: "u32 set"
  v_held :: "u32 set"
  v_rest :: 'r

definition cached :: "fsys \<Rightarrow> nat \<Rightarrow> u32 \<Rightarrow> bool" where
  "cached s i b \<longleftrightarrow> i < NBUF \<and> b_dev (f_bufs s i) = 1 \<and> b_blockno (f_bufs s i) = b"

definition holds :: "fsys \<Rightarrow> nat \<Rightarrow> u32 \<Rightarrow> bool" where
  "holds s i b \<longleftrightarrow> cached s i b \<and> b_refcnt (f_bufs s i) \<noteq> 0"

definition cont :: "fsys \<Rightarrow> u32 \<Rightarrow> mem" where
  "cont s b =
     (case first_index (\<lambda>i. b_dev (f_bufs s i) = 1 \<and> b_blockno (f_bufs s i) = b) NBUF of
        Some i \<Rightarrow> b_data (f_bufs s i) | None \<Rightarrow> f_disk s b)"

definition view :: "fsys \<Rightarrow> (int \<times> u32 \<times> log \<times> superblock \<times> (nat \<Rightarrow> inode) \<times> (nat \<Rightarrow> bool) \<times> (nat \<Rightarrow> bool)) cview" where
  "view s = \<lparr>v_cont = cont s, v_disk = f_disk s, v_writes = f_writes s,
     v_pinned = {b. \<exists>i. cached s i b \<and> b_dirty (f_bufs s i)},
     v_held = {b. \<exists>i. holds s i b},
     v_rest = (f_pid s, f_disksize s, f_log s, f_sb s, f_icache s, f_devread s, f_devwrite s)\<rparr>"

definition buf_ok :: "fsys \<Rightarrow> nat \<Rightarrow> bool" where
  "buf_ok s i \<longleftrightarrow>
     (let b = f_bufs s i in
       (if b_refcnt b = 0 then \<not> sl_locked (b_lock b)
        else b_refcnt b = 1 \<and> b_dev b = 1 \<and> holdingsleep (f_pid s) (b_lock b))
       \<and> (b_dirty b \<longrightarrow> b_dev b = 1)
       \<and> (if b_dev b = 1 then b_valid b \<and> b_blockno b < f_disksize s else \<not> b_valid b)
       \<and> (b_dev b = 1 \<and> \<not> b_dirty b \<and> b_refcnt b = 0 \<longrightarrow> b_data b = f_disk s (b_blockno b)))"

definition bio_ok :: "fsys \<Rightarrow> bool" where
  "bio_ok s \<longleftrightarrow> (\<forall>i<NBUF. buf_ok s i)
     \<and> (\<forall>i j b. cached s i b \<longrightarrow> cached s j b \<longrightarrow> i = j)
     \<and> (\<exists>xs. ring HEAD (f_next s) (f_prev s) xs \<and> set xs = {..<NBUF})"

lemma bio_okD:
  assumes "bio_ok s"
  shows "i < NBUF \<Longrightarrow> buf_ok s i"
    and "cached s i b \<Longrightarrow> cached s j b \<Longrightarrow> i = j"
    and "\<exists>xs. ring HEAD (f_next s) (f_prev s) xs \<and> set xs = {..<NBUF}"
  using assms unfolding bio_ok_def by blast+

lemma cachedD:
  "cached s i b \<Longrightarrow> i < NBUF" "cached s i b \<Longrightarrow> b_dev (f_bufs s i) = 1"
  "cached s i b \<Longrightarrow> b_blockno (f_bufs s i) = b"
  by (simp_all add: cached_def)

lemma holds_cached: "holds s i b \<Longrightarrow> cached s i b"
  by (simp add: holds_def)

lemma cont_cached: "bio_ok s \<Longrightarrow> cached s i b \<Longrightarrow> cont s b = b_data (f_bufs s i)"
proof -
  assume a: "bio_ok s" "cached s i b"
  have "first_index (\<lambda>i. b_dev (f_bufs s i) = 1 \<and> b_blockno (f_bufs s i) = b) NBUF = Some i"
  proof (rule first_index_unique)
    fix j assume "j < NBUF" "b_dev (f_bufs s j) = 1 \<and> b_blockno (f_bufs s j) = b"
    then have "cached s j b" by (simp add: cached_def)
    then show "j = i" by (rule bio_okD(2) [OF a(1) _ a(2)])
  qed (use a(2) in \<open>simp_all add: cached_def\<close>)
  then show ?thesis by (simp add: cont_def)
qed

lemma cont_uncached: "\<forall>i. \<not> cached s i b \<Longrightarrow> cont s b = f_disk s b"
proof -
  assume a: "\<forall>i. \<not> cached s i b"
  have "first_index (\<lambda>i. b_dev (f_bufs s i) = 1 \<and> b_blockno (f_bufs s i) = b) NBUF = None"
    using a by (auto simp: cached_def)
  then show ?thesis by (simp add: cont_def del: first_index_None)
qed

lemma ring_length: "ring h nxt prv xs \<Longrightarrow> set xs = {..<n} \<Longrightarrow> length xs < Suc n"
  by (metis card_lessThan distinct.simps(2) distinct_card lessI ring_def)

lemma find_iff_first:
  assumes "set xs = {..<n::nat}"
  shows "find P xs = None \<longleftrightarrow> (\<forall>i<n. \<not> P i)"
  using assms by (auto simp: find_None_iff)

text \<open>What a scan of the list answers, in either direction.\<close>

lemma scan_cases:
  assumes "bio_ok s"
  obtains (none) "ring_scan (Suc NBUF) HEAD (f_next s) P (f_next s HEAD) = Some None" "\<forall>i<NBUF. \<not> P i"
  | (some) i where "ring_scan (Suc NBUF) HEAD (f_next s) P (f_next s HEAD) = Some (Some i)" "i < NBUF" "P i"
proof -
  obtain xs where xs: "ring HEAD (f_next s) (f_prev s) xs" "set xs = {..<NBUF}"
    using bio_okD(3) [OF assms] by blast
  note e = ring_scan_next [OF xs(1) ring_length [OF xs], of P]
  show ?thesis
  proof (cases "find P xs")
    case None
    then show ?thesis using none e find_iff_first [OF xs(2)] by metis
  next
    case (Some i)
    then show ?thesis using some e xs(2) find_SomeD [OF Some] by auto
  qed
qed

lemma scan_prev_cases:
  assumes "bio_ok s"
  obtains (none) "ring_scan (Suc NBUF) HEAD (f_prev s) P (f_prev s HEAD) = Some None" "\<forall>i<NBUF. \<not> P i"
  | (some) i where "ring_scan (Suc NBUF) HEAD (f_prev s) P (f_prev s HEAD) = Some (Some i)" "i < NBUF" "P i"
proof -
  obtain xs where xs: "ring HEAD (f_next s) (f_prev s) xs" "set xs = {..<NBUF}"
    using bio_okD(3) [OF assms] by blast
  have r: "set (rev xs) = {..<NBUF}" using xs(2) by simp
  note e = ring_scan_prev [OF xs(1) ring_length [OF xs], of P]
  show ?thesis
  proof (cases "find P (rev xs)")
    case None
    then show ?thesis using none e find_iff_first [OF r] by metis
  next
    case (Some i)
    then show ?thesis using some e r find_SomeD [OF Some] by auto
  qed
qed


subsection \<open>The busy blocks and the free buffers\<close>

abbreviation busy :: "fsys \<Rightarrow> u32 set" where
  "busy s \<equiv> v_pinned (view s) \<union> v_held (view s)"

lemma busy_eq: "busy s = (\<lambda>i. b_blockno (f_bufs s i)) `
    {i. i < NBUF \<and> b_dev (f_bufs s i) = 1 \<and> (b_dirty (f_bufs s i) \<or> b_refcnt (f_bufs s i) \<noteq> 0)}"
  by (auto simp: view_def holds_def cached_def)

lemma finite_busy [simp]: "finite (busy s)"
  by (simp add: busy_eq)

lemma free_buffer:
  assumes ok: "bio_ok s" and "card (busy s) < NBUF"
  shows "\<exists>i<NBUF. b_refcnt (f_bufs s i) = 0 \<and> \<not> b_dirty (f_bufs s i)"
proof (rule ccontr)
  assume n: "\<not> ?thesis"
  have d: "b_dev (f_bufs s i) = 1" if "i < NBUF" for i
    using n that bio_okD(1) [OF ok that] by (auto simp: buf_ok_def Let_def split: if_splits)
  have "inj_on (\<lambda>i. b_blockno (f_bufs s i)) {..<NBUF}"
    using bio_okD(2) [OF ok] d by (auto simp: inj_on_def cached_def)
  moreover have "busy s = (\<lambda>i. b_blockno (f_bufs s i)) ` {..<NBUF}"
    unfolding busy_eq using n d by (intro image_cong) auto
  ultimately have "card (busy s) = NBUF" by (simp add: card_image)
  then show False using assms(2) by simp
qed


subsection \<open>Replacing one buffer\<close>

text \<open>Every operation of the cache replaces one buffer \<open>i\<close> by a buffer for a block \<open>c\<close>.\<close>

definition set_buf :: "fsys \<Rightarrow> fsys \<Rightarrow> nat \<Rightarrow> buf \<Rightarrow> u32 \<Rightarrow> bool" where
  "set_buf s s' i b' c \<longleftrightarrow> bio_ok s \<and> i < NBUF
     \<and> f_bufs s' = (f_bufs s)(i := b') \<and> f_pid s' = f_pid s \<and> f_disksize s' = f_disksize s
     \<and> (\<forall>x. x \<noteq> c \<longrightarrow> f_disk s' x = f_disk s x)
     \<and> (\<exists>xs. ring HEAD (f_next s') (f_prev s') xs \<and> set xs = {..<NBUF})
     \<and> b_dev b' = 1 \<and> b_valid b' \<and> b_blockno b' = c \<and> c < f_disksize s
     \<and> (\<forall>j. cached s j c \<longrightarrow> j = i)
     \<and> (if b_refcnt b' = 0 then \<not> sl_locked (b_lock b')
        else b_refcnt b' = 1 \<and> holdingsleep (f_pid s) (b_lock b'))
     \<and> (\<not> b_dirty b' \<longrightarrow> b_refcnt b' = 0 \<longrightarrow> b_data b' = f_disk s' c)
     \<and> (\<forall>x. cached s i x \<longrightarrow> x = c \<or> b_refcnt (f_bufs s i) = 0 \<and> \<not> b_dirty (f_bufs s i))"

lemma set_bufD:
  assumes "set_buf s s' i b' c"
  shows "bio_ok s" "i < NBUF" "f_bufs s' = (f_bufs s)(i := b')" "f_pid s' = f_pid s"
    "f_disksize s' = f_disksize s" "x \<noteq> c \<Longrightarrow> f_disk s' x = f_disk s x"
    "\<exists>xs. ring HEAD (f_next s') (f_prev s') xs \<and> set xs = {..<NBUF}"
    "b_dev b' = 1 \<and> b_valid b' \<and> b_blockno b' = c \<and> c < f_disksize s"
    "cached s j c \<Longrightarrow> j = i"
    "if b_refcnt b' = 0 then \<not> sl_locked (b_lock b')
      else b_refcnt b' = 1 \<and> holdingsleep (f_pid s) (b_lock b')"
    "\<not> b_dirty b' \<Longrightarrow> b_refcnt b' = 0 \<Longrightarrow> b_data b' = f_disk s' c"
    "cached s i x \<Longrightarrow> x = c \<or> b_refcnt (f_bufs s i) = 0 \<and> \<not> b_dirty (f_bufs s i)"
  using assms unfolding set_buf_def by blast+

lemma set_buf_cached:
  "set_buf s s' i b' c \<Longrightarrow> cached s' j x \<longleftrightarrow> (if j = i then x = c else cached s j x)"
  using set_bufD(2,3,8) [of s s' i b' c] by (auto simp: cached_def)

lemma set_buf_ok:
  assumes S: "set_buf s s' i b' c"
  shows "bio_ok s'"
proof -
  note D = set_bufD [OF S]
  have "buf_ok s' j" if "j < NBUF" for j
  proof (cases "j = i")
    case True
    then show ?thesis
      using D(8,10,11) by (simp add: buf_ok_def Let_def D(3-5) split: if_splits)
  next
    case False
    have "f_disk s' (b_blockno (f_bufs s j)) = f_disk s (b_blockno (f_bufs s j))"
      if "b_dev (f_bufs s j) = 1"
      using that D(6) D(9) [where j = j] False \<open>j < NBUF\<close> by (auto simp: cached_def)
    then show ?thesis
      using bio_okD(1) [OF D(1) \<open>j < NBUF\<close>] False by (simp add: buf_ok_def Let_def D(3-5))
  qed
  moreover have "j = k" if "cached s' j x" "cached s' k x" for j k x
    using that by (metis set_buf_cached [OF S] D(9) bio_okD(2) [OF D(1)])
  ultimately show ?thesis using D(7) unfolding bio_ok_def by blast
qed

lemma set_buf_cont:
  assumes S: "set_buf s s' i b' c"
  shows "cont s' = (cont s)(c := b_data b')"
proof (rule ext)
  fix x
  note D = set_bufD [OF S] and ok' = set_buf_ok [OF S] and C = set_buf_cached [OF S]
  consider "x = c" | j where "x \<noteq> c" "j \<noteq> i" "cached s j x" | "x \<noteq> c" "\<forall>j. j \<noteq> i \<longrightarrow> \<not> cached s j x"
    by blast
  then show "cont s' x = ((cont s)(c := b_data b')) x"
  proof cases
    case 1
    have "cached s' i c" by (simp add: C)
    then show ?thesis using 1 cont_cached [OF ok', of i] by (simp add: D(3))
  next
    case 2
    then have "cached s' j x" by (simp add: C)
    then show ?thesis using 2 cont_cached [OF ok', of j] cont_cached [OF D(1) 2(3)] by (simp add: D(3))
  next
    case 3
    then have "\<forall>j. \<not> cached s' j x" by (simp add: C)
    then have n: "cont s' x = f_disk s x" using cont_uncached 3 D(6) by simp
    show ?thesis
    proof (cases "cached s i x")
      case True
      then have "b_data (f_bufs s i) = f_disk s x"
        using D(12) [OF True] 3 bio_okD(1) [OF D(1,2)] by (auto simp: buf_ok_def Let_def cached_def)
      then show ?thesis using cont_cached [OF D(1) True] n 3 by simp
    next
      case False
      then have "\<forall>j. \<not> cached s j x" using 3(2) by metis
      then show ?thesis using cont_uncached n 3 by simp
    qed
  qed
qed

lemma set_buf_pinned:
  assumes S: "set_buf s s' i b' c"
  shows "v_pinned (view s') = (if b_dirty b' then insert c (v_pinned (view s)) else v_pinned (view s) - {c})"
proof -
  note D = set_bufD [OF S] and C = set_buf_cached [OF S]
  have "(\<exists>j. cached s' j x \<and> b_dirty (f_bufs s' j)) \<longleftrightarrow>
      (if x = c then b_dirty b' else \<exists>j. cached s j x \<and> b_dirty (f_bufs s j))" for x
  proof (cases "x = c")
    case True
    then show ?thesis using D(9) by (auto simp: C D(3) split: if_splits)
  next
    case False
    then show ?thesis using D(12) by (auto simp: C D(3) split: if_splits) metis
  qed
  then show ?thesis by (auto simp: view_def)
qed

lemma set_buf_holds:
  "set_buf s s' i b' c \<Longrightarrow> holds s' j x \<longleftrightarrow> (if j = i then x = c \<and> b_refcnt b' \<noteq> 0 else holds s j x)"
  using set_bufD(3) [of s s' i b' c] by (auto simp: holds_def set_buf_cached)

lemma set_buf_held:
  assumes S: "set_buf s s' i b' c"
  shows "v_held (view s') = (if b_refcnt b' = 0 then v_held (view s) - {c} else insert c (v_held (view s)))"
proof -
  note D = set_bufD [OF S] and H = set_buf_holds [OF S]
  have "(\<exists>j. holds s' j x) \<longleftrightarrow> (if x = c then b_refcnt b' \<noteq> 0 else \<exists>j. holds s j x)" for x
  proof (cases "x = c")
    case True
    then show ?thesis using D(9) holds_cached by (auto simp: H split: if_splits)
  next
    case False
    then have "\<not> holds s i x" using D(12) by (auto simp: holds_def)
    then show ?thesis using False H by metis
  qed
  then show ?thesis by (auto simp: view_def)
qed

lemmas set_buf_facts = set_buf_ok set_buf_cont set_buf_pinned set_buf_holds set_buf_held

subsection \<open>The operations\<close>

lemma view_sel [simp]:
  "v_cont (view s) = cont s" "v_disk (view s) = f_disk s" "v_writes (view s) = f_writes s"
  "v_rest (view s) = (f_pid s, f_disksize s, f_log s, f_sb s, f_icache s, f_devread s, f_devwrite s)"
  by (simp_all add: view_def)

lemma holdsD:
  assumes "bio_ok s" and "holds s i b"
  shows "i < NBUF" "b_dev (f_bufs s i) = 1" "b_blockno (f_bufs s i) = b" "b_valid (f_bufs s i)"
    "b_refcnt (f_bufs s i) = 1" "holdingsleep (f_pid s) (b_lock (f_bufs s i))" "b < f_disksize s"
    "cont s b = b_data (f_bufs s i)" "b_dirty (f_bufs s i) \<longleftrightarrow> b \<in> v_pinned (view s)"
proof -
  have c: "cached s i b" "b_refcnt (f_bufs s i) \<noteq> 0" using assms(2) by (auto simp: holds_def)
  then show i: "i < NBUF" and "b_dev (f_bufs s i) = 1" "b_blockno (f_bufs s i) = b"
    by (auto simp: cached_def)
  then show "b_valid (f_bufs s i)" "b_refcnt (f_bufs s i) = 1"
    "holdingsleep (f_pid s) (b_lock (f_bufs s i))" "b < f_disksize s"
    using bio_okD(1) [OF assms(1) i] c by (auto simp: buf_ok_def Let_def)
  show "cont s b = b_data (f_bufs s i)" by (rule cont_cached [OF assms(1) c(1)])
  show "b_dirty (f_bufs s i) \<longleftrightarrow> b \<in> v_pinned (view s)"
    unfolding view_def by simp (metis bio_okD(2) [OF assms(1)] c(1))
qed

text \<open>Changing the data or the dirty bit of a held buffer.\<close>

lemma set_held_buf:
  assumes ok: "bio_ok s" and h: "holds s i b"
    and "b_refcnt b' = 1" "b_lock b' = b_lock (f_bufs s i)" "b_dev b' = 1" "b_valid b'" "b_blockno b' = b"
    and "f_bufs s' = (f_bufs s)(i := b')" "f_pid s' = f_pid s" "f_disksize s' = f_disksize s"
    and "\<And>x. x \<noteq> b \<Longrightarrow> f_disk s' x = f_disk s x"
    and "f_next s' = f_next s" "f_prev s' = f_prev s"
  shows "set_buf s s' i b' b"
proof -
  note d = holdsD [OF ok h]
  show ?thesis
    unfolding set_buf_def
  proof (intro conjI)
    show "\<forall>j. cached s j b \<longrightarrow> j = i" using bio_okD(2) [OF ok _ holds_cached [OF h]] by blast
    show "\<forall>x. cached s i x \<longrightarrow> x = b \<or> b_refcnt (f_bufs s i) = 0 \<and> \<not> b_dirty (f_bufs s i)"
      using d(3) by (simp add: cached_def)
  qed (use assms(3-) ok d bio_okD(3) [OF ok] in simp_all)
qed

lemma view_eqI:
  assumes "cont s' = v_cont v" "f_disk s' = v_disk v" "f_writes s' = v_writes v"
    "v_pinned (view s') = v_pinned v" "v_held (view s') = v_held v" "v_rest (view s') = v_rest v"
  shows "view s' = v"
proof (rule cview.equality)
  show "v_cont (view s') = v_cont v" "v_disk (view s') = v_disk v" "v_writes (view s') = v_writes v"
    using assms by simp_all
qed (rule assms, rule assms, rule assms, simp)

lemma bstore_refines:
  assumes ok: "bio_ok s" and h: "holds s i b"
  shows "bio_ok (bstore i g s)" "holds (bstore i g s) = holds s"
    "view (bstore i g s) = (view s)\<lparr>v_cont := (cont s)(b := g (cont s b))\<rparr>"
proof -
  note d = holdsD [OF ok h]
  have S: "set_buf s (bstore i g s) i ((f_bufs s i)\<lparr>b_data := g (b_data (f_bufs s i))\<rparr>) b"
    by (rule set_held_buf [OF ok h]) (use d in \<open>simp_all add: bstore_def\<close>)
  show "bio_ok (bstore i g s)" by (rule set_buf_ok [OF S])
  show "holds (bstore i g s) = holds s"
    using d set_buf_holds [OF S] h by (auto simp: fun_eq_iff holds_def cached_def)
  have "b \<in> v_held (view s)" using h by (auto simp: view_def)
  then show "view (bstore i g s) = (view s)\<lparr>v_cont := (cont s)(b := g (cont s b))\<rparr>"
    using d set_buf_facts [OF S]
    by (intro view_eqI) (auto simp: insert_absorb, auto simp: bstore_def)
qed

end
