(* ===== verification/Bio_Cache.thy ===== *)
theory Bio_Cache
  imports Bio_Ok
begin

text \<open>
  The contract of the buffer cache as the locale \<open>block_cache\<close>: what reading, storing, writing,
  pinning and releasing do to the view. Its client lemmas (read a block, copy a block to its
  home, update a block under the log) carry the proofs about the log and the files.
  The operations of bio.c are an instance.
\<close>

definition bpin :: "nat \<Rightarrow> fsys \<Rightarrow> fsys" where
  "bpin i s = upd_buf i (\<lambda>b. b\<lparr>b_dirty := True\<rparr>) s"

lemma bpin_refines:
  assumes ok: "bio_ok s" and h: "holds s i b"
  shows "bio_ok (bpin i s)" "holds (bpin i s) = holds s"
    "view (bpin i s) = (view s)\<lparr>v_pinned := insert b (v_pinned (view s))\<rparr>"
proof -
  note d = holdsD [OF ok h]
  have S: "set_buf s (bpin i s) i ((f_bufs s i)\<lparr>b_dirty := True\<rparr>) b"
    by (rule set_held_buf [OF ok h]) (use d in \<open>simp_all add: bpin_def\<close>)
  show "bio_ok (bpin i s)" by (rule set_buf_ok [OF S])
  show "holds (bpin i s) = holds s"
    using d set_buf_holds [OF S] h by (auto simp: fun_eq_iff holds_def cached_def)
  have "b \<in> v_held (view s)" using h by (auto simp: view_def)
  then show "view (bpin i s) = (view s)\<lparr>v_pinned := insert b (v_pinned (view s))\<rparr>"
    using d set_buf_facts [OF S]
    by (intro view_eqI) (auto simp: insert_absorb, auto simp: bpin_def)
qed

lemma bwrite_refines:
  assumes ok: "bio_ok s" and h: "holds s i b"
  shows "\<exists>s'. bwrite i s = Inr s' \<and> bio_ok s' \<and> holds s' = holds s
    \<and> view s' = (view s)\<lparr>v_disk := (f_disk s)(b := cont s b),
        v_writes := f_writes s @ [(b, cont s b)], v_pinned := v_pinned (view s) - {b}\<rparr>"
proof -
  note d = holdsD [OF ok h]
  let ?b = "(f_bufs s i)\<lparr>b_dirty := False, b_valid := True\<rparr>"
  define s' where "s' = s\<lparr>f_disk := (f_disk s)(b := cont s b),
     f_writes := f_writes s @ [(b, cont s b)], f_bufs := (f_bufs s)(i := ?b)\<rparr>"
  have e: "bwrite i s = Inr s'"
    using d by (simp add: bwrite_def iderw_def Let_def s'_def)
  have S: "set_buf s s' i ?b b"
    by (rule set_held_buf [OF ok h]) (use d in \<open>simp_all add: s'_def\<close>)
  have "holds s' = holds s"
    using d set_buf_holds [OF S] h by (auto simp: fun_eq_iff holds_def cached_def)
  moreover have "b \<in> v_held (view s)" using h by (auto simp: view_def)
  then have "view s' = (view s)\<lparr>v_disk := (f_disk s)(b := cont s b),
        v_writes := f_writes s @ [(b, cont s b)], v_pinned := v_pinned (view s) - {b}\<rparr>"
    using d set_buf_facts [OF S]
    by (intro view_eqI) (auto simp: insert_absorb, auto simp: s'_def)
  ultimately show ?thesis using e set_buf_ok [OF S] by blast
qed

lemma ring_move:
  assumes "\<exists>xs. ring HEAD nxt prv xs \<and> set xs = {..<NBUF}" and "i < NBUF"
    and "ring_insert HEAD i (ring_unlink i (nxt, prv)) = (nxt', prv')"
  shows "\<exists>xs. ring HEAD nxt' prv' xs \<and> set xs = {..<NBUF}"
proof -
  obtain xs where xs: "ring HEAD nxt prv xs" "set xs = {..<NBUF}" using assms(1) by blast
  then obtain as bs where s: "xs = as @ i # bs" using assms(2) by (metis lessThan_iff split_list)
  obtain n p where np: "ring_unlink i (nxt, prv) = (n, p)" by (metis surj_pair)
  then have u: "ring HEAD n p (as @ bs)" using ring_unlink xs(1) s by metis
  have "i \<notin> set (HEAD # as @ bs)" using xs s assms(2) by (auto simp: ring_def)
  then have "ring HEAD nxt' prv' (i # as @ bs)" using ring_insert [OF u] assms(3) np by metis
  moreover have "set (i # as @ bs) = {..<NBUF}" using xs(2) s by auto
  ultimately show ?thesis by blast
qed

lemma brelse_refines:
  assumes ok: "bio_ok s" and h: "holds s i b" and c: "b \<in> v_pinned (view s) \<or> cont s b = f_disk s b"
  shows "\<exists>s'. brelse i s = Inr s' \<and> bio_ok s'
    \<and> (\<forall>j x. holds s' j x \<longleftrightarrow> holds s j x \<and> j \<noteq> i)
    \<and> view s' = (view s)\<lparr>v_held := v_held (view s) - {b}\<rparr>"
proof -
  note d = holdsD [OF ok h]
  let ?b = "(f_bufs s i)\<lparr>b_lock := releasesleep (b_lock (f_bufs s i)), b_refcnt := 0\<rparr>"
  obtain nxt prv where np: "ring_insert HEAD i (ring_unlink i (f_next s, f_prev s)) = (nxt, prv)"
    by (metis surj_pair)
  define s' where "s' = s\<lparr>f_bufs := (f_bufs s)(i := ?b), f_next := nxt, f_prev := prv,
      f_wakes := f_wakes s @ [ChBuf i]\<rparr>"
  have e: "brelse i s = Inr s'"
    using d np by (simp add: brelse_def Let_def s'_def)
  have S: "set_buf s s' i ?b b"
    unfolding set_buf_def
  proof (intro conjI)
    show "\<exists>xs. ring HEAD (f_next s') (f_prev s') xs \<and> set xs = {..<NBUF}"
      using ring_move [OF bio_okD(3) [OF ok] d(1) np] by (simp add: s'_def)
    show "\<forall>j. cached s j b \<longrightarrow> j = i" using bio_okD(2) [OF ok _ holds_cached [OF h]] by blast
    show "\<forall>x. cached s i x \<longrightarrow> x = b \<or> b_refcnt (f_bufs s i) = 0 \<and> \<not> b_dirty (f_bufs s i)"
      using d(3) by (simp add: cached_def)
  qed (use ok d c in \<open>auto simp: s'_def\<close>)
  have "view s' = (view s)\<lparr>v_held := v_held (view s) - {b}\<rparr>"
    using d set_buf_facts [OF S]
    by (intro view_eqI) (auto, auto simp: s'_def)
  moreover have "holds s' j x \<longleftrightarrow> holds s j x \<and> j \<noteq> i" for j x
    using set_buf_holds [OF S] by simp
  ultimately show ?thesis using e set_buf_ok [OF S] by blast
qed

lemma busy_not_held_bound:
  assumes ok: "bio_ok s" and c: "cached s i b" and "b \<notin> v_held (view s)"
  shows "b_refcnt (f_bufs s i) = 0" "\<not> sl_locked (b_lock (f_bufs s i))"
proof -
  show "b_refcnt (f_bufs s i) = 0" using assms by (auto simp: view_def holds_def)
  then show "\<not> sl_locked (b_lock (f_bufs s i))"
    using bio_okD(1) [OF ok, of i] c by (auto simp: buf_ok_def Let_def cached_def)
qed

lemma bread_refines:
  assumes ok: "bio_ok s" and b: "b < f_disksize s" "b \<notin> v_held (view s)"
    and room: "b \<in> v_pinned (view s) \<or> card (v_pinned (view s) \<union> v_held (view s)) < NBUF"
  shows "\<exists>i s'. bread 1 b s = Inr (i, s') \<and> bio_ok s'
    \<and> (\<forall>j x. holds s' j x \<longleftrightarrow> holds s j x \<or> j = i \<and> x = b)
    \<and> view s' = (view s)\<lparr>v_held := insert b (v_held (view s))\<rparr>"
proof -
  let ?P = "\<lambda>i. b_dev (f_bufs s i) = 1 \<and> b_blockno (f_bufs s i) = b"
  let ?l = "\<lparr>sl_locked = True, sl_pid = f_pid s\<rparr>"
  have lk: "holdingsleep (f_pid s) ?l" by simp
  have fin: ?thesis
    if e: "bread 1 b s = Inr (i, upd_buf i (\<lambda>_. b') s)" and S: "set_buf s (upd_buf i (\<lambda>_. b') s) i b' b"
      and r: "b_refcnt b' = 1" and dt: "b_dirty b' \<longleftrightarrow> b \<in> v_pinned (view s)" and cn: "b_data b' = cont s b"
      and nh: "\<And>x. \<not> holds s i x" for i b'
  proof -
    have "view (upd_buf i (\<lambda>_. b') s) = (view s)\<lparr>v_held := insert b (v_held (view s))\<rparr>"
      using r dt cn set_buf_facts [OF S] by (intro view_eqI) auto
    moreover have "holds (upd_buf i (\<lambda>_. b') s) j x \<longleftrightarrow> holds s j x \<or> j = i \<and> x = b" for j x
      using set_buf_holds [OF S] r nh by auto
    ultimately show ?thesis using e set_buf_ok [OF S] by blast
  qed
  show ?thesis
  proof (rule scan_cases [OF ok, of ?P])
    fix i assume sc: "ring_scan (Suc NBUF) HEAD (f_next s) ?P (f_next s HEAD) = Some (Some i)"
      and i: "i < NBUF" "?P i"
    have c: "cached s i b" using i by (simp add: cached_def)
    note n = busy_not_held_bound [OF ok c b(2)]
    have v: "b_valid (f_bufs s i)" using bio_okD(1) [OF ok i(1)] i(2) by (simp add: buf_ok_def Let_def)
    have d: "b_dirty (f_bufs s i) \<longleftrightarrow> b \<in> v_pinned (view s)"
      unfolding view_def by simp (metis bio_okD(2) [OF ok] c)
    let ?b = "(f_bufs s i)\<lparr>b_refcnt := 1, b_lock := ?l\<rparr>"
    show ?thesis
    proof (rule fin [of i ?b])
      show "bread 1 b s = Inr (i, upd_buf i (\<lambda>_. ?b) s)"
        using sc n v by (simp add: bread_def bget_def lock_buf_def acquiresleep_def)
      show "set_buf s (upd_buf i (\<lambda>_. ?b) s) i ?b b"
        unfolding set_buf_def
      proof (intro conjI)
        show "\<forall>j. cached s j b \<longrightarrow> j = i" using bio_okD(2) [OF ok _ c] by blast
        show "\<forall>x. cached s i x \<longrightarrow> x = b \<or> b_refcnt (f_bufs s i) = 0 \<and> \<not> b_dirty (f_bufs s i)"
          using i by (simp add: cached_def)
      qed (use ok i b v bio_okD(3) [OF ok] in simp_all)
      show "b_data ?b = cont s b" using cont_cached [OF ok c] by simp
      show "\<not> holds s i x" for x using n by (simp add: holds_def)
    qed (use d in simp_all)
  next
    assume sc: "ring_scan (Suc NBUF) HEAD (f_next s) ?P (f_next s HEAD) = Some None"
      and np: "\<forall>i<NBUF. \<not> ?P i"
    then have nc: "\<not> cached s j b" for j by (auto simp: cached_def)
    then have nd: "b \<notin> v_pinned (view s)" by (auto simp: view_def)
    let ?Q = "\<lambda>i. b_refcnt (f_bufs s i) = 0 \<and> \<not> b_dirty (f_bufs s i)"
    show ?thesis
    proof (rule scan_prev_cases [OF ok, of ?Q])
      assume "\<forall>i<NBUF. \<not> ?Q i"
      then show ?thesis using free_buffer [OF ok] room nd by blast
    next
      fix i assume sc2: "ring_scan (Suc NBUF) HEAD (f_prev s) ?Q (f_prev s HEAD) = Some (Some i)"
        and i: "i < NBUF" "?Q i"
      have n: "\<not> sl_locked (b_lock (f_bufs s i))"
        using bio_okD(1) [OF ok i(1)] i(2) by (simp add: buf_ok_def Let_def)
      let ?b = "(f_bufs s i)\<lparr>b_dev := 1, b_blockno := b, b_dirty := False, b_refcnt := 1, b_lock := ?l,
        b_data := f_disk s b, b_valid := True\<rparr>"
      show ?thesis
      proof (rule fin [of i ?b])
        show "bread 1 b s = Inr (i, upd_buf i (\<lambda>_. ?b) s)"
          using sc sc2 n b lk by (simp add: bread_def bget_def lock_buf_def acquiresleep_def iderw_def Let_def)
        show "set_buf s (upd_buf i (\<lambda>_. ?b) s) i ?b b"
          unfolding set_buf_def using ok i b nc bio_okD(3) [OF ok] by simp
        show "b_data ?b = cont s b" using cont_uncached nc by simp
        show "\<not> holds s i x" for x using i by (simp add: holds_def)
      qed (use nd in simp_all)
    qed
  qed
qed


subsection \<open>The contract and its client lemmas\<close>

locale block_cache =
  fixes ok :: "'s \<Rightarrow> bool"
    and holds :: "'s \<Rightarrow> nat \<Rightarrow> u32 \<Rightarrow> bool"
    and view :: "'s \<Rightarrow> 'r cview"
    and rd :: "u32 \<Rightarrow> 's \<Rightarrow> (nat \<times> 's) res"
    and wr :: "nat \<Rightarrow> 's \<Rightarrow> 's res"
    and rel :: "nat \<Rightarrow> 's \<Rightarrow> 's res"
    and st :: "nat \<Rightarrow> (mem \<Rightarrow> mem) \<Rightarrow> 's \<Rightarrow> 's"
    and pin :: "nat \<Rightarrow> 's \<Rightarrow> 's"
    and dat :: "'s \<Rightarrow> nat \<Rightarrow> mem"
    and dsize :: "'r \<Rightarrow> u32"
    and cap :: nat
  assumes rd_law: "ok s \<Longrightarrow> b < dsize (v_rest (view s)) \<Longrightarrow> b \<notin> v_held (view s) \<Longrightarrow>
      b \<in> v_pinned (view s) \<or> card (v_pinned (view s) \<union> v_held (view s)) < cap \<Longrightarrow>
      \<exists>i s'. rd b s = Inr (i, s') \<and> ok s'
        \<and> (\<forall>j x. holds s' j x \<longleftrightarrow> holds s j x \<or> j = i \<and> x = b)
        \<and> view s' = (view s)\<lparr>v_held := insert b (v_held (view s))\<rparr>"
    and st_law: "ok s \<Longrightarrow> holds s i b \<Longrightarrow> ok (st i g s) \<and> holds (st i g s) = holds s
        \<and> view (st i g s) = (view s)\<lparr>v_cont := (v_cont (view s))(b := g (v_cont (view s) b))\<rparr>"
    and pin_law: "ok s \<Longrightarrow> holds s i b \<Longrightarrow> ok (pin i s) \<and> holds (pin i s) = holds s
        \<and> view (pin i s) = (view s)\<lparr>v_pinned := insert b (v_pinned (view s))\<rparr>"
    and wr_law: "ok s \<Longrightarrow> holds s i b \<Longrightarrow> \<exists>s'. wr i s = Inr s' \<and> ok s' \<and> holds s' = holds s
        \<and> view s' = (view s)\<lparr>v_disk := (v_disk (view s))(b := v_cont (view s) b),
            v_writes := v_writes (view s) @ [(b, v_cont (view s) b)],
            v_pinned := v_pinned (view s) - {b}\<rparr>"
    and rel_law: "ok s \<Longrightarrow> holds s i b \<Longrightarrow>
      b \<in> v_pinned (view s) \<or> v_cont (view s) b = v_disk (view s) b \<Longrightarrow>
      \<exists>s'. rel i s = Inr s' \<and> ok s' \<and> (\<forall>j x. holds s' j x \<longleftrightarrow> holds s j x \<and> j \<noteq> i)
        \<and> view s' = (view s)\<lparr>v_held := v_held (view s) - {b}\<rparr>"
    and dat_law: "ok s \<Longrightarrow> holds s i b \<Longrightarrow> dat s i = v_cont (view s) b"
    and clean_law: "ok s \<Longrightarrow> b \<notin> v_held (view s) \<Longrightarrow> b \<notin> v_pinned (view s) \<Longrightarrow>
      v_cont (view s) b = v_disk (view s) b"
    and held_law: "ok s \<Longrightarrow> b \<in> v_held (view s) \<longleftrightarrow> (\<exists>i. holds s i b)"
    and handle_law: "ok s \<Longrightarrow> holds s i b \<Longrightarrow> holds s i c \<Longrightarrow> b = c"
    and finite_law: "ok s \<Longrightarrow> finite (v_pinned (view s) \<union> v_held (view s))"
begin

text \<open>A handle obtained by \<open>rd\<close> was not in use.\<close>

lemma rd_fresh:
  assumes "ok s" "b < dsize (v_rest (view s))" "b \<notin> v_held (view s)"
    "b \<in> v_pinned (view s) \<or> card (v_pinned (view s) \<union> v_held (view s)) < cap"
  obtains i s' where "rd b s = Inr (i, s')" "ok s'" "holds s' i b" "dat s' i = v_cont (view s) b"
    "view s' = (view s)\<lparr>v_held := insert b (v_held (view s))\<rparr>"
    "\<forall>j x. holds s' j x \<longleftrightarrow> holds s j x \<or> j = i \<and> x = b" "\<forall>x. \<not> holds s i x"
proof -
  obtain i s' where r: "rd b s = Inr (i, s')" "ok s'" "view s' = (view s)\<lparr>v_held := insert b (v_held (view s))\<rparr>"
    and h: "\<And>j x. holds s' j x \<longleftrightarrow> holds s j x \<or> j = i \<and> x = b"
    using rd_law [OF assms] by blast
  have n: "\<not> holds s i x" for x
  proof
    assume x: "holds s i x"
    then have "holds s' i x" "holds s' i b" using h by blast+
    then have "x = b" using handle_law [OF r(2)] by blast
    then show False using x held_law [OF assms(1)] assms(3) by blast
  qed
  have hi: "holds s' i b" using h by blast
  then have "dat s' i = v_cont (view s) b" using dat_law [OF r(2)] r(3) by simp
  then show ?thesis using that [OF r(1,2) hi _ r(3)] h n by blast
qed

text \<open>Reading a block and releasing it changes nothing that a client sees.\<close>

lemma read_block:
  assumes "ok s" "b < dsize (v_rest (view s))" "b \<notin> v_held (view s)"
    "b \<in> v_pinned (view s) \<or> card (v_pinned (view s) \<union> v_held (view s)) < cap"
  obtains i s1 s2 where "rd b s = Inr (i, s1)" "dat s1 i = v_cont (view s) b"
    "rel i s1 = Inr s2" "ok s2" "holds s2 = holds s" "view s2 = view s"
proof -
  obtain i s1 where r: "rd b s = Inr (i, s1)" "ok s1" "holds s1 i b" "dat s1 i = v_cont (view s) b"
      "view s1 = (view s)\<lparr>v_held := insert b (v_held (view s))\<rparr>"
    and h: "\<forall>j x. holds s1 j x \<longleftrightarrow> holds s j x \<or> j = i \<and> x = b" "\<forall>x. \<not> holds s i x"
    by (rule rd_fresh [OF assms])
  have "b \<in> v_pinned (view s1) \<or> v_cont (view s1) b = v_disk (view s1) b"
    using clean_law [OF assms(1,3)] r(5) by auto
  from rel_law [OF r(2,3) this] obtain s2 where s2: "rel i s1 = Inr s2" "ok s2"
      "\<forall>j x. holds s2 j x \<longleftrightarrow> holds s1 j x \<and> j \<noteq> i"
      "view s2 = (view s1)\<lparr>v_held := v_held (view s1) - {b}\<rparr>" by blast
  have "holds s2 = holds s" using s2(3) h by (simp add: fun_eq_iff) metis
  moreover have "view s2 = view s" using s2(4) r(5) assms(3) by simp
  ultimately show ?thesis using that [OF r(1,4) s2(1,2)] by simp
qed

text \<open>Changing a block under the log: read, store, pin, release.\<close>

lemma update_block:
  assumes "ok s" "b < dsize (v_rest (view s))" "b \<notin> v_held (view s)"
    "b \<in> v_pinned (view s) \<or> card (v_pinned (view s) \<union> v_held (view s)) < cap"
  obtains i s1 s2 where "rd b s = Inr (i, s1)" "ok s1" "holds s1 i b" "dat s1 i = v_cont (view s) b"
    "view s1 = (view s)\<lparr>v_held := insert b (v_held (view s))\<rparr>"
    "rel i (pin i (st i g s1)) = Inr s2" "ok s2" "holds s2 = holds s"
    "view s2 = (view s)\<lparr>v_cont := (v_cont (view s))(b := g (v_cont (view s) b)),
       v_pinned := insert b (v_pinned (view s))\<rparr>"
proof -
  obtain i s1 where r: "rd b s = Inr (i, s1)" "ok s1" "holds s1 i b" "dat s1 i = v_cont (view s) b"
      "view s1 = (view s)\<lparr>v_held := insert b (v_held (view s))\<rparr>"
    and h: "\<forall>j x. holds s1 j x \<longleftrightarrow> holds s j x \<or> j = i \<and> x = b" "\<forall>x. \<not> holds s i x"
    by (rule rd_fresh [OF assms])
  note t = st_law [OF r(2,3), of g]
  then have "ok (st i g s1)" "holds (st i g s1) i b" using r(3) by simp_all
  note p = pin_law [OF this]
  then have "ok (pin i (st i g s1))" "holds (pin i (st i g s1)) i b"
    "b \<in> v_pinned (view (pin i (st i g s1)))" using t r(3) by simp_all
  from rel_law [OF this(1,2)] this(3) obtain s2 where s2: "rel i (pin i (st i g s1)) = Inr s2" "ok s2"
      "\<forall>j x. holds s2 j x \<longleftrightarrow> holds (pin i (st i g s1)) j x \<and> j \<noteq> i"
      "view s2 = (view (pin i (st i g s1)))\<lparr>v_held := v_held (view (pin i (st i g s1))) - {b}\<rparr>" by blast
  have "holds s2 = holds s" using s2(3) h p t by (simp add: fun_eq_iff) metis
  moreover have "view s2 = (view s)\<lparr>v_cont := (v_cont (view s))(b := g (v_cont (view s) b)),
       v_pinned := insert b (v_pinned (view s))\<rparr>"
    using s2(4) p t r(5) assms(3) by simp
  ultimately show ?thesis using that [OF r(1-5) s2(1,2)] by simp
qed

text \<open>
  With a source and a target held: store the source into the target, write the target to the
  disk, release both.
\<close>

lemma copy_held:
  assumes ok: "ok s" and h: "holds s i src" "holds s j dst" and ne: "src \<noteq> dst"
    and c: "src \<in> v_pinned (view s) \<or> v_cont (view s) src = v_disk (view s) src"
  obtains s1 s2 s3 where "wr j (st j (\<lambda>_. dat s i) s) = Inr s1" "rel i s1 = Inr s2" "rel j s2 = Inr s3"
    "ok s3" "\<And>k x. holds s3 k x \<longleftrightarrow> holds s k x \<and> k \<noteq> i \<and> k \<noteq> j"
    "view s3 = (view s)\<lparr>v_cont := (v_cont (view s))(dst := v_cont (view s) src),
       v_disk := (v_disk (view s))(dst := v_cont (view s) src),
       v_writes := v_writes (view s) @ [(dst, v_cont (view s) src)],
       v_pinned := v_pinned (view s) - {dst}, v_held := v_held (view s) - {src, dst}\<rparr>"
proof -
  let ?c = "v_cont (view s) src" and ?t = "st j (\<lambda>_. dat s i) s"
  have ij: "i \<noteq> j" using handle_law [OF ok] h ne by blast
  have t: "ok ?t" "holds ?t = holds s" "view ?t = (view s)\<lparr>v_cont := (v_cont (view s))(dst := ?c)\<rparr>"
    using st_law [OF ok h(2), of "\<lambda>_. dat s i"] dat_law [OF ok h(1)] by auto
  then have "holds ?t j dst" using h(2) by simp
  from wr_law [OF t(1) this] obtain s1 where s1: "wr j ?t = Inr s1" "ok s1" "holds s1 = holds s"
      "view s1 = (view s)\<lparr>v_cont := (v_cont (view s))(dst := ?c), v_disk := (v_disk (view s))(dst := ?c),
        v_writes := v_writes (view s) @ [(dst, ?c)], v_pinned := v_pinned (view s) - {dst}\<rparr>"
    using t by auto
  have "holds s1 i src" "src \<in> v_pinned (view s1) \<or> v_cont (view s1) src = v_disk (view s1) src"
    using h(1) s1 c ne by auto
  from rel_law [OF s1(2) this] obtain s2 where s2: "rel i s1 = Inr s2" "ok s2"
      "\<forall>k x. holds s2 k x \<longleftrightarrow> holds s k x \<and> k \<noteq> i"
      "view s2 = (view s1)\<lparr>v_held := v_held (view s1) - {src}\<rparr>"
    using s1(3) by auto
  have "holds s2 j dst" "dst \<in> v_pinned (view s2) \<or> v_cont (view s2) dst = v_disk (view s2) dst"
    using h(2) s1 s2 ij by auto
  from rel_law [OF s2(2) this] obtain s3 where s3: "rel j s2 = Inr s3" "ok s3"
      "\<forall>k x. holds s3 k x \<longleftrightarrow> holds s k x \<and> k \<noteq> i \<and> k \<noteq> j"
      "view s3 = (view s2)\<lparr>v_held := v_held (view s2) - {dst}\<rparr>"
    using s2(3) by auto
  have held: "v_held (view s) - {src} - {dst} = v_held (view s) - {src, dst}" by blast
  have v: "view s3 = (view s)\<lparr>v_cont := (v_cont (view s))(dst := ?c), v_disk := (v_disk (view s))(dst := ?c),
      v_writes := v_writes (view s) @ [(dst, ?c)], v_pinned := v_pinned (view s) - {dst},
      v_held := v_held (view s) - {src, dst}\<rparr>"
    using s1(4) s2(4) s3(4) held by simp
  from s3(3) have "\<And>k x. holds s3 k x \<longleftrightarrow> holds s k x \<and> k \<noteq> i \<and> k \<noteq> j" by blast
  then show ?thesis using that [OF s1(1) s2(1) s3(1,2)] v by simp
qed

end

lemma view_clean:
  assumes ok: "bio_ok s" and n: "b \<notin> v_held (view s)" "b \<notin> v_pinned (view s)"
  shows "cont s b = f_disk s b"
proof (cases "\<exists>i. cached s i b")
  case True
  then obtain i where i: "cached s i b" ..
  then have "b_refcnt (f_bufs s i) = 0" "\<not> b_dirty (f_bufs s i)"
    using n by (auto simp: view_def holds_def)
  then show ?thesis
    using bio_okD(1) [OF ok, of i] i cont_cached [OF ok i] by (auto simp: buf_ok_def Let_def cached_def)
qed (use cont_uncached in simp)

interpretation bc: block_cache bio_ok holds view "bread 1" bwrite brelse bstore bpin
  "\<lambda>s i. b_data (f_bufs s i)" "\<lambda>r. fst (snd r)" NBUF
proof (unfold_locales, goal_cases)
  case (1 s b)
  then show ?case using bread_refines [of s b] by simp
next
  case (2 s i b g)
  then show ?case using bstore_refines [of s i b g] by simp
next
  case (3 s i b)
  then show ?case using bpin_refines [of s i b] by simp
next
  case (4 s i b)
  then show ?case using bwrite_refines [of s i b] by simp
next
  case (5 s i b)
  then show ?case using brelse_refines [of s i b] by simp
next
  case (6 s i b)
  then show ?case using holdsD(8) [of s i b] by simp
next
  case (7 s b)
  then show ?case using view_clean [of s b] by simp
next
  case (8 s b)
  then show ?case by (simp add: view_def)
next
  case (9 s i b c)
  then show ?case by (simp add: holds_def cached_def)
next
  case (10 s)
  show ?case by (rule finite_busy)
qed

end
