(* ===== verification/Log.thy ===== *)
theory Log
  imports Bio_Cache
begin

text \<open>
  log.c: the write-ahead log with the delayed group commit of project 3, and \<open>readsb\<close> of fs.c,
  which it needs at boot. The log header is a block of 32-bit integers: the number of logged
  blocks, then their numbers.
\<close>

definition get_sb :: "mem \<Rightarrow> superblock" where
  "get_sb m = \<lparr>sb_size = get32 m 0, sb_nblocks = get32 m 4, sb_ninodes = get32 m 8, sb_nlog = get32 m 12,
     sb_logstart = get32 m 16, sb_inodestart = get32 m 20, sb_bmapstart = get32 m 24\<rparr>"

definition readsb :: "u32 \<Rightarrow> fsys \<Rightarrow> (superblock \<times> fsys) res" where
  "readsb dev s =
     bind_res (bread dev 1 s) (\<lambda>(bp, s).
     let sb = get_sb (b_data (f_bufs s bp)) in
     bind_res (brelse bp s) (\<lambda>s. Inr (sb, s)))"

text \<open>Copy committed blocks from the log to their home location.\<close>

definition install_trans :: "fsys \<Rightarrow> fsys res" where
  "install_trans s =
     for_each (\<lambda>tail s.
       bind_res (bread (lg_dev (f_log s)) (lg_start (f_log s) + of_nat tail + 1) s) (\<lambda>(lbuf, s).
       bind_res (bread (lg_dev (f_log s)) (lh_block (f_log s) tail) s) (\<lambda>(dbuf, s).
       let s = bstore dbuf (\<lambda>_. b_data (f_bufs s lbuf)) s in
       bind_res (bwrite dbuf s) (\<lambda>s.
       bind_res (brelse lbuf s) (\<lambda>s.
       brelse dbuf s)))))
     [0..<nat (lh_n (f_log s))] s"

text \<open>
  \<open>read_head\<close> trusts the block it reads: a count above \<open>LOGSIZE\<close> would run over the end of
  \<open>log.lh.block\<close>.
\<close>

definition read_head :: "fsys \<Rightarrow> fsys res" where
  "read_head s =
     bind_res (bread (lg_dev (f_log s)) (lg_start (f_log s)) s) (\<lambda>(buf, s).
     let m = b_data (f_bufs s buf);
         n = sint (get32 m 0)
     in if n > int LOGSIZE then Inl (Fault ''read_head: lh.block overrun'')
        else
          let s = upd_log (\<lambda>l. l\<lparr>lh_n := n, lh_block := \<lambda>i. if i < nat n then get32 m (4 + 4 * i)
                                                         else lh_block l i\<rparr>) s
          in brelse buf s)"

definition put_head :: "nat \<Rightarrow> (nat \<Rightarrow> u32) \<Rightarrow> mem \<Rightarrow> mem" where
  "put_head n blk m = fold (\<lambda>i. put32 (4 + 4 * i) (blk i)) [0..<n] (put32 0 (of_nat n) m)"

definition write_head :: "fsys \<Rightarrow> fsys res" where
  "write_head s =
     bind_res (bread (lg_dev (f_log s)) (lg_start (f_log s)) s) (\<lambda>(buf, s).
     let s = bstore buf (put_head (nat (lh_n (f_log s))) (lh_block (f_log s))) s in
     bind_res (bwrite buf s) (\<lambda>s.
     brelse buf s))"

definition recover_from_log :: "fsys \<Rightarrow> fsys res" where
  "recover_from_log s =
     bind_res (read_head s) (\<lambda>s.
     bind_res (install_trans s) (\<lambda>s.
     write_head (upd_log (\<lambda>l. l\<lparr>lh_n := 0\<rparr>) s)))"

text \<open>\<open>sizeof(struct logheader)\<close> is \<open>4 + 4 * LOGSIZE\<close>, so the first test never panics.\<close>

definition initlog :: "u32 \<Rightarrow> fsys \<Rightarrow> fsys res" where
  "initlog dev s =
     (if 4 + 4 * LOGSIZE \<ge> BSIZE then Inl (Panic ''initlog: too big logheader'')
      else bind_res (readsb dev s) (\<lambda>(sb, s).
           recover_from_log
             (upd_log (\<lambda>l. l\<lparr>lg_start := sb_logstart sb, lg_size := sint (sb_nlog sb), lg_dev := dev\<rparr>) s)))"

text \<open>Copy modified blocks from the cache to the log.\<close>

definition write_log :: "fsys \<Rightarrow> fsys res" where
  "write_log s =
     for_each (\<lambda>tail s.
       bind_res (bread (lg_dev (f_log s)) (lg_start (f_log s) + of_nat tail + 1) s) (\<lambda>(to, s).
       bind_res (bread (lg_dev (f_log s)) (lh_block (f_log s) tail) s) (\<lambda>(from, s).
       let s = bstore to (\<lambda>_. b_data (f_bufs s from)) s in
       bind_res (bwrite to s) (\<lambda>s.
       bind_res (brelse from s) (\<lambda>s.
       brelse to s)))))
     [0..<nat (lh_n (f_log s))] s"

definition commit :: "fsys \<Rightarrow> fsys res" where
  "commit s =
     (if lh_n (f_log s) > 0 then
        bind_res (write_log s) (\<lambda>s.
        bind_res (write_head s) (\<lambda>s.
        bind_res (install_trans s) (\<lambda>s.
        write_head (upd_log (\<lambda>l. l\<lparr>lh_n := 0\<rparr>) s))))
      else Inr s)"

text \<open>The count of the buffers that \<open>bget\<close> could recycle, by walking the list backwards.\<close>

fun ring_count :: "nat \<Rightarrow> nat \<Rightarrow> (nat \<Rightarrow> nat) \<Rightarrow> (nat \<Rightarrow> bool) \<Rightarrow> nat \<Rightarrow> nat \<Rightarrow> nat option" where
  "ring_count 0 h nxt ok b count = None"
| "ring_count (Suc fuel) h nxt ok b count =
     (if b = h then Some count
      else ring_count fuel h nxt ok (nxt b) (if ok b then count + 1 else count))"

definition isBufFull :: "fsys \<Rightarrow> bool res" where
  "isBufFull s =
     (case ring_count (Suc NBUF) HEAD (f_prev s)
             (\<lambda>i. b_refcnt (f_bufs s i) = 0 \<and> \<not> b_dirty (f_bufs s i)) (f_prev s HEAD) 0 of
        None \<Rightarrow> Inl (Fault ''isBufFull: endless list'')
      | Some count \<Rightarrow> Inr (count \<le> 1 + MAXOPBLOCKS))"

definition log_full :: "log \<Rightarrow> bool" where
  "log_full l \<longleftrightarrow> lh_n l + (lg_outstanding l + 2) * int MAXOPBLOCKS > int LOGSIZE"

definition begin_op :: "fsys \<Rightarrow> fsys res" where
  "begin_op s =
     (if lg_committing (f_log s) then Inl (Sleeps ChLog)
      else bind_res (isBufFull s) (\<lambda>full.
        if lg_outstanding (f_log s) > 0 \<or> full \<or> log_full (f_log s) then Inl (Sleeps ChLog)
        else Inr (upd_log (\<lambda>l. l\<lparr>lg_outstanding := lg_outstanding l + 1\<rparr>) s)))"

definition end_op :: "fsys \<Rightarrow> fsys res" where
  "end_op s =
     (let s = upd_log (\<lambda>l. l\<lparr>lg_outstanding := lg_outstanding l - 1\<rparr>) s in
      if lg_committing (f_log s) then Inl (Panic ''log.committing'')
      else bind_res (isBufFull s) (\<lambda>full.
        if lg_outstanding (f_log s) = 0 \<and> (full \<or> log_full (f_log s)) then
          bind_res (commit (upd_log (\<lambda>l. l\<lparr>lg_committing := True\<rparr>) s)) (\<lambda>s.
          Inr (fwake ChLog (upd_log (\<lambda>l. l\<lparr>lg_committing := False\<rparr>) s)))
        else Inr (fwake ChLog s)))"

definition sync :: "fsys \<Rightarrow> (int \<times> fsys) res" where
  "sync s =
     bind_res (commit (upd_log (\<lambda>l. l\<lparr>lg_committing := True\<rparr>) s)) (\<lambda>s.
     Inr (0, fwake ChLog (upd_log (\<lambda>l. l\<lparr>lg_committing := False\<rparr>) s)))"

definition get_log_num :: "fsys \<Rightarrow> int" where
  "get_log_num s = lh_n (f_log s)"

text \<open>
  Record the block of a held buffer in the log, absorbing a repeated one, and pin it in the
  cache with \<open>B_DIRTY\<close>.
\<close>

definition log_add :: "u32 \<Rightarrow> log \<Rightarrow> log" where
  "log_add b l =
     (let n = nat (lh_n l);
          i = (case first_index (\<lambda>i. lh_block l i = b) n of Some i \<Rightarrow> i | None \<Rightarrow> n);
          l = l\<lparr>lh_block := (lh_block l)(i := b)\<rparr>
      in if i = n then l\<lparr>lh_n := lh_n l + 1\<rparr> else l)"

definition log_write :: "nat \<Rightarrow> fsys \<Rightarrow> fsys res" where
  "log_write i s =
     (if lh_n (f_log s) \<ge> int LOGSIZE \<or> lh_n (f_log s) \<ge> lg_size (f_log s) - 1
      then Inl (Panic ''too big a transaction'')
      else if lg_outstanding (f_log s) < 1 then Inl (Panic ''log_write outside of trans'')
      else Inr (bpin i (upd_log (log_add (b_blockno (f_bufs s i))) s)))"

end
