(* ===== verification/Log_Ok.thy ===== *)
theory Log_Ok
  imports Log
begin

text \<open>
  The log over the abstract cache: the invariant \<open>log_ok\<close>, what each phase of a commit writes
  to the disk, and the state after it.
\<close>

subsection \<open>The header\<close>

lemma put_head_Suc:
  "put_head (Suc n) blk m = put32 (4 + 4 * n) (blk n) (fold (\<lambda>i. put32 (4 + 4 * i) (blk i)) [0..<n] (put32 0 (of_nat (Suc n)) m))"
  by (simp add: put_head_def)

lemma get_put_head_n: "get32 (put_head n blk m) 0 = of_nat n"
proof -
  have "get32 (fold (\<lambda>i. put32 (4 + 4 * i) (blk i)) [0..<k] (put32 0 (of_nat n) m)) 0 = of_nat n" for k
    by (induction k) (simp_all add: get_put32_other)
  then show ?thesis by (simp add: put_head_def)
qed

lemma get_put_head_block: "i < n \<Longrightarrow> get32 (put_head n blk m) (4 + 4 * i) = blk i"
proof -
  have "i < k \<Longrightarrow> get32 (fold (\<lambda>i. put32 (4 + 4 * i) (blk i)) [0..<k] m') (4 + 4 * i) = blk i" for k m'
  proof (induction k)
    case (Suc k)
    then show ?case
      by (cases "i = k") (simp_all add: get_put32_other)
  qed simp
  then show "i < n \<Longrightarrow> get32 (put_head n blk m) (4 + 4 * i) = blk i"
    by (simp add: put_head_def)
qed


subsection \<open>Writes to the disk\<close>

definition apply_writes :: "(u32 \<times> mem) list \<Rightarrow> (u32 \<Rightarrow> mem) \<Rightarrow> u32 \<Rightarrow> mem" where
  "apply_writes ws d = fold (\<lambda>(b, m) d. d(b := m)) ws d"

lemma apply_writes_simps [simp]:
  "apply_writes [] d = d"
  "apply_writes ((b, m) # ws) d = apply_writes ws (d(b := m))"
  "apply_writes (xs @ ys) d = apply_writes ys (apply_writes xs d)"
  by (simp_all add: apply_writes_def)

lemma apply_writes_other: "b \<notin> fst ` set ws \<Longrightarrow> apply_writes ws d b = d b"
  by (induction ws arbitrary: d) (auto simp: apply_writes_def)

lemma apply_writes_mem:
  "distinct (map fst ws) \<Longrightarrow> (b, m) \<in> set ws \<Longrightarrow> apply_writes ws d b = m"
proof (induction ws arbitrary: d)
  case (Cons w ws)
  obtain c k where w: "w = (c, k)" by (cases w)
  show ?case
  proof (cases "b = c")
    case True
    with Cons.prems w have "m = k" "b \<notin> fst ` set ws" by (auto simp: image_iff)
    then show ?thesis using True w by (simp add: apply_writes_other)
  next
    case False
    then show ?thesis using Cons w by simp
  qed
qed simp


text \<open>What the writes \<open>ws\<close>, each of the current content of its block, do to the view.\<close>

definition advance :: "(u32 \<times> mem) list \<Rightarrow> 'r cview \<Rightarrow> 'r cview" where
  "advance ws v = v\<lparr>v_cont := apply_writes ws (v_cont v), v_disk := apply_writes ws (v_disk v),
     v_writes := v_writes v @ ws, v_pinned := v_pinned v - fst ` set ws\<rparr>"

lemma advance_nil [simp]: "advance [] v = v"
  by (simp add: advance_def)

lemma advance_append: "advance (xs @ ys) v = advance ys (advance xs v)"
proof -
  have "A - (B \<union> C) = A - B - C" for A B C :: "u32 set" by blast
  then show ?thesis by (simp add: advance_def image_Un)
qed

lemma advance_sel [simp]:
  "v_cont (advance ws v) = apply_writes ws (v_cont v)"
  "v_disk (advance ws v) = apply_writes ws (v_disk v)"
  "v_writes (advance ws v) = v_writes v @ ws"
  "v_pinned (advance ws v) = v_pinned v - fst ` set ws"
  "v_held (advance ws v) = v_held v" "v_rest (advance ws v) = v_rest v"
  by (simp_all add: advance_def)

context block_cache
begin

lemma copy_block_aux:
  assumes "ok s" "v_held (view s) = {}" "card (v_pinned (view s)) + 2 \<le> cap" "x \<noteq> y"
    "x < dsize (v_rest (view s))" "y < dsize (v_rest (view s))"
  obtains i s1 j s2 where "rd x s = Inr (i, s1)" "rd y s1 = Inr (j, s2)" "ok s2" "holds s2 i x" "holds s2 j y"
    "view s2 = (view s)\<lparr>v_held := {x, y}\<rparr>"
proof -
  have x: "x \<notin> v_held (view s)" "x \<in> v_pinned (view s) \<or> card (v_pinned (view s) \<union> v_held (view s)) < cap"
    using assms by simp_all
  obtain i s1 where r: "rd x s = Inr (i, s1)" "ok s1" "holds s1 i x"
      "view s1 = (view s)\<lparr>v_held := insert x (v_held (view s))\<rparr>"
    using rd_fresh [OF assms(1,5) x] by metis
  have "card (v_pinned (view s) \<union> {x}) \<le> Suc (card (v_pinned (view s)))"
    using finite_law [OF assms(1)] by (simp add: card_insert_if)
  then have "y < dsize (v_rest (view s1))" "y \<notin> v_held (view s1)"
      "y \<in> v_pinned (view s1) \<or> card (v_pinned (view s1) \<union> v_held (view s1)) < cap"
    using assms r(4) by simp_all
  from rd_law [OF r(2) this] obtain j s2 where "rd y s1 = Inr (j, s2)" "ok s2"
      "\<forall>k z. holds s2 k z \<longleftrightarrow> holds s1 k z \<or> k = j \<and> z = y"
      "view s2 = (view s1)\<lparr>v_held := insert y (v_held (view s1))\<rparr>" by blast
  then show ?thesis using r assms(2) by (intro that [of i s1 j s2]) (simp_all add: insert_commute)
qed

lemma copy_finish:
  assumes s: "ok s" "v_held (view s) = {}" and ne: "src \<noteq> dst"
    and t: "ok t" "holds t i src" "holds t j dst" "view t = (view s)\<lparr>v_held := {src, dst}\<rparr>"
  shows "\<exists>s'. bind_res (wr j (st j (\<lambda>_. dat t i) t)) (\<lambda>s. bind_res (rel i s) (rel j)) = Inr s'
    \<and> ok s' \<and> view s' = advance [(dst, v_cont (view s) src)] (view s)"
proof -
  have c: "src \<in> v_pinned (view t) \<or> v_cont (view t) src = v_disk (view t) src"
    using clean_law [OF s(1), of src] s(2) t(4) by auto
  obtain s1 s2 s3 where r: "wr j (st j (\<lambda>_. dat t i) t) = Inr s1" "rel i s1 = Inr s2" "rel j s2 = Inr s3" "ok s3"
      "view s3 = (view t)\<lparr>v_cont := (v_cont (view t))(dst := v_cont (view t) src),
       v_disk := (v_disk (view t))(dst := v_cont (view t) src),
       v_writes := v_writes (view t) @ [(dst, v_cont (view t) src)],
       v_pinned := v_pinned (view t) - {dst}, v_held := v_held (view t) - {src, dst}\<rparr>"
    using copy_held [OF t(1-3) ne c] by metis
  have "view s3 = advance [(dst, v_cont (view s) src)] (view s)"
    using r(5) t(4) s(2) by (simp add: advance_def)
  then show ?thesis using r by simp
qed

text \<open>Copying a block to the disk, in the two orders in which log.c reads the two buffers.\<close>

lemma copy_src_first:
  assumes "ok s" "v_held (view s) = {}" "card (v_pinned (view s)) + 2 \<le> cap" "src \<noteq> dst"
    "src < dsize (v_rest (view s))" "dst < dsize (v_rest (view s))"
  shows "\<exists>s'. bind_res (rd src s) (\<lambda>(i, s). bind_res (rd dst s) (\<lambda>(j, s).
      bind_res (wr j (st j (\<lambda>_. dat s i) s)) (\<lambda>s. bind_res (rel i s) (rel j)))) = Inr s'
    \<and> ok s' \<and> view s' = advance [(dst, v_cont (view s) src)] (view s)"
proof (rule copy_block_aux [OF assms])
  fix i s1 j s2
  assume "rd src s = Inr (i, s1)" "rd dst s1 = Inr (j, s2)" "ok s2" "holds s2 i src" "holds s2 j dst"
    "view s2 = (view s)\<lparr>v_held := {src, dst}\<rparr>"
  then show ?thesis using copy_finish [OF assms(1,2,4)] by simp
qed

lemma copy_dst_first:
  assumes "ok s" "v_held (view s) = {}" "card (v_pinned (view s)) + 2 \<le> cap" "src \<noteq> dst"
    "src < dsize (v_rest (view s))" "dst < dsize (v_rest (view s))"
  shows "\<exists>s'. bind_res (rd dst s) (\<lambda>(j, s). bind_res (rd src s) (\<lambda>(i, s).
      bind_res (wr j (st j (\<lambda>_. dat s i) s)) (\<lambda>s. bind_res (rel i s) (rel j)))) = Inr s'
    \<and> ok s' \<and> view s' = advance [(dst, v_cont (view s) src)] (view s)"
proof (rule copy_block_aux [of s dst src])
  fix i s1 j s2
  assume "rd dst s = Inr (j, s1)" "rd src s1 = Inr (i, s2)" "ok s2" "holds s2 j dst" "holds s2 i src"
    "view s2 = (view s)\<lparr>v_held := {dst, src}\<rparr>"
  then show ?thesis using copy_finish [OF assms(1,2,4), of s2 i j] by (simp add: insert_commute)
qed (use assms in simp_all)

text \<open>Rewriting a block on the disk.\<close>

lemma rewrite_block:
  assumes "ok s" "v_held (view s) = {}" "card (v_pinned (view s)) < cap" "b < dsize (v_rest (view s))"
  shows "\<exists>s'. bind_res (rd b s) (\<lambda>(i, s). bind_res (wr i (st i g s)) (rel i)) = Inr s'
    \<and> ok s' \<and> view s' = advance [(b, g (v_cont (view s) b))] (view s)"
proof -
  have "b \<notin> v_held (view s)" "b \<in> v_pinned (view s) \<or> card (v_pinned (view s) \<union> v_held (view s)) < cap"
    using assms by simp_all
  then obtain i s1 where r: "rd b s = Inr (i, s1)" "ok s1" "holds s1 i b"
      "view s1 = (view s)\<lparr>v_held := insert b (v_held (view s))\<rparr>"
    using rd_fresh [OF assms(1,4)] by metis
  note t = st_law [OF r(2,3), of g]
  then have "ok (st i g s1)" "holds (st i g s1) i b" using r(3) by simp_all
  from wr_law [OF this] obtain s2 where w: "wr i (st i g s1) = Inr s2" "ok s2" "holds s2 = holds s1"
      "view s2 = (view (st i g s1))\<lparr>v_disk := (v_disk (view (st i g s1)))(b := v_cont (view (st i g s1)) b),
         v_writes := v_writes (view (st i g s1)) @ [(b, v_cont (view (st i g s1)) b)],
         v_pinned := v_pinned (view (st i g s1)) - {b}\<rparr>"
    using t by auto
  have "holds s2 i b" "b \<in> v_pinned (view s2) \<or> v_cont (view s2) b = v_disk (view s2) b"
    using w r(3) t by simp_all
  from rel_law [OF w(2) this] obtain s3 where "rel i s2 = Inr s3" "ok s3"
      "view s3 = (view s2)\<lparr>v_held := v_held (view s2) - {b}\<rparr>" by blast
  then show ?thesis using r w t assms(2) by (simp add: advance_def)
qed

end


subsection \<open>The invariant\<close>

definition log_area :: "log \<Rightarrow> u32 set" where
  "log_area l = (\<lambda>t. lg_start l + of_nat t) ` {..<LOGSIZE}"

abbreviation logged :: "fsys \<Rightarrow> u32 list" where
  "logged s \<equiv> map (lh_block (f_log s)) [0..<nat (lh_n (f_log s))]"

definition layout_ok :: "fsys \<Rightarrow> bool" where
  "layout_ok s \<longleftrightarrow> lg_dev (f_log s) = 1
     \<and> unat (lg_start (f_log s)) + LOGSIZE \<le> unat (f_disksize s)"

definition log_ok :: "fsys \<Rightarrow> bool" where
  "log_ok s \<longleftrightarrow> bio_ok s \<and> layout_ok s \<and> 0 \<le> lh_n (f_log s) \<and> lh_n (f_log s) + 2 \<le> int NBUF
     \<and> distinct (logged s) \<and> v_pinned (view s) = set (logged s)
     \<and> (\<forall>b\<in>set (logged s). b < f_disksize s \<and> b \<notin> log_area (f_log s))"

lemma log_slot:
  assumes "layout_ok s" and "t < LOGSIZE"
  shows "lg_start (f_log s) + of_nat t < f_disksize s"
    "unat (lg_start (f_log s) + of_nat t) = unat (lg_start (f_log s)) + t"
proof -
  have l: "unat (lg_start (f_log s)) + t < unat (f_disksize s)"
    using assms by (simp add: layout_ok_def)
  then show "unat (lg_start (f_log s) + of_nat t) = unat (lg_start (f_log s)) + t"
    using unat_less_32 [of "f_disksize s"] by (intro unat_add_nat_32) simp
  then show "lg_start (f_log s) + of_nat t < f_disksize s"
    using l by (simp add: word_less_nat_alt)
qed

lemma log_slot_inj:
  assumes "layout_ok s" "t < LOGSIZE" "u < LOGSIZE"
    and "lg_start (f_log s) + of_nat t = lg_start (f_log s) + of_nat u"
  shows "t = u"
  using arg_cong [OF assms(4), of unat]
  unfolding log_slot(2) [OF assms(1,2)] log_slot(2) [OF assms(1,3)] by simp


subsection \<open>The phases of a commit\<close>

text \<open>Reading a buffer does not touch what is not the cache's.\<close>

lemma bread_frame:
  "bread d b s = Inr (i, s') \<Longrightarrow> f_log s' = f_log s \<and> f_sb s' = f_sb s \<and> f_icache s' = f_icache s
     \<and> f_disksize s' = f_disksize s \<and> f_pid s' = f_pid s"
  by (auto simp: bread_def bget_def lock_buf_def iderw_def bind_res_Inr_iff Let_def
      split: option.splits if_splits)

lemma view_restD:
  assumes "v_rest (view s') = v_rest (view s)"
  shows "f_log s' = f_log s" "f_disksize s' = f_disksize s" "f_sb s' = f_sb s" "f_icache s' = f_icache s"
    "f_pid s' = f_pid s"
  using assms by simp_all

definition log_copies :: "fsys \<Rightarrow> nat \<Rightarrow> (u32 \<times> mem) list" where
  "log_copies s n = map (\<lambda>t. (lg_start (f_log s) + of_nat t + 1, cont s (lh_block (f_log s) t))) [0..<n]"

definition installs :: "fsys \<Rightarrow> nat \<Rightarrow> (u32 \<times> mem) list" where
  "installs s n = map (\<lambda>t. (lh_block (f_log s) t, cont s (lg_start (f_log s) + of_nat t + 1))) [0..<n]"

lemma log_slot_Suc: "lg_start l + of_nat t + 1 = lg_start l + of_nat (Suc t)"
  by simp

lemma log_area_slot: "Suc t < LOGSIZE \<Longrightarrow> lg_start l + of_nat t + 1 \<in> log_area l"
  unfolding log_slot_Suc log_area_def by (intro imageI) simp

lemma log_copies_area: "n < LOGSIZE \<Longrightarrow> fst ` set (log_copies s n) \<subseteq> log_area (f_log s)"
  using log_area_slot by (auto simp: log_copies_def)

definition home_ok :: "fsys \<Rightarrow> nat \<Rightarrow> bool" where
  "home_ok s n \<longleftrightarrow> bio_ok s \<and> layout_ok s \<and> v_held (view s) = {} \<and> lh_n (f_log s) = int n \<and> n < LOGSIZE
     \<and> distinct (logged s) \<and> card (v_pinned (view s)) + 2 \<le> NBUF
     \<and> (\<forall>b\<in>set (logged s). b < f_disksize s \<and> b \<notin> log_area (f_log s))"

lemma home_okD:
  assumes "home_ok s n"
  shows "bio_ok s" "layout_ok s" "v_held (view s) = {}" "lh_n (f_log s) = int n" "n < LOGSIZE"
    "distinct (logged s)" "card (v_pinned (view s)) + 2 \<le> NBUF" "lg_dev (f_log s) = 1"
    "t < n \<Longrightarrow> lh_block (f_log s) t < f_disksize s" "t < n \<Longrightarrow> lh_block (f_log s) t \<notin> log_area (f_log s)"
    "t < n \<Longrightarrow> lg_start (f_log s) + of_nat t + 1 < f_disksize s"
    "t < n \<Longrightarrow> lg_start (f_log s) + of_nat t + 1 \<in> log_area (f_log s)"
  using assms log_slot(1) [of s "Suc t"] log_area_slot [of t "f_log s"]
  by (auto simp: home_ok_def layout_ok_def add.assoc [symmetric] add.commute [of 1])

lemma card_pinned_advance:
  assumes "bio_ok s" "card (v_pinned (view s)) + 2 \<le> NBUF" "view s' = advance ws (view s)"
  shows "card (v_pinned (view s')) + 2 \<le> NBUF"
proof -
  have "finite (v_pinned (view s))" using finite_busy [of s] by simp
  then have "card (v_pinned (view s')) \<le> card (v_pinned (view s))"
    using assms(3) by (intro card_mono) auto
  then show ?thesis using assms(2) by simp
qed

lemma write_log_spec:
  assumes h: "home_ok s n"
  shows "\<exists>s'. write_log s = Inr s' \<and> bio_ok s' \<and> view s' = advance (log_copies s n) (view s)"
proof -
  note d = home_okD [OF h]
  let ?l = "f_log s" and ?I = "\<lambda>t s'. bio_ok s' \<and> view s' = advance (log_copies s t) (view s)"
  have "\<exists>s'. write_log s = Inr s' \<and> ?I n s'"
    unfolding write_log_def d(4) nat_int
  proof (rule for_each_upt)
    show "?I 0 s" using d(1) by (simp add: log_copies_def)
  next
    fix t s1 assume t: "t < n" and I: "?I t s1"
    let ?src = "lh_block ?l t" and ?dst = "lg_start ?l + of_nat t + 1"
    have r: "f_log s1 = ?l" "f_disksize s1 = f_disksize s"
      using view_restD [of s1 s] I by simp_all
    have "?src \<notin> fst ` set (log_copies s t)"
      using log_copies_area [of t s] d(5,10) t by auto
    moreover have "cont s1 = apply_writes (log_copies s t) (cont s)"
      using arg_cong [OF conjunct2 [OF I], of v_cont] by simp
    ultimately have c: "v_cont (view s1) ?src = cont s ?src" by (simp add: apply_writes_other)
    have "bio_ok s1" using I by simp
    moreover have "v_held (view s1) = {}" using I d(3) by simp
    moreover have "card (v_pinned (view s1)) + 2 \<le> NBUF"
      using card_pinned_advance [OF d(1,7)] I by blast
    moreover have "?src \<noteq> ?dst" using d(10,12) [OF t] by metis
    moreover have "?src < fst (snd (v_rest (view s1)))" "?dst < fst (snd (v_rest (view s1)))"
      using d(9,11) [OF t] r(2) by simp_all
    ultimately obtain s2 where s2: "bind_res (bread 1 ?dst s1) (\<lambda>(j, s). bind_res (bread 1 ?src s) (\<lambda>(i, s).
        bind_res (bwrite j (bstore j (\<lambda>_. b_data (f_bufs s i)) s)) (\<lambda>s. bind_res (brelse i s) (brelse j)))) = Inr s2"
        "bio_ok s2" "view s2 = advance [(?dst, cont s ?src)] (view s1)"
      using bc.copy_dst_first [of s1 ?src ?dst, unfolded c] by blast
    have "view s2 = advance (log_copies s (Suc t)) (view s)"
      using s2(3) I by (simp add: log_copies_def advance_append)
    then show "\<exists>s2. bind_res (bread (lg_dev (f_log s1)) (lg_start (f_log s1) + of_nat t + 1) s1) (\<lambda>(to, s).
       bind_res (bread (lg_dev (f_log s)) (lh_block (f_log s) t) s) (\<lambda>(from, s).
       let s = bstore to (\<lambda>_. b_data (f_bufs s from)) s in
       bind_res (bwrite to s) (\<lambda>s. bind_res (brelse from s) (\<lambda>s. brelse to s)))) = Inr s2 \<and> ?I (Suc t) s2"
      using s2(1,2) d(8) r bread_frame
      by (intro exI [of _ s2]) (auto simp: Let_def bind_res_Inr_iff split: prod.splits)
  qed
  then show ?thesis .
qed

lemma home_ok_advance:
  assumes "home_ok s n" and "bio_ok s'" and v: "view s' = advance ws (view s)"
  shows "home_ok s' n"
proof -
  note r = view_restD [of s' s]
  have "f_log s' = f_log s" "f_disksize s' = f_disksize s" using r v by simp_all
  then show ?thesis
    using assms card_pinned_advance [OF _ _ v] by (auto simp: home_ok_def layout_ok_def)
qed

lemma install_trans_spec:
  assumes h: "home_ok s n"
  shows "\<exists>s'. install_trans s = Inr s' \<and> bio_ok s' \<and> view s' = advance (installs s n) (view s)"
proof -
  note d = home_okD [OF h]
  let ?l = "f_log s" and ?I = "\<lambda>t s'. bio_ok s' \<and> view s' = advance (installs s t) (view s)"
  have "\<exists>s'. install_trans s = Inr s' \<and> ?I n s'"
    unfolding install_trans_def d(4) nat_int
  proof (rule for_each_upt)
    show "?I 0 s" using d(1) by (simp add: installs_def)
  next
    fix t s1 assume t: "t < n" and I: "?I t s1"
    let ?dst = "lh_block ?l t" and ?src = "lg_start ?l + of_nat t + 1"
    note h1 = home_okD [OF home_ok_advance [OF h conjunct1 [OF I] conjunct2 [OF I]]]
    have r: "f_log s1 = ?l" "f_disksize s1 = f_disksize s"
      using view_restD [of s1 s] I by simp_all
    have "?src \<notin> fst ` set (installs s t)"
      using d(10) d(12) [OF t] t by (auto simp: installs_def)
    moreover have "cont s1 = apply_writes (installs s t) (cont s)"
      using arg_cong [OF conjunct2 [OF I], of v_cont] by simp
    ultimately have c: "v_cont (view s1) ?src = cont s ?src" by (simp add: apply_writes_other)
    have "?src \<noteq> ?dst" using d(10,12) [OF t] by metis
    moreover have "?src < fst (snd (v_rest (view s1)))" "?dst < fst (snd (v_rest (view s1)))"
      using d(9,11) [OF t] r(2) by simp_all
    ultimately obtain s2 where s2: "bind_res (bread 1 ?src s1) (\<lambda>(i, s). bind_res (bread 1 ?dst s) (\<lambda>(j, s).
        bind_res (bwrite j (bstore j (\<lambda>_. b_data (f_bufs s i)) s)) (\<lambda>s. bind_res (brelse i s) (brelse j)))) = Inr s2"
        "bio_ok s2" "view s2 = advance [(?dst, cont s ?src)] (view s1)"
      using bc.copy_src_first [of s1 ?src ?dst, unfolded c] h1(1,3,7) by blast
    have "view s2 = advance (installs s (Suc t)) (view s)"
      using s2(3) I by (simp add: installs_def advance_append)
    then show "\<exists>s2. bind_res (bread (lg_dev (f_log s1)) (lg_start (f_log s1) + of_nat t + 1) s1) (\<lambda>(lbuf, s).
       bind_res (bread (lg_dev (f_log s)) (lh_block (f_log s) t) s) (\<lambda>(dbuf, s).
       let s = bstore dbuf (\<lambda>_. b_data (f_bufs s lbuf)) s in
       bind_res (bwrite dbuf s) (\<lambda>s. bind_res (brelse lbuf s) (\<lambda>s. brelse dbuf s)))) = Inr s2 \<and> ?I (Suc t) s2"
      using s2(1,2) d(8) r bread_frame
      by (intro exI [of _ s2]) (auto simp: Let_def bind_res_Inr_iff split: prod.splits)
  qed
  then show ?thesis .
qed

lemma write_head_spec:
  assumes "bio_ok s" "layout_ok s" "v_held (view s) = {}" "card (v_pinned (view s)) + 2 \<le> NBUF"
  shows "\<exists>s'. write_head s = Inr s' \<and> bio_ok s' \<and> view s' = advance
    [(lg_start (f_log s), put_head (nat (lh_n (f_log s))) (lh_block (f_log s)) (cont s (lg_start (f_log s))))] (view s)"
proof -
  let ?g = "put_head (nat (lh_n (f_log s))) (lh_block (f_log s))" and ?b = "lg_start (f_log s)"
  have "?b < fst (snd (v_rest (view s)))" "card (v_pinned (view s)) < NBUF"
    using log_slot(1) [OF assms(2), of 0] assms(4) by (simp_all add: LOGSIZE_def)
  then obtain s' where s': "bind_res (bread 1 ?b s) (\<lambda>(i, s). bind_res (bwrite i (bstore i ?g s)) (brelse i)) = Inr s'"
      "bio_ok s'" "view s' = advance [(?b, ?g (v_cont (view s) ?b))] (view s)"
    using bc.rewrite_block [OF assms(1,3), of ?b ?g] by blast
  have "write_head s = Inr s'"
    using s'(1) assms(2) bread_frame
    by (auto simp: write_head_def Let_def bind_res_Inr_iff layout_ok_def split: prod.splits)
  then show ?thesis using s' by simp
qed

text \<open>Fields that are not the cache's.\<close>

lemma cont_frame [simp]:
  "cont (s\<lparr>f_log := l\<rparr>) = cont s" "cont (s\<lparr>f_icache := ic\<rparr>) = cont s" "cont (s\<lparr>f_wakes := w\<rparr>) = cont s"
  "cont (s\<lparr>f_sb := sb\<rparr>) = cont s"
  by (simp_all add: cont_def fun_eq_iff cong: option.case_cong)

lemma holds_frame [simp]:
  "holds (s\<lparr>f_log := l\<rparr>) = holds s" "holds (s\<lparr>f_icache := ic\<rparr>) = holds s"
  "holds (s\<lparr>f_wakes := w\<rparr>) = holds s" "holds (s\<lparr>f_sb := sb\<rparr>) = holds s"
  by (simp_all add: holds_def cached_def fun_eq_iff)

lemma bio_ok_frame [simp]:
  "bio_ok (s\<lparr>f_log := l\<rparr>) = bio_ok s" "bio_ok (s\<lparr>f_icache := ic\<rparr>) = bio_ok s"
  "bio_ok (s\<lparr>f_wakes := w\<rparr>) = bio_ok s" "bio_ok (s\<lparr>f_sb := sb\<rparr>) = bio_ok s"
  by (simp_all add: bio_ok_def buf_ok_def cached_def)

lemma view_frame [simp]:
  "v_pinned (view (s\<lparr>f_log := l\<rparr>)) = v_pinned (view s)" "v_held (view (s\<lparr>f_log := l\<rparr>)) = v_held (view s)"
  "v_pinned (view (s\<lparr>f_icache := ic\<rparr>)) = v_pinned (view s)" "v_held (view (s\<lparr>f_icache := ic\<rparr>)) = v_held (view s)"
  "v_pinned (view (s\<lparr>f_wakes := w\<rparr>)) = v_pinned (view s)" "v_held (view (s\<lparr>f_wakes := w\<rparr>)) = v_held (view s)"
  "v_pinned (view (s\<lparr>f_sb := sb\<rparr>)) = v_pinned (view s)" "v_held (view (s\<lparr>f_sb := sb\<rparr>)) = v_held (view s)"
  by (simp_all add: view_def cached_def)


subsection \<open>The commit\<close>

definition commit_writes :: "fsys \<Rightarrow> nat \<Rightarrow> (u32 \<times> mem) list" where
  "commit_writes s n =
     (let l = f_log s; h = put_head n (lh_block l) (cont s (lg_start l)) in
      log_copies s n @ [(lg_start l, h)] @ map (\<lambda>t. (lh_block l t, cont s (lh_block l t))) [0..<n]
        @ [(lg_start l, put_head 0 (lh_block l) h)])"

lemma start_not_slot:
  assumes "layout_ok s" "Suc t < LOGSIZE"
  shows "lg_start (f_log s) + of_nat t + 1 \<noteq> lg_start (f_log s)"
  using log_slot_inj [OF assms(1), of "Suc t" 0] assms(2) by (auto simp: add.assoc add.commute)

lemma start_in_area: "lg_start l \<in> log_area l"
  unfolding log_area_def by (intro image_eqI [of _ _ 0]) (simp_all add: LOGSIZE_def)

lemma log_copies_slot:
  assumes "home_ok s n" and "t < n"
  shows "apply_writes (log_copies s n) d (lg_start (f_log s) + of_nat t + 1) = cont s (lh_block (f_log s) t)"
proof (rule apply_writes_mem)
  note h = home_okD [OF assms(1)]
  have "inj_on (\<lambda>t. lg_start (f_log s) + of_nat t + 1) {..<n}"
    using log_slot_inj [OF h(2), of "Suc _" "Suc _"] h(5)
    by (intro inj_onI) (auto simp: log_slot_Suc simp del: of_nat_Suc)
  then show "distinct (map fst (log_copies s n))"
    by (simp add: log_copies_def distinct_map inj_on_def comp_def)
qed (use assms(2) in \<open>simp add: log_copies_def\<close>)

lemma commit_spec:
  assumes h: "home_ok s n" and n: "0 < n"
  shows "\<exists>s'. commit s = Inr s' \<and> bio_ok s' \<and> f_log s' = (f_log s)\<lparr>lh_n := 0\<rparr>
    \<and> (\<exists>r. view s' = (advance (commit_writes s n) (view s))\<lparr>v_rest := r\<rparr>)"
proof -
  note d = home_okD [OF h]
  let ?l = "f_log s" and ?h = "put_head n (lh_block (f_log s)) (cont s (lg_start (f_log s)))"
  let ?homes = "map (\<lambda>t. (lh_block ?l t, cont s (lh_block ?l t))) [0..<n]"
  obtain s1 where s1: "write_log s = Inr s1" "bio_ok s1" "view s1 = advance (log_copies s n) (view s)"
    using write_log_spec [OF h] by blast
  note h1 = home_ok_advance [OF h s1(2,3)]
  have l1: "f_log s1 = ?l" using s1(3) view_restD [of s1 s] by simp
  have "lg_start ?l \<notin> fst ` set (log_copies s n)"
    using start_not_slot [OF d(2)] d(5) by (force simp: log_copies_def)
  then have c1: "cont s1 (lg_start ?l) = cont s (lg_start ?l)"
    using arg_cong [OF s1(3), of v_cont] by (simp add: apply_writes_other)
  obtain s2 where s2: "write_head s1 = Inr s2" "bio_ok s2" "view s2 = advance [(lg_start ?l, ?h)] (view s1)"
    using write_head_spec [of s1] home_okD [OF h1] l1 c1 by auto
  note h2 = home_ok_advance [OF h1 s2(2,3)]
  have l2: "f_log s2 = ?l" using s2(3) view_restD [of s2 s1] l1 by simp
  have "cont s2 (lg_start ?l + of_nat t + 1) = cont s (lh_block ?l t)" if "t < n" for t
    using arg_cong [OF s2(3), of v_cont] arg_cong [OF s1(3), of v_cont] start_not_slot [OF d(2), of t]
      log_copies_slot [OF h that] that d(5) by simp
  then have i2: "installs s2 n = ?homes" by (simp add: installs_def l2)
  obtain s3 where s3: "install_trans s2 = Inr s3" "bio_ok s3" "view s3 = advance ?homes (view s2)"
    using install_trans_spec [OF h2] i2 by auto
  note h3 = home_okD [OF home_ok_advance [OF h2 s3(2,3)]]
  have l3: "f_log s3 = ?l" using s3(3) view_restD [of s3 s2] l2 by simp
  have "lg_start ?l \<notin> fst ` set ?homes" using d(10) start_in_area [of ?l] by auto
  then have c3: "cont s3 (lg_start ?l) = ?h"
    using arg_cong [OF s3(3), of v_cont] arg_cong [OF s2(3), of v_cont] by (simp add: apply_writes_other)
  let ?z = "upd_log (\<lambda>l. l\<lparr>lh_n := 0\<rparr>) s3"
  have "layout_ok ?z" using h3(2) by (simp add: layout_ok_def)
  then obtain s4 where s4: "write_head ?z = Inr s4" "bio_ok s4"
      "view s4 = advance [(lg_start ?l, put_head 0 (lh_block ?l) ?h)] (view ?z)"
    using write_head_spec [of ?z] h3 l3 c3 by auto
  have "commit s = Inr s4"
    using n d(4) s1 s2 s3 s4 by (simp add: commit_def)
  moreover have "f_log s4 = ?l\<lparr>lh_n := 0\<rparr>" using s4(3) view_restD [of s4 ?z] l3 by simp
  moreover have "view ?z = (view s3)\<lparr>v_rest := v_rest (view ?z)\<rparr>"
    by (rule cview.equality) simp_all
  then have "view s4 = (advance (commit_writes s n) (view s))\<lparr>v_rest := v_rest (view ?z)\<rparr>"
    using s4(3) s3(3) s2(3) s1(3)
    by (intro cview.equality) (auto simp: commit_writes_def Let_def advance_append)
  ultimately show ?thesis using s4(2) by blast
qed

end
