(* ===== verification/Log_Crash.thy ===== *)
theory Log_Crash
  imports Log_Ok
begin

text \<open>
  Crash safety of the log: the machine may stop between any two disk writes of a commit; the
  recovery at the next boot then leaves every block outside the log either as it was before
  the commit or as the commit meant it, for all blocks together.
\<close>

subsection \<open>Booting\<close>

definition zero_buf :: buf where
  "zero_buf = \<lparr>b_valid = False, b_dirty = False, b_dev = 0, b_blockno = 0, b_lock = initsleeplock,
     b_refcnt = 0, b_data = \<lambda>_. 0\<rparr>"

definition zero_log :: log where
  "zero_log = \<lparr>lg_start = 0, lg_size = 0, lg_outstanding = 0, lg_committing = False, lg_dev = 0,
     lh_n = 0, lh_block = \<lambda>_. 0\<rparr>"

text \<open>The file system's memory after \<open>binit\<close> at boot, over the disk \<open>d\<close> of the machine \<open>s\<close>.\<close>

definition boot :: "(u32 \<Rightarrow> mem) \<Rightarrow> fsys \<Rightarrow> fsys" where
  "boot d s = binit (s\<lparr>f_disk := d, f_writes := [], f_bufs := \<lambda>_. zero_buf, f_log := zero_log,
     f_next := \<lambda>_. 0, f_prev := \<lambda>_. 0\<rparr>)"

lemma binit_effect:
  assumes "\<forall>i. f_bufs s i = zero_buf"
  shows "ring HEAD (f_next (binit s)) (f_prev (binit s)) (rev [0..<NBUF])
    \<and> f_bufs (binit s) = f_bufs s \<and> f_disk (binit s) = f_disk s \<and> f_writes (binit s) = f_writes s
    \<and> v_rest (view (binit s)) = v_rest (view s)"
proof -
  let ?s0 = "s\<lparr>f_next := (f_next s)(HEAD := HEAD), f_prev := (f_prev s)(HEAD := HEAD)\<rparr>"
  let ?I = "\<lambda>k t. k \<le> NBUF \<longrightarrow> ring HEAD (f_next t) (f_prev t) (rev [0..<k]) \<and> f_bufs t = f_bufs s
    \<and> f_disk t = f_disk s \<and> f_writes t = f_writes s \<and> v_rest (view t) = v_rest (view s)"
  let ?f = "\<lambda>b s. let (nxt, prv) = ring_insert HEAD b (f_next s, f_prev s)
    in upd_buf b (\<lambda>x. x\<lparr>b_lock := initsleeplock\<rparr>) (s\<lparr>f_next := nxt, f_prev := prv\<rparr>)"
  have "?I NBUF (fold ?f [0..<NBUF] ?s0)"
  proof (rule fold_upt_inv [where I = ?I])
    show "?I 0 ?s0" by (simp add: ring_empty)
  next
    fix k t assume "k < NBUF" and I: "?I k t"
    then have r: "ring HEAD (f_next t) (f_prev t) (rev [0..<k])" "f_bufs t = f_bufs s" by auto
    obtain n p where np: "ring_insert HEAD k (f_next t, f_prev t) = (n, p)" by (metis surj_pair)
    have "ring HEAD n p (k # rev [0..<k])"
      using ring_insert [OF r(1) _ np] \<open>k < NBUF\<close> by simp
    moreover have "(f_bufs s)(k := (f_bufs s k)\<lparr>b_lock := initsleeplock\<rparr>) = f_bufs s"
      using assms by (auto simp: zero_buf_def)
    ultimately show "?I (Suc k) (?f k t)" using I np \<open>k < NBUF\<close> r(2) by simp
  qed
  then show ?thesis unfolding binit_def by simp
qed

lemma boot_ok:
  shows "bio_ok (boot d s)" "cont (boot d s) = d" "f_disk (boot d s) = d" "v_pinned (view (boot d s)) = {}"
    "v_held (view (boot d s)) = {}" "f_log (boot d s) = zero_log" "f_disksize (boot d s) = f_disksize s"
    "f_writes (boot d s) = []"
proof -
  let ?s = "s\<lparr>f_disk := d, f_writes := [], f_bufs := \<lambda>_. zero_buf, f_log := zero_log,
     f_next := \<lambda>_. 0, f_prev := \<lambda>_. 0\<rparr>"
  note b = binit_effect [of ?s, simplified]
  have bufs: "f_bufs (boot d s) i = zero_buf" for i using b by (simp add: boot_def)
  have nc: "\<not> cached (boot d s) i x" for i x by (simp add: cached_def bufs zero_buf_def)
  have "set (rev [0..<NBUF]) = {..<NBUF}" by auto
  then have "\<exists>xs. ring HEAD (f_next (boot d s)) (f_prev (boot d s)) xs \<and> set xs = {..<NBUF}"
    using b unfolding boot_def by blast
  moreover have "buf_ok (boot d s) i" for i
    by (simp add: buf_ok_def bufs zero_buf_def initsleeplock_def)
  ultimately show "bio_ok (boot d s)" using nc by (simp add: bio_ok_def)
  show disk: "f_disk (boot d s) = d" using b by (simp add: boot_def)
  show "cont (boot d s) = d" using cont_uncached [of "boot d s"] nc disk by auto
  show "v_pinned (view (boot d s)) = {}" "v_held (view (boot d s)) = {}"
    using nc by (auto simp: view_def holds_def)
  show "f_log (boot d s) = zero_log" "f_disksize (boot d s) = f_disksize s" "f_writes (boot d s) = []"
    using b by (simp_all add: boot_def)
qed


subsection \<open>Recovery\<close>

definition head_n :: "mem \<Rightarrow> nat" where
  "head_n m = nat (sint (get32 m 0))"

definition head_block :: "mem \<Rightarrow> nat \<Rightarrow> u32" where
  "head_block m i = get32 m (4 + 4 * i)"

text \<open>What recovery writes to a disk whose log starts at block \<open>st\<close>.\<close>

definition replay :: "u32 \<Rightarrow> (u32 \<Rightarrow> mem) \<Rightarrow> (u32 \<times> mem) list" where
  "replay st d = map (\<lambda>t. (head_block (d st) t, d (st + of_nat t + 1))) [0..<head_n (d st)]
     @ [(st, put_head 0 (head_block (d st)) (d st))]"

definition area :: "u32 \<Rightarrow> u32 set" where
  "area st = (\<lambda>t. st + of_nat t) ` {..<LOGSIZE}"

text \<open>A disk from which the log can be recovered.\<close>

definition disk_ok :: "u32 \<Rightarrow> u32 \<Rightarrow> (u32 \<Rightarrow> mem) \<Rightarrow> bool" where
  "disk_ok dsz st d \<longleftrightarrow> sb_logstart (get_sb (d 1)) = st \<and> 1 < dsz \<and> unat st + LOGSIZE \<le> unat dsz
     \<and> 0 \<le> sint (get32 (d st) 0) \<and> head_n (d st) < LOGSIZE
     \<and> distinct (map (head_block (d st)) [0..<head_n (d st)])
     \<and> (\<forall>t<head_n (d st). head_block (d st) t < dsz \<and> head_block (d st) t \<notin> area st)"

lemma readsb_spec:
  assumes "bio_ok s" "v_held (view s) = {}" "card (v_pinned (view s)) < NBUF" "1 < f_disksize s"
  shows "\<exists>s'. readsb 1 s = Inr (get_sb (cont s 1), s') \<and> bio_ok s' \<and> view s' = view s"
proof -
  have "1 < fst (snd (v_rest (view s)))" "1 \<notin> v_held (view s)"
    "1 \<in> v_pinned (view s) \<or> card (v_pinned (view s) \<union> v_held (view s)) < NBUF"
    using assms by simp_all
  from bc.read_block [OF assms(1) this] obtain i s1 s2 where "bread 1 1 s = Inr (i, s1)"
      "b_data (f_bufs s1 i) = v_cont (view s) 1" "brelse i s1 = Inr s2" "bio_ok s2" "view s2 = view s" by metis
  then show ?thesis by (simp add: readsb_def Let_def)
qed

lemma bwrite_brelse_log:
  "brelse i s = Inr s' \<Longrightarrow> f_log s' = f_log s"
  by (auto simp: brelse_def Let_def split: if_splits prod.splits)

lemma read_head_spec:
  assumes "bio_ok s" "v_held (view s) = {}" "card (v_pinned (view s)) < NBUF"
    and l: "lg_dev (f_log s) = 1" "lg_start (f_log s) < f_disksize s"
    and n: "0 \<le> sint (get32 (cont s (lg_start (f_log s))) 0)" "head_n (cont s (lg_start (f_log s))) \<le> LOGSIZE"
  shows "\<exists>s'. read_head s = Inr s' \<and> bio_ok s' \<and> (\<exists>r. view s' = (view s)\<lparr>v_rest := r\<rparr>)
    \<and> f_disksize s' = f_disksize s
    \<and> lg_dev (f_log s') = 1 \<and> lg_start (f_log s') = lg_start (f_log s)
    \<and> lh_n (f_log s') = int (head_n (cont s (lg_start (f_log s))))
    \<and> (\<forall>i<head_n (cont s (lg_start (f_log s))). lh_block (f_log s') i = head_block (cont s (lg_start (f_log s))) i)"
proof -
  let ?b = "lg_start (f_log s)" and ?m = "cont s (lg_start (f_log s))"
  have p: "?b < fst (snd (v_rest (view s)))" "?b \<notin> v_held (view s)"
    "?b \<in> v_pinned (view s) \<or> card (v_pinned (view s) \<union> v_held (view s)) < NBUF"
    using assms by simp_all
  obtain i s1 where r: "bread 1 ?b s = Inr (i, s1)" "bio_ok s1" "holds s1 i ?b"
      "b_data (f_bufs s1 i) = ?m" "view s1 = (view s)\<lparr>v_held := insert ?b (v_held (view s))\<rparr>"
    using bc.rd_fresh [OF assms(1) p] by (metis view_sel(1))
  let ?d = "b_data (f_bufs s1 i)"
  define u where "u = upd_log (\<lambda>l. l\<lparr>lh_n := sint (get32 ?d 0),
      lh_block := \<lambda>i. if i < nat (sint (get32 ?d 0)) then get32 ?d (4 + 4 * i) else lh_block l i\<rparr>) s1"
  have fr: "f_log s1 = f_log s" "f_disksize s1 = f_disksize s" using bread_frame [OF r(1)] by auto
  have "?b \<in> v_pinned (view u) \<or> cont u ?b = f_disk u ?b"
    using view_clean [OF assms(1), of ?b] assms(2) r(5) view_sel(1,2) [of s1] by (auto simp: u_def)
  then obtain s2 where s2: "brelse i u = Inr s2" "bio_ok s2" "view s2 = (view u)\<lparr>v_held := v_held (view u) - {?b}\<rparr>"
    using brelse_refines [of u i ?b] r(2,3) by (auto simp: u_def)
  have "sint (get32 ?d 0) \<le> int LOGSIZE" using n r(4) by (simp add: head_n_def)
  then have "read_head s = Inr s2"
    using r(1) s2(1) l(1) by (simp add: read_head_def Let_def u_def)
  moreover have "\<exists>r. view s2 = (view s)\<lparr>v_rest := r\<rparr>"
  proof
    show "view s2 = (view s)\<lparr>v_rest := v_rest (view s2)\<rparr>"
    using s2(3) r(5) assms(2) view_sel(1-3) [of s1] by (intro cview.equality) (auto simp: u_def)
  qed
  moreover have "f_log s2 = f_log u" by (rule bwrite_brelse_log [OF s2(1)])
  then have "lg_dev (f_log s2) = 1" "lg_start (f_log s2) = ?b" "lh_n (f_log s2) = int (head_n ?m)"
    "\<forall>i<head_n ?m. lh_block (f_log s2) i = head_block ?m i"
    using l fr n r(4) by (simp_all add: u_def head_n_def head_block_def)
  moreover have "f_disksize s2 = f_disksize s" using s2(3) view_restD(2) [of s2 u] fr by (simp add: u_def)
  ultimately show ?thesis
    using s2(2) by blast
qed

lemma initlog_spec:
  assumes d: "disk_ok (f_disksize s) st d"
  shows "\<exists>s'. initlog 1 (boot d s) = Inr s' \<and> bio_ok s' \<and> f_disk s' = apply_writes (replay st d) d
    \<and> cont s' = f_disk s' \<and> v_pinned (view s') = {} \<and> v_held (view s') = {}
    \<and> lh_n (f_log s') = 0 \<and> lg_start (f_log s') = st"
proof -
  note b = boot_ok [of d s]
  let ?n = "head_n (d st)"
  obtain s1 where s1: "readsb 1 (boot d s) = Inr (get_sb (d 1), s1)" "bio_ok s1" "view s1 = view (boot d s)"
    using readsb_spec [of "boot d s"] b d by (auto simp: disk_ok_def NBUF_def)
  let ?t = "upd_log (\<lambda>l. l\<lparr>lg_start := st, lg_size := sint (sb_nlog (get_sb (d 1))), lg_dev := 1\<rparr>) s1"
  have fs1: "f_disksize s1 = f_disksize s" "cont s1 = d" "f_disk s1 = d" "v_held (view s1) = {}" "v_pinned (view s1) = {}"
    using s1(3) b view_restD(2) [of s1 "boot d s"] view_sel(1,2) [of s1] view_sel(1,2) [of "boot d s"] by simp_all
  have "st < f_disksize s" using d by (simp add: disk_ok_def word_less_nat_alt)
  then have "bio_ok ?t" "v_held (view ?t) = {}" "card (v_pinned (view ?t)) < NBUF"
    "lg_dev (f_log ?t) = 1" "lg_start (f_log ?t) < f_disksize ?t"
    "0 \<le> sint (get32 (cont ?t (lg_start (f_log ?t))) 0)" "head_n (cont ?t (lg_start (f_log ?t))) \<le> LOGSIZE"
    using s1(2) fs1 d by (simp_all add: disk_ok_def NBUF_def)
  note rh = read_head_spec [OF this]
  have e: "cont ?t = d" "lg_start (f_log ?t) = st" "f_disksize ?t = f_disksize s" using fs1 by simp_all
  obtain s2 where s2: "read_head ?t = Inr s2" "bio_ok s2" "\<exists>r. view s2 = (view ?t)\<lparr>v_rest := r\<rparr>"
      "f_disksize s2 = f_disksize s" "lg_dev (f_log s2) = 1" "lg_start (f_log s2) = st" "lh_n (f_log s2) = int ?n"
      "\<forall>i<?n. lh_block (f_log s2) i = head_block (d st) i"
    using rh unfolding e by blast
  have v2: "cont s2 = d" "f_disk s2 = d" "v_held (view s2) = {}" "v_pinned (view s2) = {}"
  proof -
    obtain r where r: "view s2 = (view ?t)\<lparr>v_rest := r\<rparr>" using s2(3) ..
    show "cont s2 = d" "f_disk s2 = d" "v_held (view s2) = {}" "v_pinned (view s2) = {}"
      using arg_cong [OF r, of v_cont] arg_cong [OF r, of v_disk] arg_cong [OF r, of v_held]
        arg_cong [OF r, of v_pinned] fs1 by simp_all
  qed
  have lg: "logged s2 = map (head_block (d st)) [0..<?n]" using s2(7,8) by simp
  have h: "home_ok s2 ?n"
    using s2 v2 d lg unfolding home_ok_def layout_ok_def disk_ok_def lg
    by (auto simp: NBUF_def log_area_def area_def)
  obtain s3 where s3: "install_trans s2 = Inr s3" "bio_ok s3" "view s3 = advance (installs s2 ?n) (view s2)"
    using install_trans_spec [OF h] by blast
  note h3 = home_okD [OF home_ok_advance [OF h s3(2,3)]]
  have l3: "f_log s3 = f_log s2" using s3(3) view_restD [of s3 s2] by simp
  have i3: "installs s2 ?n = map (\<lambda>t. (head_block (d st) t, d (st + of_nat t + 1))) [0..<?n]"
    using s2(6,8) v2 by (simp add: installs_def)
  have "st \<notin> fst ` set (installs s2 ?n)"
    using d start_in_area [of "f_log s2"] s2(6) by (auto simp: i3 disk_ok_def area_def log_area_def)
  then have c3: "cont s3 st = d st"
    using arg_cong [OF s3(3), of v_cont] v2 by (simp add: apply_writes_other)
  let ?z = "upd_log (\<lambda>l. l\<lparr>lh_n := 0\<rparr>) s3"
  have "layout_ok ?z" using h3(2) by (simp add: layout_ok_def)
  then obtain s4 where s4: "write_head ?z = Inr s4" "bio_ok s4"
      "view s4 = advance [(st, put_head 0 (lh_block (f_log s2)) (d st))] (view ?z)"
    using write_head_spec [of ?z] h3 l3 c3 s2(6) by auto
  have rp: "replay st d = installs s2 ?n @ [(st, put_head 0 (lh_block (f_log s2)) (d st))]"
    by (simp add: replay_def i3 put_head_def)
  have "initlog 1 (boot d s) = Inr s4"
    using s1 s2(1) s3(1) s4(1) d by (simp add: initlog_def recover_from_log_def BSIZE_def LOGSIZE_def disk_ok_def)
  moreover have "f_disk s4 = apply_writes (replay st d) d"
    using arg_cong [OF s4(3), of v_disk] arg_cong [OF s3(3), of v_disk] v2 by (simp add: rp)
  moreover have "cont s4 = apply_writes (replay st d) d"
    using arg_cong [OF s4(3), of v_cont] arg_cong [OF s3(3), of v_cont] v2 by (simp add: rp)
  moreover have "v_pinned (view s4) = {}" "v_held (view s4) = {}" using s4(3) s3(3) v2 by simp_all
  moreover have "f_log s4 = f_log ?z" using s4(3) view_restD(1) [of s4 ?z] by simp
  ultimately show ?thesis using s4(2) l3 s2(6) by simp
qed


subsection \<open>Stopping in the middle of a commit\<close>

lemma sint_of_nat_32: "n < 2 ^ 31 \<Longrightarrow> sint (of_nat n :: u32) = int n"
  by (simp add: signed_of_nat signed_take_bit_int_eq_self)

lemma apply_writes_fun:
  "apply_writes (map (\<lambda>x. (x, F x)) xs) d b = (if b \<in> set xs then F b else d b)"
  by (induction xs arbitrary: d) auto

lemma head_put_head:
  "n \<le> LOGSIZE \<Longrightarrow> head_n (put_head n blk m) = n"
  "n \<le> LOGSIZE \<Longrightarrow> 0 \<le> sint (get32 (put_head n blk m) 0)"
  "t < n \<Longrightarrow> head_block (put_head n blk m) t = blk t"
  by (simp_all add: head_n_def head_block_def get_put_head_n get_put_head_block sint_of_nat_32 LOGSIZE_def)

text \<open>
  The state in which a commit starts: nothing is held, the log invariant holds, the header on
  the disk is clear, and the super block says where the log is.
\<close>

definition commit_ready :: "fsys \<Rightarrow> bool" where
  "commit_ready s \<longleftrightarrow> log_ok s \<and> v_held (view s) = {} \<and> 1 < f_disksize s
     \<and> sb_logstart (get_sb (f_disk s 1)) = lg_start (f_log s)
     \<and> 1 \<notin> log_area (f_log s) \<and> 1 \<notin> set (logged s) \<and> get32 (f_disk s (lg_start (f_log s))) 0 = 0"

lemma commit_ready_home:
  assumes "commit_ready s"
  shows "home_ok s (nat (lh_n (f_log s)))"
proof -
  have "log_ok s" using assms by (simp add: commit_ready_def)
  moreover have "card (set (logged s)) \<le> nat (lh_n (f_log s))"
    using card_length [of "logged s"] by simp
  ultimately show ?thesis
    using assms by (auto simp: home_ok_def log_ok_def commit_ready_def LOGSIZE_def NBUF_def)
qed

lemma commit_ready_cont:
  assumes "commit_ready s" and "b \<notin> set (logged s)"
  shows "cont s b = f_disk s b"
  using assms by (intro view_clean) (auto simp: commit_ready_def log_ok_def)

text \<open>What the disk holds when the machine stops after \<open>k\<close> writes of the commit.\<close>

lemma stopped_disk:
  assumes c: "commit_ready s" and n: "lh_n (f_log s) = int n" and k: "k \<le> 2 * n + 2"
    and d: "d = apply_writes (take k (commit_writes s n)) (f_disk s)"
  defines "st \<equiv> lg_start (f_log s)"
  shows "d 1 = f_disk s 1"
    and "b \<notin> log_area (f_log s) \<Longrightarrow> d b = (if b \<in> set (take (k - Suc n) (logged s)) then cont s b else f_disk s b)"
    and "k \<le> n \<or> k = 2 * n + 2 \<Longrightarrow> get32 (d st) 0 = 0"
    and "n < k \<Longrightarrow> k \<le> 2 * n + 1 \<Longrightarrow> d st = put_head n (lh_block (f_log s)) (cont s st)
      \<and> (\<forall>t<n. d (st + of_nat t + 1) = cont s (lh_block (f_log s) t))"
proof -
  let ?h = "put_head n (lh_block (f_log s)) (cont s st)"
  let ?homes = "map (\<lambda>x. (x, cont s x)) (logged s)"
  have home: "home_ok s n" using commit_ready_home [OF c] n by simp
  note h = home_okD [OF home]
  have lc: "length (log_copies s n) = n" "length (logged s) = n" by (simp_all add: log_copies_def n)
  have w: "commit_writes s n = log_copies s n @ [(st, ?h)] @ ?homes @ [(st, put_head 0 (lh_block (f_log s)) ?h)]"
    by (simp add: commit_writes_def Let_def st_def n comp_def)
  let ?j = "k - Suc n"
  define z where "z = (if k = 2 * n + 2 then [(st, put_head 0 (lh_block (f_log s)) ?h)] else [])"
  have cut: "take k (commit_writes s n) = (if k \<le> n then take k (log_copies s n)
      else log_copies s n @ [(st, ?h)] @ map (\<lambda>x. (x, cont s x)) (take ?j (logged s)) @ z)"
  proof (cases "k \<le> n")
    case True
    then show ?thesis by (simp add: w lc)
  next
    case False
    then have "take k (commit_writes s n) = log_copies s n @ [(st, ?h)] @ take ?j ?homes
        @ take (?j - n) [(st, put_head 0 (lh_block (f_log s)) ?h)]"
      by (simp add: w lc n take_Cons' Suc_diff_Suc)
    moreover have "take (?j - n) [(st, put_head 0 (lh_block (f_log s)) ?h)] = z"
      using k False by (auto simp: z_def take_Cons')
    ultimately show ?thesis using False by (simp add: take_map)
  qed
  have sta: "st \<in> log_area (f_log s)" using start_in_area by (simp add: st_def)
  have la: "fst ` set (take i (log_copies s n)) \<subseteq> log_area (f_log s)" for i
    using log_copies_area [OF h(5), of s] set_take_subset [of i "log_copies s n"] by blast
  have copies: "apply_writes (take i (log_copies s n)) e b = e b" if "b \<notin> log_area (f_log s)" for i e b
    using that la [of i] by (intro apply_writes_other) blast
  show out: "d b = (if b \<in> set (take ?j (logged s)) then cont s b else f_disk s b)"
    if b: "b \<notin> log_area (f_log s)" for b
  proof -
    have "b \<noteq> st" using b sta by blast
    then show ?thesis
      using b copies [of b k] copies [of b n] lc
      by (simp add: d cut z_def apply_writes_fun del: map_map list.map_comp)
  qed
  have "1 \<notin> log_area (f_log s)" "1 \<notin> set (logged s)" using c by (simp_all add: commit_ready_def)
  then show "d 1 = f_disk s 1" using out [of 1] by (auto dest: in_set_takeD)
  have stc: "st \<notin> fst ` set (take i (log_copies s n))" for i
  proof
    assume "st \<in> fst ` set (take i (log_copies s n))"
    then have "st \<in> fst ` set (log_copies s n)" using set_take_subset [of i "log_copies s n"] by blast
    then show False using start_not_slot [OF h(2)] h(5) by (force simp: log_copies_def st_def)
  qed
  have sth: "st \<notin> set (logged s)" using h(10) sta n by auto
  have "get32 (f_disk s st) 0 = 0" using c by (simp add: commit_ready_def st_def)
  then show "get32 (d st) 0 = 0" if "k \<le> n \<or> k = 2 * n + 2"
    using that stc by (auto simp: d cut z_def apply_writes_other get_put_head_n)
  show "d st = ?h \<and> (\<forall>t<n. d (st + of_nat t + 1) = cont s (lh_block (f_log s) t))"
    if a: "n < k" "k \<le> 2 * n + 1"
  proof -
    have "z = []" "\<not> k \<le> n" using a by (simp_all add: z_def)
    moreover have "st \<notin> set (take ?j (logged s))" using sth by (meson in_set_takeD)
    ultimately have "d st = ?h" by (simp add: d cut apply_writes_fun)
    moreover have "d (st + of_nat t + 1) = cont s (lh_block (f_log s) t)" if "t < n" for t
    proof -
      have "st + of_nat t + 1 \<notin> set (logged s)" using h(10) h(12) [OF that] n by (auto simp: st_def)
      then have "st + of_nat t + 1 \<notin> set (take ?j (logged s))" by (meson in_set_takeD)
      moreover have "st + of_nat t + 1 \<noteq> st"
        using start_not_slot [OF h(2), of t] that h(5) by (simp add: st_def)
      ultimately show ?thesis
        using \<open>z = []\<close> \<open>\<not> k \<le> n\<close> log_copies_slot [OF home that]
        by (simp add: d cut apply_writes_fun st_def)
    qed
    ultimately show ?thesis by blast
  qed
qed

lemma stopped_disk_ok:
  assumes c: "commit_ready s" and n: "lh_n (f_log s) = int n" and k: "k \<le> 2 * n + 2"
    and d: "d = apply_writes (take k (commit_writes s n)) (f_disk s)"
  shows "disk_ok (f_disksize s) (lg_start (f_log s)) d"
    and "b \<notin> log_area (f_log s) \<Longrightarrow> apply_writes (replay (lg_start (f_log s)) d) d b =
      (if k \<le> n then f_disk s b else cont s b)"
proof -
  let ?st = "lg_start (f_log s)"
  have home: "home_ok s n" using commit_ready_home [OF c] n by simp
  note h = home_okD [OF home] and D = stopped_disk [OF c n k d]
  have ar: "area ?st = log_area (f_log s)" by (simp add: area_def log_area_def)
  have base: "sb_logstart (get_sb (d 1)) = ?st" "1 < f_disksize s" "unat ?st + LOGSIZE \<le> unat (f_disksize s)"
    using c h(2) D(1) by (simp_all add: commit_ready_def layout_ok_def)
  have ll: "length (logged s) = n" by (simp add: n)
  have "disk_ok (f_disksize s) ?st d \<and> (b \<notin> log_area (f_log s) \<longrightarrow>
      apply_writes (replay ?st d) d b = (if k \<le> n then f_disk s b else cont s b))" for b
  proof (cases "k \<le> n \<or> k = 2 * n + 2")
    case True
    then have z: "get32 (d ?st) 0 = 0" by (rule D(3))
    then have hn: "head_n (d ?st) = 0" by (simp add: head_n_def)
    have "disk_ok (f_disksize s) ?st d" using base z hn by (simp add: disk_ok_def LOGSIZE_def)
    moreover have "apply_writes (replay ?st d) d b = (if k \<le> n then f_disk s b else cont s b)"
      if b: "b \<notin> log_area (f_log s)"
    proof -
      have "b \<noteq> ?st" using b start_in_area by blast
      then have "apply_writes (replay ?st d) d b = d b" by (simp add: replay_def hn)
      moreover have "take (k - Suc n) (logged s) = (if k \<le> n then [] else logged s)"
        using True ll by auto
      ultimately show ?thesis using D(2) [OF b] commit_ready_cont [OF c, of b] by (simp split: if_splits)
    qed
    ultimately show ?thesis by blast
  next
    case False
    then have k': "n < k" "k \<le> 2 * n + 1" using k by simp_all
    note H = D(4) [OF k']
    have hn: "head_n (d ?st) = n" "0 \<le> sint (get32 (d ?st) 0)"
      using H head_put_head(1,2) [OF less_imp_le [OF h(5)]] by simp_all
    have hb: "map (head_block (d ?st)) [0..<n] = logged s"
      using H head_put_head(3) [of _ n] by (simp add: n)
    have "disk_ok (f_disksize s) ?st d"
      using base hn hb h(5,6,9,10) H head_put_head(3) [of _ n] by (simp add: disk_ok_def ar)
    moreover have "map (\<lambda>t. (head_block (d ?st) t, d (?st + of_nat t + 1))) [0..<n] =
        map (\<lambda>x. (x, cont s x)) (logged s)"
      using H head_put_head(3) [of _ n] by (simp add: n)
    then have "replay ?st d = map (\<lambda>x. (x, cont s x)) (logged s) @ [(?st, put_head 0 (head_block (d ?st)) (d ?st))]"
      by (simp add: replay_def hn)
    then have "apply_writes (replay ?st d) d b = cont s b" if b: "b \<notin> log_area (f_log s)"
    proof -
      have "b \<noteq> ?st" using b start_in_area by blast
      then show ?thesis
        using \<open>replay ?st d = _\<close> D(2) [OF b] commit_ready_cont [OF c, of b]
        by (auto simp: apply_writes_fun dest: in_set_takeD simp del: map_map)
    qed
    ultimately show ?thesis using k' by simp
  qed
  then show "disk_ok (f_disksize s) ?st d" and "b \<notin> log_area (f_log s) \<Longrightarrow>
      apply_writes (replay ?st d) d b = (if k \<le> n then f_disk s b else cont s b)" by blast+
qed

text \<open>
  C1: A crash after any number k of the disk writes of commit leaves a disk from which
  initlog recovers every block outside the log either entirely as before the commit (the
  header not yet written) or entirely with the logged contents (the header written).
\<close>

lemma commit_crash_atomic:
  assumes c: "commit_ready s" and n: "lh_n (f_log s) = int n" "0 < n" and k: "k \<le> 2 * n + 2"
  shows "\<exists>s' ws r. commit s = Inr s' \<and> f_writes s' = f_writes s @ ws \<and> length ws = 2 * n + 2
    \<and> initlog 1 (boot (apply_writes (take k ws) (f_disk s)) s) = Inr r
    \<and> (\<forall>b. b \<notin> log_area (f_log s) \<longrightarrow> f_disk r b = (if k \<le> n then f_disk s b else cont s b))"
proof -
  have home: "home_ok s n" using commit_ready_home [OF c] n by simp
  obtain s' q where s': "commit s = Inr s'" "view s' = (advance (commit_writes s n) (view s))\<lparr>v_rest := q\<rparr>"
    using commit_spec [OF home n(2)] by blast
  let ?ws = "commit_writes s n" and ?d = "apply_writes (take k (commit_writes s n)) (f_disk s)"
  note S = stopped_disk_ok [OF c n(1) k refl]
  obtain r where r: "initlog 1 (boot ?d s) = Inr r" "f_disk r = apply_writes (replay (lg_start (f_log s)) ?d) ?d"
    using initlog_spec [OF S(1)] by blast
  have "f_writes s' = f_writes s @ ?ws" using arg_cong [OF s'(2), of v_writes] by simp
  moreover have "length ?ws = 2 * n + 2" by (simp add: commit_writes_def Let_def log_copies_def)
  ultimately show ?thesis using s'(1) r S(2) by metis
qed

end
