(* ===== verification/Txn.thy ===== *)
theory Txn
  imports Log_Crash
begin

text \<open>
  What the file system sees between \<open>begin_op\<close> and \<open>end_op\<close>: the logical content of every block
  (\<open>cont\<close>, the cached version or the disk's), the buffers it holds, and the promise that it can
  log \<open>k\<close> more blocks. \<open>txn k\<close> is that state of affairs, the locale \<open>transaction\<close> the contract,
  interpreted by the buffer cache and \<open>log_write\<close>.
\<close>

text \<open>What an operation under the log leaves alone: everything but the cache and the list of logged blocks.\<close>

definition frest :: "fsys \<Rightarrow> _" where
  "frest s = (f_pid s, f_disk s, f_disksize s, f_writes s, (f_log s)\<lparr>lh_n := 0, lh_block := \<lambda>_. 0\<rparr>,
     f_sb s, f_icache s, f_devread s, f_devwrite s)"

definition txn :: "nat \<Rightarrow> fsys \<Rightarrow> bool" where
  "txn k s \<longleftrightarrow> log_ok s \<and> 0 < lg_outstanding (f_log s) \<and> int LOGSIZE \<le> lg_size (f_log s)
     \<and> lh_n (f_log s) + int k \<le> 25
     \<and> (\<forall>b. b \<in> v_pinned (view s) \<or> cont s b = f_disk s b)"

lemma log_okD:
  assumes "log_ok s"
  shows "bio_ok s" "layout_ok s" "0 \<le> lh_n (f_log s)" "lh_n (f_log s) + 2 \<le> int NBUF"
    "distinct (logged s)" "v_pinned (view s) = set (logged s)"
    "b \<in> set (logged s) \<Longrightarrow> b < f_disksize s \<and> b \<notin> log_area (f_log s)"
  using assms by (auto simp: log_ok_def)

lemma txnD:
  assumes "txn k s"
  shows "log_ok s" "bio_ok s" "layout_ok s" "0 < lg_outstanding (f_log s)" "int LOGSIZE \<le> lg_size (f_log s)"
    "lh_n (f_log s) + int k \<le> 25" "b \<in> v_pinned (view s) \<or> cont s b = f_disk s b"
    "card (v_pinned (view s)) \<le> 25"
proof -
  show l: "log_ok s" and "0 < lg_outstanding (f_log s)" "int LOGSIZE \<le> lg_size (f_log s)"
    "lh_n (f_log s) + int k \<le> 25" "b \<in> v_pinned (view s) \<or> cont s b = f_disk s b"
    using assms by (auto simp: txn_def)
  show "bio_ok s" "layout_ok s" using log_okD [OF l] by auto
  have "card (v_pinned (view s)) \<le> length (logged s)"
    unfolding log_okD(6) [OF l] by (rule card_length)
  then show "card (v_pinned (view s)) \<le> 25"
    using \<open>lh_n (f_log s) + int k \<le> 25\<close> by simp
qed

lemma txn_mono: "txn k s \<Longrightarrow> j \<le> k \<Longrightarrow> txn j s"
  by (auto simp: txn_def)

lemma frest_view:
  assumes "view s' = (view s)\<lparr>v_held := h\<rparr>"
  shows "frest s' = frest s" "f_log s' = f_log s" "cont s' = cont s" "v_pinned (view s') = v_pinned (view s)"
    "f_disk s' = f_disk s" "f_disksize s' = f_disksize s"
proof -
  have "v_cont (view s') = v_cont (view s)" "v_disk (view s') = v_disk (view s)"
    "v_writes (view s') = v_writes (view s)" "v_rest (view s') = v_rest (view s)"
    "v_pinned (view s') = v_pinned (view s)"
    using assms by simp_all
  then show "frest s' = frest s" "f_log s' = f_log s" "cont s' = cont s"
    "v_pinned (view s') = v_pinned (view s)" "f_disk s' = f_disk s" "f_disksize s' = f_disksize s"
    by (simp_all add: frest_def)
qed

lemma txn_held:
  assumes "txn k s" and "bio_ok s'" and v: "view s' = (view s)\<lparr>v_held := h\<rparr>"
  shows "txn k s'"
  using assms(1,2) unfolding txn_def log_ok_def layout_ok_def frest_view [OF v] by blast


subsection \<open>Logging a block\<close>

lemma log_add_list:
  assumes "0 \<le> lh_n l" and "distinct (map (lh_block l) [0..<nat (lh_n l)])"
  shows "distinct (map (lh_block (log_add b l)) [0..<nat (lh_n (log_add b l))])"
    and "set (map (lh_block (log_add b l)) [0..<nat (lh_n (log_add b l))])
      = insert b (set (map (lh_block l) [0..<nat (lh_n l)]))"
    and "0 \<le> lh_n (log_add b l)" "lh_n (log_add b l) \<le> lh_n l + 1"
proof -
  let ?n = "nat (lh_n l)" and ?l = "log_add b l"
  have "distinct (map (lh_block ?l) [0..<nat (lh_n ?l)])
    \<and> set (map (lh_block ?l) [0..<nat (lh_n ?l)]) = insert b (set (map (lh_block l) [0..<?n]))
    \<and> 0 \<le> lh_n ?l \<and> lh_n ?l \<le> lh_n l + 1"
  proof (cases "first_index (\<lambda>i. lh_block l i = b) ?n")
    case None
    then have n: "b \<notin> set (map (lh_block l) [0..<?n])" by auto
    have l: "lh_n ?l = lh_n l + 1" "lh_block ?l = (lh_block l)(?n := b)"
      unfolding log_add_def Let_def None by simp_all
    have "map (lh_block ?l) [0..<nat (lh_n ?l)] = map (lh_block l) [0..<?n] @ [b]"
      using assms(1) by (simp add: l nat_add_distrib)
    then show ?thesis using n assms l by auto
  next
    case (Some i)
    then have i: "i < ?n" "lh_block l i = b" by (auto dest: first_index_SomeD)
    then have "(lh_block l)(i := b) = lh_block l" by (rule_tac fun_upd_idem)
    then have "?l = l" using i(1) unfolding log_add_def Let_def Some by simp
    then show ?thesis using assms i by auto
  qed
  then show "distinct (map (lh_block ?l) [0..<nat (lh_n ?l)])"
    "set (map (lh_block ?l) [0..<nat (lh_n ?l)]) = insert b (set (map (lh_block l) [0..<?n]))"
    "0 \<le> lh_n ?l" "lh_n ?l \<le> lh_n l + 1" by blast+
qed

lemma log_add_frame [simp]:
  "lg_start (log_add b l) = lg_start l" "lg_size (log_add b l) = lg_size l"
  "lg_outstanding (log_add b l) = lg_outstanding l" "lg_committing (log_add b l) = lg_committing l"
  "lg_dev (log_add b l) = lg_dev l"
  "(log_add b l)\<lparr>lh_n := m, lh_block := f\<rparr> = l\<lparr>lh_n := m, lh_block := f\<rparr>"
  by (simp_all add: log_add_def Let_def split: option.splits)

lemma log_area_add [simp]: "log_area (log_add b l) = log_area l"
  by (simp add: log_area_def)

lemma txn_log:
  assumes t: "txn (Suc k) s" and h: "holds s i b" and b: "b \<notin> log_area (f_log s)"
  shows "\<exists>s'. log_write i (bstore i g s) = Inr s' \<and> txn k s' \<and> holds s' = holds s
    \<and> cont s' = (cont s)(b := g (cont s b)) \<and> frest s' = frest s"
proof -
  note T = txnD [OF t]
  let ?s1 = "bstore i g s" and ?l = "log_add b (f_log s)"
  have s1: "bio_ok ?s1" "holds ?s1 = holds s"
    "view ?s1 = (view s)\<lparr>v_cont := (cont s)(b := g (cont s b))\<rparr>"
    using bc.st_law [OF T(2) h, of g] by simp_all
  let ?s2 = "?s1\<lparr>f_log := ?l\<rparr>"
  have bn: "b_blockno (f_bufs ?s1 i) = b" "f_log ?s1 = f_log s"
    using holdsD(3) [OF T(2) h] by (simp_all add: bstore_def)
  have lw: "log_write i ?s1 = Inr (bpin i ?s2)"
    using T(4,5,6) bn by (simp add: log_write_def LOGSIZE_def)
  have s2: "bio_ok ?s2" "holds ?s2 i b" using s1 h by simp_all
  note P = bpin_refines [OF s2]
  let ?s3 = "bpin i ?s2"
  have "cont ?s3 = cont ?s2" using arg_cong [OF P(3), of v_cont] by simp
  then have c: "cont ?s3 = (cont s)(b := g (cont s b))" using arg_cong [OF s1(3), of v_cont] by simp
  have "v_pinned (view ?s1) = v_pinned (view s)" using s1(3) by simp
  then have v: "v_pinned (view ?s3) = insert b (v_pinned (view s))"
    "f_disk ?s3 = f_disk s" "f_log ?s3 = ?l" "f_disksize ?s3 = f_disksize s"
    using P(3) by (simp_all add: bpin_def bstore_def)
  have bd: "b < f_disksize s" using holdsD(7) [OF T(2) h] .
  note L = log_okD [OF T(1)] and A = log_add_list [OF log_okD(3,5) [OF T(1)], of b]
  have "layout_ok ?s3" using L(2) by (simp add: layout_ok_def v)
  moreover have "lh_n ?l + 2 \<le> int NBUF" using A(4) T(6) by (simp add: NBUF_def)
  ultimately have "log_ok ?s3"
    unfolding log_ok_def v using P(1) A L(6,7) b bd by auto
  moreover have "lh_n ?l + int k \<le> 25" using A(4) T(6) by simp
  moreover have "x \<in> v_pinned (view ?s3) \<or> cont ?s3 x = f_disk ?s3 x" for x
    using T(7) [of x] by (auto simp: v c)
  ultimately have "txn k ?s3" using T(4,5) by (simp add: txn_def v)
  moreover have "frest ?s3 = frest s" by (simp add: frest_def bpin_def bstore_def)
  ultimately show ?thesis using lw c P(2) s1(2) by simp
qed


subsection \<open>The contract\<close>

locale transaction =
  fixes tx :: "nat \<Rightarrow> 's \<Rightarrow> bool"
    and hold :: "'s \<Rightarrow> nat \<Rightarrow> u32 \<Rightarrow> bool"
    and con :: "'s \<Rightarrow> u32 \<Rightarrow> mem"
    and rest :: "'s \<Rightarrow> 'r"
    and rd :: "u32 \<Rightarrow> 's \<Rightarrow> (nat \<times> 's) res"
    and lg :: "nat \<Rightarrow> (mem \<Rightarrow> mem) \<Rightarrow> 's \<Rightarrow> 's res"
    and rel :: "nat \<Rightarrow> 's \<Rightarrow> 's res"
    and dat :: "'s \<Rightarrow> nat \<Rightarrow> mem"
    and home :: "'r \<Rightarrow> u32 \<Rightarrow> bool"
    and usable :: "'r \<Rightarrow> u32 \<Rightarrow> bool"
    and spare :: nat
  assumes rd_tx: "tx k s \<Longrightarrow> usable (rest s) b \<Longrightarrow> \<forall>i. \<not> hold s i b \<Longrightarrow> card {x. \<exists>i. hold s i x} \<le> spare \<Longrightarrow>
      \<exists>i s'. rd b s = Inr (i, s') \<and> tx k s' \<and> (\<forall>x. \<not> hold s i x)
        \<and> hold s' = (\<lambda>j x. hold s j x \<or> j = i \<and> x = b) \<and> con s' = con s \<and> rest s' = rest s"
    and lg_tx: "tx (Suc k) s \<Longrightarrow> hold s i b \<Longrightarrow> home (rest s) b \<Longrightarrow>
      \<exists>s'. lg i g s = Inr s' \<and> tx k s' \<and> hold s' = hold s
        \<and> con s' = (con s)(b := g (con s b)) \<and> rest s' = rest s"
    and rel_tx: "tx k s \<Longrightarrow> hold s i b \<Longrightarrow>
      \<exists>s'. rel i s = Inr s' \<and> tx k s' \<and> hold s' = (\<lambda>j x. hold s j x \<and> j \<noteq> i)
        \<and> con s' = con s \<and> rest s' = rest s"
    and dat_tx: "tx k s \<Longrightarrow> hold s i b \<Longrightarrow> dat s i = con s b"
    and home_usable: "home r b \<Longrightarrow> usable r b"
begin

lemma held_one:
  assumes "rd b s = Inr (i, s1)" "tx k s" "tx k s1" "hold s1 = (\<lambda>j x. hold s j x \<or> j = i \<and> x = b)"
    "\<forall>x. \<not> hold s i x" "rel i t = Inr u" "hold t = hold s1" "hold u = (\<lambda>j x. hold t j x \<and> j \<noteq> i)"
  shows "hold u = hold s"
  using assms by (auto simp: fun_eq_iff)

text \<open>Reading a block and giving it back.\<close>

lemma read_one:
  assumes t: "tx k s" and b: "usable (rest s) b" "\<forall>i. \<not> hold s i b" "card {x. \<exists>i. hold s i x} \<le> spare"
  obtains i s1 s2 where "rd b s = Inr (i, s1)" "dat s1 i = con s b" "rel i s1 = Inr s2" "tx k s2"
    "hold s2 = hold s" "con s2 = con s" "rest s2 = rest s" "rest s1 = rest s"
proof -
  obtain i s1 where r: "rd b s = Inr (i, s1)" "tx k s1" "\<forall>x. \<not> hold s i x"
      "hold s1 = (\<lambda>j x. hold s j x \<or> j = i \<and> x = b)" "con s1 = con s" "rest s1 = rest s"
    using rd_tx [OF t b] by blast
  then have h: "hold s1 i b" by simp
  obtain s2 where s2: "rel i s1 = Inr s2" "tx k s2" "hold s2 = (\<lambda>j x. hold s1 j x \<and> j \<noteq> i)"
      "con s2 = con s1" "rest s2 = rest s1"
    using rel_tx [OF r(2) h] by blast
  show thesis
  proof (rule that)
    show "rd b s = Inr (i, s1)" "rel i s1 = Inr s2" "tx k s2" "rest s1 = rest s" by (fact r s2)+
    show "dat s1 i = con s b" using dat_tx [OF r(2) h] r by simp
    show "hold s2 = hold s" by (rule held_one [OF r(1) t r(2,4,3) s2(1) refl s2(3)])
    show "con s2 = con s" "rest s2 = rest s" using r s2 by simp_all
  qed
qed

text \<open>Changing a block: read, store, log, give back.\<close>

lemma log_one:
  assumes t: "tx (Suc k) s" and b: "home (rest s) b" "\<forall>i. \<not> hold s i b" "card {x. \<exists>i. hold s i x} \<le> spare"
  obtains i s1 s2 s3 where "rd b s = Inr (i, s1)" "dat s1 i = con s b" "rest s1 = rest s"
    "lg i g s1 = Inr s2" "rest s2 = rest s" "rel i s2 = Inr s3" "tx k s3"
    "hold s3 = hold s" "con s3 = (con s)(b := g (con s b))" "rest s3 = rest s"
proof -
  obtain i s1 where r: "rd b s = Inr (i, s1)" "tx (Suc k) s1" "\<forall>x. \<not> hold s i x"
      "hold s1 = (\<lambda>j x. hold s j x \<or> j = i \<and> x = b)" "con s1 = con s" "rest s1 = rest s"
    using rd_tx [OF t home_usable [OF b(1)] b(2,3)] by blast
  then have h: "hold s1 i b" by simp
  have hm: "home (rest s1) b" using b(1) r(6) by simp
  obtain s2 where s2: "lg i g s1 = Inr s2" "tx k s2" "hold s2 = hold s1"
      "con s2 = (con s1)(b := g (con s1 b))" "rest s2 = rest s1"
    using lg_tx [OF r(2) h hm] by blast
  have h2: "hold s2 i b" using s2(3) h by simp
  obtain s3 where s3: "rel i s2 = Inr s3" "tx k s3" "hold s3 = (\<lambda>j x. hold s2 j x \<and> j \<noteq> i)"
      "con s3 = con s2" "rest s3 = rest s2"
    using rel_tx [OF s2(2) h2] by blast
  show thesis
  proof (rule that)
    show "rd b s = Inr (i, s1)" "lg i g s1 = Inr s2" "rel i s2 = Inr s3" "tx k s3" "rest s1 = rest s"
      by (fact r s2 s3)+
    show "dat s1 i = con s b" using dat_tx [OF r(2) h] r by simp
    show "hold s3 = hold s" using s2(3) s3(3) r(3,4) by (auto simp: fun_eq_iff)
    show "con s3 = (con s)(b := g (con s b))" "rest s3 = rest s" "rest s2 = rest s" using r s2 s3 by simp_all
  qed
qed

end

text \<open>\<open>frest\<close> holds the size of the disk and the place of the log, all that the two conditions need.\<close>

definition on_disk :: "_ \<Rightarrow> u32 \<Rightarrow> bool" where
  "on_disk = (\<lambda>(pid, disk, dsz, ws, l, r) b. b < dsz)"

definition home_blk :: "_ \<Rightarrow> u32 \<Rightarrow> bool" where
  "home_blk = (\<lambda>(pid, disk, dsz, ws, l, r) b. b < dsz \<and> b \<notin> log_area l)"

lemma on_disk_frest [simp]: "on_disk (frest s) b \<longleftrightarrow> b < f_disksize s"
  by (simp add: on_disk_def frest_def)

lemma home_blk_frest [simp]: "home_blk (frest s) b \<longleftrightarrow> b < f_disksize s \<and> b \<notin> log_area (f_log s)"
  by (simp add: home_blk_def frest_def log_area_def)

interpretation tx: transaction txn holds cont frest "bread 1" "\<lambda>i g s. log_write i (bstore i g s)" brelse
  "\<lambda>s i. b_data (f_bufs s i)" home_blk on_disk 3
proof
  fix k s b
  assume t: "txn k s" and b: "on_disk (frest s) b" "\<forall>i. \<not> holds s i b" "card {x. \<exists>i. holds s i x} \<le> 3"
  note T = txnD [OF t]
  have held: "v_held (view s) = {x. \<exists>i. holds s i x}" by (simp add: view_def)
  have nh: "b \<notin> v_held (view s)" using b(2) by (simp add: held)
  have "card (v_pinned (view s) \<union> v_held (view s)) \<le> 25 + 3"
    using card_Un_le [of "v_pinned (view s)" "v_held (view s)"] T(8) b(3) by (simp add: held)
  then have room: "b \<in> v_pinned (view s) \<or> card (v_pinned (view s) \<union> v_held (view s)) < NBUF"
    by (simp add: NBUF_def)
  have d: "b < fst (snd (v_rest (view s)))" using b(1) by simp
  obtain i s' where r: "bread 1 b s = Inr (i, s')" "bio_ok s'" "holds s' i b"
      "b_data (f_bufs s' i) = v_cont (view s) b" "view s' = (view s)\<lparr>v_held := insert b (v_held (view s))\<rparr>"
      "\<forall>j x. holds s' j x \<longleftrightarrow> holds s j x \<or> j = i \<and> x = b" "\<forall>x. \<not> holds s i x"
    by (rule bc.rd_fresh [OF T(2) d nh room])
  have "holds s' = (\<lambda>j x. holds s j x \<or> j = i \<and> x = b)" using r(6) by (simp add: fun_eq_iff)
  then show "\<exists>i s'. bread 1 b s = Inr (i, s') \<and> txn k s' \<and> (\<forall>x. \<not> holds s i x)
      \<and> holds s' = (\<lambda>j x. holds s j x \<or> j = i \<and> x = b) \<and> cont s' = cont s \<and> frest s' = frest s"
    using r(1,7) txn_held [OF t r(2,5)] frest_view [OF r(5)] by blast
next
  fix k s i b g
  assume "txn (Suc k) s" "holds s i b" "home_blk (frest s) b"
  then show "\<exists>s'. log_write i (bstore i g s) = Inr s' \<and> txn k s' \<and> holds s' = holds s
      \<and> cont s' = (cont s)(b := g (cont s b)) \<and> frest s' = frest s"
    by (intro txn_log) simp_all
next
  fix k s i b
  assume t: "txn k s" and h: "holds s i b"
  note T = txnD [OF t]
  have "b \<in> v_pinned (view s) \<or> v_cont (view s) b = v_disk (view s) b" using T(7) by simp
  from bc.rel_law [OF T(2) h this] obtain s' where r: "brelse i s = Inr s'" "bio_ok s'"
      "\<forall>j x. holds s' j x \<longleftrightarrow> holds s j x \<and> j \<noteq> i" "view s' = (view s)\<lparr>v_held := v_held (view s) - {b}\<rparr>"
    by blast
  have "holds s' = (\<lambda>j x. holds s j x \<and> j \<noteq> i)" using r(3) by (simp add: fun_eq_iff)
  then show "\<exists>s'. brelse i s = Inr s' \<and> txn k s' \<and> holds s' = (\<lambda>j x. holds s j x \<and> j \<noteq> i)
      \<and> cont s' = cont s \<and> frest s' = frest s"
    using r(1) txn_held [OF t r(2,4)] frest_view [OF r(4)] by blast
next
  fix k s i b
  assume "txn k s" "holds s i b"
  then show "b_data (f_bufs s i) = cont s b" using bc.dat_law txnD(2) by fastforce
next
  fix r b
  assume "home_blk r b"
  then show "on_disk r b" by (auto simp: home_blk_def on_disk_def split: prod.splits)
qed

lemma frestD:
  assumes "frest s' = frest s"
  shows "f_sb s' = f_sb s" "f_icache s' = f_icache s" "f_disksize s' = f_disksize s" "f_pid s' = f_pid s"
    "f_disk s' = f_disk s" "f_writes s' = f_writes s" "log_area (f_log s') = log_area (f_log s)"
    "f_devread s' = f_devread s" "f_devwrite s' = f_devwrite s"
proof -
  have "(f_log s')\<lparr>lh_n := 0, lh_block := \<lambda>_. 0\<rparr> = (f_log s)\<lparr>lh_n := 0, lh_block := \<lambda>_. 0\<rparr>"
    using assms by (simp add: frest_def)
  from arg_cong [OF this, of lg_start] show "log_area (f_log s') = log_area (f_log s)"
    by (simp add: log_area_def)
qed (use assms in \<open>simp_all add: frest_def\<close>)

end
