(* ===== verification/Cstring.thy ===== *)
theory Cstring
  imports Bytes
begin

text \<open>
  string.c. The functions that move memory work on one flat memory with addresses, because
  their areas may overlap; the functions that read C strings take the view of a string through
  its pointer, \<open>p i\<close> for \<open>p[i]\<close>, and \<open>p++\<close> is \<open>adv p\<close>.
\<close>

abbreviation adv :: "mem \<Rightarrow> mem" where
  "adv p \<equiv> (\<lambda>i. p (Suc i))"


subsection \<open>Memory\<close>

text \<open>x86.h: \<open>stosb\<close> and \<open>stosl\<close> store \<open>cnt\<close> bytes, or words, upwards.\<close>

fun stosb :: "nat \<Rightarrow> u8 \<Rightarrow> nat \<Rightarrow> mem \<Rightarrow> mem" where
  "stosb a c 0 m = m"
| "stosb a c (Suc n) m = stosb (a + 1) c n (m(a := c))"

fun stosl :: "nat \<Rightarrow> u32 \<Rightarrow> nat \<Rightarrow> mem \<Rightarrow> mem" where
  "stosl a w 0 m = m"
| "stosl a w (Suc n) m = stosl (a + 4) w n (put32 a w m)"

definition memset :: "nat \<Rightarrow> u32 \<Rightarrow> nat \<Rightarrow> mem \<Rightarrow> mem" where
  "memset dst c n m =
     (if dst mod 4 = 0 \<and> n mod 4 = 0 then
        let c = c AND 0xFF
        in stosl dst (push_bit 24 c OR push_bit 16 c OR push_bit 8 c OR c) (n div 4) m
      else stosb dst (ucast c) n m)"

fun memcmp :: "mem \<Rightarrow> mem \<Rightarrow> nat \<Rightarrow> int" where
  "memcmp s1 s2 0 = 0"
| "memcmp s1 s2 (Suc n) = (if s1 0 \<noteq> s2 0 then uint (s1 0) - uint (s2 0) else memcmp (adv s1) (adv s2) n)"

fun copy_down :: "nat \<Rightarrow> nat \<Rightarrow> nat \<Rightarrow> mem \<Rightarrow> mem" where
  "copy_down d s 0 m = m"
| "copy_down d s (Suc n) m = copy_down (d - 1) (s - 1) n (m(d - 1 := m (s - 1)))"

fun copy_up :: "nat \<Rightarrow> nat \<Rightarrow> nat \<Rightarrow> mem \<Rightarrow> mem" where
  "copy_up d s 0 m = m"
| "copy_up d s (Suc n) m = copy_up (d + 1) (s + 1) n (m(d := m s))"

definition memmove :: "nat \<Rightarrow> nat \<Rightarrow> nat \<Rightarrow> mem \<Rightarrow> mem" where
  "memmove dst src n m =
     (if src < dst \<and> src + n > dst then copy_down (dst + n) (src + n) n m else copy_up dst src n m)"

definition memcpy :: "nat \<Rightarrow> nat \<Rightarrow> nat \<Rightarrow> mem \<Rightarrow> mem" where
  "memcpy dst src n m = memmove dst src n m"


subsection \<open>Strings\<close>

fun strncmp :: "mem \<Rightarrow> mem \<Rightarrow> nat \<Rightarrow> int" where
  "strncmp p q 0 = 0"
| "strncmp p q (Suc n) =
     (if p 0 \<noteq> 0 \<and> p 0 = q 0 then strncmp (adv p) (adv q) n else uint (p 0) - uint (q 0))"

text \<open>\<open>strncpy_loop k i\<close> is the first loop with \<open>k\<close> bytes left and both pointers advanced by \<open>i\<close>.\<close>

fun strncpy_pad :: "nat \<Rightarrow> nat \<Rightarrow> mem \<Rightarrow> mem" where
  "strncpy_pad 0 i s = s"
| "strncpy_pad (Suc k) i s = strncpy_pad k (i + 1) (s(i := 0))"

fun strncpy_loop :: "nat \<Rightarrow> nat \<Rightarrow> mem \<Rightarrow> mem \<Rightarrow> mem" where
  "strncpy_loop 0 i s t = s"
| "strncpy_loop (Suc k) i s t =
     (if t i \<noteq> 0 then strncpy_loop k (i + 1) (s(i := t i)) t
      else strncpy_pad k (i + 1) (s(i := t i)))"

definition strncpy :: "mem \<Rightarrow> mem \<Rightarrow> int \<Rightarrow> mem" where
  "strncpy s t n = strncpy_loop (nat n) 0 s t"

fun safestrcpy_loop :: "nat \<Rightarrow> nat \<Rightarrow> mem \<Rightarrow> mem \<Rightarrow> mem" where
  "safestrcpy_loop 0 i s t = s(i := 0)"
| "safestrcpy_loop (Suc k) i s t =
     (if t i \<noteq> 0 then safestrcpy_loop k (i + 1) (s(i := t i)) t
      else s(i := t i, i + 1 := 0))"

definition safestrcpy :: "mem \<Rightarrow> mem \<Rightarrow> int \<Rightarrow> mem" where
  "safestrcpy s t n = (if n \<le> 0 then s else safestrcpy_loop (nat (n - 1)) 0 s t)"

text \<open>\<open>strlen\<close> of an unterminated string does not return.\<close>

partial_function (option) strlen_from :: "mem \<Rightarrow> nat \<Rightarrow> nat option" where
  "strlen_from s n = (if s n \<noteq> 0 then strlen_from s (n + 1) else Some n)"

definition strlen :: "mem \<Rightarrow> nat option" where
  "strlen s = strlen_from s 0"


subsection \<open>What they compute\<close>

lemma stosb_mset: "stosb a c n m = mset a c n m"
proof (rule ext)
  show "stosb a c n m x = mset a c n m x" for x
    by (induction n arbitrary: a m) (auto simp: mset_def)
qed

lemma stosl_mset:
  assumes "w = push_bit 24 (ucast (c :: u8)) OR push_bit 16 (ucast c) OR push_bit 8 (ucast c) OR ucast c"
  shows "stosl a w n m = mset a c (4 * n) m"
proof -
  have b: "ucast w = c" "ucast (drop_bit 8 w) = c" "ucast (drop_bit 16 w) = c" "ucast (drop_bit 24 w) = c"
    unfolding assms by (rule bit_eqI; auto simp: bit_simps dest: bit_imp_le_length)+
  show ?thesis
    by (induction n arbitrary: a m) (auto simp: mset_def put32_def b fun_eq_iff)
qed

lemma memset_eq: "memset dst c n m = mset dst (ucast c) n m"
proof -
  have "ucast (ucast c :: u8) = c AND 0xFF"
  proof -
    have "c AND 0xFF = take_bit 8 c" by (simp add: take_bit_eq_mask mask_eq_exp_minus_1)
    then show ?thesis by (intro bit_eqI) (auto simp: bit_simps)
  qed
  then show ?thesis
    by (auto simp: memset_def Let_def stosb_mset intro!: trans [OF stosl_mset [where c = "ucast c"]])
qed

text \<open>Overlapping or not, \<open>memmove\<close> copies the old content of the source.\<close>

lemma copy_up_eq:
  "d \<le> s \<or> s + n \<le> d \<Longrightarrow> copy_up d s n m i = (if d \<le> i \<and> i < d + n then m (s + (i - d)) else m i)"
proof (induction n arbitrary: d s m)
  case (Suc n)
  have IH: "copy_up (d + 1) (s + 1) n (m(d := m s)) i =
      (if d + 1 \<le> i \<and> i < d + 1 + n then (m(d := m s)) (s + 1 + (i - (d + 1))) else (m(d := m s)) i)"
    using Suc.prems by (intro Suc.IH) auto
  consider "i \<le> d" | "d < i" "i < d + Suc n" | "d + Suc n \<le> i" by linarith
  then show ?case
  proof cases
    case 2
    then have "s + 1 + (i - (d + 1)) = s + (i - d)" "s + (i - d) \<noteq> d"
      using Suc.prems by auto
    then show ?thesis using 2 IH by simp
  qed (use IH in auto)
qed auto

lemma copy_down_eq:
  "s \<le> d \<Longrightarrow> n \<le> s \<Longrightarrow> copy_down d s n m i = (if d - n \<le> i \<and> i < d then m (s - n + (i - (d - n))) else m i)"
proof (induction n arbitrary: d s m)
  case (Suc n)
  have IH: "copy_down (d - 1) (s - 1) n (m(d - 1 := m (s - 1))) i =
      (if d - 1 - n \<le> i \<and> i < d - 1 then (m(d - 1 := m (s - 1))) (s - 1 - n + (i - (d - 1 - n)))
       else (m(d - 1 := m (s - 1))) i)"
    using Suc.prems by (intro Suc.IH) auto
  have e: "d - 1 - n = d - Suc n" "s - 1 - n = s - Suc n" by auto
  consider "i < d - Suc n" | "d - Suc n \<le> i" "i < d - 1" | "i = d - 1" | "d \<le> i"
    by linarith
  then show ?case
  proof cases
    case 2
    then have "s - Suc n + (i - (d - Suc n)) \<noteq> d - 1" using Suc.prems by linarith
    then show ?thesis using 2 IH e by simp
  next
    case 3
    then have "s - Suc n + (i - (d - Suc n)) = s - 1" "d - Suc n \<le> i" "i < d" using Suc.prems by linarith+
    then show ?thesis using 3 IH by simp
  qed (use Suc.prems IH e in auto)
qed auto

lemma memmove_eq: "memmove dst src n m = mcopy m src dst n m"
  by (auto simp: memmove_def mcopy_def copy_up_eq copy_down_eq fun_eq_iff)

lemma strncmp_0: "strncmp p q n = 0 \<longleftrightarrow>
  (\<forall>i<n. p i = q i \<or> (\<exists>j<i. p j = 0 \<and> q j = 0))"
proof (induction p q n rule: strncmp.induct)
  case (2 p q n)
  show ?case
  proof (cases "p 0 \<noteq> 0 \<and> p 0 = q 0")
    case True
    then have q: "q 0 \<noteq> 0" by metis
    with True have "(\<forall>i<Suc n. p i = q i \<or> (\<exists>j<i. p j = 0 \<and> q j = 0)) \<longleftrightarrow>
        (\<forall>i<n. adv p i = adv q i \<or> (\<exists>j<i. adv p j = 0 \<and> adv q j = 0))"
      by (auto simp: All_less_Suc2 Ex_less_Suc2)
    then show ?thesis using 2 True q by simp
  next
    case False
    then show ?thesis
      by (auto simp: All_less_Suc2 Ex_less_Suc2 unsigned_eq_0_iff word_uint_eq_iff [symmetric])
  qed
qed simp

lemma strncpy_pad_eq: "strncpy_pad k i s j = (if i \<le> j \<and> j < i + k then 0 else s j)"
  by (induction k arbitrary: i s) auto

lemma strncpy_loop_eq:
  "strncpy_loop k i s t j = (if i \<le> j \<and> j < i + k then (if \<exists>l. i \<le> l \<and> l < j \<and> t l = 0 then 0 else t j) else s j)"
proof (induction k arbitrary: i s)
  case (Suc k)
  show ?case
  proof (cases "t i = 0")
    case True
    then show ?thesis by (auto simp: strncpy_pad_eq)
  next
    case False
    have "(\<exists>l. i + 1 \<le> l \<and> l < j \<and> t l = 0) \<longleftrightarrow> (\<exists>l. i \<le> l \<and> l < j \<and> t l = 0)"
      using False by (metis Suc_eq_plus1 Suc_leI le_neq_implies_less less_imp_le_nat Suc_le_lessD)
    then show ?thesis using False by (auto simp: Suc.IH)
  qed
qed auto

lemma strlen_from_Some: "s (n + k) = 0 \<Longrightarrow> \<forall>j<k. s (n + j) \<noteq> 0 \<Longrightarrow> strlen_from s n = Some (n + k)"
proof (induction k arbitrary: n)
  case 0
  then show ?case by (simp add: strlen_from.simps [of s n])
next
  case (Suc k)
  have "strlen_from s (Suc n) = Some (Suc n + k)"
    using Suc.prems by (intro Suc.IH) auto
  then show ?case using Suc.prems by (auto simp: strlen_from.simps [of s n])
qed

end
