(* ===== verification/Fs.thy ===== *)
theory Fs
  imports Log_Crash Cstring
begin

text \<open>
  fs.c: the block allocator, inodes and their cache, the content of an inode with its direct,
  single, doubly and triple indirect blocks, directories and path names. An inode pointer is
  the index of its entry in \<open>icache\<close>. A byte area handed in by a caller is a \<open>mem\<close>; bytes
  handed back are a list.
\<close>

subsection \<open>Blocks\<close>

definition bzero :: "u32 \<Rightarrow> u32 \<Rightarrow> fsys \<Rightarrow> fsys res" where
  "bzero dev bno s =
     bind_res (bread dev bno s) (\<lambda>(bp, s).
     let s = bstore bp (mset 0 0 BSIZE) s in
     bind_res (log_write bp s) (\<lambda>s.
     brelse bp s))"

definition BBLOCK :: "u32 \<Rightarrow> superblock \<Rightarrow> u32" where
  "BBLOCK b sb = b div of_nat BPB + sb_bmapstart sb"

definition IBLOCK :: "u32 \<Rightarrow> superblock \<Rightarrow> u32" where
  "IBLOCK i sb = i div of_nat IPB + sb_inodestart sb"

definition bit_mask :: "nat \<Rightarrow> u8" where
  "bit_mask bi = push_bit (bi mod 8) 1"

definition bit_set :: "mem \<Rightarrow> nat \<Rightarrow> bool" where
  "bit_set m bi \<longleftrightarrow> m (bi div 8) AND bit_mask bi \<noteq> 0"

text \<open>The outer loop of \<open>balloc\<close> visits the multiples of \<open>BPB\<close> below \<open>sb.size\<close>.\<close>

definition bmap_starts :: "superblock \<Rightarrow> nat list" where
  "bmap_starts sb = map (\<lambda>k. k * BPB) [0..<(unat (sb_size sb) + BPB - 1) div BPB]"

fun balloc_loop :: "u32 \<Rightarrow> nat list \<Rightarrow> fsys \<Rightarrow> (u32 \<times> fsys) res" where
  "balloc_loop dev [] s = Inl (Panic ''balloc: out of blocks'')"
| "balloc_loop dev (b # bs) s =
     bind_res (bread dev (BBLOCK (of_nat b) (f_sb s)) s) (\<lambda>(bp, s).
     case first_index (\<lambda>bi. b + bi < unat (sb_size (f_sb s)) \<and> \<not> bit_set (b_data (f_bufs s bp)) bi) BPB of
       Some bi \<Rightarrow>
         let s = bstore bp (\<lambda>m. m(bi div 8 := m (bi div 8) OR bit_mask bi)) s in
         bind_res (log_write bp s) (\<lambda>s.
         bind_res (brelse bp s) (\<lambda>s.
         bind_res (bzero dev (of_nat (b + bi)) s) (\<lambda>s.
         Inr (of_nat (b + bi), s))))
     | None \<Rightarrow>
         bind_res (brelse bp s) (\<lambda>s.
         balloc_loop dev bs s))"

definition balloc :: "u32 \<Rightarrow> fsys \<Rightarrow> (u32 \<times> fsys) res" where
  "balloc dev s = balloc_loop dev (bmap_starts (f_sb s)) s"

definition bfree :: "u32 \<Rightarrow> u32 \<Rightarrow> fsys \<Rightarrow> fsys res" where
  "bfree dev b s =
     bind_res (bread dev (BBLOCK b (f_sb s)) s) (\<lambda>(bp, s).
     let bi = unat b mod BPB in
     if \<not> bit_set (b_data (f_bufs s bp)) bi then Inl (Panic ''freeing free block'')
     else
       let s = bstore bp (\<lambda>m. m(bi div 8 := m (bi div 8) AND NOT (bit_mask bi))) s in
       bind_res (log_write bp s) (\<lambda>s.
       brelse bp s))"


subsection \<open>The disk inode\<close>

text \<open>A \<open>struct dinode\<close> is 64 bytes: four shorts, the size and 13 block addresses.\<close>

definition dinode_off :: "u32 \<Rightarrow> nat" where
  "dinode_off inum = (unat inum mod IPB) * 64"

definition put_dinode :: "inode \<Rightarrow> nat \<Rightarrow> mem \<Rightarrow> mem" where
  "put_dinode ip a m =
     fold (\<lambda>k. put32 (a + 12 + 4 * k) (i_addrs ip k)) [0..<NDIRECT + 3]
       (put32 (a + 8) (i_size ip)
         (put16 (a + 6) (i_nlink ip)
           (put16 (a + 4) (i_minor ip)
             (put16 (a + 2) (i_major ip)
               (put16 a (i_type ip) m)))))"

definition get_dinode :: "nat \<Rightarrow> mem \<Rightarrow> inode \<Rightarrow> inode" where
  "get_dinode a m ip =
     ip\<lparr>i_type := get16 m a, i_major := get16 m (a + 2), i_minor := get16 m (a + 4),
        i_nlink := get16 m (a + 6), i_size := get32 m (a + 8),
        i_addrs := \<lambda>k. if k < NDIRECT + 3 then get32 m (a + 12 + 4 * k) else i_addrs ip k\<rparr>"


subsection \<open>Inodes\<close>

definition iinit :: "u32 \<Rightarrow> fsys \<Rightarrow> fsys res" where
  "iinit dev s =
     (let s = s\<lparr>f_icache := \<lambda>i. if i < NINODE then (f_icache s i)\<lparr>i_lock := initsleeplock\<rparr>
                              else f_icache s i\<rparr>
      in bind_res (readsb dev s) (\<lambda>(sb, s). Inr (s\<lparr>f_sb := sb\<rparr>)))"

definition iget :: "u32 \<Rightarrow> u32 \<Rightarrow> fsys \<Rightarrow> (nat \<times> fsys) res" where
  "iget dev inum s =
     (case first_index (\<lambda>i. i_ref (f_icache s i) > 0 \<and> i_dev (f_icache s i) = dev
                            \<and> i_inum (f_icache s i) = inum) NINODE of
        Some i \<Rightarrow> Inr (i, upd_inode i (\<lambda>ip. ip\<lparr>i_ref := i_ref ip + 1\<rparr>) s)
      | None \<Rightarrow>
          (case first_index (\<lambda>i. i_ref (f_icache s i) = 0) NINODE of
             None \<Rightarrow> Inl (Panic ''iget: no inodes'')
           | Some i \<Rightarrow> Inr (i, upd_inode i (\<lambda>ip. ip\<lparr>i_dev := dev, i_inum := inum, i_ref := 1,
                                                    i_valid := False\<rparr>) s)))"

fun ialloc_loop :: "u32 \<Rightarrow> u16 \<Rightarrow> nat list \<Rightarrow> fsys \<Rightarrow> (nat \<times> fsys) res" where
  "ialloc_loop dev type [] s = Inl (Panic ''ialloc: no inodes'')"
| "ialloc_loop dev type (inum # is) s =
     bind_res (bread dev (IBLOCK (of_nat inum) (f_sb s)) s) (\<lambda>(bp, s).
     let a = dinode_off (of_nat inum) in
     if get16 (b_data (f_bufs s bp)) a = 0 then
       let s = bstore bp (\<lambda>m. put16 a type (mset a 0 64 m)) s in
       bind_res (log_write bp s) (\<lambda>s.
       bind_res (brelse bp s) (\<lambda>s.
       iget dev (of_nat inum) s))
     else
       bind_res (brelse bp s) (\<lambda>s.
       ialloc_loop dev type is s))"

definition ialloc :: "u32 \<Rightarrow> u16 \<Rightarrow> fsys \<Rightarrow> (nat \<times> fsys) res" where
  "ialloc dev type s = ialloc_loop dev type [1..<unat (sb_ninodes (f_sb s))] s"

definition iupdate :: "nat \<Rightarrow> fsys \<Rightarrow> fsys res" where
  "iupdate i s =
     (let ip = f_icache s i in
      bind_res (bread (i_dev ip) (IBLOCK (i_inum ip) (f_sb s)) s) (\<lambda>(bp, s).
      let s = bstore bp (put_dinode ip (dinode_off (i_inum ip))) s in
      bind_res (log_write bp s) (\<lambda>s.
      brelse bp s)))"

definition idup :: "nat \<Rightarrow> fsys \<Rightarrow> nat \<times> fsys" where
  "idup i s = (i, upd_inode i (\<lambda>ip. ip\<lparr>i_ref := i_ref ip + 1\<rparr>) s)"

definition ilock :: "nat \<Rightarrow> fsys \<Rightarrow> fsys res" where
  "ilock i s =
     (if i_ref (f_icache s i) < 1 then Inl (Panic ''ilock'')
      else bind_res (acquiresleep (ChInode i) (f_pid s) (i_lock (f_icache s i))) (\<lambda>lk.
        let s = upd_inode i (\<lambda>ip. ip\<lparr>i_lock := lk\<rparr>) s; ip = f_icache s i in
        if i_valid ip then Inr s
        else bind_res (bread (i_dev ip) (IBLOCK (i_inum ip) (f_sb s)) s) (\<lambda>(bp, s).
          let m = b_data (f_bufs s bp);
              s = upd_inode i (get_dinode (dinode_off (i_inum ip)) m) s
          in bind_res (brelse bp s) (\<lambda>s.
             let s = upd_inode i (\<lambda>ip. ip\<lparr>i_valid := True\<rparr>) s in
             if i_type (f_icache s i) = 0 then Inl (Panic ''ilock: no type'') else Inr s))))"

definition iunlock :: "nat \<Rightarrow> fsys \<Rightarrow> fsys res" where
  "iunlock i s =
     (if \<not> holdingsleep (f_pid s) (i_lock (f_icache s i)) \<or> i_ref (f_icache s i) < 1
      then Inl (Panic ''iunlock'')
      else Inr (fwake (ChInode i) (upd_inode i (\<lambda>ip. ip\<lparr>i_lock := releasesleep (i_lock ip)\<rparr>) s)))"

end
