(* ===== verification/Alloc.thy ===== *)
theory Alloc
  imports Txn Fs
begin

text \<open>
  The block allocator and the inode writer of fs.c, refined to the logical content of the disk
  inside a transaction: \<open>balloc\<close> takes the least free block of the bitmap and clears it, \<open>bfree\<close>
  gives one back, \<open>iupdate\<close> writes an inode that \<open>ilock\<close> reads back.
\<close>

subsection \<open>The bitmap\<close>

definition bused :: "fsys \<Rightarrow> u32 \<Rightarrow> bool" where
  "bused s b \<longleftrightarrow> bit_set (cont s (BBLOCK b (f_sb s))) (unat b mod BPB)"

definition bit_on :: "nat \<Rightarrow> mem \<Rightarrow> mem" where
  "bit_on bi m = m(bi div 8 := m (bi div 8) OR bit_mask bi)"

definition bit_off :: "nat \<Rightarrow> mem \<Rightarrow> mem" where
  "bit_off bi m = m(bi div 8 := m (bi div 8) AND NOT (bit_mask bi))"

text \<open>
  The bitmap lies on the disk outside the log, and the blocks of the log and of the bitmap are
  marked as used.
\<close>

definition layout :: "fsys \<Rightarrow> bool" where
  "layout s \<longleftrightarrow>
     (let sb = f_sb s in
      sb_size sb \<le> f_disksize s
      \<and> unat (sb_bmapstart sb) + unat (sb_size sb) div BPB < unat (f_disksize s)
      \<and> (\<forall>b< sb_size sb. BBLOCK b sb \<notin> log_area (f_log s))
      \<and> (\<forall>b< sb_size sb. BBLOCK b sb < sb_size sb \<longrightarrow> bused s (BBLOCK b sb))
      \<and> (\<forall>x\<in>log_area (f_log s). x < sb_size sb \<longrightarrow> bused s x))"

definition bitmap :: "fsys \<Rightarrow> u32 set" where
  "bitmap s = (\<lambda>b. BBLOCK b (f_sb s)) ` {b. b < sb_size (f_sb s)}"

lemma bit_set_bit: "bit_set m bi \<longleftrightarrow> bit (m (bi div 8)) (bi mod 8)"
  by (simp add: bit_set_def bit_mask_def push_bit_eq_mult and_exp_eq_0_iff_not_bit)

lemma bit_mask_bit: "bit (bit_mask bi) j \<longleftrightarrow> j = bi mod 8"
proof -
  have "bi mod 8 < 8" by simp
  then show ?thesis by (auto simp: bit_mask_def bit_push_bit_iff bit_1_iff push_bit_eq_mult bit_exp_iff)
qed

lemma div_mod_8_eq: "bi div 8 = bj div 8 \<Longrightarrow> bi mod 8 = bj mod 8 \<Longrightarrow> bi = (bj :: nat)"
  by (metis div_mult_mod_eq)

lemma bit_set_on [simp]: "bit_set (bit_on bi m) bj \<longleftrightarrow> bit_set m bj \<or> bj = bi"
  by (auto simp: bit_set_bit bit_on_def bit_or_iff bit_mask_bit dest: div_mod_8_eq)

lemma bit_set_off [simp]: "bit_set (bit_off bi m) bj \<longleftrightarrow> bit_set m bj \<and> bj \<noteq> bi"
proof -
  have "bj mod 8 < 8" by simp
  then show ?thesis
    by (auto simp: bit_set_bit bit_off_def bit_and_iff bit_not_iff bit_mask_bit dest: div_mod_8_eq)
qed

lemma unat_div_BPB: "unat (b div of_nat BPB :: u32) = unat b div BPB"
  by (simp add: unat_div_distrib BPB_def)

lemma BBLOCK_unat:
  assumes "layout s" and "unat b \<le> unat (sb_size (f_sb s))"
  shows "unat (BBLOCK b (f_sb s)) = unat b div BPB + unat (sb_bmapstart (f_sb s))"
proof -
  have "unat b div BPB \<le> unat (sb_size (f_sb s)) div BPB" using assms(2) by (rule div_le_mono)
  then have "unat b div BPB + unat (sb_bmapstart (f_sb s)) < 2 ^ 32"
    using assms(1) unat_less_32 [of "f_disksize s"] by (simp add: layout_def Let_def)
  then show ?thesis unfolding BBLOCK_def by (simp add: unat_add_32 unat_div_BPB)
qed

lemma BBLOCK_eq_iff:
  assumes "layout s" and "b < sb_size (f_sb s)" "c < sb_size (f_sb s)"
  shows "BBLOCK b (f_sb s) = BBLOCK c (f_sb s) \<longleftrightarrow> unat b div BPB = unat c div BPB"
proof -
  have "unat b \<le> unat (sb_size (f_sb s))" "unat c \<le> unat (sb_size (f_sb s))"
    using assms by (simp_all add: word_less_nat_alt)
  note u = BBLOCK_unat [OF assms(1) this(1)] BBLOCK_unat [OF assms(1) this(2)]
  have "BBLOCK b (f_sb s) = BBLOCK c (f_sb s) \<longleftrightarrow> unat (BBLOCK b (f_sb s)) = unat (BBLOCK c (f_sb s))"
    by (metis unsigned_word_eqI)
  then show ?thesis using u by simp
qed

lemma layoutD:
  assumes "layout s"
  shows "sb_size (f_sb s) \<le> f_disksize s"
    "b < sb_size (f_sb s) \<Longrightarrow> BBLOCK b (f_sb s) \<notin> log_area (f_log s)"
    "b < sb_size (f_sb s) \<Longrightarrow> BBLOCK b (f_sb s) < f_disksize s"
    "b < sb_size (f_sb s) \<Longrightarrow> BBLOCK b (f_sb s) < sb_size (f_sb s) \<Longrightarrow> bused s (BBLOCK b (f_sb s))"
    "x \<in> log_area (f_log s) \<Longrightarrow> x < sb_size (f_sb s) \<Longrightarrow> bused s x"
proof -
  show "BBLOCK b (f_sb s) < f_disksize s" if "b < sb_size (f_sb s)"
  proof -
    have "unat b \<le> unat (sb_size (f_sb s))" using that by (simp add: word_less_nat_alt)
    moreover from this have "unat b div BPB \<le> unat (sb_size (f_sb s)) div BPB" by (rule div_le_mono)
    ultimately show ?thesis
      using assms BBLOCK_unat [OF assms, of b] by (simp add: layout_def Let_def word_less_nat_alt)
  qed
qed (use assms in \<open>auto simp: layout_def Let_def\<close>)

text \<open>What flipping the bit of a block does to the map.\<close>

lemma bused_flip:
  assumes l: "layout s" and b: "b < sb_size (f_sb s)" and x: "x < sb_size (f_sb s)"
    and sb: "f_sb t = f_sb s"
    and c: "cont t = (cont s)(BBLOCK b (f_sb s) := g (cont s (BBLOCK b (f_sb s))), b := z)"
    and nb: "b \<notin> bitmap s"
  shows "bused t x \<longleftrightarrow> (if unat x div BPB = unat b div BPB
    then bit_set (g (cont s (BBLOCK b (f_sb s)))) (unat x mod BPB) else bused s x)"
proof -
  have "BBLOCK x (f_sb s) \<noteq> b" using nb x by (auto simp: bitmap_def)
  then show ?thesis using BBLOCK_eq_iff [OF l x b] by (auto simp: bused_def sb c)
qed

lemma same_bit: "unat x div BPB = unat b div BPB \<Longrightarrow> unat x mod BPB = unat b mod BPB \<longleftrightarrow> x = (b :: u32)"
  by (metis div_mult_mod_eq unsigned_word_eqI)


subsection \<open>bzero\<close>

lemma home_layout:
  "layout s \<Longrightarrow> b < sb_size (f_sb s) \<Longrightarrow> home_blk (frest s) (BBLOCK b (f_sb s))"
  using layoutD by simp

lemma bzero_spec:
  assumes "txn (Suc k) s" and "b < f_disksize s" "b \<notin> log_area (f_log s)"
    and "\<forall>i. \<not> holds s i b" "card {x. \<exists>i. holds s i x} \<le> 3"
  shows "\<exists>s'. bzero 1 b s = Inr s' \<and> txn k s' \<and> holds s' = holds s
    \<and> cont s' = (cont s)(b := mset 0 0 BSIZE (cont s b)) \<and> frest s' = frest s"
proof -
  have "home_blk (frest s) b" using assms(2,3) by simp
  then obtain i s1 s2 s3 where "bread 1 b s = Inr (i, s1)" "log_write i (bstore i (mset 0 0 BSIZE) s1) = Inr s2"
      "brelse i s2 = Inr s3" "txn k s3" "holds s3 = holds s"
      "cont s3 = (cont s)(b := mset 0 0 BSIZE (cont s b))" "frest s3 = frest s"
    by (rule tx.log_one [OF assms(1) _ assms(4,5), where g = "mset 0 0 BSIZE"])
  then show ?thesis by (simp add: bzero_def)
qed


subsection \<open>balloc\<close>

definition free_in :: "fsys \<Rightarrow> nat \<Rightarrow> nat \<Rightarrow> bool" where
  "free_in s b bi \<longleftrightarrow> b + bi < unat (sb_size (f_sb s)) \<and> \<not> bit_set (cont s (BBLOCK (of_nat b) (f_sb s))) bi"

lemma free_in_bused:
  assumes "layout s" and "b = j * BPB" "bi < BPB" "free_in s b bi"
  shows "of_nat (b + bi) < sb_size (f_sb s)" "\<not> bused s (of_nat (b + bi))" "unat (of_nat (b + bi) :: u32) = b + bi"
    "BBLOCK (of_nat (b + bi)) (f_sb s) = BBLOCK (of_nat b) (f_sb s)" "(b + bi) mod BPB = bi"
proof -
  have lt: "b + bi < unat (sb_size (f_sb s))" using assms(4) by (simp add: free_in_def)
  then have "b + bi < 2 ^ 32" using unat_less_32 [of "sb_size (f_sb s)"] by linarith
  then have u: "unat (of_nat (b + bi) :: u32) = b + bi" "unat (of_nat b :: u32) = b"
    by (intro unat_of_nat_32; simp)+
  have dv: "(b + bi) div BPB = b div BPB" "(b + bi) mod BPB = bi" using assms(2,3) by simp_all
  have sz: "(of_nat (b + bi) :: u32) < sb_size (f_sb s)" "(of_nat b :: u32) < sb_size (f_sb s)"
    unfolding word_less_nat_alt u using lt by simp_all
  show "BBLOCK (of_nat (b + bi)) (f_sb s) = BBLOCK (of_nat b) (f_sb s)"
    unfolding BBLOCK_eq_iff [OF assms(1) sz] u using dv(1) .
  then show "\<not> bused s (of_nat (b + bi))"
    unfolding bused_def u dv using assms(4) by (simp only: free_in_def) simp
  show "of_nat (b + bi) < sb_size (f_sb s)" "unat (of_nat (b + bi) :: u32) = b + bi" "(b + bi) mod BPB = bi"
    by (fact sz u dv)+
qed

lemma unused_free_in:
  assumes "layout s" and "x < sb_size (f_sb s)" and "\<not> bused s x"
  shows "free_in s (unat x div BPB * BPB) (unat x mod BPB)"
proof -
  let ?b = "unat x div BPB * BPB"
  have le: "?b + unat x mod BPB = unat x" by simp
  have "?b < 2 ^ 32" using unat_less_32 [of x] le by linarith
  then have u: "unat (of_nat ?b :: u32) = ?b" by (rule unat_of_nat_32)
  have "?b \<le> unat x" by simp
  then have "?b < unat (sb_size (f_sb s))" using assms(2) unfolding word_less_nat_alt by linarith
  then have sz: "(of_nat ?b :: u32) < sb_size (f_sb s)" unfolding word_less_nat_alt u .
  have "BBLOCK (of_nat ?b) (f_sb s) = BBLOCK x (f_sb s)"
    unfolding BBLOCK_eq_iff [OF assms(1) sz assms(2)] u by (simp add: BPB_def)
  then show ?thesis using assms(2,3) le by (simp add: free_in_def bused_def word_less_nat_alt)
qed


text \<open>One round of the outer loop, when the block of the bitmap has no free bit and when it has.\<close>

definition quiet :: "fsys \<Rightarrow> bool" where
  "quiet s \<longleftrightarrow> card {x. \<exists>i. holds s i x} \<le> 3
     \<and> (\<forall>i x. holds s i x \<longrightarrow> x \<notin> bitmap s \<and> (x < sb_size (f_sb s) \<longrightarrow> bused s x))"

lemma quietD:
  assumes "quiet s"
  shows "card {x. \<exists>i. holds s i x} \<le> 3" "holds s i x \<Longrightarrow> x \<notin> bitmap s"
    "holds s i x \<Longrightarrow> x < sb_size (f_sb s) \<Longrightarrow> bused s x"
  using assms by (auto simp: quiet_def)

lemma BBLOCK_not_held:
  "quiet s \<Longrightarrow> b < sb_size (f_sb s) \<Longrightarrow> \<forall>i. \<not> holds s i (BBLOCK b (f_sb s))"
  by (auto simp: bitmap_def dest: quietD(2))

declare balloc_loop.simps(2) [simp del]

lemma balloc_next:
  assumes t: "txn k s" and l: "layout s" and q: "quiet s"
    and b: "b < unat (sb_size (f_sb s))" and none: "\<forall>bi<BPB. \<not> free_in s b bi"
  shows "\<exists>s'. balloc_loop 1 (b # bs) s = balloc_loop 1 bs s' \<and> txn k s' \<and> holds s' = holds s
    \<and> cont s' = cont s \<and> frest s' = frest s"
proof -
  have sz: "(of_nat b :: u32) < sb_size (f_sb s)"
    using b unat_less_32 [of "sb_size (f_sb s)"] by (simp add: word_less_nat_alt unat_of_nat_32)
  have d: "on_disk (frest s) (BBLOCK (of_nat b) (f_sb s))" using layoutD(3) [OF l sz] by simp
  obtain i s1 s2 where r: "bread 1 (BBLOCK (of_nat b) (f_sb s)) s = Inr (i, s1)"
      "b_data (f_bufs s1 i) = cont s (BBLOCK (of_nat b) (f_sb s))" "brelse i s1 = Inr s2" "txn k s2"
      "holds s2 = holds s" "cont s2 = cont s" "frest s2 = frest s" "frest s1 = frest s"
    by (rule tx.read_one [OF t d BBLOCK_not_held [OF q sz] quietD(1) [OF q]])
  have "first_index (\<lambda>bi. b + bi < unat (sb_size (f_sb s1)) \<and> \<not> bit_set (b_data (f_bufs s1 i)) bi) BPB = None"
    using none r(2) frestD(1) [OF r(8)] by (auto simp: free_in_def)
  then have "balloc_loop 1 (b # bs) s = balloc_loop 1 bs s2"
    by (simp add: balloc_loop.simps(2) r(1,3) del: first_index_None)
  then show ?thesis using r by blast
qed

text \<open>What a client sees of \<open>balloc\<close> when it answers \<open>a\<close>.\<close>

definition balloc_out :: "nat \<Rightarrow> fsys \<Rightarrow> u32 \<Rightarrow> fsys \<Rightarrow> bool" where
  "balloc_out k s a s' \<longleftrightarrow> a < sb_size (f_sb s) \<and> \<not> bused s a
     \<and> (\<forall>y. y < sb_size (f_sb s) \<longrightarrow> \<not> bused s y \<longrightarrow> a \<le> y)
     \<and> txn k s' \<and> holds s' = holds s \<and> frest s' = frest s
     \<and> cont s' = (cont s)(BBLOCK a (f_sb s) := bit_on (unat a mod BPB) (cont s (BBLOCK a (f_sb s))),
                          a := mset 0 0 BSIZE (cont s a))"

lemma least_free:
  assumes l: "layout s" and b: "b = j * BPB" and some: "first_index (free_in s b) BPB = Some bi"
    and all: "\<forall>y. y < sb_size (f_sb s) \<longrightarrow> \<not> bused s y \<longrightarrow> b \<le> unat y div BPB * BPB"
    and y: "y < sb_size (f_sb s)" "\<not> bused s y"
  shows "of_nat (b + bi) \<le> y"
proof -
  have bi: "bi < BPB" "free_in s b bi" using some by (auto dest: first_index_SomeD)
  note F = free_in_bused [OF l b bi]
  let ?c = "unat y div BPB * BPB"
  have yc: "?c + unat y mod BPB = unat y" by simp
  have "b + bi \<le> unat y"
  proof (cases "?c = b")
    case True
    have "free_in s ?c (unat y mod BPB)" by (rule unused_free_in [OF l y])
    then have "\<not> unat y mod BPB < bi" using some unfolding True first_index_Some by blast
    then show ?thesis using yc True by linarith
  next
    case False
    have "b \<le> ?c" using all y by blast
    then have "j < unat y div BPB" using False b by (cases "j < unat y div BPB") (auto simp: BPB_def)
    then have "(j + 1) * BPB \<le> ?c" by (intro mult_le_mono1) simp
    then have "b + BPB \<le> ?c" by (simp add: b)
    then show ?thesis using bi(1) yc by linarith
  qed
  then show ?thesis unfolding word_le_nat_alt F(3) .
qed

lemma balloc_here:
  assumes t: "txn (Suc (Suc k)) s" and l: "layout s" and q: "quiet s" and b: "b = j * BPB"
    and some: "first_index (free_in s b) BPB = Some bi"
    and all: "\<forall>y. y < sb_size (f_sb s) \<longrightarrow> \<not> bused s y \<longrightarrow> b \<le> unat y div BPB * BPB"
  shows "\<exists>a s'. balloc_loop 1 (b # bs) s = Inr (a, s') \<and> balloc_out k s a s'"
proof -
  define a :: u32 where "a = of_nat (b + bi)"
  have bi: "bi < BPB" "free_in s b bi" using some by (auto dest: first_index_SomeD)
  note F = free_in_bused [OF l b bi, folded a_def]
  have m: "unat a mod BPB = bi" using F(3,5) by simp
  have nh: "\<forall>i. \<not> holds s i (BBLOCK a (f_sb s))" by (rule BBLOCK_not_held [OF q F(1)])
  obtain i s1 s2 s3 where r: "bread 1 (BBLOCK a (f_sb s)) s = Inr (i, s1)"
      "b_data (f_bufs s1 i) = cont s (BBLOCK a (f_sb s))" "frest s1 = frest s"
      "log_write i (bstore i (bit_on bi) s1) = Inr s2" "frest s2 = frest s" "brelse i s2 = Inr s3"
      "txn (Suc k) s3" "holds s3 = holds s"
      "cont s3 = (cont s)(BBLOCK a (f_sb s) := bit_on bi (cont s (BBLOCK a (f_sb s))))" "frest s3 = frest s"
    by (rule tx.log_one [OF t home_layout [OF l F(1)] nh quietD(1) [OF q], where g = "bit_on bi"])
  have "first_index (\<lambda>bi. b + bi < unat (sb_size (f_sb s1)) \<and> \<not> bit_set (b_data (f_bufs s1 i)) bi) BPB = Some bi"
    using some unfolding r(2) frestD(1) [OF r(3)] F(4) free_in_def .
  then have run: "balloc_loop 1 (b # bs) s = bind_res (bzero 1 a s3) (\<lambda>s. Inr (a, s))"
    using r F(4) by (simp add: balloc_loop.simps(2) bit_on_def [abs_def] a_def)
  have ne: "a \<noteq> BBLOCK a (f_sb s)" using layoutD(4) [OF l F(1)] F(1,2) by auto
  have "a < f_disksize s" using F(1) layoutD(1) [OF l] by simp
  moreover have "a \<notin> log_area (f_log s)" using layoutD(5) [OF l _ F(1)] F(2) by blast
  moreover have "\<forall>i. \<not> holds s i a" using quietD(3) [OF q _ F(1)] F(2) by blast
  ultimately obtain s4 where s4: "bzero 1 a s3 = Inr s4" "txn k s4" "holds s4 = holds s3"
      "cont s4 = (cont s3)(a := mset 0 0 BSIZE (cont s3 a))" "frest s4 = frest s3"
    using bzero_spec [OF r(7), of a] r(8) frestD(3,7) [OF r(10)] quietD(1) [OF q] by auto
  have "cont s4 = (cont s)(BBLOCK a (f_sb s) := bit_on (unat a mod BPB) (cont s (BBLOCK a (f_sb s))),
                           a := mset 0 0 BSIZE (cont s a))"
    unfolding s4(4) r(9) m using ne by simp
  moreover have "\<forall>y. y < sb_size (f_sb s) \<longrightarrow> \<not> bused s y \<longrightarrow> a \<le> y"
    using least_free [OF l b some all] unfolding a_def by blast
  ultimately have "balloc_out k s a s4"
    unfolding balloc_out_def using F(1,2) s4(2,3,5) r(8,10) by simp
  then show ?thesis using run s4(1) by auto
qed

text \<open>\<open>quiet\<close>, \<open>layout\<close> and \<open>free_in\<close> depend on what the client sees only.\<close>

lemma see_cong:
  assumes "holds s' = holds s" "cont s' = cont s" "frest s' = frest s"
  shows "quiet s' = quiet s" "layout s' = layout s" "free_in s' = free_in s" "bused s' = bused s"
    "bitmap s' = bitmap s"
proof -
  note F = frestD [OF assms(3)]
  show u: "bused s' = bused s" by (simp add: bused_def [abs_def] F assms(2))
  show b: "bitmap s' = bitmap s" by (simp add: bitmap_def F)
  show "quiet s' = quiet s" by (simp add: quiet_def F assms(1) u b)
  show "layout s' = layout s" by (simp add: layout_def F u)
  show "free_in s' = free_in s" by (simp add: free_in_def [abs_def] F assms(2))
qed

lemma balloc_out_cong:
  assumes "holds s' = holds s" "cont s' = cont s" "frest s' = frest s"
  shows "balloc_out k s' = balloc_out k s"
  by (simp add: balloc_out_def fun_eq_iff see_cong [OF assms] frestD [OF assms(3)] assms)

lemma balloc_loop_spec:
  assumes "txn (Suc (Suc k)) s" "layout s" "quiet s" and "x < sb_size (f_sb s)" "\<not> bused s x"
    and "\<forall>b\<in>set bs. b < unat (sb_size (f_sb s)) \<and> (\<exists>j. b = j * BPB)" and "sorted bs"
    and "\<forall>y. y < sb_size (f_sb s) \<longrightarrow> \<not> bused s y \<longrightarrow> unat y div BPB * BPB \<in> set bs"
  shows "\<exists>a s'. balloc_loop 1 bs s = Inr (a, s') \<and> balloc_out k s a s'"
  using assms
proof (induction bs arbitrary: s)
  case Nil
  then show ?case by simp
next
  case (Cons b bs)
  show ?case
  proof (cases "first_index (free_in s b) BPB")
    case (Some bi)
    obtain j where j: "b = j * BPB" using Cons.prems(6) by auto
    have "\<forall>y. y < sb_size (f_sb s) \<longrightarrow> \<not> bused s y \<longrightarrow> b \<le> unat y div BPB * BPB"
      using Cons.prems(7,8) by fastforce
    then show ?thesis by (rule balloc_here [OF Cons.prems(1-3) j Some])
  next
    case None
    then have none: "\<forall>bi<BPB. \<not> free_in s b bi" by simp
    have b: "b < unat (sb_size (f_sb s))" using Cons.prems(6) by simp
    obtain s1 where s1: "balloc_loop 1 (b # bs) s = balloc_loop 1 bs s1" "txn (Suc (Suc k)) s1"
        "holds s1 = holds s" "cont s1 = cont s" "frest s1 = frest s"
      using balloc_next [OF Cons.prems(1-3) b none, of bs] by blast
    note C = see_cong [OF s1(3-5)] and F = frestD(1) [OF s1(5)]
    have "unat y div BPB * BPB \<in> set bs" if "y < sb_size (f_sb s)" "\<not> bused s y" for y
    proof -
      have "free_in s (unat y div BPB * BPB) (unat y mod BPB)"
        by (rule unused_free_in [OF Cons.prems(2) that])
      moreover have "unat y mod BPB < BPB" by (simp add: BPB_def)
      ultimately have "unat y div BPB * BPB \<noteq> b" using none by blast
      then show ?thesis using Cons.prems(8) that by fastforce
    qed
    then show ?thesis
      using Cons.IH [OF s1(2)] Cons.prems(2-7) s1(1)
      unfolding C F balloc_out_cong [OF s1(3-5)] by auto
  qed
qed

lemma balloc_spec:
  assumes "txn (Suc (Suc k)) s" "layout s" "quiet s" and x: "x < sb_size (f_sb s)" "\<not> bused s x"
  shows "\<exists>a s'. balloc 1 s = Inr (a, s') \<and> balloc_out k s a s'"
  unfolding balloc_def
proof (rule balloc_loop_spec [OF assms])
  let ?n = "unat (sb_size (f_sb s))"
  have up: "i * BPB < ?n" if "i < (?n + BPB - 1) div BPB" for i
    using that by (simp add: BPB_def)
  then show "\<forall>b\<in>set (bmap_starts (f_sb s)). b < ?n \<and> (\<exists>j. b = j * BPB)"
    by (auto simp: bmap_starts_def)
  show "sorted (bmap_starts (f_sb s))"
    by (simp add: bmap_starts_def sorted_iff_nth_mono BPB_def)
  have "unat y div BPB < (?n + BPB - 1) div BPB" if "unat y < ?n" for y :: u32
    using that by (simp add: BPB_def)
  then show "\<forall>y. y < sb_size (f_sb s) \<longrightarrow> \<not> bused s y \<longrightarrow> unat y div BPB * BPB \<in> set (bmap_starts (f_sb s))"
    by (auto simp: bmap_starts_def word_less_nat_alt)
qed


text \<open>\<open>balloc\<close> marks the block it answers and no other.\<close>

lemma flip_one:
  assumes l: "layout s" and b: "b < sb_size (f_sb s)" and x: "x < sb_size (f_sb s)" and sb: "f_sb t = f_sb s"
    and c: "cont t = (cont s)(BBLOCK b (f_sb s) := g (cont s (BBLOCK b (f_sb s))), b := z)"
    and nb: "b \<notin> bitmap s"
    and g: "\<And>m i. bit_set (g m) i \<longleftrightarrow> (if i = unat b mod BPB then v else bit_set m i)"
  shows "bused t x \<longleftrightarrow> (if x = b then v else bused s x)"
proof -
  have "unat x div BPB = unat b div BPB \<Longrightarrow> bit_set (cont s (BBLOCK b (f_sb s))) (unat x mod BPB) = bused s x"
    using BBLOCK_eq_iff [OF l x b] by (simp add: bused_def)
  then show ?thesis
    unfolding bused_flip [where g = g, OF l b x sb c nb] g using same_bit [of x b] by auto
qed

lemma unused_not_bitmap: "layout s \<Longrightarrow> a < sb_size (f_sb s) \<Longrightarrow> \<not> bused s a \<Longrightarrow> a \<notin> bitmap s"
  using layoutD(4) by (auto simp: bitmap_def)

lemma balloc_marks:
  assumes "layout s" and o: "balloc_out k s a s'" and "x < sb_size (f_sb s)"
  shows "bused s' x \<longleftrightarrow> bused s x \<or> x = a"
proof -
  have a: "a < sb_size (f_sb s)" "\<not> bused s a" and c: "cont s' = (cont s)(BBLOCK a (f_sb s) :=
      bit_on (unat a mod BPB) (cont s (BBLOCK a (f_sb s))), a := mset 0 0 BSIZE (cont s a))"
    and f: "frest s' = frest s"
    using o by (auto simp: balloc_out_def)
  have "bused s' x \<longleftrightarrow> (if x = a then True else bused s x)"
    by (rule flip_one [where g = "bit_on (unat a mod BPB)", OF assms(1) a(1) assms(3) frestD(1) [OF f] c unused_not_bitmap [OF assms(1) a]]) auto
  then show ?thesis by auto
qed

lemma balloc_layout:
  assumes l: "layout s" and o: "balloc_out k s a s'"
  shows "layout s'"
proof -
  have "frest s' = frest s" using o by (simp add: balloc_out_def)
  note F = frestD [OF this]
  show ?thesis using l balloc_marks [OF l o] unfolding layout_def Let_def F by auto
qed


subsection \<open>bfree\<close>

definition bfree_out :: "nat \<Rightarrow> fsys \<Rightarrow> u32 \<Rightarrow> fsys \<Rightarrow> bool" where
  "bfree_out k s b s' \<longleftrightarrow> txn k s' \<and> holds s' = holds s \<and> frest s' = frest s
     \<and> cont s' = (cont s)(BBLOCK b (f_sb s) := bit_off (unat b mod BPB) (cont s (BBLOCK b (f_sb s))))"

lemma bfree_spec:
  assumes t: "txn (Suc k) s" and l: "layout s" and q: "quiet s" and b: "b < sb_size (f_sb s)"
  shows "if bused s b then \<exists>s'. bfree 1 b s = Inr s' \<and> bfree_out k s b s'
    else bfree 1 b s = Inl (Panic ''freeing free block'')"
proof -
  let ?bb = "BBLOCK b (f_sb s)" and ?bi = "unat b mod BPB"
  obtain i s1 s2 s3 where r: "bread 1 ?bb s = Inr (i, s1)" "b_data (f_bufs s1 i) = cont s ?bb"
      "log_write i (bstore i (bit_off ?bi) s1) = Inr s2" "brelse i s2 = Inr s3" "txn k s3" "holds s3 = holds s"
      "cont s3 = (cont s)(?bb := bit_off ?bi (cont s ?bb))" "frest s3 = frest s"
    by (rule tx.log_one [OF t home_layout [OF l b] BBLOCK_not_held [OF q b] quietD(1) [OF q],
          where g = "bit_off ?bi"])
  then have "bfree_out k s b s3" by (simp add: bfree_out_def)
  then show ?thesis using r(1-4) by (simp add: bfree_def bused_def Let_def bit_off_def [abs_def])
qed

lemma bfree_marks:
  assumes l: "layout s" and b: "b < sb_size (f_sb s)" and nb: "b \<notin> bitmap s"
    and o: "bfree_out k s b s'" and x: "x < sb_size (f_sb s)"
  shows "bused s' x \<longleftrightarrow> bused s x \<and> x \<noteq> b"
proof -
  have ne: "BBLOCK b (f_sb s) \<noteq> b"
    using nb b unfolding bitmap_def by (metis (mono_tags, lifting) image_eqI mem_Collect_eq)
  have c: "cont s' = (cont s)(BBLOCK b (f_sb s) := bit_off (unat b mod BPB) (cont s (BBLOCK b (f_sb s))),
      b := cont s b)" and f: "frest s' = frest s"
    using o ne by (auto simp: bfree_out_def)
  have "bused s' x \<longleftrightarrow> (if x = b then False else bused s x)"
    by (rule flip_one [where g = "bit_off (unat b mod BPB)", OF l b x frestD(1) [OF f] c nb]) auto
  then show ?thesis by auto
qed

lemma bfree_layout:
  assumes l: "layout s" and b: "b < sb_size (f_sb s)" "b \<notin> bitmap s" "b \<notin> log_area (f_log s)"
    and o: "bfree_out k s b s'"
  shows "layout s'"
proof -
  have "frest s' = frest s" using o by (simp add: bfree_out_def)
  note F = frestD [OF this]
  have "b \<noteq> BBLOCK x (f_sb s)" if "x < sb_size (f_sb s)" for x using b(2) that by (auto simp: bitmap_def)
  then show ?thesis
    using l bfree_marks [OF l b(1,2) o] b(3) unfolding layout_def Let_def F by auto
qed

end
