(* ===== verification/Fs_Example.thy ===== *)
theory Fs_Example
  imports Alloc
begin

text \<open>
  Two concrete states of a small file system of 100 blocks with the layout of mkfs.c: the log
  in blocks 2 to 31, inodes in 32 and 33, the bitmap in 34, the root directory in 35. In
  \<open>demo_fs\<close> an operation has begun and nothing is logged; in \<open>demo_logged\<close> block 40 has been
  logged. The theorems about the file system are applied to them.
\<close>

definition demo_sb :: mem where
  "demo_sb = put32 0 100 (put32 4 65 (put32 8 16 (put32 12 30 (put32 16 2 (put32 20 32 (put32 24 34 (\<lambda>_. 0)))))))"

definition demo_bits :: mem where
  "demo_bits = (\<lambda>i. if i < 4 then 255 else if i = 4 then 15 else 0)"

definition demo_root :: inode where
  "demo_root = \<lparr>i_dev = 1, i_inum = 1, i_ref = 1, i_lock = \<lparr>sl_locked = True, sl_pid = 1\<rparr>, i_valid = True,
     i_type = 1, i_major = 0, i_minor = 0, i_nlink = 1, i_size = 32, i_addrs = (\<lambda>_. 0)(0 := 35)\<rparr>"

definition demo_dir :: mem where
  "demo_dir = (\<lambda>_. 0)(0 := 1, 2 := 46, 16 := 1, 18 := 46, 19 := 46)"

definition demo_disk :: "u32 \<Rightarrow> mem" where
  "demo_disk = (\<lambda>_ _. 0)(1 := demo_sb, 32 := put_dinode demo_root 64 (\<lambda>_. 0), 34 := demo_bits, 35 := demo_dir)"

definition demo_base :: fsys where
  "demo_base = \<lparr>f_pid = 1, f_disk = demo_disk, f_disksize = 1000, f_writes = [], f_bufs = \<lambda>_. zero_buf,
     f_next = \<lambda>_. 0, f_prev = \<lambda>_. 0, f_log = zero_log, f_sb = get_sb demo_sb,
     f_icache = \<lambda>i. if i = 0 then demo_root else demo_root\<lparr>i_ref := 0, i_valid := False\<rparr>,
     f_devread = \<lambda>_. False, f_devwrite = \<lambda>_. False, f_wakes = []\<rparr>"

definition demo_log :: "int \<Rightarrow> log" where
  "demo_log n = \<lparr>lg_start = 2, lg_size = 30, lg_outstanding = 1, lg_committing = False, lg_dev = 1,
     lh_n = n, lh_block = \<lambda>_. 40\<rparr>"

definition demo_fs :: fsys where
  "demo_fs = (boot demo_disk demo_base)\<lparr>f_log := demo_log 0\<rparr>"

lemma boot_frame [simp]:
  "f_sb (boot d s) = f_sb s" "f_icache (boot d s) = f_icache s" "f_pid (boot d s) = f_pid s"
  "f_devread (boot d s) = f_devread s" "f_devwrite (boot d s) = f_devwrite s"
proof -
  have "v_rest (view (boot d s)) = v_rest (view (s\<lparr>f_disk := d, f_writes := [], f_bufs := \<lambda>_. zero_buf,
      f_log := zero_log, f_next := \<lambda>_. 0, f_prev := \<lambda>_. 0\<rparr>))"
    unfolding boot_def by (rule binit_effect [THEN conjunct2, THEN conjunct2, THEN conjunct2, THEN conjunct2]) simp
  then show "f_sb (boot d s) = f_sb s" "f_icache (boot d s) = f_icache s" "f_pid (boot d s) = f_pid s"
    "f_devread (boot d s) = f_devread s" "f_devwrite (boot d s) = f_devwrite s"
    by simp_all
qed

lemma boot_held: "\<not> holds (boot d s) i b"
  using boot_ok(5) [of d s] by (auto simp: view_def)

lemma demo_fs_sel [simp]:
  "f_sb demo_fs = get_sb demo_sb" "f_icache demo_fs = f_icache demo_base" "f_pid demo_fs = 1"
  "f_disksize demo_fs = 1000" "f_log demo_fs = demo_log 0" "cont demo_fs = demo_disk"
  "f_disk demo_fs = demo_disk" "bio_ok demo_fs" "\<not> holds demo_fs i b" "v_pinned (view demo_fs) = {}"
  "v_held (view demo_fs) = {}"
  by (simp_all add: demo_fs_def boot_ok boot_held demo_base_def)

lemma demo_sb_get [simp]:
  "sb_size (get_sb demo_sb) = 100" "sb_ninodes (get_sb demo_sb) = 16" "sb_logstart (get_sb demo_sb) = 2"
  "sb_inodestart (get_sb demo_sb) = 32" "sb_bmapstart (get_sb demo_sb) = 34"
  by (simp_all add: get_sb_def demo_sb_def get_put32_other)

lemma demo_area: "b \<in> log_area (demo_log n) \<longleftrightarrow> 2 \<le> b \<and> b < 32"
proof -
  have "b = 2 + of_nat t \<longleftrightarrow> unat b = 2 + t" if "t < 30" for t
  proof -
    have "unat (2 + of_nat t :: u32) = 2 + t" using that by (subst unat_add_nat_32) simp_all
    then show ?thesis by (metis unsigned_word_eqI)
  qed
  moreover have "2 \<le> b \<and> b < 32 \<longleftrightarrow> 2 \<le> unat b \<and> unat b < 32"
    by (simp add: word_le_nat_alt word_less_nat_alt)
  ultimately show ?thesis
    by (auto simp: log_area_def demo_log_def LOGSIZE_def image_iff intro!: bexI [of _ "unat b - 2"])
qed

lemma demo_txn: "k \<le> 25 \<Longrightarrow> txn k demo_fs"
  by (simp add: txn_def log_ok_def layout_ok_def demo_log_def LOGSIZE_def NBUF_def)


lemma demo_BBLOCK: "b < 100 \<Longrightarrow> BBLOCK b (get_sb demo_sb) = 34"
proof -
  assume "b < (100 :: u32)"
  then have "unat b div BPB = 0" by (simp add: BPB_def word_less_nat_alt)
  then have "unat (b div of_nat BPB) = 0" unfolding unat_div_BPB .
  then have "b div of_nat BPB = 0" by (simp add: unat_eq_zero)
  then show ?thesis by (simp add: BBLOCK_def)
qed

lemma byte_bits: "j < 8 \<Longrightarrow> bit (255 :: u8) j" "j < 8 \<Longrightarrow> bit (15 :: u8) j \<longleftrightarrow> j < 4"
proof -
  assume "j < (8 :: nat)"
  then have "j = 0 \<or> j = 1 \<or> j = 2 \<or> j = 3 \<or> j = 4 \<or> j = 5 \<or> j = 6 \<or> j = 7" by arith
  then show "bit (255 :: u8) j" "bit (15 :: u8) j \<longleftrightarrow> j < 4"
    by (elim disjE; simp add: bit_iff_odd)+
qed

lemma demo_bit: "bit_set demo_bits k \<longleftrightarrow> k < 36"
proof -
  have k: "k = 8 * (k div 8) + k mod 8" "k mod 8 < 8" by simp_all
  consider "k div 8 < 4" | "k div 8 = 4" | "4 < k div 8" by linarith
  then show ?thesis
  proof cases
    case 1
    show ?thesis using 1 k(1) byte_bits(1) [OF k(2)] by (simp add: bit_set_bit demo_bits_def)
  next
    case 2
    show ?thesis using 2 k(1) byte_bits(2) [OF k(2)] by (simp add: bit_set_bit demo_bits_def) linarith
  next
    case 3
    then show ?thesis using k(1) by (simp add: bit_set_bit demo_bits_def)
  qed
qed

lemma demo_bused: "b < 100 \<Longrightarrow> bused demo_fs b \<longleftrightarrow> b < 36"
proof -
  assume b: "b < (100 :: u32)"
  then have "unat b mod BPB = unat b" by (simp add: BPB_def word_less_nat_alt)
  then show ?thesis using b by (simp add: bused_def demo_BBLOCK demo_disk_def demo_bit word_less_nat_alt)
qed

lemma demo_layout [simp]: "layout demo_fs"
  unfolding layout_def Let_def
  by (auto simp: demo_BBLOCK demo_bused demo_area BPB_def word_less_nat_alt)

lemma demo_quiet [simp]: "quiet demo_fs"
  by (simp add: quiet_def)

definition demo_logged :: fsys where
  "demo_logged = (boot demo_disk demo_base)\<lparr>f_log := demo_log 1,
     f_bufs := (\<lambda>_. zero_buf)(0 := zero_buf\<lparr>b_valid := True, b_dirty := True, b_dev := 1, b_blockno := 40,
                                            b_data := \<lambda>_. 7\<rparr>)\<rparr>"

lemma demo_logged_cached: "cached demo_logged i b \<longleftrightarrow> i = 0 \<and> b = 40"
  by (auto simp: cached_def demo_logged_def zero_buf_def NBUF_def)

lemma demo_logged_frame [simp]:
  "f_log demo_logged = demo_log 1" "f_disksize demo_logged = 1000" "f_disk demo_logged = demo_disk"
  "b_dirty (f_bufs demo_logged 0)" "b_refcnt (f_bufs demo_logged 0) = 0"
  by (simp_all add: demo_logged_def boot_ok demo_base_def zero_buf_def)

lemma demo_logged_bufs: "f_bufs demo_logged i = (if i = 0 then zero_buf\<lparr>b_valid := True, b_dirty := True,
    b_dev := 1, b_blockno := 40, b_data := \<lambda>_. 7\<rparr> else zero_buf)"
  by (simp add: demo_logged_def)

lemma demo_logged_bio [simp]: "bio_ok demo_logged"
proof -
  have "\<exists>xs. ring HEAD (f_next demo_logged) (f_prev demo_logged) xs \<and> set xs = {..<NBUF}"
    using bio_okD(3) [OF boot_ok(1) [of demo_disk demo_base]] by (simp add: demo_logged_def)
  moreover have "buf_ok demo_logged i" for i
    by (cases "i = 0") (simp_all add: buf_ok_def Let_def demo_logged_bufs zero_buf_def initsleeplock_def
      del: fun_upd_apply)
  ultimately show ?thesis by (simp add: bio_ok_def demo_logged_cached)
qed

lemma demo_logged_sets [simp]: "v_pinned (view demo_logged) = {40}" "v_held (view demo_logged) = {}"
  by (auto simp: view_def demo_logged_cached holds_def)

lemma demo_commit_ready [simp]: "commit_ready demo_logged"
  by (simp add: commit_ready_def log_ok_def layout_ok_def demo_area word_le_nat_alt)
     (simp add: demo_log_def NBUF_def LOGSIZE_def demo_disk_def get32_def)

end
