(* ===== verification/Fs_Correct.thy ===== *)
theory Fs_Correct
  imports Fs_Example
begin

text \<open>The properties of the log and of the block allocator, applied to the states of \<open>Fs_Example\<close>.\<close>

theorem commit_crash_atomic_witness:
  "\<exists>s' ws r. commit demo_logged = Inr s' \<and> f_writes s' = f_writes demo_logged @ ws \<and> length ws = 4
    \<and> initlog 1 (boot (apply_writes (take 2 ws) demo_disk) demo_logged) = Inr r \<and> f_disk r 40 = cont demo_logged 40"
proof -
  have n: "lh_n (f_log demo_logged) = int 1" by (simp add: demo_log_def)
  from commit_crash_atomic [OF demo_commit_ready n, of 2] obtain s' ws r where
    w: "commit demo_logged = Inr s'" "f_writes s' = f_writes demo_logged @ ws" "length ws = 2 * 1 + 2"
      "initlog 1 (boot (apply_writes (take 2 ws) (f_disk demo_logged)) demo_logged) = Inr r"
    and r: "\<forall>b. b \<notin> log_area (f_log demo_logged) \<longrightarrow>
      f_disk r b = (if 2 \<le> (1::nat) then f_disk demo_logged b else cont demo_logged b)"
    by auto
  have "(40 :: u32) \<notin> log_area (f_log demo_logged)" by (simp add: demo_area word_less_nat_alt)
  with r have "f_disk r 40 = cont demo_logged 40" by simp
  with w show ?thesis by (intro exI [of _ s'] exI [of _ ws] exI [of _ r]) simp
qed

text \<open>
  C11: initlog on a disk with a well-formed log copies every logged block to its home and
  clears the header, leaving a clean cache and an empty log.
\<close>

theorem recovery_replays_log:
  assumes "disk_ok (f_disksize s) st d"
  shows "\<exists>s'. initlog 1 (boot d s) = Inr s' \<and> bio_ok s' \<and> f_disk s' = apply_writes (replay st d) d
    \<and> cont s' = f_disk s' \<and> lh_n (f_log s') = 0 \<and> lg_start (f_log s') = st"
  using initlog_spec [OF assms] by blast

theorem recovery_replays_log_witness:
  "\<exists>s'. initlog 1 (boot demo_disk demo_base) = Inr s' \<and> lh_n (f_log s') = 0 \<and> lg_start (f_log s') = 2"
proof -
  have "disk_ok (f_disksize demo_base) 2 demo_disk"
    by (simp add: disk_ok_def demo_disk_def head_n_def get32_def demo_base_def LOGSIZE_def)
  from recovery_replays_log [OF this] show ?thesis by blast
qed



text \<open>
  C8: balloc answers the least free block of the bitmap, marks it and no other as used,
  clears its contents and leaves every other block outside the bitmap unchanged, within two
  logged blocks.
\<close>

theorem balloc_takes_least_free:
  assumes "txn (Suc (Suc k)) s" and "layout s" and "quiet s" and "x < sb_size (f_sb s)" and "\<not> bused s x"
  shows "\<exists>a s'. balloc 1 s = Inr (a, s') \<and> a < sb_size (f_sb s) \<and> \<not> bused s a
    \<and> (\<forall>y. y < sb_size (f_sb s) \<longrightarrow> \<not> bused s y \<longrightarrow> a \<le> y)
    \<and> (\<forall>y. y < sb_size (f_sb s) \<longrightarrow> bused s' y = (bused s y \<or> y = a))
    \<and> (\<forall>j<BSIZE. cont s' a j = 0) \<and> (\<forall>b. b \<noteq> a \<longrightarrow> b \<notin> bitmap s \<longrightarrow> cont s' b = cont s b)
    \<and> txn k s' \<and> layout s' \<and> holds s' = holds s \<and> frest s' = frest s"
proof -
  obtain a s' where r: "balloc 1 s = Inr (a, s')" "balloc_out k s a s'"
    using balloc_spec [OF assms] by blast
  then have o: "a < sb_size (f_sb s)" "\<not> bused s a" "\<forall>y. y < sb_size (f_sb s) \<longrightarrow> \<not> bused s y \<longrightarrow> a \<le> y"
      "txn k s'" "holds s' = holds s" "frest s' = frest s"
    and c: "cont s' = (cont s)(BBLOCK a (f_sb s) := bit_on (unat a mod BPB) (cont s (BBLOCK a (f_sb s))),
                          a := mset 0 0 BSIZE (cont s a))"
    by (auto simp: balloc_out_def)
  have "\<forall>j<BSIZE. cont s' a j = 0" by (simp add: c mset_def)
  moreover have "\<forall>b. b \<noteq> a \<longrightarrow> b \<notin> bitmap s \<longrightarrow> cont s' b = cont s b"
    using o(1) by (auto simp: c bitmap_def)
  ultimately show ?thesis
    using r(1) o balloc_marks [OF assms(2) r(2)] balloc_layout [OF assms(2) r(2)] by blast
qed

theorem balloc_takes_least_free_witness: "\<exists>s'. balloc 1 demo_fs = Inr (36, s') \<and> bused s' 36"
proof -
  have x: "36 < sb_size (f_sb demo_fs)" "\<not> bused demo_fs 36"
    by (simp_all add: demo_bused word_less_nat_alt)
  obtain a s' where r: "balloc 1 demo_fs = Inr (a, s')" "a < 100" "\<not> bused demo_fs a" "a \<le> 36"
      "\<forall>y. y < 100 \<longrightarrow> bused s' y = (bused demo_fs y \<or> y = a)"
    using balloc_takes_least_free [OF demo_txn demo_layout demo_quiet x, of 0] x by auto
  have "\<not> a < 36" using r(3) demo_bused [OF r(2)] by simp
  with r(4) have "a = 36" by (meson antisym not_less)
  then show ?thesis using r by (auto simp: word_less_nat_alt)
qed


text \<open>Marking a free block and freeing it again gives the bitmap back.\<close>

lemma bit_off_on:
  assumes "\<not> bit_set m i"
  shows "bit_off i (bit_on i m) = m"
proof -
  have "(m (i div 8) OR bit_mask i) AND NOT (bit_mask i) = m (i div 8)"
    using assms by (intro bit_eqI) (auto simp: bit_set_bit bit_or_iff bit_and_iff bit_not_iff bit_mask_bit)
  then show ?thesis by (simp add: bit_off_def bit_on_def)
qed

theorem bfree_frees_used_block:
  assumes "txn (Suc k) s" and "layout s" and "quiet s" and "b < sb_size (f_sb s)" and "b \<notin> bitmap s"
  shows "if bused s b
    then \<exists>s'. bfree 1 b s = Inr s' \<and> txn k s' \<and> holds s' = holds s \<and> frest s' = frest s
      \<and> (\<forall>y. y < sb_size (f_sb s) \<longrightarrow> bused s' y = (bused s y \<and> y \<noteq> b))
      \<and> (\<forall>c. c \<notin> bitmap s \<longrightarrow> cont s' c = cont s c)
    else bfree 1 b s = Inl (Panic ''freeing free block'')"
proof (cases "bused s b")
  case True
  then obtain s' where r: "bfree 1 b s = Inr s'" "bfree_out k s b s'"
    using bfree_spec [OF assms(1-4)] by auto
  have "\<forall>c. c \<notin> bitmap s \<longrightarrow> cont s' c = cont s c"
    using r(2) assms(4) by (auto simp: bfree_out_def bitmap_def)
  moreover have "\<forall>y. y < sb_size (f_sb s) \<longrightarrow> bused s' y = (bused s y \<and> y \<noteq> b)"
    using bfree_marks [OF assms(2,4,5) r(2)] by blast
  ultimately show ?thesis using True r by (auto simp: bfree_out_def)
next
  case False
  then show ?thesis using bfree_spec [OF assms(1-4)] by simp
qed

theorem bfree_frees_used_block_witness:
  "(\<exists>s'. bfree 1 35 demo_fs = Inr s' \<and> \<not> bused s' 35) \<and> bfree 1 50 demo_fs = Inl (Panic ''freeing free block'')"
proof -
  have nb: "b \<notin> bitmap demo_fs" if "b \<noteq> 34" for b
    using that by (auto simp: bitmap_def demo_BBLOCK)
  have "bused demo_fs 35" "\<not> bused demo_fs 50" by (simp_all add: demo_bused word_less_nat_alt)
  moreover have "(35 :: u32) < 100" "(50 :: u32) < 100" by (simp_all add: word_less_nat_alt)
  ultimately show ?thesis
    using bfree_frees_used_block [OF demo_txn demo_layout demo_quiet, of 0 35]
      bfree_frees_used_block [OF demo_txn demo_layout demo_quiet, of 0 50] nb by auto
qed

text \<open>
  C9: Allocating a block and freeing it again restores the contents of every other block,
  the bitmap included.
\<close>

theorem balloc_bfree_roundtrip:
  assumes "txn (Suc (Suc (Suc k))) s" and l: "layout s" and q: "quiet s"
    and x: "x < sb_size (f_sb s)" "\<not> bused s x"
  shows "\<exists>a s' s''. balloc 1 s = Inr (a, s') \<and> bfree 1 a s' = Inr s'' \<and> txn k s'' \<and> \<not> bused s a
    \<and> (\<forall>b. b \<noteq> a \<longrightarrow> cont s'' b = cont s b) \<and> (\<forall>y. y < sb_size (f_sb s) \<longrightarrow> bused s'' y = bused s y)"
proof -
  obtain a s' where r: "balloc 1 s = Inr (a, s')" "balloc_out (Suc k) s a s'"
    using balloc_spec [OF assms] by blast
  let ?B = "BBLOCK a (f_sb s)" and ?i = "unat a mod BPB"
  have o: "a < sb_size (f_sb s)" "\<not> bused s a" "txn (Suc k) s'" "holds s' = holds s" "frest s' = frest s"
    and c: "cont s' = (cont s)(?B := bit_on ?i (cont s ?B), a := mset 0 0 BSIZE (cont s a))"
    using r(2) by (auto simp: balloc_out_def)
  note F = frestD [OF o(5)]
  have nb: "a \<notin> bitmap s" by (rule unused_not_bitmap [OF l o(1,2)])
  have Ba: "?B \<noteq> a" using nb o(1) unfolding bitmap_def by (metis (mono_tags, lifting) image_eqI mem_Collect_eq)
  have mk: "bused s' y = (bused s y \<or> y = a)" if "y < sb_size (f_sb s)" for y
    by (rule balloc_marks [OF l r(2) that])
  have "bitmap s' = bitmap s" by (simp add: bitmap_def F)
  then have "quiet s'" using q mk unfolding quiet_def o(4) F by blast
  from bfree_spec [OF o(3) balloc_layout [OF l r(2)] this, of a]
  obtain s'' where s'': "bfree 1 a s' = Inr s''" "bfree_out k s' a s''"
    using o(1) mk [OF o(1)] F by auto
  have f: "frest s'' = frest s'" and c2: "cont s'' = (cont s')(?B := bit_off ?i (cont s' ?B))"
    using s''(2) by (simp_all add: bfree_out_def F)
  have "\<not> bit_set (cont s ?B) ?i" using o(2) by (simp add: bused_def)
  then have eq: "cont s'' b = cont s b" if "b \<noteq> a" for b
    using that Ba by (simp add: c2 c bit_off_on)
  have "bused s'' y = bused s y" if "y < sb_size (f_sb s)" for y
  proof -
    have "BBLOCK y (f_sb s) \<noteq> a" using nb that by (auto simp: bitmap_def)
    then show ?thesis using eq by (simp add: bused_def frestD(1) [OF f] F)
  qed
  then show ?thesis using r(1) s'' eq o(2) by (auto simp: bfree_out_def)
qed

theorem balloc_bfree_roundtrip_witness:
  "\<exists>a s' s''. balloc 1 demo_fs = Inr (a, s') \<and> bfree 1 a s' = Inr s'' \<and> cont s'' 34 = demo_bits"
proof -
  have x: "36 < sb_size (f_sb demo_fs)" "\<not> bused demo_fs 36"
    by (simp_all add: demo_bused word_less_nat_alt)
  from balloc_bfree_roundtrip [OF demo_txn demo_layout demo_quiet x, of 0]
  obtain a s' s'' where r: "balloc 1 demo_fs = Inr (a, s')" "bfree 1 a s' = Inr s''" "\<not> bused demo_fs a"
    "\<forall>b. b \<noteq> a \<longrightarrow> cont s'' b = demo_disk b" by auto
  have "bused demo_fs 34" by (simp add: demo_bused word_less_nat_alt)
  with r(3) have "a \<noteq> 34" by blast
  with r show ?thesis by (auto simp: demo_disk_def)
qed

end
