(* ===== verification/Inode.thy ===== *)
theory Inode
  imports Fs
begin

text \<open>
  The content of an inode: \<open>bmap\<close>, \<open>itrunc\<close>, \<open>iput\<close>, \<open>stati\<close>, \<open>readi\<close> and \<open>writei\<close> of fs.c. A device inode
  hands the request to its driver, which is the value \<open>IoDev\<close>.
\<close>

definition T_DIR :: u16 where "T_DIR = 1"
definition T_FILE :: u16 where "T_FILE = 2"
definition T_DEV :: u16 where "T_DEV = 3"

text \<open>Entry \<open>k\<close> of an indirect block.\<close>

definition ind_get :: "mem \<Rightarrow> nat \<Rightarrow> u32" where
  "ind_get m k = get32 m (4 * k)"

definition ind_put :: "nat \<Rightarrow> u32 \<Rightarrow> mem \<Rightarrow> mem" where
  "ind_put k v = put32 (4 * k) v"

text \<open>\<open>if((addr = ip->addrs[k]) == 0) ip->addrs[k] = addr = balloc(ip->dev);\<close>\<close>

definition addr_slot :: "nat \<Rightarrow> nat \<Rightarrow> fsys \<Rightarrow> (u32 \<times> fsys) res" where
  "addr_slot i k s =
     (if i_addrs (f_icache s i) k = 0 then
        bind_res (balloc (i_dev (f_icache s i)) s) (\<lambda>(addr, s).
        Inr (addr, upd_inode i (\<lambda>ip. ip\<lparr>i_addrs := (i_addrs ip)(k := addr)\<rparr>) s))
      else Inr (i_addrs (f_icache s i) k, s))"

text \<open>
  One level of the doubly and triple indirect walk: the entry is filled in the buffer, but the
  buffer is released without \<open>log_write\<close>.
\<close>

definition ind_step :: "nat \<Rightarrow> u32 \<Rightarrow> nat \<Rightarrow> fsys \<Rightarrow> (u32 \<times> fsys) res" where
  "ind_step i blk k s =
     bind_res (bread (i_dev (f_icache s i)) blk s) (\<lambda>(bp, s).
     bind_res (if ind_get (b_data (f_bufs s bp)) k = 0
       then bind_res (balloc (i_dev (f_icache s i)) s) (\<lambda>(addr, s).
            Inr (addr, bstore bp (ind_put k addr) s))
       else Inr (ind_get (b_data (f_bufs s bp)) k, s)) (\<lambda>(addr, s).
     bind_res (brelse bp s) (\<lambda>s.
     Inr (addr, s))))"

text \<open>The end of both walks: the data block itself is logged.\<close>

definition log_block :: "nat \<Rightarrow> u32 \<Rightarrow> fsys \<Rightarrow> (u32 \<times> fsys) res" where
  "log_block i addr s =
     bind_res (bread (i_dev (f_icache s i)) addr s) (\<lambda>(bp, s).
     bind_res (log_write bp s) (\<lambda>s.
     bind_res (brelse bp s) (\<lambda>s.
     Inr (addr, s))))"

definition bmap :: "nat \<Rightarrow> nat \<Rightarrow> fsys \<Rightarrow> (u32 \<times> fsys) res" where
  "bmap i bn s =
     (if bn < NDIRECT then addr_slot i bn s
      else let bn = bn - NDIRECT in
      if bn < NINDIRECT then
        bind_res (addr_slot i NDIRECT s) (\<lambda>(addr, s).
        bind_res (bread (i_dev (f_icache s i)) addr s) (\<lambda>(bp, s).
        bind_res (if ind_get (b_data (f_bufs s bp)) bn = 0
          then bind_res (balloc (i_dev (f_icache s i)) s) (\<lambda>(addr, s).
               bind_res (log_write bp (bstore bp (ind_put bn addr) s)) (\<lambda>s.
               Inr (addr, s)))
          else Inr (ind_get (b_data (f_bufs s bp)) bn, s)) (\<lambda>(addr, s).
        bind_res (brelse bp s) (\<lambda>s.
        Inr (addr, s)))))
      else let bn = bn - NINDIRECT in
      if bn < NINDIRECT * NINDIRECT then
        bind_res (addr_slot i (NDIRECT + 1) s) (\<lambda>(addr, s).
        bind_res (ind_step i addr (bn div NINDIRECT) s) (\<lambda>(addr, s).
        bind_res (ind_step i addr (bn mod NINDIRECT) s) (\<lambda>(addr, s).
        log_block i addr s)))
      else let bn = bn - NINDIRECT * NINDIRECT in
      if bn < NINDIRECT * NINDIRECT * NINDIRECT then
        bind_res (addr_slot i (NDIRECT + 2) s) (\<lambda>(addr, s).
        bind_res (ind_step i addr (bn div (NINDIRECT * NINDIRECT)) s) (\<lambda>(addr, s).
        bind_res (ind_step i addr ((bn mod (NINDIRECT * NINDIRECT)) div NINDIRECT) s) (\<lambda>(addr, s).
        bind_res (ind_step i addr (bn mod NINDIRECT) s) (\<lambda>(addr, s).
        log_block i addr s))))
      else Inl (Panic ''bmap: out of range''))"


subsection \<open>Truncation\<close>

text \<open>
  The loops over an indirect block read its entries from the held buffer \<open>bp\<close>. The innermost
  loop of the triple indirect part frees every entry without testing it for zero.
\<close>

definition free_entries :: "u32 \<Rightarrow> nat \<Rightarrow> bool \<Rightarrow> fsys \<Rightarrow> fsys res" where
  "free_entries dev bp tested s =
     for_each (\<lambda>j s.
       let a = ind_get (b_data (f_bufs s bp)) j in
       if tested \<and> a = 0 then Inr s else bfree dev a s) [0..<NINDIRECT] s"

text \<open>Free what hangs below the entries of \<open>bp\<close>, one block per entry, by \<open>sub\<close>.\<close>

definition free_below :: "u32 \<Rightarrow> (u32 \<Rightarrow> nat \<Rightarrow> fsys \<Rightarrow> fsys res) \<Rightarrow> nat \<Rightarrow> fsys \<Rightarrow> fsys res" where
  "free_below dev sub bp s =
     for_each (\<lambda>j s.
       let a = ind_get (b_data (f_bufs s bp)) j in
       if a = 0 then Inr s
       else bind_res (bread dev a s) (\<lambda>(bp1, s).
            bind_res (sub dev bp1 s) (\<lambda>s.
            bind_res (brelse bp1 s) (\<lambda>s.
            bfree dev a s)))) [0..<NINDIRECT] s"

definition free_tree :: "nat \<Rightarrow> nat \<Rightarrow> (u32 \<Rightarrow> nat \<Rightarrow> fsys \<Rightarrow> fsys res) \<Rightarrow> fsys \<Rightarrow> fsys res" where
  "free_tree i k sub s =
     (let ip = f_icache s i in
      if i_addrs ip k = 0 then Inr s
      else bind_res (bread (i_dev ip) (i_addrs ip k) s) (\<lambda>(bp, s).
           bind_res (sub (i_dev ip) bp s) (\<lambda>s.
           bind_res (brelse bp s) (\<lambda>s.
           bind_res (bfree (i_dev ip) (i_addrs ip k) s) (\<lambda>s.
           Inr (upd_inode i (\<lambda>ip. ip\<lparr>i_addrs := (i_addrs ip)(k := 0)\<rparr>) s))))))"

definition itrunc :: "nat \<Rightarrow> fsys \<Rightarrow> fsys res" where
  "itrunc i s =
     bind_res (for_each (\<lambda>k s.
       let ip = f_icache s i in
       if i_addrs ip k = 0 then Inr s
       else bind_res (bfree (i_dev ip) (i_addrs ip k) s) (\<lambda>s.
            Inr (upd_inode i (\<lambda>ip. ip\<lparr>i_addrs := (i_addrs ip)(k := 0)\<rparr>) s))) [0..<NDIRECT] s) (\<lambda>s.
     bind_res (free_tree i NDIRECT (\<lambda>dev bp. free_entries dev bp True) s) (\<lambda>s.
     bind_res (free_tree i (NDIRECT + 1)
       (\<lambda>dev. free_below dev (\<lambda>dev bp. free_entries dev bp True)) s) (\<lambda>s.
     bind_res (free_tree i (NDIRECT + 2)
       (\<lambda>dev. free_below dev (\<lambda>dev. free_below dev (\<lambda>dev bp. free_entries dev bp False))) s) (\<lambda>s.
     iupdate i (upd_inode i (\<lambda>ip. ip\<lparr>i_size := 0\<rparr>) s)))))"

definition iput :: "nat \<Rightarrow> fsys \<Rightarrow> fsys res" where
  "iput i s =
     bind_res (acquiresleep (ChInode i) (f_pid s) (i_lock (f_icache s i))) (\<lambda>lk.
     let s = upd_inode i (\<lambda>ip. ip\<lparr>i_lock := lk\<rparr>) s in
     bind_res (if i_valid (f_icache s i) \<and> i_nlink (f_icache s i) = 0 \<and> i_ref (f_icache s i) = 1
       then bind_res (itrunc i s) (\<lambda>s.
            bind_res (iupdate i (upd_inode i (\<lambda>ip. ip\<lparr>i_type := 0\<rparr>) s)) (\<lambda>s.
            Inr (upd_inode i (\<lambda>ip. ip\<lparr>i_valid := False\<rparr>) s)))
       else Inr s) (\<lambda>s.
     let s = fwake (ChInode i) (upd_inode i (\<lambda>ip. ip\<lparr>i_lock := releasesleep (i_lock ip)\<rparr>) s) in
     Inr (upd_inode i (\<lambda>ip. ip\<lparr>i_ref := i_ref ip - 1\<rparr>) s)))"

definition iunlockput :: "nat \<Rightarrow> fsys \<Rightarrow> fsys res" where
  "iunlockput i s = bind_res (iunlock i s) (iput i)"


subsection \<open>Reading and writing\<close>

record stat =
  stat_type :: u16
  stat_dev :: u32
  stat_ino :: u32
  stat_nlink :: u16
  stat_size :: u32

definition stati :: "nat \<Rightarrow> fsys \<Rightarrow> stat" where
  "stati i s = (let ip = f_icache s i in
     \<lparr>stat_type = i_type ip, stat_dev = i_dev ip, stat_ino = i_inum ip, stat_nlink = i_nlink ip,
      stat_size = i_size ip\<rparr>)"

datatype 'a io = IoErr | IoDev nat | Io 'a

text \<open>The loop of \<open>readi\<close> with \<open>n\<close> bytes left at offset \<open>off\<close>; \<open>off + n\<close> does not overflow.\<close>

function readi_loop :: "nat \<Rightarrow> nat \<Rightarrow> nat \<Rightarrow> u8 list \<Rightarrow> fsys \<Rightarrow> (u8 list \<times> fsys) res" where
  "readi_loop i off n acc s =
     (if n = 0 then Inr (acc, s)
      else bind_res (bmap i (off div BSIZE) s) (\<lambda>(addr, s).
           bind_res (bread (i_dev (f_icache s i)) addr s) (\<lambda>(bp, s).
           let m = min n (BSIZE - off mod BSIZE);
               chunk = bytes (b_data (f_bufs s bp)) (off mod BSIZE) m
           in bind_res (brelse bp s) (\<lambda>s.
              readi_loop i (off + m) (n - m) (acc @ chunk) s))))"
  by pat_completeness auto
termination
  by (relation "measure (\<lambda>(i, off, n, acc, s). n)") (auto simp: BSIZE_def)

definition dev_of :: "u16 \<Rightarrow> (nat \<Rightarrow> bool) \<Rightarrow> 'a io" where
  "dev_of major present =
     (if sint major < 0 \<or> sint major \<ge> int NDEV \<or> \<not> present (nat (sint major)) then IoErr
      else IoDev (nat (sint major)))"

definition readi :: "nat \<Rightarrow> u32 \<Rightarrow> u32 \<Rightarrow> fsys \<Rightarrow> (u8 list io \<times> fsys) res" where
  "readi i off n s =
     (let ip = f_icache s i in
      if i_type ip = T_DEV then Inr (dev_of (i_major ip) (f_devread s), s)
      else if off > i_size ip \<or> off + n < off then Inr (IoErr, s)
      else
        let n = (if off + n > i_size ip then i_size ip - off else n)
        in bind_res (readi_loop i (unat off) (unat n) [] s) (\<lambda>(data, s). Inr (Io data, s)))"

function writei_loop :: "nat \<Rightarrow> mem \<Rightarrow> nat \<Rightarrow> nat \<Rightarrow> nat \<Rightarrow> fsys \<Rightarrow> fsys res" where
  "writei_loop i src tot off n s =
     (if n = 0 then Inr s
      else bind_res (bmap i (off div BSIZE) s) (\<lambda>(addr, s).
           bind_res (bread (i_dev (f_icache s i)) addr s) (\<lambda>(bp, s).
           let m = min n (BSIZE - off mod BSIZE);
               s = bstore bp (mcopy src tot (off mod BSIZE) m) s
           in bind_res (log_write bp s) (\<lambda>s.
              bind_res (brelse bp s) (\<lambda>s.
              writei_loop i src (tot + m) (off + m) (n - m) s)))))"
  by pat_completeness auto
termination
  by (relation "measure (\<lambda>(i, src, tot, off, n, s). n)") (auto simp: BSIZE_def)

definition writei :: "nat \<Rightarrow> mem \<Rightarrow> u32 \<Rightarrow> u32 \<Rightarrow> fsys \<Rightarrow> (u32 io \<times> fsys) res" where
  "writei i src off n s =
     (let ip = f_icache s i in
      if i_type ip = T_DEV then Inr (dev_of (i_major ip) (f_devwrite s), s)
      else if off > i_size ip \<or> off + n < off then Inr (IoErr, s)
      else if unat (off + n) > MAXFILE * BSIZE then Inr (IoErr, s)
      else
        bind_res (writei_loop i src 0 (unat off) (unat n) s) (\<lambda>s.
        if n > 0 \<and> off + n > i_size (f_icache s i) then
          bind_res (iupdate i (upd_inode i (\<lambda>ip. ip\<lparr>i_size := off + n\<rparr>) s)) (\<lambda>s.
          Inr (Io n, s))
        else Inr (Io n, s)))"

declare readi_loop.simps [simp del] writei_loop.simps [simp del]

end
