(* ===== verification/Inode_Read.thy ===== *)
theory Inode_Read
  imports Inode Alloc
begin

text \<open>
  Reading through the buffer cache, in or out of an operation: \<open>reads\<close> says that no buffer is
  held and that one is free. \<open>bmap\<close> of a mapped block finds its address, and \<open>readi\<close> answers the
  bytes of the file, without changing what a client sees. Beyond the single indirect block
  \<open>bmap\<close> logs the block it finds, which panics outside an operation.
\<close>

subsection \<open>Reading a block\<close>

definition reads :: "fsys \<Rightarrow> bool" where
  "reads s \<longleftrightarrow> bio_ok s \<and> v_held (view s) = {} \<and> card (v_pinned (view s)) < NBUF"

lemma reads_view: "reads s \<Longrightarrow> bio_ok s' \<Longrightarrow> view s' = view s \<Longrightarrow> reads s'"
  by (simp add: reads_def)

lemma reads_block:
  assumes r: "reads s" and b: "b < f_disksize s"
  obtains i s1 s2 where "bread 1 b s = Inr (i, s1)" "b_data (f_bufs s1 i) = cont s b" "brelse i s1 = Inr s2"
    "reads s2" "view s2 = view s" "f_icache s1 = f_icache s"
proof -
  have a: "bio_ok s" "b < fst (snd (v_rest (view s)))" "b \<notin> v_held (view s)"
    "b \<in> v_pinned (view s) \<or> card (v_pinned (view s) \<union> v_held (view s)) < NBUF"
    using r b by (simp_all add: reads_def)
  obtain i s1 s2 where x: "bread 1 b s = Inr (i, s1)" "b_data (f_bufs s1 i) = v_cont (view s) b"
      "brelse i s1 = Inr s2" "bio_ok s2" "holds s2 = holds s" "view s2 = view s"
    by (rule bc.read_block [OF a])
  show thesis
    by (rule that [OF x(1) _ x(3) reads_view [OF r x(4,6)] x(6)])
       (use x(2) bread_frame [OF x(1)] in simp_all)
qed

lemma view_eqD:
  assumes "view s' = view s"
  shows "cont s' = cont s" "f_icache s' = f_icache s" "f_disksize s' = f_disksize s" "f_log s' = f_log s"
    "f_sb s' = f_sb s" "f_devread s' = f_devread s" "f_disk s' = f_disk s" "f_pid s' = f_pid s"
    "f_devwrite s' = f_devwrite s"
proof -
  have "v_cont (view s') = v_cont (view s)" "v_disk (view s') = v_disk (view s)"
    "v_rest (view s') = v_rest (view s)"
    using assms by simp_all
  then show "cont s' = cont s" "f_icache s' = f_icache s" "f_disksize s' = f_disksize s" "f_log s' = f_log s"
    "f_sb s' = f_sb s" "f_devread s' = f_devread s" "f_disk s' = f_disk s" "f_pid s' = f_pid s"
    "f_devwrite s' = f_devwrite s"
    by simp_all
qed


subsection \<open>The tree of blocks of an inode\<close>

text \<open>The pointers from the inode down to block \<open>bn\<close>, the address of the block last.\<close>

definition block_path :: "fsys \<Rightarrow> inode \<Rightarrow> nat \<Rightarrow> u32 list" where
  "block_path s ip bn =
     (let ind = (\<lambda>b k. ind_get (cont s b) k) in
      if bn < NDIRECT then [i_addrs ip bn]
      else let n = bn - NDIRECT in
      if n < NINDIRECT then [i_addrs ip NDIRECT, ind (i_addrs ip NDIRECT) n]
      else let n = n - NINDIRECT in
      if n < NINDIRECT * NINDIRECT then
        let a = i_addrs ip (NDIRECT + 1); b = ind a (n div NINDIRECT) in [a, b, ind b (n mod NINDIRECT)]
      else
        let n = n - NINDIRECT * NINDIRECT;
            a = i_addrs ip (NDIRECT + 2);
            b = ind a (n div (NINDIRECT * NINDIRECT));
            c = ind b ((n mod (NINDIRECT * NINDIRECT)) div NINDIRECT)
        in [a, b, c, ind c (n mod NINDIRECT)])"

definition block_addr :: "fsys \<Rightarrow> inode \<Rightarrow> nat \<Rightarrow> u32" where
  "block_addr s ip bn = last (block_path s ip bn)"

definition mapped :: "fsys \<Rightarrow> inode \<Rightarrow> nat \<Rightarrow> bool" where
  "mapped s ip bn \<longleftrightarrow> (\<forall>a\<in>set (block_path s ip bn). a \<noteq> 0 \<and> a < f_disksize s)"

lemma block_path_view:
  assumes "view s' = view s"
  shows "block_path s' = block_path s" "block_addr s' = block_addr s" "mapped s' = mapped s"
proof -
  show p: "block_path s' = block_path s"
    by (intro ext) (simp add: block_path_def view_eqD(1) [OF assms])
  then show "block_addr s' = block_addr s" "mapped s' = mapped s"
    by (simp_all add: block_addr_def [abs_def] mapped_def [abs_def] view_eqD [OF assms])
qed

lemma bmap_direct:
  assumes "mapped s (f_icache s i) bn" and "bn < NDIRECT"
  shows "bmap i bn s = Inr (block_addr s (f_icache s i) bn, s)"
  using assms by (simp add: bmap_def addr_slot_def mapped_def block_addr_def block_path_def)

lemma bmap_single:
  assumes r: "reads s" and d: "i_dev (f_icache s i) = 1" and m: "mapped s (f_icache s i) bn"
    and bn: "NDIRECT \<le> bn" "bn < NDIRECT + NINDIRECT"
  shows "\<exists>s'. bmap i bn s = Inr (block_addr s (f_icache s i) bn, s') \<and> reads s' \<and> view s' = view s"
proof -
  let ?ip = "f_icache s i" and ?n = "bn - NDIRECT"
  have p: "block_path s ?ip bn = [i_addrs ?ip NDIRECT, ind_get (cont s (i_addrs ?ip NDIRECT)) ?n]"
    using bn by (simp add: block_path_def Let_def)
  have a: "i_addrs ?ip NDIRECT \<noteq> 0" "i_addrs ?ip NDIRECT < f_disksize s"
    "ind_get (cont s (i_addrs ?ip NDIRECT)) ?n \<noteq> 0"
    using m by (simp_all add: mapped_def p)
  obtain j s1 s2 where x: "bread 1 (i_addrs ?ip NDIRECT) s = Inr (j, s1)"
      "b_data (f_bufs s1 j) = cont s (i_addrs ?ip NDIRECT)" "brelse j s1 = Inr s2" "reads s2" "view s2 = view s"
    by (rule reads_block [OF r a(2)])
  have n: "?n < NINDIRECT" using bn by simp
  have "bmap i bn s = Inr (block_addr s ?ip bn, s2)"
    using bn n a x by (simp add: bmap_def addr_slot_def d Let_def block_addr_def p)
  then show ?thesis using x by blast
qed

lemma bmap_read:
  assumes "reads s" "i_dev (f_icache s i) = 1" "mapped s (f_icache s i) bn" "bn < NDIRECT + NINDIRECT"
  shows "\<exists>s'. bmap i bn s = Inr (block_addr s (f_icache s i) bn, s') \<and> reads s' \<and> view s' = view s"
  using bmap_direct [OF assms(3)] bmap_single [OF assms(1-3) _ assms(4)] assms(1)
  by (cases "bn < NDIRECT") auto


subsection \<open>The bytes of a file\<close>

definition file_byte :: "fsys \<Rightarrow> inode \<Rightarrow> nat \<Rightarrow> u8" where
  "file_byte s ip k = cont s (block_addr s ip (k div BSIZE)) (k mod BSIZE)"

lemma chunk_bytes:
  assumes "m \<le> BSIZE - off mod BSIZE" and "0 < m"
  shows "bytes (cont s (block_addr s ip (off div BSIZE))) (off mod BSIZE) m
    = map (file_byte s ip) [off..<off + m]"
proof (rule nth_equalityI)
  fix k assume "k < length (bytes (cont s (block_addr s ip (off div BSIZE))) (off mod BSIZE) m)"
  then have k: "k < m" by simp
  then have "off mod BSIZE + k < BSIZE" using assms by linarith
  moreover have "off + k = off div BSIZE * BSIZE + (off mod BSIZE + k)" by simp
  ultimately have "(off + k) div BSIZE = off div BSIZE" "(off + k) mod BSIZE = off mod BSIZE + k"
    by (metis BSIZE_def Euclidean_Rings.div_eq_0_iff add.right_neutral div_mult_self3 zero_neq_numeral,
        metis mod_less mod_mult_self3)
  then show "bytes (cont s (block_addr s ip (off div BSIZE))) (off mod BSIZE) m ! k
      = map (file_byte s ip) [off..<off + m] ! k"
    using k by (simp add: bytes_def file_byte_def)
qed simp

lemma readi_loop_read:
  assumes "reads s" "i_dev (f_icache s i) = 1"
    and "\<And>bn. off div BSIZE \<le> bn \<Longrightarrow> bn * BSIZE < off + n \<Longrightarrow> mapped s (f_icache s i) bn"
    and "off + n \<le> (NDIRECT + NINDIRECT) * BSIZE"
  shows "\<exists>s'. readi_loop i off n acc s = Inr (acc @ map (file_byte s (f_icache s i)) [off..<off + n], s')
    \<and> reads s' \<and> view s' = view s"
  using assms
proof (induction n arbitrary: off acc s rule: less_induct)
  case (less n)
  let ?ip = "f_icache s i"
  show ?case
  proof (cases "n = 0")
    case True
    then show ?thesis using less.prems(1) by (simp add: readi_loop.simps)
  next
    case False
    define bn where "bn = off div BSIZE"
    define m where "m = min n (BSIZE - off mod BSIZE)"
    have B: "off mod BSIZE < BSIZE" by (simp add: BSIZE_def)
    then have m: "0 < m" "m \<le> n" "m \<le> BSIZE - off mod BSIZE" using False by (auto simp: m_def)
    have le: "bn * BSIZE \<le> off" by (simp add: bn_def)
    then have "bn * BSIZE < off + n" using False by linarith
    then have mp: "mapped s ?ip bn" using less.prems(3) by (simp add: bn_def)
    have "bn * BSIZE < (NDIRECT + NINDIRECT) * BSIZE"
      using \<open>bn * BSIZE < off + n\<close> less.prems(4) by linarith
    then have "bn < NDIRECT + NINDIRECT" by simp
    then obtain s1 where s1: "bmap i bn s = Inr (block_addr s ?ip bn, s1)" "reads s1" "view s1 = view s"
      using bmap_read [OF less.prems(1,2) mp] by blast
    note V1 = view_eqD [OF s1(3)]
    have "block_addr s ?ip bn \<in> set (block_path s ?ip bn)"
      unfolding block_addr_def by (rule last_in_set) (simp add: block_path_def Let_def)
    then have ad: "block_addr s ?ip bn < f_disksize s1" using mp V1 by (simp add: mapped_def)
    obtain j s2 s3 where x: "bread 1 (block_addr s ?ip bn) s1 = Inr (j, s2)"
        "b_data (f_bufs s2 j) = cont s1 (block_addr s ?ip bn)" "brelse j s2 = Inr s3" "reads s3" "view s3 = view s1"
      by (rule reads_block [OF s1(2) ad])
    have v3: "view s3 = view s" using x(5) s1(3) by simp
    note V3 = view_eqD [OF v3]
    have step: "readi_loop i off n acc s
        = readi_loop i (off + m) (n - m) (acc @ map (file_byte s ?ip) [off..<off + m]) s3"
      using False s1(1) x(1-3) V1 chunk_bytes [OF m(3,1), of s ?ip]
      by (subst readi_loop.simps) (simp add: bn_def m_def less.prems(2) Let_def)
    have st: "mapped s3 (f_icache s3 i) b" if "(off + m) div BSIZE \<le> b" "b * BSIZE < off + m + (n - m)" for b
    proof -
      have "off div BSIZE \<le> b" using div_le_mono [of off "off + m" BSIZE] that(1) by linarith
      then show ?thesis using less.prems(3) [of b] that(2) m(2) V3 block_path_view(3) [OF v3] by simp
    qed
    obtain s' where s': "readi_loop i (off + m) (n - m) (acc @ map (file_byte s ?ip) [off..<off + m]) s3
        = Inr ((acc @ map (file_byte s ?ip) [off..<off + m])
            @ map (file_byte s3 (f_icache s3 i)) [off + m..<off + m + (n - m)], s')"
        "reads s'" "view s' = view s3"
      using less.IH [of "n - m" s3 "off + m" "acc @ map (file_byte s ?ip) [off..<off + m]"]
        m x(4) st less.prems(2,4) V3 by (auto simp: )
    have "file_byte s3 = file_byte s"
      by (simp add: file_byte_def [abs_def] V3 block_path_view(2) [OF v3])
    moreover have "[off..<off + n] = [off..<off + m] @ [off + m..<off + n]"
      using m(2) by (metis le_add1 le_add_diff_inverse add.assoc upt_add_eq_append)
    ultimately show ?thesis using step s' V3 v3 m(2) by simp
  qed
qed


lemma readi_spec:
  assumes "reads s" and ip: "ip = f_icache s i" and "i_dev ip = 1" and ty: "i_type ip \<noteq> T_DEV"
    and off: "off \<le> i_size ip" "unat off + unat n < 2 ^ 32" and sz: "unat (i_size ip) \<le> (NDIRECT + NINDIRECT) * BSIZE"
    and m: "\<And>bn. bn * BSIZE < unat (i_size ip) \<Longrightarrow> mapped s ip bn"
  shows "\<exists>s'. readi i off n s
      = Inr (Io (map (file_byte s ip) [unat off..<min (unat off + unat n) (unat (i_size ip))]), s')
    \<and> reads s' \<and> view s' = view s"
proof -
  let ?n = "if off + n > i_size ip then i_size ip - off else n"
  have u: "unat (off + n) = unat off + unat n" by (rule unat_add_32 [OF off(2)])
  have e: "unat off + unat ?n = min (unat off + unat n) (unat (i_size ip))"
  proof (cases "off + n > i_size ip")
    case True
    then have "unat (i_size ip - off) = unat (i_size ip) - unat off"
      using off(1) by (intro unat_sub)
    then show ?thesis using True u off(1) by (simp add: word_less_nat_alt word_le_nat_alt)
  next
    case False
    then show ?thesis using u by (simp add: word_less_nat_alt)
  qed
  have fit: "unat off + unat ?n \<le> (NDIRECT + NINDIRECT) * BSIZE"
    unfolding e using sz by (rule min.coboundedI2)
  obtain s' where s': "readi_loop i (unat off) (unat ?n) [] s
      = Inr ([] @ map (file_byte s (f_icache s i)) [unat off..<unat off + unat ?n], s')"
      "reads s'" "view s' = view s"
    using readi_loop_read [of s i "unat off" "unat ?n" "[]"] assms(1,3) ip m fit e by auto
  have "\<not> (off > i_size ip \<or> off + n < off)"
    using off(1) u by (auto simp: word_less_nat_alt word_le_nat_alt)
  then have "readi i off n s = Inr (Io (map (file_byte s ip) [unat off..<unat off + unat ?n]), s')"
    using ty s'(1) unfolding readi_def Let_def ip [symmetric] by simp
  then show ?thesis using s'(2,3) unfolding e by blast
qed


subsection \<open>Blocks behind the doubly and triple indirect blocks\<close>

lemma ind_step_read:
  assumes r: "reads s" and d: "i_dev (f_icache s i) = 1" and b: "b < f_disksize s" and k: "ind_get (cont s b) k \<noteq> 0"
  shows "\<exists>s'. ind_step i b k s = Inr (ind_get (cont s b) k, s') \<and> reads s' \<and> view s' = view s"
proof -
  obtain j s1 s2 where x: "bread 1 b s = Inr (j, s1)" "b_data (f_bufs s1 j) = cont s b" "brelse j s1 = Inr s2"
      "reads s2" "view s2 = view s" "f_icache s1 = f_icache s"
    by (rule reads_block [OF r b])
  then show ?thesis using d k by (simp add: ind_step_def)
qed

definition log_shut :: "fsys \<Rightarrow> bool" where
  "log_shut s \<longleftrightarrow> lg_outstanding (f_log s) < 1 \<and> lh_n (f_log s) < int LOGSIZE
     \<and> lh_n (f_log s) < lg_size (f_log s) - 1"

lemma log_block_panics:
  assumes r: "reads s" and d: "i_dev (f_icache s i) = 1" and b: "b < f_disksize s" and l: "log_shut s"
  shows "log_block i b s = Inl (Panic ''log_write outside of trans'')"
proof -
  have a: "bio_ok s" "b < fst (snd (v_rest (view s)))" "b \<notin> v_held (view s)"
    "b \<in> v_pinned (view s) \<or> card (v_pinned (view s) \<union> v_held (view s)) < NBUF"
    using r b by (simp_all add: reads_def)
  obtain j s1 where x: "bread 1 b s = Inr (j, s1)" "view s1 = (view s)\<lparr>v_held := insert b (v_held (view s))\<rparr>"
    by (rule bc.rd_fresh [OF a])
  have "f_log s1 = f_log s" using frest_view(2) [OF x(2)] .
  then have "log_write j s1 = Inl (Panic ''log_write outside of trans'')"
    using l by (simp add: log_write_def log_shut_def)
  then show ?thesis using x(1) d by (simp add: log_block_def)
qed

text \<open>
  Reading such a block outside an operation, as \<open>fileread\<close> does, panics: the walk ends in
  \<open>log_write\<close>, although nothing is changed.
\<close>

lemma bmap_deep:
  assumes r: "reads s" and d: "i_dev (f_icache s i) = 1" and m: "mapped s (f_icache s i) bn"
    and bn: "NDIRECT + NINDIRECT \<le> bn" "bn < MAXFILE" and l: "log_shut s"
  shows "bmap i bn s = Inl (Panic ''log_write outside of trans'')"
proof -
  let ?ip = "f_icache s i" and ?n = "bn - NDIRECT - NINDIRECT" and ?ind = "\<lambda>b k. ind_get (cont s b) k"
  have nb: "\<not> bn < NDIRECT" "\<not> bn - NDIRECT < NINDIRECT" using bn by auto
  have sh: "log_shut s'" "cont s' = cont s" "f_disksize s' = f_disksize s" "i_dev (f_icache s' i) = 1"
    if "view s' = view s" for s'
    using view_eqD [OF that] l d by (simp_all add: log_shut_def)
  show ?thesis
  proof (cases "?n < NINDIRECT * NINDIRECT")
    case True
    define a where "a = i_addrs ?ip (NDIRECT + 1)"
    define b where "b = ?ind a (?n div NINDIRECT)"
    have "block_path s ?ip bn = [a, b, ?ind b (?n mod NINDIRECT)]"
      using nb True by (simp add: block_path_def Let_def a_def b_def)
    then have ok: "a \<noteq> 0" "b \<noteq> 0" "?ind b (?n mod NINDIRECT) \<noteq> 0" "a < f_disksize s" "b < f_disksize s"
      "?ind b (?n mod NINDIRECT) < f_disksize s"
      using m by (simp_all add: mapped_def)
    obtain s1 where s1: "ind_step i a (?n div NINDIRECT) s = Inr (b, s1)" "reads s1" "view s1 = view s"
      using ind_step_read [OF r d ok(4)] ok(2) by (auto simp: b_def)
    obtain s2 where s2: "ind_step i b (?n mod NINDIRECT) s1 = Inr (?ind b (?n mod NINDIRECT), s2)" "reads s2" "view s2 = view s1"
      using ind_step_read [OF s1(2), of i b "?n mod NINDIRECT"] sh [OF s1(3)] ok by auto
    have v: "view s2 = view s" using s1(3) s2(3) by simp
    have "log_block i (?ind b (?n mod NINDIRECT)) s2 = Inl (Panic ''log_write outside of trans'')"
      by (rule log_block_panics [OF s2(2) sh(4) [OF v] _ sh(1) [OF v]]) (use ok sh(3) [OF v] in simp)
    then show ?thesis
      using nb True s1(1) s2(1) ok(1) by (simp add: bmap_def addr_slot_def Let_def a_def)
  next
    case False
    let ?m = "?n - NINDIRECT * NINDIRECT"
    let ?i = "?m div (NINDIRECT * NINDIRECT)" and ?j = "?m mod (NINDIRECT * NINDIRECT) div NINDIRECT"
      and ?k = "?m mod NINDIRECT"
    define a where "a = i_addrs ?ip (NDIRECT + 2)"
    define b where "b = ?ind a ?i"
    define c where "c = ?ind b ?j"
    have "block_path s ?ip bn = [a, b, c, ?ind c ?k]"
      using nb False by (simp add: block_path_def Let_def a_def b_def c_def)
    then have ok: "a \<noteq> 0" "b \<noteq> 0" "c \<noteq> 0" "?ind c ?k \<noteq> 0" "a < f_disksize s" "b < f_disksize s"
      "c < f_disksize s" "?ind c ?k < f_disksize s"
      using m by (simp_all add: mapped_def)
    obtain s1 where s1: "ind_step i a ?i s = Inr (b, s1)" "reads s1" "view s1 = view s"
      using ind_step_read [OF r d ok(5)] ok(2) by (auto simp: b_def)
    obtain s2 where s2: "ind_step i b ?j s1 = Inr (c, s2)" "reads s2" "view s2 = view s1"
      using ind_step_read [OF s1(2), of i b ?j] sh [OF s1(3)] ok by (auto simp: c_def)
    have v2: "view s2 = view s" using s1(3) s2(3) by simp
    obtain s3 where s3: "ind_step i c ?k s2 = Inr (?ind c ?k, s3)" "reads s3" "view s3 = view s2"
      using ind_step_read [OF s2(2), of i c ?k] sh [OF v2] ok by auto
    have v: "view s3 = view s" using v2 s3(3) by simp
    have "log_block i (?ind c ?k) s3 = Inl (Panic ''log_write outside of trans'')"
      by (rule log_block_panics [OF s3(2) sh(4) [OF v] _ sh(1) [OF v]]) (use ok sh(3) [OF v] in simp)
    moreover have "?m < NINDIRECT * NINDIRECT * NINDIRECT"
      using bn False by (simp add: MAXFILE_def NDIRECT_def NINDIRECT_def)
    ultimately show ?thesis
      using nb False s1(1) s2(1) s3(1) ok(1) by (simp add: bmap_def addr_slot_def Let_def a_def)
  qed
qed

lemma readi_deep:
  assumes "reads s" "i_dev (f_icache s i) = 1" "i_type (f_icache s i) \<noteq> T_DEV" "log_shut s"
    and m: "mapped s (f_icache s i) (unat off div BSIZE)"
    and off: "(NDIRECT + NINDIRECT) * BSIZE \<le> unat off" "unat off < MAXFILE * BSIZE"
    and n: "off < i_size (f_icache s i)" "0 < n" "unat off + unat n < 2 ^ 32"
  shows "readi i off n s = Inl (Panic ''log_write outside of trans'')"
proof -
  have "unat (off + n) = unat off + unat n" by (rule unat_add_32 [OF n(3)])
  then have g: "\<not> (off > i_size (f_icache s i) \<or> off + n < off)"
    using n(1) by (auto simp: word_less_nat_alt)
  have b: "NDIRECT + NINDIRECT \<le> unat off div BSIZE" "unat off div BSIZE < MAXFILE"
    using off by (simp_all add: less_mult_imp_div_less less_eq_div_iff_mult_less_eq BSIZE_def)
  have "unat (i_size (f_icache s i) - off) = unat (i_size (f_icache s i)) - unat off"
    using n(1) by (intro unat_sub) simp
  then have nz: "unat (if off + n > i_size (f_icache s i) then i_size (f_icache s i) - off else n) \<noteq> 0"
    using n(1,2) by (simp add: word_less_nat_alt)
  show ?thesis
    using g nz bmap_deep [OF assms(1,2) m b assms(4)] assms(3)
    unfolding readi_def Let_def by (subst readi_loop.simps) simp
qed

end
