(* ===== verification/Inode_Write.thy ===== *)
theory Inode_Write
  imports Inode_Read
begin

text \<open>
  Writing a file inside an operation: \<open>writei\<close> over mapped blocks changes the bytes of the file
  from the offset on to those of the source and no other byte, logging one block for each one it
  touches and one for the inode when the file grows; \<open>iupdate\<close> writes the inode to its slot of
  the inode table, from which \<open>ilock\<close> reads it back.
\<close>

definition idle :: "fsys \<Rightarrow> bool" where
  "idle s \<longleftrightarrow> (\<forall>i b. \<not> holds s i b)"

lemma idle_holds: "idle s \<Longrightarrow> holds s' = holds s \<Longrightarrow> idle s'"
  by (simp add: idle_def)

lemma idle_txn: "idle s \<Longrightarrow> \<forall>i. \<not> holds s i b" "idle s \<Longrightarrow> card {x. \<exists>i. holds s i x} \<le> 3"
  by (simp_all add: idle_def)

lemma txn_reads: "txn k s \<Longrightarrow> idle s \<Longrightarrow> reads s"
  using txnD(2,8) [of k s] by (auto simp: reads_def view_def idle_def NBUF_def)

lemma txn_icache [simp]: "txn k (s\<lparr>f_icache := c\<rparr>) = txn k s"
  by (simp add: txn_def log_ok_def layout_ok_def)

lemma bmap_txn:
  assumes t: "txn k s" "idle s" and d: "i_dev (f_icache s i) = 1" and m: "mapped s (f_icache s i) bn"
    and bn: "bn < NDIRECT + NINDIRECT"
  shows "\<exists>s'. bmap i bn s = Inr (block_addr s (f_icache s i) bn, s') \<and> txn k s' \<and> holds s' = holds s
    \<and> cont s' = cont s \<and> frest s' = frest s"
proof (cases "bn < NDIRECT")
  case True
  then show ?thesis using bmap_direct [OF m] t(1) by simp
next
  case False
  let ?ip = "f_icache s i" and ?n = "bn - NDIRECT"
  let ?a = "i_addrs ?ip NDIRECT"
  have p: "block_path s ?ip bn = [?a, ind_get (cont s ?a) ?n]"
    using bn False by (simp add: block_path_def Let_def)
  have a: "?a \<noteq> 0" "?a < f_disksize s" "ind_get (cont s ?a) ?n \<noteq> 0"
    using m by (simp_all add: mapped_def p)
  have u: "on_disk (frest s) ?a" using a(2) by simp
  obtain j s1 s2 where x: "bread 1 ?a s = Inr (j, s1)" "b_data (f_bufs s1 j) = cont s ?a"
      "brelse j s1 = Inr s2" "txn k s2" "holds s2 = holds s" "cont s2 = cont s" "frest s2 = frest s"
    using tx.read_one [OF t(1) u idle_txn [OF t(2)]] by blast
  have n: "?n < NINDIRECT" using bn False by simp
  have "bmap i bn s = Inr (block_addr s ?ip bn, s2)"
    using False n a x by (simp add: bmap_def addr_slot_def d Let_def block_addr_def p)
  then show ?thesis using x by blast
qed


subsection \<open>The blocks of a file\<close>

definition data_ok :: "fsys \<Rightarrow> inode \<Rightarrow> nat \<Rightarrow> bool" where
  "data_ok s ip n \<longleftrightarrow> n \<le> NDIRECT + NINDIRECT
     \<and> (\<forall>bn<n. mapped s ip bn \<and> block_addr s ip bn \<notin> log_area (f_log s))
     \<and> inj_on (block_addr s ip) {..<n}
     \<and> (NDIRECT < n \<longrightarrow> i_addrs ip NDIRECT \<notin> block_addr s ip ` {..<n})"

definition data_blocks :: "fsys \<Rightarrow> inode \<Rightarrow> nat \<Rightarrow> u32 set" where
  "data_blocks s ip n = block_addr s ip ` {..<n}"

lemma data_okD:
  assumes "data_ok s ip n" and "bn < n"
  shows "bn < NDIRECT + NINDIRECT" "mapped s ip bn" "block_addr s ip bn \<notin> log_area (f_log s)"
    "x < n \<Longrightarrow> block_addr s ip x = block_addr s ip bn \<Longrightarrow> x = bn"
    "NDIRECT < n \<Longrightarrow> i_addrs ip NDIRECT \<noteq> block_addr s ip bn" "block_addr s ip bn < f_disksize s"
proof -
  have "block_addr s ip bn \<in> set (block_path s ip bn)"
    unfolding block_addr_def by (rule last_in_set) (simp add: block_path_def Let_def)
  then show "block_addr s ip bn < f_disksize s"
    using assms by (simp add: data_ok_def mapped_def)
qed (use assms in \<open>auto simp: data_ok_def inj_on_def\<close>)

text \<open>The addresses depend on the inode's pointers and the indirect block alone.\<close>

lemma block_path_same:
  assumes "bn < NDIRECT + NINDIRECT" and "i_addrs ip' = i_addrs ip"
    and "NDIRECT \<le> bn \<Longrightarrow> cont s' (i_addrs ip NDIRECT) = cont s (i_addrs ip NDIRECT)"
  shows "block_path s' ip' bn = block_path s ip bn" "block_addr s' ip' bn = block_addr s ip bn"
  using assms by (auto simp: block_path_def block_addr_def Let_def)

lemma data_ok_same:
  assumes d: "data_ok s ip n" and a: "i_addrs ip' = i_addrs ip" and f: "f_disksize s' = f_disksize s"
    "log_area (f_log s') = log_area (f_log s)"
    and c: "NDIRECT < n \<Longrightarrow> cont s' (i_addrs ip NDIRECT) = cont s (i_addrs ip NDIRECT)"
  shows "data_ok s' ip' n" "bn < n \<Longrightarrow> block_addr s' ip' bn = block_addr s ip bn"
    "data_blocks s' ip' n = data_blocks s ip n"
proof -
  have p: "block_path s' ip' x = block_path s ip x" "block_addr s' ip' x = block_addr s ip x" if "x < n" for x
    using block_path_same [OF data_okD(1) [OF d that] a] c that by auto
  then show "block_addr s' ip' bn = block_addr s ip bn" if "bn < n" using that by simp
  have "block_addr s' ip' ` {..<n} = block_addr s ip ` {..<n}" using p by (intro image_cong) auto
  moreover from this have "inj_on (block_addr s' ip') {..<n} \<longleftrightarrow> inj_on (block_addr s ip) {..<n}"
    using p by (intro inj_on_cong) simp
  ultimately show "data_ok s' ip' n" "data_blocks s' ip' n = data_blocks s ip n"
    using d p a f by (auto simp: data_ok_def mapped_def data_blocks_def)
qed

text \<open>Storing into one block of the file changes that block alone.\<close>

lemma store_block:
  assumes d: "data_ok s ip n" and bn: "bn < n" and c: "cont s' = (cont s)(block_addr s ip bn := c)"
    and f: "f_disksize s' = f_disksize s" "log_area (f_log s') = log_area (f_log s)"
  shows "data_ok s' ip n" "\<And>x. x < n \<Longrightarrow> block_addr s' ip x = block_addr s ip x"
    "data_blocks s' ip n = data_blocks s ip n"
    "\<And>j. j div BSIZE < n \<Longrightarrow> file_byte s' ip j = (if j div BSIZE = bn then c (j mod BSIZE) else file_byte s ip j)"
proof -
  have i: "NDIRECT < n \<Longrightarrow> cont s' (i_addrs ip NDIRECT) = cont s (i_addrs ip NDIRECT)"
    using data_okD(5) [OF d bn] c by simp
  show D: "data_ok s' ip n" "\<And>x. x < n \<Longrightarrow> block_addr s' ip x = block_addr s ip x"
    "data_blocks s' ip n = data_blocks s ip n"
    by (rule data_ok_same [OF d refl f]; use i in simp)+
  show "file_byte s' ip j = (if j div BSIZE = bn then c (j mod BSIZE) else file_byte s ip j)"
    if "j div BSIZE < n" for j
    using D(2) [OF that] data_okD(4) [OF d bn that] by (auto simp: file_byte_def c)
qed


subsection \<open>The loop\<close>

text \<open>The number of blocks the bytes from \<open>off\<close> to \<open>off + n\<close> touch.\<close>

definition touched :: "nat \<Rightarrow> nat \<Rightarrow> nat" where
  "touched off n = (if n = 0 then 0 else (off + n - 1) div BSIZE - off div BSIZE + 1)"

lemma touched_step:
  assumes "0 < n" and "m = min n (BSIZE - off mod BSIZE)"
  shows "touched off n = Suc (touched (off + m) (n - m))"
proof (cases "m = n")
  case True
  have "off mod BSIZE + (n - 1) < BSIZE"
    using assms True by (simp add: BSIZE_def)
  then have "(off mod BSIZE + (n - 1)) div BSIZE = 0" by (rule div_less)
  moreover have "((off mod BSIZE + (n - 1)) + off div BSIZE * BSIZE) div BSIZE
      = off div BSIZE + (off mod BSIZE + (n - 1)) div BSIZE"
    by (rule div_mult_self1) (simp add: BSIZE_def)
  moreover have "off mod BSIZE + (n - 1) + off div BSIZE * BSIZE = off + n - 1"
    using assms(1) mod_div_mult_eq [of off BSIZE] by linarith
  ultimately show ?thesis using assms True by (simp add: touched_def)
next
  case False
  then have m: "m = BSIZE - off mod BSIZE" "m < n" using assms by auto
  have "off + m = (off div BSIZE + 1) * BSIZE"
    using m(1) mod_div_mult_eq [of off BSIZE] mod_less_divisor [of BSIZE off]
    BSIZE_def
    unfolding distrib_right mult_1_left by linarith
  then have e: "(off + m) div BSIZE = off div BSIZE + 1" by (simp add: BSIZE_def)
  moreover have "(off + m) div BSIZE \<le> (off + n - 1) div BSIZE" using m(2) by (intro div_le_mono) simp
  ultimately show ?thesis using assms(1) m(2) by (simp add: touched_def)
qed

lemma same_block_range:
  assumes "off mod BSIZE + m \<le> BSIZE"
  shows "off \<le> j \<and> j < off + m \<longleftrightarrow>
      j div BSIZE = off div BSIZE \<and> off mod BSIZE \<le> j mod BSIZE \<and> j mod BSIZE < off mod BSIZE + m"
    and "j div BSIZE = off div BSIZE \<Longrightarrow> j mod BSIZE - off mod BSIZE = j - off"
proof -
  have e: "off = off div BSIZE * BSIZE + off mod BSIZE" "j = j div BSIZE * BSIZE + j mod BSIZE" by simp_all
  have l: "j mod BSIZE < BSIZE" by (simp add: BSIZE_def)
  have "j div BSIZE = off div BSIZE" if "off \<le> j" "j < off + m"
  proof -
    have "j < (off div BSIZE + 1) * BSIZE" using that(2) assms e(1) by (simp only: distrib_right mult_1_left)
    then have "j div BSIZE < off div BSIZE + 1" by (simp add: less_mult_imp_div_less)
    then show ?thesis using div_le_mono [OF that(1), of BSIZE] by simp
  qed
  moreover have eq: "j = off div BSIZE * BSIZE + j mod BSIZE" if "j div BSIZE = off div BSIZE"
    using e(2) that by simp
  ultimately show "off \<le> j \<and> j < off + m \<longleftrightarrow>
      j div BSIZE = off div BSIZE \<and> off mod BSIZE \<le> j mod BSIZE \<and> j mod BSIZE < off mod BSIZE + m"
    using e(1) by (smt (verit, ccfv_threshold) add.assoc nat_add_left_cancel_le nat_add_left_cancel_less)
  show "j div BSIZE = off div BSIZE \<Longrightarrow> j mod BSIZE - off mod BSIZE = j - off"
    using eq e(1) by (metis diff_cancel2 add.commute)
qed

definition wrote :: "fsys \<Rightarrow> inode \<Rightarrow> nat \<Rightarrow> mem \<Rightarrow> nat \<Rightarrow> nat \<Rightarrow> nat \<Rightarrow> fsys \<Rightarrow> bool" where
  "wrote s ip nb src tot off n s' \<longleftrightarrow> idle s' \<and> frest s' = frest s \<and> data_ok s' ip nb
     \<and> data_blocks s' ip nb = data_blocks s ip nb
     \<and> (\<forall>j<nb * BSIZE. file_byte s' ip j = (if off \<le> j \<and> j < off + n then src (tot + (j - off)) else file_byte s ip j))
     \<and> (\<forall>b. b \<notin> data_blocks s ip nb \<longrightarrow> cont s' b = cont s b)"

lemma writei_step:
  assumes t: "txn (Suc k) s" and q: "idle s" and d: "i_dev (f_icache s i) = 1"
    and ok: "data_ok s (f_icache s i) nb" and bn: "off div BSIZE < nb" and n: "0 < n"
    and m: "m = min n (BSIZE - off mod BSIZE)"
  obtains s' where "writei_loop i src tot off n s = writei_loop i src (tot + m) (off + m) (n - m) s'" "txn k s'"
    "wrote s (f_icache s i) nb src tot off m s'"
proof -
  let ?ip = "f_icache s i" and ?b = "off div BSIZE" and ?g = "mcopy src tot (off mod BSIZE) m"
  let ?a = "block_addr s ?ip ?b"
  note D = data_okD [OF ok bn]
  obtain s1 where s1: "bmap i ?b s = Inr (?a, s1)" "txn (Suc k) s1" "holds s1 = holds s" "cont s1 = cont s"
      "frest s1 = frest s"
    using bmap_txn [OF t q d D(2,1)] by blast
  note F1 = frestD [OF s1(5)]
  have h: "home_blk (frest s1) ?a" using D F1 by simp
  have q1: "idle s1" using idle_holds [OF q s1(3)] .
  obtain j s2 s3 s4 where x: "bread 1 ?a s1 = Inr (j, s2)" "frest s2 = frest s1"
      "log_write j (bstore j ?g s2) = Inr s3" "brelse j s3 = Inr s4" "txn k s4"
      "holds s4 = holds s1" "cont s4 = (cont s1)(?a := ?g (cont s1 ?a))" "frest s4 = frest s1"
    by (rule tx.log_one [OF s1(2) h idle_txn [OF q1], where g = ?g])
  have f: "frest s4 = frest s" using x(8) s1(5) by simp
  note F = frestD [OF f]
  have c: "cont s4 = (cont s)(?a := ?g (cont s ?a))" using x(7) s1(4) by simp
  note S = store_block [OF ok bn c F(3,7)]
  have "writei_loop i src tot off n s = writei_loop i src (tot + m) (off + m) (n - m) s4"
    using n s1(1) x(1,3,4) F1 d by (subst writei_loop.simps) (simp add: m Let_def)
  moreover have "file_byte s4 ?ip j
      = (if off \<le> j \<and> j < off + m then src (tot + (j - off)) else file_byte s ?ip j)" if "j < nb * BSIZE" for j
  proof -
    have jb: "j div BSIZE < nb" using that by (simp add: less_mult_imp_div_less)
    have "off mod BSIZE + m \<le> BSIZE" using m by (simp add: BSIZE_def)
    note in_range = same_block_range [OF this]
    show ?thesis
      unfolding S(4) [OF jb] in_range(1) using in_range(2) by (auto simp: mcopy_def file_byte_def)
  qed
  moreover have "cont s4 b = cont s b" if "b \<notin> data_blocks s ?ip nb" for b
    using that bn by (auto simp: c data_blocks_def)
  moreover have "idle s4" using idle_holds [OF q] x(6) s1(3) by simp
  ultimately show thesis using that x(5) f S(1,3) by (simp add: wrote_def)
qed

lemma writei_loop_spec:
  assumes "txn (k + touched off n) s" and "idle s" and "i_dev (f_icache s i) = 1"
    and "data_ok s (f_icache s i) nb" and "off + n \<le> nb * BSIZE"
  shows "\<exists>s'. writei_loop i src tot off n s = Inr s' \<and> txn k s' \<and> wrote s (f_icache s i) nb src tot off n s'"
  using assms
proof (induction n arbitrary: off tot s rule: less_induct)
  case (less n)
  let ?ip = "f_icache s i"
  show ?case
  proof (cases "n = 0")
    case True
    then show ?thesis using less.prems by (auto simp: writei_loop.simps touched_def wrote_def)
  next
    case False
    define m where "m = min n (BSIZE - off mod BSIZE)"
    have m: "0 < m" "m \<le> n" using False by (auto simp: m_def BSIZE_def)
    have t: "txn (Suc (k + touched (off + m) (n - m))) s"
      using less.prems(1) touched_step [of n m off] False by (simp add: m_def)
    have bn: "off div BSIZE < nb" using less.prems(5) False by (simp add: less_mult_imp_div_less)
    obtain s1 where s1: "writei_loop i src tot off n s = writei_loop i src (tot + m) (off + m) (n - m) s1"
        "txn (k + touched (off + m) (n - m)) s1" "wrote s ?ip nb src tot off m s1"
      using writei_step [OF t less.prems(2,3,4) bn _ m_def] False by blast
    have w: "idle s1" "frest s1 = frest s" "data_ok s1 ?ip nb" using s1(3) by (simp_all add: wrote_def)
    note F = frestD(2) [OF w(2)]
    obtain s2 where s2: "writei_loop i src (tot + m) (off + m) (n - m) s1 = Inr s2" "txn k s2"
        "wrote s1 ?ip nb src (tot + m) (off + m) (n - m) s2"
      using less.IH [of "n - m" "off + m" s1 "tot + m"] m s1(2) w less.prems(3,5) False F by auto
    have "wrote s ?ip nb src tot off n s2"
      using s1(3) s2(3) m by (auto simp: wrote_def intro!: arg_cong [of _ _ src])
    then show ?thesis using s1(1) s2(1,2) by auto
  qed
qed


subsection \<open>The inode on the disk\<close>

definition inode_home :: "fsys \<Rightarrow> u32 \<Rightarrow> bool" where
  "inode_home s inum \<longleftrightarrow> IBLOCK inum (f_sb s) < f_disksize s \<and> IBLOCK inum (f_sb s) \<notin> log_area (f_log s)"

lemma iupdate_spec:
  assumes t: "txn (Suc k) s" "idle s" and d: "i_dev (f_icache s i) = 1"
    and h: "inode_home s (i_inum (f_icache s i))"
  shows "\<exists>s'. iupdate i s = Inr s' \<and> txn k s' \<and> holds s' = holds s \<and> frest s' = frest s
    \<and> cont s' = (cont s)(IBLOCK (i_inum (f_icache s i)) (f_sb s) :=
        put_dinode (f_icache s i) (dinode_off (i_inum (f_icache s i)))
          (cont s (IBLOCK (i_inum (f_icache s i)) (f_sb s))))"
proof -
  let ?ip = "f_icache s i" and ?b = "IBLOCK (i_inum (f_icache s i)) (f_sb s)"
  let ?g = "put_dinode ?ip (dinode_off (i_inum ?ip))"
  have u: "home_blk (frest s) ?b" using h by (simp add: inode_home_def)
  obtain j s1 s2 s3 where x: "bread 1 ?b s = Inr (j, s1)" "frest s1 = frest s"
      "log_write j (bstore j ?g s1) = Inr s2" "brelse j s2 = Inr s3" "txn k s3"
      "holds s3 = holds s" "cont s3 = (cont s)(?b := ?g (cont s ?b))" "frest s3 = frest s"
    by (rule tx.log_one [OF t(1) u idle_txn [OF t(2)], where g = ?g])
  have "iupdate i s = Inr s3" using x(1,3,4) d by (simp add: iupdate_def Let_def)
  then show ?thesis using x by blast
qed

text \<open>The two ends of the codec of a disk inode.\<close>

lemma fold_put32:
  assumes "k < m"
  shows "get32 (fold (\<lambda>k. put32 (a + 12 + 4 * k) (f k)) [0..<m] mm) (a + 12 + 4 * k) = f k"
  using assms by (induction m) (auto simp: get_put32_other less_Suc_eq)

lemma fold_put32_out:
  assumes "x < a + 12 \<or> a + 12 + 4 * m \<le> x"
  shows "fold (\<lambda>k. put32 (a + 12 + 4 * k) (f k)) [0..<m] mm x = mm x"
  using assms by (induction m) (auto simp: put32_outside)

lemma get_put_dinode:
  "get_dinode a (put_dinode ip a m) jp = jp\<lparr>i_type := i_type ip, i_major := i_major ip, i_minor := i_minor ip,
     i_nlink := i_nlink ip, i_size := i_size ip,
     i_addrs := \<lambda>k. if k < NDIRECT + 3 then i_addrs ip k else i_addrs jp k\<rparr>"
proof -
  let ?m = "put_dinode ip a m"
  have "get16 ?m a = i_type ip" "get16 ?m (a + 2) = i_major ip" "get16 ?m (a + 4) = i_minor ip"
    "get16 ?m (a + 6) = i_nlink ip" "get32 ?m (a + 8) = i_size ip"
    unfolding put_dinode_def
    by (subst get16_cong get32_cong, rule fold_put32_out, simp,
        simp add: get_put16_other get_put32_other get16_put32_other get32_put16_other)+
  moreover have "get32 ?m (a + 12 + 4 * k) = i_addrs ip k" if "k < NDIRECT + 3" for k
    unfolding put_dinode_def by (rule fold_put32 [OF that])
  ultimately show ?thesis by (simp add: get_dinode_def cong: if_cong)
qed

lemma put_dinode_out: "x < a \<or> a + 64 \<le> x \<Longrightarrow> put_dinode ip a m x = m x"
  unfolding put_dinode_def
  by (subst fold_put32_out) (auto simp: put32_outside put16_outside NDIRECT_def)


subsection \<open>writei\<close>

text \<open>What \<open>writei\<close> needs: a file of \<open>nb\<close> mapped blocks, its inode's block apart from them.\<close>

definition can_write :: "fsys \<Rightarrow> nat \<Rightarrow> nat \<Rightarrow> bool" where
  "can_write s i nb \<longleftrightarrow>
     (let ip = f_icache s i; ib = IBLOCK (i_inum ip) (f_sb s) in
      i_dev ip = 1 \<and> i_type ip \<noteq> T_DEV \<and> data_ok s ip nb \<and> unat (i_size ip) \<le> nb * BSIZE
      \<and> inode_home s (i_inum ip) \<and> ib \<notin> data_blocks s ip nb \<and> (NDIRECT < nb \<longrightarrow> ib \<noteq> i_addrs ip NDIRECT))"

definition file_bytes :: "fsys \<Rightarrow> nat \<Rightarrow> u8 list" where
  "file_bytes s i = map (file_byte s (f_icache s i)) [0..<unat (i_size (f_icache s i))]"

text \<open>Bytes \<open>off\<close> to \<open>off + n\<close> of a list replaced, the list growing as needed.\<close>

definition splice :: "nat \<Rightarrow> u8 list \<Rightarrow> u8 list \<Rightarrow> u8 list" where
  "splice off cs xs = take off xs @ cs @ drop (off + length cs) xs"

lemma splice_map:
  assumes "off \<le> sz" and "\<And>j. j < max sz (off + length cs) \<Longrightarrow>
      g j = (if off \<le> j \<and> j < off + length cs then cs ! (j - off) else f j)"
  shows "map g [0..<max sz (off + length cs)] = splice off cs (map f [0..<sz])"
  by (rule nth_equalityI) (use assms in \<open>auto simp: splice_def nth_append\<close>)

definition written :: "nat \<Rightarrow> nat \<Rightarrow> nat \<Rightarrow> u8 list \<Rightarrow> nat \<Rightarrow> fsys \<Rightarrow> fsys \<Rightarrow> bool" where
  "written k i off cs nb s s' \<longleftrightarrow> txn k s' \<and> idle s' \<and> can_write s' i nb
     \<and> file_bytes s' i = splice off cs (file_bytes s i)
     \<and> (\<forall>b. b \<notin> data_blocks s (f_icache s i) nb \<longrightarrow> b \<noteq> IBLOCK (i_inum (f_icache s i)) (f_sb s) \<longrightarrow>
          cont s' b = cont s b)"

lemma writei_stay:
  assumes w: "can_write s i nb" and wr: "wrote s (f_icache s i) nb src 0 off n s'" and off: "off \<le> unat (i_size (f_icache s i))"
    and le: "off + n \<le> unat (i_size (f_icache s i))" and t: "txn k s'"
  shows "written k i off (bytes src 0 n) nb s s'"
proof -
  let ?ip = "f_icache s i"
  have c: "idle s'" "frest s' = frest s" "data_ok s' ?ip nb" "data_blocks s' ?ip nb = data_blocks s ?ip nb"
    using wr by (simp_all add: wrote_def)
  note F = frestD [OF c(2)]
  have "can_write s' i nb"
    using w c(3,4) unfolding can_write_def Let_def inode_home_def F by simp
  moreover have "file_byte s' ?ip j = (if off \<le> j \<and> j < off + length (bytes src 0 n)
      then bytes src 0 n ! (j - off) else file_byte s ?ip j)" if "j < unat (i_size ?ip)" for j
    using wr that w by (auto simp: wrote_def can_write_def Let_def)
  then have "file_bytes s' i = splice off (bytes src 0 n) (file_bytes s i)"
    using splice_map [OF off, where cs = "bytes src 0 n" and g = "file_byte s' ?ip" and f = "file_byte s ?ip"] le
    by (simp add: file_bytes_def F max_absorb1)
  ultimately show ?thesis using t c(1) wr by (simp add: written_def wrote_def)
qed

lemma writei_grow:
  assumes w: "can_write s i nb" and wr: "wrote s (f_icache s i) nb src 0 (unat off) (unat n) s1"
    and off: "off \<le> i_size (f_icache s i)" "unat off + unat n \<le> nb * BSIZE"
    and gr: "off + n > i_size (f_icache s i)" "unat off + unat n < 2 ^ 32" and t: "txn (Suc k) s1"
  shows "\<exists>s'. iupdate i (upd_inode i (\<lambda>ip. ip\<lparr>i_size := off + n\<rparr>) s1) = Inr s'
    \<and> written k i (unat off) (bytes src 0 (unat n)) nb s s'"
proof -
  let ?ip = "f_icache s i" and ?s2 = "upd_inode i (\<lambda>ip. ip\<lparr>i_size := off + n\<rparr>) s1"
  let ?ib = "IBLOCK (i_inum ?ip) (f_sb s)"
  have u: "unat (off + n) = unat off + unat n" by (rule unat_add_32 [OF gr(2)])
  have c: "idle s1" "frest s1 = frest s" "data_ok s1 ?ip nb" "data_blocks s1 ?ip nb = data_blocks s ?ip nb"
    using wr by (simp_all add: wrote_def)
  note F = frestD [OF c(2)]
  have k: "i_dev ?ip = 1" "i_type ?ip \<noteq> T_DEV" "inode_home s (i_inum ?ip)" "?ib \<notin> data_blocks s ?ip nb"
    "NDIRECT < nb \<Longrightarrow> ?ib \<noteq> i_addrs ?ip NDIRECT" "unat (i_size ?ip) \<le> nb * BSIZE"
    using w by (simp_all add: can_write_def Let_def)
  have s2: "txn (Suc k) ?s2" "idle ?s2" "holds ?s2 = holds s1" "cont ?s2 = cont s1"
    using t c(1) by (simp_all add: idle_def)
  have ip2: "f_icache ?s2 i = ?ip\<lparr>i_size := off + n\<rparr>" by (simp add: F)
  obtain s' where s': "iupdate i ?s2 = Inr s'" "txn k s'" "holds s' = holds ?s2" "frest s' = frest ?s2"
      "cont s' = (cont s1)(?ib := put_dinode (?ip\<lparr>i_size := off + n\<rparr>) (dinode_off (i_inum ?ip)) (cont s1 ?ib))"
    using iupdate_spec [OF s2(1,2), of i] k(1,3) F by (auto simp: inode_home_def)
  note G = frestD [OF s'(4)]
  let ?jp = "?ip\<lparr>i_size := off + n\<rparr>"
  have ip': "f_icache s' i = ?jp" using G(2) ip2 by simp
  have fr: "f_disksize s' = f_disksize s1" "log_area (f_log s') = log_area (f_log s1)" using G(3,7) by simp_all
  have D: "data_ok s' ?jp nb" "data_blocks s' ?jp nb = data_blocks s1 ?ip nb"
    "\<And>bn. bn < nb \<Longrightarrow> block_addr s' ?jp bn = block_addr s1 ?ip bn"
    by (rule data_ok_same [OF c(3) _ fr]; use s'(5) k(5) in simp)+
  have "can_write s' i nb"
    using D k G u off(2) c(4) unfolding can_write_def Let_def inode_home_def ip' by (simp add: F)
  moreover have "file_byte s' ?jp j = (if unat off \<le> j \<and> j < unat off + length (bytes src 0 (unat n))
      then bytes src 0 (unat n) ! (j - unat off) else file_byte s ?ip j)" if "j < unat off + unat n" for j
  proof -
    have j: "j < nb * BSIZE" using that off(2) by simp
    then have jb: "j div BSIZE < nb" by (simp add: less_mult_imp_div_less)
    then have "block_addr s1 ?ip (j div BSIZE) \<in> data_blocks s ?ip nb"
      using c(4) by (auto simp: data_blocks_def)
    then have "file_byte s' ?jp j = file_byte s1 ?ip j"
      using k(4) D(3) [OF jb] by (auto simp: file_byte_def s'(5))
    then show ?thesis using wr j that by (auto simp: wrote_def)
  qed
  then have "file_bytes s' i = splice (unat off) (bytes src 0 (unat n)) (file_bytes s i)"
    using splice_map [of "unat off" "unat (i_size ?ip)" "bytes src 0 (unat n)" "file_byte s' ?jp" "file_byte s ?ip"]
      off(1) gr(1) u by (simp add: file_bytes_def ip' max_absorb2 word_less_nat_alt word_le_nat_alt)
  moreover have "cont s' b = cont s b" if "b \<notin> data_blocks s ?ip nb" "b \<noteq> ?ib" for b
    using that s'(5) wr by (simp add: wrote_def)
  ultimately show ?thesis using s'(1,2) idle_holds [OF s2(2) s'(3)] by (auto simp: written_def)
qed

lemma writei_spec:
  assumes t: "txn (Suc (k + touched (unat off) (unat n))) s" "idle s" and w: "can_write s i nb"
    and off: "off \<le> i_size (f_icache s i)" "unat off + unat n \<le> nb * BSIZE"
  shows "\<exists>s'. writei i src off n s = Inr (Io n, s') \<and> written k i (unat off) (bytes src 0 (unat n)) nb s s'"
proof -
  let ?ip = "f_icache s i"
  have c: "i_dev ?ip = 1" "i_type ?ip \<noteq> T_DEV" "data_ok s ?ip nb" "nb \<le> NDIRECT + NINDIRECT"
    using w by (simp_all add: can_write_def Let_def data_ok_def)
  have "nb * BSIZE \<le> (NDIRECT + NINDIRECT) * BSIZE" using c(4) by (rule mult_le_mono1)
  with off(2) have "unat off + unat n \<le> (NDIRECT + NINDIRECT) * BSIZE" by (rule order_trans)
  then have small: "unat off + unat n \<le> 138 * BSIZE" by (simp add: NDIRECT_def NINDIRECT_def)
  then have lt: "unat off + unat n < 2 ^ 32" by (simp add: BSIZE_def)
  have u: "unat (off + n) = unat off + unat n" by (rule unat_add_32 [OF lt])
  have guard: "\<not> (off > i_size ?ip \<or> off + n < off)" "\<not> unat (off + n) > MAXFILE * BSIZE"
    using off(1) u small by (auto simp: word_less_nat_alt word_le_nat_alt MAXFILE_def BSIZE_def)
  obtain s1 where s1: "writei_loop i src 0 (unat off) (unat n) s = Inr s1" "txn (Suc k) s1"
      "wrote s ?ip nb src 0 (unat off) (unat n) s1"
    using writei_loop_spec [of "Suc k" "unat off" "unat n" s i nb src 0] t c(1,3) off(2) by auto
  have ip1: "f_icache s1 i = ?ip" using frestD(2) [of s1 s] s1(3) by (simp add: wrote_def)
  have run: "writei i src off n s = (if n > 0 \<and> off + n > i_size ?ip
      then bind_res (iupdate i (upd_inode i (\<lambda>ip. ip\<lparr>i_size := off + n\<rparr>) s1)) (\<lambda>s. Inr (Io n, s)) else Inr (Io n, s1))"
    using guard c(2) s1(1) unfolding writei_def Let_def by (simp add: ip1)
  show ?thesis
  proof (cases "off + n > i_size ?ip")
    case True
    then have "n > 0" using off(1) by (metis add.right_neutral not_less word_neq_0_conv)
    then show ?thesis using run True writei_grow [OF w s1(3) off True lt s1(2)] by auto
  next
    case False
    then have "written k i (unat off) (bytes src 0 (unat n)) nb s s1"
      using writei_stay [OF w s1(3)] txn_mono [OF s1(2)] off(1) u by (simp add: word_less_nat_alt word_le_nat_alt)
    then show ?thesis using run False by auto
  qed
qed


subsection \<open>Reading back\<close>

text \<open>What can be written can be read, all of it.\<close>

lemma readi_back:
  assumes r: "reads s" and w: "can_write s i nb" and off: "off \<le> i_size (f_icache s i)" "unat off + unat n < 2 ^ 32"
  shows "\<exists>s'. readi i off n s = Inr (Io (take (unat n) (drop (unat off) (file_bytes s i))), s')
    \<and> reads s' \<and> view s' = view s"
proof -
  let ?ip = "f_icache s i"
  have c: "i_dev ?ip = 1" "i_type ?ip \<noteq> T_DEV" "data_ok s ?ip nb" "unat (i_size ?ip) \<le> nb * BSIZE"
    using w by (simp_all add: can_write_def Let_def)
  have "nb * BSIZE \<le> (NDIRECT + NINDIRECT) * BSIZE" using c(3) by (intro mult_le_mono1) (simp add: data_ok_def)
  with c(4) have sz: "unat (i_size ?ip) \<le> (NDIRECT + NINDIRECT) * BSIZE" by (rule order_trans)
  have m: "mapped s ?ip bn" if "bn * BSIZE < unat (i_size ?ip)" for bn
  proof -
    have "bn * BSIZE < nb * BSIZE" using that c(4) by linarith
    then show ?thesis using data_okD(2) [OF c(3)] by simp
  qed
  have "map (file_byte s ?ip) [unat off..<min (unat off + unat n) (unat (i_size ?ip))]
      = take (unat n) (drop (unat off) (file_bytes s i))"
    by (simp add: file_bytes_def drop_map take_map min_def)
  then show ?thesis using readi_spec [OF r refl c(1,2) off sz m] by simp
qed

lemma splice_back:
  assumes "off \<le> length xs"
  shows "take (length cs) (drop off (splice off cs xs)) = cs"
  using assms by (simp add: splice_def)

lemma length_splice [simp]: "off \<le> length xs \<Longrightarrow> length (splice off cs xs) = max (length xs) (off + length cs)"
  by (simp add: splice_def)

lemma writei_readi:
  assumes t: "txn (Suc (k + touched (unat off) (unat n))) s" "idle s" and w: "can_write s i nb"
    and off: "off \<le> i_size (f_icache s i)" "unat off + unat n \<le> nb * BSIZE"
  shows "\<exists>s' s''. writei i src off n s = Inr (Io n, s') \<and> readi i off n s' = Inr (Io (bytes src 0 (unat n)), s'')"
proof -
  obtain s' where s': "writei i src off n s = Inr (Io n, s')" "written k i (unat off) (bytes src 0 (unat n)) nb s s'"
    using writei_spec [OF assms] by blast
  have l: "unat off \<le> length (file_bytes s i)" using off(1) by (simp add: file_bytes_def word_le_nat_alt)
  have w': "txn k s'" "idle s'" "can_write s' i nb"
    "file_bytes s' i = splice (unat off) (bytes src 0 (unat n)) (file_bytes s i)"
    using s'(2) by (simp_all add: written_def)
  have "length (file_bytes s' i) = unat (i_size (f_icache s' i))" by (simp add: file_bytes_def)
  then have o': "off \<le> i_size (f_icache s' i)" using w'(4) l by (simp add: word_le_nat_alt)
  have "nb * BSIZE \<le> (NDIRECT + NINDIRECT) * BSIZE"
    using w by (intro mult_le_mono1) (simp add: can_write_def Let_def data_ok_def)
  with off(2) have "unat off + unat n \<le> (NDIRECT + NINDIRECT) * BSIZE" by (rule order_trans)
  then have lt: "unat off + unat n < 2 ^ 32" by (simp add: NDIRECT_def NINDIRECT_def BSIZE_def)
  have tk: "take (unat n) (drop (unat off) (file_bytes s' i)) = bytes src 0 (unat n)"
    using splice_back [OF l, of "bytes src 0 (unat n)"] w'(4) by simp
  show ?thesis using readi_back [OF txn_reads [OF w'(1,2)] w'(3) o' lt] s'(1) tk by auto
qed

text \<open>Filling a slot of the inode cache from the disk.\<close>

lemma brelse_icache:
  assumes "brelse k s1 = Inr s2"
  shows "brelse k (s1\<lparr>f_icache := c\<rparr>) = Inr (s2\<lparr>f_icache := c\<rparr>)"
  using assms by (auto simp: brelse_def Let_def split: if_splits prod.splits)

lemma ilock_fills:
  assumes r: "reads s" and h: "IBLOCK (i_inum (f_icache s j)) (f_sb s) < f_disksize s"
    and j: "i_dev (f_icache s j) = 1" "0 < i_ref (f_icache s j)" "\<not> sl_locked (i_lock (f_icache s j))"
      "\<not> i_valid (f_icache s j)"
    and ip: "ip = get_dinode (dinode_off (i_inum (f_icache s j))) (cont s (IBLOCK (i_inum (f_icache s j)) (f_sb s)))
        (f_icache s j)" "i_type ip \<noteq> 0"
  shows "\<exists>s'. ilock j s = Inr s' \<and> reads s' \<and> cont s' = cont s
    \<and> f_icache s' = (f_icache s)(j := ip\<lparr>i_lock := \<lparr>sl_locked = True, sl_pid = f_pid s\<rparr>, i_valid := True\<rparr>)
    \<and> f_sb s' = f_sb s \<and> f_disksize s' = f_disksize s \<and> f_log s' = f_log s \<and> f_pid s' = f_pid s"
proof -
  let ?jp = "f_icache s j" and ?lk = "\<lparr>sl_locked = True, sl_pid = f_pid s\<rparr>"
  let ?b = "IBLOCK (i_inum ?jp) (f_sb s)" and ?a = "dinode_off (i_inum ?jp)"
  let ?s0 = "upd_inode j (\<lambda>ip. ip\<lparr>i_lock := ?lk\<rparr>) s"
  have r0: "reads ?s0" using r by (simp add: reads_def)
  have b0: "?b < f_disksize ?s0" using h by simp
  obtain k s1 s2 where x: "bread 1 ?b ?s0 = Inr (k, s1)" "b_data (f_bufs s1 k) = cont ?s0 ?b" "brelse k s1 = Inr s2"
      "f_icache s1 = f_icache ?s0" "reads s2" "view s2 = view ?s0"
    by (rule reads_block [OF r0 b0])
  let ?g = "get_dinode ?a (cont s ?b)"
  have rel: "brelse k (upd_inode j ?g s1) = Inr (upd_inode j ?g s2)"
    using brelse_icache [OF x(3), of "(f_icache s1)(j := ?g (f_icache s1 j))"] view_eqD(2) [OF x(6)] x(4) by simp
  have g: "?g (?jp\<lparr>i_lock := ?lk\<rparr>) = ip\<lparr>i_lock := ?lk\<rparr>"
    by (rule inode.equality) (simp_all add: ip(1) get_dinode_def cong: if_cong)
  have c2: "f_icache s2 = f_icache ?s0" using view_eqD(2) [OF x(6)] .
  have "ilock j s = Inr (upd_inode j (\<lambda>ip. ip\<lparr>i_valid := True\<rparr>) (upd_inode j ?g s2))"
    using j x(1,2) rel ip(2) x(4) c2 g by (simp add: ilock_def acquiresleep_def Let_def)
  moreover have "reads (upd_inode j (\<lambda>ip. ip\<lparr>i_valid := True\<rparr>) (upd_inode j ?g s2))" using x(5) by (simp add: reads_def)
  moreover have "cont s2 = cont s" "f_sb s2 = f_sb s" "f_disksize s2 = f_disksize s" "f_log s2 = f_log s" "f_pid s2 = f_pid s"
    using view_eqD [OF x(6)] by simp_all
  ultimately show ?thesis using c2 g by simp
qed

end
