(* ===== verification/Inode_Correct.thy ===== *)
theory Inode_Correct
  imports Inode_Write Fs_Example
begin


lemma demo_base_root [simp]: "f_icache demo_base 0 = demo_root"
  by (simp add: demo_base_def)

lemma demo_root_facts [simp]:
  "i_dev demo_root = 1" "i_type demo_root = 1" "i_size demo_root = 32" "i_inum demo_root = 1"
  "block_path s demo_root 0 = [35]" "block_addr s demo_root 0 = 35" "i_addrs demo_root 0 = 35"
  by (simp_all add: demo_root_def block_path_def block_addr_def NDIRECT_def)



text \<open>
  C16: Reading a byte behind the doubly or triple indirect block outside an operation, as
  fileread does, panics: bmap ends in log_write although nothing is changed.
\<close>

theorem deep_read_panics:
  assumes "reads s" "i_dev (f_icache s i) = 1" "i_type (f_icache s i) \<noteq> T_DEV" "log_shut s"
    and "mapped s (f_icache s i) (unat off div BSIZE)"
    and "(NDIRECT + NINDIRECT) * BSIZE \<le> unat off" "unat off < MAXFILE * BSIZE"
    and "off < i_size (f_icache s i)" "0 < n" "unat off + unat n < 2 ^ 32"
  shows "readi i off n s = Inl (Panic ''log_write outside of trans'')"
  using assms by (rule readi_deep)

text \<open>A file of 139 blocks, the last behind the doubly indirect block 40.\<close>

definition deep_disk :: "u32 \<Rightarrow> mem" where
  "deep_disk = demo_disk(40 := put32 0 41 (\<lambda>_. 0), 41 := put32 0 42 (\<lambda>_. 0))"

definition deep_fs :: fsys where
  "deep_fs = (boot deep_disk (demo_base\<lparr>f_icache := \<lambda>i. demo_root\<lparr>i_type := 2, i_size := 71000,
     i_addrs := (\<lambda>_. 36)(11 := 40)\<rparr>\<rparr>))\<lparr>f_log := (demo_log 0)\<lparr>lg_outstanding := 0\<rparr>\<rparr>"

lemma deep_fs_facts [simp]:
  "reads deep_fs" "cont deep_fs = deep_disk" "f_disksize deep_fs = 1000" "log_shut deep_fs"
  "f_icache deep_fs i = demo_root\<lparr>i_type := 2, i_size := 71000, i_addrs := (\<lambda>_. 36)(11 := 40)\<rparr>"
proof -
  have "v_held (view deep_fs) = {}"
    using boot_held by (simp add: view_def deep_fs_def)
  then show "reads deep_fs" by (simp add: reads_def deep_fs_def boot_ok NBUF_def)
qed (simp_all add: deep_fs_def boot_ok demo_base_def log_shut_def demo_log_def LOGSIZE_def)

theorem deep_read_panics_witness: "readi 0 70700 10 deep_fs = Inl (Panic ''log_write outside of trans'')"
proof (rule deep_read_panics)
  have "block_path deep_fs (f_icache deep_fs 0) 138 = [40, 41, 42]"
    by (simp add: block_path_def Let_def NDIRECT_def NINDIRECT_def ind_get_def deep_disk_def demo_root_def)
  then show "mapped deep_fs (f_icache deep_fs 0) (unat (70700 :: u32) div BSIZE)"
    by (simp add: BSIZE_def mapped_def word_less_nat_alt)
qed (simp_all add: T_DEV_def NDIRECT_def NINDIRECT_def BSIZE_def MAXFILE_def word_less_nat_alt)







theorem iupdate_ilock_roundtrip:
  assumes t: "txn (Suc k) s" "idle s" and i: "i_dev (f_icache s i) = 1" "inode_home s (i_inum (f_icache s i))"
      "i_type (f_icache s i) \<noteq> 0"
    and j: "i_dev (f_icache s j) = 1" "i_inum (f_icache s j) = i_inum (f_icache s i)" "0 < i_ref (f_icache s j)"
      "\<not> sl_locked (i_lock (f_icache s j))" "\<not> i_valid (f_icache s j)"
  shows "\<exists>s' s''. iupdate i s = Inr s' \<and> ilock j s' = Inr s''
    \<and> i_type (f_icache s'' j) = i_type (f_icache s i) \<and> i_major (f_icache s'' j) = i_major (f_icache s i)
    \<and> i_minor (f_icache s'' j) = i_minor (f_icache s i) \<and> i_nlink (f_icache s'' j) = i_nlink (f_icache s i)
    \<and> i_size (f_icache s'' j) = i_size (f_icache s i)
    \<and> (\<forall>k<NDIRECT + 3. i_addrs (f_icache s'' j) k = i_addrs (f_icache s i) k)
    \<and> i_valid (f_icache s'' j)"
proof -
  let ?ip = "f_icache s i"
  obtain s' where s': "iupdate i s = Inr s'" "txn k s'" "holds s' = holds s" "frest s' = frest s"
      "cont s' = (cont s)(IBLOCK (i_inum ?ip) (f_sb s) := put_dinode ?ip (dinode_off (i_inum ?ip))
          (cont s (IBLOCK (i_inum ?ip) (f_sb s))))"
    using iupdate_spec [OF t i(1,2)] by blast
  note F = frestD [OF s'(4)]
  have r: "reads s'" by (rule txn_reads [OF s'(2) idle_holds [OF t(2) s'(3)]])
  let ?jp = "get_dinode (dinode_off (i_inum (f_icache s' j)))
      (cont s' (IBLOCK (i_inum (f_icache s' j)) (f_sb s'))) (f_icache s' j)"
  have jp: "?jp = (f_icache s j)\<lparr>i_type := i_type ?ip, i_major := i_major ?ip, i_minor := i_minor ?ip,
     i_nlink := i_nlink ?ip, i_size := i_size ?ip,
     i_addrs := \<lambda>k. if k < NDIRECT + 3 then i_addrs ?ip k else i_addrs (f_icache s j) k\<rparr>"
    using j(2) by (simp add: F s'(5) get_put_dinode)
  have h: "IBLOCK (i_inum (f_icache s' j)) (f_sb s') < f_disksize s'"
    using i(2) j(2) F by (simp add: inode_home_def)
  obtain s'' where "ilock j s' = Inr s''"
    "f_icache s'' = (f_icache s')(j := ?jp\<lparr>i_lock := \<lparr>sl_locked = True, sl_pid = f_pid s'\<rparr>, i_valid := True\<rparr>)"
    using ilock_fills [OF r h _ _ _ _ refl] j F(2) i(3) jp by auto
  then show ?thesis using s'(1) jp by simp
qed

text \<open>Slot 1 of the cache, taken by \<open>iget\<close> for the inode of slot 0 and not read yet.\<close>

definition demo_two :: fsys where
  "demo_two = demo_fs\<lparr>f_icache := \<lambda>i. if i = 1 then demo_root\<lparr>i_valid := False, i_size := 0,
     i_lock := initsleeplock\<rparr> else demo_root\<lparr>i_nlink := 3\<rparr>\<rparr>"

theorem iupdate_ilock_roundtrip_witness:
  "\<exists>s' s''. iupdate 0 demo_two = Inr s' \<and> ilock 1 s' = Inr s'' \<and> i_nlink (f_icache s'' 1) = 3
    \<and> i_size (f_icache s'' 1) = 32"
proof -
  have "IBLOCK 1 (get_sb demo_sb) = 32" by (simp add: IBLOCK_def IPB_def)
  then have h: "inode_home demo_two 1" by (simp add: demo_two_def inode_home_def demo_area word_less_nat_alt)
  have "txn (Suc 0) demo_two" by (simp add: demo_two_def demo_txn)
  moreover have "idle demo_two" by (simp add: demo_two_def idle_def)
  ultimately show ?thesis
    using iupdate_ilock_roundtrip [of 0 demo_two 0 1] h
    by (auto simp: demo_two_def initsleeplock_def demo_root_def)
qed

end
