(* ===== verification/Kalloc.thy ===== *)
theory Kalloc
  imports Cstring
begin

text \<open>
  kalloc.c: the page allocator. The free pages form a list linked through their first words in
  the kernel's memory \<open>km_mem\<close>, whose addresses are the kernel's virtual addresses; 0 is the
  null pointer. \<open>km_end\<close> and \<open>km_data\<close> are the linker's symbols \<open>end\<close> and \<open>data\<close>.
\<close>

definition PGSIZE :: nat where "PGSIZE = 4096"
definition KERNBASE :: u32 where "KERNBASE = 0x80000000"
definition PHYSTOP :: u32 where "PHYSTOP = 0xE000000"

record kmem =
  km_mem :: mem
  km_freelist :: u32
  km_end :: u32
  km_data :: u32

definition V2P :: "u32 \<Rightarrow> u32" where "V2P a = a - KERNBASE"
definition P2V :: "u32 \<Rightarrow> u32" where "P2V a = a + KERNBASE"

definition PGROUNDUP :: "u32 \<Rightarrow> u32" where
  "PGROUNDUP sz = (sz + of_nat PGSIZE - 1) AND NOT (of_nat PGSIZE - 1)"

definition PGROUNDDOWN :: "u32 \<Rightarrow> u32" where
  "PGROUNDDOWN a = a AND NOT (of_nat PGSIZE - 1)"

definition page_ok :: "kmem \<Rightarrow> u32 \<Rightarrow> bool" where
  "page_ok k v \<longleftrightarrow> unat v mod PGSIZE = 0 \<and> km_end k \<le> v \<and> V2P v < PHYSTOP"

definition kfree :: "u32 \<Rightarrow> kmem \<Rightarrow> kmem res" where
  "kfree v k =
     (if unat v mod PGSIZE \<noteq> 0 \<or> v < km_end k \<or> V2P v \<ge> PHYSTOP then Inl (Panic ''kfree'')
      else
        let m = memset (unat v) 1 PGSIZE (km_mem k);
            m = put32 (unat v) (km_freelist k) m
        in Inr (k\<lparr>km_mem := m, km_freelist := v\<rparr>))"

definition kalloc :: "kmem \<Rightarrow> u32 \<times> kmem" where
  "kalloc k =
     (let r = km_freelist k in
      if r \<noteq> 0 then (r, k\<lparr>km_freelist := get32 (km_mem k) (unat r)\<rparr>) else (r, k))"

text \<open>The addresses that the loop of \<open>freerange\<close> visits.\<close>

definition page_range :: "u32 \<Rightarrow> u32 \<Rightarrow> u32 list" where
  "page_range vstart vend =
     (let p = unat (PGROUNDUP vstart)
      in map (\<lambda>i. of_nat (p + i * PGSIZE)) [0..<(unat vend - p) div PGSIZE])"

definition freerange :: "u32 \<Rightarrow> u32 \<Rightarrow> kmem \<Rightarrow> kmem res" where
  "freerange vstart vend k = for_each kfree (page_range vstart vend) k"

definition kinit1 :: "u32 \<Rightarrow> u32 \<Rightarrow> kmem \<Rightarrow> kmem res" where
  "kinit1 = freerange"

definition kinit2 :: "u32 \<Rightarrow> u32 \<Rightarrow> kmem \<Rightarrow> kmem res" where
  "kinit2 = freerange"


subsection \<open>The free list\<close>

fun flist :: "mem \<Rightarrow> u32 \<Rightarrow> u32 list \<Rightarrow> bool" where
  "flist m r [] \<longleftrightarrow> r = 0"
| "flist m r (x # xs) \<longleftrightarrow> r = x \<and> x \<noteq> 0 \<and> flist m (get32 m (unat x)) xs"

definition kmem_ok :: "u32 list \<Rightarrow> kmem \<Rightarrow> bool" where
  "kmem_ok xs k \<longleftrightarrow> 0 < km_end k \<and> flist (km_mem k) (km_freelist k) xs \<and> distinct xs
     \<and> (\<forall>x\<in>set xs. page_ok k x)"

definition in_page :: "u32 \<Rightarrow> nat \<Rightarrow> bool" where
  "in_page v a \<longleftrightarrow> unat v \<le> a \<and> a < unat v + PGSIZE"

lemma page_ok_nonzero: "0 < km_end k \<Longrightarrow> page_ok k v \<Longrightarrow> v \<noteq> 0"
  by (auto simp: page_ok_def)

lemma pages_disjoint:
  assumes "page_ok k v" "page_ok k w" "in_page v a" "in_page w a"
  shows "v = w"
proof -
  obtain i j where "unat v = PGSIZE * i" "unat w = PGSIZE * j"
    using assms(1,2) by (auto simp: page_ok_def elim!: dvdE simp flip: dvd_eq_mod_eq_0)
  moreover from this assms(3,4) have "i = a div PGSIZE" "j = a div PGSIZE"
    by (auto simp: in_page_def PGSIZE_def)
  ultimately show ?thesis by (simp add: word_unat_eq_iff)
qed

lemma flist_cong:
  "(\<And>x a. x \<in> set xs \<Longrightarrow> in_page x a \<Longrightarrow> m' a = m a) \<Longrightarrow> flist m' r xs = flist m r xs"
proof (induction xs arbitrary: r)
  case (Cons x xs)
  have "get32 m' (unat x) = get32 m (unat x)"
    by (intro get32_cong Cons.prems [of x]) (auto simp: in_page_def PGSIZE_def)
  then show ?case using Cons by auto
qed simp

text \<open>Whatever is written outside the free pages leaves the allocator alone.\<close>

lemma kmem_ok_mem:
  assumes "kmem_ok xs k" and "\<And>x a. x \<in> set xs \<Longrightarrow> in_page x a \<Longrightarrow> m a = km_mem k a"
  shows "kmem_ok xs (k\<lparr>km_mem := m\<rparr>)"
  using assms flist_cong [of xs m "km_mem k"] by (simp add: kmem_ok_def page_ok_def)

lemma kfree_spec:
  assumes ok: "kmem_ok xs k" and v: "page_ok k v" "v \<notin> set xs"
  shows "\<exists>k'. kfree v k = Inr k' \<and> kmem_ok (v # xs) k' \<and> km_end k' = km_end k \<and> km_data k' = km_data k
    \<and> (\<forall>a. \<not> in_page v a \<longrightarrow> km_mem k' a = km_mem k a)"
proof -
  define m where "m = put32 (unat v) (km_freelist k) (memset (unat v) 1 PGSIZE (km_mem k))"
  let ?k = "k\<lparr>km_mem := m, km_freelist := v\<rparr>"
  have out: "m a = km_mem k a" if "\<not> in_page v a" for a
    using that by (auto simp: m_def memset_eq mset_def in_page_def put32_def PGSIZE_def)
  have "flist m (km_freelist k) xs = flist (km_mem k) (km_freelist k) xs"
    using ok v pages_disjoint [OF v(1)] by (intro flist_cong out) (auto simp: kmem_ok_def)
  then have "kmem_ok (v # xs) ?k"
    using ok v page_ok_nonzero [OF _ v(1)] by (auto simp: kmem_ok_def m_def page_ok_def)
  moreover have "kfree v k = Inr ?k"
    using v(1) by (auto simp: kfree_def page_ok_def m_def Let_def not_less not_le)
  ultimately show ?thesis using out by auto
qed

lemma kfree_panics: "\<not> page_ok k v \<Longrightarrow> kfree v k = Inl (Panic ''kfree'')"
  by (auto simp: kfree_def page_ok_def not_less not_le)

lemma kalloc_spec:
  assumes "kmem_ok xs k"
  shows "kalloc k = (case xs of [] \<Rightarrow> (0, k) | x # xs' \<Rightarrow> (x, k\<lparr>km_freelist := get32 (km_mem k) (unat x)\<rparr>))"
    and "xs = x # xs' \<Longrightarrow> kmem_ok xs' (snd (kalloc k)) \<and> page_ok k x \<and> x \<notin> set xs' \<and> x \<noteq> 0"
  using assms by (auto simp: kalloc_def kmem_ok_def Let_def page_ok_def split: list.split)

lemma page_range_spec:
  assumes "unat (PGROUNDUP vs) mod PGSIZE = 0" and "km_end k \<le> PGROUNDUP vs" and "KERNBASE \<le> PGROUNDUP vs"
    and "unat ve \<le> unat KERNBASE + unat PHYSTOP"
  shows "distinct (page_range vs ve)" and "\<forall>v\<in>set (page_range vs ve). page_ok k v"
proof -
  let ?p = "unat (PGROUNDUP vs)" and ?n = "(unat ve - unat (PGROUNDUP vs)) div PGSIZE"
  have un: "unat (of_nat (?p + i * PGSIZE) :: u32) = ?p + i * PGSIZE" "?p + i * PGSIZE < unat ve" if "i < ?n" for i
  proof -
    have "Suc i * PGSIZE \<le> unat ve - ?p" using that
      by (metis Suc_leI div_times_less_eq_dividend dual_order.trans mult_le_mono1)
    then show l: "?p + i * PGSIZE < unat ve" by (simp add: PGSIZE_def)
    then show "unat (of_nat (?p + i * PGSIZE) :: u32) = ?p + i * PGSIZE"
      using unat_less_32 [of ve] by (intro unat_of_nat_32) linarith
  qed
  have "inj_on (\<lambda>i. of_nat (?p + i * PGSIZE) :: u32) {..<?n}"
  proof (rule inj_onI)
    fix i j assume "i \<in> {..<?n}" "j \<in> {..<?n}" "(of_nat (?p + i * PGSIZE) :: u32) = of_nat (?p + j * PGSIZE)"
    then have "?p + i * PGSIZE = ?p + j * PGSIZE" using un(1) by (metis lessThan_iff)
    then show "i = j" by (simp add: PGSIZE_def)
  qed
  then show "distinct (page_range vs ve)"
    by (simp add: page_range_def Let_def distinct_map atLeast0LessThan)
  show "\<forall>v\<in>set (page_range vs ve). page_ok k v"
  proof
    fix v assume "v \<in> set (page_range vs ve)"
    then obtain i where i: "i < ?n" "v = of_nat (?p + i * PGSIZE)" by (auto simp: page_range_def Let_def)
    then have v: "unat v = ?p + i * PGSIZE" "unat v < unat ve" using un by simp_all
    have "unat v mod PGSIZE = 0" using v(1) assms(1) by (simp add: mod_add_eq)
    moreover have "km_end k \<le> v" using assms(2) v(1) by (simp add: word_le_nat_alt)
    moreover have "unat (v - KERNBASE) = unat v - unat KERNBASE"
      using assms(3) v(1) by (intro unat_sub) (simp add: word_le_nat_alt)
    then have "V2P v < PHYSTOP" using v(2) assms(4) by (simp add: V2P_def word_less_nat_alt PHYSTOP_def)
    ultimately show "page_ok k v" by (simp add: page_ok_def)
  qed
qed

lemma freerange_spec:
  assumes "kmem_ok xs k" and "distinct (page_range vs ve)" and "\<forall>v\<in>set (page_range vs ve). page_ok k v"
    and "set (page_range vs ve) \<inter> set xs = {}"
  shows "\<exists>k'. freerange vs ve k = Inr k' \<and> kmem_ok (rev (page_range vs ve) @ xs) k'"
proof -
  have "\<exists>k'. for_each kfree ps k = Inr k' \<and> kmem_ok (rev ps @ xs) k'"
    if "distinct ps" "\<forall>v\<in>set ps. page_ok k v" "set ps \<inter> set xs = {}" "kmem_ok xs k" for ps xs k
    using that
  proof (induction ps arbitrary: xs k)
    case (Cons v ps)
    obtain k' where k': "kfree v k = Inr k'" "kmem_ok (v # xs) k'" "km_end k' = km_end k"
      using kfree_spec [OF Cons.prems(4), of v] Cons.prems by auto
    have "\<exists>k2. for_each kfree ps k' = Inr k2 \<and> kmem_ok (rev ps @ v # xs) k2"
      using Cons.prems k' by (intro Cons.IH) (auto simp: page_ok_def)
    then show ?case using k'(1) by simp
  qed simp
  then show ?thesis using assms by (simp add: freerange_def)
qed

end
