(* ===== verification/Pipe.thy ===== *)
theory Pipe
  imports Bytes
begin

text \<open>
  pipe.c. The loops of \<open>pipewrite\<close> and \<open>piperead\<close> run until they finish or have to sleep, and a
  sleeping call is resumed where it stopped; between two runs the other end of the pipe may
  run. \<open>killed\<close> is \<open>myproc()->killed\<close>, \<open>p\<close> names the pipe in its sleep channels.
\<close>

definition PIPESIZE :: nat where "PIPESIZE = 512"

record pipe =
  pp_data :: mem
  pp_nread :: u32
  pp_nwrite :: u32
  pp_readopen :: bool
  pp_writeopen :: bool

text \<open>A call returns a value or sleeps with \<open>i\<close> bytes done.\<close>

datatype pres = PRet int | PSleep nat

definition pipe_full :: "pipe \<Rightarrow> bool" where
  "pipe_full p \<longleftrightarrow> pp_nwrite p = pp_nread p + of_nat PIPESIZE"

definition pipe_empty :: "pipe \<Rightarrow> bool" where
  "pipe_empty p \<longleftrightarrow> pp_nread p = pp_nwrite p"

definition pipe_put :: "u8 \<Rightarrow> pipe \<Rightarrow> pipe" where
  "pipe_put c p = p\<lparr>pp_data := (pp_data p)(unat (pp_nwrite p) mod PIPESIZE := c), pp_nwrite := pp_nwrite p + 1\<rparr>"

definition pipe_get :: "pipe \<Rightarrow> u8 \<times> pipe" where
  "pipe_get p = (pp_data p (unat (pp_nread p) mod PIPESIZE), p\<lparr>pp_nread := pp_nread p + 1\<rparr>)"

text \<open>\<open>pipewrite_run k\<close> has \<open>k\<close> bytes left of the \<open>n\<close> of the call, the next one \<open>addr i\<close>.\<close>

fun pipewrite_run :: "nat \<Rightarrow> bool \<Rightarrow> mem \<Rightarrow> nat \<Rightarrow> nat \<Rightarrow> pipe \<Rightarrow> pres \<times> pipe \<times> chan list" where
  "pipewrite_run c killed addr i 0 p = (PRet (int i), p, [ChPipeRead c])"
| "pipewrite_run c killed addr i (Suc k) p =
     (if pipe_full p then
        if \<not> pp_readopen p \<or> killed then (PRet (-1), p, [])
        else (PSleep i, p, [ChPipeRead c])
      else pipewrite_run c killed addr (i + 1) k (pipe_put (addr i) p))"

text \<open>A call with a negative count returns it at once.\<close>

definition pipewrite :: "nat \<Rightarrow> bool \<Rightarrow> mem \<Rightarrow> int \<Rightarrow> pipe \<Rightarrow> pres \<times> pipe \<times> chan list" where
  "pipewrite c killed addr n p =
     (if n < 0 then (PRet n, p, [ChPipeRead c]) else pipewrite_run c killed addr 0 (nat n) p)"

fun piperead_copy :: "nat \<Rightarrow> pipe \<Rightarrow> u8 list \<times> pipe" where
  "piperead_copy 0 p = ([], p)"
| "piperead_copy (Suc k) p =
     (if pipe_empty p then ([], p)
      else let (c, p) = pipe_get p; (cs, p) = piperead_copy k p in (c # cs, p))"

definition piperead :: "nat \<Rightarrow> bool \<Rightarrow> int \<Rightarrow> pipe \<Rightarrow> pres \<times> u8 list \<times> pipe \<times> chan list" where
  "piperead c killed n p =
     (if pipe_empty p \<and> pp_writeopen p then
        if killed then (PRet (-1), [], p, []) else (PSleep 0, [], p, [])
      else
        let (cs, p) = piperead_copy (nat n) p
        in (PRet (int (length cs)), cs, p, [ChPipeWrite c]))"

text \<open>\<open>pipeclose\<close> answers whether the page of the pipe is freed.\<close>

definition pipeclose :: "nat \<Rightarrow> bool \<Rightarrow> pipe \<Rightarrow> bool \<times> pipe \<times> chan list" where
  "pipeclose c writable p =
     (let (p, w) = (if writable then (p\<lparr>pp_writeopen := False\<rparr>, [ChPipeRead c])
                    else (p\<lparr>pp_readopen := False\<rparr>, [ChPipeWrite c]))
      in (\<not> pp_readopen p \<and> \<not> pp_writeopen p, p, w))"

text \<open>The pipe that \<open>pipealloc\<close> initialises; \<open>data\<close> is what the page held.\<close>

definition new_pipe :: "mem \<Rightarrow> pipe" where
  "new_pipe m = \<lparr>pp_data = m, pp_nread = 0, pp_nwrite = 0, pp_readopen = True, pp_writeopen = True\<rparr>"


subsection \<open>The bytes in a pipe\<close>

text \<open>The counters wrap at \<open>2^32\<close>; what counts is their difference, which is at most \<open>PIPESIZE\<close>.\<close>

definition pipe_len :: "pipe \<Rightarrow> nat" where
  "pipe_len p = unat (pp_nwrite p - pp_nread p)"

definition pipe_ok :: "pipe \<Rightarrow> bool" where
  "pipe_ok p \<longleftrightarrow> pipe_len p \<le> PIPESIZE"

definition contents :: "pipe \<Rightarrow> u8 list" where
  "contents p = map (\<lambda>k. pp_data p (unat (pp_nread p + of_nat k) mod PIPESIZE)) [0..<pipe_len p]"

lemma length_contents [simp]: "length (contents p) = pipe_len p"
  by (simp add: contents_def)

lemma pipe_full_len: "pipe_full p \<longleftrightarrow> pipe_len p = PIPESIZE"
proof -
  have "unat (of_nat PIPESIZE :: u32) = PIPESIZE" by (rule unat_of_nat_32) (simp add: PIPESIZE_def)
  moreover have "pipe_full p \<longleftrightarrow> pp_nwrite p - pp_nread p = of_nat PIPESIZE"
    by (auto simp: pipe_full_def algebra_simps)
  ultimately show ?thesis by (simp add: pipe_len_def word_unat_eq_iff)
qed

lemma pipe_empty_len: "pipe_empty p \<longleftrightarrow> pipe_len p = 0"
  by (auto simp: pipe_empty_def pipe_len_def unsigned_eq_0_iff)

text \<open>\<open>PIPESIZE\<close> divides \<open>2^32\<close>, so the slot of a byte does not depend on the wrap-around.\<close>

lemma slot_mod: "unat (r + of_nat k :: u32) mod PIPESIZE = (unat r + k) mod PIPESIZE"
proof -
  have "unat (r + of_nat k) = (unat r + k) mod 2 ^ 32"
    by (simp add: unat_word_ariths unsigned_of_nat take_bit_eq_mod mod_add_right_eq)
  moreover have "PIPESIZE dvd 2 ^ 32" by (simp add: PIPESIZE_def)
  ultimately show ?thesis by (simp only: mod_mod_cancel)
qed

lemma pipe_put_spec:
  assumes ok: "pipe_ok p" and nf: "\<not> pipe_full p"
  shows "contents (pipe_put c p) = contents p @ [c]" "pipe_ok (pipe_put c p)"
proof -
  let ?q = "pipe_put c p"
  have lt: "pipe_len p < PIPESIZE" using ok nf by (simp add: pipe_ok_def pipe_full_len)
  have "unat (pp_nwrite p - pp_nread p + 1) = Suc (pipe_len p)"
    using lt unat_add_32 [of "pp_nwrite p - pp_nread p" 1] by (simp add: pipe_len_def PIPESIZE_def)
  moreover have "pp_nwrite ?q - pp_nread ?q = pp_nwrite p - pp_nread p + 1"
    by (simp add: pipe_put_def)
  ultimately have len: "pipe_len ?q = Suc (pipe_len p)" by (simp add: pipe_len_def)
  then show "pipe_ok ?q" using lt by (simp add: pipe_ok_def)
  have w: "unat (pp_nwrite p) mod PIPESIZE = (unat (pp_nread p) + pipe_len p) mod PIPESIZE"
    using slot_mod [of "pp_nread p" "pipe_len p"] by (simp add: pipe_len_def)
  have ne: "(unat (pp_nread p) + k) mod PIPESIZE \<noteq> (unat (pp_nread p) + pipe_len p) mod PIPESIZE"
    if "k < pipe_len p" for k
  proof
    assume "(unat (pp_nread p) + k) mod PIPESIZE = (unat (pp_nread p) + pipe_len p) mod PIPESIZE"
    then have "PIPESIZE dvd pipe_len p - k"
      using that by (metis add_diff_cancel_left less_imp_le_nat mod_eq_dvd_iff_nat nat_add_left_cancel_le)
    then show False using that lt by (auto dest: dvd_imp_le)
  qed
  show "contents ?q = contents p @ [c]"
  proof -
    have "contents ?q = map (\<lambda>k. pp_data ?q (unat (pp_nread p + of_nat k) mod PIPESIZE)) [0..<Suc (pipe_len p)]"
      unfolding contents_def len by (simp add: pipe_put_def)
    then show ?thesis using ne w by (simp add: contents_def slot_mod) (simp add: pipe_put_def)
  qed
qed

lemma pipe_get_spec:
  assumes ok: "pipe_ok p" and ne: "\<not> pipe_empty p"
  shows "contents p = fst (pipe_get p) # contents (snd (pipe_get p))" "pipe_ok (snd (pipe_get p))"
proof -
  let ?q = "snd (pipe_get p)"
  have pos: "0 < pipe_len p" using ne by (simp add: pipe_empty_len)
  have "pp_nwrite ?q - pp_nread ?q = pp_nwrite p - pp_nread p - 1"
    by (simp add: pipe_get_def algebra_simps)
  moreover have "pp_nwrite p - pp_nread p \<noteq> 0" using pos by (auto simp: pipe_len_def)
  ultimately have len: "pipe_len ?q = pipe_len p - 1"
    by (simp add: pipe_len_def unat_minus_one)
  then show "pipe_ok ?q" using ok by (simp add: pipe_ok_def)
  have "[0..<pipe_len p] = 0 # map Suc [0..<pipe_len p - 1]"
    using pos by (simp add: upt_conv_Cons map_Suc_upt)
  then show "contents p = fst (pipe_get p) # contents ?q"
    by (auto simp: contents_def len) (auto simp: pipe_get_def algebra_simps)
qed


subsection \<open>The two ends\<close>

text \<open>
  A run of \<open>pipewrite\<close> appends the bytes from \<open>i\<close> up to some \<open>j\<close>; it sleeps or fails only on a full
  pipe, and it returns the count of the whole call.
\<close>

lemma pipewrite_run_spec:
  assumes "pipe_ok p" and "pipewrite_run c killed addr i k p = (r, p', w)"
  shows "\<exists>j. i \<le> j \<and> j \<le> i + k \<and> contents p' = contents p @ map addr [i..<j] \<and> pipe_ok p'
    \<and> pp_nwrite p' = pp_nwrite p + of_nat (j - i)
    \<and> (case r of
         PSleep m \<Rightarrow> m = j \<and> j < i + k \<and> pipe_full p' \<and> pp_readopen p \<and> \<not> killed \<and> w = [ChPipeRead c]
       | PRet v \<Rightarrow> if j = i + k then v = int (i + k) \<and> w = [ChPipeRead c]
                  else v = -1 \<and> pipe_full p' \<and> (\<not> pp_readopen p \<or> killed))"
  using assms
proof (induction k arbitrary: i p)
  case 0
  then show ?case by (intro exI [of _ i]) auto
next
  case (Suc k)
  show ?case
  proof (cases "pipe_full p")
    case True
    then show ?thesis
      using Suc.prems by (intro exI [of _ i]) (auto split: if_splits)
  next
    case False
    note put = pipe_put_spec [OF Suc.prems(1) False, of "addr i"]
    have run: "pipewrite_run c killed addr (i + 1) k (pipe_put (addr i) p) = (r, p', w)"
      using Suc.prems(2) False by simp
    obtain j where j: "i + 1 \<le> j" "j \<le> i + 1 + k" "contents p' = contents (pipe_put (addr i) p) @ map addr [i + 1..<j]"
        "pipe_ok p'" "pp_nwrite p' = pp_nwrite (pipe_put (addr i) p) + of_nat (j - (i + 1))"
        "case r of PSleep m \<Rightarrow> m = j \<and> j < i + 1 + k \<and> pipe_full p' \<and> pp_readopen (pipe_put (addr i) p) \<and> \<not> killed \<and> w = [ChPipeRead c]
         | PRet v \<Rightarrow> if j = i + 1 + k then v = int (i + 1 + k) \<and> w = [ChPipeRead c]
                  else v = -1 \<and> pipe_full p' \<and> (\<not> pp_readopen (pipe_put (addr i) p) \<or> killed)"
      using Suc.IH [OF put(2) run] by blast
    have "[i..<j] = i # [i + 1..<j]" using j(1) by (simp add: upt_conv_Cons)
    moreover have "of_nat (j - i) = 1 + (of_nat (j - (i + 1)) :: u32)"
      using j(1) by (metis Suc_diff_le Suc_eq_plus1 diff_Suc_Suc of_nat_Suc)
    moreover have "pp_readopen (pipe_put (addr i) p) = pp_readopen p" "pp_nwrite (pipe_put (addr i) p) = pp_nwrite p + 1"
      by (simp_all add: pipe_put_def)
    ultimately show ?thesis
      using j put(1) by (intro exI [of _ j]) (auto split: pres.splits)
  qed
qed

lemma piperead_copy_spec:
  assumes "pipe_ok p" and "piperead_copy k p = (cs, p')"
  shows "contents p = cs @ contents p' \<and> pipe_ok p' \<and> length cs = min k (pipe_len p)"
  using assms
proof (induction k arbitrary: p cs p')
  case (Suc k)
  show ?case
  proof (cases "pipe_empty p")
    case True
    then show ?thesis using Suc.prems by (simp add: pipe_empty_len)
  next
    case False
    note g = pipe_get_spec [OF Suc.prems(1) False]
    obtain c q where q: "pipe_get p = (c, q)" by fastforce
    obtain ds p2 where r: "piperead_copy k q = (ds, p2)" by fastforce
    have "cs = c # ds" "p' = p2" using Suc.prems(2) False q r by simp_all
    moreover have "contents q = ds @ contents p2 \<and> pipe_ok p2 \<and> length ds = min k (pipe_len q)"
      using Suc.IH [OF _ r] g(2) q by simp
    moreover have "pipe_len p = Suc (pipe_len q)" using arg_cong [OF g(1), of length] q by simp
    ultimately show ?thesis using g(1) q by simp
  qed
qed simp

lemma piperead_spec:
  assumes "pipe_ok p" and "piperead c killed n p = (r, cs, p', w)"
  shows "contents p = cs @ contents p' \<and> pipe_ok p'
    \<and> (case r of
         PSleep _ \<Rightarrow> cs = [] \<and> contents p = [] \<and> pp_writeopen p \<and> \<not> killed
       | PRet v \<Rightarrow> if v = -1 then cs = [] \<and> contents p = [] \<and> pp_writeopen p \<and> killed
                  else v = int (length cs) \<and> length cs = min (nat n) (pipe_len p))"
proof (cases "pipe_empty p \<and> pp_writeopen p")
  case True
  then have "contents p = []" by (simp add: pipe_empty_len flip: length_0_conv)
  then show ?thesis using assms True by (auto simp: piperead_def split: if_splits)
next
  case False
  obtain ds q where q: "piperead_copy (nat n) p = (ds, q)" by fastforce
  show ?thesis using assms False q piperead_copy_spec [OF assms(1) q] by (auto simp: piperead_def)
qed

text \<open>
  Any interleaving: each step is one run of a writer with bytes of its own, one run of a
  reader, or the closing of an end. \<open>pipe_trace\<close> answers the bytes that entered the pipe, in
  order, the bytes the readers got, in order, and the pipe.
\<close>

datatype pipe_step = Write bool "u8 list" | Read bool int | Close bool

fun pipe_trace :: "nat \<Rightarrow> pipe_step list \<Rightarrow> pipe \<Rightarrow> u8 list \<times> u8 list \<times> pipe" where
  "pipe_trace c [] p = ([], [], p)"
| "pipe_trace c (Write killed bs # es) p =
     (let (_, p', _) = pipewrite_run c killed (\<lambda>i. bs ! i) 0 (length bs) p;
          n = unat (pp_nwrite p' - pp_nwrite p);
          (sent, recv, q) = pipe_trace c es p'
      in (take n bs @ sent, recv, q))"
| "pipe_trace c (Read killed n # es) p =
     (let (_, cs, p', _) = piperead c killed n p;
          (sent, recv, q) = pipe_trace c es p'
      in (sent, cs @ recv, q))"
| "pipe_trace c (Close writable # es) p = pipe_trace c es (fst (snd (pipeclose c writable p)))"

lemma pipeclose_contents:
  "contents (fst (snd (pipeclose c b p))) = contents p" "pipe_ok (fst (snd (pipeclose c b p))) = pipe_ok p"
  by (auto simp: pipeclose_def contents_def pipe_ok_def pipe_len_def split: if_splits)

lemma pipe_trace_fifo:
  assumes "pipe_ok p" and "\<And>k bs. Write k bs \<in> set es \<Longrightarrow> length bs < 2 ^ 32"
  shows "case pipe_trace c es p of (sent, recv, q) \<Rightarrow> contents p @ sent = recv @ contents q \<and> pipe_ok q"
  using assms
proof (induction es arbitrary: p)
  case Nil
  then show ?case by simp
next
  case (Cons e es)
  show ?case
  proof (cases e)
    case (Write killed bs)
    obtain r p' w where run: "pipewrite_run c killed (\<lambda>i. bs ! i) 0 (length bs) p = (r, p', w)"
      by (cases "pipewrite_run c killed (\<lambda>i. bs ! i) 0 (length bs) p") auto
    obtain j where j: "j \<le> length bs" "contents p' = contents p @ map (\<lambda>i. bs ! i) [0..<j]" "pipe_ok p'"
        "pp_nwrite p' = pp_nwrite p + of_nat j"
      using pipewrite_run_spec [OF Cons.prems(1) run] by auto
    have "length bs < 2 ^ 32" using Cons.prems(2) Write by auto
    then have "unat (pp_nwrite p' - pp_nwrite p) = j" using j by (simp add: unat_of_nat_32)
    moreover have "map (\<lambda>i. bs ! i) [0..<j] = take j bs" using j(1) by (intro nth_equalityI) auto
    moreover obtain sent recv q where t: "pipe_trace c es p' = (sent, recv, q)" by (cases "pipe_trace c es p'") auto
    moreover have "contents p' @ sent = recv @ contents q \<and> pipe_ok q"
      using Cons.IH [OF j(3)] Cons.prems(2) t by force
    ultimately show ?thesis using Write run j(2) by simp
  next
    case (Read killed n)
    obtain r cs p' w where run: "piperead c killed n p = (r, cs, p', w)"
      by (cases "piperead c killed n p") auto
    note s = piperead_spec [OF Cons.prems(1) run]
    obtain sent recv q where t: "pipe_trace c es p' = (sent, recv, q)" by (cases "pipe_trace c es p'") auto
    moreover have "contents p' @ sent = recv @ contents q \<and> pipe_ok q"
      using Cons.IH [of p'] Cons.prems(2) s t by force
    ultimately show ?thesis using Read run s by simp
  next
    case (Close b)
    have "case pipe_trace c es (fst (snd (pipeclose c b p))) of (sent, recv, q) \<Rightarrow>
        contents (fst (snd (pipeclose c b p))) @ sent = recv @ contents q \<and> pipe_ok q"
      using Cons.prems by (intro Cons.IH) (auto simp: pipeclose_contents)
    then show ?thesis using Close by (simp add: pipeclose_contents)
  qed
qed

end
