(* ===== verification/Mem_Correct.thy ===== *)
theory Mem_Correct
  imports Kalloc Pipe Cstring
begin

text \<open>The properties of string.c, of the page allocator and of pipes, with their witnesses.\<close>

theorem memmove_copies: "memmove dst src n m = mcopy m src dst n m"
  by (rule memmove_eq)

theorem memset_fills: "memset dst c n m i = (if dst \<le> i \<and> i < dst + n then ucast c else m i)"
  by (simp add: memset_eq mset_def)

theorem strncmp_equal: "strncmp p q n = 0 \<longleftrightarrow>
  (\<forall>i<n. p i = q i \<or> (\<exists>j<i. p j = 0 \<and> q j = 0))"
  by (rule strncmp_0)

theorem strncmp_equal_witness: "strncmp ((\<lambda>_. 9)(0 := 0)) (\<lambda>_. 0) 5 = 0 \<and> strncmp (\<lambda>_. 1) (\<lambda>_. 0) 5 \<noteq> 0"
proof -
  have "p i = q i \<or> (\<exists>j<i. p j = 0 \<and> q j = 0)"
    if "p = (\<lambda>_. 9)(0 := 0)" "q = (\<lambda>_. 0)" for p q :: mem and i
    using that by (cases i) auto
  then have "strncmp ((\<lambda>_. 9)(0 := 0)) (\<lambda>_. 0) 5 = 0"
    using strncmp_equal [of "(\<lambda>_. 9)(0 := 0)" "\<lambda>_. 0" 5] by blast
  moreover have "(0 :: nat) < 5" by simp
  then have "strncmp (\<lambda>_. 1) (\<lambda>_. 0) 5 \<noteq> 0"
    unfolding strncmp_equal by (metis not_less_zero zero_neq_one)
  ultimately show ?thesis by blast
qed

theorem strncpy_bounded: "strncpy s t n j =
  (if j < nat n then (if \<exists>l<j. t l = 0 then 0 else t j) else s j)"
  by (simp add: strncpy_def strncpy_loop_eq)

theorem kfree_kalloc_roundtrip:
  assumes "kmem_ok xs k" and "page_ok k v" and "v \<notin> set xs"
  shows "\<exists>k' k''. kfree v k = Inr k' \<and> kmem_ok (v # xs) k' \<and> kalloc k' = (v, k'') \<and> kmem_ok xs k''
    \<and> (\<forall>a. \<not> in_page v a \<longrightarrow> km_mem k'' a = km_mem k a)"
proof -
  obtain k' where k': "kfree v k = Inr k'" "kmem_ok (v # xs) k'"
      "\<forall>a. \<not> in_page v a \<longrightarrow> km_mem k' a = km_mem k a"
    using kfree_spec [OF assms] by blast
  have "kalloc k' = (v, k'\<lparr>km_freelist := get32 (km_mem k') (unat v)\<rparr>)"
    using kalloc_spec(1) [OF k'(2)] by simp
  moreover from this have "kmem_ok xs (k'\<lparr>km_freelist := get32 (km_mem k') (unat v)\<rparr>)"
    using kalloc_spec(2) [OF k'(2) refl] by simp
  ultimately show ?thesis using k' by simp
qed

definition demo_kmem :: kmem where
  "demo_kmem = \<lparr>km_mem = \<lambda>_. 0, km_freelist = 0, km_end = 0x80200000, km_data = 0x80108000\<rparr>"

lemma demo_kmem_ok [simp]: "kmem_ok [] demo_kmem"
  by (simp add: kmem_ok_def demo_kmem_def)

lemma demo_page_ok [simp]: "page_ok demo_kmem 0x80400000"
  by (simp add: page_ok_def demo_kmem_def PGSIZE_def V2P_def KERNBASE_def PHYSTOP_def word_le_nat_alt word_less_nat_alt)

theorem kfree_kalloc_roundtrip_witness:
  "\<exists>k' k''. kfree 0x80400000 demo_kmem = Inr k' \<and> kalloc k' = (0x80400000, k'') \<and> kmem_ok [] k''"
  using kfree_kalloc_roundtrip [OF demo_kmem_ok demo_page_ok] by simp blast

theorem kfree_rejects_bad_page:
  assumes "unat v mod PGSIZE \<noteq> 0 \<or> v < km_end k \<or> V2P v \<ge> PHYSTOP"
  shows "kfree v k = Inl (Panic ''kfree'')"
  using assms by (intro kfree_panics) (auto simp: page_ok_def)

theorem kfree_rejects_bad_page_witness: "kfree 0x80400004 demo_kmem = Inl (Panic ''kfree'')"
  by (rule kfree_rejects_bad_page) (simp add: PGSIZE_def)

text \<open>Rounding to a page.\<close>

lemma page_mask_aligned: "unat (a AND NOT (of_nat PGSIZE - 1) :: u32) mod PGSIZE = 0"
proof -
  have "(of_nat PGSIZE - 1 :: u32) = mask 12" by (simp add: PGSIZE_def mask_eq_exp_minus_1)
  then have "take_bit 12 (a AND NOT (of_nat PGSIZE - 1)) = 0"
    by (auto intro!: bit_eqI simp: bit_simps)
  then have "take_bit 12 (unat (a AND NOT (of_nat PGSIZE - 1))) = 0"
    by (metis unsigned_take_bit_eq unsigned_0)
  then show ?thesis by (simp add: take_bit_eq_mod PGSIZE_def)
qed

lemma PGROUNDUP_aligned: "unat (PGROUNDUP a) mod PGSIZE = 0"
  unfolding PGROUNDUP_def by (rule page_mask_aligned)

theorem kinit_frees_range:
  assumes "kmem_ok xs k" and r: "km_end k \<le> PGROUNDUP vs"
    "KERNBASE \<le> PGROUNDUP vs" "unat ve \<le> unat KERNBASE + unat PHYSTOP"
    and "set (page_range vs ve) \<inter> set xs = {}"
  shows "\<exists>k'. freerange vs ve k = Inr k' \<and> kmem_ok (rev (page_range vs ve) @ xs) k'"
  by (rule freerange_spec [OF assms(1) page_range_spec [OF PGROUNDUP_aligned r] assms(5)])

theorem kinit_frees_range_witness:
  "\<exists>k'. freerange 0x80200001 0x80400000 demo_kmem = Inr k' \<and> kmem_ok (rev (page_range 0x80200001 0x80400000)) k'"
  using kinit_frees_range [OF demo_kmem_ok, of "0x80200001" "0x80400000"]
  by (simp add: PGROUNDUP_def PGSIZE_def demo_kmem_def KERNBASE_def PHYSTOP_def word_le_nat_alt)

text \<open>
  C24: For any sequence of writes, reads and closes on a pipe, what was sent is what was
  received followed by what the pipe still holds, in order, although the counters wrap
  around.
\<close>

theorem pipe_fifo:
  assumes "pipe_ok p" and "\<And>k bs. Write k bs \<in> set es \<Longrightarrow> length bs < 2 ^ 32"
  shows "case pipe_trace c es p of (sent, recv, q) \<Rightarrow> contents p @ sent = recv @ contents q \<and> pipe_ok q"
  using assms by (rule pipe_trace_fifo)

theorem pipe_fifo_witness:
  "case pipe_trace 0 [Write False [1, 2], Read False 1] (new_pipe (\<lambda>_. 0)) of
     (sent, recv, q) \<Rightarrow> sent = recv @ contents q \<and> pipe_ok q"
proof -
  have n: "pipe_ok (new_pipe m)" "contents (new_pipe m) = []" for m
    by (simp_all add: pipe_ok_def contents_def pipe_len_def new_pipe_def)
  have "length bs < 2 ^ 32" if "Write k bs \<in> set [Write False [1, 2], Read False 1]" for k bs
    using that by auto
  from pipe_fifo [OF n(1) [of "\<lambda>_. 0"] this, where c = 0] show ?thesis by (simp only: n append_Nil)
qed

end
