(* ===== verification/Dir.thy ===== *)
theory Dir
  imports Inode
begin

text \<open>
  Directories and path names of fs.c. A directory entry is 16 bytes, the inode number and 14
  bytes of name. A path is the list of its bytes before the terminating zero, a name buffer a
  \<open>mem\<close> of which \<open>DIRSIZ\<close> bytes count.
\<close>

definition DIRENT :: nat where "DIRENT = 16"

definition slash :: u8 where "slash = 47"

definition list_mem :: "u8 list \<Rightarrow> mem" where
  "list_mem xs = (\<lambda>i. if i < length xs then xs ! i else 0)"

definition de_inum :: "u8 list \<Rightarrow> u32" where
  "de_inum de = ucast (get16 (list_mem de) 0)"

definition de_name :: "u8 list \<Rightarrow> mem" where
  "de_name de = (\<lambda>i. list_mem de (2 + i))"

definition namecmp :: "mem \<Rightarrow> mem \<Rightarrow> int" where
  "namecmp s t = strncmp s t DIRSIZ"

text \<open>The offsets a loop over the entries of a directory of \<open>sz\<close> bytes visits.\<close>

definition dir_offs :: "u32 \<Rightarrow> nat list" where
  "dir_offs sz = map (\<lambda>k. k * DIRENT) [0..<(unat sz + DIRENT - 1) div DIRENT]"

text \<open>\<open>readi(dp, (char*)&de, off, sizeof(de)) != sizeof(de)\<close> panics.\<close>

definition read_dirent :: "string \<Rightarrow> nat \<Rightarrow> nat \<Rightarrow> fsys \<Rightarrow> (u8 list \<times> fsys) res" where
  "read_dirent msg dp off s =
     bind_res (readi dp (of_nat off) (of_nat DIRENT) s) (\<lambda>(r, s).
     case r of Io de \<Rightarrow> if length de = DIRENT then Inr (de, s) else Inl (Panic msg)
             | _ \<Rightarrow> Inl (Panic msg))"

fun dirlookup_loop :: "nat \<Rightarrow> mem \<Rightarrow> nat list \<Rightarrow> fsys \<Rightarrow> ((nat \<times> nat) option \<times> fsys) res" where
  "dirlookup_loop dp name [] s = Inr (None, s)"
| "dirlookup_loop dp name (off # offs) s =
     bind_res (read_dirent ''dirlookup read'' dp off s) (\<lambda>(de, s).
     if de_inum de = 0 then dirlookup_loop dp name offs s
     else if namecmp name (de_name de) = 0 then
       bind_res (iget (i_dev (f_icache s dp)) (de_inum de) s) (\<lambda>(ip, s).
       Inr (Some (ip, off), s))
     else dirlookup_loop dp name offs s)"

definition dirlookup :: "nat \<Rightarrow> mem \<Rightarrow> fsys \<Rightarrow> ((nat \<times> nat) option \<times> fsys) res" where
  "dirlookup dp name s =
     (if i_type (f_icache s dp) \<noteq> T_DIR then Inl (Panic ''dirlookup not DIR'')
      else dirlookup_loop dp name (dir_offs (i_size (f_icache s dp))) s)"

text \<open>The first offset of a free entry, or the offset behind the last one.\<close>

fun dirlink_slot :: "nat \<Rightarrow> nat list \<Rightarrow> nat \<Rightarrow> fsys \<Rightarrow> (nat \<times> fsys) res" where
  "dirlink_slot dp [] off s = Inr (off, s)"
| "dirlink_slot dp (off # offs) _ s =
     bind_res (read_dirent ''dirlink read'' dp off s) (\<lambda>(de, s).
     if de_inum de = 0 then Inr (off, s) else dirlink_slot dp offs (off + DIRENT) s)"

definition make_dirent :: "mem \<Rightarrow> u32 \<Rightarrow> mem" where
  "make_dirent name inum = put16 0 (ucast inum) (\<lambda>i. strncpy (\<lambda>_. 0) name (int DIRSIZ) (i - 2))"

definition dirlink :: "nat \<Rightarrow> mem \<Rightarrow> u32 \<Rightarrow> fsys \<Rightarrow> (int \<times> fsys) res" where
  "dirlink dp name inum s =
     bind_res (dirlookup dp name s) (\<lambda>(r, s).
     case r of
       Some (ip, _) \<Rightarrow> bind_res (iput ip s) (\<lambda>s. Inr (-1, s))
     | None \<Rightarrow>
         bind_res (dirlink_slot dp (dir_offs (i_size (f_icache s dp))) 0 s) (\<lambda>(off, s).
         bind_res (writei dp (make_dirent name inum) (of_nat off) (of_nat DIRENT) s) (\<lambda>(w, s).
         if w = Io (of_nat DIRENT) then Inr (0, s) else Inl (Panic ''dirlink''))))"


subsection \<open>Paths\<close>

definition skipelem :: "u8 list \<Rightarrow> mem \<Rightarrow> (u8 list \<times> mem) option" where
  "skipelem path name =
     (let path = dropWhile (\<lambda>c. c = slash) path in
      if path = [] then None
      else
        let elem = takeWhile (\<lambda>c. c \<noteq> slash) path;
            rest = dropWhile (\<lambda>c. c \<noteq> slash) path;
            len = length elem;
            name = (if len \<ge> DIRSIZ then mcopy (list_mem elem) 0 0 DIRSIZ name
                    else (mcopy (list_mem elem) 0 0 len name)(len := 0))
        in Some (dropWhile (\<lambda>c. c = slash) rest, name))"

lemma skipelem_shorter:
  assumes "skipelem path name = Some (rest, name')"
  shows "length rest < length path"
proof -
  let ?p = "dropWhile (\<lambda>c. c = slash) path"
  have ne: "?p \<noteq> []" and r: "rest = dropWhile (\<lambda>c. c = slash) (dropWhile (\<lambda>c. c \<noteq> slash) ?p)"
    using assms by (auto simp: skipelem_def Let_def split: if_splits)
  obtain c cs where p: "?p = c # cs" using ne by (cases ?p) auto
  then have "c \<noteq> slash" using hd_dropWhile [OF ne] by simp
  then have "length (dropWhile (\<lambda>c. c \<noteq> slash) ?p) \<le> length cs"
    unfolding p by (simp add: length_dropWhile_le)
  moreover have "length rest \<le> length (dropWhile (\<lambda>c. c \<noteq> slash) ?p)"
    unfolding r by (rule length_dropWhile_le)
  moreover have "length ?p \<le> length path" by (rule length_dropWhile_le)
  ultimately show ?thesis using p by simp
qed

function namex_loop :: "u8 list \<Rightarrow> bool \<Rightarrow> mem \<Rightarrow> nat \<Rightarrow> fsys \<Rightarrow> ((nat \<times> mem) option \<times> fsys) res" where
  "namex_loop path parent name ip s =
     (case skipelem path name of
        None \<Rightarrow>
          if parent then bind_res (iput ip s) (\<lambda>s. Inr (None, s)) else Inr (Some (ip, name), s)
      | Some (path', name') \<Rightarrow>
          bind_res (ilock ip s) (\<lambda>s.
          if i_type (f_icache s ip) \<noteq> T_DIR then bind_res (iunlockput ip s) (\<lambda>s. Inr (None, s))
          else if parent \<and> path' = [] then bind_res (iunlock ip s) (\<lambda>s. Inr (Some (ip, name'), s))
          else bind_res (dirlookup ip name' s) (\<lambda>(r, s).
            case r of
              None \<Rightarrow> bind_res (iunlockput ip s) (\<lambda>s. Inr (None, s))
            | Some (nxt, _) \<Rightarrow>
                bind_res (iunlockput ip s) (\<lambda>s.
                namex_loop path' parent name' nxt s))))"
  by pat_completeness auto
termination
  by (relation "measure (\<lambda>(path, parent, name, ip, s). length path)", simp, clarsimp, erule skipelem_shorter)

declare namex_loop.simps [simp del]

text \<open>\<open>cwd\<close> is \<open>myproc()->cwd\<close>.\<close>

definition namex :: "nat \<Rightarrow> u8 list \<Rightarrow> bool \<Rightarrow> mem \<Rightarrow> fsys \<Rightarrow> ((nat \<times> mem) option \<times> fsys) res" where
  "namex cwd path parent name s =
     (if path \<noteq> [] \<and> hd path = slash then
        bind_res (iget ROOTDEV ROOTINO s) (\<lambda>(ip, s). namex_loop path parent name ip s)
      else let (ip, s) = idup cwd s in namex_loop path parent name ip s)"

definition namei :: "nat \<Rightarrow> u8 list \<Rightarrow> fsys \<Rightarrow> (nat option \<times> fsys) res" where
  "namei cwd path s =
     bind_res (namex cwd path False (\<lambda>_. 0) s) (\<lambda>(r, s). Inr (map_option fst r, s))"

definition nameiparent :: "nat \<Rightarrow> u8 list \<Rightarrow> mem \<Rightarrow> fsys \<Rightarrow> ((nat \<times> mem) option \<times> fsys) res" where
  "nameiparent cwd path name s = namex cwd path True name s"

end
