(* ===== verification/File.thy ===== *)
theory File
  imports Dir Pipe Kalloc
begin

text \<open>
  file.c and \<open>pipealloc\<close> of pipe.c: the table of open files over inodes and pipes. A file pointer
  is an index of the table, a pipe is named by the address of its page. Bytes written to a
  device go to \<open>l_out\<close> with the major number (the only driver, \<open>consolewrite\<close>, returns the count
  it was given); a read from a device is the value \<open>FDev\<close>, handed to the driver.
\<close>

definition NFILE :: nat where "NFILE = 100"

datatype ftype = FD_NONE | FD_PIPE | FD_INODE

record ofile =
  fi_type :: ftype
  fi_ref :: int
  fi_readable :: bool
  fi_writable :: bool
  fi_pipe :: u32
  fi_ip :: nat
  fi_off :: u32

record fls =
  l_fs :: fsys
  l_file :: "nat \<Rightarrow> ofile"
  l_pipe :: "u32 \<Rightarrow> pipe"
  l_mem :: kmem
  l_killed :: bool
  l_wakes :: "chan list"
  l_out :: "(nat \<times> u8 list) list"

abbreviation upd_file :: "nat \<Rightarrow> (ofile \<Rightarrow> ofile) \<Rightarrow> fls \<Rightarrow> fls" where
  "upd_file f g l \<equiv> l\<lparr>l_file := (l_file l)(f := g (l_file l f))\<rparr>"

text \<open>Running an operation of the file system, or of the page allocator, on its part of the state.\<close>

definition fs_do :: "(fsys \<Rightarrow> fsys res) \<Rightarrow> fls \<Rightarrow> fls res" where
  "fs_do op l = bind_res (op (l_fs l)) (\<lambda>s. Inr (l\<lparr>l_fs := s\<rparr>))"

definition fs_call :: "(fsys \<Rightarrow> ('a \<times> fsys) res) \<Rightarrow> fls \<Rightarrow> ('a \<times> fls) res" where
  "fs_call op l = bind_res (op (l_fs l)) (\<lambda>(r, s). Inr (r, l\<lparr>l_fs := s\<rparr>))"

definition pipe_ch :: "u32 \<Rightarrow> nat" where "pipe_ch p = unat p"

definition filealloc :: "fls \<Rightarrow> nat option \<times> fls" where
  "filealloc l =
     (case first_index (\<lambda>f. fi_ref (l_file l f) = 0) NFILE of
        Some f \<Rightarrow> (Some f, upd_file f (\<lambda>x. x\<lparr>fi_ref := 1\<rparr>) l)
      | None \<Rightarrow> (None, l))"

definition filedup :: "nat \<Rightarrow> fls \<Rightarrow> (nat \<times> fls) res" where
  "filedup f l =
     (if fi_ref (l_file l f) < 1 then Inl (Panic ''filedup'')
      else Inr (f, upd_file f (\<lambda>x. x\<lparr>fi_ref := fi_ref x + 1\<rparr>) l))"

definition pipe_close :: "u32 \<Rightarrow> bool \<Rightarrow> fls \<Rightarrow> fls res" where
  "pipe_close p writable l =
     (let (freed, q, w) = pipeclose (pipe_ch p) writable (l_pipe l p);
          l = l\<lparr>l_pipe := (l_pipe l)(p := q), l_wakes := l_wakes l @ w\<rparr>
      in if freed then bind_res (kfree p (l_mem l)) (\<lambda>k. Inr (l\<lparr>l_mem := k\<rparr>)) else Inr l)"

definition fileclose :: "nat \<Rightarrow> fls \<Rightarrow> fls res" where
  "fileclose f l =
     (if fi_ref (l_file l f) < 1 then Inl (Panic ''fileclose'')
      else
        let l = upd_file f (\<lambda>x. x\<lparr>fi_ref := fi_ref x - 1\<rparr>) l in
        if fi_ref (l_file l f) > 0 then Inr l
        else
          let ff = l_file l f;
              l = upd_file f (\<lambda>x. x\<lparr>fi_ref := 0, fi_type := FD_NONE\<rparr>) l
          in case fi_type ff of
               FD_PIPE \<Rightarrow> pipe_close (fi_pipe ff) (fi_writable ff) l
             | FD_INODE \<Rightarrow>
                 bind_res (fs_do begin_op l) (\<lambda>l.
                 bind_res (fs_do (iput (fi_ip ff)) l) (\<lambda>l.
                 fs_do end_op l))
             | FD_NONE \<Rightarrow> Inr l)"

definition filestat :: "nat \<Rightarrow> fls \<Rightarrow> (stat option \<times> fls) res" where
  "filestat f l =
     (let ip = fi_ip (l_file l f) in
      if fi_type (l_file l f) = FD_INODE then
        bind_res (fs_do (ilock ip) l) (\<lambda>l.
        let st = stati ip (l_fs l) in
        bind_res (fs_do (iunlock ip) l) (\<lambda>l. Inr (Some st, l)))
      else Inr (None, l))"

text \<open>What a read answers: -1, the bytes (their number is the value returned), or a device.\<close>

datatype fread = FErr | FData "u8 list" | FDev nat

definition pipe_read :: "u32 \<Rightarrow> int \<Rightarrow> fls \<Rightarrow> (fread \<times> fls) res" where
  "pipe_read p n l =
     (case piperead (pipe_ch p) (l_killed l) n (l_pipe l p) of
        (PSleep _, _, _, _) \<Rightarrow> Inl (Sleeps (ChPipeRead (pipe_ch p)))
      | (PRet r, cs, q, w) \<Rightarrow>
          Inr (if r = -1 then FErr else FData cs, l\<lparr>l_pipe := (l_pipe l)(p := q), l_wakes := l_wakes l @ w\<rparr>))"

definition pipe_write :: "u32 \<Rightarrow> mem \<Rightarrow> int \<Rightarrow> fls \<Rightarrow> (int \<times> fls) res" where
  "pipe_write p addr n l =
     (case pipewrite (pipe_ch p) (l_killed l) addr n (l_pipe l p) of
        (PSleep _, _, _) \<Rightarrow> Inl (Sleeps (ChPipeWrite (pipe_ch p)))
      | (PRet r, q, w) \<Rightarrow> Inr (r, l\<lparr>l_pipe := (l_pipe l)(p := q), l_wakes := l_wakes l @ w\<rparr>))"

text \<open>\<open>readi\<close> takes the count as an unsigned int.\<close>

definition fileread :: "nat \<Rightarrow> int \<Rightarrow> fls \<Rightarrow> (fread \<times> fls) res" where
  "fileread f n l =
     (let x = l_file l f in
      if \<not> fi_readable x then Inr (FErr, l)
      else case fi_type x of
        FD_PIPE \<Rightarrow> pipe_read (fi_pipe x) n l
      | FD_INODE \<Rightarrow>
          bind_res (fs_do (ilock (fi_ip x)) l) (\<lambda>l.
          bind_res (fs_call (readi (fi_ip x) (fi_off x) (of_int n)) l) (\<lambda>(r, l).
          let l = (case r of Io cs \<Rightarrow> upd_file f (\<lambda>x. x\<lparr>fi_off := fi_off x + of_nat (length cs)\<rparr>) l | _ \<Rightarrow> l) in
          bind_res (fs_do (iunlock (fi_ip x)) l) (\<lambda>l.
          Inr (case r of Io cs \<Rightarrow> FData cs | IoErr \<Rightarrow> FErr | IoDev d \<Rightarrow> FDev d, l))))
      | FD_NONE \<Rightarrow> Inl (Panic ''fileread''))"

definition filepread :: "nat \<Rightarrow> int \<Rightarrow> int \<Rightarrow> fls \<Rightarrow> (fread \<times> fls) res" where
  "filepread f n off l =
     (let x = l_file l f in
      if \<not> fi_readable x then Inr (FErr, l)
      else case fi_type x of
        FD_PIPE \<Rightarrow> pipe_read (fi_pipe x) n l
      | FD_INODE \<Rightarrow>
          bind_res (fs_do (ilock (fi_ip x)) l) (\<lambda>l.
          bind_res (fs_call (readi (fi_ip x) (of_int off) (of_int n)) l) (\<lambda>(r, l).
          bind_res (fs_do (iunlock (fi_ip x)) l) (\<lambda>l.
          Inr (case r of Io cs \<Rightarrow> FData cs | IoErr \<Rightarrow> FErr | IoDev d \<Rightarrow> FDev d, l))))
      | FD_NONE \<Rightarrow> Inl (Panic ''fileread''))"

text \<open>The most bytes that \<open>filewrite\<close> hands to one transaction.\<close>

definition WMAX :: int where "WMAX = ((int MAXOPBLOCKS - 1 - 1 - 2) div 2) * 512"

text \<open>
  One transaction: \<open>writei\<close> of \<open>n1\<close> bytes at \<open>off\<close>; the answer is what \<open>writei\<close> returned. \<open>moves\<close>
  says whether the offset of the file advances, as in \<open>filewrite\<close> but not in \<open>filepwrite\<close>.
\<close>

definition write_chunk :: "nat \<Rightarrow> bool \<Rightarrow> mem \<Rightarrow> u32 \<Rightarrow> int \<Rightarrow> fls \<Rightarrow> (int \<times> fls) res" where
  "write_chunk f moves src off n1 l =
     (let ip = fi_ip (l_file l f) in
      bind_res (fs_do begin_op l) (\<lambda>l.
      bind_res (fs_do (ilock ip) l) (\<lambda>l.
      bind_res (fs_call (writei ip src off (of_int n1)) l) (\<lambda>(w, l).
      let (r, l) = (case w of
            IoErr \<Rightarrow> (-1, l)
          | Io c \<Rightarrow> (sint c, l)
          | IoDev d \<Rightarrow> (n1, l\<lparr>l_out := l_out l @ [(d, bytes src 0 (nat n1))]\<rparr>));
          l = (if moves \<and> r > 0 then upd_file f (\<lambda>x. x\<lparr>fi_off := fi_off x + of_int r\<rparr>) l else l)
      in bind_res (fs_do (iunlock ip) l) (\<lambda>l.
         bind_res (fs_do end_op l) (\<lambda>l.
         Inr (r, l)))))))"

function filewrite_loop :: "nat \<Rightarrow> mem \<Rightarrow> int \<Rightarrow> int \<Rightarrow> fls \<Rightarrow> (int \<times> fls) res" where
  "filewrite_loop f addr i n l =
     (if i < n then
        let n1 = min (n - i) WMAX in
        bind_res (write_chunk f True (\<lambda>k. addr (nat i + k)) (fi_off (l_file l f)) n1 l) (\<lambda>(r, l).
        if r < 0 then Inr (if i = n then n else -1, l)
        else if r \<noteq> n1 then Inl (Panic ''short filewrite'')
        else filewrite_loop f addr (i + r) n l)
      else Inr (if i = n then n else -1, l))"
  by pat_completeness auto
termination
  by (relation "measure (\<lambda>(f, addr, i, n, l). nat (n - i))") (auto simp: WMAX_def MAXOPBLOCKS_def)

declare filewrite_loop.simps [simp del]

definition filewrite :: "nat \<Rightarrow> mem \<Rightarrow> int \<Rightarrow> fls \<Rightarrow> (int \<times> fls) res" where
  "filewrite f addr n l =
     (let x = l_file l f in
      if \<not> fi_writable x then Inr (-1, l)
      else case fi_type x of
        FD_PIPE \<Rightarrow> pipe_write (fi_pipe x) addr n l
      | FD_INODE \<Rightarrow> filewrite_loop f addr 0 n l
      | FD_NONE \<Rightarrow> Inl (Panic ''filewrite''))"

text \<open>Every chunk of \<open>filepwrite\<close> goes to the same offset.\<close>

function filepwrite_loop :: "nat \<Rightarrow> mem \<Rightarrow> u32 \<Rightarrow> int \<Rightarrow> int \<Rightarrow> fls \<Rightarrow> (int \<times> fls) res" where
  "filepwrite_loop f addr off i n l =
     (if i < n then
        let n1 = min (n - i) WMAX in
        bind_res (write_chunk f False (\<lambda>k. addr (nat i + k)) off n1 l) (\<lambda>(r, l).
        if r < 0 then Inr (if i = n then n else -1, l)
        else if r \<noteq> n1 then Inl (Panic ''short filewrite'')
        else filepwrite_loop f addr off (i + r) n l)
      else Inr (if i = n then n else -1, l))"
  by pat_completeness auto
termination
  by (relation "measure (\<lambda>(f, addr, off, i, n, l). nat (n - i))") (auto simp: WMAX_def MAXOPBLOCKS_def)

declare filepwrite_loop.simps [simp del]

definition filepwrite :: "nat \<Rightarrow> mem \<Rightarrow> int \<Rightarrow> int \<Rightarrow> fls \<Rightarrow> (int \<times> fls) res" where
  "filepwrite f addr n off l =
     (let x = l_file l f in
      if \<not> fi_writable x then Inr (-1, l)
      else case fi_type x of
        FD_PIPE \<Rightarrow> pipe_write (fi_pipe x) addr n l
      | FD_INODE \<Rightarrow> filepwrite_loop f addr (of_int off) 0 n l
      | FD_NONE \<Rightarrow> Inl (Panic ''filewrite''))"

text \<open>The \<open>bad:\<close> exit of \<open>pipealloc\<close> closes the files it got; no page is held there.\<close>

definition pipealloc :: "fls \<Rightarrow> ((nat \<times> nat) option \<times> fls) res" where
  "pipealloc l =
     (let (f0, l) = filealloc l in
      case f0 of
        None \<Rightarrow> Inr (None, l)
      | Some f0 \<Rightarrow>
          let (f1, l) = filealloc l in
          case f1 of
            None \<Rightarrow> bind_res (fileclose f0 l) (\<lambda>l. Inr (None, l))
          | Some f1 \<Rightarrow>
              let (p, k) = kalloc (l_mem l); l = l\<lparr>l_mem := k\<rparr> in
              if p = 0 then
                bind_res (fileclose f0 l) (\<lambda>l.
                bind_res (fileclose f1 l) (\<lambda>l. Inr (None, l)))
              else
                let l = l\<lparr>l_pipe := (l_pipe l)(p := new_pipe (\<lambda>i. km_mem k (unat p + i)))\<rparr>;
                    l = upd_file f0 (\<lambda>x. x\<lparr>fi_type := FD_PIPE, fi_readable := True, fi_writable := False,
                                           fi_pipe := p\<rparr>) l;
                    l = upd_file f1 (\<lambda>x. x\<lparr>fi_type := FD_PIPE, fi_readable := False, fi_writable := True,
                                           fi_pipe := p\<rparr>) l
                in Inr (Some (f0, f1), l))"

end
