(* ===== verification/Vm.thy ===== *)
theory Vm
  imports File
begin

text \<open>
  vm.c and the page table macros of mmu.h: two-level page tables in the memory of the page
  allocator. A page directory or page table is the kernel address of its page, an entry is the
  word at its address, and 0 is the null pointer. Loading a register of the machine is left
  out.
\<close>

definition PTE_P :: u32 where "PTE_P = 1"
definition PTE_W :: u32 where "PTE_W = 2"
definition PTE_U :: u32 where "PTE_U = 4"
definition EXTMEM :: u32 where "EXTMEM = 0x100000"
definition DEVSPACE :: u32 where "DEVSPACE = 0xFE000000"
definition KERNLINK :: u32 where "KERNLINK = KERNBASE + EXTMEM"
definition NPDENTRIES :: nat where "NPDENTRIES = 1024"

definition PDX :: "u32 \<Rightarrow> u32" where "PDX va = drop_bit 22 va AND 0x3FF"
definition PTX :: "u32 \<Rightarrow> u32" where "PTX va = drop_bit 12 va AND 0x3FF"

definition PGADDR :: "u32 \<Rightarrow> u32 \<Rightarrow> u32 \<Rightarrow> u32" where
  "PGADDR d t off = push_bit 22 d OR push_bit 12 t OR off"

definition PTE_ADDR :: "u32 \<Rightarrow> u32" where "PTE_ADDR pte = pte AND NOT 0xFFF"
definition PTE_FLAGS :: "u32 \<Rightarrow> u32" where "PTE_FLAGS pte = pte AND 0xFFF"

text \<open>Reading and writing the memory at a kernel address.\<close>

definition rd32 :: "kmem \<Rightarrow> u32 \<Rightarrow> u32" where
  "rd32 k a = get32 (km_mem k) (unat a)"

definition wr32 :: "u32 \<Rightarrow> u32 \<Rightarrow> kmem \<Rightarrow> kmem" where
  "wr32 a v k = k\<lparr>km_mem := put32 (unat a) v (km_mem k)\<rparr>"

definition zero_page :: "u32 \<Rightarrow> kmem \<Rightarrow> kmem" where
  "zero_page a k = k\<lparr>km_mem := memset (unat a) 0 PGSIZE (km_mem k)\<rparr>"


subsection \<open>Walking and mapping\<close>

definition walkpgdir :: "u32 \<Rightarrow> u32 \<Rightarrow> bool \<Rightarrow> kmem \<Rightarrow> u32 \<times> kmem" where
  "walkpgdir pgdir va alloc k =
     (let pde = pgdir + 4 * PDX va in
      if rd32 k pde AND PTE_P \<noteq> 0 then (P2V (PTE_ADDR (rd32 k pde)) + 4 * PTX va, k)
      else if \<not> alloc then (0, k)
      else
        let (pgtab, k) = kalloc k in
        if pgtab = 0 then (0, k)
        else
          let k = zero_page pgtab k;
              k = wr32 pde (V2P pgtab OR PTE_P OR PTE_W OR PTE_U) k
          in (pgtab + 4 * PTX va, k))"

text \<open>
  The loop of \<open>mappages\<close> from \<open>a\<close> to \<open>last\<close>. Both are multiples of the page size, so it ends
  after \<open>(last - a) / PGSIZE + 1\<close> rounds (unsigned), the fuel it is given.
\<close>

fun map_loop :: "nat \<Rightarrow> u32 \<Rightarrow> u32 \<Rightarrow> u32 \<Rightarrow> u32 \<Rightarrow> u32 \<Rightarrow> kmem \<Rightarrow> (int \<times> kmem) res" where
  "map_loop 0 pgdir a end_a pa perm k = Inl (Fault ''mappages: endless loop'')"
| "map_loop (Suc fuel) pgdir a end_a pa perm k =
     (let (pte, k) = walkpgdir pgdir a True k in
      if pte = 0 then Inr (-1, k)
      else if rd32 k pte AND PTE_P \<noteq> 0 then Inl (Panic ''remap'')
      else
        let k = wr32 pte (pa OR perm OR PTE_P) k in
        if a = end_a then Inr (0, k)
        else map_loop fuel pgdir (a + of_nat PGSIZE) end_a (pa + of_nat PGSIZE) perm k)"

definition mappages :: "u32 \<Rightarrow> u32 \<Rightarrow> u32 \<Rightarrow> u32 \<Rightarrow> u32 \<Rightarrow> kmem \<Rightarrow> (int \<times> kmem) res" where
  "mappages pgdir va sz pa perm k =
     (let a = PGROUNDDOWN va;
          end_a = PGROUNDDOWN (va + sz - 1)
      in map_loop (Suc (unat (end_a - a) div PGSIZE)) pgdir a end_a pa perm k)"


subsection \<open>Freeing\<close>

text \<open>
  The loop of \<open>deallocuvm\<close>: a missing page table skips to the end of its 4 megabytes. If the
  address wraps around below \<open>oldsz\<close> the loop starts over without end.
\<close>

definition dealloc_page :: "u32 \<Rightarrow> u32 \<Rightarrow> kmem \<Rightarrow> (u32 \<times> kmem) res" where
  "dealloc_page pgdir a k =
     (let (pte, k) = walkpgdir pgdir a False k in
      if pte = 0 then Inr (PGADDR (PDX a + 1) 0 0 - of_nat PGSIZE, k)
      else if rd32 k pte AND PTE_P \<noteq> 0 then
        let pa = PTE_ADDR (rd32 k pte) in
        if pa = 0 then Inl (Panic ''kfree'')
        else bind_res (kfree (P2V pa) k) (\<lambda>k. Inr (a, wr32 pte 0 k))
      else Inr (a, k))"

function dealloc_loop :: "u32 \<Rightarrow> u32 \<Rightarrow> u32 \<Rightarrow> kmem \<Rightarrow> kmem res" where
  "dealloc_loop pgdir a oldsz k =
     (if a \<ge> oldsz then Inr k
      else bind_res (dealloc_page pgdir a k) (\<lambda>(a', k).
        if a' + of_nat PGSIZE \<le> a then Inl (Fault ''deallocuvm: endless loop'')
        else dealloc_loop pgdir (a' + of_nat PGSIZE) oldsz k))"
  by pat_completeness auto
termination
  by (relation "measure (\<lambda>(pgdir, a, oldsz, k). unat oldsz - unat a)")
     (auto simp: word_less_nat_alt word_le_nat_alt)

declare dealloc_loop.simps [simp del]

definition deallocuvm :: "u32 \<Rightarrow> u32 \<Rightarrow> u32 \<Rightarrow> kmem \<Rightarrow> (u32 \<times> kmem) res" where
  "deallocuvm pgdir oldsz newsz k =
     (if newsz \<ge> oldsz then Inr (oldsz, k)
      else bind_res (dealloc_loop pgdir (PGROUNDUP newsz) oldsz k) (\<lambda>k. Inr (newsz, k)))"

definition freevm :: "u32 \<Rightarrow> kmem \<Rightarrow> kmem res" where
  "freevm pgdir k =
     (if pgdir = 0 then Inl (Panic ''freevm: no pgdir'')
      else bind_res (deallocuvm pgdir KERNBASE 0 k) (\<lambda>(_, k).
        bind_res (for_each (\<lambda>i k.
          let pde = rd32 k (pgdir + 4 * of_nat i) in
          if pde AND PTE_P \<noteq> 0 then kfree (P2V (PTE_ADDR pde)) k else Inr k) [0..<NPDENTRIES] k) (\<lambda>k.
        kfree pgdir k)))"


subsection \<open>The kernel part\<close>

definition kmap :: "kmem \<Rightarrow> (u32 \<times> u32 \<times> u32 \<times> u32) list" where
  "kmap k =
     [(KERNBASE, 0, EXTMEM, PTE_W),
      (KERNLINK, V2P KERNLINK, V2P (km_data k), 0),
      (km_data k, V2P (km_data k), PHYSTOP, PTE_W),
      (DEVSPACE, DEVSPACE, 0, PTE_W)]"

fun setup_loop :: "u32 \<Rightarrow> (u32 \<times> u32 \<times> u32 \<times> u32) list \<Rightarrow> kmem \<Rightarrow> (u32 \<times> kmem) res" where
  "setup_loop pgdir [] k = Inr (pgdir, k)"
| "setup_loop pgdir ((virt, start, finish, perm) # ms) k =
     bind_res (mappages pgdir virt (finish - start) start perm k) (\<lambda>(r, k).
     if r < 0 then bind_res (freevm pgdir k) (\<lambda>k. Inr (0, k))
     else setup_loop pgdir ms k)"

definition setupkvm :: "kmem \<Rightarrow> (u32 \<times> kmem) res" where
  "setupkvm k =
     (let (pgdir, k) = kalloc k in
      if pgdir = 0 then Inr (0, k)
      else
        let k = zero_page pgdir k in
        if P2V PHYSTOP > DEVSPACE then Inl (Panic ''PHYSTOP too high'')
        else setup_loop pgdir (kmap k) k)"


subsection \<open>The user part\<close>

text \<open>
  \<open>init\<close> holds the \<open>sz\<close> bytes of the first program. The page is not tested for null: clearing
  the memory at the null pointer is a fault.
\<close>

definition inituvm :: "u32 \<Rightarrow> mem \<Rightarrow> u32 \<Rightarrow> kmem \<Rightarrow> kmem res" where
  "inituvm pgdir init sz k =
     (if unat sz \<ge> PGSIZE then Inl (Panic ''inituvm: more than a page'')
      else
        let (m, k) = kalloc k in
        if m = 0 then Inl (Fault ''inituvm: mem'')
        else bind_res (mappages pgdir 0 (of_nat PGSIZE) (V2P m) (PTE_W OR PTE_U) (zero_page m k)) (\<lambda>(_, k).
          Inr (k\<lparr>km_mem := mcopy init 0 (unat m) (unat sz) (km_mem k)\<rparr>)))"

text \<open>The addresses of \<open>for(; a < e; a += PGSIZE)\<close>, for an \<open>e\<close> no larger than \<open>0xFFFFF000\<close>.\<close>

definition page_addrs :: "u32 \<Rightarrow> u32 \<Rightarrow> u32 list" where
  "page_addrs a e = map (\<lambda>i. a + of_nat (i * PGSIZE)) [0..<(unat e - unat a + PGSIZE - 1) div PGSIZE]"

fun alloc_loop :: "u32 \<Rightarrow> u32 \<Rightarrow> u32 \<Rightarrow> u32 list \<Rightarrow> kmem \<Rightarrow> (u32 \<times> kmem) res" where
  "alloc_loop pgdir oldsz newsz [] k = Inr (newsz, k)"
| "alloc_loop pgdir oldsz newsz (a # as) k =
     (let (m, k) = kalloc k in
      if m = 0 then
        bind_res (deallocuvm pgdir newsz oldsz k) (\<lambda>(_, k). Inr (0, k))
      else
        bind_res (mappages pgdir a (of_nat PGSIZE) (V2P m) (PTE_W OR PTE_U) (zero_page m k)) (\<lambda>(r, k).
        if r < 0 then
          bind_res (deallocuvm pgdir newsz oldsz k) (\<lambda>(_, k).
          bind_res (kfree m k) (\<lambda>k. Inr (0, k)))
        else alloc_loop pgdir oldsz newsz as k))"

definition allocuvm :: "u32 \<Rightarrow> u32 \<Rightarrow> u32 \<Rightarrow> kmem \<Rightarrow> (u32 \<times> kmem) res" where
  "allocuvm pgdir oldsz newsz k =
     (if newsz \<ge> KERNBASE then Inr (0, k)
      else if newsz < oldsz then Inr (oldsz, k)
      else alloc_loop pgdir oldsz newsz (page_addrs (PGROUNDUP oldsz) newsz) k)"

definition clearpteu :: "u32 \<Rightarrow> u32 \<Rightarrow> kmem \<Rightarrow> kmem res" where
  "clearpteu pgdir uva k =
     (let (pte, k) = walkpgdir pgdir uva False k in
      if pte = 0 then Inl (Panic ''clearpteu'')
      else Inr (wr32 pte (rd32 k pte AND NOT PTE_U) k))"

text \<open>The loop of \<open>copyuvm\<close>; the label \<open>bad\<close> frees the copy and answers 0.\<close>

fun copy_loop :: "u32 \<Rightarrow> u32 \<Rightarrow> u32 list \<Rightarrow> kmem \<Rightarrow> (u32 \<times> kmem) res" where
  "copy_loop pgdir d [] k = Inr (d, k)"
| "copy_loop pgdir d (i # is) k =
     (let (pte, k) = walkpgdir pgdir i False k in
      if pte = 0 then Inl (Panic ''copyuvm: pte should exist'')
      else if rd32 k pte AND PTE_P = 0 then Inl (Panic ''copyuvm: page not present'')
      else
        let pa = PTE_ADDR (rd32 k pte);
            flags = PTE_FLAGS (rd32 k pte);
            (m, k) = kalloc k
        in if m = 0 then bind_res (freevm d k) (\<lambda>k. Inr (0, k))
           else
             let k = k\<lparr>km_mem := memmove (unat m) (unat (P2V pa)) PGSIZE (km_mem k)\<rparr> in
             bind_res (mappages d i (of_nat PGSIZE) (V2P m) flags k) (\<lambda>(r, k).
             if r < 0 then
               bind_res (kfree m k) (\<lambda>k. bind_res (freevm d k) (\<lambda>k. Inr (0, k)))
             else copy_loop pgdir d is k))"

definition copyuvm :: "u32 \<Rightarrow> u32 \<Rightarrow> kmem \<Rightarrow> (u32 \<times> kmem) res" where
  "copyuvm pgdir sz k =
     bind_res (setupkvm k) (\<lambda>(d, k).
     if d = 0 then Inr (0, k)
     else copy_loop pgdir d (page_addrs 0 sz) k)"

text \<open>The entry \<open>walkpgdir\<close> returns is not tested for null.\<close>

definition uva2ka :: "u32 \<Rightarrow> u32 \<Rightarrow> kmem \<Rightarrow> u32 res" where
  "uva2ka pgdir uva k =
     (let (pte, k) = walkpgdir pgdir uva False k in
      if pte = 0 then Inl (Fault ''uva2ka: pte'')
      else if rd32 k pte AND PTE_P = 0 then Inr 0
      else if rd32 k pte AND PTE_U = 0 then Inr 0
      else Inr (P2V (PTE_ADDR (rd32 k pte))))"

text \<open>\<open>copyout\<close> copies \<open>len\<close> bytes of the kernel buffer \<open>p\<close>, from its offset \<open>i\<close> on.\<close>

function copyout :: "u32 \<Rightarrow> u32 \<Rightarrow> mem \<Rightarrow> nat \<Rightarrow> nat \<Rightarrow> kmem \<Rightarrow> (int \<times> kmem) res" where
  "copyout pgdir va p i len k =
     (if len = 0 then Inr (0, k)
      else
        let va0 = PGROUNDDOWN va in
        bind_res (uva2ka pgdir va0 k) (\<lambda>pa0.
        if pa0 = 0 then Inr (-1, k)
        else
          let n = min len (PGSIZE - unat (va - va0) mod PGSIZE);
              k = k\<lparr>km_mem := mcopy p i (unat (pa0 + (va - va0))) n (km_mem k)\<rparr>
          in copyout pgdir (va0 + of_nat PGSIZE) p (i + n) (len - n) k))"
  by pat_completeness auto
termination
  by (relation "measure (\<lambda>(pgdir, va, p, i, len, k). len)")
     (auto simp: PGSIZE_def)

declare copyout.simps [simp del]

text \<open>
  Loading a segment reads the file into the pages already mapped. \<open>readi\<close> hands back the
  bytes, which go to the page.
\<close>

fun load_loop :: "u32 \<Rightarrow> u32 \<Rightarrow> nat \<Rightarrow> u32 \<Rightarrow> u32 \<Rightarrow> u32 list \<Rightarrow> fls \<Rightarrow> (int \<times> fls) res" where
  "load_loop pgdir addr ip off sz [] l = Inr (0, l)"
| "load_loop pgdir addr ip off sz (i # is) l =
     (let (pte, k) = walkpgdir pgdir (addr + i) False (l_mem l) in
      if pte = 0 then Inl (Panic ''loaduvm: address should exist'')
      else
        let pa = PTE_ADDR (rd32 k pte);
            n = (if unat (sz - i) < PGSIZE then sz - i else of_nat PGSIZE)
        in bind_res (fs_call (readi ip (off + i) n) l) (\<lambda>(r, l).
           case r of
             Io cs \<Rightarrow>
               let l = l\<lparr>l_mem := (l_mem l)\<lparr>km_mem :=
                         mcopy (list_mem cs) 0 (unat (P2V pa)) (length cs) (km_mem (l_mem l))\<rparr>\<rparr>
               in if length cs \<noteq> unat n then Inr (-1, l)
                  else load_loop pgdir addr ip off sz is l
           | _ \<Rightarrow> Inr (-1, l)))"

definition loaduvm :: "u32 \<Rightarrow> u32 \<Rightarrow> nat \<Rightarrow> u32 \<Rightarrow> u32 \<Rightarrow> fls \<Rightarrow> (int \<times> fls) res" where
  "loaduvm pgdir addr ip off sz l =
     (if unat addr mod PGSIZE \<noteq> 0 then Inl (Panic ''loaduvm: addr must be page aligned'')
      else load_loop pgdir addr ip off sz (page_addrs 0 sz) l)"

end
