(* ===== verification/Vm_Ok.thy ===== *)
theory Vm_Ok
  imports Vm
begin

text \<open>
  The arithmetic of addresses behind the macros of mmu.h: the indices of a virtual address, page
  boundaries, and entries made of a page and flags.
\<close>

lemma and_not_page: "(x :: u32) AND NOT 0xFFF = push_bit 12 (drop_bit 12 x)"
proof (rule bit_eqI)
  fix n assume "possible_bit TYPE(u32) n"
  then have n: "n < 32" by simp
  have m: "(0xFFF :: u32) = mask 12" by (simp add: mask_eq_exp_minus_1)
  show "bit (x AND NOT 0xFFF) n = bit (push_bit 12 (drop_bit 12 x)) n"
    unfolding m using n by (auto simp: bit_simps)
qed

lemma unat_page_base: "unat ((x :: u32) AND NOT 0xFFF) = unat x div 4096 * 4096"
proof -
  have "unat x div 4096 * 4096 < 2 ^ 32" using unat_less_32 [of x] by (metis div_times_less_eq_dividend le_less_trans)
  then show ?thesis
    unfolding and_not_page
    by (simp only: unsigned_push_bit_eq unsigned_drop_bit_eq push_bit_eq_mult drop_bit_eq_div)
       (simp add: take_bit_nat_eq_self unat_word_ariths(2) unat_div_distrib)
qed

lemma unat_and_low: "unat ((x :: u32) AND 0xFFF) = unat x mod 4096" "unat (x AND 0x3FF) = unat x mod 1024"
proof -
  have m: "(0xFFF :: u32) = mask 12" "(0x3FF :: u32) = mask 10" by (simp_all add: mask_eq_exp_minus_1)
  show "unat (x AND 0xFFF) = unat x mod 4096" "unat (x AND 0x3FF) = unat x mod 1024"
    unfolding m take_bit_eq_mask [symmetric] by (simp_all add: unsigned_take_bit_eq take_bit_eq_mod unat_mod_distrib)
qed

lemma unat_PDX: "unat (PDX va) = unat va div 2 ^ 22"
proof -
  have "unat va div 2 ^ 22 < 1024" using unat_less_32 [of va] by (simp add: less_mult_imp_div_less)
  then show ?thesis unfolding PDX_def unat_and_low unsigned_drop_bit_eq drop_bit_eq_div by (simp add: unat_div_distrib)
qed

lemma unat_PTX: "unat (PTX va) = unat va div 4096 mod 1024"
  unfolding PTX_def unat_and_low unsigned_drop_bit_eq drop_bit_eq_div by (simp add: unat_div_distrib)

text \<open>The two indices of an address are those of its page.\<close>

definition page :: "u32 \<Rightarrow> nat" where
  "page va = unat va div PGSIZE"

lemma page_index: "PDX va = PDX vb \<and> PTX va = PTX vb \<longleftrightarrow> page va = page vb"
proof -
  have e: "page va = unat (PDX va) * 1024 + unat (PTX va)" for va
    unfolding unat_PDX unat_PTX page_def PGSIZE_def by (simp add: div_mult2_eq [of _ 4096 1024, simplified])
  have "unat (PTX v) < 1024" for v unfolding unat_PTX by simp
  then have "unat (PDX va) = unat (PDX vb) \<and> unat (PTX va) = unat (PTX vb)" if "page va = page vb"
    using that e [of va] e [of vb]
    by (metis add.commute div_mult_self3 div_less mod_mult_self3 mod_less zero_neq_numeral add.right_neutral)
  then show ?thesis using e by (auto simp: word_unat_eq_iff)
qed

lemma PGROUNDDOWN_unat: "unat (PGROUNDDOWN a) = page a * PGSIZE"
  using unat_page_base [of a] by (simp add: PGROUNDDOWN_def page_def PGSIZE_def)

lemma unat_PTE_ADDR: "unat (PTE_ADDR e) = page e * PGSIZE"
  using unat_page_base [of e] by (simp add: PTE_ADDR_def page_def PGSIZE_def)

lemma page_bound: "page a < 2 ^ 20"
  using unat_less_32 [of a] by (simp add: page_def PGSIZE_def less_mult_imp_div_less)


subsection \<open>Page tables as a map\<close>

text \<open>
  Page tables as a map from virtual pages to entries. \<open>vm_ok\<close> says that the directory and its
  tables are distinct pages of the allocator that are not free; \<open>pte\<close> is the entry of an address,
  0 when there is no table for it. Walking, setting an entry and mapping a range are refined to
  this map; \<open>owned\<close>, the pages of the tables and the free ones, is what they may write.
\<close>

subsection \<open>Pages and entries\<close>

lemma page_okD:
  assumes "page_ok k v"
  shows "unat v mod 4096 = 0" "unat v + 4096 \<le> 0x8E000000" "0x80000000 \<le> unat v"
proof -
  show m: "unat v mod 4096 = 0" using assms by (simp add: page_ok_def PGSIZE_def)
  have lt: "v - 0x80000000 < 0xE000000" using assms by (simp add: page_ok_def V2P_def KERNBASE_def PHYSTOP_def)
  show le: "0x80000000 \<le> unat v"
  proof (rule ccontr)
    assume a: "\<not> 0x80000000 \<le> unat v"
    have "unat (v - 0x80000000) = unat v + 0x80000000"
      using a by (simp add: unat_sub_if')
    then show False using lt by (simp add: word_less_nat_alt)
  qed
  then have "unat (v - 0x80000000) = unat v - 0x80000000" by (simp add: unat_sub_if' )
  then have "unat v < 0x8E000000" using lt le by (simp add: word_less_nat_alt)
  moreover have "4096 dvd unat v" using m by auto
  ultimately show "unat v + 4096 \<le> 0x8E000000" by (auto elim!: dvdE)
qed

lemma entry_unat:
  assumes "page_ok k v" and "i < 1024"
  shows "unat (v + 4 * i) = unat v + 4 * unat i" "unat i < 1024"
proof -
  show i: "unat i < 1024" using assms(2) by (simp add: word_less_nat_alt)
  then have "unat (4 * i) = 4 * unat i" by (simp add: unat_word_ariths)
  then show "unat (v + 4 * i) = unat v + 4 * unat i"
    using page_okD [OF assms(1)] i by (simp add: unat_add_32)
qed

lemma page_ok_apart:
  assumes "page_ok k v" "page_ok k w" "v \<noteq> w"
  shows "unat v + 4096 \<le> unat w \<or> unat w + 4096 \<le> unat v"
proof -
  have "4096 dvd unat v" "4096 dvd unat w" using page_okD(1) assms by auto
  moreover have "unat v \<noteq> unat w" using assms(3) by (simp add: word_unat_eq_iff)
  ultimately show ?thesis by (auto elim!: dvdE)
qed

lemma rd_wr:
  assumes x: "page_ok k0 x" "i < 1024" and y: "page_ok k0 y" "j < 1024"
  shows "rd32 (wr32 (x + 4 * i) v k) (y + 4 * j) = (if x = y \<and> i = j then v else rd32 k (y + 4 * j))"
proof (cases "x = y \<and> i = j")
  case False
  have "unat x + 4 * unat i + 4 \<le> unat y + 4 * unat j \<or> unat y + 4 * unat j + 4 \<le> unat x + 4 * unat i"
  proof (cases "x = y")
    case True
    then have "unat i \<noteq> unat j" using False by (simp add: word_unat_eq_iff)
    then show ?thesis using True by (auto simp: nat_neq_iff)
  next
    case False
    then show ?thesis using page_ok_apart [OF x(1) y(1)] entry_unat(2) [OF x] entry_unat(2) [OF y] by linarith
  qed
  then show ?thesis
    using False by (auto simp: rd32_def wr32_def entry_unat(1) [OF x] entry_unat(1) [OF y] get_put32_other)
qed (simp add: rd32_def wr32_def)

lemma rd_zero:
  assumes x: "page_ok k0 x" and y: "page_ok k0 y" "j < 1024"
  shows "rd32 (zero_page x k) (y + 4 * j) = (if x = y then 0 else rd32 k (y + 4 * j))"
proof (cases "x = y")
  case True
  then have "get32 (memset (unat x) 0 PGSIZE (km_mem k)) (unat y + 4 * unat j) = get32 (\<lambda>_. 0) 0"
    using entry_unat(2) [OF y] unfolding get32_def by (simp add: memset_eq mset_def PGSIZE_def)
  then show ?thesis using True by (simp add: rd32_def zero_page_def entry_unat(1) [OF y] get32_def)
next
  case False
  have "get32 (memset (unat x) 0 PGSIZE (km_mem k)) (unat y + 4 * unat j) = get32 (km_mem k) (unat y + 4 * unat j)"
    by (rule get32_cong) (use page_ok_apart [OF x y(1) False] entry_unat(2) [OF y] in
      \<open>auto simp: memset_eq mset_def PGSIZE_def\<close>)
  then show ?thesis using False by (simp add: rd32_def zero_page_def entry_unat(1) [OF y])
qed

lemma P2V_V2P [simp]: "P2V (V2P x) = x" "V2P (P2V x) = x"
  by (simp_all add: P2V_def V2P_def)

lemma entry_parts:
  assumes "unat x mod 4096 = 0" and "f < 4096"
  shows "PTE_ADDR (x OR f) = x" "PTE_FLAGS (x OR f) = f"
proof -
  have m: "(0xFFF :: u32) = mask 12" by (simp add: mask_eq_exp_minus_1)
  have "unat x div 4096 * 4096 = unat x" using assms(1) by (metis div_mult_mod_eq add.right_neutral)
  then have "x AND NOT 0xFFF = x" unfolding word_unat_eq_iff unat_page_base .
  then have x: "12 \<le> n" if "bit x n" for n
    using that
    by (metis and_not_page bit_push_bit_iff)
  have "unat f mod 4096 = unat f" using assms(2) by (simp add: word_less_nat_alt)
  then have "f AND 0xFFF = f" unfolding word_unat_eq_iff unat_and_low .
  then have f: "n < 12" if "bit f n" for n
    using that unfolding m by (metis bit_and_iff bit_mask_iff)
  show "PTE_ADDR (x OR f) = x" "PTE_FLAGS (x OR f) = f"
    unfolding PTE_ADDR_def PTE_FLAGS_def m
    by (rule bit_eqI, use x f in \<open>fastforce simp: bit_or_iff bit_and_iff bit_not_iff bit_mask_iff\<close>)+
qed

lemma V2P_aligned: "page_ok k v \<Longrightarrow> unat (V2P v) mod 4096 = 0"
  using page_okD [of k v]
  by (simp add: V2P_def KERNBASE_def unat_sub_if' mod_eq_0_iff_dvd dvd_diff_nat)


subsection \<open>The invariant\<close>

definition has_tab :: "kmem \<Rightarrow> u32 \<Rightarrow> u32 \<Rightarrow> bool" where
  "has_tab k pd d \<longleftrightarrow> rd32 k (pd + 4 * d) AND PTE_P \<noteq> 0"

definition tab :: "kmem \<Rightarrow> u32 \<Rightarrow> u32 \<Rightarrow> u32" where
  "tab k pd d = P2V (PTE_ADDR (rd32 k (pd + 4 * d)))"

definition pte :: "kmem \<Rightarrow> u32 \<Rightarrow> u32 \<Rightarrow> u32" where
  "pte k pd va = (if has_tab k pd (PDX va) then rd32 k (tab k pd (PDX va) + 4 * PTX va) else 0)"

definition vm_ok :: "u32 list \<Rightarrow> u32 \<Rightarrow> kmem \<Rightarrow> bool" where
  "vm_ok xs pd k \<longleftrightarrow> kmem_ok xs k \<and> page_ok k pd \<and> pd \<notin> set xs
     \<and> (\<forall>d<1024. has_tab k pd d \<longrightarrow> page_ok k (tab k pd d) \<and> tab k pd d \<notin> set xs \<and> tab k pd d \<noteq> pd)
     \<and> (\<forall>d<1024. \<forall>e<1024. has_tab k pd d \<longrightarrow> has_tab k pd e \<longrightarrow> tab k pd d = tab k pd e \<longrightarrow> d = e)"

definition owned :: "u32 list \<Rightarrow> u32 \<Rightarrow> kmem \<Rightarrow> u32 set" where
  "owned xs pd k = {pd} \<union> {tab k pd d |d. d < 1024 \<and> has_tab k pd d} \<union> set xs"

definition same_outside :: "u32 set \<Rightarrow> kmem \<Rightarrow> kmem \<Rightarrow> bool" where
  "same_outside W k k' \<longleftrightarrow> km_end k' = km_end k \<and> km_data k' = km_data k
     \<and> (\<forall>a. (\<forall>v\<in>W. \<not> in_page v a) \<longrightarrow> km_mem k' a = km_mem k a)"

lemma same_outside_refl [simp]: "same_outside W k k"
  by (simp add: same_outside_def)

lemma same_outside_trans: "same_outside W k k' \<Longrightarrow> same_outside W k' k'' \<Longrightarrow> same_outside W k k''"
  by (simp add: same_outside_def)

lemma same_outside_mono: "same_outside V k k' \<Longrightarrow> V \<subseteq> W \<Longrightarrow> same_outside W k k'"
  by (auto simp: same_outside_def)

lemma page_ok_end: "km_end k' = km_end k \<Longrightarrow> page_ok k' v = page_ok k v"
  by (simp add: page_ok_def)

lemma index_bound [simp]: "PDX va < 1024" "PTX va < 1024"
proof -
  have "unat va div 2 ^ 22 < 1024" using unat_less_32 [of va] by (simp add: less_mult_imp_div_less)
  then show "PDX va < 1024" "PTX va < 1024" by (simp_all add: word_less_nat_alt unat_PDX unat_PTX)
qed

lemma vm_okD:
  assumes "vm_ok xs pd k"
  shows "kmem_ok xs k" "page_ok k pd" "pd \<notin> set xs"
    "d < 1024 \<Longrightarrow> has_tab k pd d \<Longrightarrow> page_ok k (tab k pd d) \<and> tab k pd d \<notin> set xs \<and> tab k pd d \<noteq> pd"
    "d < 1024 \<Longrightarrow> e < 1024 \<Longrightarrow> has_tab k pd d \<Longrightarrow> has_tab k pd e \<Longrightarrow> tab k pd d = tab k pd e \<Longrightarrow> d = e"
    "x \<in> set xs \<Longrightarrow> page_ok k x"
  using assms by (auto simp: vm_ok_def kmem_ok_def)


subsection \<open>Walking\<close>

lemma walk_hit: "has_tab k pd (PDX va) \<Longrightarrow> walkpgdir pd va al k = (tab k pd (PDX va) + 4 * PTX va, k)"
  by (simp add: walkpgdir_def has_tab_def tab_def Let_def)

lemma walk_miss: "\<not> has_tab k pd (PDX va) \<Longrightarrow> walkpgdir pd va False k = (0, k)"
  by (simp add: walkpgdir_def has_tab_def Let_def)

lemma walk_full:
  "vm_ok [] pd k \<Longrightarrow> \<not> has_tab k pd (PDX va) \<Longrightarrow> walkpgdir pd va True k = (0, k)"
  using kalloc_spec(1) [OF vm_okD(1)] by (simp add: walkpgdir_def has_tab_def Let_def)

lemma entry_nonzero: "page_ok k v \<Longrightarrow> i < 1024 \<Longrightarrow> v + 4 * i \<noteq> 0"
  using entry_unat [of k v i] page_okD [of k v] by (metis add_is_0 not_numeral_le_zero unat_0)

lemma flags_entry: "(x OR PTE_P OR y) AND PTE_P \<noteq> 0" "(x OR y OR PTE_P) AND PTE_P \<noteq> 0"
proof -
  have "bit ((x OR PTE_P OR y) AND PTE_P) 0" "bit ((x OR y OR PTE_P) AND PTE_P) 0"
    by (simp_all add: PTE_P_def bit_simps)
  then show "(x OR PTE_P OR y) AND PTE_P \<noteq> 0" "(x OR y OR PTE_P) AND PTE_P \<noteq> 0" by auto
qed

lemma walk_new:
  assumes ok: "vm_ok (x # xs) pd k" and new: "\<not> has_tab k pd (PDX va)"
  obtains k' where "walkpgdir pd va True k = (x + 4 * PTX va, k')" "vm_ok xs pd k'" "has_tab k' pd (PDX va)"
    "tab k' pd (PDX va) = x" "\<And>a. pte k' pd a = pte k pd a" "owned xs pd k' = owned (x # xs) pd k"
    "same_outside (owned (x # xs) pd k) k k'"
proof -
  note V = vm_okD [OF ok]
  define k1 where "k1 = k\<lparr>km_freelist := get32 (km_mem k) (unat x)\<rparr>"
  define k2 where "k2 = zero_page x k1"
  define k' where "k' = wr32 (pd + 4 * PDX va) (V2P x OR PTE_P OR PTE_W OR PTE_U) k2"
  have ka: "kalloc k = (x, k1)" using kalloc_spec(1) [OF V(1)] by (simp add: k1_def)
  have x: "kmem_ok xs k1" "page_ok k x" "x \<notin> set xs" "x \<noteq> 0"
    using kalloc_spec(2) [OF V(1) refl] by (simp_all add: ka)
  have en: "km_end k' = km_end k" "km_data k' = km_data k" "km_end k2 = km_end k" "km_end k1 = km_end k"
    by (simp_all add: k'_def k2_def k1_def wr32_def zero_page_def)
  note pok = page_ok_end [OF en(1)] page_ok_end [OF en(3)] page_ok_end [OF en(4)]
  have xp: "x \<noteq> pd" using V(3) by auto
  have rd: "rd32 k' (y + 4 * j) = (if y = pd \<and> j = PDX va then V2P x OR PTE_P OR PTE_W OR PTE_U
      else if y = x then 0 else rd32 k (y + 4 * j))" if "page_ok k y" "j < 1024" for y j
    using xp unfolding k'_def rd_wr [OF V(2) index_bound(1) that] k2_def rd_zero [OF x(2) that]
    by (simp add: k1_def rd32_def)
  have mem: "km_mem k' a = km_mem k a" if "\<not> in_page pd a" "\<not> in_page x a" for a
  proof -
    have "a < unat pd + 4 * unat (PDX va) \<or> unat pd + 4 * unat (PDX va) + 4 \<le> a"
      using that(1) entry_unat(2) [OF V(2) index_bound(1) [of va]]
      by (simp only: in_page_def PGSIZE_def de_Morgan_conj not_le not_less) linarith
    then show ?thesis
      using that(2) by (auto simp: k'_def k2_def k1_def wr32_def zero_page_def entry_unat(1) [OF V(2)] put32_outside
          memset_eq mset_def in_page_def)
  qed
  have fl: "(4096 :: u32) > PTE_P OR PTE_W OR PTE_U" by (simp add: PTE_P_def PTE_W_def PTE_U_def)
  have has: "has_tab k' pd d \<longleftrightarrow> d = PDX va \<or> has_tab k pd d" if "d < 1024" for d
    using flags_entry(1) [of "V2P x"] xp by (auto simp: has_tab_def rd [OF V(2) that])
  have tb: "tab k' pd d = (if d = PDX va then x else tab k pd d)" if "d < 1024" for d
    using xp entry_parts(1) [OF V2P_aligned [OF x(2)] fl] by (auto simp: tab_def rd [OF V(2) that])
  have fresh: "tab k pd d \<noteq> x" if "d < 1024" "has_tab k pd d" for d using V(4) [OF that] by auto
  have "kmem_ok xs (k1\<lparr>km_mem := km_mem k'\<rparr>)"
  proof (rule kmem_ok_mem [OF x(1)])
    fix y a assume y: "y \<in> set xs" "in_page y a"
    have "page_ok k y" using V(6) y(1) by simp
    then have "\<not> in_page pd a" "\<not> in_page x a"
      using pages_disjoint [of k y pd a] pages_disjoint [of k y x a] V(2,3) x(2,3) y by auto
    from mem [OF this] show "km_mem k' a = km_mem k1 a" by (simp add: k1_def)
  qed
  moreover have "k1\<lparr>km_mem := km_mem k'\<rparr> = k'" by (simp add: k'_def k2_def wr32_def zero_page_def)
  ultimately have "kmem_ok xs k'" by simp
  then have vm: "vm_ok xs pd k'"
    unfolding vm_ok_def pok using V(2-5) x(2,3) xp fresh by (auto simp: has tb)
  have pt: "pte k' pd a = pte k pd a" for a
  proof (cases "PDX a = PDX va")
    case True
    then show ?thesis using new xp by (simp add: pte_def has tb rd [OF x(2)])
  next
    case False
    then show ?thesis
      using V(4) [of "PDX a"] fresh [of "PDX a"] by (auto simp: pte_def has tb rd)
  qed
  have "{tab k' pd d |d. d < 1024 \<and> has_tab k' pd d} = insert x {tab k pd d |d. d < 1024 \<and> has_tab k pd d}"
    using has tb new index_bound(1) [of va] by (auto; metis)
  then have own: "owned xs pd k' = owned (x # xs) pd k" by (auto simp: owned_def)
  have "walkpgdir pd va True k = (x + 4 * PTX va, k')"
    using new ka x(4) by (simp add: walkpgdir_def has_tab_def Let_def k'_def k2_def)
  moreover have "same_outside (owned (x # xs) pd k) k k'"
    using mem en by (auto simp: same_outside_def owned_def)
  moreover have "has_tab k' pd (PDX va)" "tab k' pd (PDX va) = x" by (simp_all add: has tb)
  ultimately show thesis using that vm pt own by blast
qed

text \<open>Setting the entry of a page that has a table.\<close>

lemma set_pte:
  fixes v :: u32
  assumes ok: "vm_ok xs pd k" and h: "has_tab k pd (PDX va)"
  defines "k' \<equiv> wr32 (tab k pd (PDX va) + 4 * PTX va) v k"
  shows "vm_ok xs pd k'" "pte k' pd a = (if page a = page va then v else pte k pd a)"
    "owned xs pd k' = owned xs pd k" "same_outside (owned xs pd k) k k'"
proof -
  note V = vm_okD [OF ok]
  let ?t = "tab k pd (PDX va)"
  have t: "page_ok k ?t" "?t \<notin> set xs" "?t \<noteq> pd" using V(4) [OF _ h] by simp_all
  have en: "km_end k' = km_end k" "km_data k' = km_data k" by (simp_all add: k'_def wr32_def)
  note pok = page_ok_end [OF en(1)]
  have rd: "rd32 k' (y + 4 * j) = (if y = ?t \<and> j = PTX va then v else rd32 k (y + 4 * j))"
    if "page_ok k y" "j < 1024" for y j
    unfolding k'_def rd_wr [OF t(1) index_bound(2) that] by auto
  have mem: "km_mem k' a = km_mem k a" if "\<not> in_page ?t a" for a
    using that entry_unat [OF t(1), of "PTX va"] by (auto simp: k'_def wr32_def in_page_def PGSIZE_def put32_outside)
  have ht: "has_tab k' pd d = has_tab k pd d" "tab k' pd d = tab k pd d" if "d < 1024" for d
    using t(3) by (auto simp: has_tab_def tab_def rd [OF V(2) that])
  have "kmem_ok xs (k\<lparr>km_mem := km_mem k'\<rparr>)"
  proof (rule kmem_ok_mem [OF V(1)])
    fix y a assume y: "y \<in> set xs" "in_page y a"
    have "page_ok k y" using V(6) y(1) by simp
    then have "\<not> in_page ?t a" using pages_disjoint [of k y ?t a] t y by auto
    then show "km_mem k' a = km_mem k a" by (rule mem)
  qed
  moreover have "k\<lparr>km_mem := km_mem k'\<rparr> = k'" by (simp add: k'_def wr32_def)
  ultimately show "vm_ok xs pd k'" unfolding vm_ok_def pok using V(2-5) by (auto simp: ht)
  have "has_tab k pd (PDX a) \<Longrightarrow> tab k pd (PDX a) = ?t \<longleftrightarrow> PDX a = PDX va"
    using V(5) [of "PDX a" "PDX va"] h by auto
  then show "pte k' pd a = (if page a = page va then v else pte k pd a)"
    using V(4) [of "PDX a"] h page_index [of a va] by (auto simp: pte_def ht rd)
  have "{tab k' pd d |d. d < 1024 \<and> has_tab k' pd d} = {tab k pd d |d. d < 1024 \<and> has_tab k pd d}"
    using ht by (auto; metis)
  then show "owned xs pd k' = owned xs pd k" by (simp add: owned_def)
  show "same_outside (owned xs pd k) k k'"
    using mem en h index_bound(1) by (force simp: same_outside_def owned_def)
qed

end
