(* ===== verification/Vm_Map.thy ===== *)
theory Vm_Map
  imports Vm_Ok
begin

text \<open>
  Mapping a range and copying into a user's memory, over the invariant of \<open>Vm_Ok\<close>: \<open>mappages\<close>
  refines the update of the map of entries, and \<open>copyout\<close> writes the bytes that a program sees at
  its virtual addresses.
\<close>

text \<open>\<open>walkpgdir\<close> with allocation, in one lemma: it finds an entry or runs out of pages.\<close>

lemma walk_alloc:
  assumes "vm_ok xs pd k"
  obtains (full) "walkpgdir pd va True k = (0, k)" "xs = []"
  | (entry) ys k' where "walkpgdir pd va True k = (tab k' pd (PDX va) + 4 * PTX va, k')" "vm_ok ys pd k'"
      "has_tab k' pd (PDX va)" "\<And>a. pte k' pd a = pte k pd a" "owned ys pd k' = owned xs pd k"
      "same_outside (owned xs pd k) k k'" "set ys \<subseteq> set xs"
proof (cases "has_tab k pd (PDX va)")
  case True
  then show thesis by (rule_tac entry [OF walk_hit assms True]) simp_all
next
  case new: False
  show thesis
  proof (cases xs)
    case Nil
    then show thesis using full walk_full [of pd k va] assms new by simp
  next
    case (Cons x ys)
    then have v: "vm_ok (x # ys) pd k" using assms by simp
    obtain k' where k': "walkpgdir pd va True k = (x + 4 * PTX va, k')" "vm_ok ys pd k'" "has_tab k' pd (PDX va)"
      "tab k' pd (PDX va) = x" "\<And>a. pte k' pd a = pte k pd a" "owned ys pd k' = owned (x # ys) pd k"
      "same_outside (owned (x # ys) pd k) k k'"
      using walk_new [OF v new] by blast
    show thesis by (rule entry [OF _ k'(2,3,5)]) (use k' Cons in auto)
  qed
qed

lemma present_entry: "(pa OR perm OR PTE_P) AND PTE_P \<noteq> 0"
  by (rule flags_entry(2))

text \<open>The entry that \<open>mappages\<close> stores for the page \<open>p\<close> of a range that starts at page \<open>p0\<close>.\<close>

definition map_entry :: "u32 \<Rightarrow> u32 \<Rightarrow> nat \<Rightarrow> nat \<Rightarrow> u32" where
  "map_entry pa perm p0 p = (pa + of_nat ((p - p0) * PGSIZE)) OR perm OR PTE_P"

definition map_out :: "u32 list \<Rightarrow> u32 \<Rightarrow> u32 \<Rightarrow> u32 \<Rightarrow> nat \<Rightarrow> nat \<Rightarrow> kmem \<Rightarrow> int \<Rightarrow> kmem \<Rightarrow> bool" where
  "map_out xs pd pa perm p0 p1 k r k' \<longleftrightarrow>
     (\<exists>ys. vm_ok ys pd k' \<and> owned ys pd k' = owned xs pd k \<and> same_outside (owned xs pd k) k k' \<and> set ys \<subseteq> set xs
       \<and> (if r = 0 then \<forall>a. pte k' pd a = (if p0 \<le> page a \<and> page a \<le> p1 then map_entry pa perm p0 (page a) else pte k pd a)
          else r = -1 \<and> ys = [] \<and> (\<exists>p\<le>p1. \<forall>a. pte k' pd a
              = (if p0 \<le> page a \<and> page a < p then map_entry pa perm p0 (page a) else pte k pd a))))"

lemma page_step:
  assumes "unat a mod PGSIZE = 0" and "page a < page e"
  shows "unat (a + of_nat PGSIZE) = unat a + PGSIZE" "page (a + of_nat PGSIZE) = Suc (page a)"
proof -
  have "Suc (page a) * PGSIZE \<le> page e * PGSIZE" using assms(2) by (intro mult_le_mono1) simp
  moreover have "page e * PGSIZE \<le> unat e" by (simp add: page_def)
  moreover have "unat a = page a * PGSIZE" using assms(1) by (metis page_def div_mult_mod_eq add.right_neutral)
  ultimately have "unat a + PGSIZE < 2 ^ 32" using unat_less_32 [of e] by simp
  then show "unat (a + of_nat PGSIZE) = unat a + PGSIZE" by (rule unat_add_nat_32)
  then show "page (a + of_nat PGSIZE) = Suc (page a)" by (simp add: page_def PGSIZE_def)
qed

lemma page_eq: "unat a mod PGSIZE = 0 \<Longrightarrow> unat e mod PGSIZE = 0 \<Longrightarrow> a = e \<longleftrightarrow> page a = page e"
  by (metis page_def div_mult_mod_eq add.right_neutral unsigned_word_eqI)

lemma map_entry_step: "Suc p0 \<le> p \<Longrightarrow> map_entry (pa + of_nat PGSIZE) perm (Suc p0) p = map_entry pa perm p0 p"
proof -
  assume "Suc p0 \<le> p"
  then have "(p - p0) * PGSIZE = PGSIZE + (p - Suc p0) * PGSIZE" by (simp add: PGSIZE_def)
  then show ?thesis by (simp add: map_entry_def add.assoc)
qed

lemma map_loop_spec:
  assumes "vm_ok xs pd k" and "unat a mod PGSIZE = 0" "unat e mod PGSIZE = 0" and "page a + n = page e"
    and "\<And>b. page a \<le> page b \<Longrightarrow> page b \<le> page e \<Longrightarrow> pte k pd b AND PTE_P = 0"
  shows "\<exists>r k'. map_loop (Suc n) pd a e pa perm k = Inr (r, k') \<and> map_out xs pd pa perm (page a) (page e) k r k'"
  using assms
proof (induction n arbitrary: xs a pa k)
  case 0
  then have ae: "a = e" by (simp add: page_eq)
  from 0(1) show ?case
  proof (cases rule: walk_alloc [where va = a])
    case full
    then show ?thesis using 0 by (auto simp: map_out_def intro!: exI [of _ "page a"])
  next
    case (entry ys k')
    note t = vm_okD(4) [OF entry(2) index_bound(1) entry(3), THEN conjunct1]
    have nz: "tab k' pd (PDX a) + 4 * PTX a \<noteq> 0" by (rule entry_nonzero [OF t]) simp
    have "rd32 k' (tab k' pd (PDX a) + 4 * PTX a) = pte k pd a" 
      unfolding entry(4) [symmetric] using entry(3) by (simp add: pte_def)
    then have np: "rd32 k' (tab k' pd (PDX a) + 4 * PTX a) AND PTE_P = 0" using 0(4,5) by simp
    let ?k = "wr32 (tab k' pd (PDX a) + 4 * PTX a) (pa OR perm OR PTE_P) k'"
    note S = set_pte [OF entry(2,3), of "pa OR perm OR PTE_P"]
    have "map_loop (Suc 0) pd a e pa perm k = Inr (0, ?k)"
      using entry(1) nz np ae by (simp add: Let_def)
    moreover have "map_out xs pd pa perm (page a) (page e) k 0 ?k"
      using S entry(4-7) 0(4) same_outside_trans [OF entry(6)] S(4)
      by (auto simp: map_out_def map_entry_def intro!: exI [of _ ys])
    ultimately show ?thesis by blast
  qed
next
  case (Suc n)
  then have lt: "page a < page e" and ae: "a \<noteq> e" by auto
  note st = page_step [OF Suc.prems(2) lt]
  from Suc.prems(1) show ?case
  proof (cases rule: walk_alloc [where va = a])
    case full
    then show ?thesis using Suc.prems by (auto simp: map_out_def intro!: exI [of _ "page a"])
  next
    case (entry ys k')
    note t = vm_okD(4) [OF entry(2) index_bound(1) entry(3), THEN conjunct1]
    have nz: "tab k' pd (PDX a) + 4 * PTX a \<noteq> 0" by (rule entry_nonzero [OF t]) simp
    have "rd32 k' (tab k' pd (PDX a) + 4 * PTX a) = pte k pd a" 
      unfolding entry(4) [symmetric] using entry(3) by (simp add: pte_def)
    then have np: "rd32 k' (tab k' pd (PDX a) + 4 * PTX a) AND PTE_P = 0" using Suc.prems(4,5) by simp
    let ?k = "wr32 (tab k' pd (PDX a) + 4 * PTX a) (pa OR perm OR PTE_P) k'"
    note S = set_pte [OF entry(2,3), of "pa OR perm OR PTE_P"]
    have step: "map_loop (Suc (Suc n)) pd a e pa perm k
        = map_loop (Suc n) pd (a + of_nat PGSIZE) e (pa + of_nat PGSIZE) perm ?k"
      using entry(1) nz np ae by (subst map_loop.simps) (simp add: Let_def)
    have o: "owned ys pd ?k = owned xs pd k" using S(3) entry(5) by simp
    have so: "same_outside (owned xs pd k) k ?k" using same_outside_trans [OF entry(6)] S(4) entry(5) by simp
    have "unat (a + of_nat PGSIZE) mod PGSIZE = 0" using st(1) Suc.prems(2) by simp
    then obtain r k2 where r: "map_loop (Suc n) pd (a + of_nat PGSIZE) e (pa + of_nat PGSIZE) perm ?k = Inr (r, k2)"
        "map_out ys pd (pa + of_nat PGSIZE) perm (Suc (page a)) (page e) ?k r k2"
      using Suc.IH [OF S(1), of "a + of_nat PGSIZE" "pa + of_nat PGSIZE"] st Suc.prems S(2) entry(4) by auto
    have me: "map_entry pa perm (page a) (page a) = pa OR perm OR PTE_P" by (simp add: map_entry_def)
    have glue: "(if Suc (page a) \<le> page b \<and> Q then map_entry (pa + of_nat PGSIZE) perm (Suc (page a)) (page b) else pte ?k pd b)
        = (if page a \<le> page b \<and> (page b = page a \<or> Q) then map_entry pa perm (page a) (page b) else pte k pd b)" for b Q
      using map_entry_step [of "page a" "page b" pa perm] S(2) [of b] entry(4) [of b] me
      by (cases "page b = page a") auto
    have "map_out xs pd pa perm (page a) (page e) k r k2"
    proof -
      from r(2) obtain zs where z: "vm_ok zs pd k2" "owned zs pd k2 = owned ys pd ?k" "same_outside (owned ys pd ?k) ?k k2"
          "set zs \<subseteq> set ys" and c: "if r = 0
            then \<forall>b. pte k2 pd b = (if page a \<le> page b \<and> (page b = page a \<or> page b \<le> page e)
              then map_entry pa perm (page a) (page b) else pte k pd b)
            else r = -1 \<and> zs = [] \<and> (\<exists>p\<le>page e. \<forall>b. pte k2 pd b
              = (if page a \<le> page b \<and> (page b = page a \<or> page b < p) then map_entry pa perm (page a) (page b) else pte k pd b))"
        unfolding map_out_def glue by blast
      have c2: "if r = 0 then \<forall>b. pte k2 pd b = (if page a \<le> page b \<and> page b \<le> page e
              then map_entry pa perm (page a) (page b) else pte k pd b)
          else r = -1 \<and> zs = [] \<and> (\<exists>p\<le>page e. \<forall>b. pte k2 pd b
              = (if page a \<le> page b \<and> page b < p then map_entry pa perm (page a) (page b) else pte k pd b))"
      proof (cases "r = 0")
        case True
        then show ?thesis using c lt by (auto simp: less_imp_le)
      next
        case False
        then obtain p where p: "p \<le> page e" "\<forall>b. pte k2 pd b
              = (if page a \<le> page b \<and> (page b = page a \<or> page b < p) then map_entry pa perm (page a) (page b) else pte k pd b)"
          using c by auto
        have "(page a \<le> q \<and> (q = page a \<or> q < p)) = (page a \<le> q \<and> q < max p (Suc (page a)))" for q by auto
        then show ?thesis using False c p lt by (auto intro!: exI [of _ "max p (Suc (page a))"])
      qed
      show ?thesis
        unfolding map_out_def
        using z c2 o same_outside_trans [OF so] entry(7) by (intro exI [of _ zs]) auto
    qed
    then show ?thesis using step r(1) by auto
  qed
qed

lemma mappages_spec:
  assumes ok: "vm_ok xs pd k" and sz: "0 < sz" "unat va + unat sz \<le> 2 ^ 32"
    and free: "\<And>b. page va \<le> page b \<Longrightarrow> page b \<le> page (va + sz - 1) \<Longrightarrow> pte k pd b AND PTE_P = 0"
  shows "\<exists>r k'. mappages pd va sz pa perm k = Inr (r, k') \<and> map_out xs pd pa perm (page va) (page (va + sz - 1)) k r k'"
proof -
  let ?a = "PGROUNDDOWN va" and ?e = "PGROUNDDOWN (va + sz - 1)"
  have "unat (sz - 1) = unat sz - 1" using sz(1) by (simp add: unat_minus_one word_neq_0_conv)
  then have "unat (va + (sz - 1)) = unat va + (unat sz - 1)"
    using sz by (subst unat_add_32) (auto simp: word_less_nat_alt)
  then have u: "unat va \<le> unat (va + sz - 1)" by (simp add: add_diff_eq)
  then have le: "page va \<le> page (va + sz - 1)" by (simp add: page_def div_le_mono)
  have al: "unat ?a mod PGSIZE = 0" "unat ?e mod PGSIZE = 0" "page ?a = page va" "page ?e = page (va + sz - 1)"
    by (simp_all add: PGROUNDDOWN_unat) (simp_all add: page_def PGROUNDDOWN_unat PGSIZE_def)
  have "unat ?a \<le> unat ?e" using le by (simp add: PGROUNDDOWN_unat)
  then have "unat (?e - ?a) = (page (va + sz - 1) - page va) * PGSIZE"
    by (simp add: unat_sub word_le_nat_alt PGROUNDDOWN_unat diff_mult_distrib)
  then have fuel: "unat (?e - ?a) div PGSIZE = page (va + sz - 1) - page va" by (simp add: PGSIZE_def)
  show ?thesis
    using map_loop_spec [OF ok al(1,2), of "page (va + sz - 1) - page va" pa perm] free le
    unfolding mappages_def Let_def fuel al(3,4) by (simp del: map_loop.simps)
qed


subsection \<open>The memory of a program\<close>

definition frame :: "kmem \<Rightarrow> u32 \<Rightarrow> u32 \<Rightarrow> u32" where
  "frame k pd va = P2V (PTE_ADDR (pte k pd va))"

definition ubyte :: "kmem \<Rightarrow> u32 \<Rightarrow> u32 \<Rightarrow> u8" where
  "ubyte k pd va = km_mem k (unat (frame k pd va) + unat va mod PGSIZE)"

text \<open>The pages \<open>U\<close> are mapped for the program, to frames of their own.\<close>

definition user_ok :: "u32 list \<Rightarrow> u32 \<Rightarrow> (nat \<Rightarrow> bool) \<Rightarrow> kmem \<Rightarrow> bool" where
  "user_ok xs pd U k \<longleftrightarrow>
     (\<forall>a. U (page a) \<longrightarrow> pte k pd a AND PTE_P \<noteq> 0 \<and> pte k pd a AND PTE_U \<noteq> 0
        \<and> page_ok k (frame k pd a) \<and> frame k pd a \<notin> owned xs pd k)
     \<and> (\<forall>a b. U (page a) \<longrightarrow> U (page b) \<longrightarrow> frame k pd a = frame k pd b \<longrightarrow> page a = page b)"

lemma user_okD:
  assumes "user_ok xs pd U k" and "U (page a)"
  shows "pte k pd a AND PTE_P \<noteq> 0" "pte k pd a AND PTE_U \<noteq> 0" "page_ok k (frame k pd a)"
    "frame k pd a \<notin> owned xs pd k" "U (page b) \<Longrightarrow> frame k pd a = frame k pd b \<Longrightarrow> page a = page b"
  using assms by (auto simp: user_ok_def)

lemma pte_page: "page a = page b \<Longrightarrow> pte k pd a = pte k pd b"
  using page_index [of a b] by (simp add: pte_def)

text \<open>Memory outside the tables and the free pages does not matter to the map.\<close>

lemma vm_ok_mem:
  assumes ok: "vm_ok xs pd k" and m: "\<And>v a. v \<in> owned xs pd k \<Longrightarrow> in_page v a \<Longrightarrow> m a = km_mem k a"
  defines "k' \<equiv> k\<lparr>km_mem := m\<rparr>"
  shows "vm_ok xs pd k'" "pte k' pd a = pte k pd a" "owned xs pd k' = owned xs pd k"
proof -
  note V = vm_okD [OF ok]
  have rd: "rd32 k' (v + 4 * j) = rd32 k (v + 4 * j)" if "page_ok k v" "j < 1024" "v \<in> owned xs pd k" for v j
    using entry_unat [OF that(1,2)] m [OF that(3)]
    by (auto simp: rd32_def k'_def in_page_def PGSIZE_def intro!: get32_cong)
  have pd: "pd \<in> owned xs pd k" by (simp add: owned_def)
  have ht: "has_tab k' pd d = has_tab k pd d" "tab k' pd d = tab k pd d" if "d < 1024" for d
    by (simp_all add: has_tab_def tab_def rd [OF V(2) that pd])
  show "pte k' pd a = pte k pd a"
  proof (cases "has_tab k pd (PDX a)")
    case True
    then have "tab k pd (PDX a) \<in> owned xs pd k" using index_bound(1) [of a] by (auto simp: owned_def)
    then show ?thesis using V(4) [OF _ True] True by (simp add: pte_def ht rd)
  qed (simp add: pte_def ht)
  have "kmem_ok xs k'" unfolding k'_def by (rule kmem_ok_mem [OF V(1)]) (use m in \<open>auto simp: owned_def\<close>)
  then show "vm_ok xs pd k'"
    using V(2-5) by (auto simp: vm_ok_def ht) (simp_all add: k'_def page_ok_def)
  show "owned xs pd k' = owned xs pd k" unfolding owned_def using ht by (auto; metis)
qed

definition uwrote :: "u32 list \<Rightarrow> u32 \<Rightarrow> (nat \<Rightarrow> bool) \<Rightarrow> kmem \<Rightarrow> mem \<Rightarrow> nat \<Rightarrow> nat \<Rightarrow> nat \<Rightarrow> kmem \<Rightarrow> bool" where
  "uwrote xs pd U k p i va len k' \<longleftrightarrow> vm_ok xs pd k' \<and> user_ok xs pd U k' \<and> (\<forall>a. pte k' pd a = pte k pd a)
     \<and> (\<forall>a. U (page a) \<longrightarrow> ubyte k' pd a
        = (if va \<le> unat a \<and> unat a < va + len then p (i + (unat a - va)) else ubyte k pd a))"

lemma same_page_range:
  assumes "off mod PGSIZE + n \<le> PGSIZE"
  shows "off \<le> a \<and> a < off + n \<longleftrightarrow>
      a div PGSIZE = off div PGSIZE \<and> off mod PGSIZE \<le> a mod PGSIZE \<and> a mod PGSIZE < off mod PGSIZE + n"
    and "a div PGSIZE = off div PGSIZE \<Longrightarrow> a mod PGSIZE - off mod PGSIZE = a - off"
proof -
  have e: "off = off div PGSIZE * PGSIZE + off mod PGSIZE" "a = a div PGSIZE * PGSIZE + a mod PGSIZE" by simp_all
  have "a div PGSIZE = off div PGSIZE" if "off \<le> a" "a < off + n"
  proof -
    have "a < (off div PGSIZE + 1) * PGSIZE" using that(2) assms e(1) by (simp only: distrib_right mult_1_left)
    then have "a div PGSIZE < off div PGSIZE + 1" by (simp add: less_mult_imp_div_less)
    then show ?thesis using div_le_mono [OF that(1), of PGSIZE] by simp
  qed
  moreover have eq: "a = off div PGSIZE * PGSIZE + a mod PGSIZE" if "a div PGSIZE = off div PGSIZE"
    using e(2) that by simp
  ultimately show "off \<le> a \<and> a < off + n \<longleftrightarrow>
      a div PGSIZE = off div PGSIZE \<and> off mod PGSIZE \<le> a mod PGSIZE \<and> a mod PGSIZE < off mod PGSIZE + n"
    using e(1) by (smt (verit, ccfv_threshold) add.assoc nat_add_left_cancel_le nat_add_left_cancel_less)
  show "a div PGSIZE = off div PGSIZE \<Longrightarrow> a mod PGSIZE - off mod PGSIZE = a - off"
    using eq e(1) by (metis diff_cancel2 add.commute)
qed

text \<open>Storing bytes into the frame of one page.\<close>

lemma frame_store:
  assumes ok: "vm_ok xs pd k" and u: "user_ok xs pd U k" and va: "U (page va)"
    and n: "unat va mod PGSIZE + n \<le> PGSIZE"
  shows "uwrote xs pd U k p i (unat va) n
    (k\<lparr>km_mem := mcopy p i (unat (frame k pd va) + unat va mod PGSIZE) n (km_mem k)\<rparr>)"
proof -
  let ?f = "frame k pd va" and ?o = "unat va mod PGSIZE"
  let ?m = "mcopy p i (unat ?f + ?o) n (km_mem k)"
  let ?k = "k\<lparr>km_mem := ?m\<rparr>"
  note F = user_okD [OF u va]
  have out: "?m x = km_mem k x" if "\<not> in_page ?f x" for x
    using that n by (auto simp: mcopy_def in_page_def)
  have own: "?m x = km_mem k x" if "v \<in> owned xs pd k" "in_page v x" for v x
  proof -
    have "page_ok k v" using that(1) vm_okD(2,4,6) [OF ok] by (auto simp: owned_def)
    then show ?thesis using pages_disjoint [OF _ F(3) that(2)] F(4) that(1) out by metis
  qed
  have K: "vm_ok xs pd ?k" "pte ?k pd a = pte k pd a" "owned xs pd ?k = owned xs pd k" for a
    by (rule vm_ok_mem [OF ok, where m = ?m, OF own]; assumption)+
  have fr: "frame ?k pd a = frame k pd a" for a unfolding frame_def [of ?k pd a] frame_def [of k pd a] K(2) ..
  have ub: "ubyte ?k pd a = ?m (unat (frame k pd a) + unat a mod PGSIZE)" for a
    unfolding ubyte_def [of ?k] fr by simp
  have "ubyte ?k pd a = (if unat va \<le> unat a \<and> unat a < unat va + n then p (i + (unat a - unat va)) else ubyte k pd a)"
    if "U (page a)" for a
  proof (cases "page a = page va")
    case True
    have "frame k pd a = ?f" unfolding frame_def pte_page [OF True] ..
    moreover have "unat a div PGSIZE = unat va div PGSIZE" using True by (simp add: page_def)
    ultimately show ?thesis
      unfolding same_page_range(1) [OF n] ub using same_page_range(2) [OF n, of "unat a"]
      by (auto simp: ubyte_def mcopy_def)
  next
    case False
    then have ne: "frame k pd a \<noteq> ?f" using user_okD(5) [OF u that va] by auto
    have "in_page (frame k pd a) (unat (frame k pd a) + unat a mod PGSIZE)" by (simp add: in_page_def PGSIZE_def)
    then have "\<not> in_page ?f (unat (frame k pd a) + unat a mod PGSIZE)"
      using pages_disjoint [OF user_okD(3) [OF u that] F(3)] ne by blast
    moreover have "\<not> (unat va \<le> unat a \<and> unat a < unat va + n)"
      unfolding same_page_range(1) [OF n] using False by (simp add: page_def)
    ultimately show ?thesis unfolding ub ubyte_def [of k] using out by auto
  qed
  moreover have "user_ok xs pd U ?k"
    using u unfolding user_ok_def fr K(2,3) by (simp add: page_ok_def)
  ultimately show ?thesis using K(1,2) by (simp add: uwrote_def)
qed

lemma uva2ka_user:
  assumes "vm_ok xs pd k" "user_ok xs pd U k" "U (page va)"
  shows "uva2ka pd (PGROUNDDOWN va) k = Inr (frame k pd va)"
proof -
  have p: "page (PGROUNDDOWN va) = page va" by (simp add: page_def PGROUNDDOWN_unat PGSIZE_def)
  note F = user_okD [OF assms(2,3)] and e = pte_page [OF p, of k pd]
  have h: "has_tab k pd (PDX (PGROUNDDOWN va))" using F(1) e by (auto simp: pte_def split: if_splits)
  then have r: "rd32 k (tab k pd (PDX (PGROUNDDOWN va)) + 4 * PTX (PGROUNDDOWN va)) = pte k pd va"
    using e by (simp add: pte_def)
  have "tab k pd (PDX (PGROUNDDOWN va)) + 4 * PTX (PGROUNDDOWN va) \<noteq> 0"
    by (rule entry_nonzero [OF vm_okD(4) [OF assms(1) index_bound(1) h, THEN conjunct1]]) simp
  then show ?thesis using F(1,2) h by (simp add: uva2ka_def walk_hit r frame_def Let_def)
qed

lemma copyout_spec:
  assumes "vm_ok xs pd k" "user_ok xs pd U k"
    and "\<And>q. page va \<le> q \<Longrightarrow> q * PGSIZE < unat va + len \<Longrightarrow> U q" and "unat va + len \<le> 0x80000000"
  shows "\<exists>k'. copyout pd va p i len k = Inr (0, k') \<and> uwrote xs pd U k p i (unat va) len k'"
  using assms
proof (induction len arbitrary: va i k rule: less_induct)
  case (less len)
  show ?case
  proof (cases "len = 0")
    case True
    then show ?thesis using less.prems by (auto simp: copyout.simps uwrote_def)
  next
    case False
    let ?o = "unat va mod PGSIZE" and ?va0 = "PGROUNDDOWN va"
    define n where "n = min len (PGSIZE - ?o)"
    have o: "?o < PGSIZE" by (simp add: PGSIZE_def)
    have n: "0 < n" "n \<le> len" "?o + n \<le> PGSIZE" using False o by (auto simp: n_def)
    have e: "unat va = page va * PGSIZE + ?o" by (simp add: page_def)
    have va: "U (page va)" using less.prems(3) [of "page va"] False e by simp
    have "unat (va - ?va0) = unat va - unat ?va0" using e by (intro unat_sub) (simp add: word_le_nat_alt PGROUNDDOWN_unat)
    then have d: "unat (va - ?va0) = ?o" using e by (simp add: PGROUNDDOWN_unat)
    let ?f = "frame k pd va"
    note F = page_okD [OF user_okD(3) [OF less.prems(2) va]]
    have a: "unat (?f + (va - ?va0)) = unat ?f + ?o"
      using F(2) o d by (subst unat_add_32) (simp_all add: PGSIZE_def)
    have nz: "?f \<noteq> 0" using F(3) by auto
    let ?k = "k\<lparr>km_mem := mcopy p i (unat ?f + ?o) n (km_mem k)\<rparr>"
    have w: "uwrote xs pd U k p i (unat va) n ?k" by (rule frame_store [OF less.prems(1,2) va n(3)])
    have ko: "vm_ok xs pd ?k" "user_ok xs pd U ?k" using w by (simp_all add: uwrote_def)
    have "?o mod PGSIZE = ?o" by simp
    then have step: "copyout pd va p i len k = copyout pd (?va0 + of_nat PGSIZE) p (i + n) (len - n) ?k"
      using False uva2ka_user [OF less.prems(1,2) va] nz a d by (subst copyout.simps) (simp add: Let_def n_def)
    show ?thesis
    proof (cases "n = len")
      case True
      then show ?thesis using step w by (simp add: copyout.simps)
    next
      case more: False
      then have nn: "n = PGSIZE - ?o" "n < len" using n(2) by (auto simp: n_def)
      have "unat ?va0 + PGSIZE < 2 ^ 32" using nn e less.prems(4) o by (simp add: PGROUNDDOWN_unat)
      then have u: "unat (?va0 + of_nat PGSIZE) = unat va + n"
        using nn(1) e o by (subst unat_add_nat_32) (simp_all add: PGROUNDDOWN_unat)
      have "unat va + n = Suc (page va) * PGSIZE" using nn(1) e o by simp
      then have pg: "page (?va0 + of_nat PGSIZE) = Suc (page va)"
        unfolding page_def u by (simp add: PGSIZE_def)
      obtain k' where k': "copyout pd (?va0 + of_nat PGSIZE) p (i + n) (len - n) ?k = Inr (0, k')"
          "uwrote xs pd U ?k p (i + n) (unat va + n) (len - n) k'"
        using less.IH [of "len - n" ?k "?va0 + of_nat PGSIZE" "i + n"] ko less.prems(3,4) n(1) nn(2) u pg by auto
      have "uwrote xs pd U k p i (unat va) len k'"
        using w k'(2) n nn by (auto simp: uwrote_def)
      then show ?thesis using step k'(1) by simp
    qed
  qed
qed

text \<open>Without a page table for the address, \<open>uva2ka\<close> follows a null pointer.\<close>

lemma copyout_no_table:
  "\<not> has_tab k pd (PDX (PGROUNDDOWN va)) \<Longrightarrow> 0 < len \<Longrightarrow> copyout pd va p i len k = Inl (Fault ''uva2ka: pte'')"
  by (subst copyout.simps) (simp add: uva2ka_def walk_miss Let_def)

end
