(* ===== verification/Vm_Alloc.thy ===== *)
theory Vm_Alloc
  imports Vm_Map
begin

text \<open>
  Growing and shrinking the memory of a program. \<open>space_ok\<close> says that every page mapped below the
  kernel has a frame of its own; \<open>deallocuvm\<close> gives the frames of a range back to the allocator,
  and \<open>allocuvm\<close> maps fresh pages of zeros or, when the memory runs out, nothing.
\<close>

definition present :: "kmem \<Rightarrow> u32 \<Rightarrow> u32 \<Rightarrow> bool" where
  "present k pd a \<longleftrightarrow> pte k pd a AND PTE_P \<noteq> 0"

definition space_ok :: "u32 list \<Rightarrow> u32 \<Rightarrow> kmem \<Rightarrow> bool" where
  "space_ok xs pd k \<longleftrightarrow> vm_ok xs pd k \<and> KERNBASE < km_end k
     \<and> (\<forall>a. a < KERNBASE \<longrightarrow> present k pd a \<longrightarrow> page_ok k (frame k pd a) \<and> frame k pd a \<notin> owned xs pd k)
     \<and> (\<forall>a b. a < KERNBASE \<longrightarrow> b < KERNBASE \<longrightarrow> present k pd a \<longrightarrow> present k pd b \<longrightarrow>
          frame k pd a = frame k pd b \<longrightarrow> page a = page b)"

lemma space_okD:
  assumes "space_ok xs pd k"
  shows "vm_ok xs pd k" "a < KERNBASE \<Longrightarrow> present k pd a \<Longrightarrow> page_ok k (frame k pd a)"
    "a < KERNBASE \<Longrightarrow> present k pd a \<Longrightarrow> frame k pd a \<notin> owned xs pd k"
    "a < KERNBASE \<Longrightarrow> b < KERNBASE \<Longrightarrow> present k pd a \<Longrightarrow> present k pd b \<Longrightarrow>
       frame k pd a = frame k pd b \<Longrightarrow> page a = page b"
    "KERNBASE < km_end k"
  using assms unfolding space_ok_def by blast+

lemma space_user:
  assumes "space_ok xs pd k" and "\<And>a. U (page a) \<Longrightarrow> a < KERNBASE \<and> present k pd a \<and> pte k pd a AND PTE_U \<noteq> 0"
  shows "user_ok xs pd U k"
  unfolding user_ok_def
proof (intro conjI allI impI)
  fix a b assume a: "U (page a)"
  note A = assms(2) [OF a]
  show "pte k pd a AND PTE_P \<noteq> 0" "pte k pd a AND PTE_U \<noteq> 0" using A by (simp_all add: present_def)
  show "page_ok k (frame k pd a)" "frame k pd a \<notin> owned xs pd k" using A space_okD(2,3) [OF assms(1)] by blast+
  show "page a = page b" if "U (page b)" "frame k pd a = frame k pd b"
    using A assms(2) [OF that(1)] space_okD(4) [OF assms(1)] that(2) by blast
qed

lemma same_page_below: "page a = page b \<Longrightarrow> a < KERNBASE \<longleftrightarrow> b < KERNBASE"
proof -
  have "a < KERNBASE \<longleftrightarrow> page a < 2 ^ 19" for a
    by (simp add: KERNBASE_def page_def PGSIZE_def word_less_nat_alt) linarith
  then show "page a = page b \<Longrightarrow> ?thesis" by simp
qed

subsection \<open>Freeing one page\<close>

lemma kfree_vm:
  assumes ok: "vm_ok xs pd k" and v: "page_ok k v" "v \<notin> owned xs pd k"
  obtains k' where "kfree v k = Inr k'" "vm_ok (v # xs) pd k'" "\<And>a. pte k' pd a = pte k pd a"
    "\<And>a. has_tab k' pd (PDX a) = has_tab k pd (PDX a)" "\<And>a. tab k' pd (PDX a) = tab k pd (PDX a)"
    "owned (v # xs) pd k' = insert v (owned xs pd k)" "same_outside {v} k k'"
proof -
  have vx: "v \<notin> set xs" using v(2) by (simp add: owned_def)
  obtain k' where k': "kfree v k = Inr k'" "kmem_ok (v # xs) k'" "km_end k' = km_end k" "km_data k' = km_data k"
      "\<forall>a. \<not> in_page v a \<longrightarrow> km_mem k' a = km_mem k a"
    using kfree_spec [OF vm_okD(1) [OF ok] v(1) vx] by blast
  have own: "km_mem k' x = km_mem k x" if "w \<in> owned xs pd k" "in_page w x" for w x
  proof -
    have "page_ok k w" using that(1) vm_okD(2,4,6) [OF ok] by (auto simp: owned_def)
    then show ?thesis using pages_disjoint [OF _ v(1) that(2)] v(2) that(1) k'(5) by metis
  qed
  have rd: "rd32 k' (w + 4 * j) = rd32 k (w + 4 * j)" if "page_ok k w" "j < 1024" "w \<in> owned xs pd k" for w j
    using entry_unat [OF that(1,2)] own [OF that(3)]
    by (auto simp: rd32_def in_page_def PGSIZE_def intro!: get32_cong)
  have "pd \<in> owned xs pd k" by (simp add: owned_def)
  then have hk: "has_tab k' pd d = has_tab k pd d" "tab k' pd d = tab k pd d" if "d < 1024" for d
    using rd [OF vm_okD(2) [OF ok] that] by (simp_all add: has_tab_def tab_def)
  have pt: "pte k' pd a = pte k pd a" for a
  proof (cases "has_tab k pd (PDX a)")
    case True
    then have "tab k pd (PDX a) \<in> owned xs pd k" using index_bound(1) [of a] by (auto simp: owned_def)
    then show ?thesis using vm_okD(4) [OF ok _ True] True rd by (simp add: pte_def hk)
  qed (simp add: pte_def hk)
  have po: "page_ok k' x = page_ok k x" for x using k'(3) by (rule page_ok_end)
  have "vm_ok (v # xs) pd k'"
    unfolding vm_ok_def po using k'(2) vm_okD(2-5) [OF ok] v hk by (auto simp: owned_def)
  moreover have "owned (v # xs) pd k' = insert v (owned xs pd k)"
    using hk by (auto simp: owned_def; metis)
  ultimately show thesis
    using that k'(1,3-5) pt hk index_bound(1) by (simp add: same_outside_def)
qed

lemma frame_cong: "pte k' pd a = pte k pd a \<Longrightarrow> frame k' pd a = frame k pd a"
  "pte k' pd a = pte k pd a \<Longrightarrow> present k' pd a = present k pd a"
  by (simp_all add: frame_def present_def)

lemma free_one:
  assumes ok: "space_ok xs pd k" and a: "a < KERNBASE" and p: "present k pd a" 
  obtains k' where "dealloc_page pd a k = Inr (a, k')" "space_ok (frame k pd a # xs) pd k'"
    "\<And>b. pte k' pd b = (if page b = page a then 0 else pte k pd b)"
    "owned (frame k pd a # xs) pd k' = insert (frame k pd a) (owned xs pd k)"
    "same_outside (insert (frame k pd a) (owned xs pd k)) k k'"
proof -
  let ?f = "frame k pd a"
  note S = space_okD [OF ok] and V = vm_okD [OF space_okD(1) [OF ok]]
  have f: "page_ok k ?f" "?f \<notin> owned xs pd k" using S(2,3) [OF a p] .
  have h: "has_tab k pd (PDX a)" using p by (auto simp: present_def pte_def split: if_splits)
  let ?e = "tab k pd (PDX a) + 4 * PTX a"
  have ent: "?e \<noteq> 0" by (rule entry_nonzero [OF V(4) [OF index_bound(1) h, THEN conjunct1]]) simp
  have rd: "rd32 k ?e = pte k pd a" using h by (simp add: pte_def)
  obtain k1 where k1: "kfree ?f k = Inr k1" "vm_ok (?f # xs) pd k1" "\<And>a. pte k1 pd a = pte k pd a"
    "\<And>a. has_tab k1 pd (PDX a) = has_tab k pd (PDX a)" "\<And>a. tab k1 pd (PDX a) = tab k pd (PDX a)"
    "owned (?f # xs) pd k1 = insert ?f (owned xs pd k)" "same_outside {?f} k k1"
    using kfree_vm [OF S(1) f] by blast
  have h1: "has_tab k1 pd (PDX a)" using h k1(4) by simp
  let ?k = "wr32 ?e 0 k1"
  have te: "tab k1 pd (PDX a) + 4 * PTX a = ?e" using k1(5) by simp
  note W = set_pte [OF k1(2) h1, of 0, unfolded te]
  have "?f \<noteq> KERNBASE" using f(1) S(5) by (auto simp: page_ok_def)
  then have pa: "PTE_ADDR (pte k pd a) \<noteq> 0" by (auto simp: frame_def P2V_def)
  have run: "dealloc_page pd a k = Inr (a, ?k)"
    using ent p pa k1(1) by (simp add: dealloc_page_def walk_hit [OF h] rd present_def frame_def)
  have pt: "pte ?k pd b = (if page b = page a then 0 else pte k pd b)" for b using W(2) k1(3) by simp
  have en: "km_end ?k = km_end k" using W(4) k1(7) by (simp add: same_outside_def)
  have pr: "present ?k pd b \<longleftrightarrow> page b \<noteq> page a \<and> present k pd b" for b by (simp add: present_def pt)
  have fr: "page b \<noteq> page a \<Longrightarrow> frame ?k pd b = frame k pd b" for b by (simp add: frame_def pt)
  have own: "owned (?f # xs) pd ?k = insert ?f (owned xs pd k)" using W(3) k1(6) by simp
  have "space_ok (?f # xs) pd ?k"
    unfolding space_ok_def own page_ok_end [OF en] en
  proof (intro conjI allI impI)
    fix b c assume b: "b < KERNBASE" "present ?k pd b"
    then have b': "page b \<noteq> page a" "present k pd b" by (simp_all add: pr)
    show "page_ok k (frame ?k pd b)" unfolding fr [OF b'(1)] by (rule S(2) [OF b(1) b'(2)])
    show "frame ?k pd b \<notin> insert ?f (owned xs pd k)"
      unfolding fr [OF b'(1)] using S(3) [OF b(1) b'(2)] S(4) [OF b(1) a b'(2) p] b'(1) by blast
    assume c: "c < KERNBASE" "present ?k pd c" "frame ?k pd b = frame ?k pd c"
    then have c': "page c \<noteq> page a" "present k pd c" by (simp_all add: pr)
    show "page b = page c"
      using S(4) [OF b(1) c(1) b'(2) c'(2)] c(3) unfolding fr [OF b'(1)] fr [OF c'(1)] .
  qed (fact W(1) S(5))+
  moreover have "same_outside (insert ?f (owned xs pd k)) k ?k"
    using W(4) k1(6,7) by (auto simp: same_outside_def)
  ultimately show thesis using that run pt own by blast
qed


subsection \<open>deallocuvm\<close>

definition in_range :: "u32 \<Rightarrow> nat \<Rightarrow> u32 \<Rightarrow> bool" where
  "in_range a hi b \<longleftrightarrow> page a \<le> page b \<and> page b * PGSIZE < hi"

definition freed :: "u32 list \<Rightarrow> u32 \<Rightarrow> u32 \<Rightarrow> nat \<Rightarrow> kmem \<Rightarrow> u32 list \<Rightarrow> kmem \<Rightarrow> bool" where
  "freed xs pd a hi k ys k' \<longleftrightarrow> space_ok ys pd k'
     \<and> (\<forall>b. pte k' pd b = (if in_range a hi b \<and> present k pd b then 0 else pte k pd b))
     \<and> owned ys pd k' = owned xs pd k \<union> {frame k pd b |b. in_range a hi b \<and> present k pd b}
     \<and> same_outside (owned ys pd k') k k'"

lemma next_table:
  assumes "a < KERNBASE"
  shows "unat (PGADDR (PDX a + 1) 0 0 - of_nat PGSIZE + of_nat PGSIZE) = (unat a div 2 ^ 22 + 1) * 2 ^ 22"
proof -
  let ?d = "unat a div 2 ^ 22 + 1"
  have l: "unat a div 2 ^ 22 < 512"
    using assms by (simp add: KERNBASE_def word_less_nat_alt less_mult_imp_div_less)
  have d: "unat (PDX a + 1) = ?d" using l by (subst unat_add_32) (simp_all add: unat_PDX)
  have "unat (push_bit 22 x) = unat x * 2 ^ 22" if "unat x * 2 ^ 22 < 2 ^ 32" for x :: u32
    using that by (simp add: push_bit_eq_mult unat_word_ariths)
  from this [of "PDX a + 1"] have "unat (push_bit 22 (PDX a + 1)) = ?d * 2 ^ 22" using l unfolding d by simp
  moreover have "PGADDR (PDX a + 1) 0 0 = push_bit 22 (PDX a + 1)" by (simp add: PGADDR_def)
  ultimately show ?thesis by simp
qed

lemma present_tab: "present k pd a \<Longrightarrow> has_tab k pd (PDX a)"
  by (auto simp: present_def pte_def split: if_splits)

lemma dealloc_none:
  assumes ok: "space_ok xs pd k" and al: "unat a mod PGSIZE = 0" and a: "a < KERNBASE" and np: "\<not> present k pd a"
  obtains a' where "dealloc_page pd a k = Inr (a', k)" "unat a + PGSIZE \<le> unat (a' + of_nat PGSIZE)"
    "unat (a' + of_nat PGSIZE) mod PGSIZE = 0"
    "\<And>b. page a \<le> page b \<Longrightarrow> page b < page (a' + of_nat PGSIZE) \<Longrightarrow> \<not> present k pd b"
proof (cases "has_tab k pd (PDX a)")
  case True
  note V = vm_okD [OF space_okD(1) [OF ok]]
  have ent: "tab k pd (PDX a) + 4 * PTX a \<noteq> 0"
    by (rule entry_nonzero [OF V(4) [OF index_bound(1) True, THEN conjunct1]]) simp
  have "rd32 k (tab k pd (PDX a) + 4 * PTX a) = pte k pd a" using True by (simp add: pte_def)
  then have run: "dealloc_page pd a k = Inr (a, k)"
    using ent np by (simp add: dealloc_page_def walk_hit [OF True] present_def)
  have u: "unat (a + of_nat PGSIZE) = unat a + PGSIZE"
    using a by (intro unat_add_nat_32) (simp add: KERNBASE_def word_less_nat_alt PGSIZE_def)
  then have pg: "page (a + of_nat PGSIZE) = Suc (page a)" by (simp add: page_def PGSIZE_def)
  have "\<not> present k pd b" if "page a \<le> page b" "page b < page (a + of_nat PGSIZE)" for b
  proof -
    have "page b = page a" using that pg by simp
    then show ?thesis using np unfolding present_def by (simp add: pte_page [of b a])
  qed
  then show thesis using that [OF run] u al by simp
next
  case False
  let ?a = "PGADDR (PDX a + 1) 0 0 - of_nat PGSIZE"
  have run: "dealloc_page pd a k = Inr (?a, k)" by (simp add: dealloc_page_def walk_miss [OF False])
  note n = next_table [OF a]
  have e: "(unat a div 2 ^ 22 + 1) * 2 ^ 22 = (unat a div 2 ^ 22 + 1) * 1024 * PGSIZE" by (simp add: PGSIZE_def)
  have "unat a < (unat a div 2 ^ 22 + 1) * 1024 * PGSIZE"
    unfolding e [symmetric] using dividend_less_div_times [of "2 ^ 22" "unat a"] by (simp add: add.commute)
  then have "unat a div PGSIZE < (unat a div 2 ^ 22 + 1) * 1024" by (rule less_mult_imp_div_less)
  then have "(unat a div PGSIZE + 1) * PGSIZE \<le> (unat a div 2 ^ 22 + 1) * 1024 * PGSIZE" by (intro mult_le_mono1) simp
  moreover have "unat a = unat a div PGSIZE * PGSIZE" using al by (metis div_mult_mod_eq add.right_neutral)
  ultimately have le: "unat a + PGSIZE \<le> unat (?a + of_nat PGSIZE)" unfolding n e by simp
  have al': "unat (?a + of_nat PGSIZE) mod PGSIZE = 0" unfolding n e by (rule mod_mult_self2_is_0)
  have pg: "page (?a + of_nat PGSIZE) = (unat a div 2 ^ 22 + 1) * 1024"
    unfolding page_def n e by (simp add: PGSIZE_def)
  have dd: "x div 2 ^ 22 = x div PGSIZE div 1024" for x :: nat by (simp add: PGSIZE_def div_mult2_eq [symmetric])
  have "\<not> present k pd b" if "page a \<le> page b" "page b < page (?a + of_nat PGSIZE)" for b
  proof
    assume p: "present k pd b"
    have "page b div 1024 < unat a div 2 ^ 22 + 1"
      using that(2) unfolding pg by (rule less_mult_imp_div_less)
    then have "unat b div 2 ^ 22 < unat a div 2 ^ 22 + 1" unfolding page_def dd .
    moreover have "unat a div 2 ^ 22 \<le> unat b div 2 ^ 22"
      using that(1) unfolding dd page_def by (rule div_le_mono)
    ultimately have "PDX b = PDX a" by (simp add: word_unat_eq_iff unat_PDX)
    then show False using present_tab [OF p] False by simp
  qed
  then show thesis using that [OF run le al'] by blast
qed

lemma dealloc_loop_spec:
  assumes "space_ok xs pd k" and "unat a mod PGSIZE = 0" and "oldsz \<le> KERNBASE"
  shows "\<exists>ys k'. dealloc_loop pd a oldsz k = Inr k' \<and> freed xs pd a (unat oldsz) k ys k'"
  using assms(1,2)
proof (induction "unat oldsz - unat a" arbitrary: a k xs rule: less_induct)
  case less
  have al: "unat a = page a * PGSIZE" using less.prems(2) by (metis page_def div_mult_mod_eq add.right_neutral)
  show ?case
  proof (cases "oldsz \<le> a")
    case True
    have "\<not> in_range a (unat oldsz) b" for b
      using True al by (auto simp: in_range_def word_le_nat_alt PGSIZE_def)
    then have "freed xs pd a (unat oldsz) k xs k" using less.prems(1) by (simp add: freed_def)
    then show ?thesis using True by (subst dealloc_loop.simps) auto
  next
    case False
    then have lt: "unat a < unat oldsz" by (simp add: word_le_nat_alt)
    then have a: "a < KERNBASE" using assms(3) by (simp add: word_le_nat_alt word_less_nat_alt)
    have ra: "in_range a (unat oldsz) b" if "page b = page a" for b using al lt that by (simp add: in_range_def)
    show ?thesis
    proof (cases "present k pd a")
      case True
      let ?f = "frame k pd a"
      obtain k1 where k1: "dealloc_page pd a k = Inr (a, k1)" "space_ok (?f # xs) pd k1"
          "\<And>b. pte k1 pd b = (if page b = page a then 0 else pte k pd b)"
          "owned (?f # xs) pd k1 = insert ?f (owned xs pd k)" "same_outside (insert ?f (owned xs pd k)) k k1"
        using free_one [OF less.prems(1) a True] by blast
      have u: "unat (a + of_nat PGSIZE) = unat a + PGSIZE"
        using a by (intro unat_add_nat_32) (simp add: KERNBASE_def word_less_nat_alt PGSIZE_def)
      then have pg: "page (a + of_nat PGSIZE) = Suc (page a)" by (simp add: page_def PGSIZE_def)
      have step: "dealloc_loop pd a oldsz k = dealloc_loop pd (a + of_nat PGSIZE) oldsz k1"
        using False k1(1) u by (subst dealloc_loop.simps) (simp add: word_le_nat_alt PGSIZE_def)
      have "unat oldsz - unat (a + of_nat PGSIZE) < unat oldsz - unat a" using lt u by (simp add: PGSIZE_def)
      then obtain ys k2 where k2: "dealloc_loop pd (a + of_nat PGSIZE) oldsz k1 = Inr k2"
          "freed (?f # xs) pd (a + of_nat PGSIZE) (unat oldsz) k1 ys k2"
        using less.hyps [of "a + of_nat PGSIZE" "?f # xs" k1] k1(2) u less.prems(2) by auto
      have pr: "present k1 pd b \<longleftrightarrow> page b \<noteq> page a \<and> present k pd b" for b by (simp add: present_def k1(3))
      have rg: "in_range a (unat oldsz) b \<longleftrightarrow> page b = page a \<or> in_range (a + of_nat PGSIZE) (unat oldsz) b" for b
        using al lt pg by (auto simp: in_range_def)
      have pa: "page b = page a \<Longrightarrow> present k pd b \<and> frame k pd b = ?f" for b
        using True pte_page [of b a] by (simp add: present_def frame_def)
      have fr: "page b \<noteq> page a \<Longrightarrow> frame k1 pd b = frame k pd b" for b by (simp add: frame_def k1(3))
      have "pte k2 pd b = (if in_range a (unat oldsz) b \<and> present k pd b then 0 else pte k pd b)" for b
        using k2(2) pa [of b] unfolding freed_def by (auto simp: pr rg k1(3))
      moreover have "insert ?f {frame k1 pd b |b. in_range (a + of_nat PGSIZE) (unat oldsz) b \<and> present k1 pd b}
          = {frame k pd b |b. in_range a (unat oldsz) b \<and> present k pd b}"
      proof (intro equalityI subsetI)
        fix v assume "v \<in> insert ?f {frame k1 pd b |b. in_range (a + of_nat PGSIZE) (unat oldsz) b \<and> present k1 pd b}"
        then consider "v = ?f" | b where "v = frame k1 pd b" "in_range (a + of_nat PGSIZE) (unat oldsz) b" "present k1 pd b"
          by blast
        then show "v \<in> {frame k pd b |b. in_range a (unat oldsz) b \<and> present k pd b}"
          by cases (use True rg fr pr in \<open>auto 4 3\<close>)
      next
        fix v assume "v \<in> {frame k pd b |b. in_range a (unat oldsz) b \<and> present k pd b}"
        then obtain b where b: "v = frame k pd b" "in_range a (unat oldsz) b" "present k pd b" by blast
        then show "v \<in> insert ?f {frame k1 pd b |b. in_range (a + of_nat PGSIZE) (unat oldsz) b \<and> present k1 pd b}"
          using pa [of b] rg [of b] pr [of b] fr [of b] by (cases "page b = page a") auto
      qed
      then have "owned ys pd k2 = owned xs pd k \<union> {frame k pd b |b. in_range a (unat oldsz) b \<and> present k pd b}"
        using k2(2) unfolding freed_def k1(4) by auto
      moreover have "same_outside (owned ys pd k2) k k2"
        using k2(2) k1(5) unfolding freed_def k1(4) by (auto simp: same_outside_def)
      ultimately show ?thesis using step k2 unfolding freed_def by auto
    next
      case np: False
      obtain a' where a': "dealloc_page pd a k = Inr (a', k)" "unat a + PGSIZE \<le> unat (a' + of_nat PGSIZE)"
          "unat (a' + of_nat PGSIZE) mod PGSIZE = 0"
          "\<And>b. page a \<le> page b \<Longrightarrow> page b < page (a' + of_nat PGSIZE) \<Longrightarrow> \<not> present k pd b"
        using dealloc_none [OF less.prems a np] by blast
      have step: "dealloc_loop pd a oldsz k = dealloc_loop pd (a' + of_nat PGSIZE) oldsz k"
        using False a'(1,2) by (subst dealloc_loop.simps) (simp add: word_le_nat_alt PGSIZE_def)
      have "unat oldsz - unat (a' + of_nat PGSIZE) < unat oldsz - unat a" using lt a'(2) by (simp add: PGSIZE_def)
      then obtain ys k2 where k2: "dealloc_loop pd (a' + of_nat PGSIZE) oldsz k = Inr k2"
          "freed xs pd (a' + of_nat PGSIZE) (unat oldsz) k ys k2"
        using less.hyps [of "a' + of_nat PGSIZE" xs k] a'(3) less.prems(1) by auto
      have "unat a \<le> unat (a' + of_nat PGSIZE)" using a'(2) by linarith
      then have le: "page a \<le> page (a' + of_nat PGSIZE)" unfolding page_def by (rule div_le_mono)
      have rg: "in_range a (unat oldsz) b \<and> present k pd b \<longleftrightarrow> in_range (a' + of_nat PGSIZE) (unat oldsz) b \<and> present k pd b" for b
        using a'(4) [of b] le by (cases "page b < page (a' + of_nat PGSIZE)") (auto simp: in_range_def not_less)
      have "freed xs pd a (unat oldsz) k ys k2" using k2(2) unfolding freed_def rg .
      then show ?thesis using step k2(1) by auto
    qed
  qed
qed


subsection \<open>allocuvm\<close>

text \<open>The frames stay apart when the entries are kept and no page is added to the tables and the free ones.\<close>

lemma space_ok_cong:
  assumes ok: "space_ok xs pd k" and vm: "vm_ok ys pd k'" and en: "km_end k' = km_end k"
    and pt: "\<And>b. pte k' pd b = pte k pd b" and own: "owned ys pd k' \<subseteq> owned xs pd k"
  shows "space_ok ys pd k'"
proof -
  note S = space_okD [OF ok]
  have f: "frame k' pd b = frame k pd b" "present k' pd b = present k pd b" for b
    by (simp_all only: frame_def present_def pt)
  show ?thesis
    unfolding space_ok_def f en page_ok_end [OF en]
  proof (intro conjI allI impI)
    fix a b assume a: "a < KERNBASE" "present k pd a"
    show "page_ok k (frame k pd a)" by (rule S(2) [OF a])
    show "frame k pd a \<notin> owned ys pd k'" using S(3) [OF a] own by blast
    show "page a = page b" if "b < KERNBASE" "present k pd b" "frame k pd a = frame k pd b"
      by (rule S(4) [OF a(1) that(1) a(2) that(2,3)])
  qed (fact vm S(5))+
qed

text \<open>Writes outside the tables and the free pages leave the map alone.\<close>

lemma space_ok_mem:
  assumes ok: "space_ok xs pd k" and m: "\<And>v a. v \<in> owned xs pd k \<Longrightarrow> in_page v a \<Longrightarrow> m a = km_mem k a"
  shows "space_ok xs pd (k\<lparr>km_mem := m\<rparr>)" "\<And>a. pte (k\<lparr>km_mem := m\<rparr>) pd a = pte k pd a"
    "owned xs pd (k\<lparr>km_mem := m\<rparr>) = owned xs pd k"
proof -
  have K: "vm_ok xs pd (k\<lparr>km_mem := m\<rparr>)" "pte (k\<lparr>km_mem := m\<rparr>) pd a = pte k pd a"
    "owned xs pd (k\<lparr>km_mem := m\<rparr>) = owned xs pd k" for a
    by (rule vm_ok_mem [OF space_okD(1) [OF ok], where m = m, OF m]; assumption)+
  then show "\<And>a. pte (k\<lparr>km_mem := m\<rparr>) pd a = pte k pd a" "owned xs pd (k\<lparr>km_mem := m\<rparr>) = owned xs pd k"
    by blast+
  show "space_ok xs pd (k\<lparr>km_mem := m\<rparr>)"
    by (rule space_ok_cong [OF ok K(1) _ K(2)]) (simp_all add: K(3))
qed

lemma take_page:
  assumes ok: "space_ok (x # xs) pd k"
  obtains k' where "kalloc k = (x, k')" "space_ok xs pd k'" "\<And>a. pte k' pd a = pte k pd a"
    "owned xs pd k' = owned (x # xs) pd k - {x}" "page_ok k' x" "x \<in> owned (x # xs) pd k" "x \<noteq> 0"
    "km_mem k' = km_mem k" "km_end k' = km_end k" "km_data k' = km_data k"
proof -
  note S = space_okD [OF ok] and V = vm_okD [OF space_okD(1) [OF ok]]
  let ?k = "k\<lparr>km_freelist := get32 (km_mem k) (unat x)\<rparr>"
  have ka: "kalloc k = (x, ?k)" using kalloc_spec(1) [OF V(1)] by simp
  have x: "kmem_ok xs ?k" "page_ok k x" "x \<notin> set xs" "x \<noteq> 0"
    using kalloc_spec(2) [OF V(1) refl] by (simp_all add: ka)
  have [simp]: "rd32 ?k a = rd32 k a" for a by (simp add: rd32_def)
  have [simp]: "has_tab ?k pd d = has_tab k pd d" "tab ?k pd d = tab k pd d" for d
    by (simp_all add: has_tab_def tab_def)
  have pt: "pte ?k pd a = pte k pd a" for a by (simp add: pte_def)
  have po: "page_ok ?k v = page_ok k v" for v by (simp add: page_ok_def)
  have own: "owned xs pd ?k = owned (x # xs) pd k - {x}"
    using V(3,4) x(3) by (auto simp: owned_def)
  have vm: "vm_ok xs pd ?k" using V x unfolding vm_ok_def po by auto
  have "space_ok xs pd ?k"
    by (rule space_ok_cong [OF ok vm _ pt]) (auto simp: own)
  then show thesis using that [OF ka _ _ own] x pt po by (auto simp: owned_def)
qed

text \<open>
  The states of the loop: pages \<open>p0\<close> to \<open>p\<close> are mapped, and apart from the pages \<open>L\<close> in hand nothing is
  lost; and after a failure, nothing is mapped.
\<close>

definition grown :: "u32 list \<Rightarrow> u32 \<Rightarrow> kmem \<Rightarrow> u32 set \<Rightarrow> nat \<Rightarrow> nat \<Rightarrow> u32 list \<Rightarrow> kmem \<Rightarrow> bool" where
  "grown xs0 pd k0 L p0 p xs k \<longleftrightarrow> space_ok xs pd k
     \<and> (\<forall>b. \<not> (p0 \<le> page b \<and> page b < p) \<longrightarrow> pte k pd b = pte k0 pd b)
     \<and> (\<forall>b. p0 \<le> page b \<and> page b < p \<longrightarrow> PTE_FLAGS (pte k pd b) = PTE_W OR PTE_U OR PTE_P \<and> ubyte k pd b = 0)
     \<and> owned xs pd k \<union> {frame k pd b |b. p0 \<le> page b \<and> page b < p} = owned xs0 pd k0 - L
     \<and> same_outside (owned xs0 pd k0) k0 k"

definition rolled_back :: "u32 list \<Rightarrow> u32 \<Rightarrow> kmem \<Rightarrow> u32 set \<Rightarrow> nat \<Rightarrow> nat \<Rightarrow> u32 list \<Rightarrow> kmem \<Rightarrow> bool" where
  "rolled_back xs0 pd k0 L p0 p xs k \<longleftrightarrow> space_ok xs pd k
     \<and> (\<forall>b. if p0 \<le> page b \<and> page b < p then \<not> present k pd b else pte k pd b = pte k0 pd b)
     \<and> owned xs pd k = owned xs0 pd k0 - L \<and> same_outside (owned xs0 pd k0) k0 k"

lemma perm_entry:
  assumes "page_ok k x"
  shows "PTE_ADDR (V2P x OR (PTE_W OR PTE_U) OR PTE_P) = V2P x"
    "PTE_FLAGS (V2P x OR (PTE_W OR PTE_U) OR PTE_P) = PTE_W OR PTE_U OR PTE_P"
proof -
  have "(PTE_W OR PTE_U OR PTE_P :: u32) < 4096" by (simp add: PTE_P_def PTE_W_def PTE_U_def)
  from entry_parts [OF V2P_aligned [OF assms] this]
  show "PTE_ADDR (V2P x OR (PTE_W OR PTE_U) OR PTE_P) = V2P x"
    "PTE_FLAGS (V2P x OR (PTE_W OR PTE_U) OR PTE_P) = PTE_W OR PTE_U OR PTE_P"
    by (simp_all add: or.assoc)
qed

text \<open>One round: a page is taken, cleared and mapped, or the table for it cannot be had.\<close>

lemma zero_fresh:
  assumes ok: "space_ok (x # xs) pd k"
  obtains k1 where "kalloc k = (x, k1)" "space_ok xs pd (zero_page x k1)" "\<And>b. pte (zero_page x k1) pd b = pte k pd b"
    "owned xs pd (zero_page x k1) = owned (x # xs) pd k - {x}" "page_ok k x" "x \<in> owned (x # xs) pd k" "x \<noteq> 0"
    "same_outside {x} k (zero_page x k1)" "\<And>j. j < PGSIZE \<Longrightarrow> km_mem (zero_page x k1) (unat x + j) = 0"
proof -
  obtain k1 where k1: "kalloc k = (x, k1)" "space_ok xs pd k1" "\<And>a. pte k1 pd a = pte k pd a"
    "owned xs pd k1 = owned (x # xs) pd k - {x}" "page_ok k1 x" "x \<in> owned (x # xs) pd k" "x \<noteq> 0"
    "km_mem k1 = km_mem k" "km_end k1 = km_end k" "km_data k1 = km_data k"
    using take_page [OF ok] by blast
  let ?m = "memset (unat x) 0 PGSIZE (km_mem k1)"
  have out: "?m c = km_mem k1 c" if "\<not> in_page x c" for c
    using that by (auto simp: memset_eq mset_def in_page_def)
  have own: "?m c = km_mem k1 c" if "v \<in> owned xs pd k1" "in_page v c" for v c
  proof -
    have "page_ok k1 v" using that(1) vm_okD(2,4,6) [OF space_okD(1) [OF k1(2)]] by (auto simp: owned_def)
    then show ?thesis using pages_disjoint [OF _ k1(5) that(2)] that(1) k1(4) out by blast
  qed
  have z: "zero_page x k1 = k1\<lparr>km_mem := ?m\<rparr>" by (simp add: zero_page_def)
  have Z: "space_ok xs pd (zero_page x k1)" "\<And>b. pte (zero_page x k1) pd b = pte k pd b"
    "owned xs pd (zero_page x k1) = owned (x # xs) pd k - {x}"
    unfolding z k1(3) [symmetric] k1(4) [symmetric] by (rule space_ok_mem [OF k1(2) own]; assumption)+
  have so: "same_outside {x} k (zero_page x k1)"
    using out k1(8-10) by (auto simp: same_outside_def zero_page_def)
  have zero: "km_mem (zero_page x k1) (unat x + j) = 0" if "j < PGSIZE" for j
    using that by (simp add: zero_page_def memset_eq mset_def)
  have "page_ok k x" using k1(5,9) by (simp add: page_ok_def)
  then show thesis using that [OF k1(1) Z _ k1(6,7) so zero] by blast
qed

text \<open>Mapping one page, on a table in which it is absent.\<close>

lemma map_single:
  assumes ok: "vm_ok xs pd k" and al: "unat a mod PGSIZE = 0" and a: "a < KERNBASE" and np: "pte k pd a AND PTE_P = 0"
  obtains r ys k' where "mappages pd a (of_nat PGSIZE) pa perm k = Inr (r, k')" "vm_ok ys pd k'"
    "owned ys pd k' = owned xs pd k" "same_outside (owned xs pd k) k k'"
    "if r = 0 then \<forall>b. pte k' pd b = (if page b = page a then pa OR perm OR PTE_P else pte k pd b)
     else r = -1 \<and> ys = [] \<and> (\<forall>b. pte k' pd b = pte k pd b)"
proof -
  have sz: "0 < (of_nat PGSIZE :: u32)" "unat a + unat (of_nat PGSIZE :: u32) \<le> 2 ^ 32"
    using a by (simp_all add: PGSIZE_def KERNBASE_def word_less_nat_alt)
  have "unat (a + 4095) = unat a + 4095"
    using a by (subst unat_add_32) (simp_all add: KERNBASE_def word_less_nat_alt)
  moreover have "(unat a + 4095) div 4096 = unat a div 4096"
    using al div_add1_eq [of "unat a" 4095 4096] by (simp add: PGSIZE_def)
  ultimately have pg: "page (a + of_nat PGSIZE - 1) = page a"
    by (simp add: page_def PGSIZE_def add.commute)
  have np': "pte k pd b AND PTE_P = 0" if "page a \<le> page b" "page b \<le> page (a + of_nat PGSIZE - 1)" for b
    using np pte_page [of b a] that pg by simp
  obtain r k' where m: "mappages pd a (of_nat PGSIZE) pa perm k = Inr (r, k')"
      "map_out xs pd pa perm (page a) (page a) k r k'"
    using mappages_spec [OF ok sz np', where pa = pa and perm = perm] unfolding pg by blast
  have me: "(if page a \<le> q \<and> q \<le> page a then map_entry pa perm (page a) q else e) = (if q = page a then pa OR perm OR PTE_P else e)"
    "p \<le> page a \<Longrightarrow> (if page a \<le> q \<and> q < p then e' else e) = e" for q p e e'
    by (auto simp: map_entry_def)
  from m(2) obtain ys where y: "vm_ok ys pd k'" "owned ys pd k' = owned xs pd k" "same_outside (owned xs pd k) k k'"
    and c0: "if r = 0 then \<forall>b. pte k' pd b = (if page b = page a then pa OR perm OR PTE_P else pte k pd b)
      else r = -1 \<and> ys = [] \<and> (\<exists>p\<le>page a. \<forall>b. pte k' pd b
        = (if page a \<le> page b \<and> page b < p then map_entry pa perm (page a) (page b) else pte k pd b))"
    unfolding map_out_def me(1) by blast
  have "if r = 0 then \<forall>b. pte k' pd b = (if page b = page a then pa OR perm OR PTE_P else pte k pd b)
      else r = -1 \<and> ys = [] \<and> (\<forall>b. pte k' pd b = pte k pd b)"
  proof (cases "r = 0")
    case False
    then obtain p where p: "p \<le> page a" "\<forall>b. pte k' pd b
        = (if page a \<le> page b \<and> page b < p then map_entry pa perm (page a) (page b) else pte k pd b)"
      "r = -1" "ys = []" using c0 unfolding if_not_P [OF False] by blast
    then show ?thesis using False unfolding me(2) [OF p(1)] by simp
  next
    case True
    show ?thesis using c0 unfolding if_P [OF True] .
  qed
  then show thesis by (rule that [OF m(1) y])
qed

text \<open>A page of its own for one more address.\<close>

lemma space_ok_map:
  assumes ok: "space_ok xs pd k" and x: "page_ok k x" "x \<in> owned xs pd k"
    and k': "vm_ok ys pd k'" "owned ys pd k' = owned xs pd k - {x}" "km_end k' = km_end k"
    and pt: "\<And>b. pte k' pd b = (if page b = page a then V2P x OR (PTE_W OR PTE_U) OR PTE_P else pte k pd b)"
  shows "space_ok ys pd k'"
proof -
  note S = space_okD [OF ok]
  have po: "page_ok k' v = page_ok k v" for v by (rule page_ok_end [OF k'(3)])
  have fr: "frame k' pd b = (if page b = page a then x else frame k pd b)" for b
    by (simp add: frame_def pt perm_entry(1) [OF x(1)])
  have pr: "page b \<noteq> page a \<Longrightarrow> present k' pd b = present k pd b" for b by (simp add: present_def pt)
  have fx: "frame k pd b \<noteq> x" if "b < KERNBASE" "present k pd b" for b using S(3) [OF that] x(2) by blast
  show ?thesis
    unfolding space_ok_def k'(2) po k'(3) fr
  proof (intro conjI allI impI)
    fix b c assume b: "b < KERNBASE" "present k' pd b"
    show "page_ok k (if page b = page a then x else frame k pd b)" using S(2) [OF b(1)] b(2) pr x(1) by auto
    show "(if page b = page a then x else frame k pd b) \<notin> owned xs pd k - {x}"
      using S(3) [OF b(1)] b(2) pr by auto
    assume c: "c < KERNBASE" "present k' pd c"
      "(if page b = page a then x else frame k pd b) = (if page c = page a then x else frame k pd c)"
    consider "page b = page a" "page c = page a" | "page b = page a" "page c \<noteq> page a"
      | "page b \<noteq> page a" "page c = page a" | "page b \<noteq> page a" "page c \<noteq> page a" by blast
    then show "page b = page c"
    proof cases
      case 1
      then show ?thesis by (rule trans [OF _ sym])
    next
      case 2
      then show ?thesis using c fx [OF c(1)] pr by simp
    next
      case 3
      then show ?thesis using b c fx [OF b(1)] pr by simp
    next
      case 4
      then have "present k pd b" "present k pd c" "frame k pd b = frame k pd c" using b c pr by simp_all
      then show ?thesis using S(4) [OF b(1) c(1)] by blast
    qed
  qed (fact k'(1) S(5))+
qed

lemma map_one:
  assumes ok: "space_ok (x # xs) pd k" and al: "unat a mod PGSIZE = 0" and a: "a < KERNBASE" and np: "\<not> present k pd a"
  obtains (mapped) k1 ys k' where "kalloc k = (x, k1)"
      "mappages pd a (of_nat PGSIZE) (V2P x) (PTE_W OR PTE_U) (zero_page x k1) = Inr (0, k')" "space_ok ys pd k'"
      "\<And>b. pte k' pd b = (if page b = page a then V2P x OR (PTE_W OR PTE_U) OR PTE_P else pte k pd b)"
      "owned ys pd k' = owned (x # xs) pd k - {x}" "same_outside (owned (x # xs) pd k) k k'" "page_ok k x"
      "\<And>j. j < PGSIZE \<Longrightarrow> km_mem k' (unat x + j) = 0" "x \<noteq> 0"
  | (full) k1 k' where "kalloc k = (x, k1)"
      "mappages pd a (of_nat PGSIZE) (V2P x) (PTE_W OR PTE_U) (zero_page x k1) = Inr (-1, k')" "space_ok [] pd k'"
      "\<And>b. pte k' pd b = pte k pd b" "owned [] pd k' = owned (x # xs) pd k - {x}"
      "same_outside (owned (x # xs) pd k) k k'" "page_ok k x" "x \<in> owned (x # xs) pd k" "x \<noteq> 0"
proof -
  obtain k1 where k1: "kalloc k = (x, k1)" and Z: "space_ok xs pd (zero_page x k1)" "\<And>b. pte (zero_page x k1) pd b = pte k pd b"
    "owned xs pd (zero_page x k1) = owned (x # xs) pd k - {x}" "page_ok k x" "x \<in> owned (x # xs) pd k" "x \<noteq> 0"
    "same_outside {x} k (zero_page x k1)" "\<And>j. j < PGSIZE \<Longrightarrow> km_mem (zero_page x k1) (unat x + j) = 0"
    using zero_fresh [OF ok] by blast
  have np': "pte (zero_page x k1) pd a AND PTE_P = 0" using np by (simp add: Z(2) present_def)
  obtain r ys k' where m: "mappages pd a (of_nat PGSIZE) (V2P x) (PTE_W OR PTE_U) (zero_page x k1) = Inr (r, k')"
    and y: "vm_ok ys pd k'" "owned ys pd k' = owned (x # xs) pd k - {x}" "same_outside (owned (x # xs) pd k - {x}) (zero_page x k1) k'"
    and c: "if r = 0 then \<forall>b. pte k' pd b = (if page b = page a then V2P x OR (PTE_W OR PTE_U) OR PTE_P else pte k pd b)
      else r = -1 \<and> ys = [] \<and> (\<forall>b. pte k' pd b = pte k pd b)"
    by (rule map_single [OF space_okD(1) [OF Z(1)] al a np', unfolded Z(2,3)])
  have en: "km_end k' = km_end k" "km_data k' = km_data k" using y(3) Z(7) by (simp_all add: same_outside_def)
  have so: "same_outside (owned (x # xs) pd k) k k'" using y(3) Z(5,7) en by (auto simp: same_outside_def)
  have zero: "km_mem k' (unat x + j) = 0" if "j < PGSIZE" for j
  proof -
    have "in_page x (unat x + j)" using that by (simp add: in_page_def)
    moreover have "page_ok k v" if "v \<in> owned (x # xs) pd k" for v
      using that vm_okD(2,4,6) [OF space_okD(1) [OF ok]] by (auto simp: owned_def)
    ultimately have "\<forall>v\<in>owned (x # xs) pd k - {x}. \<not> in_page v (unat x + j)"
      using pages_disjoint [OF _ Z(4)] by blast
    then show ?thesis using y(3) Z(8) [OF that] by (simp add: same_outside_def)
  qed
  show thesis
  proof (cases "r = 0")
    case True
    then have pt: "pte k' pd b = (if page b = page a then V2P x OR (PTE_W OR PTE_U) OR PTE_P else pte k pd b)" for b
      using c by simp
    have "space_ok ys pd k'" by (rule space_ok_map [OF ok Z(4,5) y(1,2) en(1) pt])
    then show thesis using mapped [OF k1 _ _ pt y(2) so Z(4) zero Z(6)] m True by blast
  next
    case False
    then have c': "r = -1" "ys = []" "\<And>b. pte k' pd b = pte k pd b" using c by auto
    have "space_ok [] pd k'"
      by (rule space_ok_cong [OF ok _ en(1) c'(3)]) (use y(1,2) c'(2) in auto)
    then show thesis using full [OF k1] m c' y(2) so Z(4-6) by simp
  qed
qed

end
