(* ===== verification/Vm_Grow.thy ===== *)
theory Vm_Grow
  imports Vm_Alloc
begin

text \<open>\<open>allocuvm\<close>: every page of the range is mapped to a fresh frame of zeros, or none is and no page is lost.\<close>

lemma ubyte_cong:
  assumes "pte k' pd b = pte k pd b" and "same_outside W k k'" and "page_ok k (frame k pd b)"
    and "\<And>v. v \<in> W \<Longrightarrow> page_ok k v" and "frame k pd b \<notin> W"
  shows "ubyte k' pd b = ubyte k pd b"
proof -
  have "in_page (frame k pd b) (unat (frame k pd b) + unat b mod PGSIZE)" by (simp add: in_page_def PGSIZE_def)
  then have "\<forall>v\<in>W. \<not> in_page v (unat (frame k pd b) + unat b mod PGSIZE)"
    using pages_disjoint [OF assms(3)] assms(4,5) by blast
  then show ?thesis using assms(2) by (simp add: ubyte_def frame_cong(1) [where k' = k', OF assms(1)] same_outside_def)
qed

lemma owned_pages: "vm_ok xs pd k \<Longrightarrow> v \<in> owned xs pd k \<Longrightarrow> page_ok k v"
  using vm_okD(2,4,6) [of xs pd k] by (auto simp: owned_def)

lemma grown_step:
  assumes g: "grown xs0 pd k0 {} p0 p (x # xs) k" and p: "p0 \<le> p" "page a = p" "a < KERNBASE"
    and pt: "\<And>b. pte k' pd b = (if page b = page a then V2P x OR (PTE_W OR PTE_U) OR PTE_P else pte k pd b)"
    and s: "space_ok ys pd k'" "owned ys pd k' = owned (x # xs) pd k - {x}"
      "same_outside (owned (x # xs) pd k) k k'" "page_ok k x" "\<And>j. j < PGSIZE \<Longrightarrow> km_mem k' (unat x + j) = 0"
    and pr: "\<And>b. p0 \<le> page b \<Longrightarrow> page b < p \<Longrightarrow> b < KERNBASE"
  shows "grown xs0 pd k0 {} p0 (Suc p) ys k'"
proof -
  let ?e = "V2P x OR (PTE_W OR PTE_U) OR PTE_P"
  have G: "space_ok (x # xs) pd k" "\<And>b. \<not> (p0 \<le> page b \<and> page b < p) \<Longrightarrow> pte k pd b = pte k0 pd b"
    "\<And>b. p0 \<le> page b \<Longrightarrow> page b < p \<Longrightarrow> PTE_FLAGS (pte k pd b) = PTE_W OR PTE_U OR PTE_P \<and> ubyte k pd b = 0"
    "owned (x # xs) pd k \<union> {frame k pd b |b. p0 \<le> page b \<and> page b < p} = owned xs0 pd k0 - {}"
    "same_outside (owned xs0 pd k0) k0 k"
    using g unfolding grown_def by blast+
  have fr: "frame k' pd b = (if page b = page a then x else frame k pd b)" for b
    unfolding frame_def pt by (simp add: perm_entry(1) [OF s(4)])
  have old: "PTE_FLAGS (pte k' pd b) = PTE_W OR PTE_U OR PTE_P \<and> ubyte k' pd b = 0" if "p0 \<le> page b" "page b < p" for b
  proof -
    have eq: "pte k' pd b = pte k pd b" using that p(2) unfolding pt by simp
    have "pte k pd b AND PTE_P = PTE_FLAGS (pte k pd b) AND PTE_P"
      by (simp add: PTE_FLAGS_def PTE_P_def and.assoc)
    then have "present k pd b" using G(3) [OF that] flags_entry(2) [of PTE_W PTE_U] by (simp add: present_def or.assoc)
    note S = space_okD(2,3) [OF G(1) pr [OF that] this]
    have "ubyte k' pd b = ubyte k pd b"
      by (rule ubyte_cong [OF eq s(3) S(1) owned_pages [OF space_okD(1) [OF G(1)]] S(2)])
    then show ?thesis using G(3) [OF that] eq by simp
  qed
  have new: "PTE_FLAGS (pte k' pd b) = PTE_W OR PTE_U OR PTE_P \<and> ubyte k' pd b = 0" if "page b = p" for b
    using that p(2) s(5) perm_entry(2) [OF s(4)] unfolding ubyte_def fr pt by (simp add: PGSIZE_def)
  have "{frame k' pd b |b. p0 \<le> page b \<and> page b < Suc p} = insert x {frame k pd b |b. p0 \<le> page b \<and> page b < p}"
  proof (intro equalityI subsetI)
    fix v assume "v \<in> {frame k' pd b |b. p0 \<le> page b \<and> page b < Suc p}"
    then obtain b where b: "v = frame k' pd b" "p0 \<le> page b" "page b < Suc p" by blast
    then show "v \<in> insert x {frame k pd b |b. p0 \<le> page b \<and> page b < p}"
      using p(2) unfolding fr by (cases "page b = p") auto
  next
    fix v assume "v \<in> insert x {frame k pd b |b. p0 \<le> page b \<and> page b < p}"
    then consider "v = frame k' pd a" | b where "v = frame k' pd b" "p0 \<le> page b" "page b < p"
      using p(2) unfolding fr by force
    then show "v \<in> {frame k' pd b |b. p0 \<le> page b \<and> page b < Suc p}"
      using p(1,2) by cases (auto intro: less_SucI)
  qed
  moreover have "x \<in> owned (x # xs) pd k" by (simp add: owned_def)
  ultimately have "owned ys pd k' \<union> {frame k' pd b |b. p0 \<le> page b \<and> page b < Suc p} = owned xs0 pd k0 - {}"
    using s(2) G(4) by auto
  moreover have "same_outside (owned xs0 pd k0) k0 k'"
    using same_outside_trans [OF G(5)] same_outside_mono [OF s(3)] G(4) by blast
  moreover have "pte k' pd b = pte k0 pd b" if "\<not> (p0 \<le> page b \<and> page b < Suc p)" for b
    using that G(2) [of b] p(1,2) unfolding pt by auto
  ultimately show ?thesis
    unfolding grown_def using s(1) old new by (auto simp: less_Suc_eq)
qed

text \<open>Undoing what has been mapped so far.\<close>

lemma grown_undo:
  assumes g: "grown xs0 pd k0 L p0 p xs k" and p: "page a = p0" "unat a mod PGSIZE = 0" "hi \<le> KERNBASE"
    and r: "p \<le> n" "\<And>b. in_range a (unat hi) b \<longleftrightarrow> p0 \<le> page b \<and> page b < n"
    and free: "\<And>b. p0 \<le> page b \<Longrightarrow> page b < n \<Longrightarrow> \<not> present k0 pd b"
    and L: "L \<subseteq> owned xs0 pd k0"
  shows "\<exists>ys k'. dealloc_loop pd a hi k = Inr k' \<and> rolled_back xs0 pd k0 L p0 n ys k'"
proof -
  have G: "space_ok xs pd k" "\<And>b. \<not> (p0 \<le> page b \<and> page b < p) \<Longrightarrow> pte k pd b = pte k0 pd b"
    "\<And>b. p0 \<le> page b \<Longrightarrow> page b < p \<Longrightarrow> PTE_FLAGS (pte k pd b) = PTE_W OR PTE_U OR PTE_P \<and> ubyte k pd b = 0"
    "owned xs pd k \<union> {frame k pd b |b. p0 \<le> page b \<and> page b < p} = owned xs0 pd k0 - L"
    "same_outside (owned xs0 pd k0) k0 k"
    using g unfolding grown_def by blast+
  obtain ys k' where k': "dealloc_loop pd a hi k = Inr k'" "freed xs pd a (unat hi) k ys k'"
    using dealloc_loop_spec [OF G(1) p(2,3)] by blast
  have F: "space_ok ys pd k'" "\<And>b. pte k' pd b = (if in_range a (unat hi) b \<and> present k pd b then 0 else pte k pd b)"
    "owned ys pd k' = owned xs pd k \<union> {frame k pd b |b. in_range a (unat hi) b \<and> present k pd b}"
    "same_outside (owned ys pd k') k k'"
    using k'(2) unfolding freed_def by blast+
  have pr: "in_range a (unat hi) b \<and> present k pd b \<longleftrightarrow> p0 \<le> page b \<and> page b < p" for b
  proof (cases "p0 \<le> page b \<and> page b < p")
    case True
    have "pte k pd b AND PTE_P = PTE_FLAGS (pte k pd b) AND PTE_P" by (simp add: PTE_FLAGS_def PTE_P_def and.assoc)
    then have "present k pd b" using G(3) [of b] True flags_entry(2) [of PTE_W PTE_U] by (simp add: present_def or.assoc)
    then show ?thesis using True r by auto
  next
    case False
    then show ?thesis using G(2) [OF False] free [of b] r by (auto simp: present_def)
  qed
  have own: "owned ys pd k' = owned xs0 pd k0 - L" unfolding F(3) pr G(4) ..
  have "if p0 \<le> page b \<and> page b < n then \<not> present k' pd b else pte k' pd b = pte k0 pd b" for b
    using F(2) [of b] G(2) [of b] pr [of b] r(1) free [of b] by (auto simp: present_def)
  moreover have "same_outside (owned xs0 pd k0) k0 k'" using same_outside_trans [OF G(5)] same_outside_mono [OF F(4)] own by blast
  ultimately have "rolled_back xs0 pd k0 L p0 n ys k'" using F(1) own by (simp add: rolled_back_def)
  then show ?thesis using k'(1) by blast
qed


text \<open>A page in hand when the table for it cannot be had, and its return.\<close>

lemma grown_present:
  assumes "PTE_FLAGS e = PTE_W OR PTE_U OR PTE_P"
  shows "e AND PTE_P \<noteq> 0"
proof -
  have "e AND PTE_P = PTE_FLAGS e AND PTE_P" by (simp add: PTE_FLAGS_def PTE_P_def and.assoc)
  then show ?thesis using assms flags_entry(2) [of PTE_W PTE_U] by (simp add: or.assoc)
qed

lemma grown_lost:
  assumes g: "grown xs0 pd k0 {} p0 p (x # xs) k" and s: "space_ok [] pd k'" "\<And>b. pte k' pd b = pte k pd b"
      "owned [] pd k' = owned (x # xs) pd k - {x}" "same_outside (owned (x # xs) pd k) k k'" "page_ok k x"
      "x \<in> owned (x # xs) pd k"
    and pr: "\<And>b. p0 \<le> page b \<Longrightarrow> page b < p \<Longrightarrow> b < KERNBASE"
  shows "grown xs0 pd k0 {x} p0 p [] k'"
proof -
  have G: "space_ok (x # xs) pd k" "\<And>b. \<not> (p0 \<le> page b \<and> page b < p) \<Longrightarrow> pte k pd b = pte k0 pd b"
    "\<And>b. p0 \<le> page b \<Longrightarrow> page b < p \<Longrightarrow> PTE_FLAGS (pte k pd b) = PTE_W OR PTE_U OR PTE_P \<and> ubyte k pd b = 0"
    "owned (x # xs) pd k \<union> {frame k pd b |b. p0 \<le> page b \<and> page b < p} = owned xs0 pd k0 - {}"
    "same_outside (owned xs0 pd k0) k0 k"
    using g unfolding grown_def by blast+
  have S: "page_ok k (frame k pd b)" "frame k pd b \<notin> owned (x # xs) pd k" if "p0 \<le> page b" "page b < p" for b
    using space_okD(2,3) [OF G(1) pr [OF that]] grown_present G(3) [OF that] by (auto simp: present_def)
  have ub: "ubyte k' pd b = ubyte k pd b" if "p0 \<le> page b" "page b < p" for b
    by (rule ubyte_cong [OF s(2) s(4) S(1) [OF that] owned_pages [OF space_okD(1) [OF G(1)]] S(2) [OF that]])
  have "{frame k' pd b |b. p0 \<le> page b \<and> page b < p} = {frame k pd b |b. p0 \<le> page b \<and> page b < p}"
    unfolding frame_def s(2) ..
  moreover have "x \<notin> {frame k pd b |b. p0 \<le> page b \<and> page b < p}" using S(2) s(6) by auto
  ultimately have own: "owned [] pd k' \<union> {frame k' pd b |b. p0 \<le> page b \<and> page b < p} = owned xs0 pd k0 - {x}"
    using s(3) G(4) by auto
  have so: "same_outside (owned xs0 pd k0) k0 k'"
    using same_outside_trans [OF G(5)] same_outside_mono [OF s(4)] G(4) by blast
  show ?thesis
    unfolding grown_def s(2)
  proof (intro conjI allI impI)
    fix b
    show "pte k pd b = pte k0 pd b" if "\<not> (p0 \<le> page b \<and> page b < p)" by (rule G(2) [OF that])
    assume b: "p0 \<le> page b \<and> page b < p"
    then have b': "p0 \<le> page b" "page b < p" by simp_all
    show "PTE_FLAGS (pte k pd b) = PTE_W OR PTE_U OR PTE_P" by (rule G(3) [OF b', THEN conjunct1])
    show "ubyte k' pd b = 0" unfolding ub [OF b'] by (rule G(3) [OF b', THEN conjunct2])
  qed (fact s(1) own so)+
qed

lemma rolled_free:
  assumes r: "rolled_back xs0 pd k0 {x} p0 p ys k" and ok: "space_ok xs0 pd k0" and x: "page_ok k x" "x \<in> owned xs0 pd k0"
  shows "\<exists>k'. kfree x k = Inr k' \<and> rolled_back xs0 pd k0 {} p0 p (x # ys) k'"
proof -
  have R: "space_ok ys pd k" "\<And>b. if p0 \<le> page b \<and> page b < p then \<not> present k pd b else pte k pd b = pte k0 pd b"
    "owned ys pd k = owned xs0 pd k0 - {x}" "same_outside (owned xs0 pd k0) k0 k"
    using r unfolding rolled_back_def by blast+
  note S = space_okD [OF R(1)]
  have nx: "x \<notin> owned ys pd k" using R(3) by simp
  obtain k' where "kfree x k = Inr k' \<and> vm_ok (x # ys) pd k' \<and> (\<forall>a. pte k' pd a = pte k pd a)
    \<and> owned (x # ys) pd k' = insert x (owned ys pd k) \<and> same_outside {x} k k'"
    by (rule kfree_vm [OF S(1) x(1) nx]) simp
  then have k': "kfree x k = Inr k'" "vm_ok (x # ys) pd k'" "\<And>a. pte k' pd a = pte k pd a"
    "owned (x # ys) pd k' = insert x (owned ys pd k)" "same_outside {x} k k'" by blast+
  have own: "owned (x # ys) pd k' = owned xs0 pd k0" using k'(4) R(3) x(2) by auto
  have en: "km_end k' = km_end k" using k'(5) by (simp add: same_outside_def)
  have f: "frame k' pd b = frame k pd b" "present k' pd b = present k pd b" for b
    by (simp_all only: frame_def present_def k'(3))
  have old: "frame k pd b \<notin> owned xs0 pd k0" if "b < KERNBASE" "present k pd b" for b
  proof -
    have "pte k pd b = pte k0 pd b" using R(2) [of b] that(2) by (auto split: if_splits)
    then show ?thesis using space_okD(3) [OF ok that(1)] that(2) frame_cong [of k pd b k0] by simp
  qed
  have "space_ok (x # ys) pd k'"
    unfolding space_ok_def f own en page_ok_end [OF en]
  proof (intro conjI allI impI)
    fix a b assume a: "a < KERNBASE" "present k pd a"
    show "page_ok k (frame k pd a)" by (rule S(2) [OF a])
    show "frame k pd a \<notin> owned xs0 pd k0" by (rule old [OF a])
    show "page a = page b" if "b < KERNBASE" "present k pd b" "frame k pd a = frame k pd b"
      by (rule S(4) [OF a(1) that(1) a(2) that(2,3)])
  qed (fact k'(2) S(5))+
  moreover have "same_outside (owned xs0 pd k0) k0 k'"
    using same_outside_trans [OF R(4)] same_outside_mono [OF k'(5)] x(2) by blast
  ultimately have "rolled_back xs0 pd k0 {} p0 p (x # ys) k'"
    unfolding rolled_back_def own f k'(3) using R(2) by simp
  then show ?thesis using k'(1) by blast
qed

text \<open>The loop, from the page \<open>m\<close> of the range on.\<close>

definition grow_range :: "u32 \<Rightarrow> u32 \<Rightarrow> nat \<Rightarrow> nat \<Rightarrow> bool" where
  "grow_range a hi p0 n \<longleftrightarrow> page a = p0 \<and> unat a mod PGSIZE = 0 \<and> hi < KERNBASE
     \<and> (\<forall>b. in_range a (unat hi) b \<longleftrightarrow> p0 \<le> page b \<and> page b < n)
     \<and> (\<forall>i. p0 + i < n \<longrightarrow> page (a + of_nat (i * PGSIZE)) = p0 + i \<and> unat (a + of_nat (i * PGSIZE)) mod PGSIZE = 0)
     \<and> (\<forall>b. page b < n \<longrightarrow> b < KERNBASE)"

lemma alloc_loop_spec:
  assumes "grown xs0 pd k0 {} p0 (p0 + m) xs k" and R: "grow_range (PGROUNDUP oldsz) newsz p0 (p0 + n)" and "m \<le> n"
    and ok0: "space_ok xs0 pd k0"
    and free: "\<And>b. p0 \<le> page b \<Longrightarrow> page b < p0 + n \<Longrightarrow> \<not> present k0 pd b" and lt: "oldsz < newsz"
  shows "\<exists>r k'. alloc_loop pd oldsz newsz (map (\<lambda>i. PGROUNDUP oldsz + of_nat (i * PGSIZE)) [m..<n]) k = Inr (r, k')
    \<and> (\<exists>ys. r = newsz \<and> grown xs0 pd k0 {} p0 (p0 + n) ys k' \<or> r = 0 \<and> rolled_back xs0 pd k0 {} p0 (p0 + n) ys k')"
  using assms(1,3)
proof (induction "n - m" arbitrary: m xs k)
  case 0
  then show ?case by auto
next
  case (Suc d)
  let ?s = "PGROUNDUP oldsz" and ?e = "V2P (hd xs) OR (PTE_W OR PTE_U) OR PTE_P"
  let ?a = "?s + of_nat (m * PGSIZE)" and ?rest = "map (\<lambda>i. ?s + of_nat (i * PGSIZE)) [Suc m..<n]"
  have m: "m < n" using Suc.hyps(2) by simp
  have R': "page ?s = p0" "unat ?s mod PGSIZE = 0" "newsz \<le> KERNBASE" "\<not> oldsz \<ge> newsz"
    "\<And>b. in_range ?s (unat newsz) b \<longleftrightarrow> p0 \<le> page b \<and> page b < p0 + n"
    "page ?a = p0 + m" "unat ?a mod PGSIZE = 0" "\<And>b. page b < p0 + n \<Longrightarrow> b < KERNBASE"
    using R m lt unfolding grow_range_def by auto
  have G: "space_ok xs pd k" "\<not> present k pd ?a"
    using Suc.prems(1) free [of ?a] R'(6) m unfolding grown_def present_def by auto
  have a: "?a < KERNBASE" using R'(6,8) m by simp
  have upt: "map (\<lambda>i. ?s + of_nat (i * PGSIZE)) [m..<n] = ?a # ?rest" using m by (simp add: upt_conv_Cons)
  show ?case
  proof (cases xs)
    case Nil
    have "kalloc k = (0, k)" using kalloc_spec(1) [of xs k] vm_okD(1) [OF space_okD(1) [OF G(1)]] Nil by simp
    moreover obtain ys k' where "dealloc_loop pd ?s newsz k = Inr k'" "rolled_back xs0 pd k0 {} p0 (p0 + n) ys k'"
      using grown_undo [OF Suc.prems(1) R'(1-3) _ R'(5) free] m by (metis add_le_cancel_left empty_subsetI less_imp_le)
    ultimately show ?thesis using R'(4) unfolding upt by (auto simp: deallocuvm_def)
  next
    case (Cons x zs)
    have ok: "space_ok (x # zs) pd k" using G(1) Cons by simp
    from ok R'(7) a G(2) show ?thesis
    proof (cases rule: map_one)
      case (mapped k1 ys k')
      have "grown xs0 pd k0 {} p0 (Suc (p0 + m)) ys k'"
        using Suc.prems(1) mapped R'(6) a R'(8) m unfolding Cons by (intro grown_step) auto
      then have "grown xs0 pd k0 {} p0 (p0 + Suc m) ys k'" by simp
      from Suc.hyps(1) [OF _ this] show ?thesis
        using Suc.hyps(2) m mapped(1,2,9) unfolding upt by simp
    next
      case (full k1 k')
      have g: "grown xs0 pd k0 {x} p0 (p0 + m) [] k'"
        by (rule grown_lost [OF Suc.prems(1) [unfolded Cons] full(3-8)]) (use R'(8) m in auto)
      have L: "{x} \<subseteq> owned xs0 pd k0" using Suc.prems(1) full(8) unfolding Cons grown_def by auto
      obtain ys k2 where k2: "dealloc_loop pd ?s newsz k' = Inr k2" "rolled_back xs0 pd k0 {x} p0 (p0 + n) ys k2"
        using grown_undo [OF g R'(1-3) _ R'(5) free L] m by auto
      have "km_end k2 = km_end k0" "km_end k = km_end k0"
        using k2(2) Suc.prems(1) unfolding rolled_back_def grown_def same_outside_def by simp_all
      then have px: "page_ok k2 x" using full(7) by (simp add: page_ok_def)
      obtain k3 where "kfree x k2 = Inr k3" "rolled_back xs0 pd k0 {} p0 (p0 + n) (x # ys) k3"
        using rolled_free [OF k2(2) ok0] px L by auto
      then show ?thesis using full(1,2,9) k2(1) R'(4) unfolding upt by (auto simp: deallocuvm_def)
    qed
  qed
qed


lemma unat_PGROUNDUP:
  assumes "sz \<le> KERNBASE"
  shows "unat (PGROUNDUP sz) = (unat sz + 4095) div PGSIZE * PGSIZE"
proof -
  have "unat (sz + 4095) = unat sz + 4095"
    using assms by (subst unat_add_32) (simp_all add: KERNBASE_def word_le_nat_alt)
  moreover have "PGROUNDUP sz = PGROUNDDOWN (sz + 4095)"
    by (simp add: PGROUNDUP_def PGROUNDDOWN_def PGSIZE_def add.commute)
  ultimately show ?thesis by (simp only: PGROUNDDOWN_unat page_def)
qed

lemma rounds: "j * PGSIZE < x \<longleftrightarrow> j < (x + PGSIZE - 1) div PGSIZE"
proof -
  have "Suc j \<le> (x + PGSIZE - 1) div PGSIZE \<longleftrightarrow> Suc j * PGSIZE \<le> x + PGSIZE - 1"
    by (rule less_eq_div_iff_mult_less_eq) (simp add: PGSIZE_def)
  then show ?thesis by (auto simp: PGSIZE_def Suc_le_eq)
qed

lemma grow_range_ok:
  assumes "oldsz \<le> newsz" and new: "newsz < KERNBASE"
  defines "p0 \<equiv> (unat oldsz + 4095) div PGSIZE"
  defines "n \<equiv> (unat newsz - unat (PGROUNDUP oldsz) + PGSIZE - 1) div PGSIZE"
  shows "grow_range (PGROUNDUP oldsz) newsz p0 (p0 + n)"
proof -
  have le: "oldsz \<le> KERNBASE" using assms(1,2) by simp
  have s: "unat (PGROUNDUP oldsz) = p0 * PGSIZE" unfolding p0_def by (rule unat_PGROUNDUP [OF le])
  have K: "unat newsz < 0x80000000" using new by (simp add: KERNBASE_def word_less_nat_alt)
  have r: "q * PGSIZE < unat newsz \<longleftrightarrow> q < p0 + n" if "p0 \<le> q" for q
  proof -
    from that obtain j where q: "q = p0 + j" by (auto simp: le_iff_add)
    have "q * PGSIZE < unat newsz \<longleftrightarrow> j * PGSIZE < unat newsz - p0 * PGSIZE" unfolding q distrib_right by linarith
    also have "\<dots> \<longleftrightarrow> j < n" unfolding n_def s by (rule rounds)
    finally show ?thesis by (simp add: q)
  qed
  have below: "q * PGSIZE < 0x80000000" if "q < p0 + n" for q
  proof (cases "p0 \<le> q")
    case True
    then show ?thesis using r that K by fastforce
  next
    case False
    have "p0 * PGSIZE \<le> 0x80000000"
    proof -
      have "unat oldsz + 4095 < 0x80000000 + PGSIZE" using assms(1) K by (simp add: word_le_nat_alt PGSIZE_def)
      then show ?thesis unfolding p0_def PGSIZE_def by simp
    qed
    then show ?thesis using False by (simp add: PGSIZE_def)
  qed
  have "unat (PGROUNDUP oldsz + of_nat (i * PGSIZE)) = (p0 + i) * PGSIZE" if "p0 + i < p0 + n" for i
    using below [OF that] by (subst unat_add_nat_32) (simp_all add: s distrib_right)
  then have "page (PGROUNDUP oldsz + of_nat (i * PGSIZE)) = p0 + i
      \<and> unat (PGROUNDUP oldsz + of_nat (i * PGSIZE)) mod PGSIZE = 0" if "p0 + i < p0 + n" for i
    using that by (simp add: page_def PGSIZE_def)
  moreover have "b < KERNBASE" if "page b < p0 + n" for b
    using below [OF that] by (simp add: page_def PGSIZE_def KERNBASE_def word_less_nat_alt)
  moreover have "page (PGROUNDUP oldsz) = p0" by (simp add: page_def s PGSIZE_def)
  ultimately show ?thesis using new r s by (auto simp: grow_range_def in_range_def)
qed

lemma allocuvm_spec:
  assumes ok: "space_ok xs pd k" and sz: "oldsz \<le> newsz" "newsz < KERNBASE"
    and free: "\<And>b. in_range (PGROUNDUP oldsz) (unat newsz) b \<Longrightarrow> \<not> present k pd b"
  shows "\<exists>r k' ys p q. allocuvm pd oldsz newsz k = Inr (r, k')
    \<and> (\<forall>b. in_range (PGROUNDUP oldsz) (unat newsz) b \<longleftrightarrow> p \<le> page b \<and> page b < q)
    \<and> (r = newsz \<and> grown xs pd k {} p q ys k' \<or> r = 0 \<and> rolled_back xs pd k {} p q ys k')"
proof -
  define p where "p = (unat oldsz + 4095) div PGSIZE"
  define n where "n = (unat newsz - unat (PGROUNDUP oldsz) + PGSIZE - 1) div PGSIZE"
  have R: "grow_range (PGROUNDUP oldsz) newsz p (p + n)" unfolding p_def n_def by (rule grow_range_ok [OF sz])
  then have rg: "in_range (PGROUNDUP oldsz) (unat newsz) b \<longleftrightarrow> p \<le> page b \<and> page b < p + n" for b
    by (simp add: grow_range_def)
  have fr: "\<not> present k pd b" if "p \<le> page b" "page b < p + n" for b using free [of b] that rg by simp
  have g: "grown xs pd k {} p (p + 0) xs k" using ok by (auto simp: grown_def)
  have run: "allocuvm pd oldsz newsz k
      = alloc_loop pd oldsz newsz (map (\<lambda>i. PGROUNDUP oldsz + of_nat (i * PGSIZE)) [0..<n]) k"
    unfolding allocuvm_def page_addrs_def n_def using sz
    by (simp only: not_le [symmetric] if_not_P if_False simp_thms)
  show ?thesis
  proof (cases "oldsz = newsz")
    case True
    have "unat (PGROUNDUP oldsz) \<ge> unat newsz"
      using unat_PGROUNDUP [of oldsz] sz True div_mult_mod_eq [of "unat oldsz + 4095" PGSIZE]
        mod_less_divisor [of PGSIZE "unat oldsz + 4095"] by (simp add: PGSIZE_def)
    then have "n = 0" by (simp add: n_def PGSIZE_def)
    then show ?thesis using run g rg by (auto intro!: exI [of _ p])
  next
    case False
    then have "oldsz < newsz" using sz(1) by simp
    from alloc_loop_spec [OF g R _ ok fr this] rg show ?thesis unfolding run by blast
  qed
qed

end
