(* ===== verification/Vm_Correct.thy ===== *)
theory Vm_Correct
  imports Vm_Grow
begin

text \<open>The properties of the page tables, applied to two small memories.\<close>

text \<open>An empty directory at \<open>0x80200000\<close> and two free pages after it.\<close>

definition demo_mem :: kmem where
  "demo_mem = \<lparr>km_mem = put32 0x80201000 0x80202000 (\<lambda>_. 0), km_freelist = 0x80201000,
     km_end = 0x80100000, km_data = 0x80108000\<rparr>"

definition demo_pd :: u32 where "demo_pd = 0x80200000"

lemma get32_zero [simp]: "get32 (\<lambda>_. 0) a = 0"
  by (simp add: get32_def)

lemma demo_vm_ok: "vm_ok [0x80201000, 0x80202000] demo_pd demo_mem"
proof -
  have p: "page_ok demo_mem v \<longleftrightarrow> unat v mod 4096 = 0 \<and> 0x80100000 \<le> v \<and> V2P v < PHYSTOP" for v
    by (simp add: page_ok_def demo_mem_def PGSIZE_def)
  have P: "page_ok demo_mem 0x80200000" "page_ok demo_mem 0x80201000" "page_ok demo_mem 0x80202000"
    unfolding p by (simp_all add: V2P_def KERNBASE_def PHYSTOP_def word_less_nat_alt word_le_nat_alt)
  have "\<not> has_tab demo_mem demo_pd d" if "d < 1024" for d
    using entry_unat [OF P(1) that] by (simp add: has_tab_def rd32_def demo_mem_def demo_pd_def get_put32_other)
  then have t: "\<forall>d<1024. \<not> has_tab demo_mem demo_pd d" by blast
  have "kmem_ok [0x80201000, 0x80202000] demo_mem"
    using P by (simp add: kmem_ok_def) (simp add: demo_mem_def get_put32_other word_less_nat_alt)
  then show ?thesis using P t by (simp add: vm_ok_def demo_pd_def)
qed

lemma demo_pte: "pte demo_mem demo_pd a = 0"
  using demo_vm_ok vm_okD(2) [OF demo_vm_ok] entry_unat [OF vm_okD(2) [OF demo_vm_ok] index_bound(1) [of a]]
  by (simp add: pte_def has_tab_def rd32_def demo_mem_def demo_pd_def get_put32_other)

text \<open>
  C27: mappages always ends on a range without present pages, within the rounds counted from
  the two rounded addresses: it answers 0 with the entry of every page of the range set and
  no other entry changed, or -1 when the free list is empty; only page tables and free pages
  are written.
\<close>

theorem mappages_refines_map:
  assumes "vm_ok xs pd k" and "0 < sz" "unat va + unat sz \<le> 2 ^ 32"
    and "\<forall>b. page va \<le> page b \<and> page b \<le> page (va + sz - 1) \<longrightarrow> pte k pd b AND PTE_P = 0"
  shows "\<exists>r k' ys. mappages pd va sz pa perm k = Inr (r, k')
    \<and> vm_ok ys pd k' \<and> owned ys pd k' = owned xs pd k \<and> same_outside (owned xs pd k) k k'
    \<and> (if r = 0
       then \<forall>a. pte k' pd a = (if page va \<le> page a \<and> page a \<le> page (va + sz - 1)
              then (pa + of_nat ((page a - page va) * PGSIZE)) OR perm OR PTE_P else pte k pd a)
       else r = -1 \<and> ys = [] \<and> (\<forall>a. \<not> (page va \<le> page a \<and> page a \<le> page (va + sz - 1)) \<longrightarrow> pte k' pd a = pte k pd a))"
proof -
  let ?q = "page (va + sz - 1)"
  obtain r k' where r: "mappages pd va sz pa perm k = Inr (r, k')" "map_out xs pd pa perm (page va) ?q k r k'"
    using mappages_spec [OF assms(1-3)] assms(4) by blast
  then obtain ys where y: "vm_ok ys pd k'" "owned ys pd k' = owned xs pd k" "same_outside (owned xs pd k) k k'"
    and c: "if r = 0 then \<forall>a. pte k' pd a = (if page va \<le> page a \<and> page a \<le> ?q
        then map_entry pa perm (page va) (page a) else pte k pd a)
      else r = -1 \<and> ys = [] \<and> (\<exists>p\<le>?q. \<forall>a. pte k' pd a
        = (if page va \<le> page a \<and> page a < p then map_entry pa perm (page va) (page a) else pte k pd a))"
    unfolding map_out_def by blast
  have "if r = 0 then \<forall>a. pte k' pd a = (if page va \<le> page a \<and> page a \<le> ?q
        then (pa + of_nat ((page a - page va) * PGSIZE)) OR perm OR PTE_P else pte k pd a)
      else r = -1 \<and> ys = [] \<and> (\<forall>a. \<not> (page va \<le> page a \<and> page a \<le> ?q) \<longrightarrow> pte k' pd a = pte k pd a)"
  proof (cases "r = 0")
    case True
    then show ?thesis using c unfolding map_entry_def by simp
  next
    case False
    then obtain p where p: "p \<le> ?q" "r = -1" "ys = []" "\<forall>a. pte k' pd a
        = (if page va \<le> page a \<and> page a < p then map_entry pa perm (page va) (page a) else pte k pd a)"
      using c unfolding if_not_P [OF False] by blast
    have "pte k' pd a = pte k pd a" if "\<not> (page va \<le> page a \<and> page a \<le> ?q)" for a
      using p(4) [rule_format, of a] that p(1) by (auto split: if_splits)
    then show ?thesis using False p(2,3) by simp
  qed
  then show ?thesis using r(1) y by (intro exI [of _ r] exI [of _ k'] exI [of _ ys]) blast
qed

theorem mappages_refines_map_witness:
  "\<exists>r k'. mappages demo_pd 0x5000 8192 0x300000 PTE_W demo_mem = Inr (r, k')
    \<and> (r = 0 \<longrightarrow> pte k' demo_pd 0x6004 = 0x301003)"
proof -
  have sz: "0 < (8192 :: u32)" "unat (0x5000 :: u32) + unat (8192 :: u32) \<le> 2 ^ 32" by simp_all
  have free: "\<forall>b. page 0x5000 \<le> page b \<and> page b \<le> page (0x5000 + 8192 - 1) \<longrightarrow> pte demo_mem demo_pd b AND PTE_P = 0"
    by (simp add: demo_pte)
  obtain r k' where r: "mappages demo_pd 0x5000 8192 0x300000 PTE_W demo_mem = Inr (r, k')"
    "r = 0 \<longrightarrow> (\<forall>a. pte k' demo_pd a = (if page 0x5000 \<le> page a \<and> page a \<le> page (0x5000 + 8192 - 1)
      then (0x300000 + of_nat ((page a - page 0x5000) * PGSIZE)) OR PTE_W OR PTE_P else pte demo_mem demo_pd a))"
    using mappages_refines_map [OF demo_vm_ok sz free, where pa = "0x300000" and perm = PTE_W] by force
  have "page 0x6004 = 6" "page 0x5000 = 5" "page (0x5000 + 8192 - 1) = 6" by (simp_all add: page_def PGSIZE_def)
  then show ?thesis using r by (auto simp: PGSIZE_def PTE_W_def PTE_P_def)
qed

text \<open>One page of a program: the directory, its first table and the frame of page 0; no free page.\<close>

definition demo_user :: kmem where
  "demo_user = \<lparr>km_mem = put32 0x80200000 0x201007 (put32 0x80201000 0x202007 (\<lambda>_. 0)), km_freelist = 0,
     km_end = 0x80100000, km_data = 0x80108000\<rparr>"

lemma demo_user_rd:
  assumes "unat v mod 4096 = 0" "0x80000000 \<le> unat v" "unat v < 0x8E000000" "i < 1024"
  shows "rd32 demo_user (v + 4 * i) = (if i = 0 \<and> v = 0x80200000 then 0x201007
    else if i = 0 \<and> v = 0x80201000 then 0x202007 else 0)"
proof -
  have i: "unat i < 1024" using assms(4) by (simp add: word_less_nat_alt)
  then have "unat (4 * i) = 4 * unat i" by (simp add: unat_word_ariths)
  then have u: "unat (v + 4 * i) = unat v + 4 * unat i" using assms(3) i by (simp add: unat_add_32)
  have e: "i = 0 \<longleftrightarrow> unat i = 0" "v = 0x80200000 \<longleftrightarrow> unat v = 0x80200000" "v = 0x80201000 \<longleftrightarrow> unat v = 0x80201000"
    by (simp_all add: word_unat_eq_iff)
  obtain q where q: "unat v = 4096 * q" using assms(1) by auto
  have get: "get32 (put32 (4096 * c) w m) (4096 * q + 4 * unat i)
      = (if unat i = 0 \<and> q = c then w else get32 m (4096 * q + 4 * unat i))" for c w m
  proof (cases "q = c")
    case True
    then show ?thesis using i by (cases "unat i = 0") (simp_all add: get_put32_other)
  next
    case False
    then have "4096 * c + 4 \<le> 4096 * q + 4 * unat i \<or> 4096 * q + 4 * unat i + 4 \<le> 4096 * c"
      using i by linarith
    then show ?thesis using False by (simp add: get_put32_other)
  qed
  have "unat v = 0x80200000 \<longleftrightarrow> q = 0x80200" "unat v = 0x80201000 \<longleftrightarrow> q = 0x80201" unfolding q by auto
  then show ?thesis
    using get [of "0x80200"] get [of "0x80201"] by (simp add: rd32_def demo_user_def u e q)
qed

lemma demo_user_rd0: "rd32 demo_user 0x80200000 = 0x201007" "rd32 demo_user 0x80201000 = 0x202007"
  using demo_user_rd [of "0x80200000" 0] demo_user_rd [of "0x80201000" 0] by simp_all

lemma demo_user_tab:
  assumes "d < 1024"
  shows "has_tab demo_user 0x80200000 d \<longleftrightarrow> d = 0" "d = 0 \<Longrightarrow> tab demo_user 0x80200000 d = 0x80201000"
  using assms by (simp_all add: has_tab_def tab_def demo_user_rd demo_user_rd0 PTE_P_def PTE_ADDR_def P2V_def KERNBASE_def)

lemma demo_user_pte: "pte demo_user 0x80200000 a = (if page a = 0 then 0x202007 else 0)"
proof -
  have "page a = 0 \<longleftrightarrow> PDX a = 0 \<and> PTX a = 0"
    using page_index [of a 0] by (simp add: PDX_def PTX_def page_def)
  then show ?thesis by (simp add: pte_def demo_user_tab demo_user_rd demo_user_rd0)
qed

lemma demo_user_ok: "vm_ok [] 0x80200000 demo_user" "user_ok [] 0x80200000 (\<lambda>q. q = 0) demo_user"
proof -
  have P: "page_ok demo_user 0x80200000" "page_ok demo_user 0x80201000" "page_ok demo_user 0x80202000"
    by (simp_all add: page_ok_def demo_user_def PGSIZE_def V2P_def KERNBASE_def PHYSTOP_def
      word_less_nat_alt word_le_nat_alt)
  show "vm_ok [] 0x80200000 demo_user"
    using P by (auto simp: vm_ok_def demo_user_tab kmem_ok_def) (simp_all add: demo_user_def word_less_nat_alt)
  have "frame demo_user 0x80200000 a = 0x80202000" if "page a = 0" for a
    using that by (simp add: frame_def demo_user_pte PTE_ADDR_def P2V_def KERNBASE_def)
  moreover have "0x80202000 \<notin> owned [] 0x80200000 demo_user"
    by (auto simp: owned_def demo_user_tab)
  ultimately show "user_ok [] 0x80200000 (\<lambda>q. q = 0) demo_user"
    using P by (auto simp: user_ok_def demo_user_pte PTE_P_def PTE_U_def)
qed

text \<open>
  C26: copyout refines writing the bytes at the virtual addresses the program sees: across
  pages mapped to arbitrary frames, exactly the bytes of the range change, and the page
  tables do not.
\<close>

theorem copyout_writes_user_memory:
  assumes "vm_ok xs pd k" and "user_ok xs pd U k"
    and "\<forall>q. page va \<le> q \<and> q * PGSIZE < unat va + len \<longrightarrow> U q" and "unat va + len \<le> 0x80000000"
  shows "\<exists>k'. copyout pd va p i len k = Inr (0, k') \<and> vm_ok xs pd k' \<and> user_ok xs pd U k'
    \<and> (\<forall>a. pte k' pd a = pte k pd a)
    \<and> (\<forall>a. U (page a) \<longrightarrow> ubyte k' pd a
        = (if unat va \<le> unat a \<and> unat a < unat va + len then p (i + (unat a - unat va)) else ubyte k pd a))"
  using copyout_spec [OF assms(1,2) _ assms(4), of p i] assms(3) by (auto simp: uwrote_def)

theorem copyout_writes_user_memory_witness:
  "\<exists>k'. copyout 0x80200000 100 (\<lambda>j. of_nat j) 0 3 demo_user = Inr (0, k') \<and> ubyte k' 0x80200000 102 = 2"
proof -
  have "\<forall>q. page 100 \<le> q \<and> q * PGSIZE < unat (100 :: u32) + 3 \<longrightarrow> q = 0" "unat (100 :: u32) + 3 \<le> 0x80000000"
    by (auto simp: PGSIZE_def)
  from copyout_writes_user_memory [OF demo_user_ok this, of "\<lambda>j. of_nat j" 0] obtain k' where
    k': "copyout 0x80200000 100 (\<lambda>j. of_nat j) 0 3 demo_user = Inr (0, k')"
    "\<forall>a. page a = 0 \<longrightarrow> ubyte k' 0x80200000 a
      = (if unat (100 :: u32) \<le> unat a \<and> unat a < unat (100 :: u32) + 3 then of_nat (0 + (unat a - unat (100 :: u32)))
         else ubyte demo_user 0x80200000 a)" by auto
  have "page 102 = 0" by (simp add: page_def PGSIZE_def)
  then show ?thesis using k'(1) k'(2) [rule_format, of 102] by auto
qed

lemma demo_space_ok: "space_ok [0x80201000, 0x80202000] demo_pd demo_mem"
  using demo_vm_ok by (simp add: space_ok_def present_def demo_pte) (simp add: demo_mem_def KERNBASE_def word_less_nat_alt)

text \<open>
  C25: allocuvm either maps every page of the range to a frame of its own, full of zeros and
  writable by the program, or, when the memory runs out, maps none; in both cases the other
  pages keep their entries, no page of the allocator is lost, and nothing outside the page
  tables and the free pages is written.
\<close>

theorem allocuvm_all_or_nothing:
  assumes "space_ok xs pd k" and "oldsz \<le> newsz" "newsz < KERNBASE"
    and "\<forall>b. in_range (PGROUNDUP oldsz) (unat newsz) b \<longrightarrow> \<not> present k pd b"
  shows "\<exists>r k' ys. allocuvm pd oldsz newsz k = Inr (r, k') \<and> space_ok ys pd k' \<and> same_outside (owned xs pd k) k k'
    \<and> (\<forall>b. \<not> in_range (PGROUNDUP oldsz) (unat newsz) b \<longrightarrow> pte k' pd b = pte k pd b)
    \<and> (r = newsz \<and> (\<forall>b. in_range (PGROUNDUP oldsz) (unat newsz) b \<longrightarrow>
          PTE_FLAGS (pte k' pd b) = PTE_W OR PTE_U OR PTE_P \<and> ubyte k' pd b = 0)
        \<and> owned ys pd k' \<union> {frame k' pd b |b. in_range (PGROUNDUP oldsz) (unat newsz) b} = owned xs pd k
       \<or> r = 0 \<and> (\<forall>b. in_range (PGROUNDUP oldsz) (unat newsz) b \<longrightarrow> \<not> present k' pd b)
        \<and> owned ys pd k' = owned xs pd k)"
proof -
  obtain r k' ys p q where r: "allocuvm pd oldsz newsz k = Inr (r, k')"
    and R: "\<And>b. in_range (PGROUNDUP oldsz) (unat newsz) b \<longleftrightarrow> p \<le> page b \<and> page b < q"
    and c: "r = newsz \<and> grown xs pd k {} p q ys k' \<or> r = 0 \<and> rolled_back xs pd k {} p q ys k'"
    using allocuvm_spec [OF assms(1-3)] assms(4) by blast
  from c show ?thesis
  proof
    assume "r = newsz \<and> grown xs pd k {} p q ys k'"
    then show ?thesis using r unfolding R grown_def Diff_empty by blast
  next
    assume b: "r = 0 \<and> rolled_back xs pd k {} p q ys k'"
    then have "\<And>b. \<not> (p \<le> page b \<and> page b < q) \<Longrightarrow> pte k' pd b = pte k pd b"
      "\<And>b. p \<le> page b \<and> page b < q \<Longrightarrow> \<not> present k' pd b"
      unfolding rolled_back_def by metis+
    then show ?thesis using r b unfolding R rolled_back_def Diff_empty by blast
  qed
qed

theorem allocuvm_all_or_nothing_witness:
  "\<exists>r k'. allocuvm demo_pd 0 8192 demo_mem = Inr (r, k') \<and> (r = 8192 \<longrightarrow> ubyte k' demo_pd 5000 = 0)
    \<and> (r \<noteq> 8192 \<longrightarrow> \<not> present k' demo_pd 5000)"
proof -
  have a: "(0 :: u32) \<le> 8192" "(8192 :: u32) < KERNBASE"
    "\<forall>b. in_range (PGROUNDUP 0) (unat (8192 :: u32)) b \<longrightarrow> \<not> present demo_mem demo_pd b"
    by (simp_all add: present_def demo_pte KERNBASE_def word_less_nat_alt)
  have "in_range (PGROUNDUP 0) (unat (8192 :: u32)) 5000"
    using unat_PGROUNDUP [of 0] by (simp add: in_range_def page_def PGSIZE_def)
  then show ?thesis using allocuvm_all_or_nothing [OF demo_space_ok a] by force
qed

text \<open>
  C28: deallocuvm clears the entry of every present page of the range and no other, and
  gives exactly their frames back to the allocator.
\<close>

theorem deallocuvm_frees_range:
  assumes "space_ok xs pd k" and "newsz \<le> oldsz" "oldsz \<le> KERNBASE"
  shows "\<exists>k' ys. deallocuvm pd oldsz newsz k = Inr (newsz, k') \<and> space_ok ys pd k'
    \<and> (\<forall>b. pte k' pd b = (if in_range (PGROUNDUP newsz) (unat oldsz) b \<and> present k pd b then 0 else pte k pd b))
    \<and> owned ys pd k' = owned xs pd k \<union> {frame k pd b |b. in_range (PGROUNDUP newsz) (unat oldsz) b \<and> present k pd b}"
proof (cases "oldsz = newsz")
  case True
  have "unat (PGROUNDUP newsz) \<ge> unat oldsz"
    using unat_PGROUNDUP [of newsz] assms(3) True div_mult_mod_eq [of "unat oldsz + 4095" PGSIZE]
      mod_less_divisor [of PGSIZE "unat oldsz + 4095"] by (simp add: PGSIZE_def)
  moreover have "unat (PGROUNDUP newsz) = page (PGROUNDUP newsz) * PGSIZE"
    using unat_PGROUNDUP [of newsz] assms(3) True by (simp add: page_def PGSIZE_def)
  ultimately have n: "\<not> in_range (PGROUNDUP newsz) (unat oldsz) b" for b
    by (auto simp: in_range_def PGSIZE_def)
  show ?thesis using assms(1) n [unfolded True] unfolding deallocuvm_def True by auto
next
  case False
  have "unat (PGROUNDUP newsz) mod PGSIZE = 0" using unat_PGROUNDUP [of newsz] assms by simp
  from dealloc_loop_spec [OF assms(1) this assms(3)] obtain ys k' where
    k': "dealloc_loop pd (PGROUNDUP newsz) oldsz k = Inr k'" "freed xs pd (PGROUNDUP newsz) (unat oldsz) k ys k'" by blast
  have "deallocuvm pd oldsz newsz k = Inr (newsz, k')"
    using k'(1) False assms(2) unfolding deallocuvm_def by simp
  then show ?thesis using k'(2) unfolding freed_def by blast
qed

theorem deallocuvm_frees_range_witness:
  "\<exists>k'. deallocuvm 0x80200000 4096 0 demo_user = Inr (0, k') \<and> pte k' 0x80200000 7 = 0"
proof -
  have "space_ok [] 0x80200000 demo_user"
    using demo_user_ok user_okD(3,4) [OF demo_user_ok(2)]
    by (auto simp: space_ok_def present_def demo_user_pte split: if_splits)
       (simp add: demo_user_def KERNBASE_def word_less_nat_alt)
  moreover have "(0 :: u32) \<le> 4096" "(4096 :: u32) \<le> KERNBASE" by (simp_all add: KERNBASE_def word_le_nat_alt)
  ultimately obtain k' where k': "deallocuvm 0x80200000 4096 0 demo_user = Inr (0, k')"
    "\<forall>b. pte k' 0x80200000 b = (if in_range (PGROUNDUP 0) (unat (4096 :: u32)) b \<and> present demo_user 0x80200000 b
      then 0 else pte demo_user 0x80200000 b)"
    using deallocuvm_frees_range [of "[]" "0x80200000" demo_user 0 4096] by auto
  have "page 7 = 0" "page (PGROUNDUP 0) = 0"
    using unat_PGROUNDUP [of 0] by (simp_all add: page_def PGSIZE_def)
  then show ?thesis
    using k'(1) k'(2) [rule_format, of 7] by (auto simp: in_range_def present_def demo_user_pte PTE_P_def)
qed

end
