(* ===== verification/Grep.thy ===== *)
theory Grep
  imports Prelude
begin

text \<open>
  grep.c: the matcher of Kernighan and Pike and the loop over the input. A C string is the list
  of its characters before the null byte. The matcher is shown equivalent to a reference
  semantics of patterns as sets of strings.
\<close>

subsection \<open>The matcher\<close>

text \<open>\<open>matchstar\<close> looks at the text before and after each step over one character.\<close>

function matchhere :: "string \<Rightarrow> string \<Rightarrow> bool" and matchstar :: "char \<Rightarrow> string \<Rightarrow> string \<Rightarrow> bool" where
  "matchhere [] text \<longleftrightarrow> True"
| "matchhere (c # re) text \<longleftrightarrow>
     (if re \<noteq> [] \<and> hd re = CHR ''*'' then matchstar c (tl re) text
      else if c = CHR ''$'' \<and> re = [] then text = []
      else if text \<noteq> [] \<and> (c = CHR ''.'' \<or> c = hd text) then matchhere re (tl text)
      else False)"
| "matchstar c re text \<longleftrightarrow>
     (if matchhere re text then True
      else if text \<noteq> [] \<and> (hd text = c \<or> c = CHR ''.'') then matchstar c re (tl text)
      else False)"
  by pat_completeness auto
termination
  by (relation "measures [\<lambda>x. case x of Inl (re, t) \<Rightarrow> length re | Inr (c, re, t) \<Rightarrow> length re,
       \<lambda>x. case x of Inl (re, t) \<Rightarrow> length t | Inr (c, re, t) \<Rightarrow> length t,
       \<lambda>x. case x of Inl _ \<Rightarrow> 0 | Inr _ \<Rightarrow> 1]") auto

declare matchhere.simps(2) [simp del] matchstar.simps [simp del]

fun match_from :: "string \<Rightarrow> string \<Rightarrow> bool" where
  "match_from re [] \<longleftrightarrow> matchhere re []"
| "match_from re (c # text) \<longleftrightarrow> (if matchhere re (c # text) then True else match_from re text)"

definition match :: "string \<Rightarrow> string \<Rightarrow> bool" where
  "match re text \<longleftrightarrow>
     (if re \<noteq> [] \<and> hd re = CHR ''^'' then matchhere (tl re) text else match_from re text)"


subsection \<open>Patterns as sets of strings\<close>

datatype atom = Once char | Star char

text \<open>A pattern without its \<open>^\<close>: its atoms, and whether it ends in \<open>$\<close>.\<close>

fun parse_re :: "string \<Rightarrow> atom list \<times> bool" where
  "parse_re [] = ([], False)"
| "parse_re [c] = (if c = CHR ''$'' then ([], True) else ([Once c], False))"
| "parse_re (c # d # re) =
     (if d = CHR ''*'' then let (as, e) = parse_re re in (Star c # as, e)
      else let (as, e) = parse_re (d # re) in (Once c # as, e))"

definition accepts :: "char \<Rightarrow> char \<Rightarrow> bool" where
  "accepts c x \<longleftrightarrow> c = CHR ''.'' \<or> c = x"

fun lang :: "atom list \<Rightarrow> string set" where
  "lang [] = {[]}"
| "lang (Once c # as) = {x # u |x u. accepts c x \<and> u \<in> lang as}"
| "lang (Star c # as) = {w @ u |w u. (\<forall>x\<in>set w. accepts c x) \<and> u \<in> lang as}"

text \<open>The text starts with a word of the pattern, which is all of it when the pattern is anchored.\<close>

definition begins :: "atom list \<times> bool \<Rightarrow> string \<Rightarrow> bool" where
  "begins p t \<longleftrightarrow> (\<exists>u v. t = u @ v \<and> u \<in> lang (fst p) \<and> (snd p \<longrightarrow> v = []))"

lemma begins_Once:
  "begins (Once c # as, e) t \<longleftrightarrow> (\<exists>x t'. t = x # t' \<and> accepts c x \<and> begins (as, e) t')"
proof
  assume "begins (Once c # as, e) t"
  then obtain x u v where "t = (x # u) @ v" "accepts c x" "u \<in> lang as" "e \<longrightarrow> v = []"
    unfolding begins_def by (auto; metis append_Nil2)
  then show "\<exists>x t'. t = x # t' \<and> accepts c x \<and> begins (as, e) t'"
    unfolding begins_def by (intro exI [of _ x] exI [of _ "u @ v"]) auto
next
  assume "\<exists>x t'. t = x # t' \<and> accepts c x \<and> begins (as, e) t'"
  then obtain x u v where "t = (x # u) @ v" "accepts c x" "u \<in> lang as" "e \<longrightarrow> v = []"
    unfolding begins_def by (auto; metis append_Nil2)
  then show "begins (Once c # as, e) t"
    unfolding begins_def by (rule_tac exI [of _ "x # u"], rule_tac exI [of _ v]) auto
qed

lemma begins_Star:
  "begins (Star c # as, e) t \<longleftrightarrow> (\<exists>w t'. t = w @ t' \<and> (\<forall>x\<in>set w. accepts c x) \<and> begins (as, e) t')"
proof
  assume "begins (Star c # as, e) t"
  then obtain w u v where "t = w @ (u @ v)" "\<forall>x\<in>set w. accepts c x" "u \<in> lang as" "e \<longrightarrow> v = []"
    unfolding begins_def by (auto; metis append_Nil2)
  then show "\<exists>w t'. t = w @ t' \<and> (\<forall>x\<in>set w. accepts c x) \<and> begins (as, e) t'"
    unfolding begins_def by (intro exI [of _ w] exI [of _ "u @ v"]) auto
next
  assume "\<exists>w t'. t = w @ t' \<and> (\<forall>x\<in>set w. accepts c x) \<and> begins (as, e) t'"
  then obtain w u v where "t = (w @ u) @ v" "\<forall>x\<in>set w. accepts c x" "u \<in> lang as" "e \<longrightarrow> v = []"
    by (auto simp: begins_def)
  then show "begins (Star c # as, e) t"
    unfolding begins_def by (intro exI [of _ "w @ u"] exI [of _ v]) auto
qed

lemma begins_Nil [simp]: "begins ([], e) t \<longleftrightarrow> \<not> e \<or> t = []"
  by (auto simp: begins_def)

text \<open>One round of \<open>matchstar\<close>: nothing is taken, or one accepted character.\<close>

lemma begins_Star_unfold:
  "begins (Star c # as, e) t \<longleftrightarrow> begins (as, e) t
     \<or> (t \<noteq> [] \<and> accepts c (hd t) \<and> begins (Star c # as, e) (tl t))"
proof (cases t)
  case (Cons x t')
  have "(\<exists>w r. x # t' = w @ r \<and> (\<forall>y\<in>set w. accepts c y) \<and> begins (as, e) r) \<longleftrightarrow>
      begins (as, e) (x # t') \<or> accepts c x \<and> (\<exists>w r. t' = w @ r \<and> (\<forall>y\<in>set w. accepts c y) \<and> begins (as, e) r)"
    (is "?l \<longleftrightarrow> ?r")
  proof
    assume ?l
    then obtain w r where w: "x # t' = w @ r" "\<forall>y\<in>set w. accepts c y" "begins (as, e) r" by blast
    then show ?r by (cases w) auto
  next
    assume ?r
    then consider "begins (as, e) (x # t')"
      | w r where "accepts c x" "t' = w @ r" "\<forall>y\<in>set w. accepts c y" "begins (as, e) r" by blast
    then show ?l
    proof cases
      case 1
      then show ?thesis by (intro exI [of _ "[]"] exI [of _ "x # t'"]) simp
    next
      case 2
      then show ?thesis by (intro exI [of _ "x # w"] exI [of _ r]) simp
    qed
  qed
  then show ?thesis by (simp add: begins_Star Cons)
qed (simp add: begins_Star)

lemma match_begins:
  "matchhere re t \<longleftrightarrow> begins (parse_re re) t"
  "matchstar c re t \<longleftrightarrow> begins (Star c # fst (parse_re re), snd (parse_re re)) t"
proof (induction re t and c re t rule: matchhere_matchstar.induct)
  case (1 t)
  then show ?case by simp
next
  case (2 c re t)
  show ?case
  proof (cases re)
    case Nil
    then show ?thesis using 2 by (cases t) (auto simp: matchhere.simps(2) begins_Once accepts_def)
  next
    case (Cons d re')
    show ?thesis
    proof (cases "d = CHR ''*''")
      case True
      then show ?thesis using 2(1) Cons by (simp add: matchhere.simps(2) split: prod.split)
    next
      case False
      have "parse_re (c # re) = (Once c # fst (parse_re re), snd (parse_re re))"
        using False Cons by (simp split: prod.split)
      then show ?thesis
        using 2(2) False Cons by (cases t) (auto simp: matchhere.simps(2) begins_Once accepts_def)
    qed
  qed
next
  case (3 c re t)
  then show ?case
    by (subst matchstar.simps, subst begins_Star_unfold) (auto simp: accepts_def)
qed

lemma match_from_begins: "match_from re t \<longleftrightarrow> (\<exists>u v. t = u @ v \<and> begins (parse_re re) v)"
proof (induction t)
  case (Cons x t)
  then show ?case
    by (auto simp: match_begins Cons_eq_append_conv)
qed (simp add: match_begins)


subsection \<open>The loop over the input\<close>

definition NL :: char where "NL = CHR 0x0A"

text \<open>
  The lines of the buffer: \<open>strchr(p, '\n')\<close> ends at a null byte. The result is what is
  written and what is left from \<open>p\<close> on.
\<close>

function grep_lines :: "string \<Rightarrow> string \<Rightarrow> string list \<times> string" where
  "grep_lines pattern p =
     (let line = takeWhile (\<lambda>c. c \<noteq> NL \<and> c \<noteq> CHR 0x00) p;
          q = drop (length line) p
      in if q \<noteq> [] \<and> hd q = NL then
           let (out, rest) = grep_lines pattern (tl q)
           in ((if match pattern line then [line @ [NL]] else []) @ out, rest)
         else ([], p))"
  by pat_completeness auto
termination
  by (relation "measure (\<lambda>(pattern, p). length p)") auto

declare grep_lines.simps [simp del]

text \<open>
  \<open>grep\<close> with \<open>m\<close> bytes in its buffer. The input is the list of what is there to read at each
  call; \<open>read\<close> answers at most the bytes asked for and leaves the others. When no line ends in the
  buffer it is dropped (\<open>if(p == buf) m = 0;\<close>).
\<close>

definition GREPBUF :: nat where "GREPBUF = 1024"

function grep_loop :: "string \<Rightarrow> string \<Rightarrow> string list \<Rightarrow> string list" where
  "grep_loop pattern b input =
     (let space = GREPBUF - length b - 1 in
      case input of
        [] \<Rightarrow> []
      | chunk # more \<Rightarrow>
          if take space chunk = [] then []
          else
            let input = (if space < length chunk then drop space chunk # more else more);
                b = b @ take space chunk;
                (out, rest) = grep_lines pattern b;
                m = (if length rest = length b then [] else rest)
            in out @ grep_loop pattern m input)"
  by pat_completeness auto
termination
  by (relation "measure (\<lambda>(pattern, b, input). sum_list (map length input))") auto

declare grep_loop.simps [simp del]

definition grep :: "string \<Rightarrow> string list \<Rightarrow> string list" where
  "grep pattern input = grep_loop pattern [] input"


subsection \<open>Lines\<close>

text \<open>The lines of a text that end in a newline, and what follows the last of them.\<close>

function complete_lines :: "string \<Rightarrow> string list" where
  "complete_lines s = (if NL \<in> set s then takeWhile (\<lambda>c. c \<noteq> NL) s
     # complete_lines (tl (dropWhile (\<lambda>c. c \<noteq> NL) s)) else [])"
  by pat_completeness auto
termination
proof (relation "measure length")
  fix s :: string assume "NL \<in> set s"
  then have "dropWhile (\<lambda>c. c \<noteq> NL) s \<noteq> []" by auto
  then have "length (tl (dropWhile (\<lambda>c. c \<noteq> NL) s)) < length (dropWhile (\<lambda>c. c \<noteq> NL) s)" by simp
  then show "(tl (dropWhile (\<lambda>c. c \<noteq> NL) s), s) \<in> measure length"
    using length_dropWhile_le [of "\<lambda>c. c \<noteq> NL" s] by simp
qed simp

declare complete_lines.simps [simp del]

definition unfinished :: "string \<Rightarrow> string" where
  "unfinished s = rev (takeWhile (\<lambda>c. c \<noteq> NL) (rev s))"

lemma split_line:
  assumes "NL \<in> set s"
  shows "s = takeWhile (\<lambda>c. c \<noteq> NL) s @ NL # tl (dropWhile (\<lambda>c. c \<noteq> NL) s)"
proof -
  have "dropWhile (\<lambda>c. c \<noteq> NL) s \<noteq> []" using assms by auto
  then have "dropWhile (\<lambda>c. c \<noteq> NL) s = NL # tl (dropWhile (\<lambda>c. c \<noteq> NL) s)"
    using hd_dropWhile [of "\<lambda>c. c \<noteq> NL" s] by (metis list.collapse)
  then show ?thesis by (metis takeWhile_dropWhile_id)
qed

lemma lines_Cons: "NL \<notin> set l \<Longrightarrow> complete_lines (l @ NL # s) = l # complete_lines s"
  by (subst complete_lines.simps) (simp add: takeWhile_append dropWhile_append3 dropWhile_append)

lemma unfinished_simps: "NL \<notin> set s \<Longrightarrow> unfinished s = s" "unfinished (l @ NL # s) = unfinished s"
proof -
  show "NL \<notin> set s \<Longrightarrow> unfinished s = s"
    unfolding unfinished_def by (subst takeWhile_eq_all_conv [THEN iffD2]) auto
  have "takeWhile (\<lambda>c. c \<noteq> NL) (rev s @ NL # rev l) = takeWhile (\<lambda>c. c \<noteq> NL) (rev s)"
    by (rule takeWhile_tail) simp
  then show "unfinished (l @ NL # s) = unfinished s" by (simp add: unfinished_def)
qed

lemma lines_none: "NL \<notin> set s \<Longrightarrow> complete_lines s = []"
  by (subst complete_lines.simps) simp

lemma lines_append: "complete_lines (a @ b) = complete_lines a @ complete_lines (unfinished a @ b)"
proof (induction a rule: complete_lines.induct)
  case (1 a)
  show ?case
  proof (cases "NL \<in> set a")
    case True
    let ?l = "takeWhile (\<lambda>c. c \<noteq> NL) a" and ?r = "tl (dropWhile (\<lambda>c. c \<noteq> NL) a)"
    have a: "a = ?l @ NL # ?r" by (rule split_line [OF True])
    have n: "NL \<notin> set ?l" by (auto dest: set_takeWhileD)
    have "complete_lines (a @ b) = ?l # complete_lines (?r @ b)"
      using lines_Cons [OF n, of "?r @ b"] a by (metis append_Cons append_assoc)
    then show ?thesis
      using 1 [OF True] lines_Cons [OF n, of ?r] unfinished_simps(2) [of ?l ?r] a by (metis append_Cons)
  qed (simp add: lines_none unfinished_simps)
qed

abbreviation matching :: "string \<Rightarrow> string list \<Rightarrow> string list" where
  "matching pattern ls \<equiv> map (\<lambda>l. l @ [NL]) (filter (match pattern) ls)"

lemma grep_lines_spec:
  "CHR 0x00 \<notin> set p \<Longrightarrow> grep_lines pattern p = (matching pattern (complete_lines p), unfinished p)"
proof (induction p rule: complete_lines.induct)
  case (1 p)
  have tw: "takeWhile (\<lambda>c. c \<noteq> NL \<and> c \<noteq> CHR 0x00) p = takeWhile (\<lambda>c. c \<noteq> NL) p"
    by (rule takeWhile_cong) (use 1 in auto)
  show ?case
  proof (cases "NL \<in> set p")
    case True
    let ?l = "takeWhile (\<lambda>c. c \<noteq> NL) p" and ?r = "tl (dropWhile (\<lambda>c. c \<noteq> NL) p)"
    have p: "p = ?l @ NL # ?r" by (rule split_line [OF True])
    have n: "NL \<notin> set ?l" by (auto dest: set_takeWhileD)
    have d: "drop (length ?l) p = NL # ?r" using p by (metis append_eq_conv_conj)
    have "CHR 0x00 \<notin> set ?r" using 1(2) p by (metis Un_iff list.set_intros(2) set_append)
    then have "grep_lines pattern ?r = (matching pattern (complete_lines ?r), unfinished ?r)"
      by (rule 1(1) [OF True])
    moreover have "\<not> length p \<le> length ?l" using arg_cong [OF p, of length] by simp
    ultimately have "grep_lines pattern p = (matching pattern (?l # complete_lines ?r), unfinished ?r)"
      by (subst grep_lines.simps) (simp add: tw d Let_def)
    then show ?thesis using lines_Cons [OF n, of ?r] unfinished_simps(2) [of ?l ?r] p by metis
  next
    case False
    then have tp: "takeWhile (\<lambda>c. c \<noteq> NL) p = p" by (simp only: takeWhile_eq_all_conv) auto
    show ?thesis
      unfolding lines_none [OF False] unfinished_simps(1) [OF False]
      by (subst grep_lines.simps) (simp add: tw tp Let_def)
  qed
qed

lemma grep_loop_spec:
  assumes "NL \<notin> set b" "length b < 512" "CHR 0x00 \<notin> set b"
    and "\<forall>c\<in>set input. NL \<in> set c \<and> length c < 512 \<and> CHR 0x00 \<notin> set c"
  shows "grep_loop pattern b input = matching pattern (complete_lines (b @ concat input))"
  using assms
proof (induction input arbitrary: b)
  case Nil
  then show ?case by (simp add: grep_loop.simps lines_none)
next
  case (Cons c input)
  have c: "NL \<in> set c" "length c < 512" "CHR 0x00 \<notin> set c" using Cons.prems(4) by auto
  have tk: "take (GREPBUF - length b - 1) c = c" "\<not> GREPBUF - length b - 1 < length c" "c \<noteq> []"
    using c Cons.prems(2) by (auto simp: GREPBUF_def)
  have gl: "grep_lines pattern (b @ c) = (matching pattern (complete_lines (b @ c)), unfinished (b @ c))"
    using Cons.prems(3) c(3) by (intro grep_lines_spec) simp
  obtain l r where lr: "c = l @ NL # r" "NL \<notin> set r"
    using split_list_last [OF c(1)] by blast
  have u: "unfinished (b @ c) = r"
    using unfinished_simps(2) [of "b @ l" r] unfinished_simps(1) [OF lr(2)] lr(1) by simp
  have r: "length r < length (b @ c)" "length r < 512" "CHR 0x00 \<notin> set r" using lr(1) c by auto
  have "grep_loop pattern b (c # input) = matching pattern (complete_lines (b @ c)) @ grep_loop pattern r input"
    using tk gl u r(1) by (subst grep_loop.simps) (auto simp: Let_def)
  also have "\<dots> = matching pattern (complete_lines (b @ c) @ complete_lines (r @ concat input))"
    using Cons.IH [OF lr(2) r(2,3)] Cons.prems(4) by simp
  finally show ?case using lines_append [of "b @ c" "concat input"] u by simp
qed

lemma grep_forgets:
  assumes "NL \<notin> set c" "c \<noteq> []" "length c < GREPBUF"
  shows "grep_loop pattern [] (c # input) = grep_loop pattern [] input"
proof -
  let ?q = "drop (length (takeWhile (\<lambda>x. x \<noteq> NL \<and> x \<noteq> CHR 0x00) c)) c"
  have "hd ?q \<noteq> NL" if "?q \<noteq> []" using assms(1) hd_in_set [OF that] by (metis in_set_dropD)
  then have h: "\<not> (?q \<noteq> [] \<and> hd ?q = NL)" by blast
  have "grep_lines pattern c = ([], c)"
    by (subst grep_lines.simps) (simp only: Let_def if_not_P [OF h])
  moreover have "take (GREPBUF - 1) c = c" "\<not> GREPBUF - 1 < length c" "\<not> GREPBUF \<le> 1"
    using assms(3) by (auto simp: GREPBUF_def)
  ultimately show ?thesis using assms(2) by (subst grep_loop.simps) (simp add: Let_def)
qed

end
