(* ===== verification/Ulib.thy ===== *)
theory Ulib
  imports Cstring
begin

text \<open>
  The user library: the string functions of ulib.c on views of memory, \<open>printint\<close> and \<open>printf\<close> of
  printf.c, and the counting loop of wc.c. What a program writes is the list of its bytes; a
  loop that runs to the end of a string that may not end is a partial function.
\<close>

subsection \<open>ulib.c\<close>

partial_function (option) strcpy_from :: "mem \<Rightarrow> mem \<Rightarrow> nat \<Rightarrow> mem option" where
  "strcpy_from s t i =
     (let s = s(i := t i) in if t i \<noteq> 0 then strcpy_from s t (i + 1) else Some s)"

definition strcpy :: "mem \<Rightarrow> mem \<Rightarrow> mem option" where
  "strcpy s t = strcpy_from s t 0"

partial_function (option) strcmp_from :: "mem \<Rightarrow> mem \<Rightarrow> nat \<Rightarrow> int option" where
  "strcmp_from p q i =
     (if p i \<noteq> 0 \<and> p i = q i then strcmp_from p q (i + 1) else Some (uint (p i) - uint (q i)))"

definition strcmp :: "mem \<Rightarrow> mem \<Rightarrow> int option" where
  "strcmp p q = strcmp_from p q 0"

definition memset_u :: "nat \<Rightarrow> u32 \<Rightarrow> nat \<Rightarrow> mem \<Rightarrow> mem" where
  "memset_u dst c n m = stosb dst (ucast c) n m"

text \<open>\<open>strchr\<close> of a string given by its bytes: the index of the first \<open>c\<close>, never that of the null byte.\<close>

fun strchr :: "u8 list \<Rightarrow> u8 \<Rightarrow> nat option" where
  "strchr [] c = None"
| "strchr (x # s) c = (if x = c then Some 0 else map_option Suc (strchr s c))"

text \<open>
  The loop of \<open>gets\<close> with \<open>i\<close> bytes in the buffer. \<open>input\<close> is what is left to read, one byte at a
  time; at its end \<open>read\<close> answers 0.
\<close>

fun gets_loop :: "nat \<Rightarrow> nat \<Rightarrow> u8 list \<Rightarrow> mem \<Rightarrow> nat \<times> u8 list \<times> mem" where
  "gets_loop 0 i input buf = (i, input, buf)"
| "gets_loop (Suc room) i input buf =
     (case input of [] \<Rightarrow> (i, [], buf)
      | c # input \<Rightarrow>
          if c = 10 \<or> c = 13 then (i + 1, input, buf(i := c))
          else gets_loop room (i + 1) input (buf(i := c)))"

definition gets :: "mem \<Rightarrow> int \<Rightarrow> u8 list \<Rightarrow> u8 list \<times> mem" where
  "gets buf maxlen input =
     (let (i, input, buf) = gets_loop (nat (maxlen - 1)) 0 input buf in (input, buf(i := 0)))"

text \<open>The \<open>int\<close> that \<open>atoi\<close> counts in wraps around.\<close>

partial_function (option) atoi_from :: "mem \<Rightarrow> nat \<Rightarrow> u32 \<Rightarrow> u32 option" where
  "atoi_from s i n =
     (if 48 \<le> s i \<and> s i \<le> 57 then atoi_from s (i + 1) (n * 10 + ucast (s i) - 48) else Some n)"

definition atoi :: "mem \<Rightarrow> u32 option" where
  "atoi s = atoi_from s 0 0"

text \<open>This \<open>memmove\<close> copies upwards only.\<close>

definition memmove_u :: "nat \<Rightarrow> nat \<Rightarrow> int \<Rightarrow> mem \<Rightarrow> mem" where
  "memmove_u dst src n m = copy_up dst src (nat n) m"


subsection \<open>printf.c\<close>

definition digit :: "u32 \<Rightarrow> u8" where
  "digit d = (if d < 10 then 48 + ucast d else 55 + ucast d)"

text \<open>
  The digits are stored in a buffer of 16 bytes, of which \<open>room\<close> are left; the last digit comes
  first.
\<close>

fun print_digits :: "nat \<Rightarrow> u32 \<Rightarrow> u32 \<Rightarrow> u8 list \<Rightarrow> u8 list res" where
  "print_digits 0 x base buf = Inl (Fault ''printint: buf'')"
| "print_digits (Suc room) x base buf =
     (if base = 0 then Inl (Fault ''printint: division by zero'')
      else
        let buf = buf @ [digit (x mod base)];
            x = x div base
        in if x \<noteq> 0 then print_digits room x base buf else Inr buf)"

definition printint :: "u32 \<Rightarrow> u32 \<Rightarrow> bool \<Rightarrow> u8 list res" where
  "printint xx base sg =
     (let neg = sg \<and> sint xx < 0;
          x = (if neg then - xx else xx)
      in bind_res (print_digits 16 x base []) (\<lambda>buf.
         if neg then
           if length buf < 16 then Inr (rev (buf @ [45])) else Inl (Fault ''printint: buf'')
         else Inr (rev buf)))"

text \<open>
  \<open>printf\<close> as a machine over the format: \<open>st\<close> says that a percent sign came before. The
  arguments are the words \<open>ap\<close> of the stack, \<open>str\<close> the bytes of the string at an address.
\<close>

fun printf_loop :: "(u32 \<Rightarrow> u8 list) \<Rightarrow> bool \<Rightarrow> u8 list \<Rightarrow> u32 list \<Rightarrow> u8 list res" where
  "printf_loop str st [] ap = Inr []"
| "printf_loop str st (c # fmt) ap =
     (if \<not> st then
        if c = 37 then printf_loop str True fmt ap
        else bind_res (printf_loop str False fmt ap) (\<lambda>out. Inr (c # out))
      else
        let arg = (case ap of [] \<Rightarrow> Inl (Fault ''printf: arguments'') | a # _ \<Rightarrow> Inr a);
            put = (\<lambda>ap out1. bind_res (printf_loop str False fmt ap) (\<lambda>out. Inr (out1 @ out)))
        in if c = 100 then
             bind_res arg (\<lambda>a. bind_res (printint a 10 True) (put (tl ap)))
           else if c = 120 \<or> c = 112 then
             bind_res arg (\<lambda>a. bind_res (printint a 16 False) (put (tl ap)))
           else if c = 115 then
             bind_res arg (\<lambda>a. put (tl ap) (if a = 0 then [40, 110, 117, 108, 108, 41] else str a))
           else if c = 99 then bind_res arg (\<lambda>a. put (tl ap) [ucast a])
           else if c = 37 then put ap [c]
           else put ap [37, c])"

definition printf :: "(u32 \<Rightarrow> u8 list) \<Rightarrow> u8 list \<Rightarrow> u32 list \<Rightarrow> u8 list res" where
  "printf str fmt ap = printf_loop str False fmt ap"


subsection \<open>wc.c\<close>

record counts =
  wc_l :: nat
  wc_w :: nat
  wc_c :: nat
  wc_inword :: bool

definition wc_spaces :: "u8 list" where "wc_spaces = [32, 13, 9, 10, 11]"

definition wc_byte :: "u8 \<Rightarrow> counts \<Rightarrow> counts" where
  "wc_byte b s =
     (let s = s\<lparr>wc_c := wc_c s + 1\<rparr>;
          s = (if b = 10 then s\<lparr>wc_l := wc_l s + 1\<rparr> else s)
      in if strchr wc_spaces b \<noteq> None then s\<lparr>wc_inword := False\<rparr>
         else if \<not> wc_inword s then s\<lparr>wc_w := wc_w s + 1, wc_inword := True\<rparr>
         else s)"

text \<open>The chunks are what the calls of \<open>read\<close> answer.\<close>

fun wc_loop :: "u8 list list \<Rightarrow> counts \<Rightarrow> counts" where
  "wc_loop [] s = s"
| "wc_loop (buf # bufs) s = (if buf = [] then s else wc_loop bufs (fold wc_byte buf s))"

definition wc :: "u8 list list \<Rightarrow> counts" where
  "wc input = wc_loop input \<lparr>wc_l = 0, wc_w = 0, wc_c = 0, wc_inword = False\<rparr>"


subsection \<open>Numbers\<close>

lemma digit_10:
  assumes "d < 10"
  shows "unat (digit d) = 48 + unat d" "48 \<le> digit d" "digit d \<le> 57"
proof -
  have d: "unat d < 10" using assms by (simp add: word_less_nat_alt)
  then have "unat (ucast d :: u8) = unat d" by (simp add: unsigned_ucast_eq unsigned_take_bit_eq take_bit_nat_eq_self)
  then have "unat (48 + ucast d :: u8) = 48 + unat d" using d by (simp add: unat_word_ariths)
  then show "unat (digit d) = 48 + unat d" "48 \<le> digit d" "digit d \<le> 57"
    using assms d by (simp_all add: digit_def word_le_nat_alt)
qed

abbreviation is_digit :: "u8 \<Rightarrow> bool" where
  "is_digit d \<equiv> 48 \<le> d \<and> d \<le> 57"

definition value_of :: "u8 list \<Rightarrow> nat" where
  "value_of cs = foldl (\<lambda>n d. n * 10 + (unat d - 48)) 0 cs"

lemma value_of_append: "value_of (cs @ [d]) = value_of cs * 10 + (unat d - 48)"
  by (simp add: value_of_def)

lemma print_digits_10:
  assumes "unat x < 10 ^ Suc k" and "k < room"
  shows "\<exists>ds. print_digits room x 10 buf = Inr (buf @ ds) \<and> 0 < length ds \<and> length ds \<le> Suc k
    \<and> (\<forall>d\<in>set ds. is_digit d) \<and> value_of (rev ds) = unat x"
  using assms
proof (induction k arbitrary: x room buf)
  case (0 x room buf)
  then obtain r where r: "room = Suc r" by (cases room) auto
  have x: "x div 10 = 0" "x mod 10 = x" "x < 10"
    using 0 by (simp_all add: word_unat_eq_iff unat_div_distrib unat_mod_distrib word_less_nat_alt)
  then show ?case
    using digit_10 [OF x(3)] by (intro exI [of _ "[digit x]"]) (simp add: r Let_def value_of_def)
next
  case (Suc k x room buf)
  then obtain r where r: "room = Suc r" "k < r" by (cases room) auto
  have m: "x mod 10 < 10" by (simp add: word_less_nat_alt unat_mod_distrib)
  have u: "unat (x mod 10) = unat x mod 10" "unat (x div 10) = unat x div 10"
    by (simp_all add: unat_mod_distrib unat_div_distrib)
  let ?d = "digit (x mod 10)"
  show ?case
  proof (cases "x div 10 = 0")
    case True
    then have "unat x div 10 = 0" using u(2) by simp
    then have "unat x mod 10 = unat x" by simp
    then show ?thesis
      using True digit_10 [OF m] u by (intro exI [of _ "[?d]"]) (simp add: r Let_def value_of_def)
  next
    case False
    have "unat (x div 10) < 10 ^ Suc k" using Suc.prems(1) u(2) by simp
    from Suc.IH [OF this r(2), of "buf @ [?d]"] obtain ds where
      ds: "print_digits r (x div 10) 10 (buf @ [?d]) = Inr ((buf @ [?d]) @ ds)" "length ds \<le> Suc k"
        "\<forall>d\<in>set ds. is_digit d" "value_of (rev ds) = unat (x div 10)" by blast
    then show ?thesis
      using False digit_10 [OF m] u
      by (intro exI [of _ "?d # ds"]) (simp add: r Let_def value_of_append)
  qed
qed

lemma atoi_from_digits:
  assumes "\<forall>j<length cs. s (i + j) = cs ! j" "\<forall>d\<in>set cs. is_digit d" "\<not> is_digit (s (i + length cs))"
  shows "atoi_from s i (of_nat n) = Some (of_nat (foldl (\<lambda>n d. n * 10 + (unat d - 48)) n cs))"
  using assms
proof (induction cs arbitrary: i n)
  case Nil
  then show ?case by (subst atoi_from.simps) auto
next
  case (Cons d cs)
  have d: "s i = d" "is_digit d" using Cons.prems(1,2) by auto
  have "48 \<le> unat d" using d(2) by (simp add: word_le_nat_alt)
  then have e: "(of_nat n * 10 + ucast d - 48 :: u32) = of_nat (n * 10 + (unat d - 48))"
    by (simp add: of_nat_diff)
  have "atoi_from s i (of_nat n) = atoi_from s (i + 1) (of_nat (n * 10 + (unat d - 48)))"
    unfolding e [symmetric] using d by (subst atoi_from.simps) simp
  also have "\<dots> = Some (of_nat (foldl (\<lambda>n d. n * 10 + (unat d - 48)) (n * 10 + (unat d - 48)) cs))"
    using Cons.prems by (intro Cons.IH) (auto simp: nth_Cons' split: if_splits)
  finally show ?case by simp
qed


lemma printint_10:
  assumes "\<not> (sg \<and> sint x < 0)"
  shows "\<exists>cs. printint x 10 sg = Inr cs \<and> 0 < length cs \<and> length cs \<le> 10 \<and> (\<forall>d\<in>set cs. is_digit d)
    \<and> value_of cs = unat x"
proof -
  have "unat x < 10 ^ Suc 9" using unat_less_32 [of x] by simp
  from print_digits_10 [OF this, of 16 "[]"] obtain ds where
    "print_digits 16 x 10 [] = Inr ds" "0 < length ds" "length ds \<le> 10" "\<forall>d\<in>set ds. is_digit d"
    "value_of (rev ds) = unat x" by auto
  then show ?thesis using assms by (intro exI [of _ "rev ds"]) (auto simp: printint_def Let_def)
qed

lemma atoi_digits:
  assumes "\<forall>j<length cs. s j = cs ! j" "\<forall>d\<in>set cs. is_digit d" "\<not> is_digit (s (length cs))"
  shows "atoi s = Some (of_nat (value_of cs))"
  using atoi_from_digits [of cs s 0 0] assms by (simp add: atoi_def value_of_def)


subsection \<open>Words\<close>

definition is_space :: "u8 \<Rightarrow> bool" where
  "is_space b \<longleftrightarrow> b \<in> set wc_spaces"

function words :: "u8 list \<Rightarrow> u8 list list" where
  "words cs = (let r = dropWhile is_space cs in
     if r = [] then [] else takeWhile (\<lambda>b. \<not> is_space b) r # words (dropWhile (\<lambda>b. \<not> is_space b) r))"
  by pat_completeness auto
termination
proof (relation "measure length")
  fix cs r assume r: "r = dropWhile is_space cs" "r \<noteq> ([] :: u8 list)"
  then have "\<not> is_space (hd r)" using hd_dropWhile [of is_space cs] by simp
  then have "length (dropWhile (\<lambda>b. \<not> is_space b) r) < length r"
    using r(2) length_dropWhile_le [of "\<lambda>b. \<not> is_space b" "tl r"] by (cases r) auto
  then show "(dropWhile (\<lambda>b. \<not> is_space b) r, cs) \<in> measure length"
    using length_dropWhile_le [of is_space cs] r(1) by simp
qed simp

declare words.simps [simp del]

lemma words_simps:
  "words [] = []" "is_space b \<Longrightarrow> words (b # cs) = words cs"
  "\<not> is_space b \<Longrightarrow> words (b # cs) = (b # takeWhile (\<lambda>b. \<not> is_space b) cs) # words (dropWhile (\<lambda>b. \<not> is_space b) cs)"
  by (simp_all add: words.simps [of "[]"] words.simps [of "b # cs"] words.simps [of cs] Let_def)

lemma strchr_None: "strchr s c = None \<longleftrightarrow> c \<notin> set s"
  by (induction s) auto

lemma wc_fold:
  "fold wc_byte cs s = \<lparr>wc_l = wc_l s + count_list cs 10,
     wc_w = wc_w s + length (words (if wc_inword s then dropWhile (\<lambda>b. \<not> is_space b) cs else cs)),
     wc_c = wc_c s + length cs, wc_inword = (if cs = [] then wc_inword s else \<not> is_space (last cs))\<rparr>"
proof (induction cs arbitrary: s)
  case (Cons b cs)
  have nl: "is_space 10" by (simp add: is_space_def wc_spaces_def)
  have [simp]: "strchr wc_spaces b = None \<longleftrightarrow> \<not> is_space b" by (simp add: strchr_None is_space_def)
  then have "(\<exists>y. strchr wc_spaces b = Some y) \<longleftrightarrow> is_space b" by (metis not_None_eq)
  then show ?case
    using Cons nl by (auto simp: wc_byte_def Let_def words_simps)
qed (simp add: words_simps)

lemma wc_loop_concat: "\<forall>c\<in>set input. c \<noteq> [] \<Longrightarrow> wc_loop input s = fold wc_byte (concat input) s"
  by (induction input arbitrary: s) auto

lemma wc_spec:
  assumes "\<forall>c\<in>set input. c \<noteq> []"
  shows "wc_l (wc input) = count_list (concat input) 10" "wc_w (wc input) = length (words (concat input))"
    "wc_c (wc input) = length (concat input)"
  unfolding wc_def wc_loop_concat [OF assms] wc_fold by simp_all


subsection \<open>memmove of the user library\<close>

lemma memmove_u_copies:
  assumes "dst \<le> src \<or> src + nat n \<le> dst"
  shows "memmove_u dst src n m = mcopy m src dst (nat n) m"
  by (rule ext) (simp add: memmove_u_def copy_up_eq [OF assms] mcopy_def)

text \<open>Moving an area up by one byte smears its first byte over it.\<close>

lemma memmove_u_smears: "i \<le> n \<Longrightarrow> memmove_u (src + 1) src (int n) m (src + i) = m src"
proof -
  have "copy_up (a + 1) a n m x = (if a < x \<and> x \<le> a + n then m a else m x)" for a x m
    by (induction n arbitrary: a m) auto
  then show "i \<le> n \<Longrightarrow> ?thesis" by (auto simp: memmove_u_def)
qed

end
