(* ===== verification/User_Correct.thy ===== *)
theory User_Correct
  imports Grep Ulib
begin

text \<open>The properties of the user programs.\<close>

text \<open>
  C21: The matcher of grep accepts exactly the texts that contain (or begin with, after ^) a
  word of the pattern, read as a regular expression of characters, . and *, with $ for the
  end.
\<close>

theorem match_is_regex:
  "match re text \<longleftrightarrow>
     (if re \<noteq> [] \<and> hd re = CHR ''^'' then begins (parse_re (tl re)) text
      else \<exists>u v. text = u @ v \<and> begins (parse_re re) v)"
  by (simp add: match_def match_begins(1) match_from_begins)



theorem grep_drops_split_line:
  assumes "NL \<notin> set c" "c \<noteq> []" "length c < GREPBUF"
  shows "grep pattern (c # input) = grep pattern input"
  using grep_forgets [OF assms] by (simp add: grep_def)

theorem grep_drops_split_line_witness:
  "grep ''abc'' [''ab'', ''c'' @ [NL]] = grep ''abc'' [''c'' @ [NL]] \<and> match ''abc'' ''abc'' \<and> \<not> match ''abc'' ''c''"
proof -
  have "grep ''abc'' [''ab'', ''c'' @ [NL]] = grep ''abc'' [''c'' @ [NL]]"
    by (rule grep_drops_split_line) (simp_all add: NL_def GREPBUF_def)
  then show ?thesis by (simp add: match_def matchhere.simps matchstar.simps)
qed



theorem wc_counts:
  assumes "\<forall>c\<in>set input. c \<noteq> []"
  shows "wc_l (wc input) = count_list (concat input) 10 \<and> wc_w (wc input) = length (words (concat input))
    \<and> wc_c (wc input) = length (concat input)"
  using wc_spec [OF assms] by simp

theorem wc_counts_witness: "wc_w (wc [[97, 32], [98, 99, 10]]) = 2 \<and> wc_l (wc [[97, 32], [98, 99, 10]]) = 1"
  using wc_counts [of "[[97, 32], [98, 99, 10]]"] by (simp add: words_simps is_space_def wc_spaces_def)

end
