(* ===== verification/Sysfile.thy ===== *)
theory Sysfile
  imports File
begin

text \<open>
  sysfile.c: the file system calls. Fetching the arguments from user memory is in \<open>Syscall\<close>;
  here an argument is the fetched value, or \<open>None\<close> when fetching it failed. The state adds the
  descriptor table and the working directory of the running process.
\<close>

record sysf =
  y_l :: fls
  y_ofile :: "nat \<Rightarrow> nat option"
  y_cwd :: nat

definition lo :: "(fls \<Rightarrow> fls res) \<Rightarrow> sysf \<Rightarrow> sysf res" where
  "lo op y = bind_res (op (y_l y)) (\<lambda>l. Inr (y\<lparr>y_l := l\<rparr>))"

definition lcall :: "(fls \<Rightarrow> ('a \<times> fls) res) \<Rightarrow> sysf \<Rightarrow> ('a \<times> sysf) res" where
  "lcall op y = bind_res (op (y_l y)) (\<lambda>(r, l). Inr (r, y\<lparr>y_l := l\<rparr>))"

abbreviation fdo :: "(fsys \<Rightarrow> fsys res) \<Rightarrow> sysf \<Rightarrow> sysf res" where
  "fdo op \<equiv> lo (fs_do op)"

abbreviation fcall :: "(fsys \<Rightarrow> ('a \<times> fsys) res) \<Rightarrow> sysf \<Rightarrow> ('a \<times> sysf) res" where
  "fcall op \<equiv> lcall (fs_call op)"

abbreviation inode_of :: "nat \<Rightarrow> sysf \<Rightarrow> inode" where
  "inode_of i y \<equiv> f_icache (l_fs (y_l y)) i"

definition upd_ip :: "nat \<Rightarrow> (inode \<Rightarrow> inode) \<Rightarrow> sysf \<Rightarrow> sysf" where
  "upd_ip i g y = y\<lparr>y_l := (y_l y)\<lparr>l_fs := upd_inode i g (l_fs (y_l y))\<rparr>\<rparr>"


subsection \<open>Descriptors\<close>

definition argfd :: "int option \<Rightarrow> sysf \<Rightarrow> (nat \<times> nat) option" where
  "argfd a y =
     (case a of
        None \<Rightarrow> None
      | Some fd \<Rightarrow>
          if fd < 0 \<or> fd \<ge> 16 then None
          else case y_ofile y (nat fd) of None \<Rightarrow> None | Some f \<Rightarrow> Some (nat fd, f))"

definition fdalloc :: "nat \<Rightarrow> sysf \<Rightarrow> int \<times> sysf" where
  "fdalloc f y =
     (case first_index (\<lambda>fd. y_ofile y fd = None) 16 of
        Some fd \<Rightarrow> (int fd, y\<lparr>y_ofile := (y_ofile y)(fd \<mapsto> f)\<rparr>)
      | None \<Rightarrow> (-1, y))"

definition sys_dup :: "int option \<Rightarrow> sysf \<Rightarrow> (int \<times> sysf) res" where
  "sys_dup a y =
     (case argfd a y of
        None \<Rightarrow> Inr (-1, y)
      | Some (_, f) \<Rightarrow>
          let (fd, y) = fdalloc f y in
          if fd < 0 then Inr (-1, y)
          else bind_res (lcall (filedup f) y) (\<lambda>(_, y). Inr (fd, y)))"

text \<open>\<open>ok\<close> says that \<open>argptr\<close> accepted the user's buffer of \<open>n\<close> bytes.\<close>

definition sys_read :: "int option \<Rightarrow> bool \<Rightarrow> int option \<Rightarrow> sysf \<Rightarrow> (fread \<times> sysf) res" where
  "sys_read a ok n y =
     (case (argfd a y, n) of
        (Some (_, f), Some n) \<Rightarrow> if ok then lcall (fileread f n) y else Inr (FErr, y)
      | _ \<Rightarrow> Inr (FErr, y))"

definition sys_write :: "int option \<Rightarrow> mem option \<Rightarrow> int option \<Rightarrow> sysf \<Rightarrow> (int \<times> sysf) res" where
  "sys_write a p n y =
     (case (argfd a y, n, p) of
        (Some (_, f), Some n, Some p) \<Rightarrow> lcall (filewrite f p n) y
      | _ \<Rightarrow> Inr (-1, y))"

definition sys_pread :: "int option \<Rightarrow> bool \<Rightarrow> int option \<Rightarrow> int option \<Rightarrow> sysf \<Rightarrow> (fread \<times> sysf) res" where
  "sys_pread a ok n off y =
     (case (argfd a y, n, off) of
        (Some (_, f), Some n, Some off) \<Rightarrow> if ok then lcall (filepread f n off) y else Inr (FErr, y)
      | _ \<Rightarrow> Inr (FErr, y))"

definition sys_pwrite :: "int option \<Rightarrow> mem option \<Rightarrow> int option \<Rightarrow> int option \<Rightarrow> sysf \<Rightarrow> (int \<times> sysf) res" where
  "sys_pwrite a p n off y =
     (case (argfd a y, n, p, off) of
        (Some (_, f), Some n, Some p, Some off) \<Rightarrow> lcall (filepwrite f p n off) y
      | _ \<Rightarrow> Inr (-1, y))"

definition sys_close :: "int option \<Rightarrow> sysf \<Rightarrow> (int \<times> sysf) res" where
  "sys_close a y =
     (case argfd a y of
        None \<Rightarrow> Inr (-1, y)
      | Some (fd, f) \<Rightarrow>
          bind_res (lo (fileclose f) (y\<lparr>y_ofile := (y_ofile y)(fd := None)\<rparr>)) (\<lambda>y. Inr (0, y)))"

definition sys_fstat :: "int option \<Rightarrow> bool \<Rightarrow> sysf \<Rightarrow> (stat option \<times> sysf) res" where
  "sys_fstat a ok y =
     (case argfd a y of
        Some (_, f) \<Rightarrow> if ok then lcall (filestat f) y else Inr (None, y)
      | None \<Rightarrow> Inr (None, y))"


subsection \<open>Links\<close>

text \<open>\<open>end_op(); return r;\<close>\<close>

definition finish :: "'a \<Rightarrow> sysf \<Rightarrow> ('a \<times> sysf) res" where
  "finish r y = bind_res (fdo end_op y) (\<lambda>y. Inr (r, y))"

definition link_bad :: "nat \<Rightarrow> sysf \<Rightarrow> (int \<times> sysf) res" where
  "link_bad ip y =
     bind_res (fdo (ilock ip) y) (\<lambda>y.
     bind_res (fdo (iupdate ip) (upd_ip ip (\<lambda>x. x\<lparr>i_nlink := i_nlink x - 1\<rparr>) y)) (\<lambda>y.
     bind_res (fdo (iunlockput ip) y) (\<lambda>y.
     finish (-1) y)))"

definition sys_link :: "u8 list option \<Rightarrow> u8 list option \<Rightarrow> sysf \<Rightarrow> (int \<times> sysf) res" where
  "sys_link old new y =
     (case (old, new) of
        (Some old, Some new) \<Rightarrow>
          bind_res (fdo begin_op y) (\<lambda>y.
          bind_res (fcall (namei (y_cwd y) old) y) (\<lambda>(ip, y).
          case ip of
            None \<Rightarrow> finish (-1) y
          | Some ip \<Rightarrow>
              bind_res (fdo (ilock ip) y) (\<lambda>y.
              if i_type (inode_of ip y) = T_DIR then
                bind_res (fdo (iunlockput ip) y) (finish (-1))
              else
                bind_res (fdo (iupdate ip) (upd_ip ip (\<lambda>x. x\<lparr>i_nlink := i_nlink x + 1\<rparr>) y)) (\<lambda>y.
                bind_res (fdo (iunlock ip) y) (\<lambda>y.
                bind_res (fcall (nameiparent (y_cwd y) new (\<lambda>_. 0)) y) (\<lambda>(r, y).
                case r of
                  None \<Rightarrow> link_bad ip y
                | Some (dp, name) \<Rightarrow>
                    bind_res (fdo (ilock dp) y) (\<lambda>y.
                    if i_dev (inode_of dp y) \<noteq> i_dev (inode_of ip y) then
                      bind_res (fdo (iunlockput dp) y) (link_bad ip)
                    else bind_res (fcall (dirlink dp name (i_inum (inode_of ip y))) y) (\<lambda>(r, y).
                      if r < 0 then bind_res (fdo (iunlockput dp) y) (link_bad ip)
                      else
                        bind_res (fdo (iunlockput dp) y) (\<lambda>y.
                        bind_res (fdo (iput ip) y) (finish 0))))))))))
      | _ \<Rightarrow> Inr (-1, y))"

fun isdirempty_loop :: "nat \<Rightarrow> nat list \<Rightarrow> fsys \<Rightarrow> (bool \<times> fsys) res" where
  "isdirempty_loop dp [] s = Inr (True, s)"
| "isdirempty_loop dp (off # offs) s =
     bind_res (read_dirent ''isdirempty: readi'' dp off s) (\<lambda>(de, s).
     if de_inum de \<noteq> 0 then Inr (False, s) else isdirempty_loop dp offs s)"

definition isdirempty :: "nat \<Rightarrow> fsys \<Rightarrow> (bool \<times> fsys) res" where
  "isdirempty dp s = isdirempty_loop dp (drop 2 (dir_offs (i_size (f_icache s dp)))) s"

definition dot :: mem where "dot = list_mem [46]"
definition dotdot :: mem where "dotdot = list_mem [46, 46]"

definition unlink_bad :: "nat \<Rightarrow> sysf \<Rightarrow> (int \<times> sysf) res" where
  "unlink_bad dp y = bind_res (fdo (iunlockput dp) y) (finish (-1))"

definition sys_unlink :: "u8 list option \<Rightarrow> sysf \<Rightarrow> (int \<times> sysf) res" where
  "sys_unlink path y =
     (case path of
        None \<Rightarrow> Inr (-1, y)
      | Some path \<Rightarrow>
          bind_res (fdo begin_op y) (\<lambda>y.
          bind_res (fcall (nameiparent (y_cwd y) path (\<lambda>_. 0)) y) (\<lambda>(r, y).
          case r of
            None \<Rightarrow> finish (-1) y
          | Some (dp, name) \<Rightarrow>
              bind_res (fdo (ilock dp) y) (\<lambda>y.
              if namecmp name dot = 0 \<or> namecmp name dotdot = 0 then unlink_bad dp y
              else bind_res (fcall (dirlookup dp name) y) (\<lambda>(r, y).
              case r of
                None \<Rightarrow> unlink_bad dp y
              | Some (ip, off) \<Rightarrow>
                  bind_res (fdo (ilock ip) y) (\<lambda>y.
                  if sint (i_nlink (inode_of ip y)) < 1 then Inl (Panic ''unlink: nlink < 1'')
                  else bind_res (if i_type (inode_of ip y) = T_DIR then fcall (isdirempty ip) y
                                 else Inr (True, y)) (\<lambda>(empty, y).
                  if \<not> empty then bind_res (fdo (iunlockput ip) y) (unlink_bad dp)
                  else bind_res (fcall (writei dp (\<lambda>_. 0) (of_nat off) (of_nat DIRENT)) y) (\<lambda>(w, y).
                  if w \<noteq> Io (of_nat DIRENT) then Inl (Panic ''unlink: writei'')
                  else bind_res (if i_type (inode_of ip y) = T_DIR
                       then fdo (iupdate dp) (upd_ip dp (\<lambda>x. x\<lparr>i_nlink := i_nlink x - 1\<rparr>) y)
                       else Inr y) (\<lambda>y.
                  bind_res (fdo (iunlockput dp) y) (\<lambda>y.
                  bind_res (fdo (iupdate ip) (upd_ip ip (\<lambda>x. x\<lparr>i_nlink := i_nlink x - 1\<rparr>) y)) (\<lambda>y.
                  bind_res (fdo (iunlockput ip) y) (finish 0))))))))))))"


subsection \<open>Creating and opening\<close>

definition create :: "u8 list \<Rightarrow> u16 \<Rightarrow> u16 \<Rightarrow> u16 \<Rightarrow> sysf \<Rightarrow> (nat option \<times> sysf) res" where
  "create path type major minor y =
     bind_res (fcall (nameiparent (y_cwd y) path (\<lambda>_. 0)) y) (\<lambda>(r, y).
     case r of
       None \<Rightarrow> Inr (None, y)
     | Some (dp, name) \<Rightarrow>
         bind_res (fdo (ilock dp) y) (\<lambda>y.
         bind_res (fcall (dirlookup dp name) y) (\<lambda>(r, y).
         case r of
           Some (ip, _) \<Rightarrow>
             bind_res (fdo (iunlockput dp) y) (\<lambda>y.
             bind_res (fdo (ilock ip) y) (\<lambda>y.
             if type = T_FILE \<and> i_type (inode_of ip y) = T_FILE then Inr (Some ip, y)
             else bind_res (fdo (iunlockput ip) y) (\<lambda>y. Inr (None, y))))
         | None \<Rightarrow>
             bind_res (fcall (ialloc (i_dev (inode_of dp y)) type) y) (\<lambda>(ip, y).
             bind_res (fdo (ilock ip) y) (\<lambda>y.
             bind_res (fdo (iupdate ip)
               (upd_ip ip (\<lambda>x. x\<lparr>i_major := major, i_minor := minor, i_nlink := 1\<rparr>) y)) (\<lambda>y.
             bind_res (if type = T_DIR then
                 bind_res (fdo (iupdate dp) (upd_ip dp (\<lambda>x. x\<lparr>i_nlink := i_nlink x + 1\<rparr>) y)) (\<lambda>y.
                 bind_res (fcall (dirlink ip dot (i_inum (inode_of ip y))) y) (\<lambda>(r, y).
                 if r < 0 then Inl (Panic ''create dots'')
                 else bind_res (fcall (dirlink ip dotdot (i_inum (inode_of dp y))) y) (\<lambda>(r, y).
                 if r < 0 then Inl (Panic ''create dots'') else Inr y)))
               else Inr y) (\<lambda>y.
             bind_res (fcall (dirlink dp name (i_inum (inode_of ip y))) y) (\<lambda>(r, y).
             if r < 0 then Inl (Panic ''create: dirlink'')
             else bind_res (fdo (iunlockput dp) y) (\<lambda>y. Inr (Some ip, y))))))))))"

definition O_WRONLY :: u32 where "O_WRONLY = 1"
definition O_RDWR :: u32 where "O_RDWR = 2"
definition O_CREATE :: u32 where "O_CREATE = 0x200"

text \<open>The second half of \<open>sys_open\<close>, with the inode locked.\<close>

definition open_inode :: "nat \<Rightarrow> u32 \<Rightarrow> sysf \<Rightarrow> (int \<times> sysf) res" where
  "open_inode ip omode y =
     (let (f, l) = filealloc (y_l y); y = y\<lparr>y_l := l\<rparr> in
      case f of
        None \<Rightarrow> bind_res (fdo (iunlockput ip) y) (finish (-1))
      | Some f \<Rightarrow>
          let (fd, y) = fdalloc f y in
          if fd < 0 then
            bind_res (lo (fileclose f) y) (\<lambda>y.
            bind_res (fdo (iunlockput ip) y) (finish (-1)))
          else
            bind_res (fdo (iunlock ip) y) (\<lambda>y.
            bind_res (fdo end_op y) (\<lambda>y.
            Inr (fd, y\<lparr>y_l := upd_file f (\<lambda>x. x\<lparr>fi_type := FD_INODE, fi_ip := ip, fi_off := 0,
                 fi_readable := (omode AND O_WRONLY = 0),
                 fi_writable := (omode AND O_WRONLY \<noteq> 0 \<or> omode AND O_RDWR \<noteq> 0)\<rparr>) (y_l y)\<rparr>))))"

definition sys_open :: "u8 list option \<Rightarrow> u32 option \<Rightarrow> sysf \<Rightarrow> (int \<times> sysf) res" where
  "sys_open path omode y =
     (case (path, omode) of
        (Some path, Some omode) \<Rightarrow>
          bind_res (fdo begin_op y) (\<lambda>y.
          if omode AND O_CREATE \<noteq> 0 then
            bind_res (create path T_FILE 0 0 y) (\<lambda>(ip, y).
            case ip of None \<Rightarrow> finish (-1) y | Some ip \<Rightarrow> open_inode ip omode y)
          else
            bind_res (fcall (namei (y_cwd y) path) y) (\<lambda>(ip, y).
            case ip of
              None \<Rightarrow> finish (-1) y
            | Some ip \<Rightarrow>
                bind_res (fdo (ilock ip) y) (\<lambda>y.
                if i_type (inode_of ip y) = T_DIR \<and> omode \<noteq> 0 then
                  bind_res (fdo (iunlockput ip) y) (finish (-1))
                else open_inode ip omode y)))
      | _ \<Rightarrow> Inr (-1, y))"

definition make_node :: "u8 list option \<Rightarrow> u16 \<Rightarrow> u16 option \<Rightarrow> u16 option \<Rightarrow> sysf \<Rightarrow> (int \<times> sysf) res" where
  "make_node path type major minor y =
     bind_res (fdo begin_op y) (\<lambda>y.
     case (path, major, minor) of
       (Some path, Some major, Some minor) \<Rightarrow>
         bind_res (create path type major minor y) (\<lambda>(ip, y).
         case ip of
           None \<Rightarrow> finish (-1) y
         | Some ip \<Rightarrow> bind_res (fdo (iunlockput ip) y) (finish 0))
     | _ \<Rightarrow> finish (-1) y)"

definition sys_mkdir :: "u8 list option \<Rightarrow> sysf \<Rightarrow> (int \<times> sysf) res" where
  "sys_mkdir path = make_node path T_DIR (Some 0) (Some 0)"

definition sys_mknod :: "u8 list option \<Rightarrow> u16 option \<Rightarrow> u16 option \<Rightarrow> sysf \<Rightarrow> (int \<times> sysf) res" where
  "sys_mknod path major minor = make_node path T_DEV major minor"

definition sys_chdir :: "u8 list option \<Rightarrow> sysf \<Rightarrow> (int \<times> sysf) res" where
  "sys_chdir path y =
     bind_res (fdo begin_op y) (\<lambda>y.
     case path of
       None \<Rightarrow> finish (-1) y
     | Some path \<Rightarrow>
         bind_res (fcall (namei (y_cwd y) path) y) (\<lambda>(ip, y).
         case ip of
           None \<Rightarrow> finish (-1) y
         | Some ip \<Rightarrow>
             bind_res (fdo (ilock ip) y) (\<lambda>y.
             if i_type (inode_of ip y) \<noteq> T_DIR then bind_res (fdo (iunlockput ip) y) (finish (-1))
             else
               bind_res (fdo (iunlock ip) y) (\<lambda>y.
               bind_res (fdo (iput (y_cwd y)) y) (\<lambda>y.
               bind_res (fdo end_op y) (\<lambda>y.
               Inr (0, y\<lparr>y_cwd := ip\<rparr>)))))))"

text \<open>\<open>ok\<close>: \<open>argptr\<close> accepted the place for the two descriptors, which are the answer.\<close>

definition sys_pipe :: "bool \<Rightarrow> sysf \<Rightarrow> ((int \<times> int) option \<times> sysf) res" where
  "sys_pipe ok y =
     (if \<not> ok then Inr (None, y)
      else bind_res (lcall pipealloc y) (\<lambda>(r, y).
      case r of
        None \<Rightarrow> Inr (None, y)
      | Some (rfile, wfile) \<Rightarrow>
          let (fd0, y) = fdalloc rfile y in
          if fd0 < 0 then
            bind_res (lo (fileclose rfile) y) (\<lambda>y.
            bind_res (lo (fileclose wfile) y) (\<lambda>y. Inr (None, y)))
          else
            let (fd1, y) = fdalloc wfile y in
            if fd1 < 0 then
              let y = y\<lparr>y_ofile := (y_ofile y)(nat fd0 := None)\<rparr> in
              bind_res (lo (fileclose rfile) y) (\<lambda>y.
              bind_res (lo (fileclose wfile) y) (\<lambda>y. Inr (None, y)))
            else Inr (Some (fd0, fd1), y)))"

definition sys_sync :: "sysf \<Rightarrow> (int \<times> sysf) res" where
  "sys_sync y = bind_res (fcall sync y) (\<lambda>(_, y). Inr (0, y))"

definition sys_get_log_num :: "sysf \<Rightarrow> int" where
  "sys_get_log_num y = get_log_num (l_fs (y_l y))"

end
