(* ===== verification/Proc.thy ===== *)
theory Proc
  imports Vm Sched
begin

text \<open>
  proc.c: the life of processes and threads. The state \<open>kern\<close> joins the process table and the
  scheduler (\<open>kst\<close>) with files, file system and memory (\<open>fls\<close>); \<open>me\<close> is the slot of the running
  process, the result of \<open>myproc()\<close>. A routine that gives up the CPU ends there: \<open>Asleep\<close> is a
  call that went to sleep inside its loop, with everything it did before, and \<open>wake_tail\<close>
  followed by the same call resumes it.
\<close>

record kern =
  n_p :: kst
  n_f :: fls

datatype 'a step = Done 'a | Asleep

abbreviation proc_of :: "nat \<Rightarrow> kern \<Rightarrow> proc" where
  "proc_of i n \<equiv> ptable (n_p n) i"

definition on_p :: "(kst \<Rightarrow> kst) \<Rightarrow> kern \<Rightarrow> kern" where
  "on_p g n = n\<lparr>n_p := g (n_p n)\<rparr>"

abbreviation upd_pr :: "nat \<Rightarrow> (proc \<Rightarrow> proc) \<Rightarrow> kern \<Rightarrow> kern" where
  "upd_pr i g \<equiv> on_p (upd_proc i g)"

definition on_mem :: "(kmem \<Rightarrow> ('a \<times> kmem) res) \<Rightarrow> kern \<Rightarrow> ('a \<times> kern) res" where
  "on_mem op n =
     bind_res (op (l_mem (n_f n))) (\<lambda>(r, k). Inr (r, n\<lparr>n_f := (n_f n)\<lparr>l_mem := k\<rparr>\<rparr>))"

definition mem_do :: "(kmem \<Rightarrow> kmem res) \<Rightarrow> kern \<Rightarrow> kern res" where
  "mem_do op n = bind_res (op (l_mem (n_f n))) (\<lambda>k. Inr (n\<lparr>n_f := (n_f n)\<lparr>l_mem := k\<rparr>\<rparr>))"


subsection \<open>Sleeping and waking\<close>

definition wakeup1 :: "chan option \<Rightarrow> kst \<Rightarrow> kst" where
  "wakeup1 c = upd_procs (\<lambda>_ p. p_state p = SLEEPING \<and> p_chan p = c) (\<lambda>p. p\<lparr>p_state := RUNNABLE\<rparr>)"

definition wakeup :: "chan \<Rightarrow> kst \<Rightarrow> kst" where
  "wakeup c = wakeup1 (Some c)"

definition sleep_on :: "chan option \<Rightarrow> nat \<Rightarrow> kst \<Rightarrow> kst" where
  "sleep_on c me = upd_proc me (\<lambda>p. p\<lparr>p_chan := c, p_state := SLEEPING\<rparr>)"

definition wake_tail :: "nat \<Rightarrow> kst \<Rightarrow> kst" where
  "wake_tail me = upd_proc me (\<lambda>p. p\<lparr>p_chan := None\<rparr>)"

text \<open>The wakeups that the file system called for reach the process table.\<close>

definition drain :: "kern \<Rightarrow> kern" where
  "drain n =
     (let l = n_f n; ws = f_wakes (l_fs l) @ l_wakes l
      in n\<lparr>n_p := fold wakeup ws (n_p n), n_f := l\<lparr>l_wakes := [], l_fs := (l_fs l)\<lparr>f_wakes := []\<rparr>\<rparr>\<rparr>)"

text \<open>An operation on files run by process \<open>me\<close>, whose pid owns the sleep locks it takes.\<close>

definition file_do :: "nat \<Rightarrow> (fls \<Rightarrow> fls res) \<Rightarrow> kern \<Rightarrow> kern res" where
  "file_do me op n =
     (let p = proc_of me n; l = n_f n in
      bind_res (op (l\<lparr>l_killed := p_killed p, l_fs := (l_fs l)\<lparr>f_pid := p_pid p\<rparr>\<rparr>)) (\<lambda>l.
      Inr (drain (n\<lparr>n_f := l\<rparr>))))"

definition file_call :: "nat \<Rightarrow> (fls \<Rightarrow> ('a \<times> fls) res) \<Rightarrow> kern \<Rightarrow> ('a \<times> kern) res" where
  "file_call me op n =
     (let p = proc_of me n; l = n_f n in
      bind_res (op (l\<lparr>l_killed := p_killed p, l_fs := (l_fs l)\<lparr>f_pid := p_pid p\<rparr>\<rparr>)) (\<lambda>(r, l).
      Inr (r, drain (n\<lparr>n_f := l\<rparr>))))"

definition kill :: "int \<Rightarrow> kst \<Rightarrow> int \<times> kst" where
  "kill pid s =
     (case first_index (\<lambda>i. p_pid (ptable s i) = pid) NPROC of
        None \<Rightarrow> (-1, s)
      | Some i \<Rightarrow>
          (0, upd_proc i (\<lambda>p. p\<lparr>p_killed := True,
                p_state := if p_state p = SLEEPING then RUNNABLE else p_state p\<rparr>) s))"

definition getppid :: "nat \<Rightarrow> kst \<Rightarrow> int res" where
  "getppid me s =
     bind_res (deref ''getppid: parent'' (p_parent (ptable s me))) (\<lambda>i. Inr (p_pid (ptable s i)))"


subsection \<open>Giving up the CPU\<close>

text \<open>
  \<open>sched\<close> holds \<open>ptable.lock\<close> and nothing else by construction of the callers; the test of the
  state is the one the model can see. \<open>swtch\<close> is the machine's.
\<close>

definition sched :: "nat \<Rightarrow> kst \<Rightarrow> kst res" where
  "sched me s = (if p_state (ptable s me) = RUNNING then Inl (Panic ''sched running'') else Inr s)"

definition yield :: "nat \<Rightarrow> kst \<Rightarrow> kst res" where
  "yield me s = sched me (upd_proc me (\<lambda>p. p\<lparr>p_state := RUNNABLE\<rparr>) s)"

text \<open>\<open>sched_thread\<close> answers the thread that runs next; \<open>switchuvm1\<close> makes the checks of \<open>switchuvm\<close>.\<close>

definition sched_thread :: "nat \<Rightarrow> kst \<Rightarrow> (nat \<times> kst) res" where
  "sched_thread me s =
     (if p_state (ptable s me) = RUNNING then Inl (Panic ''sched_thread running'')
      else bind_res (pick_lwp (p_pid (ptable s me)) s) (\<lambda>(nxt, s).
           bind_res (deref ''sched_thread: next'' nxt) (\<lambda>i.
           let s = upd_proc i (\<lambda>p. p\<lparr>p_state := RUNNING\<rparr>) s in
           if i \<noteq> me then bind_res (switchuvm (Some i) s) (\<lambda>_. Inr (i, s)) else Inr (i, s))))"

definition yield_thread :: "nat \<Rightarrow> kst \<Rightarrow> (nat \<times> kst) res" where
  "yield_thread me s = sched_thread me (upd_proc me (\<lambda>p. p\<lparr>p_state := RUNNABLE\<rparr>) s)"


subsection \<open>Creating a process\<close>

text \<open>
  The trap frame lies on the new kernel stack, whose content the callers overwrite; the saved
  context is the machine's.
\<close>

definition allocproc :: "kern \<Rightarrow> nat option \<times> kern" where
  "allocproc n =
     (case first_index (\<lambda>i. p_state (proc_of i n) = UNUSED) NPROC of
        None \<Rightarrow> (None, n)
      | Some i \<Rightarrow>
          let pid = nextpid (n_p n);
              n = on_p (\<lambda>s. s\<lparr>nextpid := pid + 1\<rparr>) n;
              n = upd_pr i (\<lambda>p. p\<lparr>p_state := EMBRYO, p_pid := pid, p_tid := 1, p_parent := Some i,
                    p_master := Some i, p_stack_size := 0, p_cur := 0, p_base := p_sz p,
                    p_pgdir := 0\<rparr>) n;
              (ks, k) = kalloc (l_mem (n_f n));
              n = n\<lparr>n_f := (n_f n)\<lparr>l_mem := k\<rparr>\<rparr>;
              n = upd_pr i (\<lambda>p. p\<lparr>p_kstack := ks\<rparr>) n
          in if ks = 0 then (None, upd_pr i (\<lambda>p. p\<lparr>p_state := UNUSED\<rparr>) n)
             else
               let n = on_p (\<lambda>s. snd (push_mlfq pid 0 s)) n
               in (Some i, upd_pr i (\<lambda>p. p\<lparr>p_pstride := Some 0, p_schedstate := MLFQ\<rparr>) n))"

definition set_name :: "u8 list \<Rightarrow> proc \<Rightarrow> proc" where
  "set_name src p = p\<lparr>p_name := bytes (safestrcpy (list_mem (p_name p)) (list_mem src) 16) 0 16\<rparr>"

definition init_tables :: "kst \<Rightarrow> kst" where
  "init_tables s = s\<lparr>
     s_table := \<lambda>i. if i < NPROC then (s_table s i)\<lparr>st_isMLFQ := 0, st_state := EMPTY, st_pass := 0,
                                           st_stride := 0, st_pid := 0\<rparr> else s_table s i,
     m_table := \<lambda>q. if q < 3 then
         \<lparr>q_table = \<lambda>i. if i < NPROC then \<lparr>m_state = EMPTY, m_eticks = 0, m_pid = 0, m_prior = q\<rparr>
                        else q_table (m_table s q) i,
          q_count = 0, q_recent = 0\<rparr>
       else m_table s q\<rparr>"

definition init_share :: "kst \<Rightarrow> kst" where
  "init_share s = upd_stride 0 (\<lambda>t. t\<lparr>st_isMLFQ := 1, st_state := USED, st_tickets := 100,
                                     st_stride := stride1 div 100\<rparr>) s"

definition user_tf :: trapframe where
  "user_tf = \<lparr>tf_edi = 0, tf_esi = 0, tf_ebp = 0, tf_ebx = 0, tf_edx = 0, tf_ecx = 0, tf_eax = 0,
     tf_gs = 0, tf_fs = 0, tf_es = 0x23, tf_ds = 0x23, tf_trapno = 0, tf_err = 0, tf_eip = 0,
     tf_cs = 0x1B, tf_eflags = 0x200, tf_esp = of_nat PGSIZE, tf_ss = 0x23\<rparr>"

text \<open>\<open>init\<close> holds the \<open>sz\<close> bytes of initcode.S.\<close>

definition userinit :: "mem \<Rightarrow> u32 \<Rightarrow> kern \<Rightarrow> kern res" where
  "userinit init sz n =
     (let (p, n) = allocproc (on_p init_tables n);
          n = on_p (\<lambda>s. (init_share s)\<lparr>initproc := p\<rparr>) n
      in bind_res (deref ''userinit: p'' p) (\<lambda>i.
         bind_res (on_mem setupkvm n) (\<lambda>(pgdir, n).
         let n = upd_pr i (\<lambda>p. p\<lparr>p_pgdir := pgdir\<rparr>) n in
         if pgdir = 0 then Inl (Panic ''userinit: out of memory?'')
         else bind_res (mem_do (inituvm pgdir init sz) n) (\<lambda>n.
           let n = upd_pr i (\<lambda>p. set_name (map (of_nat \<circ> of_char) ''initcode'')
                      (p\<lparr>p_sz := of_nat PGSIZE, p_tf := user_tf\<rparr>)) n
           in bind_res (file_call i (fs_call (namei 0 [slash])) n) (\<lambda>(cwd, n).
              Inr (upd_pr i (\<lambda>p. p\<lparr>p_cwd := cwd, p_state := RUNNABLE\<rparr>) n))))))"

definition growproc :: "nat \<Rightarrow> int \<Rightarrow> kern \<Rightarrow> (int \<times> kern) res" where
  "growproc me d n =
     bind_res (deref ''growproc: master'' (p_master (proc_of me n))) (\<lambda>m.
     let sz = p_sz (proc_of m n); pgdir = p_pgdir (proc_of m n) in
     bind_res (if d > 0 then on_mem (allocuvm pgdir sz (sz + of_int d)) n
               else if d < 0 then on_mem (deallocuvm pgdir sz (sz + of_int d)) n
               else Inr (sz, n)) (\<lambda>(r, n).
     if d \<noteq> 0 \<and> r = 0 then Inr (-1, n)
     else
       let n = upd_pr m (\<lambda>p. p\<lparr>p_sz := r\<rparr>) n
       in bind_res (switchuvm (Some me) (n_p n)) (\<lambda>_. Inr (0, n))))"

text \<open>Sharing the open files and the working directory of process \<open>src\<close> with the new process \<open>np\<close>.\<close>

definition dup_files :: "nat \<Rightarrow> nat \<Rightarrow> kern \<Rightarrow> kern res" where
  "dup_files src np n =
     bind_res (for_each (\<lambda>fd n.
       case p_ofile (proc_of src n) fd of
         None \<Rightarrow> Inr n
       | Some f \<Rightarrow> bind_res (filedup f (n_f n)) (\<lambda>(f, l).
           Inr (upd_pr np (\<lambda>p. p\<lparr>p_ofile := (p_ofile p)(fd := Some f)\<rparr>) (n\<lparr>n_f := l\<rparr>)))) [0..<NOFILE] n) (\<lambda>n.
     bind_res (deref ''idup: cwd'' (p_cwd (proc_of src n))) (\<lambda>ip.
     let (ip, fs) = idup ip (l_fs (n_f n));
         n = n\<lparr>n_f := (n_f n)\<lparr>l_fs := fs\<rparr>\<rparr>
     in Inr (upd_pr np (\<lambda>p. p\<lparr>p_cwd := Some ip\<rparr>) n)))"

definition fork :: "nat \<Rightarrow> kern \<Rightarrow> (int \<times> kern) res" where
  "fork me n =
     bind_res (deref ''fork: master'' (p_master (proc_of me n))) (\<lambda>m.
     let (np, n) = allocproc n in
     case np of
       None \<Rightarrow> Inr (-1, n)
     | Some c \<Rightarrow>
         bind_res (on_mem (copyuvm (p_pgdir (proc_of m n)) (p_sz (proc_of m n))) n) (\<lambda>(pgdir, n).
         let n = upd_pr c (\<lambda>p. p\<lparr>p_pgdir := pgdir\<rparr>) n in
         if pgdir = 0 then
           bind_res (mem_do (kfree (p_kstack (proc_of c n))) n) (\<lambda>n.
           Inr (-1, upd_pr c (\<lambda>p. p\<lparr>p_kstack := 0, p_state := UNUSED\<rparr>) n))
         else
           let cur = proc_of me n;
               n = upd_pr c (\<lambda>p. p\<lparr>p_sz := p_sz cur, p_parent := Some me,
                                    p_tf := (p_tf cur)\<lparr>tf_eax := 0\<rparr>\<rparr>) n
           in bind_res (dup_files me c n) (\<lambda>n.
              let n = upd_pr c (set_name (p_name (proc_of me n))) n
              in Inr (p_pid (proc_of c n), upd_pr c (\<lambda>p. p\<lparr>p_state := RUNNABLE\<rparr>) n))))"

end
