(* ===== verification/Thread.thy ===== *)
theory Thread
  imports Proc
begin

text \<open>
  proc.c: the end of processes and threads, the threads of project 2, and what \<open>exec\<close> does to
  the other threads of its caller. \<open>delete_thread\<close> frees a slot; \<open>exit\<close> runs as \<open>exit_files\<close>,
  \<open>exit_start\<close>, \<open>exit_reap\<close> once per wakeup until no thread is left, and \<open>exit_end\<close>.
\<close>

subsection \<open>Freeing a slot\<close>

definition drop_node :: "nat \<times> nat \<Rightarrow> kst \<Rightarrow> kst" where
  "drop_node = (\<lambda>(q, i). upd_node q i (\<lambda>m. m\<lparr>m_state := EMPTY, m_pid := 0\<rparr>))"

definition drop_share :: "nat \<Rightarrow> kst \<Rightarrow> kst res" where
  "drop_share k s =
     (let t0 = st_tickets (s_table s 0) + st_tickets (s_table s k) in
      if t0 = 0 then Inl (Fault ''delete_thread: division by zero'')
      else
        let s = upd_stride 0 (\<lambda>t. t\<lparr>st_tickets := t0, st_stride := stride1 div t0\<rparr>) s
        in Inr (upd_stride k (\<lambda>t. t\<lparr>st_state := EMPTY, st_tickets := 0, st_pass := 0,
                                    st_stride := 0, st_pid := 0\<rparr>) s))"

definition drop_sched :: "nat \<Rightarrow> kst \<Rightarrow> kst res" where
  "drop_sched i s =
     (let p = ptable s i in
      if p_schedstate p = MLFQ then
        bind_res (deref ''delete_thread: pmlfq_node'' (p_mlfq p)) (\<lambda>qi. Inr (drop_node qi s))
      else if p_schedstate p = STRIDE then
        bind_res (deref ''delete_thread: pstride'' (p_pstride p)) (\<lambda>k. drop_share k s)
      else Inr s)"

text \<open>
  For a master thread the page directory is freed before \<open>deallocuvm\<close> walks it. The base of
  the thread's stack goes back to the master, whose array holds \<open>NPROC\<close> of them.
\<close>

definition delete_thread :: "nat \<Rightarrow> kern \<Rightarrow> kern res" where
  "delete_thread i n =
     (let master = find_master (p_pid (proc_of i n)) (n_p n) in
      bind_res (if p_tid (proc_of i n) = 1 then
          bind_res (drop_sched i (n_p n)) (\<lambda>s.
          let n = upd_pr i (\<lambda>p. p\<lparr>p_schedstate := MLFQ, p_pstride := None, p_mlfq := None,
                                 p_stack_size := 0\<rparr>) (n\<lparr>n_p := s\<rparr>)
          in mem_do (freevm (p_pgdir (proc_of i n))) n)
        else Inr n) (\<lambda>n.
      bind_res (mem_do (kfree (p_kstack (proc_of i n))) n) (\<lambda>n.
      let n = upd_pr i (\<lambda>p. p\<lparr>p_kstack := 0, p_master := None, p_pid := 0, p_tid := 0,
                 p_parent := None, p_name := (p_name p)[0 := 0], p_killed := False,
                 p_state := UNUSED\<rparr>) n
      in bind_res (deref ''delete_thread: master_thread'' master) (\<lambda>m.
         let k = p_stack_size (proc_of m n) in
         if k < 0 \<or> k \<ge> int NPROC then Inl (Fault ''delete_thread: stack overrun'')
         else
           let n = upd_pr m (\<lambda>p. p\<lparr>p_stack := (p_stack p)(nat k := p_base (proc_of i n)),
                                   p_stack_size := k + 1\<rparr>) n
           in bind_res (on_mem (deallocuvm (p_pgdir (proc_of i n)) (p_sz (proc_of i n))
                                   (p_base (proc_of i n))) n) (\<lambda>(_, n).
              Inr (upd_pr i (\<lambda>p. p\<lparr>p_sz := 0, p_base := 0\<rparr>) n))))))"


subsection \<open>Exit\<close>

text \<open>Closing the open files and dropping the working directory, as \<open>exit\<close> and \<open>thread_exit\<close> do.\<close>

definition exit_files :: "nat \<Rightarrow> kern \<Rightarrow> kern res" where
  "exit_files me n =
     bind_res (for_each (\<lambda>fd n.
       case p_ofile (proc_of me n) fd of
         None \<Rightarrow> Inr n
       | Some f \<Rightarrow> bind_res (file_do me (fileclose f) n) (\<lambda>n.
           Inr (upd_pr me (\<lambda>p. p\<lparr>p_ofile := (p_ofile p)(fd := None)\<rparr>) n))) [0..<NOFILE] n) (\<lambda>n.
     bind_res (deref ''iput: cwd'' (p_cwd (proc_of me n))) (\<lambda>ip.
     bind_res (file_do me (\<lambda>l. bind_res (fs_do begin_op l) (\<lambda>l.
                 bind_res (fs_do (iput ip) l) (fs_do end_op))) n) (\<lambda>n.
     Inr (upd_pr me (\<lambda>p. p\<lparr>p_cwd := None\<rparr>) n))))"

text \<open>The loop that hands children to init: \<open>c\<close> is its condition.\<close>

definition reparent :: "(nat \<Rightarrow> proc \<Rightarrow> bool) \<Rightarrow> kst \<Rightarrow> kst" where
  "reparent c s =
     fold (\<lambda>i s. if c i (ptable s i) then
         let s = upd_proc i (\<lambda>p. p\<lparr>p_parent := initproc s\<rparr>) s in
         if p_state (ptable s i) = ZOMBIE then wakeup1 (map_option ChProc (initproc s)) s else s
       else s) [0..<NPROC] s"

definition exit_start :: "nat \<Rightarrow> kst \<Rightarrow> kst res" where
  "exit_start me s =
     (let p = ptable s me in
      bind_res (if p_tid p \<noteq> 1 then
          bind_res (deref ''exit: master'' (p_master p)) (\<lambda>m.
          Inr (wakeup1 (Some (ChProc m)) (upd_proc m (\<lambda>p. p\<lparr>p_killed := True\<rparr>) s)))
        else Inr s) (\<lambda>s.
      Inr (reparent (\<lambda>i q. p_pid q \<noteq> p_pid p \<and> p_parent q = p_master p) s)))"

text \<open>One pass of the master over its threads; \<open>kids\<close> counts those it has to wait for.\<close>

definition exit_scan :: "nat \<Rightarrow> kern \<Rightarrow> (nat \<times> kern) res" where
  "exit_scan me n =
     for_each (\<lambda>i (kids, n).
       let p = proc_of i n in
       if p_master p \<noteq> p_master (proc_of me n) \<or> i = me then Inr (kids, n)
       else if p_state p = ZOMBIE then bind_res (delete_thread i n) (\<lambda>n. Inr (kids, n))
       else if p_state p \<noteq> UNUSED then
         Inr (kids + 1, on_p (wakeup1 (Some (ChProc i))) (upd_pr i (\<lambda>p. p\<lparr>p_killed := True\<rparr>) n))
       else Inr (kids, n)) [0..<NPROC] (0, n)"

definition exit_reap :: "nat \<Rightarrow> kern \<Rightarrow> (unit step \<times> kern) res" where
  "exit_reap me n =
     (if p_tid (proc_of me n) \<noteq> 1 then Inr (Done (), n)
      else bind_res (exit_scan me n) (\<lambda>(kids, n).
        if kids \<noteq> 0 then
          bind_res (sched me (sleep_on (Some (ChProc me)) me (n_p n))) (\<lambda>s. Inr (Asleep, n\<lparr>n_p := s\<rparr>))
        else Inr (Done (), n)))"

definition exit_end :: "nat \<Rightarrow> kst \<Rightarrow> kst res" where
  "exit_end me s =
     (let s = upd_proc me (\<lambda>p. p\<lparr>p_state := ZOMBIE\<rparr>) s;
          s = wakeup1 (map_option ChProc (p_parent (ptable s me))) s;
          s = wakeup1 (map_option ChProc (p_master (ptable s me))) s
      in sched me s)"

text \<open>The call up to its first sleep or to its end.\<close>

definition exit :: "nat \<Rightarrow> kern \<Rightarrow> (unit step \<times> kern) res" where
  "exit me n =
     (if Some me = initproc (n_p n) then Inl (Panic ''init exiting'')
      else bind_res (exit_files me n) (\<lambda>n.
        bind_res (exit_start me (n_p n)) (\<lambda>s.
        bind_res (exit_reap me (n\<lparr>n_p := s\<rparr>)) (\<lambda>(r, n).
        case r of
          Asleep \<Rightarrow> Inr (Asleep, n)
        | Done _ \<Rightarrow> bind_res (exit_end me (n_p n)) (\<lambda>s. Inr (Done (), n\<lparr>n_p := s\<rparr>))))))"

text \<open>What \<open>exit\<close> does when it is woken up in its loop.\<close>

definition exit_resume :: "nat \<Rightarrow> kern \<Rightarrow> (unit step \<times> kern) res" where
  "exit_resume me n =
     bind_res (exit_reap me (on_p (wake_tail me) n)) (\<lambda>(r, n).
     case r of
       Asleep \<Rightarrow> Inr (Asleep, n)
     | Done _ \<Rightarrow> bind_res (exit_end me (n_p n)) (\<lambda>s. Inr (Done (), n\<lparr>n_p := s\<rparr>)))"


subsection \<open>Wait\<close>

definition wait :: "nat \<Rightarrow> kern \<Rightarrow> (int step \<times> kern) res" where
  "wait me n =
     (let child = (\<lambda>i. p_parent (proc_of i n) = Some me) in
      case first_index (\<lambda>i. child i \<and> p_state (proc_of i n) = ZOMBIE) NPROC of
        Some i \<Rightarrow>
          bind_res (delete_thread i n) (\<lambda>n'. Inr (Done (p_pid (proc_of i n)), n'))
      | None \<Rightarrow>
          if first_index child NPROC = None \<or> p_killed (proc_of me n) then Inr (Done (-1), n)
          else
            let s = wakeup1 (map_option ChProc (p_parent (proc_of me n))) (n_p n)
            in bind_res (sched me (sleep_on (Some (ChProc me)) me s)) (\<lambda>s. Inr (Asleep, n\<lparr>n_p := s\<rparr>)))"


subsection \<open>Threads\<close>

definition next_tid :: "int \<Rightarrow> kst \<Rightarrow> int" where
  "next_tid pid s =
     fold (\<lambda>i t. if p_pid (ptable s i) = pid \<and> p_tid (ptable s i) > t then p_tid (ptable s i) else t)
       [0..<NPROC] 1 + 1"

text \<open>
  The base of the user stack: one a finished thread left, or the end of the process. A failed
  \<open>allocuvm\<close> or \<open>copyout\<close> frees the slot only: the kernel stack is not freed, and after
  \<open>allocuvm\<close> the base is not given back.
\<close>

definition take_base :: "nat \<Rightarrow> kern \<Rightarrow> (u32 \<times> kern) res" where
  "take_base m n =
     (let p = proc_of m n in
      if p_stack_size p > 0 then
        if p_stack_size p > int NPROC then Inl (Fault ''thread_create: stack overrun'')
        else
          let k = nat (p_stack_size p - 1)
          in Inr (p_stack p k, upd_pr m (\<lambda>p. p\<lparr>p_stack_size := p_stack_size p - 1\<rparr>) n)
      else Inr (p_sz p, upd_pr m (\<lambda>p. p\<lparr>p_sz := p_sz p + 2 * of_nat PGSIZE\<rparr>) n))"

definition give_base :: "nat \<Rightarrow> u32 \<Rightarrow> kern \<Rightarrow> kern res" where
  "give_base m base n =
     (let k = p_stack_size (proc_of m n) in
      if k < 0 \<or> k \<ge> int NPROC then Inl (Fault ''thread_create: stack overrun'')
      else Inr (upd_pr m (\<lambda>p. p\<lparr>p_stack := (p_stack p)(nat k := base), p_stack_size := k + 1\<rparr>) n))"

definition start_thread :: "nat \<Rightarrow> nat \<Rightarrow> nat \<Rightarrow> int \<Rightarrow> u32 \<Rightarrow> u32 \<Rightarrow> u32 \<Rightarrow> kern \<Rightarrow> kern res" where
  "start_thread me m t tid base sz start n =
     bind_res (dup_files m t n) (\<lambda>n.
     let mp = proc_of m n; pid = p_pid (proc_of me n) in
     Inr (upd_pr t (\<lambda>p. (set_name (p_name mp) p)
       \<lparr>p_tid := tid, p_pid := pid, p_base := base, p_pgdir := p_pgdir mp, p_sz := sz,
        p_parent := Some me, p_master := Some m,
        p_tf := (p_tf mp)\<lparr>tf_eip := start, tf_esp := sz - 8, tf_eax := 0\<rparr>,
        p_schedstate := p_schedstate mp, p_pstride := p_pstride mp, p_mlfq := p_mlfq mp,
        p_state := RUNNABLE\<rparr>) n))"

text \<open>\<open>thread_create\<close> answers its result and the number it stores through \<open>thread\<close>.\<close>

definition thread_create :: "nat \<Rightarrow> u32 \<Rightarrow> u32 \<Rightarrow> kern \<Rightarrow> ((int \<times> int option) \<times> kern) res" where
  "thread_create me start arg n =
     bind_res (deref ''thread_create: master'' (p_master (proc_of me n))) (\<lambda>m.
     let tid = next_tid (p_pid (proc_of me n)) (n_p n);
         (np, n) = allocproc n
     in case np of
       None \<Rightarrow> Inl (Panic ''alloc'')
     | Some t \<Rightarrow>
         bind_res (deref ''thread_create: pmlfq_node'' (p_mlfq (proc_of t n))) (\<lambda>(q, j).
         let n = on_p (upd_node q j (\<lambda>m. m\<lparr>m_pid := 0, m_state := EMPTY, m_eticks := 0\<rparr>)) n in
         bind_res (take_base m n) (\<lambda>(base, n).
         let pgdir = p_pgdir (proc_of m n) in
         bind_res (on_mem (allocuvm pgdir base (base + 2 * of_nat PGSIZE)) n) (\<lambda>(sz, n).
         if sz = 0 then Inr ((-1, None), upd_pr t (\<lambda>p. p\<lparr>p_state := UNUSED\<rparr>) n)
         else bind_res (mem_do (clearpteu pgdir (sz - 2 * of_nat PGSIZE)) n) (\<lambda>n.
           bind_res (on_mem (copyout pgdir (sz - 8) (put32 0 0xffffffff (put32 4 arg (\<lambda>_. 0))) 0 8) n)
             (\<lambda>(r, n).
           if r < 0 then
             bind_res (on_mem (deallocuvm pgdir (base + 2 * of_nat PGSIZE) base) n) (\<lambda>(_, n).
             bind_res (give_base m base n) (\<lambda>n.
             Inr ((-1, None), upd_pr t (\<lambda>p. p\<lparr>p_state := UNUSED\<rparr>) n)))
           else bind_res (start_thread me m t tid base sz start n) (\<lambda>n.
             Inr ((0, Some tid), n))))))))"

definition thread_exit :: "nat \<Rightarrow> u32 \<Rightarrow> kern \<Rightarrow> kern res" where
  "thread_exit me retval n =
     bind_res (exit_files me n) (\<lambda>n.
     let s = upd_proc me (\<lambda>p. p\<lparr>p_retVal := retval\<rparr>) (n_p n);
         s = wakeup1 (map_option ChProc (p_master (ptable s me))) s;
         s = reparent (\<lambda>i q. p_parent q = Some me \<or> p_master q = Some me) s;
         s = upd_proc me (\<lambda>p. p\<lparr>p_state := ZOMBIE\<rparr>) s
     in bind_res (sched me s) (\<lambda>s. Inr (n\<lparr>n_p := s\<rparr>)))"

definition thread_join :: "nat \<Rightarrow> int \<Rightarrow> kern \<Rightarrow> ((int \<times> u32 option) step \<times> kern) res" where
  "thread_join me tid n =
     (if p_tid (proc_of me n) \<noteq> 1 then Inr (Done (-1, None), n)
      else
        let slot = (\<lambda>i. p_pid (proc_of i n) = p_pid (proc_of me n) \<and> p_tid (proc_of i n) = tid) in
        case first_index (\<lambda>i. slot i \<and> p_state (proc_of i n) = ZOMBIE) NPROC of
          Some i \<Rightarrow>
            bind_res (delete_thread i n) (\<lambda>n'. Inr (Done (0, Some (p_retVal (proc_of i n))), n'))
        | None \<Rightarrow>
            if first_index slot NPROC = None \<or> p_killed (proc_of me n) then Inr (Done (-1, None), n)
            else bind_res (sched me (sleep_on (map_option ChProc (p_master (proc_of me n))) me (n_p n)))
                   (\<lambda>s. Inr (Asleep, n\<lparr>n_p := s\<rparr>)))"


subsection \<open>Threads and exec\<close>

definition exec_delete_thread :: "nat \<Rightarrow> kst \<Rightarrow> kst" where
  "exec_delete_thread cur s =
     (let s = upd_procs (\<lambda>i p. p_master p = p_master (ptable s cur) \<and> i \<noteq> cur)
                (\<lambda>p. p\<lparr>p_killed := True,
                      p_state := if p_state p = SLEEPING then RUNNABLE else p_state p\<rparr>) s;
          pid = nextpid s;
          s = upd_proc cur (\<lambda>p. p\<lparr>p_schedstate := USED, p_mlfq := None, p_pstride := None, p_pid := pid,
                 p_tid := 1, p_parent := initproc s, p_master := Some cur\<rparr>) (s\<lparr>nextpid := pid + 1\<rparr>)
      in snd (push_mlfq pid 0 s))"

end
