(* ===== verification/Exec.thy ===== *)
theory Exec
  imports Thread
begin

text \<open>
  exec.c: replacing the image of the running process by an ELF file. A path and the argument
  strings are byte lists without their final 0. The label \<open>bad\<close> is \<open>exec_bad\<close>.
\<close>

definition MAXARG :: nat where "MAXARG = 32"
definition ELF_MAGIC :: u32 where "ELF_MAGIC = 0x464C457F"
definition ELFHDR :: nat where "ELFHDR = 52"
definition PROGHDR :: nat where "PROGHDR = 32"

record elfhdr =
  eh_magic :: u32
  eh_entry :: u32
  eh_phoff :: u32
  eh_phnum :: u16

record proghdr =
  ph_type :: u32
  ph_off :: u32
  ph_vaddr :: u32
  ph_filesz :: u32
  ph_memsz :: u32

definition get_elfhdr :: "u8 list \<Rightarrow> elfhdr" where
  "get_elfhdr cs = (let m = list_mem cs in
     \<lparr>eh_magic = get32 m 0, eh_entry = get32 m 24, eh_phoff = get32 m 28, eh_phnum = get16 m 44\<rparr>)"

definition get_proghdr :: "u8 list \<Rightarrow> proghdr" where
  "get_proghdr cs = (let m = list_mem cs in
     \<lparr>ph_type = get32 m 0, ph_off = get32 m 4, ph_vaddr = get32 m 8, ph_filesz = get32 m 16,
      ph_memsz = get32 m 20\<rparr>)"

text \<open>\<open>readi(...) != sizeof(...)\<close> is \<open>None\<close>.\<close>

definition read_exact :: "nat \<Rightarrow> nat \<Rightarrow> u32 \<Rightarrow> nat \<Rightarrow> kern \<Rightarrow> (u8 list option \<times> kern) res" where
  "read_exact me ip off len n =
     bind_res (file_call me (fs_call (readi ip off (of_nat len))) n) (\<lambda>(r, n).
     Inr (case r of Io cs \<Rightarrow> if length cs = len then Some cs else None | _ \<Rightarrow> None, n))"

definition exec_bad :: "nat \<Rightarrow> nat option \<Rightarrow> u32 \<Rightarrow> kern \<Rightarrow> (int \<times> kern) res" where
  "exec_bad me ip pgdir n =
     bind_res (if pgdir \<noteq> 0 then mem_do (freevm pgdir) n else Inr n) (\<lambda>n.
     bind_res (case ip of
         Some i \<Rightarrow> file_do me (\<lambda>l. bind_res (fs_do (iunlockput i) l) (fs_do end_op)) n
       | None \<Rightarrow> Inr n) (\<lambda>n.
     Inr (-1, n)))"


subsection \<open>The segments\<close>

text \<open>\<open>None\<close> is \<open>goto bad\<close>.\<close>

definition exec_segment :: "nat \<Rightarrow> nat \<Rightarrow> u32 \<Rightarrow> proghdr \<Rightarrow> u32 \<Rightarrow> kern \<Rightarrow> (u32 option \<times> kern) res" where
  "exec_segment me ip pgdir ph sz n =
     (if ph_type ph \<noteq> 1 then Inr (Some sz, n)
      else if ph_memsz ph < ph_filesz ph then Inr (None, n)
      else if ph_vaddr ph + ph_memsz ph < ph_vaddr ph then Inr (None, n)
      else bind_res (on_mem (allocuvm pgdir sz (ph_vaddr ph + ph_memsz ph)) n) (\<lambda>(sz, n).
        if sz = 0 then Inr (None, n)
        else if unat (ph_vaddr ph) mod PGSIZE \<noteq> 0 then Inr (None, n)
        else bind_res (file_call me (loaduvm pgdir (ph_vaddr ph) ip (ph_off ph) (ph_filesz ph)) n) (\<lambda>(r, n).
             Inr (if r < 0 then None else Some sz, n))))"

fun exec_load :: "nat \<Rightarrow> nat \<Rightarrow> u32 \<Rightarrow> nat \<Rightarrow> u32 \<Rightarrow> u32 \<Rightarrow> kern \<Rightarrow> (u32 option \<times> kern) res" where
  "exec_load me ip pgdir 0 off sz n = Inr (Some sz, n)"
| "exec_load me ip pgdir (Suc k) off sz n =
     bind_res (read_exact me ip off PROGHDR n) (\<lambda>(r, n).
     case r of
       None \<Rightarrow> Inr (None, n)
     | Some cs \<Rightarrow>
         bind_res (exec_segment me ip pgdir (get_proghdr cs) sz n) (\<lambda>(r, n).
         case r of
           None \<Rightarrow> Inr (None, n)
         | Some sz \<Rightarrow> exec_load me ip pgdir k (off + of_nat PROGHDR) sz n))"


subsection \<open>The stack\<close>

fun push_args :: "u32 \<Rightarrow> u8 list list \<Rightarrow> nat \<Rightarrow> u32 \<Rightarrow> u32 list \<Rightarrow> kmem \<Rightarrow> ((u32 \<times> u32 list) option \<times> kmem) res" where
  "push_args pgdir [] argc sp us k = Inr (Some (sp, us), k)"
| "push_args pgdir (s # ss) argc sp us k =
     (if argc \<ge> MAXARG then Inr (None, k)
      else
        let sp = (sp - of_nat (length s + 1)) AND NOT 3
        in bind_res (copyout pgdir sp (list_mem (s @ [0])) 0 (length s + 1) k) (\<lambda>(r, k).
           if r < 0 then Inr (None, k) else push_args pgdir ss (argc + 1) sp (us @ [sp]) k))"

definition words_mem :: "u32 list \<Rightarrow> mem" where
  "words_mem ws = fold (\<lambda>i. put32 (4 * i) (ws ! i)) [0..<length ws] (\<lambda>_. 0)"

definition exec_stack :: "u32 \<Rightarrow> u32 \<Rightarrow> u8 list list \<Rightarrow> kmem \<Rightarrow> (u32 option \<times> kmem) res" where
  "exec_stack pgdir sz argv k =
     bind_res (push_args pgdir argv 0 sz [] k) (\<lambda>(r, k).
     case r of
       None \<Rightarrow> Inr (None, k)
     | Some (sp, us) \<Rightarrow>
         let argc = length us;
             ustack = [0xffffffff, of_nat argc, sp - of_nat ((argc + 1) * 4)] @ us @ [0];
             sp = sp - of_nat ((3 + argc + 1) * 4)
         in bind_res (copyout pgdir sp (words_mem ustack) 0 ((3 + argc + 1) * 4) k) (\<lambda>(r, k).
            Inr (if r < 0 then None else Some sp, k)))"


subsection \<open>exec\<close>

text \<open>The last element of the path, kept as the name of the process.\<close>

definition exec_name :: "u8 list \<Rightarrow> u8 list" where
  "exec_name path = rev (takeWhile (\<lambda>c. c \<noteq> slash) (rev path))"

definition exec_commit :: "nat \<Rightarrow> bool \<Rightarrow> u8 list \<Rightarrow> u32 \<Rightarrow> u32 \<Rightarrow> u32 \<Rightarrow> u32 \<Rightarrow> kern \<Rightarrow> (int \<times> kern) res" where
  "exec_commit me is_master path pgdir sz entry sp n =
     (let oldpgdir = p_pgdir (proc_of me n);
          n = upd_pr me (\<lambda>p. (set_name (exec_name path) p)
                \<lparr>p_pgdir := pgdir, p_sz := sz, p_tf := (p_tf p)\<lparr>tf_eip := entry, tf_esp := sp\<rparr>\<rparr>) n
      in bind_res (switchuvm (Some me) (n_p n)) (\<lambda>_.
         bind_res (if is_master then mem_do (freevm oldpgdir) n else Inr n) (\<lambda>n.
         Inr (0, upd_pr me (\<lambda>p. if p_state p = SLEEPING then p\<lparr>p_state := RUNNABLE\<rparr> else p) n))))"

text \<open>The part of \<open>exec\<close> after the file has been closed.\<close>

definition exec_image :: "nat \<Rightarrow> bool \<Rightarrow> u8 list \<Rightarrow> u8 list list \<Rightarrow> u32 \<Rightarrow> u32 \<Rightarrow> u32 \<Rightarrow> kern \<Rightarrow> (int \<times> kern) res" where
  "exec_image me is_master path argv pgdir sz entry n =
     (let sz = PGROUNDUP sz in
      bind_res (on_mem (allocuvm pgdir sz (sz + 2 * of_nat PGSIZE)) n) (\<lambda>(sz, n).
      if sz = 0 then exec_bad me None pgdir n
      else bind_res (mem_do (clearpteu pgdir (sz - 2 * of_nat PGSIZE)) n) (\<lambda>n.
        bind_res (on_mem (exec_stack pgdir sz argv) n) (\<lambda>(r, n).
        case r of
          None \<Rightarrow> exec_bad me None pgdir n
        | Some sp \<Rightarrow> exec_commit me is_master path pgdir sz entry sp n))))"

definition exec_file :: "nat \<Rightarrow> bool \<Rightarrow> u8 list \<Rightarrow> u8 list list \<Rightarrow> nat \<Rightarrow> kern \<Rightarrow> (int \<times> kern) res" where
  "exec_file me is_master path argv ip n =
     bind_res (read_exact me ip 0 ELFHDR n) (\<lambda>(r, n).
     case r of
       None \<Rightarrow> exec_bad me (Some ip) 0 n
     | Some cs \<Rightarrow>
         let elf = get_elfhdr cs in
         if eh_magic elf \<noteq> ELF_MAGIC then exec_bad me (Some ip) 0 n
         else bind_res (on_mem setupkvm n) (\<lambda>(pgdir, n).
           if pgdir = 0 then exec_bad me (Some ip) 0 n
           else bind_res (exec_load me ip pgdir (unat (eh_phnum elf)) (eh_phoff elf) 0 n) (\<lambda>(r, n).
             case r of
               None \<Rightarrow> exec_bad me (Some ip) pgdir n
             | Some sz \<Rightarrow>
                 bind_res (file_do me (\<lambda>l. bind_res (fs_do (iunlockput ip) l) (fs_do end_op)) n) (\<lambda>n.
                 exec_image me is_master path argv pgdir sz (eh_entry elf) n))))"

text \<open>\<open>namei\<close> follows \<open>myproc()->cwd\<close> for a relative path only.\<close>

definition start_dir :: "nat \<Rightarrow> u8 list \<Rightarrow> kern \<Rightarrow> nat res" where
  "start_dir me path n =
     (if path \<noteq> [] \<and> hd path = slash then Inr 0 else deref ''idup: cwd'' (p_cwd (proc_of me n)))"

definition exec :: "nat \<Rightarrow> u8 list \<Rightarrow> u8 list list \<Rightarrow> kern \<Rightarrow> (int \<times> kern) res" where
  "exec me path argv n =
     (let is_master = (p_tid (proc_of me n) = 1);
          n = (if is_master then n else on_p (exec_delete_thread me) n)
      in bind_res (start_dir me path n) (\<lambda>cwd.
         bind_res (file_call me (\<lambda>l. bind_res (fs_do begin_op l) (fs_call (namei cwd path))) n) (\<lambda>(r, n).
         case r of
           None \<Rightarrow> bind_res (file_do me (fs_do end_op) n) (\<lambda>n. Inr (-1, n))
         | Some ip \<Rightarrow>
             bind_res (file_do me (fs_do (ilock ip)) n) (\<lambda>n.
             exec_file me is_master path argv ip n))))"

end
