(* ===== verification/Console.thy ===== *)
theory Console
  imports Pipe
begin

text \<open>
  console.c: the screen, the input buffer with its line editing, and \<open>consoleread\<close>. The state
  holds the ring of 128 characters with its read, write and edit counters (32 bits wide, they
  wrap around), the text memory of the screen with the cursor registers, and the bytes sent to
  the serial port. The lock is the caller's; \<open>panic\<close> stops the kernel, so nothing is put on
  the screen after it. The second part relates the buffer to two lists, the committed input
  and the line being edited.
\<close>

definition INPUT_BUF :: nat where "INPUT_BUF = 128"
definition BACKSPACE :: int where "BACKSPACE = 0x100"

record console =
  co_buf :: mem
  co_r :: u32
  co_w :: u32
  co_e :: u32
  co_crt :: "nat \<Rightarrow> u16"
  co_pos :: int
  co_uart :: "u8 list"

text \<open>\<open>C(x)\<close>\<close>

definition ctrl :: "char \<Rightarrow> u8" where "ctrl x = of_nat (of_char x - 64)"


subsection \<open>The screen\<close>

definition scroll :: "int \<Rightarrow> (nat \<Rightarrow> u16) \<Rightarrow> (nat \<Rightarrow> u16)" where
  "scroll pos crt = (\<lambda>i. if nat pos \<le> i \<and> i < 24 * 80 then 0
                        else if i < 23 * 80 then crt (i + 80) else crt i)"

definition cgaputc :: "int \<Rightarrow> console \<Rightarrow> console res" where
  "cgaputc c s =
     (let pos = co_pos s;
          (pos, crt) =
            (if c = 10 then (pos + (80 - pos mod 80), co_crt s)
             else if c = BACKSPACE then (if pos > 0 then pos - 1 else pos, co_crt s)
             else (pos + 1, (co_crt s)(nat pos := ucast (of_int c :: u8) OR 0x0700)))
      in if pos < 0 \<or> pos > 25 * 80 then Inl (Panic ''pos under/overflow'')
         else
           let (pos, crt) = (if pos div 80 \<ge> 24 then (pos - 80, scroll (pos - 80) crt) else (pos, crt))
           in Inr (s\<lparr>co_pos := pos, co_crt := crt(nat pos := 0x0720)\<rparr>))"

definition consputc :: "int \<Rightarrow> console \<Rightarrow> console res" where
  "consputc c s =
     cgaputc c (s\<lparr>co_uart := co_uart s @ (if c = BACKSPACE then [8, 32, 8] else [of_int c])\<rparr>)"

definition putchars :: "u8 list \<Rightarrow> console \<Rightarrow> console res" where
  "putchars = for_each (\<lambda>c. consputc (int (unat c)))"

definition consolewrite :: "u8 list \<Rightarrow> console \<Rightarrow> (int \<times> console) res" where
  "consolewrite buf s = bind_res (putchars buf s) (\<lambda>s. Inr (int (length buf), s))"


subsection \<open>cprintf\<close>

definition hexdigit :: "u32 \<Rightarrow> u8" where
  "hexdigit d = (if d < 10 then 48 + ucast d else 87 + ucast d)"

fun con_digits :: "nat \<Rightarrow> u32 \<Rightarrow> u32 \<Rightarrow> u8 list \<Rightarrow> u8 list res" where
  "con_digits 0 x base buf = Inl (Fault ''printint: buf'')"
| "con_digits (Suc room) x base buf =
     (let buf = buf @ [hexdigit (x mod base)];
          x = x div base
      in if x \<noteq> 0 then con_digits room x base buf else Inr buf)"

definition con_printint :: "u32 \<Rightarrow> u32 \<Rightarrow> bool \<Rightarrow> console \<Rightarrow> console res" where
  "con_printint xx base sign s =
     (let sign = (sign \<and> sint xx < 0);
          x = (if sign then - xx else xx)
      in bind_res (con_digits 16 x base []) (\<lambda>buf.
         if sign then
           if length buf < 16 then putchars (rev (buf @ [45])) s else Inl (Fault ''printint: buf'')
         else putchars (rev buf) s))"

text \<open>
  The arguments are the words behind the format, \<open>str\<close> the bytes of the string at an address.
\<close>

fun cprintf :: "(u32 \<Rightarrow> u8 list) \<Rightarrow> u8 list \<Rightarrow> u32 list \<Rightarrow> console \<Rightarrow> console res" where
  "cprintf str [] argp s = Inr s"
| "cprintf str [c] argp s = (if c \<noteq> 37 then putchars [c] s else Inr s)"
| "cprintf str (c # d # fmt) argp s =
     (if c \<noteq> 37 then bind_res (putchars [c] s) (cprintf str (d # fmt) argp)
      else
        let arg = (case argp of [] \<Rightarrow> Inl (Fault ''cprintf: arguments'') | a # _ \<Rightarrow> Inr a)
        in if d = 100 then
             bind_res arg (\<lambda>a. bind_res (con_printint a 10 True s) (cprintf str fmt (tl argp)))
           else if d = 120 \<or> d = 112 then
             bind_res arg (\<lambda>a. bind_res (con_printint a 16 False s) (cprintf str fmt (tl argp)))
           else if d = 115 then
             bind_res arg (\<lambda>a. bind_res (putchars (if a = 0 then [40, 110, 117, 108, 108, 41] else str a) s)
               (cprintf str fmt (tl argp)))
           else if d = 37 then bind_res (putchars [37] s) (cprintf str fmt argp)
           else bind_res (putchars [37, d] s) (cprintf str fmt argp))"


subsection \<open>Input\<close>

abbreviation slot :: "u32 \<Rightarrow> nat" where "slot i \<equiv> unat i mod INPUT_BUF"

definition kill_test :: "console \<Rightarrow> bool" where
  "kill_test s \<longleftrightarrow> co_e s \<noteq> co_w s \<and> co_buf s (slot (co_e s - 1)) \<noteq> 10"

lemma consputc_input:
  assumes "consputc c s = Inr s'"
  shows "co_buf s' = co_buf s \<and> co_r s' = co_r s \<and> co_w s' = co_w s \<and> co_e s' = co_e s"
  using assms by (auto simp: consputc_def cgaputc_def Let_def split: prod.splits if_splits)

function kill_line :: "console \<Rightarrow> console res" where
  "kill_line s =
     (if kill_test s then bind_res (consputc BACKSPACE (s\<lparr>co_e := co_e s - 1\<rparr>)) kill_line else Inr s)"
  by pat_completeness auto
termination
proof (relation "measure (\<lambda>s. unat (co_e s - co_w s))", goal_cases)
  case (2 s t)
  have p: "co_e t = co_e s - 1" "co_w t = co_w s" using consputc_input [OF 2(2)] by simp_all
  have "co_e s - co_w s \<noteq> 0" using 2(1) by (simp add: kill_test_def)
  then have "unat (co_e s - co_w s - 1) < unat (co_e s - co_w s)"
    by (simp add: unat_minus_one unat_gt_0)
  then show ?case by (simp add: p algebra_simps)
qed simp

declare kill_line.simps [simp del]

text \<open>One round of the loop of \<open>consoleintr\<close>: the channels it wakes and the new state.\<close>

definition cons_key :: "u8 \<Rightarrow> console \<Rightarrow> (chan list \<times> console) res" where
  "cons_key c s =
     (if c = ctrl CHR ''P'' then Inr ([], s)
      else if c = ctrl CHR ''U'' then bind_res (kill_line s) (\<lambda>s. Inr ([], s))
      else if c = ctrl CHR ''H'' \<or> c = 0x7F then
        if co_e s \<noteq> co_w s then bind_res (consputc BACKSPACE (s\<lparr>co_e := co_e s - 1\<rparr>)) (\<lambda>s. Inr ([], s))
        else Inr ([], s)
      else if c \<noteq> 0 \<and> co_e s - co_r s < of_nat INPUT_BUF then
        let c = (if c = 13 then 10 else c);
            s = s\<lparr>co_buf := (co_buf s)(slot (co_e s) := c), co_e := co_e s + 1\<rparr>
        in bind_res (consputc (int (unat c)) s) (\<lambda>s.
           if c = 10 \<or> c = ctrl CHR ''D'' \<or> co_e s = co_r s + of_nat INPUT_BUF
           then Inr ([ChInput], s\<lparr>co_w := co_e s\<rparr>) else Inr ([], s))
      else Inr ([], s))"

text \<open>The flag asks for \<open>procdump\<close>; \<open>cs\<close> is what \<open>getc\<close> answers until it has nothing left.\<close>

fun consoleintr :: "u8 list \<Rightarrow> console \<Rightarrow> ((bool \<times> chan list) \<times> console) res" where
  "consoleintr [] s = Inr ((False, []), s)"
| "consoleintr (c # cs) s =
     bind_res (cons_key c s) (\<lambda>(w, s).
     bind_res (consoleintr cs s) (\<lambda>((dump, ws), s).
     Inr ((dump \<or> c = ctrl CHR ''P'', w @ ws), s)))"

text \<open>
  \<open>consoleread\<close> runs until it returns or has to sleep with \<open>target - n\<close> bytes done; the bytes
  are those stored at \<open>dst\<close> in this run.
\<close>

fun read_run :: "bool \<Rightarrow> nat \<Rightarrow> nat \<Rightarrow> console \<Rightarrow> pres \<times> u8 list \<times> console" where
  "read_run killed target 0 s = (PRet (int target), [], s)"
| "read_run killed target (Suc n) s =
     (if co_r s = co_w s then
        (if killed then PRet (-1) else PSleep (target - Suc n), [], s)
      else
        let c = co_buf s (slot (co_r s));
            s = s\<lparr>co_r := co_r s + 1\<rparr>
        in if c = ctrl CHR ''D'' then
             (PRet (int (target - Suc n)), [], if Suc n < target then s\<lparr>co_r := co_r s - 1\<rparr> else s)
           else if c = 10 then (PRet (int (target - n)), [c], s)
           else let (r, cs, s) = read_run killed target n s in (r, c # cs, s))"

definition consoleread :: "bool \<Rightarrow> int \<Rightarrow> console \<Rightarrow> pres \<times> u8 list \<times> console" where
  "consoleread killed n s = read_run killed (nat n) (nat n) s"


subsection \<open>The screen stays in its bounds\<close>

definition screen_ok :: "console \<Rightarrow> bool" where
  "screen_ok s \<longleftrightarrow> 0 \<le> co_pos s \<and> co_pos s < 24 * 80"

lemma cgaputc_ok:
  assumes "screen_ok s"
  shows "\<exists>s'. cgaputc c s = Inr s' \<and> screen_ok s'"
proof -
  have m: "0 \<le> co_pos s mod 80" "co_pos s mod 80 < 80" by simp_all
  have d: "24 \<le> p div 80 \<longleftrightarrow> 1920 \<le> p" for p :: int by linarith
  have dm: "co_pos s = 80 * (co_pos s div 80) + co_pos s mod 80" by simp
  have "co_pos s div 80 \<le> 23" using assms by (simp add: screen_ok_def) linarith
  then have "co_pos s + (80 - co_pos s mod 80) \<le> 1920" using dm by linarith
  then show ?thesis
    using assms m by (auto simp: cgaputc_def screen_ok_def Let_def d)
qed

lemma consputc_ok:
  assumes "screen_ok s"
  obtains s' where "consputc c s = Inr s'" "screen_ok s'" "co_buf s' = co_buf s" "co_r s' = co_r s"
    "co_w s' = co_w s" "co_e s' = co_e s"
proof -
  have "screen_ok (s\<lparr>co_uart := u\<rparr>)" for u using assms by (simp add: screen_ok_def)
  then obtain s' where "consputc c s = Inr s'" "screen_ok s'"
    using cgaputc_ok unfolding consputc_def by blast
  then show ?thesis using that consputc_input by blast
qed


subsection \<open>The buffer as two lists\<close>

definition ring_bytes :: "mem \<Rightarrow> u32 \<Rightarrow> nat \<Rightarrow> u8 list" where
  "ring_bytes m r k = map (\<lambda>i. m (slot (r + of_nat i))) [0..<k]"

definition committed :: "console \<Rightarrow> u8 list" where
  "committed s = ring_bytes (co_buf s) (co_r s) (unat (co_w s - co_r s))"

definition editing :: "console \<Rightarrow> u8 list" where
  "editing s = ring_bytes (co_buf s) (co_w s) (unat (co_e s - co_w s))"

definition cons_ok :: "console \<Rightarrow> bool" where
  "cons_ok s \<longleftrightarrow> screen_ok s \<and> unat (co_w s - co_r s) + unat (co_e s - co_w s) \<le> INPUT_BUF
     \<and> 10 \<notin> set (editing s)"

definition cons_abs :: "console \<Rightarrow> u8 list \<times> u8 list" where
  "cons_abs s = (committed s, editing s)"

lemma length_ring_bytes [simp]: "length (ring_bytes m r k) = k"
  by (simp add: ring_bytes_def)

lemma slot_add: "slot (r + of_nat k) = (unat r + k) mod INPUT_BUF"
proof -
  have "unat (r + of_nat k) = (unat r + k) mod 2 ^ 32"
    by (simp add: unat_word_ariths unsigned_of_nat take_bit_eq_mod mod_add_right_eq)
  moreover have "INPUT_BUF dvd 2 ^ 32" by (simp add: INPUT_BUF_def)
  ultimately show ?thesis by (simp only: mod_mod_cancel)
qed

lemma slot_inj:
  assumes "slot (r + of_nat j) = slot (r + of_nat k)" and "j \<le> k" "k < j + INPUT_BUF"
  shows "j = k"
proof -
  have "(unat r + k - (unat r + j)) mod INPUT_BUF = 0"
    using assms by (metis add_le_cancel_left mod_eq_dvd_iff_nat dvd_imp_mod_0 slot_add)
  then show ?thesis using assms by simp
qed

lemma ring_bytes_Suc: "ring_bytes m r (Suc k) = ring_bytes m r k @ [m (slot (r + of_nat k))]"
  by (simp add: ring_bytes_def)

lemma ring_bytes_Cons: "ring_bytes m r (Suc k) = m (slot r) # ring_bytes m (r + 1) k"
  by (simp add: ring_bytes_def upt_conv_Cons map_Suc_upt [symmetric] algebra_simps del: upt_Suc)

lemma ring_bytes_append:
  "ring_bytes m r j @ ring_bytes m (r + of_nat j) k = ring_bytes m r (j + k)"
  by (induction k) (simp_all add: ring_bytes_Suc algebra_simps, simp add: ring_bytes_def)

lemma ring_bytes_upd:
  assumes "\<And>i. i < k \<Longrightarrow> slot (r + of_nat i) \<noteq> a"
  shows "ring_bytes (m(a := v)) r k = ring_bytes m r k"
  using assms by (simp add: ring_bytes_def)

text \<open>What the counters say: \<open>a\<close> characters are committed, \<open>b\<close> are edited.\<close>

lemma cons_counters:
  fixes r w e :: u32
  assumes "a + b \<le> INPUT_BUF" and "w = r + of_nat a" and "e = r + of_nat (a + b)"
  shows "unat (w - r) = a" "unat (e - w) = b" "unat (e - r) = a + b"
    "e = w \<longleftrightarrow> b = 0" "w = r \<longleftrightarrow> a = 0" "r = w \<longleftrightarrow> a = 0" "e - r < of_nat INPUT_BUF \<longleftrightarrow> a + b < INPUT_BUF"
    "e = r + of_nat INPUT_BUF \<longleftrightarrow> a + b = INPUT_BUF"
proof -
  have b: "a < 2 ^ 32" "b < 2 ^ 32" "a + b < 2 ^ 32" "INPUT_BUF < 2 ^ 32"
    using assms(1) by (simp_all add: INPUT_BUF_def)
  have d: "w - r = of_nat a" "e - w = of_nat b" "e - r = of_nat (a + b)"
    using assms(2,3) by simp_all
  show u: "unat (w - r) = a" "unat (e - w) = b" "unat (e - r) = a + b"
    by (simp_all only: d unat_of_nat_32 [OF b(1)] unat_of_nat_32 [OF b(2)] unat_of_nat_32 [OF b(3)])
  have eq: "x = y \<longleftrightarrow> unat (x - y) = 0" for x y :: u32 by (simp add: unat_eq_zero)
  show "e = w \<longleftrightarrow> b = 0" using eq [of e w] u(2) by simp
  show "w = r \<longleftrightarrow> a = 0" using eq [of w r] u(1) by simp
  then show "r = w \<longleftrightarrow> a = 0" by auto
  have i: "unat (of_nat INPUT_BUF :: u32) = INPUT_BUF" using b(4) by (rule unat_of_nat_32)
  show "e - r < of_nat INPUT_BUF \<longleftrightarrow> a + b < INPUT_BUF" by (simp only: word_less_nat_alt u i)
  show "e = r + of_nat INPUT_BUF \<longleftrightarrow> a + b = INPUT_BUF"
    using u(3) i by (metis add_diff_cancel_left' assms(3))
qed

lemma cons_okE:
  assumes "cons_ok s"
  obtains a b where "a + b \<le> INPUT_BUF" "co_w s = co_r s + of_nat a" "co_e s = co_r s + of_nat (a + b)"
    "screen_ok s" "committed s = ring_bytes (co_buf s) (co_r s) a"
    "editing s = ring_bytes (co_buf s) (co_r s + of_nat a) b"
    "10 \<notin> set (editing s)"
proof
  show "unat (co_w s - co_r s) + unat (co_e s - co_w s) \<le> INPUT_BUF" "screen_ok s" "10 \<notin> set (editing s)"
    using assms by (simp_all add: cons_ok_def)
qed (simp_all add: committed_def editing_def)

lemma cons_okI:
  assumes "a + b \<le> INPUT_BUF" "co_w s = co_r s + of_nat a" "co_e s = co_r s + of_nat (a + b)"
    and "screen_ok s" and "10 \<notin> set (ring_bytes (co_buf s) (co_r s + of_nat a) b)"
  shows "cons_ok s" "committed s = ring_bytes (co_buf s) (co_r s) a"
    "editing s = ring_bytes (co_buf s) (co_r s + of_nat a) b"
proof -
  note c = cons_counters [OF assms(1-3)]
  show "committed s = ring_bytes (co_buf s) (co_r s) a"
    "editing s = ring_bytes (co_buf s) (co_r s + of_nat a) b"
    by (simp_all only: committed_def editing_def c) (simp only: assms(2))
  then show "cons_ok s" unfolding cons_ok_def c using assms(1,4,5) by simp
qed


subsection \<open>Editing a line\<close>

text \<open>A key on the two lists. A line ends with a newline, an end of file or a full buffer.\<close>

definition edit_key :: "u8 \<Rightarrow> u8 list \<times> u8 list \<Rightarrow> u8 list \<times> u8 list" where
  "edit_key c = (\<lambda>(rd, ed).
     if c = ctrl CHR ''P'' then (rd, ed)
     else if c = ctrl CHR ''U'' then (rd, [])
     else if c = ctrl CHR ''H'' \<or> c = 0x7F then (rd, butlast ed)
     else if c \<noteq> 0 \<and> length rd + length ed < INPUT_BUF then
       let c = (if c = 13 then 10 else c); ed = ed @ [c]
       in if c = 10 \<or> c = ctrl CHR ''D'' \<or> length rd + length ed = INPUT_BUF then (rd @ ed, []) else (rd, ed)
     else (rd, ed))"

text \<open>The screen does not enter the lists.\<close>

lemma cons_screen:
  assumes "co_buf s' = co_buf s" "co_r s' = co_r s" "co_w s' = co_w s" "co_e s' = co_e s" "screen_ok s'"
  shows "cons_ok s \<Longrightarrow> cons_ok s'" "cons_abs s' = cons_abs s"
  using assms by (simp_all add: cons_ok_def cons_abs_def committed_def editing_def)

lemma erase_char:
  assumes "cons_ok s" and "co_e s \<noteq> co_w s"
  shows "cons_ok (s\<lparr>co_e := co_e s - 1\<rparr>)"
    and "cons_abs (s\<lparr>co_e := co_e s - 1\<rparr>) = (committed s, butlast (editing s))"
    and "editing s \<noteq> []" "last (editing s) = co_buf s (slot (co_e s - 1))"
proof -
  let ?t = "s\<lparr>co_e := co_e s - 1\<rparr>"
  from assms(1) obtain a b where ab: "a + b \<le> INPUT_BUF" "co_w s = co_r s + of_nat a"
      "co_e s = co_r s + of_nat (a + b)" "screen_ok s" "committed s = ring_bytes (co_buf s) (co_r s) a"
      "editing s = ring_bytes (co_buf s) (co_r s + of_nat a) b" "10 \<notin> set (editing s)"
    by (rule cons_okE)
  note c = cons_counters [OF ab(1-3)]
  from assms(2) c obtain d where d: "b = Suc d" by (cases b) auto
  have e: "co_e s - 1 = co_r s + of_nat a + of_nat d" using ab(3) by (simp add: d)
  have ed: "editing s = ring_bytes (co_buf s) (co_r s + of_nat a) d @ [co_buf s (slot (co_e s - 1))]"
    by (simp only: ab(6) d ring_bytes_Suc e)
  then show "editing s \<noteq> []" "last (editing s) = co_buf s (slot (co_e s - 1))" by simp_all
  have n: "10 \<notin> set (ring_bytes (co_buf s) (co_r s + of_nat a) d)" using ab(7) ed by simp
  note t = cons_okI [of a d ?t]
  show "cons_ok ?t" using t(1) ab e d n by (simp add: screen_ok_def)
  show "cons_abs ?t = (committed s, butlast (editing s))"
    using t(2,3) ab(1-5) e d n ed by (simp add: cons_abs_def screen_ok_def)
qed

lemma kill_line_spec:
  assumes "cons_ok s"
  shows "\<exists>s'. kill_line s = Inr s' \<and> cons_ok s' \<and> cons_abs s' = (committed s, [])"
  using assms
proof (induction s rule: kill_line.induct)
  case (1 s)
  have ed: "co_e s \<noteq> co_w s \<longleftrightarrow> editing s \<noteq> []"
    by (simp add: editing_def ring_bytes_def unat_eq_zero)
  show ?case
  proof (cases "kill_test s")
    case True
    then have ne: "co_e s \<noteq> co_w s" by (simp add: kill_test_def)
    let ?t = "s\<lparr>co_e := co_e s - 1\<rparr>"
    note t = erase_char(1,2) [OF 1(2) ne]
    have "screen_ok ?t" using t(1) by (simp add: cons_ok_def)
    then obtain u where u: "consputc BACKSPACE ?t = Inr u" "screen_ok u" "co_buf u = co_buf ?t"
        "co_r u = co_r ?t" "co_w u = co_w ?t" "co_e u = co_e ?t"
      by (rule consputc_ok)
    note cs = cons_screen [OF u(3-6,2)]
    have "\<exists>s'. kill_line u = Inr s' \<and> cons_ok s' \<and> cons_abs s' = (committed u, [])"
      using 1(1) [OF True u(1)] cs(1) t(1) by blast
    moreover have "committed u = committed s" using cs(2) t(2) by (simp add: cons_abs_def)
    ultimately show ?thesis using True u(1) by (simp add: kill_line.simps [of s])
  next
    case False
    have "editing s = []"
    proof (rule ccontr)
      assume n: "editing s \<noteq> []"
      then have "last (editing s) = 10" using False ed erase_char(4) [OF 1(2)] by (simp add: kill_test_def)
      then show False using n 1(2) last_in_set [of "editing s"] by (simp add: cons_ok_def)
    qed
    then show ?thesis using False 1(2) by (simp add: kill_line.simps [of s] cons_abs_def)
  qed
qed


lemma put_char:
  fixes c :: u8
  assumes "cons_ok s" and "co_e s - co_r s < of_nat INPUT_BUF"
  defines "t \<equiv> s\<lparr>co_buf := (co_buf s)(slot (co_e s) := c), co_e := co_e s + 1\<rparr>"
  shows "c \<noteq> 10 \<Longrightarrow> cons_ok t" "c \<noteq> 10 \<Longrightarrow> cons_abs t = (committed s, editing s @ [c])"
    and "cons_ok (t\<lparr>co_w := co_e t\<rparr>)" "cons_abs (t\<lparr>co_w := co_e t\<rparr>) = (committed s @ editing s @ [c], [])"
    and "co_e t = co_r t + of_nat INPUT_BUF \<longleftrightarrow> length (committed s) + length (editing s) + 1 = INPUT_BUF"
    and "length (committed s) + length (editing s) < INPUT_BUF"
proof -
  from assms(1) obtain a b where ab: "a + b \<le> INPUT_BUF" "co_w s = co_r s + of_nat a"
      "co_e s = co_r s + of_nat (a + b)" "screen_ok s" "committed s = ring_bytes (co_buf s) (co_r s) a"
      "editing s = ring_bytes (co_buf s) (co_r s + of_nat a) b" "10 \<notin> set (editing s)"
    by (rule cons_okE)
  note cnt = cons_counters [OF ab(1-3)]
  have lt: "a + b < INPUT_BUF" using assms(2) cnt(7) by simp
  then show "length (committed s) + length (editing s) < INPUT_BUF" by (simp add: ab(5,6))
  have other: "slot (co_r s + of_nat i) \<noteq> slot (co_e s)" if "i < a + b" for i
    using slot_inj [of "co_r s" i "a + b"] that lt by (auto simp: ab(3))
  have cm: "ring_bytes (co_buf t) (co_r s) a = committed s"
    unfolding ab(5) t_def using other by (simp add: ring_bytes_upd)
  have "slot (co_r s + of_nat a + of_nat i) \<noteq> slot (co_e s)" if "i < b" for i
    using other [of "a + i"] that by (simp add: algebra_simps)
  then have "ring_bytes (co_buf t) (co_r s + of_nat a) b = editing s"
    unfolding ab(6) t_def by (simp add: ring_bytes_upd)
  moreover have "co_buf t (slot (co_r s + of_nat a + of_nat b)) = c"
    by (simp add: t_def ab(3) algebra_simps)
  ultimately have ed: "ring_bytes (co_buf t) (co_r s + of_nat a) (Suc b) = editing s @ [c]"
    by (simp only: ring_bytes_Suc)
  have t: "co_w t = co_r s + of_nat a" "co_r t = co_r s" "co_e t = co_r s + of_nat (a + Suc b)"
      "screen_ok t" "a + Suc b \<le> INPUT_BUF" "a + Suc b + 0 \<le> INPUT_BUF"
    using ab lt by (simp_all add: t_def screen_ok_def)
  show "co_e t = co_r t + of_nat INPUT_BUF \<longleftrightarrow> length (committed s) + length (editing s) + 1 = INPUT_BUF"
    using cons_counters(8) [OF t(5) t(1) t(3)] t(2) by (simp add: ab(5,6))
  { assume "c \<noteq> 10"
    then have n: "10 \<notin> set (ring_bytes (co_buf t) (co_r t + of_nat a) (Suc b))"
      using ab(7) by (simp add: ed t(2))
    note i = cons_okI [of a "Suc b" t, unfolded t(2), OF t(5) t(1) t(3) t(4) n [unfolded t(2)]]
    show "cons_ok t" by (rule i(1))
    show "cons_abs t = (committed s, editing s @ [c])" by (simp only: cons_abs_def i(2,3) cm ed) }
  let ?u = "t\<lparr>co_w := co_e t\<rparr>"
  have u: "co_w ?u = co_r ?u + of_nat (a + Suc b)" "co_e ?u = co_r ?u + of_nat (a + Suc b + 0)" "screen_ok ?u"
      "10 \<notin> set (ring_bytes (co_buf ?u) (co_r ?u + of_nat (a + Suc b)) 0)"
    using t by (simp_all add: screen_ok_def ring_bytes_def)
  note i = cons_okI [OF t(6) u]
  show "cons_ok ?u" by (rule i(1))
  have "ring_bytes (co_buf t) (co_r s) (a + Suc b) = committed s @ editing s @ [c]"
    using ring_bytes_append [of "co_buf t" "co_r s" a "Suc b"] by (simp only: cm ed)
  then show "cons_abs ?u = (committed s @ editing s @ [c], [])"
    using i(2,3) by (simp add: cons_abs_def t(2) ring_bytes_def)
qed

lemma cons_key_refines:
  assumes ok: "cons_ok s"
  shows "\<exists>w s'. cons_key c s = Inr (w, s') \<and> cons_ok s' \<and> cons_abs s' = edit_key c (cons_abs s)"
proof -
  have ed: "co_e s \<noteq> co_w s \<longleftrightarrow> editing s \<noteq> []"
    by (simp add: editing_def ring_bytes_def unat_eq_zero)
  have sc: "screen_ok s" using ok by (simp add: cons_ok_def)
  consider (dump) "c = ctrl CHR ''P''" | (kill) "c = ctrl CHR ''U''"
    | (erase) "c = ctrl CHR ''H'' \<or> c = 0x7F"
    | (put) "c \<notin> {ctrl CHR ''P'', ctrl CHR ''U'', ctrl CHR ''H'', 0x7F}" "c \<noteq> 0 \<and> co_e s - co_r s < of_nat INPUT_BUF"
    | (drop) "c \<notin> {ctrl CHR ''P'', ctrl CHR ''U'', ctrl CHR ''H'', 0x7F}" "\<not> (c \<noteq> 0 \<and> co_e s - co_r s < of_nat INPUT_BUF)"
    by blast
  then show ?thesis
  proof cases
    case dump
    then show ?thesis using ok by (simp add: cons_key_def edit_key_def cons_abs_def)
  next
    case kill
    have "ctrl CHR ''U'' \<noteq> ctrl CHR ''P''" by (simp add: ctrl_def)
    then show ?thesis using kill kill_line_spec [OF ok]
      by (auto simp: cons_key_def edit_key_def cons_abs_def)
  next
    case erase
    then have k: "c \<noteq> ctrl CHR ''P''" "c \<noteq> ctrl CHR ''U''" by (auto simp: ctrl_def)
    show ?thesis
    proof (cases "co_e s \<noteq> co_w s")
      case True
      let ?t = "s\<lparr>co_e := co_e s - 1\<rparr>"
      note t = erase_char(1,2) [OF ok True]
      have "screen_ok ?t" using t(1) by (simp add: cons_ok_def)
      then obtain u where u: "consputc BACKSPACE ?t = Inr u" "screen_ok u" "co_buf u = co_buf ?t"
          "co_r u = co_r ?t" "co_w u = co_w ?t" "co_e u = co_e ?t"
        by (rule consputc_ok)
      have "cons_key c s = Inr ([], u)" using k erase True u(1) by (simp add: cons_key_def)
      moreover have "edit_key c (cons_abs s) = (committed s, butlast (editing s))"
        using k erase by (simp add: edit_key_def cons_abs_def)
      ultimately show ?thesis using cons_screen [OF u(3-6,2)] t by auto
    next
      case False
      then show ?thesis using k erase ed ok by (simp add: cons_key_def edit_key_def cons_abs_def)
    qed
  next
    case put
    define d where "d = (if c = 13 then 10 else c)"
    let ?t = "s\<lparr>co_buf := (co_buf s)(slot (co_e s) := d), co_e := co_e s + 1\<rparr>"
    let ?all = "d = 10 \<or> d = ctrl CHR ''D'' \<or> length (committed s) + length (editing s) + 1 = INPUT_BUF"
    note p = put_char(1-5) [OF ok conjunct2 [OF put(2)], of d] put_char(6) [OF ok conjunct2 [OF put(2)]]
    have "screen_ok ?t" using sc by (simp add: screen_ok_def)
    then obtain u where u: "consputc (int (unat d)) ?t = Inr u" "screen_ok u" "co_buf u = co_buf ?t"
        "co_r u = co_r ?t" "co_w u = co_w ?t" "co_e u = co_e ?t"
      by (rule consputc_ok)
    have full: "co_e u = co_r u + of_nat INPUT_BUF \<longleftrightarrow> length (committed s) + length (editing s) + 1 = INPUT_BUF"
      using p(5) u(4,6) by simp
    have key: "cons_key c s = Inr (if ?all then ([ChInput], u\<lparr>co_w := co_e u\<rparr>) else ([], u))"
      using put u(1) full by (simp add: cons_key_def d_def [symmetric] Let_def)
    have abs: "edit_key c (cons_abs s) =
        (if ?all then (committed s @ editing s @ [d], []) else (committed s, editing s @ [d]))"
      using put p(6) by (simp add: edit_key_def cons_abs_def d_def [symmetric] Let_def)
    show ?thesis
    proof (cases ?all)
      case True
      have "screen_ok (u\<lparr>co_w := co_e u\<rparr>)" using u(2) by (simp add: screen_ok_def)
      then have "cons_ok (u\<lparr>co_w := co_e u\<rparr>)" "cons_abs (u\<lparr>co_w := co_e u\<rparr>) = cons_abs (?t\<lparr>co_w := co_e ?t\<rparr>)"
        using cons_screen [of "u\<lparr>co_w := co_e u\<rparr>" "?t\<lparr>co_w := co_e ?t\<rparr>"] u(3-6) p(3) by simp_all
      then show ?thesis using key abs True p(4) by simp
    next
      case False
      then have "d \<noteq> 10" by simp
      then show ?thesis using key abs False cons_screen [OF u(3-6,2)] p(1,2) by simp
    qed
  next
    case drop
    have "\<not> (c \<noteq> 0 \<and> length (committed s) + length (editing s) < INPUT_BUF)"
    proof -
      from ok obtain a b where ab: "a + b \<le> INPUT_BUF" "co_w s = co_r s + of_nat a"
          "co_e s = co_r s + of_nat (a + b)" "committed s = ring_bytes (co_buf s) (co_r s) a"
          "editing s = ring_bytes (co_buf s) (co_r s + of_nat a) b"
        by (rule cons_okE) blast
      then show ?thesis using drop(2) cons_counters(7) [OF ab(1-3)] by simp
    qed
    then show ?thesis using drop ok by (auto simp: cons_key_def edit_key_def cons_abs_def)
  qed
qed



subsection \<open>Reading\<close>

fun read_line :: "bool \<Rightarrow> nat \<Rightarrow> nat \<Rightarrow> u8 list \<Rightarrow> pres \<times> u8 list \<times> u8 list" where
  "read_line killed target 0 rd = (PRet (int target), [], rd)"
| "read_line killed target (Suc n) [] = (if killed then PRet (-1) else PSleep (target - Suc n), [], [])"
| "read_line killed target (Suc n) (c # rd) =
     (if c = ctrl CHR ''D'' then (PRet (int (target - Suc n)), [], if Suc n < target then c # rd else rd)
      else if c = 10 then (PRet (int (target - n)), [c], rd)
      else let (r, cs, rd) = read_line killed target n rd in (r, c # cs, rd))"

lemma get_char:
  assumes "cons_ok s" and "co_r s \<noteq> co_w s"
  shows "committed s = co_buf s (slot (co_r s)) # committed (s\<lparr>co_r := co_r s + 1\<rparr>)"
    and "cons_ok (s\<lparr>co_r := co_r s + 1\<rparr>)" "editing (s\<lparr>co_r := co_r s + 1\<rparr>) = editing s"
proof -
  let ?t = "s\<lparr>co_r := co_r s + 1\<rparr>"
  from assms(1) obtain a b where ab: "a + b \<le> INPUT_BUF" "co_w s = co_r s + of_nat a"
      "co_e s = co_r s + of_nat (a + b)" "screen_ok s" "committed s = ring_bytes (co_buf s) (co_r s) a"
      "editing s = ring_bytes (co_buf s) (co_r s + of_nat a) b" "10 \<notin> set (editing s)"
    by (rule cons_okE)
  note c = cons_counters [OF ab(1-3)]
  from assms(2) c obtain d where d: "a = Suc d" by (cases a) auto
  have t: "d + b \<le> INPUT_BUF" "co_w ?t = co_r ?t + of_nat d" "co_e ?t = co_r ?t + of_nat (d + b)" "screen_ok ?t"
    using ab(1-4) by (simp_all add: d screen_ok_def)
  have w: "co_r ?t + of_nat d = co_r s + of_nat a" by (simp add: d)
  have n: "10 \<notin> set (ring_bytes (co_buf ?t) (co_r ?t + of_nat d) b)"
    unfolding w using ab(6,7) by simp
  note i = cons_okI [OF t n]
  show "cons_ok ?t" by (rule i(1))
  show "committed s = co_buf s (slot (co_r s)) # committed ?t"
    unfolding i(2) ab(5) d by (simp add: ring_bytes_Cons)
  show "editing ?t = editing s" unfolding i(3) ab(6) w by simp
qed

lemma read_run_refines:
  assumes "cons_ok s" and "read_run killed target n s = (r, cs, s')"
  shows "cons_ok s' \<and> editing s' = editing s \<and> read_line killed target n (committed s) = (r, cs, committed s')"
  using assms
proof (induction n arbitrary: s r cs s')
  case 0
  then show ?case by simp
next
  case (Suc n)
  show ?case
  proof (cases "co_r s = co_w s")
    case True
    then have "committed s = []" by (simp add: committed_def ring_bytes_def)
    then show ?thesis using True Suc.prems by auto
  next
    case False
    let ?c = "co_buf s (slot (co_r s))" and ?t = "s\<lparr>co_r := co_r s + 1\<rparr>"
    note g = get_char [OF Suc.prems(1) False]
    consider (eof) "?c = ctrl CHR ''D''" | (nl) "?c \<noteq> ctrl CHR ''D''" "?c = 10"
      | (more) "?c \<noteq> ctrl CHR ''D''" "?c \<noteq> 10" by blast
    then show ?thesis
    proof cases
      case eof
      have "?t\<lparr>co_r := co_r ?t - 1\<rparr> = s" by simp
      then show ?thesis using eof Suc.prems g False by (auto simp: Let_def split: if_splits)
    next
      case nl
      then show ?thesis using Suc.prems g False by (auto simp: Let_def)
    next
      case more
      obtain r2 ds s2 where r: "read_run killed target n ?t = (r2, ds, s2)"
        by (cases "read_run killed target n ?t") auto
      note i = Suc.IH [OF g(2) r]
      have "r = r2" "cs = ?c # ds" "s' = s2" using Suc.prems(2) r more False by (auto simp: Let_def)
      then show ?thesis using i g more by simp
    qed
  qed
qed


subsection \<open>Any order of keys and reads\<close>

datatype con_event = Key u8 | Get bool int

fun con_trace :: "con_event list \<Rightarrow> console \<Rightarrow> ((pres \<times> u8 list) list \<times> console) res" where
  "con_trace [] s = Inr ([], s)"
| "con_trace (Key c # es) s = bind_res (cons_key c s) (\<lambda>(_, s). con_trace es s)"
| "con_trace (Get killed n # es) s =
     (let (r, cs, s) = consoleread killed n s
      in bind_res (con_trace es s) (\<lambda>(rs, s). Inr ((r, cs) # rs, s)))"

fun edit_trace :: "con_event list \<Rightarrow> u8 list \<times> u8 list \<Rightarrow> (pres \<times> u8 list) list \<times> u8 list \<times> u8 list" where
  "edit_trace [] l = ([], l)"
| "edit_trace (Key c # es) l = edit_trace es (edit_key c l)"
| "edit_trace (Get killed n # es) (rd, ed) =
     (let (r, cs, rd) = read_line killed (nat n) (nat n) rd;
          (rs, l) = edit_trace es (rd, ed)
      in ((r, cs) # rs, l))"

lemma con_trace_refines:
  "cons_ok s \<Longrightarrow> \<exists>rs s'. con_trace es s = Inr (rs, s') \<and> cons_ok s' \<and> edit_trace es (cons_abs s) = (rs, cons_abs s')"
proof (induction es arbitrary: s)
  case Nil
  then show ?case by simp
next
  case (Cons e es)
  show ?case
  proof (cases e)
    case (Key c)
    obtain w t where t: "cons_key c s = Inr (w, t)" "cons_ok t" "cons_abs t = edit_key c (cons_abs s)"
      using cons_key_refines [OF Cons.prems] by blast
    show ?thesis using Cons.IH [OF t(2)] t(1,3) Key by simp
  next
    case (Get killed n)
    obtain r cs t where t: "read_run killed (nat n) (nat n) s = (r, cs, t)"
      by (cases "read_run killed (nat n) (nat n) s") auto
    note rr = read_run_refines [OF Cons.prems t]
    obtain rs u where u: "con_trace es t = Inr (rs, u)" "cons_ok u" "edit_trace es (cons_abs t) = (rs, cons_abs u)"
      using Cons.IH rr by blast
    have "edit_trace (e # es) (cons_abs s) = ((r, cs) # rs, cons_abs u)"
      using Get rr u(3) by (simp add: cons_abs_def)
    then show ?thesis using Get t u(1,2) by (simp add: consoleread_def)
  qed
qed

definition fresh_input :: "console \<Rightarrow> console" where
  "fresh_input s = s\<lparr>co_r := 0, co_w := 0, co_e := 0\<rparr>"

lemma blank_console_ok: "screen_ok s \<Longrightarrow> cons_ok (fresh_input s) \<and> cons_abs (fresh_input s) = ([], [])"
  by (simp add: fresh_input_def cons_ok_def cons_abs_def screen_ok_def committed_def editing_def ring_bytes_def)

end
