(* ===== verification/Kbd.thy ===== *)
theory Kbd
  imports Console
begin

text \<open>
  kbd.c and the tables of kbd.h: from the bytes the keyboard sends to characters. The state is
  the word \<open>shift\<close> of held and toggled keys. A key that makes no character is 0. The
  word only ever holds the bits of its seven flags.
\<close>

definition SHIFT :: u32 where "SHIFT = 1"
definition CTL :: u32 where "CTL = 2"
definition ALT :: u32 where "ALT = 4"
definition CAPSLOCK :: u32 where "CAPSLOCK = 8"
definition NUMLOCK :: u32 where "NUMLOCK = 16"
definition SCROLLLOCK :: u32 where "SCROLLLOCK = 32"
definition E0ESC :: u32 where "E0ESC = 64"

definition shiftcode :: "u8 \<Rightarrow> u32" where
  "shiftcode d =
     (if d = 0x1D \<or> d = 0x9D then CTL
      else if d = 0x2A \<or> d = 0x36 then SHIFT
      else if d = 0x38 \<or> d = 0xB8 then ALT else 0)"

definition togglecode :: "u8 \<Rightarrow> u32" where
  "togglecode d = (if d = 0x3A then CAPSLOCK else if d = 0x45 then NUMLOCK
                   else if d = 0x46 then SCROLLLOCK else 0)"

text \<open>An initialiser: the first entries in order, then entries by index; the rest is 0.\<close>

definition table :: "u32 list \<Rightarrow> (u8 \<times> u32) list \<Rightarrow> u8 \<Rightarrow> u32" where
  "table xs ys d = (if unat d < length xs then xs ! unat d
                    else case map_of ys d of Some c \<Rightarrow> c | None \<Rightarrow> 0)"

definition normalmap :: "u8 \<Rightarrow> u32" where
  "normalmap = table
     [0, 27, 49, 50, 51, 52, 53, 54, 55, 56, 57, 48, 45, 61, 8, 9,
      113, 119, 101, 114, 116, 121, 117, 105, 111, 112, 91, 93, 10, 0, 97, 115,
      100, 102, 103, 104, 106, 107, 108, 59, 39, 96, 0, 92, 122, 120, 99, 118,
      98, 110, 109, 44, 46, 47, 0, 42, 0, 32, 0, 0, 0, 0, 0, 0,
      0, 0, 0, 0, 0, 0, 0, 55, 56, 57, 45, 52, 53, 54, 43, 49,
      50, 51, 48, 46, 0, 0, 0, 0]
     [(0x9C, 10), (0xB5, 47), (0xC8, 226), (0xD0, 227),
      (0xC9, 230), (0xD1, 231), (0xCB, 228), (0xCD, 229),
      (0x97, 224), (0xCF, 225), (0xD2, 232), (0xD3, 233)]"

definition shiftmap :: "u8 \<Rightarrow> u32" where
  "shiftmap = table
     [0, 27, 33, 64, 35, 36, 37, 94, 38, 42, 40, 41, 95, 43, 8, 9,
      81, 87, 69, 82, 84, 89, 85, 73, 79, 80, 123, 125, 10, 0, 65, 83,
      68, 70, 71, 72, 74, 75, 76, 58, 34, 126, 0, 124, 90, 88, 67, 86,
      66, 78, 77, 60, 62, 63, 0, 42, 0, 32, 0, 0, 0, 0, 0, 0,
      0, 0, 0, 0, 0, 0, 0, 55, 56, 57, 45, 52, 53, 54, 43, 49,
      50, 51, 48, 46, 0, 0, 0, 0]
     [(0x9C, 10), (0xB5, 47), (0xC8, 226), (0xD0, 227),
      (0xC9, 230), (0xD1, 231), (0xCB, 228), (0xCD, 229),
      (0x97, 224), (0xCF, 225), (0xD2, 232), (0xD3, 233)]"

definition ctlmap :: "u8 \<Rightarrow> u32" where
  "ctlmap = table
     [0, 0, 0, 0, 0, 0, 0, 0, 0, 0, 0, 0, 0, 0, 0, 0,
      17, 23, 5, 18, 20, 25, 21, 9, 15, 16, 0, 0, 13, 0, 1, 19,
      4, 6, 7, 8, 10, 11, 12, 0, 0, 0, 0, 28, 26, 24, 3, 22,
      2, 14, 13, 0, 0, 239, 0, 0]
     [(0x9C, 13), (0xB5, 239), (0xC8, 226), (0xD0, 227),
      (0xC9, 230), (0xD1, 231), (0xCB, 228), (0xCD, 229),
      (0x97, 224), (0xCF, 225), (0xD2, 232), (0xD3, 233)]"

text \<open>\<open>charcode[shift & (CTL | SHIFT)]\<close>\<close>

definition charcode :: "u32 \<Rightarrow> u8 \<Rightarrow> u32" where
  "charcode i = (if i = 0 then normalmap else if i = 1 then shiftmap else ctlmap)"

definition kbdgetc :: "u8 \<Rightarrow> u32 \<Rightarrow> u32 \<times> u32" where
  "kbdgetc data shift =
     (if data = 0xE0 then (0, shift OR E0ESC)
      else if data AND 0x80 \<noteq> 0 then
        let data = (if shift AND E0ESC \<noteq> 0 then data else data AND 0x7F)
        in (0, shift AND NOT (shiftcode data OR E0ESC))
      else
        let (data, shift) = (if shift AND E0ESC \<noteq> 0 then (data OR 0x80, shift AND NOT E0ESC) else (data, shift));
            shift = shift OR shiftcode data;
            shift = shift XOR togglecode data;
            c = charcode (shift AND (CTL OR SHIFT)) data;
            c = (if shift AND CAPSLOCK \<noteq> 0 then
                   if 97 \<le> c \<and> c \<le> 122 then c + (65 - 97)
                   else if 65 \<le> c \<and> c \<le> 90 then c + (97 - 65) else c
                 else c)
        in (c, shift))"

text \<open>\<open>kbdintr\<close>: every byte that waits at the port becomes a character of \<open>consoleintr\<close>.\<close>

fun kbd_chars :: "u8 list \<Rightarrow> u32 \<Rightarrow> u8 list \<times> u32" where
  "kbd_chars [] shift = ([], shift)"
| "kbd_chars (d # ds) shift =
     (let (c, shift) = kbdgetc d shift; (cs, shift) = kbd_chars ds shift in (ucast c # cs, shift))"

definition kbdintr :: "u8 list \<Rightarrow> u32 \<Rightarrow> console \<Rightarrow> ((bool \<times> chan list) \<times> u32 \<times> console) res" where
  "kbdintr ds shift s =
     (let (cs, shift) = kbd_chars ds shift
      in bind_res (consoleintr cs s) (\<lambda>(r, s). Inr (r, shift, s)))"

text \<open>uart.c: the bytes of the serial line go to the console as they are.\<close>

definition uartintr :: "u8 list \<Rightarrow> console \<Rightarrow> ((bool \<times> chan list) \<times> console) res" where
  "uartintr = consoleintr"


subsection \<open>The held keys\<close>

lemma shift_bits:
  assumes "shift AND NOT 0x7F = 0"
  shows "snd (kbdgetc d shift) AND NOT 0x7F = 0"
proof -
  obtain m :: u32 where m: "m = NOT 0x7F" by blast
  have z: "m AND shiftcode e = 0" "m AND togglecode e = 0" "m AND E0ESC = 0" for e
    by (simp_all add: m shiftcode_def togglecode_def CTL_def SHIFT_def ALT_def CAPSLOCK_def NUMLOCK_def
        SCROLLLOCK_def E0ESC_def)
  have s: "m AND shift = 0" using assms by (simp only: m and.commute)
  have o: "m AND (a OR b) = 0" "m AND (a XOR b) = 0"
    if "m AND a = 0" "m AND b = 0" for a b :: u32
    using that by (simp_all add: bit.conj_disj_distrib bit.conj_xor_distrib)
  have k: "m AND (shift AND e) = 0" for e by (simp only: and.assoc [symmetric] s bit.conj_zero_left)
  have "m AND snd (kbdgetc d shift) = 0"
    by (simp add: kbdgetc_def Let_def o k s z split: prod.splits if_splits)
  then show ?thesis by (simp only: m and.commute)
qed

end
