(* ===== verification/Syscall.thy ===== *)
theory Syscall
  imports Sysfile Exec Kbd
begin

text \<open>
  syscall.c, sysproc.c and prac_syscall.c: fetching the arguments of a system call from the
  user stack through the page table, and the dispatch by number. The state \<open>world\<close> joins the
  processes with the console and the clock. A handler answers the value for the register eax
  (\<open>Done\<close>) or \<open>Asleep\<close> when the process gave up the CPU; a file operation that has to wait is
  \<open>Sleeps\<close> with its channel.
\<close>

record world =
  w_k :: kern
  w_con :: console
  w_ticks :: u32
  w_shift :: u32

definition on_k :: "(kern \<Rightarrow> ('a \<times> kern) res) \<Rightarrow> world \<Rightarrow> ('a \<times> world) res" where
  "on_k op w = bind_res (op (w_k w)) (\<lambda>(r, n). Inr (r, w\<lparr>w_k := n\<rparr>))"


subsection \<open>Memory as the processor sees it\<close>

text \<open>
  An access of the kernel to a virtual address. An absent page, or a write to a page that
  may not be written, is a page fault inside the kernel, which \<open>trap\<close> answers with a panic.
\<close>

definition translate :: "u32 \<Rightarrow> bool \<Rightarrow> u32 \<Rightarrow> kmem \<Rightarrow> u32 res" where
  "translate pgdir wr a k =
     (let pde = rd32 k (pgdir + 4 * PDX a) in
      if pde AND PTE_P = 0 \<or> wr \<and> pde AND PTE_W = 0 then Inl (Panic ''trap'')
      else
        let pte = rd32 k (P2V (PTE_ADDR pde) + 4 * PTX a) in
        if pte AND PTE_P = 0 \<or> wr \<and> pte AND PTE_W = 0 then Inl (Panic ''trap'')
        else Inr (P2V (PTE_ADDR pte) + (a AND 0xFFF)))"

definition load8 :: "u32 \<Rightarrow> u32 \<Rightarrow> kmem \<Rightarrow> u8 res" where
  "load8 pgdir a k = bind_res (translate pgdir False a k) (\<lambda>p. Inr (km_mem k (unat p)))"

definition load32 :: "u32 \<Rightarrow> u32 \<Rightarrow> kmem \<Rightarrow> u32 res" where
  "load32 pgdir a k =
     bind_res (load8 pgdir a k) (\<lambda>b0. bind_res (load8 pgdir (a + 1) k) (\<lambda>b1.
     bind_res (load8 pgdir (a + 2) k) (\<lambda>b2. bind_res (load8 pgdir (a + 3) k) (\<lambda>b3.
     Inr (get32 (list_mem [b0, b1, b2, b3]) 0)))))"

fun store :: "u32 \<Rightarrow> u32 \<Rightarrow> u8 list \<Rightarrow> kmem \<Rightarrow> kmem res" where
  "store pgdir a [] k = Inr k"
| "store pgdir a (b # bs) k =
     bind_res (translate pgdir True a k) (\<lambda>p.
     store pgdir (a + 1) bs (k\<lparr>km_mem := (km_mem k)(unat p := b)\<rparr>))"

definition word_bytes :: "u32 \<Rightarrow> u8 list" where
  "word_bytes v = bytes (put32 0 v (\<lambda>_. 0)) 0 4"

definition half_bytes :: "u16 \<Rightarrow> u8 list" where
  "half_bytes v = bytes (put16 0 v (\<lambda>_. 0)) 0 2"

definition store_user :: "nat \<Rightarrow> u32 \<Rightarrow> u8 list \<Rightarrow> world \<Rightarrow> world res" where
  "store_user me a bs w =
     bind_res (mem_do (store (p_pgdir (proc_of me (w_k w))) a bs) (w_k w)) (\<lambda>n. Inr (w\<lparr>w_k := n\<rparr>))"

text \<open>The bytes of a user buffer that a write hands on, and the accesses to the first \<open>len\<close> of them.\<close>

definition user_mem :: "u32 \<Rightarrow> u32 \<Rightarrow> kmem \<Rightarrow> mem" where
  "user_mem pgdir a k = (\<lambda>i. case load8 pgdir (a + of_nat i) k of Inl _ \<Rightarrow> 0 | Inr b \<Rightarrow> b)"

definition touch :: "u32 \<Rightarrow> u32 \<Rightarrow> nat \<Rightarrow> kmem \<Rightarrow> unit res" where
  "touch pgdir a len k = for_each (\<lambda>i _. bind_res (load8 pgdir (a + of_nat i) k) (\<lambda>_. Inr ())) [0..<len] ()"


subsection \<open>Arguments\<close>

text \<open>\<open>None\<close> is the result -1.\<close>

definition fetchint :: "u32 \<Rightarrow> nat \<Rightarrow> kern \<Rightarrow> u32 option res" where
  "fetchint addr me n =
     (let p = proc_of me n in
      if addr \<ge> p_sz p \<or> addr + 4 > p_sz p then Inr None
      else bind_res (load32 (p_pgdir p) addr (l_mem (n_f n))) (\<lambda>v. Inr (Some v)))"

lemma unat_Suc_32: "(s :: u32) < e \<Longrightarrow> unat (s + 1) = unat s + 1"
  using unat_add_nat_32 [of s 1] unat_less_32 [of e] by (simp add: word_less_nat_alt)

text \<open>The string without its final 0; the value returned is its length.\<close>

function fetch_loop :: "u32 \<Rightarrow> u32 \<Rightarrow> u32 \<Rightarrow> kmem \<Rightarrow> u8 list option res" where
  "fetch_loop pgdir s ep k =
     (if s \<ge> ep then Inr None
      else bind_res (load8 pgdir s k) (\<lambda>b.
        if b = 0 then Inr (Some [])
        else bind_res (fetch_loop pgdir (s + 1) ep k) (\<lambda>r. Inr (map_option ((#) b) r))))"
  by pat_completeness auto
termination
  by (relation "measure (\<lambda>(pgdir, s, ep, k). unat ep - unat s)")
     (auto simp: not_le unat_Suc_32 word_less_nat_alt)

declare fetch_loop.simps [simp del]

definition fetchstr :: "u32 \<Rightarrow> nat \<Rightarrow> kern \<Rightarrow> u8 list option res" where
  "fetchstr addr me n =
     (let p = proc_of me n in
      if addr \<ge> p_sz p then Inr None else fetch_loop (p_pgdir p) addr (p_sz p) (l_mem (n_f n)))"

definition argint :: "nat \<Rightarrow> nat \<Rightarrow> kern \<Rightarrow> u32 option res" where
  "argint i me n = fetchint (tf_esp (p_tf (proc_of me n)) + 4 + 4 * of_nat i) me n"

text \<open>\<open>if(x < 0 || f < 0) return -1;\<close>\<close>

definition and_then :: "'a option res \<Rightarrow> ('a \<Rightarrow> 'b option res) \<Rightarrow> 'b option res" where
  "and_then x f = bind_res x (\<lambda>r. case r of None \<Rightarrow> Inr None | Some v \<Rightarrow> f v)"

definition argptr :: "nat \<Rightarrow> int \<Rightarrow> nat \<Rightarrow> kern \<Rightarrow> u32 option res" where
  "argptr i len me n =
     and_then (argint i me n) (\<lambda>a.
     let sz = p_sz (proc_of me n) in
     Inr (if len < 0 \<or> a \<ge> sz \<or> a + of_int len > sz then None else Some a))"

definition argstr :: "nat \<Rightarrow> nat \<Rightarrow> kern \<Rightarrow> u8 list option res" where
  "argstr i me n = and_then (argint i me n) (\<lambda>a. fetchstr a me n)"

end
