(* ===== verification/Sysproc.thy ===== *)
theory Sysproc
  imports Syscall
begin

text \<open>
  The handlers of the system calls: the calls of sysfile.c with their arguments fetched and
  their results stored, those of sysproc.c and prac_syscall.c, and \<open>syscall\<close>, which finds the
  handler in the table of syscall.c. Every handler takes the slot of the running process.
\<close>

type_synonym handler = "nat \<Rightarrow> world \<Rightarrow> (u32 step \<times> world) res"

definition ret :: "int \<Rightarrow> world \<Rightarrow> (u32 step \<times> world) res" where
  "ret r w = Inr (Done (of_int r), w)"

abbreviation with_args :: "'a option res \<Rightarrow> ('a \<Rightarrow> world \<Rightarrow> (u32 step \<times> world) res) \<Rightarrow> world \<Rightarrow> (u32 step \<times> world) res" where
  "with_args x f w \<equiv> bind_res x (\<lambda>a. case a of None \<Rightarrow> ret (-1) w | Some v \<Rightarrow> f v w)"


subsection \<open>Calls on files\<close>

text \<open>
  An operation of sysfile.c on the open files and the directory of process \<open>me\<close>. A process
  that makes a system call has a working directory.
\<close>

definition files :: "nat \<Rightarrow> (sysf \<Rightarrow> ('a \<times> sysf) res) \<Rightarrow> world \<Rightarrow> ('a \<times> world) res" where
  "files me op = on_k (\<lambda>n.
     let p = proc_of me n in
     bind_res (deref ''cwd'' (p_cwd p)) (\<lambda>cwd.
     bind_res (file_call me (\<lambda>l.
         bind_res (op \<lparr>y_l = l, y_ofile = p_ofile p, y_cwd = cwd\<rparr>) (\<lambda>(r, y).
         Inr ((r, y_ofile y, y_cwd y), y_l y))) n) (\<lambda>((r, fs, cwd), n).
     Inr (r, upd_pr me (\<lambda>p. p\<lparr>p_ofile := fs, p_cwd := Some cwd\<rparr>) n))))"

definition int_call :: "nat \<Rightarrow> (sysf \<Rightarrow> (int \<times> sysf) res) \<Rightarrow> world \<Rightarrow> (u32 step \<times> world) res" where
  "int_call me op w = bind_res (files me op w) (\<lambda>(r, w). ret r w)"

text \<open>The first argument as a descriptor, and the file behind it.\<close>

definition fdarg :: "nat \<Rightarrow> kern \<Rightarrow> (int \<times> nat) option res" where
  "fdarg me n =
     and_then (argint 0 me n) (\<lambda>a.
     Inr (map_option (\<lambda>(fd, f). (int fd, f))
       (argfd (Some (sint a)) \<lparr>y_l = n_f n, y_ofile = p_ofile (proc_of me n), y_cwd = 0\<rparr>)))"

text \<open>Descriptor, file, count and buffer of the reads and writes, fetched in the order of the code.\<close>

definition rw_args :: "nat \<Rightarrow> kern \<Rightarrow> (int \<times> nat \<times> int \<times> u32) option res" where
  "rw_args me n =
     and_then (fdarg me n) (\<lambda>(fd, f).
     and_then (argint 2 me n) (\<lambda>len.
     and_then (argptr 1 (sint len) me n) (\<lambda>p.
     Inr (Some (fd, f, sint len, p)))))"

text \<open>
  What a read leaves in the user's buffer. A device is the console; \<open>moves\<close> moves the offset
  of the file, as \<open>fileread\<close> does and \<open>filepread\<close> does not.
\<close>

definition read_done :: "nat \<Rightarrow> nat \<Rightarrow> bool \<Rightarrow> int \<Rightarrow> u32 \<Rightarrow> fread \<Rightarrow> world \<Rightarrow> (u32 step \<times> world) res" where
  "read_done me f moves len p r w =
     (case r of
        FErr \<Rightarrow> ret (-1) w
      | FData cs \<Rightarrow> bind_res (store_user me p cs w) (ret (int (length cs)))
      | FDev _ \<Rightarrow>
          (case consoleread (p_killed (proc_of me (w_k w))) len (w_con w) of
             (PSleep _, _, _) \<Rightarrow> Inl (Sleeps ChInput)
           | (PRet v, cs, con) \<Rightarrow>
               bind_res (store_user me p cs (w\<lparr>w_con := con\<rparr>)) (\<lambda>w.
               let w = (if moves \<and> v > 0
                        then w\<lparr>w_k := (w_k w)\<lparr>n_f := upd_file f (\<lambda>x. x\<lparr>fi_off := fi_off x + of_int v\<rparr>) (n_f (w_k w))\<rparr>\<rparr>
                        else w)
               in ret v w)))"

definition k_read :: handler where
  "k_read me w =
     with_args (rw_args me (w_k w)) (\<lambda>(fd, f, len, p) w.
       bind_res (files me (sys_read (Some fd) True (Some len)) w) (\<lambda>(r, w).
       read_done me f True len p r w)) w"

definition k_pread :: handler where
  "k_pread me w =
     with_args (and_then (rw_args me (w_k w)) (\<lambda>a. and_then (argint 3 me (w_k w)) (\<lambda>off. Inr (Some (a, off)))))
       (\<lambda>((fd, f, len, p), off) w.
       bind_res (files me (sys_pread (Some fd) True (Some len) (Some (sint off))) w) (\<lambda>(r, w).
       read_done me f False len p r w)) w"

text \<open>
  A write hands on the bytes of the buffer; those it consumed must be present. What it sent to
  a device goes to the screen.
\<close>

definition write_done :: "nat \<Rightarrow> u32 \<Rightarrow> kmem \<Rightarrow> int \<Rightarrow> world \<Rightarrow> (u32 step \<times> world) res" where
  "write_done me p k r w =
     bind_res (touch (p_pgdir (proc_of me (w_k w))) p (nat r) k) (\<lambda>_.
     bind_res (for_each (\<lambda>(_, bs) con. bind_res (consolewrite bs con) (\<lambda>(_, con). Inr con))
                 (l_out (n_f (w_k w))) (w_con w)) (\<lambda>con.
     ret r (w\<lparr>w_con := con, w_k := (w_k w)\<lparr>n_f := (n_f (w_k w))\<lparr>l_out := []\<rparr>\<rparr>\<rparr>)))"

definition k_write :: handler where
  "k_write me w =
     with_args (rw_args me (w_k w)) (\<lambda>(fd, f, len, p) w.
       let k = l_mem (n_f (w_k w));
           src = user_mem (p_pgdir (proc_of me (w_k w))) p k
       in bind_res (files me (sys_write (Some fd) (Some src) (Some len)) w) (\<lambda>(r, w).
          write_done me p k r w)) w"

definition k_pwrite :: handler where
  "k_pwrite me w =
     with_args (and_then (rw_args me (w_k w)) (\<lambda>a. and_then (argint 3 me (w_k w)) (\<lambda>off. Inr (Some (a, off)))))
       (\<lambda>((fd, f, len, p), off) w.
       let k = l_mem (n_f (w_k w));
           src = user_mem (p_pgdir (proc_of me (w_k w))) p k
       in bind_res (files me (sys_pwrite (Some fd) (Some src) (Some len) (Some (sint off))) w) (\<lambda>(r, w).
          write_done me p k r w)) w"

definition k_dup :: handler where
  "k_dup me w = with_args (fdarg me (w_k w)) (\<lambda>(fd, _). int_call me (sys_dup (Some fd))) w"

definition k_close :: handler where
  "k_close me w = with_args (fdarg me (w_k w)) (\<lambda>(fd, _). int_call me (sys_close (Some fd))) w"

text \<open>\<open>struct stat\<close> has two bytes of padding behind each of its short fields.\<close>

definition store_stat :: "nat \<Rightarrow> u32 \<Rightarrow> stat \<Rightarrow> world \<Rightarrow> world res" where
  "store_stat me p st w =
     bind_res (store_user me (p + 4) (word_bytes (stat_dev st)) w) (\<lambda>w.
     bind_res (store_user me (p + 8) (word_bytes (stat_ino st)) w) (\<lambda>w.
     bind_res (store_user me p (half_bytes (stat_type st)) w) (\<lambda>w.
     bind_res (store_user me (p + 12) (half_bytes (stat_nlink st)) w) (\<lambda>w.
     store_user me (p + 16) (word_bytes (stat_size st)) w))))"

definition k_fstat :: handler where
  "k_fstat me w =
     with_args (and_then (fdarg me (w_k w)) (\<lambda>(fd, _). and_then (argptr 1 20 me (w_k w)) (\<lambda>p. Inr (Some (fd, p)))))
       (\<lambda>(fd, p) w. bind_res (files me (sys_fstat (Some fd) True) w) (\<lambda>(r, w).
         case r of None \<Rightarrow> ret (-1) w | Some st \<Rightarrow> bind_res (store_stat me p st w) (ret 0))) w"

definition k_link :: handler where
  "k_link me w =
     with_args (and_then (argstr 0 me (w_k w)) (\<lambda>old. and_then (argstr 1 me (w_k w)) (\<lambda>new. Inr (Some (old, new)))))
       (\<lambda>(old, new). int_call me (sys_link (Some old) (Some new))) w"

definition k_unlink :: handler where
  "k_unlink me w = with_args (argstr 0 me (w_k w)) (\<lambda>path. int_call me (sys_unlink (Some path))) w"

definition k_open :: handler where
  "k_open me w =
     with_args (and_then (argstr 0 me (w_k w)) (\<lambda>path. and_then (argint 1 me (w_k w)) (\<lambda>m. Inr (Some (path, m)))))
       (\<lambda>(path, m). int_call me (sys_open (Some path) (Some m))) w"

text \<open>These fetch their arguments inside the transaction; a missing one ends it with -1.\<close>

definition k_mkdir :: handler where
  "k_mkdir me w = bind_res (argstr 0 me (w_k w)) (\<lambda>path. int_call me (sys_mkdir path) w)"

definition k_mknod :: handler where
  "k_mknod me w =
     bind_res (and_then (argstr 0 me (w_k w)) (\<lambda>path. and_then (argint 1 me (w_k w)) (\<lambda>a.
               and_then (argint 2 me (w_k w)) (\<lambda>b. Inr (Some (path, a, b)))))) (\<lambda>r.
     case r of
       None \<Rightarrow> int_call me (sys_mknod None None None) w
     | Some (path, a, b) \<Rightarrow> int_call me (sys_mknod (Some path) (Some (ucast a)) (Some (ucast b))) w)"

definition k_chdir :: handler where
  "k_chdir me w = bind_res (argstr 0 me (w_k w)) (\<lambda>path. int_call me (sys_chdir path) w)"

definition k_pipe :: handler where
  "k_pipe me w =
     with_args (argptr 0 8 me (w_k w)) (\<lambda>p w.
       bind_res (files me (sys_pipe True) w) (\<lambda>(r, w).
       case r of
         None \<Rightarrow> ret (-1) w
       | Some (fd0, fd1) \<Rightarrow>
           bind_res (store_user me p (word_bytes (of_int fd0) @ word_bytes (of_int fd1)) w) (ret 0))) w"

definition k_sync :: handler where
  "k_sync me w = int_call me sys_sync w"

definition k_get_log_num :: handler where
  "k_get_log_num me w = int_call me (\<lambda>y. Inr (sys_get_log_num y, y)) w"


subsection \<open>exec\<close>

fun exec_args :: "nat list \<Rightarrow> u32 \<Rightarrow> nat \<Rightarrow> kern \<Rightarrow> u8 list list option res" where
  "exec_args [] uargv me n = Inr None"
| "exec_args (i # is) uargv me n =
     and_then (fetchint (uargv + 4 * of_nat i) me n) (\<lambda>uarg.
     if uarg = 0 then Inr (Some [])
     else and_then (fetchstr uarg me n) (\<lambda>s. and_then (exec_args is uargv me n) (\<lambda>ss. Inr (Some (s # ss)))))"

definition k_exec :: handler where
  "k_exec me w =
     with_args (and_then (argstr 0 me (w_k w)) (\<lambda>path. and_then (argint 1 me (w_k w)) (\<lambda>uargv.
                and_then (exec_args [0..<MAXARG] uargv me (w_k w)) (\<lambda>argv. Inr (Some (path, argv))))))
       (\<lambda>(path, argv) w. bind_res (on_k (exec me path argv) w) (\<lambda>(r, w). ret r w)) w"


subsection \<open>sysproc.c\<close>

definition k_yield :: handler where
  "k_yield me w = bind_res (yield me (n_p (w_k w))) (\<lambda>s. Inr (Asleep, w\<lparr>w_k := (w_k w)\<lparr>n_p := s\<rparr>\<rparr>))"

definition k_fork :: handler where
  "k_fork me w = bind_res (on_k (fork me) w) (\<lambda>(r, w). ret r w)"

text \<open>\<open>exit\<close> does not return.\<close>

definition k_exit :: handler where
  "k_exit me w = bind_res (on_k (exit me) w) (\<lambda>(_, w). Inr (Asleep, w))"

definition step_ret :: "(int step \<times> world) res \<Rightarrow> (u32 step \<times> world) res" where
  "step_ret r = bind_res r (\<lambda>(r, w). case r of Asleep \<Rightarrow> Inr (Asleep, w) | Done v \<Rightarrow> ret v w)"

definition k_wait :: handler where
  "k_wait me w = step_ret (on_k (wait me) w)"

definition k_kill :: handler where
  "k_kill me w =
     with_args (argint 0 me (w_k w)) (\<lambda>pid w.
       let (r, s) = kill (sint pid) (n_p (w_k w)) in ret r (w\<lparr>w_k := (w_k w)\<lparr>n_p := s\<rparr>\<rparr>)) w"

definition k_getppid :: handler where
  "k_getppid me w = bind_res (getppid me (n_p (w_k w))) (\<lambda>pid. ret pid w)"

definition k_getpid :: handler where
  "k_getpid me w = ret (p_pid (proc_of me (w_k w))) w"

definition k_sbrk :: handler where
  "k_sbrk me w =
     with_args (argint 0 me (w_k w)) (\<lambda>d w.
       bind_res (deref ''sys_sbrk: master'' (p_master (proc_of me (w_k w)))) (\<lambda>m.
       let addr = p_sz (proc_of m (w_k w)) in
       bind_res (on_k (growproc me (sint d)) w) (\<lambda>(r, w).
       if r < 0 then ret (-1) w else Inr (Done addr, w)))) w"

text \<open>
  One test of the loop of \<open>sys_sleep\<close>: \<open>ticks - ticks0 < n\<close> compares unsigned words. After a
  wakeup the test is made again with the same \<open>ticks0\<close>.
\<close>

definition sleep_round :: "u32 \<Rightarrow> u32 \<Rightarrow> handler" where
  "sleep_round ticks0 n me w =
     (if w_ticks w - ticks0 < n then
        if p_killed (proc_of me (w_k w)) then ret (-1) w
        else bind_res (sched me (sleep_on (Some ChTicks) me (n_p (w_k w)))) (\<lambda>s.
             Inr (Asleep, w\<lparr>w_k := (w_k w)\<lparr>n_p := s\<rparr>\<rparr>))
      else ret 0 w)"

definition k_sleep :: handler where
  "k_sleep me w = with_args (argint 0 me (w_k w)) (\<lambda>n w. sleep_round (w_ticks w) n me w) w"

definition k_uptime :: handler where
  "k_uptime me w = Inr (Done (w_ticks w), w)"

definition k_getlev :: handler where
  "k_getlev me w = bind_res (getlev me (n_p (w_k w))) (\<lambda>r. ret r w)"

definition k_set_cpu_share :: handler where
  "k_set_cpu_share me w =
     with_args (argint 0 me (w_k w)) (\<lambda>a w.
       bind_res (set_cpu_share me (sint a) (n_p (w_k w))) (\<lambda>(r, s).
       ret r (w\<lparr>w_k := (w_k w)\<lparr>n_p := s\<rparr>\<rparr>))) w"

text \<open>The place for the thread number and the place for the result are not checked.\<close>

definition k_thread_create :: handler where
  "k_thread_create me w =
     with_args (and_then (argint 0 me (w_k w)) (\<lambda>t. and_then (argint 1 me (w_k w)) (\<lambda>start.
                and_then (argint 2 me (w_k w)) (\<lambda>arg. Inr (Some (t, start, arg))))))
       (\<lambda>(t, start, arg) w.
         bind_res (on_k (thread_create me start arg) w) (\<lambda>((r, tid), w).
         case tid of
           None \<Rightarrow> ret r w
         | Some tid \<Rightarrow> bind_res (store_user me t (word_bytes (of_int tid)) w) (ret r))) w"

text \<open>A failed \<open>argint\<close> leaves \<open>retval\<close> without a value: \<open>garbage\<close>.\<close>

definition k_thread_exit :: "u32 \<Rightarrow> handler" where
  "k_thread_exit garbage me w =
     bind_res (argint 0 me (w_k w)) (\<lambda>a.
     let retval = (case a of None \<Rightarrow> garbage | Some v \<Rightarrow> v) in
     bind_res (thread_exit me retval (w_k w)) (\<lambda>n. Inr (Asleep, w\<lparr>w_k := n\<rparr>)))"

definition k_thread_join :: handler where
  "k_thread_join me w =
     with_args (and_then (argint 0 me (w_k w)) (\<lambda>t. and_then (argint 1 me (w_k w)) (\<lambda>p. Inr (Some (t, p)))))
       (\<lambda>(t, p) w.
         bind_res (on_k (thread_join me (sint t)) w) (\<lambda>(r, w).
         case r of
           Asleep \<Rightarrow> Inr (Asleep, w)
         | Done (v, None) \<Rightarrow> ret v w
         | Done (v, Some x) \<Rightarrow> bind_res (store_user me p (word_bytes x) w) (ret v))) w"

text \<open>prac_syscall.c: prints its argument.\<close>

definition printk_str :: "u8 list \<Rightarrow> console \<Rightarrow> (u32 \<times> console) res" where
  "printk_str str con = bind_res (cprintf (\<lambda>_. str) [37, 115, 110] [1] con) (\<lambda>con. Inr (0xABCDABCD, con))"

definition k_myfunction :: handler where
  "k_myfunction me w =
     with_args (argstr 0 me (w_k w)) (\<lambda>str w.
       bind_res (printk_str str (w_con w)) (\<lambda>(r, con). Inr (Done r, w\<lparr>w_con := con\<rparr>))) w"


subsection \<open>The table of system calls\<close>

definition syscalls :: "u32 \<Rightarrow> (int \<times> handler) list" where
  "syscalls garbage =
     [(1, k_fork), (2, k_exit), (3, k_wait), (4, k_pipe), (5, k_read), (6, k_kill), (7, k_exec),
      (8, k_fstat), (9, k_chdir), (10, k_dup), (11, k_getpid), (12, k_sbrk), (13, k_sleep),
      (14, k_uptime), (15, k_open), (16, k_write), (17, k_mknod), (18, k_unlink), (19, k_link),
      (20, k_mkdir), (21, k_close), (22, k_myfunction), (23, k_getppid), (24, k_yield),
      (25, k_getlev), (26, k_set_cpu_share), (27, k_thread_create), (28, k_thread_join),
      (29, k_thread_exit garbage), (30, k_pread), (31, k_pwrite), (32, k_sync), (33, k_get_log_num)]"

definition set_eax :: "nat \<Rightarrow> u32 \<Rightarrow> world \<Rightarrow> world" where
  "set_eax me v w =
     w\<lparr>w_k := upd_pr me (\<lambda>p. p\<lparr>p_tf := (p_tf p)\<lparr>tf_eax := v\<rparr>\<rparr>) (w_k w)\<rparr>"

text \<open>
  \<open>syscall\<close>: an unknown number answers -1 after a message on the console. The value of a call
  that gave up the CPU is stored when it goes on.
\<close>

definition unknown_call :: "nat \<Rightarrow> int \<Rightarrow> world \<Rightarrow> (unit step \<times> world) res" where
  "unknown_call me num w =
     (let p = proc_of me (w_k w);
          fmt = map (of_nat \<circ> of_char) ''%d %s: unknown sys call %d'' @ [10]
      in bind_res (cprintf (\<lambda>_. takeWhile (\<lambda>c. c \<noteq> 0) (p_name p)) fmt [of_int (p_pid p), 1, of_int num] (w_con w)) (\<lambda>con.
         Inr (Done (), set_eax me (-1) (w\<lparr>w_con := con\<rparr>))))"

definition syscall :: "u32 \<Rightarrow> nat \<Rightarrow> world \<Rightarrow> (unit step \<times> world) res" where
  "syscall garbage me w =
     (let num = sint (tf_eax (p_tf (proc_of me (w_k w)))) in
      case map_of (syscalls garbage) num of
        Some f \<Rightarrow> bind_res (f me w) (\<lambda>(r, w).
          case r of Asleep \<Rightarrow> Inr (Asleep, w) | Done v \<Rightarrow> Inr (Done (), set_eax me v w))
      | None \<Rightarrow> unknown_call me num w)"

end
