(* ===== verification/Trap.thy ===== *)
theory Trap
  imports Sysproc
begin

text \<open>
  trap.c: from the machine's traps to the system calls, the device interrupts and the scheduler.
  What the hardware adds is a record: the number of the processor, the faulting address, the
  bytes waiting at the keyboard and at the serial line, and the word an uninitialised variable
  holds. A trap \<open>Returns\<close> to what it interrupted, or the process gave up the CPU (\<open>GaveUp\<close>) and
  \<open>trap_end\<close> is what it runs when it goes on.
\<close>

definition T_SYSCALL :: u32 where "T_SYSCALL = 64"
definition T_IRQ0 :: u32 where "T_IRQ0 = 32"
definition DPL_USER :: u16 where "DPL_USER = 3"

record hw =
  hw_cpu :: nat
  hw_cr2 :: u32
  hw_kbd :: "u8 list"
  hw_uart :: "u8 list"
  hw_word :: u32

datatype after = Returns | GaveUp

abbreviation on_s :: "(kst \<Rightarrow> kst) \<Rightarrow> world \<Rightarrow> world" where
  "on_s g w \<equiv> w\<lparr>w_k := on_p g (w_k w)\<rparr>"

definition quit :: "nat \<Rightarrow> world \<Rightarrow> (after \<times> world) res" where
  "quit me w = bind_res (k_exit me w) (\<lambda>(_, w). Inr (GaveUp, w))"

text \<open>\<open>if(myproc() && myproc()->killed && (tf->cs&3) == DPL_USER) exit();\<close>\<close>

definition kill_check :: "nat option \<Rightarrow> trapframe \<Rightarrow> world \<Rightarrow> (after \<times> world) res" where
  "kill_check me tf w =
     (case me of
        None \<Rightarrow> Inr (Returns, w)
      | Some i \<Rightarrow> if p_killed (proc_of i (w_k w)) \<and> tf_cs tf AND 3 = DPL_USER then quit i w
                  else Inr (Returns, w))"

definition trap_end :: "nat option \<Rightarrow> trapframe \<Rightarrow> world \<Rightarrow> (after \<times> world) res" where
  "trap_end = kill_check"

definition trap_syscall :: "hw \<Rightarrow> nat \<Rightarrow> trapframe \<Rightarrow> world \<Rightarrow> (after \<times> world) res" where
  "trap_syscall h me tf w =
     (if p_killed (proc_of me (w_k w)) then quit me w
      else
        let w = on_s (upd_proc me (\<lambda>p. p\<lparr>p_tf := tf\<rparr>)) w in
        bind_res (syscall (hw_word h) me w) (\<lambda>(r, w).
        case r of
          Asleep \<Rightarrow> Inr (GaveUp, w)
        | Done _ \<Rightarrow> if p_killed (proc_of me (w_k w)) then quit me w else Inr (Returns, w)))"

definition clock_tick :: "world \<Rightarrow> world" where
  "clock_tick w = on_s (wakeup ChTicks) (w\<lparr>w_ticks := w_ticks w + 1\<rparr>)"

text \<open>The wakeups of \<open>consoleintr\<close>; the listing of processes that ^P asks for is only printed.\<close>

definition typed :: "(bool \<times> chan list) \<Rightarrow> world \<Rightarrow> world" where
  "typed = (\<lambda>(_, ws). on_s (fold wakeup ws))"

definition print_con :: "(u32 \<Rightarrow> u8 list) \<Rightarrow> string \<Rightarrow> u32 list \<Rightarrow> world \<Rightarrow> world res" where
  "print_con str fmt args w =
     bind_res (cprintf str (map (of_nat \<circ> of_char) fmt @ [10]) args (w_con w)) (\<lambda>con. Inr (w\<lparr>w_con := con\<rparr>))"

definition bad_trap :: "hw \<Rightarrow> nat \<Rightarrow> trapframe \<Rightarrow> world \<Rightarrow> world res" where
  "bad_trap h me tf w =
     (let p = proc_of me (w_k w) in
      bind_res (print_con (\<lambda>_. takeWhile (\<lambda>c. c \<noteq> 0) (p_name p))
          ''pid %d %s: trap %d err %d on cpu %d eip 0x%x addr 0x%x--kill proc''
          [of_int (p_pid p), 1, tf_trapno tf, tf_err tf, of_nat (hw_cpu h), tf_eip tf, hw_cr2 h] w) (\<lambda>w.
      Inr (on_s (upd_proc me (\<lambda>p. p\<lparr>p_killed := True\<rparr>)) w)))"

text \<open>The switch: the disk of memide.c needs no interrupt.\<close>

definition trap_device :: "hw \<Rightarrow> nat option \<Rightarrow> trapframe \<Rightarrow> world \<Rightarrow> world res" where
  "trap_device h me tf w =
     (let t = tf_trapno tf in
      if t = T_IRQ0 then Inr (if hw_cpu h = 0 then clock_tick w else w)
      else if t = T_IRQ0 + 14 \<or> t = T_IRQ0 + 15 then Inr w
      else if t = T_IRQ0 + 1 then
        bind_res (kbdintr (hw_kbd h) (w_shift w) (w_con w)) (\<lambda>(r, shift, con).
        Inr (typed r (w\<lparr>w_shift := shift, w_con := con\<rparr>)))
      else if t = T_IRQ0 + 4 then
        bind_res (uartintr (hw_uart h) (w_con w)) (\<lambda>(r, con). Inr (typed r (w\<lparr>w_con := con\<rparr>)))
      else if t = T_IRQ0 + 7 \<or> t = T_IRQ0 + 31 then
        print_con (\<lambda>_. []) ''cpu%d: spurious interrupt at %x:%x''
          [of_nat (hw_cpu h), ucast (tf_cs tf), tf_eip tf] w
      else case me of
        None \<Rightarrow> Inl (Panic ''trap'')
      | Some i \<Rightarrow> if tf_cs tf AND 3 = 0 then Inl (Panic ''trap'') else bad_trap h i tf w)"

text \<open>
  A clock tick of the running process: it yields when its quantum is over, else it hands over
  to another ready thread of its process.
\<close>

definition trap_tick :: "nat \<Rightarrow> world \<Rightarrow> (after \<times> world) res" where
  "trap_tick me w =
     bind_res (add_tick me (n_p (w_k w))) (\<lambda>(b, s).
     let w = on_s (\<lambda>_. s) w in
     if b then bind_res (yield me s) (\<lambda>s. Inr (GaveUp, on_s (\<lambda>_. s) w))
     else if isRunnable (p_pid (ptable s me)) s then
       bind_res (yield_thread me s) (\<lambda>(i, s). Inr (if i = me then Returns else GaveUp, on_s (\<lambda>_. s) w))
     else if p_killed (ptable s me) \<or> p_state (ptable s me) \<noteq> RUNNING then quit me w
     else Inr (Returns, w))"

text \<open>\<open>a;\<close> and, when it returned, \<open>f\<close>.\<close>

definition and_next :: "(after \<times> world) res \<Rightarrow> (world \<Rightarrow> (after \<times> world) res) \<Rightarrow> (after \<times> world) res" where
  "and_next a f = bind_res a (\<lambda>(r, w). case r of GaveUp \<Rightarrow> Inr (GaveUp, w) | Returns \<Rightarrow> f w)"

definition trap :: "hw \<Rightarrow> nat option \<Rightarrow> trapframe \<Rightarrow> world \<Rightarrow> (after \<times> world) res" where
  "trap h me tf w =
     (if tf_trapno tf = T_SYSCALL then
        bind_res (deref ''trap: myproc'' me) (\<lambda>i. trap_syscall h i tf w)
      else
        bind_res (trap_device h me tf w) (\<lambda>w.
        and_next (kill_check me tf w) (\<lambda>w.
        and_next
          (case me of
             Some i \<Rightarrow> if p_state (proc_of i (w_k w)) = RUNNING \<and> tf_trapno tf = T_IRQ0
                       then trap_tick i w else Inr (Returns, w)
           | None \<Rightarrow> Inr (Returns, w)) (\<lambda>w.
        trap_end me tf w))))"

end
