(* ===== verification/Call_Correct.thy ===== *)
theory Call_Correct
  imports Trap Vm_Correct Sched_Correct Fs_Example
begin

text \<open>
  What the system call boundary guarantees and where it fails: the checks of pointers, the
  strings of the user, the console, and two ways a program brings the kernel down.
\<close>

subsection \<open>Reading the user's memory\<close>

lemma translate_read:
  "translate pgdir False a k =
     (if pte k pgdir a AND PTE_P = 0 then Inl (Panic ''trap'')
      else Inr (frame k pgdir a + (a AND 0xFFF)))"
  by (auto simp: translate_def pte_def has_tab_def tab_def frame_def Let_def PTE_P_def)

lemma frame_aligned: "unat (frame k pgdir a) mod PGSIZE = 0"
proof -
  let ?x = "PTE_ADDR (pte k pgdir a)"
  have "?x AND 0xFFF = 0" by (simp add: PTE_ADDR_def and.assoc)
  then have x: "unat ?x mod 4096 = 0" using unat_and_low(1) [of ?x] by simp
  then obtain q where q: "unat ?x = 4096 * q" by (metis mod_0_imp_dvd dvdE)
  have k: "unat (0x80000000 :: u32) = 4096 * 0x80000" "(2 :: nat) ^ LENGTH(32) = 4096 * 0x100000" by simp_all
  have "unat (?x + 0x80000000) = (4096 * q + 4096 * 0x80000) mod (4096 * 0x100000)"
    unfolding unat_word_ariths(1) q k ..
  also have "\<dots> = 4096 * ((q + 0x80000) mod 0x100000)"
    by (simp only: distrib_left [symmetric] mult_mod_right)
  finally show ?thesis by (simp only: frame_def P2V_def KERNBASE_def PGSIZE_def mod_mult_self1_is_0)
qed

lemma page_add_32:
  assumes "unat (b :: u32) mod 4096 = 0" and "unat (e :: u32) < 4096"
  shows "unat (b + e) = unat b + unat e"
proof (rule unat_add_32)
  obtain q where q: "unat b = 4096 * q" using assms(1) by (metis mod_0_imp_dvd dvdE)
  then have "q < 2 ^ 20" using unat_less_32 [of b] by simp
  then show "unat b + unat e < 2 ^ 32" using q assms(2) by simp
qed

lemma load8_ubyte:
  "pte k pgdir a AND PTE_P \<noteq> 0 \<Longrightarrow> load8 pgdir a k = Inr (ubyte k pgdir a)"
  using page_add_32 [of "frame k pgdir a" "a AND 0xFFF"] frame_aligned [of k pgdir a]
  by (simp add: load8_def translate_read ubyte_def unat_and_low PGSIZE_def)

lemma load8_hole: "pte k pgdir a AND PTE_P = 0 \<Longrightarrow> load8 pgdir a k = Inl (Panic ''trap'')"
  by (simp add: load8_def translate_read)

text \<open>The bytes of the user's memory from \<open>s\<close> up to \<open>e\<close>.\<close>

definition user_bytes :: "kmem \<Rightarrow> u32 \<Rightarrow> u32 \<Rightarrow> u32 \<Rightarrow> u8 list" where
  "user_bytes k pgdir s e = map (\<lambda>i. ubyte k pgdir (s + of_nat i)) [0..<unat e - unat s]"

lemma user_bytes_Cons:
  assumes "s < e"
  shows "user_bytes k pgdir s e = ubyte k pgdir s # user_bytes k pgdir (s + 1) e"
proof -
  have "unat e - unat s = Suc (unat e - unat (s + 1))"
    using assms unat_Suc_32 [OF assms] by (simp add: word_less_nat_alt)
  then show ?thesis
    by (simp add: user_bytes_def upt_conv_Cons map_Suc_upt [symmetric] algebra_simps del: upt_Suc)
qed

lemma fetch_loop_spec:
  assumes "\<And>a. s \<le> a \<Longrightarrow> a < ep \<Longrightarrow> pte k pgdir a AND PTE_P \<noteq> 0"
  shows "fetch_loop pgdir s ep k =
    Inr (let bs = user_bytes k pgdir s ep in if 0 \<in> set bs then Some (takeWhile (\<lambda>b. b \<noteq> 0) bs) else None)"
  using assms
proof (induction pgdir s ep k rule: fetch_loop.induct)
  case (1 pgdir s ep k)
  show ?case
  proof (cases "s < ep")
    case False
    then show ?thesis by (simp add: fetch_loop.simps [of _ s] user_bytes_def word_less_nat_alt word_le_nat_alt)
  next
    case True
    have b: "load8 pgdir s k = Inr (ubyte k pgdir s)" using 1(2) [of s] True by (simp add: load8_ubyte)
    have n: "s \<le> a" if "s + 1 \<le> a" for a
      using that unat_Suc_32 [OF True] by (simp add: word_le_nat_alt)
    show ?thesis
    proof (cases "ubyte k pgdir s = 0")
      case True
      then show ?thesis using \<open>s < ep\<close> b by (simp add: fetch_loop.simps [of _ s] user_bytes_Cons [OF \<open>s < ep\<close>])
    next
      case False
      have "fetch_loop pgdir (s + 1) ep k = Inr (let bs = user_bytes k pgdir (s + 1) ep in
          if 0 \<in> set bs then Some (takeWhile (\<lambda>b. b \<noteq> 0) bs) else None)"
        using 1(1) [OF _ b False] 1(2) n True by (simp add: not_le)
      then show ?thesis using True b False
        by (simp add: fetch_loop.simps [of _ s] user_bytes_Cons [OF True] Let_def not_le)
    qed
  qed
qed



subsection \<open>A small machine\<close>

text \<open>
  Process 0 of the demonstration table with one page of memory (page 0, in the tables of
  \<open>demo_user\<close>) and a size of \<open>sz\<close>, its user stack pointer at \<open>esp\<close>.
\<close>

definition call_tf :: "u32 \<Rightarrow> u32 \<Rightarrow> trapframe" where
  "call_tf eax esp = user_tf\<lparr>tf_trapno := T_SYSCALL, tf_eax := eax, tf_esp := esp\<rparr>"

definition demo_kern :: "u32 \<Rightarrow> u32 \<Rightarrow> kern" where
  "demo_kern sz esp =
     \<lparr>n_p = upd_proc 0 (\<lambda>p. p\<lparr>p_pgdir := 0x80200000, p_sz := sz, p_tf := call_tf 0 esp, p_killed := False\<rparr>)
              (demo RUNNING),
      n_f = \<lparr>l_fs = demo_fs, l_file = \<lambda>_. \<lparr>fi_type = FD_NONE, fi_ref = 0, fi_readable = False,
               fi_writable = False, fi_pipe = 0, fi_ip = 0, fi_off = 0\<rparr>,
             l_pipe = \<lambda>_. new_pipe (\<lambda>_. 0), l_mem = demo_user, l_killed = False, l_wakes = [], l_out = []\<rparr>\<rparr>"

definition demo_console :: console where
  "demo_console = \<lparr>co_buf = \<lambda>_. 0, co_r = 0, co_w = 0, co_e = 0, co_crt = \<lambda>_. 0, co_pos = 0, co_uart = []\<rparr>"

definition demo_world :: "u32 \<Rightarrow> u32 \<Rightarrow> world" where
  "demo_world sz esp = \<lparr>w_k = demo_kern sz esp, w_con = demo_console, w_ticks = 0, w_shift = 0\<rparr>"

lemma demo_kern_sel [simp]:
  "p_pgdir (proc_of 0 (demo_kern sz esp)) = 0x80200000" "p_sz (proc_of 0 (demo_kern sz esp)) = sz"
  "tf_esp (p_tf (proc_of 0 (demo_kern sz esp))) = esp" "p_killed (proc_of 0 (demo_kern sz esp)) = False"
  "l_mem (n_f (demo_kern sz esp)) = demo_user" "w_k (demo_world sz esp) = demo_kern sz esp"
  by (simp_all add: demo_kern_def demo_world_def call_tf_def)


lemma demo_load:
  assumes "unat a < 4096"
  shows "load8 0x80200000 a demo_user = Inr 0"
proof -
  have pg: "page a = 0" using assms by (simp add: page_def PGSIZE_def)
  have "frame demo_user 0x80200000 a = 0x80202000"
    by (simp add: frame_def demo_user_pte pg PTE_ADDR_def P2V_def KERNBASE_def)
  moreover have "unat a mod 4096 = unat a" using assms by simp
  ultimately have "ubyte demo_user 0x80200000 a = 0"
    using assms by (simp add: ubyte_def demo_user_def put32_def PGSIZE_def)
  then show ?thesis using load8_ubyte [of demo_user "0x80200000" a] by (simp add: demo_user_pte pg PTE_P_def)
qed

lemma demo_arg:
  "argint 0 0 (demo_kern 0x1000 0) = Inr (Some 0)"
  by (simp add: argint_def fetchint_def load32_def demo_load)
     (simp add: get32_def list_mem_def)


subsection \<open>Properties\<close>

text \<open>
  C31: argptr accepts a buffer exactly when it lies below the size of the process in
  unbounded arithmetic: no length and no address wraps around its 32-bit test.
\<close>

theorem argptr_checks_bounds:
  fixes len :: int
  assumes "p_sz (proc_of me n) \<le> KERNBASE" and "len < 2 ^ 31"
  shows "argptr i len me n = bind_res (argint i me n) (\<lambda>r. Inr (case r of
      None \<Rightarrow> None
    | Some a \<Rightarrow> if 0 \<le> len \<and> unat a < unat (p_sz (proc_of me n))
                   \<and> unat a + nat len \<le> unat (p_sz (proc_of me n)) then Some a else None))"
proof -
  let ?sz = "p_sz (proc_of me n)"
  have sz: "unat ?sz \<le> 2 ^ 31" using assms(1) by (simp add: KERNBASE_def word_le_nat_alt)
  have "(len < 0 \<or> a \<ge> ?sz \<or> a + of_int len > ?sz)
      \<longleftrightarrow> \<not> (0 \<le> len \<and> unat a < unat ?sz \<and> unat a + nat len \<le> unat ?sz)" for a :: u32
  proof (cases "0 \<le> len \<and> unat a < unat ?sz")
    case True
    have "nat len < 2 ^ 31" using assms(2) by simp
    then have "unat a + nat len < 2 ^ 32" using True sz by simp
    then have "unat (a + of_int len) = unat a + nat len"
      using True unat_add_nat_32 [of a "nat len"] by simp
    then show ?thesis using True by (auto simp: word_less_nat_alt word_le_nat_alt)
  qed (auto simp: word_less_nat_alt word_le_nat_alt)
  then show ?thesis
    by (auto simp: argptr_def and_then_def Let_def intro!: arg_cong2 [where f = bind_res] split: option.splits)
qed

theorem argptr_checks_bounds_witness:
  "argptr 0 0x1000 0 (demo_kern 0x1000 0) = Inr (Some 0) \<and> argptr 0 0x1001 0 (demo_kern 0x1000 0) = Inr None"
  using argptr_checks_bounds [where me = 0 and n = "demo_kern 0x1000 0" and len = "0x1000" and i = 0]
    argptr_checks_bounds [where me = 0 and n = "demo_kern 0x1000 0" and len = "0x1001" and i = 0]
  by (simp add: demo_arg KERNBASE_def word_le_nat_alt)

theorem fetchstr_reads_string:
  assumes "\<forall>a. addr \<le> a \<and> a < p_sz (proc_of me n) \<longrightarrow>
    pte (l_mem (n_f n)) (p_pgdir (proc_of me n)) a AND PTE_P \<noteq> 0"
  shows "fetchstr addr me n = Inr
    (let bs = user_bytes (l_mem (n_f n)) (p_pgdir (proc_of me n)) addr (p_sz (proc_of me n))
     in if 0 \<in> set bs then Some (takeWhile (\<lambda>b. b \<noteq> 0) bs) else None)"
proof (cases "addr \<ge> p_sz (proc_of me n)")
  case True
  then show ?thesis by (simp add: fetchstr_def user_bytes_def word_le_nat_alt)
next
  case False
  then show ?thesis using fetch_loop_spec assms by (simp add: fetchstr_def Let_def)
qed

theorem fetchstr_reads_string_witness:
  "fetchstr 0xFFE 0 (demo_kern 0x1000 0) = Inr (Some [])"
proof -
  let ?n = "demo_kern 0x1000 0"
  have pg: "page a = 0" if "a < 0x1000" for a using that by (simp add: page_def PGSIZE_def word_less_nat_alt)
  have "\<forall>a. 0xFFE \<le> a \<and> a < p_sz (proc_of 0 ?n) \<longrightarrow>
      pte (l_mem (n_f ?n)) (p_pgdir (proc_of 0 ?n)) a AND PTE_P \<noteq> 0"
    using pg by (simp add: demo_user_pte PTE_P_def)
  note f = fetchstr_reads_string [OF this]
  have "ubyte demo_user 0x80200000 0xFFE = 0"
    using demo_load [of "0xFFE"] load8_ubyte [of demo_user "0x80200000" "0xFFE"] pg [of "0xFFE"]
    by (simp add: demo_user_pte PTE_P_def)
  then show ?thesis using f by (simp add: user_bytes_Cons)
qed

theorem syscall_hole_panics:
  assumes "tf_trapno tf = T_SYSCALL" and "tf_eax tf \<in> {6, 10, 12, 13, 21}"
    and "\<not> p_killed (proc_of me (w_k w))"
    and "tf_esp tf + 4 < p_sz (proc_of me (w_k w))" "tf_esp tf + 8 \<le> p_sz (proc_of me (w_k w))"
    and "pte (l_mem (n_f (w_k w))) (p_pgdir (proc_of me (w_k w))) (tf_esp tf + 4) AND PTE_P = 0"
  shows "trap h (Some me) tf w = Inl (Panic ''trap'')"
proof -
  let ?w = "on_s (upd_proc me (\<lambda>p. p\<lparr>p_tf := tf\<rparr>)) w"
  have a: "argint 0 me (w_k ?w) = Inl (Panic ''trap'')"
    using assms(4-6) by (simp add: argint_def fetchint_def load32_def load8_hole on_p_def Let_def not_le not_less add.commute [of 8])
  have "syscall (hw_word h) me ?w = Inl (Panic ''trap'')"
    using assms(2) a
    by (auto simp: syscall_def syscalls_def Let_def k_kill_def k_dup_def k_sbrk_def k_sleep_def k_close_def
        fdarg_def and_then_def on_p_def)
  then show ?thesis using assms(1,3) by (simp add: trap_def trap_syscall_def Let_def)
qed

theorem syscall_hole_panics_witness:
  "trap \<lparr>hw_cpu = 0, hw_cr2 = 0, hw_kbd = [], hw_uart = [], hw_word = 0\<rparr> (Some 0) (call_tf 21 0x1000)
     (demo_world 0x3000 0) = Inl (Panic ''trap'')"
  by (rule syscall_hole_panics)
     (simp_all add: call_tf_def demo_user_pte page_def PGSIZE_def)


text \<open>
  C33: The console refines a line editor: for every order of keys and reads, with counters
  that wrap around, the reads answer what the two lists of committed and edited characters
  give, and the screen never panics.
\<close>

theorem console_edits_lines:
  assumes "cons_ok s"
  shows "\<exists>rs s'. con_trace es s = Inr (rs, s') \<and> cons_ok s' \<and> edit_trace es (cons_abs s) = (rs, cons_abs s')"
  using assms by (rule con_trace_refines)

theorem console_edits_lines_witness:
  "\<exists>s'. con_trace [Key 97, Key 98, Key 8, Key 99, Key 13, Get False 10] demo_console
     = Inr ([(PRet 3, [97, 99, 10])], s') \<and> cons_ok s'"
proof -
  have "cons_ok demo_console" "cons_abs demo_console = ([], [])"
    using blank_console_ok [of demo_console]
    by (simp_all add: fresh_input_def demo_console_def screen_ok_def)
  moreover have "read_line False 10 (Suc (Suc (Suc k))) [97, 99, 10] = (PRet (int (10 - k)), [97, 99, 10], [])" for k
    by (simp add: ctrl_def)
  from this [of 7] have "read_line False 10 10 [97, 99, 10] = (PRet 3, [97, 99, 10], [])" by simp
  ultimately show ?thesis
    using console_edits_lines [of demo_console "[Key 97, Key 98, Key 8, Key 99, Key 13, Get False 10]"]
    by (auto simp: edit_key_def ctrl_def INPUT_BUF_def)
qed

end
