(* ===== verification/Spinlock.thy ===== *)
theory Spinlock
  imports Prelude
begin

text \<open>
  spinlock.c: \<open>pushcli\<close>, \<open>popcli\<close>, \<open>holding\<close>, \<open>acquire\<close> and \<open>release\<close> on several processors. The state
  holds the lock (\<open>locked\<close> and the processor recorded in it) and, per processor, the interrupt
  flag, \<open>ncli\<close>, \<open>intena\<close> and where it is in the routines; a step of the relation is one access
  to the shared lock, so the processors interleave between them. The recorded call stack is
  left out.
\<close>

record cpu =
  c_if :: bool
  c_ncli :: int
  c_intena :: bool

record spinlock =
  sp_locked :: bool
  sp_cpu :: "nat option"

definition pushcli :: "cpu \<Rightarrow> cpu" where
  "pushcli c =
     (let eflags = c_if c;
          c = c\<lparr>c_if := False\<rparr>;
          c = (if c_ncli c = 0 then c\<lparr>c_intena := eflags\<rparr> else c)
      in c\<lparr>c_ncli := c_ncli c + 1\<rparr>)"

definition popcli :: "cpu \<Rightarrow> cpu res" where
  "popcli c =
     (if c_if c then Inl (Panic ''popcli - interruptible'')
      else
        let c = c\<lparr>c_ncli := c_ncli c - 1\<rparr> in
        if c_ncli c < 0 then Inl (Panic ''popcli'')
        else Inr (if c_ncli c = 0 \<and> c_intena c then c\<lparr>c_if := True\<rparr> else c))"

definition holding :: "nat \<Rightarrow> spinlock \<Rightarrow> bool" where
  "holding i lk \<longleftrightarrow> sp_locked lk \<and> sp_cpu lk = Some i"

text \<open>Where a processor is: outside, spinning on \<open>xchg\<close>, or with the lock.\<close>

datatype pc =
    Out            \<comment> \<open>outside\<close>
  | Spin           \<comment> \<open>in the loop of \<open>acquire\<close>\<close>
  | Got            \<comment> \<open>after \<open>xchg\<close>, before \<open>lk->cpu = mycpu()\<close>\<close>
  | Crit           \<comment> \<open>between \<open>acquire\<close> and \<open>release\<close>\<close>
  | Freed          \<comment> \<open>in \<open>release\<close>, after \<open>lk->cpu = 0\<close>\<close>
  | Unlocked       \<comment> \<open>in \<open>release\<close>, after \<open>lk->locked = 0\<close>\<close>

record machine =
  k_lock :: spinlock
  k_cpu :: "nat \<Rightarrow> cpu"
  k_pc :: "nat \<Rightarrow> pc"

abbreviation upd_cpu :: "nat \<Rightarrow> cpu \<Rightarrow> pc \<Rightarrow> machine \<Rightarrow> machine" where
  "upd_cpu i c p m \<equiv> m\<lparr>k_cpu := (k_cpu m)(i := c), k_pc := (k_pc m)(i := p)\<rparr>"

inductive lock_step :: "nat \<Rightarrow> machine \<Rightarrow> machine \<Rightarrow> bool" where
  enter: "k_pc m i = Out \<Longrightarrow> \<not> holding i (k_lock m) \<Longrightarrow>
     lock_step i m (upd_cpu i (pushcli (k_cpu m i)) Spin m)"
| spin: "k_pc m i = Spin \<Longrightarrow> sp_locked (k_lock m) \<Longrightarrow> lock_step i m m"
| xchg: "k_pc m i = Spin \<Longrightarrow> \<not> sp_locked (k_lock m) \<Longrightarrow>
     lock_step i m ((upd_cpu i (k_cpu m i) Got m)\<lparr>k_lock := (k_lock m)\<lparr>sp_locked := True\<rparr>\<rparr>)"
| record_cpu: "k_pc m i = Got \<Longrightarrow>
     lock_step i m ((upd_cpu i (k_cpu m i) Crit m)\<lparr>k_lock := (k_lock m)\<lparr>sp_cpu := Some i\<rparr>\<rparr>)"
| clear_cpu: "k_pc m i = Crit \<Longrightarrow> holding i (k_lock m) \<Longrightarrow>
     lock_step i m ((upd_cpu i (k_cpu m i) Freed m)\<lparr>k_lock := (k_lock m)\<lparr>sp_cpu := None\<rparr>\<rparr>)"
| unlock: "k_pc m i = Freed \<Longrightarrow>
     lock_step i m ((upd_cpu i (k_cpu m i) Unlocked m)\<lparr>k_lock := (k_lock m)\<lparr>sp_locked := False\<rparr>\<rparr>)"
| leave: "k_pc m i = Unlocked \<Longrightarrow> popcli (k_cpu m i) = Inr c \<Longrightarrow> lock_step i m (upd_cpu i c Out m)"

text \<open>
  Nothing but these steps: a nested \<open>pushcli\<close> and \<open>popcli\<close> of the caller leaves the processor as
  it was. The initial state is that of \<open>initlock\<close>, with interrupts on everywhere.
\<close>

definition initlock :: spinlock where
  "initlock = \<lparr>sp_locked = False, sp_cpu = None\<rparr>"

definition lock_start :: "machine \<Rightarrow> bool" where
  "lock_start m \<longleftrightarrow> k_lock m = initlock
     \<and> (\<forall>i. k_pc m i = Out \<and> c_if (k_cpu m i) \<and> c_ncli (k_cpu m i) = 0)"

inductive_cases lock_stepE: "lock_step i m m'"

text \<open>The calls of \<open>panic\<close> a processor can run into.\<close>

definition lock_panics :: "nat \<Rightarrow> machine \<Rightarrow> bool" where
  "lock_panics i m \<longleftrightarrow>
     k_pc m i = Out \<and> holding i (k_lock m)
     \<or> k_pc m i = Crit \<and> \<not> holding i (k_lock m)
     \<or> k_pc m i = Unlocked \<and> (\<exists>e. popcli (k_cpu m i) = Inl e)"

definition any_step :: "machine \<Rightarrow> machine \<Rightarrow> bool" where
  "any_step m m' \<longleftrightarrow> (\<exists>i. lock_step i m m')"


subsection \<open>Mutual exclusion\<close>

definition owns :: "pc \<Rightarrow> bool" where
  "owns p \<longleftrightarrow> p = Got \<or> p = Crit \<or> p = Freed"

definition cpu_ok :: "pc \<Rightarrow> cpu \<Rightarrow> bool" where
  "cpu_ok p c \<longleftrightarrow> (if p = Out then c_if c \<and> c_ncli c = 0 else \<not> c_if c \<and> c_ncli c = 1 \<and> c_intena c)"

definition lock_inv :: "machine \<Rightarrow> bool" where
  "lock_inv m \<longleftrightarrow> (\<forall>i j. owns (k_pc m i) \<longrightarrow> owns (k_pc m j) \<longrightarrow> i = j)
     \<and> (sp_locked (k_lock m) \<longleftrightarrow> (\<exists>i. owns (k_pc m i)))
     \<and> (\<forall>i. sp_cpu (k_lock m) = Some i \<longleftrightarrow> k_pc m i = Crit)
     \<and> (\<forall>i. cpu_ok (k_pc m i) (k_cpu m i))"

lemma lock_inv_start: "lock_start m \<Longrightarrow> lock_inv m"
  by (auto simp: lock_start_def lock_inv_def owns_def cpu_ok_def initlock_def)

lemma cpu_ok_pushcli: "cpu_ok Out c \<Longrightarrow> cpu_ok Spin (pushcli c)"
  by (simp add: cpu_ok_def pushcli_def Let_def)

lemma cpu_ok_popcli: "cpu_ok Unlocked c \<Longrightarrow> \<exists>c'. popcli c = Inr c' \<and> cpu_ok Out c'"
  by (simp add: cpu_ok_def popcli_def Let_def)

lemma owns_simps [simp]:
  "\<not> owns Out" "\<not> owns Spin" "owns Got" "owns Crit" "owns Freed" "\<not> owns Unlocked"
  by (simp_all add: owns_def)

lemma cpu_ok_held: "p \<noteq> Out \<Longrightarrow> q \<noteq> Out \<Longrightarrow> cpu_ok p c = cpu_ok q c"
  by (simp add: cpu_ok_def)

lemma lock_invD:
  assumes "lock_inv m"
  shows "owns (k_pc m i) \<Longrightarrow> owns (k_pc m j) \<Longrightarrow> i = j"
    and "sp_locked (k_lock m) \<longleftrightarrow> (\<exists>i. owns (k_pc m i))"
    and "sp_cpu (k_lock m) = Some i \<longleftrightarrow> k_pc m i = Crit"
    and "cpu_ok (k_pc m i) (k_cpu m i)"
  using assms unfolding lock_inv_def by blast+

lemma lock_inv_step:
  assumes "lock_step i m m'" and inv: "lock_inv m"
  shows "lock_inv m'"
  using assms(1)
proof cases
  case enter
  then have "cpu_ok Spin (pushcli (k_cpu m i))"
    using lock_invD(4) [OF inv, of i] cpu_ok_pushcli by simp
  then show ?thesis
    unfolding enter lock_inv_def using lock_invD [OF inv] enter by simp (metis owns_simps(1))
next
  case spin
  then show ?thesis using inv by simp
next
  case xchg
  then have n: "\<not> owns (k_pc m j)" for j using lock_invD(2) [OF inv] by blast
  have "k_pc m j \<noteq> Crit" for j using n [of j] by auto
  moreover have "cpu_ok Got (k_cpu m i)"
    using lock_invD(4) [OF inv, of i] xchg cpu_ok_held [of Spin Got] by simp
  ultimately show ?thesis
    unfolding xchg lock_inv_def using lock_invD(3,4) [OF inv] xchg n by auto
next
  case record_cpu
  then have n: "owns (k_pc m j) \<Longrightarrow> j = i" for j using lock_invD(1) [OF inv, of j i] by simp
  then have "k_pc m j \<noteq> Crit" if "j \<noteq> i" for j using that by (metis owns_simps(4))
  moreover have l: "sp_locked (k_lock m)"
    using lock_invD(2) [OF inv] record_cpu by (metis owns_simps(3,4))
  moreover have "cpu_ok Crit (k_cpu m i)"
    using lock_invD(4) [OF inv, of i] record_cpu cpu_ok_held [of Got Crit] by simp
  ultimately show ?thesis
    unfolding record_cpu lock_inv_def using l lock_invD(4) [OF inv] record_cpu n by auto
next
  case clear_cpu
  then have n: "owns (k_pc m j) \<Longrightarrow> j = i" for j using lock_invD(1) [OF inv, of j i] by simp
  then have "k_pc m j \<noteq> Crit" if "j \<noteq> i" for j using that by (metis owns_simps(4))
  moreover have l: "sp_locked (k_lock m)"
    using lock_invD(2) [OF inv] clear_cpu by (metis owns_simps(3,4))
  moreover have "cpu_ok Freed (k_cpu m i)"
    using lock_invD(4) [OF inv, of i] clear_cpu cpu_ok_held [of Crit Freed] by simp
  ultimately show ?thesis
    unfolding clear_cpu lock_inv_def using l lock_invD(4) [OF inv] clear_cpu n by auto
next
  case unlock
  then have n: "owns (k_pc m j) \<Longrightarrow> j = i" for j using lock_invD(1) [OF inv, of j i] by simp
  moreover have "cpu_ok Unlocked (k_cpu m i)"
    using lock_invD(4) [OF inv, of i] unlock cpu_ok_held [of Freed Unlocked] by simp
  ultimately show ?thesis
    unfolding unlock lock_inv_def using lock_invD(3,4) [OF inv] unlock by auto
next
  case (leave c)
  then have "cpu_ok Out c"
    using lock_invD(4) [OF inv, of i] cpu_ok_popcli by fastforce
  then show ?thesis
    unfolding leave lock_inv_def using lock_invD [OF inv] leave by simp (metis owns_simps(6))
qed

lemma lock_inv_reach: "any_step\<^sup>*\<^sup>* m m' \<Longrightarrow> lock_inv m \<Longrightarrow> lock_inv m'"
  by (induction rule: rtranclp_induct) (auto simp: any_step_def intro: lock_inv_step)

lemma lock_inv_no_panic: "lock_inv m \<Longrightarrow> \<not> lock_panics i m"
  using lock_invD [of m] cpu_ok_popcli [of "k_cpu m i"]
  unfolding lock_panics_def holding_def by (metis Inl_Inr_False owns_simps(4) pc.distinct(5))

lemma lock_progress:
  assumes inv: "lock_inv m"
  shows "\<exists>m'. lock_step i m m'"
proof (cases "k_pc m i")
  case Out
  then show ?thesis using lock_inv_no_panic [OF inv] lock_step.enter unfolding lock_panics_def by blast
next
  case Spin
  then show ?thesis using lock_step.spin lock_step.xchg by blast
next
  case Crit
  then show ?thesis using lock_inv_no_panic [OF inv] lock_step.clear_cpu unfolding lock_panics_def by blast
next
  case Unlocked
  then show ?thesis
    using lock_invD(4) [OF inv, of i] cpu_ok_popcli lock_step.leave by metis
qed (use lock_step.record_cpu lock_step.unlock in blast)+


text \<open>
  C7: In every state reachable by interleaved steps of acquire and release no two processors
  own the lock, a processor in its critical section is recorded as the holder and has
  interrupts off, no call of panic is reachable, and every processor can take its next step.
\<close>

theorem spinlock_excludes:
  assumes "lock_start m0" and "any_step\<^sup>*\<^sup>* m0 m"
  shows "(owns (k_pc m i) \<longrightarrow> owns (k_pc m j) \<longrightarrow> i = j)
    \<and> (k_pc m i = Crit \<longrightarrow> holding i (k_lock m) \<and> \<not> c_if (k_cpu m i))
    \<and> \<not> lock_panics i m \<and> (\<exists>m'. lock_step i m m')"
proof -
  have inv: "lock_inv m" by (rule lock_inv_reach [OF assms(2) lock_inv_start [OF assms(1)]])
  have "k_pc m i = Crit \<Longrightarrow> holding i (k_lock m) \<and> \<not> c_if (k_cpu m i)"
    using lock_inv_no_panic [OF inv, of i] lock_invD(4) [OF inv, of i]
    by (simp add: lock_panics_def cpu_ok_def)
  then show ?thesis
    using lock_invD(1) [OF inv] lock_inv_no_panic [OF inv] lock_progress [OF inv] by blast
qed

definition two_cpus :: machine where
  "two_cpus = \<lparr>k_lock = initlock, k_cpu = \<lambda>_. \<lparr>c_if = True, c_ncli = 0, c_intena = False\<rparr>, k_pc = \<lambda>_. Out\<rparr>"

theorem spinlock_excludes_witness:
  "\<exists>m. any_step\<^sup>*\<^sup>* two_cpus m \<and> k_pc m 0 = Spin \<and> \<not> lock_panics 0 m"
proof -
  let ?m = "upd_cpu 0 (pushcli (k_cpu two_cpus 0)) Spin two_cpus"
  have "lock_step 0 two_cpus ?m"
    by (rule lock_step.enter) (simp_all add: two_cpus_def initlock_def holding_def)
  then have "any_step\<^sup>*\<^sup>* two_cpus ?m" unfolding any_step_def by blast
  moreover have "lock_start two_cpus" by (simp add: lock_start_def two_cpus_def)
  ultimately show ?thesis using spinlock_excludes [of two_cpus ?m 0 0] by (intro exI [of _ ?m]) simp
qed

end
