(* ===== verification/Umalloc.thy ===== *)
theory Umalloc
  imports Bytes
begin

text \<open>
  umalloc.c: the allocator of user programs. A header is the address of its eight bytes, its
  two fields are functions of that address. The address \<open>b\<close> of the static header \<open>base\<close> is the
  linker's and \<open>ok\<close>, which says when the kernel grants \<open>sbrk\<close>, the kernel's: both are arguments.
  The loops may run forever on a list that is not closed, which is the value \<open>None\<close>.
\<close>

record heap =
  hp_ptr :: "u32 \<Rightarrow> u32"
  hp_size :: "u32 \<Rightarrow> u32"
  hp_freep :: u32
  hp_brk :: u32

abbreviation set_ptr :: "u32 \<Rightarrow> u32 \<Rightarrow> heap \<Rightarrow> heap" where
  "set_ptr p q h \<equiv> h\<lparr>hp_ptr := (hp_ptr h)(p := q)\<rparr>"

abbreviation set_size :: "u32 \<Rightarrow> u32 \<Rightarrow> heap \<Rightarrow> heap" where
  "set_size p n h \<equiv> h\<lparr>hp_size := (hp_size h)(p := n)\<rparr>"

text \<open>The address behind a block, \<open>p + p->s.size\<close>.\<close>

abbreviation block_end :: "heap \<Rightarrow> u32 \<Rightarrow> u32" where
  "block_end h p \<equiv> p + 8 * hp_size h p"


subsection \<open>free\<close>

partial_function (option) free_find :: "u32 \<Rightarrow> u32 \<Rightarrow> heap \<Rightarrow> u32 option" where
  "free_find bp p h =
     (if bp > p \<and> bp < hp_ptr h p then Some p
      else if p \<ge> hp_ptr h p \<and> (bp > p \<or> bp < hp_ptr h p) then Some p
      else free_find bp (hp_ptr h p) h)"

definition free_link :: "u32 \<Rightarrow> u32 \<Rightarrow> heap \<Rightarrow> heap" where
  "free_link bp p h =
     (let h = (if block_end h bp = hp_ptr h p then
                 let q = hp_ptr h p; h = set_size bp (hp_size h bp + hp_size h q) h
                 in set_ptr bp (hp_ptr h q) h
               else set_ptr bp (hp_ptr h p) h);
          h = (if block_end h p = bp then
                 let h = set_size p (hp_size h p + hp_size h bp) h
                 in set_ptr p (hp_ptr h bp) h
               else set_ptr p bp h)
      in h\<lparr>hp_freep := p\<rparr>)"

definition free :: "u32 \<Rightarrow> heap \<Rightarrow> heap option" where
  "free ap h =
     (let bp = ap - 8 in Option.bind (free_find bp (hp_freep h) h) (\<lambda>p. Some (free_link bp p h)))"


subsection \<open>malloc\<close>

definition sbrk :: "(u32 \<Rightarrow> int \<Rightarrow> bool) \<Rightarrow> int \<Rightarrow> heap \<Rightarrow> u32 \<times> heap" where
  "sbrk ok n h = (if ok (hp_brk h) n then (hp_brk h, h\<lparr>hp_brk := hp_brk h + of_int n\<rparr>) else (-1, h))"

definition morecore :: "(u32 \<Rightarrow> int \<Rightarrow> bool) \<Rightarrow> u32 \<Rightarrow> heap \<Rightarrow> (u32 \<times> heap) option" where
  "morecore ok nu h =
     (let nu = (if nu < 4096 then 4096 else nu);
          (p, h) = sbrk ok (sint (nu * 8)) h
      in if p = -1 then Some (0, h)
         else Option.bind (free (p + 8) (set_size p nu h)) (\<lambda>h. Some (hp_freep h, h)))"

definition take_block :: "u32 \<Rightarrow> u32 \<Rightarrow> u32 \<Rightarrow> heap \<Rightarrow> u32 \<times> heap" where
  "take_block nunits prevp p h =
     (if hp_size h p = nunits then (p + 8, (set_ptr prevp (hp_ptr h p) h)\<lparr>hp_freep := prevp\<rparr>)
      else
        let h = set_size p (hp_size h p - nunits) h;
            p = block_end h p
        in (p + 8, (set_size p nunits h)\<lparr>hp_freep := prevp\<rparr>))"

partial_function (option) malloc_loop ::
    "(u32 \<Rightarrow> int \<Rightarrow> bool) \<Rightarrow> u32 \<Rightarrow> u32 \<Rightarrow> u32 \<Rightarrow> heap \<Rightarrow> (u32 \<times> heap) option" where
  "malloc_loop ok nunits prevp p h =
     (if hp_size h p \<ge> nunits then Some (take_block nunits prevp p h)
      else if p = hp_freep h then
        Option.bind (morecore ok nunits h) (\<lambda>r.
          if fst r = 0 then Some (0, snd r)
          else malloc_loop ok nunits (fst r) (hp_ptr (snd r) (fst r)) (snd r))
      else malloc_loop ok nunits p (hp_ptr h p) h)"

definition malloc :: "u32 \<Rightarrow> (u32 \<Rightarrow> int \<Rightarrow> bool) \<Rightarrow> u32 \<Rightarrow> heap \<Rightarrow> (u32 \<times> heap) option" where
  "malloc b ok nbytes h =
     (let nunits = (nbytes + 8 - 1) div 8 + 1;
          h = (if hp_freep h = 0 then (set_size b 0 (set_ptr b b h))\<lparr>hp_freep := b\<rparr> else h);
          prevp = hp_freep h
      in malloc_loop ok nunits prevp (hp_ptr h prevp) h)"

end
