(* ===== verification/Umalloc_Ok.thy ===== *)
theory Umalloc_Ok
  imports Umalloc
begin

text \<open>
  The allocator of umalloc.c is correct: its free list stays a ring in the order of the
  addresses, without adjacent blocks, \<open>free\<close> adds the bytes of a block to the free ones, and
  \<open>malloc\<close> ends, takes a large enough block from the free bytes or from what \<open>sbrk\<close> brought, or
  answers null and keeps what it had.
\<close>

subsection \<open>The free list\<close>

text \<open>\<open>seg nx a xs b\<close>: from \<open>a\<close> the pointers lead through \<open>xs\<close> to \<open>b\<close>.\<close>

fun seg :: "(u32 \<Rightarrow> u32) \<Rightarrow> u32 \<Rightarrow> u32 list \<Rightarrow> u32 \<Rightarrow> bool" where
  "seg nx a [] b \<longleftrightarrow> nx a = b"
| "seg nx a (x # xs) b \<longleftrightarrow> nx a = x \<and> seg nx x xs b"

text \<open>Blocks in the order of their addresses, no two adjacent, all below \<open>e\<close>.\<close>

fun apart :: "(u32 \<Rightarrow> u32) \<Rightarrow> u32 list \<Rightarrow> nat \<Rightarrow> bool" where
  "apart sz [] e \<longleftrightarrow> True"
| "apart sz [x] e \<longleftrightarrow> unat x + 8 * unat (sz x) \<le> e"
| "apart sz (x # y # ys) e \<longleftrightarrow> unat x + 8 * unat (sz x) < unat y \<and> apart sz (y # ys) e"

definition heap_ok :: "u32 \<Rightarrow> u32 list \<Rightarrow> heap \<Rightarrow> bool" where
  "heap_ok b xs h \<longleftrightarrow> seg (hp_ptr h) b xs b \<and> apart (hp_size h) (b # xs) (unat (hp_brk h))
     \<and> hp_size h b = 0 \<and> (\<forall>x\<in>set xs. hp_size h x \<noteq> 0) \<and> hp_freep h \<in> set (b # xs) \<and> b \<noteq> 0
     \<and> b < hp_brk h"

definition block :: "u32 \<Rightarrow> u32 \<Rightarrow> nat set" where
  "block p n = {unat p..<unat p + 8 * unat n}"

definition blocks :: "heap \<Rightarrow> u32 list \<Rightarrow> nat set" where
  "blocks h xs = (\<Union>x\<in>set xs. block x (hp_size h x))"

lemma seg_append: "seg nx a (xs @ x # ys) c \<longleftrightarrow> seg nx a xs x \<and> seg nx x ys c"
  by (induction xs arbitrary: a) auto

lemma seg_cong:
  "(\<And>x. x \<in> insert a (set xs) \<Longrightarrow> nx' x = nx x) \<Longrightarrow> seg nx' a xs b = seg nx a xs b"
  by (induction xs arbitrary: a) auto

lemma apart_append:
  "apart sz (xs @ x # ys) e \<longleftrightarrow> apart sz (xs @ [x]) (unat x + 8 * unat (sz x)) \<and> apart sz (x # ys) e"
  by (induction sz xs e rule: apart.induct) auto


lemma apart_less:
  "apart sz (x # xs) e \<Longrightarrow> y \<in> set xs \<Longrightarrow> unat x + 8 * unat (sz x) < unat y"
proof (induction xs arbitrary: x)
  case (Cons z zs)
  then have "unat x + 8 * unat (sz x) < unat z" "apart sz (z # zs) e" by simp_all
  then show ?case using Cons.IH [of z] Cons.prems(2) by (cases "y = z") auto
qed simp

lemma apart_lt: "apart sz (x # xs) e \<Longrightarrow> y \<in> set xs \<Longrightarrow> unat x < unat y"
  using apart_less [of sz x xs e y] by simp

lemma apart_tl: "apart sz (x # xs) e \<Longrightarrow> apart sz xs e"
  by (cases xs) auto

lemma apart_end: "apart sz xs e \<Longrightarrow> x \<in> set xs \<Longrightarrow> unat x + 8 * unat (sz x) \<le> e"
proof (induction xs arbitrary: x)
  case (Cons y ys)
  note tl = apart_tl [OF Cons.prems(1)]
  show ?case
  proof (cases ys)
    case Nil
    then show ?thesis using Cons.prems by simp
  next
    case (Cons z zs)
    then have "unat y + 8 * unat (sz y) < unat z" "unat z + 8 * unat (sz z) \<le> e"
      using Cons.prems(1) Cons.IH [OF tl, of z] by simp_all
    then show ?thesis using Cons.prems(2) Cons.IH [OF tl] by auto
  qed
qed simp

lemma apart_cong:
  "(\<And>x. x \<in> set xs \<Longrightarrow> sz' x = sz x) \<Longrightarrow> apart sz' xs e = apart sz xs e"
  by (induction sz xs e rule: apart.induct) auto

lemma apart_distinct: "apart sz xs e \<Longrightarrow> distinct xs"
proof (induction xs)
  case (Cons x xs)
  then show ?case using apart_less [of sz x xs e x] apart_tl [of sz x xs e] by auto
qed simp

lemma apart_Cons:
  "apart sz (x # xs) e \<longleftrightarrow> unat x + 8 * unat (sz x) \<le> e \<and> apart sz xs e
     \<and> (xs \<noteq> [] \<longrightarrow> unat x + 8 * unat (sz x) < unat (hd xs))"
proof (cases xs)
  case (Cons y ys)
  then show ?thesis using apart_end [of sz "x # y # ys" e x] by auto
qed simp

lemma end_unat:
  assumes "unat p + 8 * unat n < 2 ^ 32"
  shows "unat (p + 8 * n :: u32) = unat p + 8 * unat n"
proof -
  have "unat (8 * n) = 8 * unat n" using assms by (simp add: unat_word_ariths)
  then show ?thesis using assms unat_add_32 [of p "8 * n"] by simp
qed


subsection \<open>Searching the place of a block\<close>

lemma find_up:
  "seg (hp_ptr h) f ys p \<Longrightarrow> apart sz (f # ys @ [p]) e \<Longrightarrow> p < bp \<Longrightarrow>
     free_find bp f h = free_find bp p h"
proof (induction ys arbitrary: f)
  case Nil
  then have "unat f < unat p" by simp
  then show ?case using Nil
    by (subst free_find.simps) (simp add: word_less_nat_alt word_le_nat_alt)
next
  case (Cons y ys)
  have "unat f < unat y" "unat f < unat p" "unat y < unat p"
    using Cons.prems(2) apart_lt [of sz f "y # ys @ [p]" e] apart_lt [of sz y "ys @ [p]" e] by auto
  moreover have "hp_ptr h f = y" "free_find bp y h = free_find bp p h"
    using Cons by auto
  ultimately show ?case using Cons.prems(3)
    by (subst free_find.simps) (simp add: word_less_nat_alt word_le_nat_alt)
qed

lemma find_high:
  "seg (hp_ptr h) f ys b \<Longrightarrow> apart sz (f # ys) e \<Longrightarrow> bp < f \<Longrightarrow> b < bp \<Longrightarrow>
     free_find bp f h = free_find bp b h"
proof (induction ys arbitrary: f)
  case Nil
  then show ?case by (subst free_find.simps) (auto simp: word_less_nat_alt word_le_nat_alt)
next
  case (Cons y ys)
  have "unat f < unat y" using Cons.prems(2) apart_lt [of sz f "y # ys" e] by auto
  moreover have "hp_ptr h f = y" "free_find bp y h = free_find bp b h"
    using Cons calculation by (auto simp: word_less_nat_alt)
  ultimately show ?case using Cons.prems(3)
    by (subst free_find.simps) (auto simp: word_less_nat_alt word_le_nat_alt)
qed

text \<open>The last block below \<open>bp\<close>.\<close>

lemma split_below:
  assumes "apart sz (b # xs) e" and "b < bp" and "bp \<notin> set xs"
  obtains us p vs where "b # xs = us @ p # vs" "p < bp" "\<forall>v\<in>set vs. bp < v"
proof -
  have "\<exists>us p vs. b # xs = us @ p # vs \<and> p < bp \<and> (\<forall>v\<in>set vs. bp < v)"
    using assms
  proof (induction xs arbitrary: b)
    case Nil
    have "[b] = [] @ b # []" "\<forall>v\<in>set []. bp < v" by simp_all
    then show ?case using Nil(2) by blast
  next
    case (Cons x xs)
    show ?case
    proof (cases "x < bp")
      case True
      have "bp \<notin> set xs" using Cons.prems(3) by simp
      from Cons.IH [OF apart_tl [OF Cons.prems(1)] True this]
      obtain us p vs where "x # xs = us @ p # vs" "p < bp" "\<forall>v\<in>set vs. bp < v" by blast
      then have "b # x # xs = (b # us) @ p # vs" "p < bp" "\<forall>v\<in>set vs. bp < v" by simp_all
      then show ?thesis by blast
    next
      case False
      have "bp < v" if "v \<in> set (x # xs)" for v
      proof -
        have "unat bp \<le> unat x" "bp \<noteq> x" using False Cons.prems(3) by (auto simp: word_less_nat_alt)
        moreover have "v = x \<or> unat x < unat v"
          using that apart_lt [OF apart_tl [OF Cons.prems(1)], of v] by auto
        ultimately show ?thesis by (auto simp: word_less_nat_alt word_unat_eq_iff)
      qed
      then have "b # x # xs = [] @ b # (x # xs)" "\<forall>v\<in>set (x # xs). bp < v" by simp_all
      then show ?thesis using Cons.prems(2) by blast
    qed
  qed
  then show ?thesis using that by blast
qed

lemma free_find_spec:
  assumes ok: "heap_ok b xs h" and sp: "b # xs = us @ p # vs" "p < bp" "\<forall>v\<in>set vs. bp < v"
  shows "free_find bp (hp_freep h) h = Some p" "seg (hp_ptr h) p vs b"
    "us = [] \<or> seg (hp_ptr h) b (tl us) p" "us \<noteq> [] \<longrightarrow> hd us = b"
proof -
  have r: "seg (hp_ptr h) b xs b" and a: "apart (hp_size h) (us @ p # vs) (unat (hp_brk h))"
    and f: "hp_freep h \<in> set (us @ p # vs)"
    using ok sp(1) by (simp_all add: heap_ok_def)
  have pb: "seg (hp_ptr h) p vs b \<and> (us = [] \<or> seg (hp_ptr h) b (tl us) p) \<and> (us \<noteq> [] \<longrightarrow> hd us = b)"
    using r sp(1) by (cases us) (auto simp: seg_append)
  then show "seg (hp_ptr h) p vs b" "us = [] \<or> seg (hp_ptr h) b (tl us) p" "us \<noteq> [] \<longrightarrow> hd us = b" by auto
  have av: "apart (hp_size h) (p # vs) (unat (hp_brk h))" using a apart_append by blast
  have stop: "free_find bp p h = Some p"
  proof (cases vs)
    case Nil
    then have "hp_ptr h p = b" using pb by simp
    moreover have "b \<le> p"
    proof (cases us)
      case (Cons u us')
      then have "unat b < unat p" using pb a apart_lt [of "hp_size h" b "us' @ p # vs" _ p] by simp
      then show ?thesis by (simp add: word_le_nat_alt)
    qed (use sp(1) in auto)
    ultimately show ?thesis using sp(2) by (subst free_find.simps) auto
  next
    case (Cons v vs')
    then show ?thesis using pb sp(2,3) by (subst free_find.simps) simp
  qed
  have below: "free_find bp u h = Some p" if mu: "u \<in> set us" for u
  proof -
    obtain us1 us2 where u: "us = us1 @ u # us2" using split_list [OF mu] by blast
    have "seg (hp_ptr h) u us2 p"
      using pb u by (cases us1) (auto simp: seg_append)
    moreover have "apart (hp_size h) (u # us2 @ [p]) (unat p + 8 * unat (hp_size h p))"
    proof -
      have "apart (hp_size h) (us @ [p]) (unat p + 8 * unat (hp_size h p))" using a apart_append by blast
      then show ?thesis using apart_append [of _ us1 u "us2 @ [p]"] by (simp add: u)
    qed
    ultimately show ?thesis using find_up [OF _ _ sp(2)] stop by metis
  qed
  have fb: "free_find bp b h = Some p"
    using below stop sp(1) by (cases us) auto
  have bb: "b < bp"
  proof (cases us)
    case (Cons u us')
    then have "unat b < unat p" using pb a apart_lt [of "hp_size h" b "us' @ p # vs" _ p] by simp
    then show ?thesis using sp(2) by (simp add: word_less_nat_alt)
  qed (use sp in auto)
  have above: "free_find bp v h = Some p" if mv: "v \<in> set vs" for v
  proof -
    obtain vs1 vs2 where v: "vs = vs1 @ v # vs2" using split_list [OF mv] by blast
    have "seg (hp_ptr h) v vs2 b" using pb v by (auto simp: seg_append)
    moreover have "apart (hp_size h) (v # vs2) (unat (hp_brk h))"
      using av apart_append [of "hp_size h" "p # vs1" v vs2] by (simp add: v)
    ultimately show ?thesis using find_high [of h v vs2 b] sp(3) mv bb fb by metis
  qed
  show "free_find bp (hp_freep h) h = Some p" using f below above stop by auto
qed



subsection \<open>Linking a block\<close>

definition link_next :: "u32 \<Rightarrow> u32 \<Rightarrow> heap \<Rightarrow> heap" where
  "link_next bp p h =
     (if block_end h bp = hp_ptr h p then
        let q = hp_ptr h p; h = set_size bp (hp_size h bp + hp_size h q) h
        in set_ptr bp (hp_ptr h q) h
      else set_ptr bp (hp_ptr h p) h)"

definition link_prev :: "u32 \<Rightarrow> u32 \<Rightarrow> heap \<Rightarrow> heap" where
  "link_prev bp p h =
     (if block_end h p = bp then
        let h = set_size p (hp_size h p + hp_size h bp) h
        in set_ptr p (hp_ptr h bp) h
      else set_ptr p bp h)"

lemma free_link_steps: "free_link bp p h = (link_prev bp p (link_next bp p h))\<lparr>hp_freep := p\<rparr>"
  by (simp add: free_link_def link_next_def link_prev_def Let_def)

lemma blocks_simps [simp]:
  "blocks h [] = {}" "blocks h (x # xs) = block x (hp_size h x) \<union> blocks h xs"
  "blocks h (xs @ ys) = blocks h xs \<union> blocks h ys"
  by (auto simp: blocks_def)

lemma blocks_cong: "(\<And>x. x \<in> set xs \<Longrightarrow> hp_size h' x = hp_size h x) \<Longrightarrow> blocks h' xs = blocks h xs"
  by (simp add: blocks_def)

lemma block_join:
  assumes "unat p + 8 * unat m = unat q" and "unat m + unat n < 2 ^ 32"
  shows "block p m \<union> block q n = block p (m + n)"
proof -
  have "unat (m + n) = unat m + unat n" using assms(2) by (rule unat_add_32)
  then show ?thesis using assms(1) by (auto simp: block_def)
qed

lemma sizes_add:
  assumes "unat (p :: u32) + 8 * unat (m :: u32) = unat q" and "unat q + 8 * unat (n :: u32) \<le> unat (e :: u32)"
  shows "unat (m + n) = unat m + unat n" "unat p + 8 * unat (m + n) = unat q + 8 * unat n"
    "unat m + unat n < 2 ^ 32"
proof -
  have "8 * unat m + 8 * unat n < 2 ^ 32" using assms unat_less_32 [of e] by linarith
  then show l: "unat m + unat n < 2 ^ 32" by linarith
  then show u: "unat (m + n) = unat m + unat n" by (rule unat_add_32)
  show "unat p + 8 * unat (m + n) = unat q + 8 * unat n" using assms(1) u by linarith
qed

lemma link_next:
  assumes sg: "seg (hp_ptr h) p vs b" and ap: "apart (hp_size h) vs (unat (hp_brk h))"
    and bp: "unat bp + 8 * unat (hp_size h bp) \<le> unat (hp_brk h)" "b < bp" "hp_size h bp \<noteq> 0"
    and gap: "vs \<noteq> [] \<longrightarrow> unat bp + 8 * unat (hp_size h bp) \<le> unat (hd vs)" and nin: "bp \<notin> set vs" "p \<noteq> bp"
  obtains ws where "seg (hp_ptr (link_next bp p h)) bp ws b"
    "apart (hp_size (link_next bp p h)) (bp # ws) (unat (hp_brk h))" "set ws \<subseteq> set vs"
    "block bp (hp_size (link_next bp p h) bp) \<union> blocks h ws = block bp (hp_size h bp) \<union> blocks h vs"
    "\<forall>x. x \<noteq> bp \<longrightarrow> hp_ptr (link_next bp p h) x = hp_ptr h x \<and> hp_size (link_next bp p h) x = hp_size h x"
    "hp_size (link_next bp p h) bp \<noteq> 0" "hp_brk (link_next bp p h) = hp_brk h"
    "block bp (hp_size h bp) \<subseteq> block bp (hp_size (link_next bp p h) bp)"
proof -
  let ?e = "unat (hp_brk h)"
  have be: "unat (block_end h bp) = unat bp + 8 * unat (hp_size h bp)"
    using bp(1) unat_less_32 [of "hp_brk h"] by (intro end_unat) linarith
  show thesis
  proof (cases "block_end h bp = hp_ptr h p")
    case False
    let ?h = "link_next bp p h"
    have h: "?h = set_ptr bp (hp_ptr h p) h" using False by (simp add: link_next_def)
    show thesis
    proof (rule that [of vs])
      show "seg (hp_ptr ?h) bp vs b"
      proof (cases vs)
        case (Cons v vs')
        then have "seg ((hp_ptr h)(bp := hp_ptr h p)) v vs' b = seg (hp_ptr h) v vs' b"
          using nin by (intro seg_cong) auto
        then show ?thesis using sg Cons by (simp add: h)
      qed (use sg h in simp)
      have "vs \<noteq> [] \<longrightarrow> unat bp + 8 * unat (hp_size h bp) < unat (hd vs)"
      proof
        assume "vs \<noteq> []"
        then have "hp_ptr h p = hd vs" using sg by (cases vs) auto
        then show "unat bp + 8 * unat (hp_size h bp) < unat (hd vs)"
          using False gap \<open>vs \<noteq> []\<close> be by (metis le_neq_implies_less word_unat_eq_iff)
      qed
      then show "apart (hp_size ?h) (bp # vs) ?e" using ap bp(1) by (simp add: h apart_Cons)
    qed (use bp(3) h in simp_all)
  next
    case True
    let ?h = "link_next bp p h"
    obtain v vs' where vs: "vs = v # vs'"
    proof (cases vs)
      case Nil
      then have "hp_ptr h p = b" using sg by simp
      then have "unat bp + 8 * unat (hp_size h bp) = unat b" using True be by simp
      then show thesis using bp(2) by (simp add: word_less_nat_alt)
    qed
    have v: "hp_ptr h p = v" "seg (hp_ptr h) v vs' b" using sg vs by simp_all
    have j: "unat bp + 8 * unat (hp_size h bp) = unat v" using True be v(1) by simp
    have a: "unat v + 8 * unat (hp_size h v) \<le> ?e" "apart (hp_size h) vs' ?e"
        "vs' \<noteq> [] \<longrightarrow> unat v + 8 * unat (hp_size h v) < unat (hd vs')"
      using ap vs by (auto simp: apart_Cons)
    note sz = sizes_add [OF j a(1)]
    have vb: "v \<noteq> bp" using nin vs by auto
    have h: "?h = set_ptr bp (hp_ptr h v) (set_size bp (hp_size h bp + hp_size h v) h)"
      using True v(1) by (simp add: link_next_def Let_def)
    show thesis
    proof (rule that [of vs'])
      show "seg (hp_ptr ?h) bp vs' b"
      proof (cases vs')
        case (Cons y ys)
        then have "seg ((hp_ptr h)(bp := hp_ptr h v)) y ys b = seg (hp_ptr h) y ys b"
          using nin vs by (intro seg_cong) auto
        then show ?thesis using v(2) Cons by (simp add: h)
      qed (use v(2) h in simp)
      have "apart ((hp_size h)(bp := x)) vs' ?e = apart (hp_size h) vs' ?e" for x
        using nin vs by (intro apart_cong) auto
      then show "apart (hp_size ?h) (bp # vs') ?e" using a sz(2) by (simp add: h apart_Cons)
      show "block bp (hp_size ?h bp) \<union> blocks h vs' = block bp (hp_size h bp) \<union> blocks h vs"
        using block_join [OF j sz(3)] by (auto simp: h vs)
      have "unat (hp_size h bp) \<noteq> 0" using bp(3) by (simp add: unat_eq_zero)
      then have "unat (hp_size h bp + hp_size h v) \<noteq> 0" using sz(1) by simp
      then show "hp_size ?h bp \<noteq> 0" by (auto simp: h)
      show "block bp (hp_size h bp) \<subseteq> block bp (hp_size ?h bp)" using block_join [OF j sz(3)] by (auto simp: h)
    qed (use vs h in auto)
  qed
qed


lemma apart_snoc_cong:
  "(\<And>x. x \<in> set us \<Longrightarrow> sz' x = sz x) \<Longrightarrow>
     apart sz' (us @ [p]) (unat p + 8 * unat (sz' p)) = apart sz (us @ [p]) (unat p + 8 * unat (sz p))"
proof (induction us)
  case (Cons u us)
  then show ?case by (cases us) auto
qed simp

text \<open>The ring through \<open>p\<close>, whose part before \<open>p\<close> is as it was.\<close>

text \<open>
  The state between the two halves of \<open>free_link\<close>: \<open>bp\<close> leads on to \<open>ws\<close>, the blocks \<open>us\<close> and \<open>p\<close>
  lie below it, and \<open>p\<close> does not lead to it yet.
\<close>

definition placed :: "u32 \<Rightarrow> u32 list \<Rightarrow> u32 \<Rightarrow> u32 \<Rightarrow> u32 list \<Rightarrow> heap \<Rightarrow> bool" where
  "placed b us p bp ws h \<longleftrightarrow> b \<noteq> 0 \<and> b < hp_brk h \<and> hp_size h b = 0 \<and> b \<noteq> bp
     \<and> hd (us @ [p]) = b \<and> (us \<noteq> [] \<longrightarrow> seg (hp_ptr h) b (tl us) p) \<and> seg (hp_ptr h) bp ws b
     \<and> apart (hp_size h) (us @ [p]) (unat p + 8 * unat (hp_size h p)) \<and> apart (hp_size h) (bp # ws) (unat (hp_brk h))
     \<and> unat p + 8 * unat (hp_size h p) \<le> unat bp \<and> distinct (us @ p # bp # ws)
     \<and> (\<forall>x\<in>set (us @ p # bp # ws). x \<noteq> b \<longrightarrow> hp_size h x \<noteq> 0)"

lemma placedD:
  assumes "placed b us p bp ws h"
  shows "b \<noteq> 0" "b < hp_brk h" "hp_size h b = 0" "b \<noteq> bp" "hd (us @ [p]) = b" "us \<noteq> [] \<longrightarrow> seg (hp_ptr h) b (tl us) p"
    "seg (hp_ptr h) bp ws b" "apart (hp_size h) (us @ [p]) (unat p + 8 * unat (hp_size h p))"
    "apart (hp_size h) (bp # ws) (unat (hp_brk h))" "unat p + 8 * unat (hp_size h p) \<le> unat bp"
    "distinct (us @ p # bp # ws)" "\<forall>x\<in>set (us @ p # bp # ws). x \<noteq> b \<longrightarrow> hp_size h x \<noteq> 0"
    "unat (block_end h p) = unat p + 8 * unat (hp_size h p)"
proof -
  show "unat (block_end h p) = unat p + 8 * unat (hp_size h p)"
    using assms unat_less_32 [of bp] unfolding placed_def by (intro end_unat) linarith
qed (insert assms, unfold placed_def, blast+)

lemma ring_close:
  assumes "hd (us @ [p]) = b" "us \<noteq> [] \<longrightarrow> seg nx b (tl us) p" "seg nx p r b"
  shows "b # tl (us @ p # r) = us @ p # r" "seg nx b (tl (us @ p # r)) b"
  using assms by (cases us; auto simp: seg_append)+

text \<open>A heap whose blocks are those of \<open>us\<close>, \<open>p\<close> and \<open>r\<close>.\<close>

lemma heap_okI:
  assumes "hd (us @ [p]) = b" "us \<noteq> [] \<longrightarrow> seg (hp_ptr h) b (tl us) p" "seg (hp_ptr h) p r b"
    and "apart (hp_size h) (us @ [p]) (unat p + 8 * unat (hp_size h p))" "apart (hp_size h) (p # r) (unat (hp_brk h))"
    and "hp_size h b = 0" "\<forall>x\<in>set (us @ p # r). x \<noteq> b \<longrightarrow> hp_size h x \<noteq> 0" "hp_freep h = p" "b \<noteq> 0" "b < hp_brk h"
  shows "heap_ok b (tl (us @ p # r)) h" "blocks h (tl (us @ p # r)) = blocks h (us @ p # r)"
proof -
  let ?ys = "tl (us @ p # r)"
  note R = ring_close [OF assms(1-3)]
  have ap: "apart (hp_size h) (b # ?ys) (unat (hp_brk h))" unfolding R(1) using assms(4,5) apart_append by blast
  have "set ?ys \<subseteq> set (us @ p # r)" using R(1) by (metis set_subset_Cons)
  moreover have "b \<notin> set ?ys" using apart_distinct [OF ap] by simp
  ultimately have "\<forall>x\<in>set ?ys. hp_size h x \<noteq> 0" using assms(7) by fastforce
  moreover have "hp_freep h \<in> set (b # ?ys)" unfolding R(1) assms(8) by simp
  ultimately show "heap_ok b ?ys h" using ap R(2) assms(6,9,10) by (simp add: heap_ok_def)
  have "blocks h (b # ?ys) = blocks h (us @ p # r)" by (simp only: R(1))
  then show "blocks h ?ys = blocks h (us @ p # r)" using assms(6) by (simp add: block_def)
qed

text \<open>The second half of \<open>free_link\<close> when \<open>p\<close> and \<open>bp\<close> touch.\<close>

lemma link_prev_join:
  assumes pl: "placed b us p bp ws h" and e: "block_end h p = bp"
  defines "h' \<equiv> (link_prev bp p h)\<lparr>hp_freep := p\<rparr>" and "ys \<equiv> tl (us @ p # ws)"
  shows "heap_ok b ys h'" "blocks h' ys = blocks h (us @ p # bp # ws)"
    "p \<in> set ys" "block bp (hp_size h bp) \<subseteq> block p (hp_size h' p)"
proof -
  note P = placedD [OF pl]
  have j: "unat p + 8 * unat (hp_size h p) = unat bp" using e P(13) by simp
  have bn: "unat bp + 8 * unat (hp_size h bp) \<le> unat (hp_brk h)" "apart (hp_size h) ws (unat (hp_brk h))"
      "ws \<noteq> [] \<longrightarrow> unat bp + 8 * unat (hp_size h bp) < unat (hd ws)"
    using P(9) by (auto simp: apart_Cons)
  note sz = sizes_add [OF j bn(1)]
  have h': "hp_ptr h' = (hp_ptr h)(p := hp_ptr h bp)" "hp_size h' = (hp_size h)(p := hp_size h p + hp_size h bp)"
      "hp_freep h' = p" "hp_brk h' = hp_brk h"
    using e P(11) by (auto simp: h'_def link_prev_def Let_def)
  have pb: "p \<noteq> b"
  proof
    assume "p = b"
    then have "unat b = unat bp" using j P(3) by simp
    then show False using P(4) by (simp add: word_unat_eq_iff)
  qed
  have d: "p \<notin> set us" "p \<notin> set ws" "p \<noteq> bp" "bp \<notin> set ws" using P(11) by auto
  have us: "us \<noteq> []" "hd us = b" using P(5) pb by (cases us; simp)+
  have "seg (hp_ptr h') b (tl us) p = seg (hp_ptr h) b (tl us) p"
    using d us pb by (intro seg_cong) (auto simp: h' dest: list.set_sel(2))
  then have sus: "us \<noteq> [] \<longrightarrow> seg (hp_ptr h') b (tl us) p" using P(6) by simp
  have sws: "seg (hp_ptr h') p ws b"
  proof (cases ws)
    case (Cons y zs)
    then have "seg (hp_ptr h') y zs b = seg (hp_ptr h) y zs b" using d by (intro seg_cong) (auto simp: h')
    then show ?thesis using P(7) Cons by (simp add: h')
  qed (use P(7) in \<open>simp add: h'\<close>)
  have aus: "apart (hp_size h') (us @ [p]) (unat p + 8 * unat (hp_size h' p))"
    using P(8) by (subst apart_snoc_cong [of us _ "hp_size h"]) (use d in \<open>auto simp: h'\<close>)
  have "apart (hp_size h') ws (unat (hp_brk h)) = apart (hp_size h) ws (unat (hp_brk h))" using d by (intro apart_cong) (auto simp: h')
  then have aws: "apart (hp_size h') (p # ws) (unat (hp_brk h'))" using bn sz(2) by (simp add: apart_Cons h')
  have "hp_size h p + hp_size h bp \<noteq> 0"
  proof
    assume "hp_size h p + hp_size h bp = 0"
    then have "unat (hp_size h bp) = 0" using sz(1) by simp
    then show False using P(4,12) by (auto simp: unat_eq_zero)
  qed
  then have nz: "\<forall>x\<in>set (us @ p # ws). x \<noteq> b \<longrightarrow> hp_size h' x \<noteq> 0" using P(12) by (auto simp: h')
  have b0: "hp_size h' b = 0" using P(3) pb by (simp add: h')
  note H = heap_okI [OF P(5) sus sws aus aws b0 nz h'(3) P(1) P(2) [folded h'(4)]]
  show "heap_ok b ys h'" unfolding ys_def by (rule H(1))
  have bp: "block p (hp_size h' p) = block p (hp_size h p) \<union> block bp (hp_size h bp)"
    using block_join [OF j sz(3)] by (simp add: h')
  then show "block bp (hp_size h bp) \<subseteq> block p (hp_size h' p)" by simp
  have "blocks h' us = blocks h us" "blocks h' ws = blocks h ws" by (rule blocks_cong; use d in \<open>auto simp: h'\<close>)+
  then show "blocks h' ys = blocks h (us @ p # bp # ws)" unfolding ys_def H(2) using bp by auto
  show "p \<in> set ys" using us by (cases us) (auto simp: ys_def)
qed

text \<open>And when they do not.\<close>

lemma link_prev_apart:
  assumes pl: "placed b us p bp ws h" and e: "block_end h p \<noteq> bp"
  defines "h' \<equiv> (link_prev bp p h)\<lparr>hp_freep := p\<rparr>" and "ys \<equiv> tl (us @ p # bp # ws)"
  shows "heap_ok b ys h'" "blocks h' ys = blocks h (us @ p # bp # ws)" "bp \<in> set ys" "hp_size h' = hp_size h"
proof -
  note P = placedD [OF pl]
  have lt: "unat p + 8 * unat (hp_size h p) < unat bp" using e P(10,13) by (metis le_neq_implies_less word_unat_eq_iff)
  have h': "hp_ptr h' = (hp_ptr h)(p := bp)" "hp_size h' = hp_size h" "hp_freep h' = p" "hp_brk h' = hp_brk h"
    using e by (simp_all add: h'_def link_prev_def Let_def)
  then show "hp_size h' = hp_size h" by simp
  have d: "p \<notin> set us" "p \<notin> set ws" "p \<noteq> bp" using P(11) by auto
  have sus: "us \<noteq> [] \<longrightarrow> seg (hp_ptr h') b (tl us) p"
  proof
    assume ne: "us \<noteq> []"
    then have "p \<noteq> b" "p \<notin> set (tl us)" using P(5) d by (cases us; auto)+
    then have "seg (hp_ptr h') b (tl us) p = seg (hp_ptr h) b (tl us) p" by (intro seg_cong) (auto simp: h')
    then show "seg (hp_ptr h') b (tl us) p" using P(6) ne by simp
  qed
  have "seg (hp_ptr h') bp ws b = seg (hp_ptr h) bp ws b" using d by (intro seg_cong) (auto simp: h')
  then have sws: "seg (hp_ptr h') p (bp # ws) b" using P(7) by (simp add: h')
  have aws: "apart (hp_size h') (p # bp # ws) (unat (hp_brk h'))" using P(9) lt by (simp add: h')
  note H = heap_okI [OF P(5) sus sws P(8) [folded h'(2)] aws P(3) [folded h'(2)] P(12) [folded h'(2)] h'(3) P(1) P(2) [folded h'(4)]]
  show "heap_ok b ys h'" unfolding ys_def by (rule H(1))
  show "blocks h' ys = blocks h (us @ p # bp # ws)" unfolding ys_def H(2) by (rule blocks_cong) (simp add: h')
  show "bp \<in> set ys" by (cases us) (auto simp: ys_def)
qed

text \<open>A block that is not free lies between the blocks of the list.\<close>

lemma free_between:
  assumes ok: "heap_ok b xs h" and bp: "hp_size h bp \<noteq> 0" and dis: "block bp (hp_size h bp) \<inter> blocks h xs = {}" and x: "x \<in> set xs"
  shows "unat x + 8 * unat (hp_size h x) \<le> unat bp \<or> unat bp + 8 * unat (hp_size h bp) \<le> unat x" "x \<noteq> bp"
proof -
  have in_block: "unat x \<in> block x n \<longleftrightarrow> n \<noteq> 0" for x n
    by (auto simp: block_def unat_eq_zero) (simp add: unat_gt_0)
  show sep: "unat x + 8 * unat (hp_size h x) \<le> unat bp \<or> unat bp + 8 * unat (hp_size h bp) \<le> unat x"
  proof (rule ccontr)
    assume "\<not> ?thesis"
    then have "unat bp \<in> block x (hp_size h x) \<or> unat x \<in> block bp (hp_size h bp)" by (auto simp: block_def)
    moreover have "block x (hp_size h x) \<subseteq> blocks h xs" using x by (auto simp: blocks_def)
    moreover have "unat bp \<in> block bp (hp_size h bp)" "unat x \<in> block x (hp_size h x)"
      using bp ok x in_block by (auto simp: heap_ok_def)
    ultimately show False using dis by blast
  qed
  show "x \<noteq> bp" using sep bp by (auto simp: unat_eq_zero)
qed

lemma free_placed:
  assumes ok: "heap_ok b xs h" and bp: "b < bp" "hp_size h bp \<noteq> 0" "unat bp + 8 * unat (hp_size h bp) \<le> unat (hp_brk h)"
    and dis: "block bp (hp_size h bp) \<inter> blocks h xs = {}"
  obtains us p ws h1 where "free (bp + 8) h = Some ((link_prev bp p h1)\<lparr>hp_freep := p\<rparr>)" "placed b us p bp ws h1"
    "hp_brk h1 = hp_brk h" "blocks h1 (us @ p # bp # ws) = blocks h xs \<union> block bp (hp_size h bp)"
    "block bp (hp_size h bp) \<subseteq> block bp (hp_size h1 bp)"
proof -
  let ?e = "unat (hp_brk h)"
  note sep = free_between [OF ok bp(2) dis]
  have H: "seg (hp_ptr h) b xs b" "apart (hp_size h) (b # xs) ?e" "hp_size h b = 0" "\<forall>x\<in>set xs. hp_size h x \<noteq> 0"
    "b \<noteq> 0" "b < hp_brk h" using ok by (simp_all add: heap_ok_def)
  have nin: "bp \<notin> set (b # xs)" using sep(2) bp(1) by auto
  then have "bp \<notin> set xs" by simp
  then obtain us p vs where sp: "b # xs = us @ p # vs" "p < bp" "\<forall>v\<in>set vs. bp < v"
    using split_below [OF H(2) bp(1)] by blast
  note find = free_find_spec [OF ok sp]
  have mem: "set (b # xs) = set us \<union> {p} \<union> set vs" using arg_cong [OF sp(1), of set] by auto
  have vs_sub: "set vs \<subseteq> set xs" using sp(1) by (cases us) auto
  have p_end: "unat p + 8 * unat (hp_size h p) \<le> unat bp"
  proof (cases "p = b")
    case False
    then have "p \<in> set xs" using mem by auto
    then show ?thesis using sep(1) [of p] sp(2) bp(2) by (auto simp: word_less_nat_alt)
  qed (use bp(1) H(3) in \<open>simp add: word_less_nat_alt\<close>)
  have gap: "vs \<noteq> [] \<longrightarrow> unat bp + 8 * unat (hp_size h bp) \<le> unat (hd vs)"
    using sep(1) [of "hd vs"] sp(3) vs_sub hd_in_set [of vs] by (fastforce simp: word_less_nat_alt)
  have ap2: "apart (hp_size h) (us @ [p]) (unat p + 8 * unat (hp_size h p))" "apart (hp_size h) (p # vs) ?e"
    using H(2) sp(1) apart_append [of "hp_size h" us p vs ?e] by simp_all
  have dist: "distinct (us @ p # vs)" using apart_distinct [OF H(2)] sp(1) by simp
  have nb: "bp \<notin> set us" "bp \<notin> set vs" "p \<noteq> bp" using nin mem by auto
  define h1 where "h1 = link_next bp p h"
  obtain ws where w: "seg (hp_ptr h1) bp ws b" "apart (hp_size h1) (bp # ws) ?e" "set ws \<subseteq> set vs"
      "block bp (hp_size h1 bp) \<union> blocks h ws = block bp (hp_size h bp) \<union> blocks h vs"
      "\<forall>x. x \<noteq> bp \<longrightarrow> hp_ptr h1 x = hp_ptr h x \<and> hp_size h1 x = hp_size h x"
      "hp_size h1 bp \<noteq> 0" "hp_brk h1 = hp_brk h" "block bp (hp_size h bp) \<subseteq> block bp (hp_size h1 bp)"
    using link_next [OF find(2) apart_tl [OF ap2(2)] bp(3,1,2) gap nb(2,3)] unfolding h1_def by blast
  have d: "distinct (us @ p # bp # ws)" using dist w(2,3) nb apart_distinct [OF w(2)] by auto
  have seg_us: "us \<noteq> [] \<longrightarrow> seg (hp_ptr h1) b (tl us) p"
  proof
    assume ne: "us \<noteq> []"
    then have "seg (hp_ptr h1) b (tl us) p = seg (hp_ptr h) b (tl us) p"
      using w(5) nb(1) nin by (intro seg_cong) (auto dest: list.set_sel(2))
    then show "seg (hp_ptr h1) b (tl us) p" using find(3) ne by simp
  qed
  have "placed b us p bp ws h1"
    unfolding placed_def
  proof (intro conjI)
    show "hd (us @ [p]) = b" using sp(1) by (cases us) auto
    show "apart (hp_size h1) (us @ [p]) (unat p + 8 * unat (hp_size h1 p))"
      using ap2(1) by (subst apart_snoc_cong [of us _ "hp_size h"]) (use w(5) nb in auto)
    have sub: "set us \<union> {p} \<union> set ws \<subseteq> insert b (set xs)" using mem w(3) by auto
    have "hp_size h1 x \<noteq> 0" if x: "x \<in> set us \<union> {p} \<union> set ws" "x \<noteq> b" for x
    proof -
      have "x \<in> set xs" "x \<noteq> bp" using x sub d by auto
      then show ?thesis using H(4) w(5) by simp
    qed
    then show "\<forall>x\<in>set (us @ p # bp # ws). x \<noteq> b \<longrightarrow> hp_size h1 x \<noteq> 0" using w(6) by auto
    show "b \<noteq> 0" "b < hp_brk h1" "b \<noteq> bp" using H(5,6) w(7) nin by auto
    then show "hp_size h1 b = 0" using w(5) H(3) by simp
    show "apart (hp_size h1) (bp # ws) (unat (hp_brk h1))" using w(2,7) by simp
    show "unat p + 8 * unat (hp_size h1 p) \<le> unat bp" using p_end w(5) nb(3) by simp
  qed (rule seg_us w(1) d)+
  moreover have "blocks h1 us = blocks h us" "blocks h1 ws = blocks h ws"
    by (rule blocks_cong; use w(5) d in auto)+
  then have "blocks h1 (us @ p # bp # ws) = blocks h (us @ p # vs) \<union> block bp (hp_size h bp)" using w(4,5) nb(3) by auto
  moreover have "blocks h (us @ p # vs) = blocks h xs"
    using arg_cong [OF sp(1), of "blocks h"] H(3) by (simp add: block_def)
  moreover have "free (bp + 8) h = Some ((link_prev bp p h1)\<lparr>hp_freep := p\<rparr>)"
    using find(1) by (simp add: free_def free_link_steps h1_def)
  ultimately show thesis using that w(7,8) by simp
qed

lemma free_spec:
  assumes "heap_ok b xs h" "b < bp" "hp_size h bp \<noteq> 0"
      "unat bp + 8 * unat (hp_size h bp) \<le> unat (hp_brk h)" "block bp (hp_size h bp) \<inter> blocks h xs = {}"
  obtains ys h' where "free (bp + 8) h = Some h'" "heap_ok b ys h'" "hp_brk h' = hp_brk h"
    "blocks h' ys = blocks h xs \<union> block bp (hp_size h bp)"
    "\<exists>y\<in>set ys. block bp (hp_size h bp) \<subseteq> block y (hp_size h' y)"
proof -
  obtain us p ws h1 where F: "free (bp + 8) h = Some ((link_prev bp p h1)\<lparr>hp_freep := p\<rparr>)" "placed b us p bp ws h1"
    "hp_brk h1 = hp_brk h" "blocks h1 (us @ p # bp # ws) = blocks h xs \<union> block bp (hp_size h bp)"
    "block bp (hp_size h bp) \<subseteq> block bp (hp_size h1 bp)"
    by (rule free_placed [OF assms])
  have brk: "hp_brk ((link_prev bp p h1)\<lparr>hp_freep := p\<rparr>) = hp_brk h" using F(3) by (simp add: link_prev_def Let_def)
  show thesis
  proof (cases "block_end h1 p = bp")
    case True
    note J = link_prev_join [OF F(2) True]
    have "\<exists>y\<in>set (tl (us @ p # ws)). block bp (hp_size h bp) \<subseteq> block y (hp_size ((link_prev bp p h1)\<lparr>hp_freep := p\<rparr>) y)"
      by (rule bexI [OF _ J(3)]) (rule subset_trans [OF F(5) J(4)])
    then show thesis by (rule that [OF F(1) J(1) brk trans [OF J(2) F(4)]])
  next
    case False
    note J = link_prev_apart [OF F(2) False]
    have "\<exists>y\<in>set (tl (us @ p # bp # ws)). block bp (hp_size h bp) \<subseteq> block y (hp_size ((link_prev bp p h1)\<lparr>hp_freep := p\<rparr>) y)"
      unfolding J(4) by (rule bexI [OF _ J(3)]) (rule F(5))
    then show thesis by (rule that [OF F(1) J(1) brk trans [OF J(2) F(4)]])
  qed
qed



subsection \<open>Taking a block\<close>

lemma ring_prev:
  assumes "seg nx b xs b" and "distinct (b # xs)" and "q \<in> set (b # xs)" and "nx q = p" "p \<in> set xs"
  obtains us vs where "b # xs = us @ q # p # vs"
proof -
  obtain us vs where u: "b # xs = us @ q # vs" using split_list [OF assms(3)] by blast
  have "seg nx q vs b" using assms(1) u by (cases us) (auto simp: seg_append)
  then have "hd (vs @ [b]) = p" using assms(4) by (cases vs) auto
  moreover have "p \<noteq> b" using assms(2,5) by auto
  ultimately show thesis using that [of us "tl vs"] u by (cases vs) auto
qed

lemma block_empty [simp]: "block x 0 = {}" by (simp add: block_def)

lemma blocks_apart:
  assumes "apart (hp_size h) (us @ p # vs) e"
  shows "block p (hp_size h p) \<inter> blocks h us = {}" "block p (hp_size h p) \<inter> blocks h vs = {}"
proof -
  have a: "apart (hp_size h) (p # vs) e" "apart (hp_size h) (us @ [p]) (unat p + 8 * unat (hp_size h p))"
    using assms apart_append by blast+
  have "block p (hp_size h p) \<inter> block v (hp_size h v) = {}" if "v \<in> set vs" for v
    using apart_less [OF a(1) that] by (auto simp: block_def)
  then show "block p (hp_size h p) \<inter> blocks h vs = {}" by (auto simp: blocks_def)
  have "unat u + 8 * unat (hp_size h u) < unat p" if mu: "u \<in> set us" for u
  proof -
    obtain us1 us2 where "us = us1 @ u # us2" using split_list [OF mu] by blast
    then have "apart (hp_size h) (u # us2 @ [p]) (unat p + 8 * unat (hp_size h p))"
      using a(2) apart_append [of "hp_size h" us1 u "us2 @ [p]"] by simp
    then show ?thesis using apart_less by fastforce
  qed
  then show "block p (hp_size h p) \<inter> blocks h us = {}" by (fastforce simp: blocks_def block_def)
qed

lemma ring_split:
  assumes "heap_ok b xs h" "b # xs = us @ q # r"
  shows "hd (us @ [q]) = b" "us \<noteq> [] \<longrightarrow> seg (hp_ptr h) b (tl us) q" "seg (hp_ptr h) q r b"
    "apart (hp_size h) (us @ [q]) (unat q + 8 * unat (hp_size h q))" "apart (hp_size h) (q # r) (unat (hp_brk h))"
    "\<forall>x\<in>set (us @ q # r). x \<noteq> b \<longrightarrow> hp_size h x \<noteq> 0" "xs = tl (us @ q # r)" "distinct (us @ q # r)" "set (b # xs) = set (us @ q # r)"
    "blocks h xs = blocks h (us @ q # r)"
proof -
  have H: "seg (hp_ptr h) b xs b" "apart (hp_size h) (b # xs) (unat (hp_brk h))" "\<forall>x\<in>set xs. hp_size h x \<noteq> 0" "hp_size h b = 0"
    using assms(1) by (simp_all add: heap_ok_def)
  show "hd (us @ [q]) = b" using assms(2) by (cases us) auto
  show "us \<noteq> [] \<longrightarrow> seg (hp_ptr h) b (tl us) q" "seg (hp_ptr h) q r b"
    using H(1) assms(2) by (cases us; auto simp: seg_append)+
  show "apart (hp_size h) (us @ [q]) (unat q + 8 * unat (hp_size h q))" "apart (hp_size h) (q # r) (unat (hp_brk h))"
    using H(2) assms(2) apart_append by metis+
  show m: "set (b # xs) = set (us @ q # r)" by (simp only: assms(2))
  show "\<forall>x\<in>set (us @ q # r). x \<noteq> b \<longrightarrow> hp_size h x \<noteq> 0" unfolding m [symmetric] using H(3) by simp
  show "xs = tl (us @ q # r)" using assms(2) by (metis list.sel(3))
  show "distinct (us @ q # r)" using apart_distinct [OF H(2)] assms(2) by simp
  have "blocks h (b # xs) = blocks h (us @ q # r)" by (simp only: assms(2))
  then show "blocks h xs = blocks h (us @ q # r)" using H(4) by (simp add: block_def)
qed

text \<open>Taking a whole block out of the list.\<close>

lemma take_whole:
  assumes ok: "heap_ok b xs h" and sp: "b # xs = us @ q # p # vs"
  defines "h' \<equiv> (set_ptr q (hp_ptr h p) h)\<lparr>hp_freep := q\<rparr>"
  shows "heap_ok b (tl (us @ q # vs)) h'" "blocks h' (tl (us @ q # vs)) = blocks h xs - block p (hp_size h p)"
proof -
  note R = ring_split [OF ok sp]
  have h': "hp_ptr h' = (hp_ptr h)(q := hp_ptr h p)" "hp_size h' = hp_size h" "hp_freep h' = q" "hp_brk h' = hp_brk h"
    by (simp_all add: h'_def)
  have d: "q \<notin> set us" "q \<notin> set vs" "q \<noteq> p" "p \<notin> set vs" using R(8) by auto
  have sus: "us \<noteq> [] \<longrightarrow> seg (hp_ptr h') b (tl us) q"
  proof
    assume ne: "us \<noteq> []"
    then have "q \<noteq> b" "q \<notin> set (tl us)" using R(1) d by (cases us; auto)+
    then have "seg (hp_ptr h') b (tl us) q = seg (hp_ptr h) b (tl us) q" by (intro seg_cong) (auto simp: h')
    then show "seg (hp_ptr h') b (tl us) q" using R(2) ne by simp
  qed
  have sq: "seg (hp_ptr h') q vs b"
  proof (cases vs)
    case (Cons v vs')
    then have "seg (hp_ptr h') v vs' b = seg (hp_ptr h) v vs' b" using d by (intro seg_cong) (auto simp: h')
    then show ?thesis using R(3) Cons by (simp add: h')
  qed (use R(3) in \<open>simp add: h'\<close>)
  have "unat q + 8 * unat (hp_size h q) < unat p" "unat p < unat v" if "v \<in> set vs" for v
    using R(5) apart_lt [OF apart_tl [OF R(5)] that] by simp_all
  moreover have "apart (hp_size h) vs (unat (hp_brk h))" using R(5) apart_tl by blast
  moreover have "unat q + 8 * unat (hp_size h q) \<le> unat (hp_brk h)" using apart_end [OF R(5), of q] by simp
  ultimately have aq: "apart (hp_size h') (q # vs) (unat (hp_brk h'))" by (cases vs) (auto simp: apart_Cons h' intro: less_trans)
  have ok': "b \<noteq> 0" "b < hp_brk h'" "hp_size h' b = 0" using ok by (simp_all add: heap_ok_def h')
  have nz: "\<forall>x\<in>set (us @ q # vs). x \<noteq> b \<longrightarrow> hp_size h' x \<noteq> 0" using R(6) by (auto simp: h')
  note H = heap_okI [OF R(1) sus sq R(4) [folded h'(2)] aq ok'(3) nz h'(3) ok'(1,2)]
  show "heap_ok b (tl (us @ q # vs)) h'" by (rule H(1))
  have "blocks h' xs = blocks h xs" for xs by (rule blocks_cong) (simp add: h')
  moreover have "apart (hp_size h) ((us @ [q]) @ p # vs) (unat (hp_brk h))"
    using ok sp by (simp add: heap_ok_def)
  note dj = blocks_apart [OF this]
  ultimately show "blocks h' (tl (us @ q # vs)) = blocks h xs - block p (hp_size h p)" unfolding H(2) R(10) using dj by (auto simp: h')
qed

text \<open>Taking the end of a block.\<close>

lemma take_tail:
  assumes ok: "heap_ok b xs h" and sp: "b # xs = us @ q # p # vs" and n: "n \<le> hp_size h p" "n \<noteq> 0" "hp_size h p \<noteq> n"
  defines "t \<equiv> p + 8 * (hp_size h p - n)"
  defines "h' \<equiv> (set_size t n (set_size p (hp_size h p - n) h))\<lparr>hp_freep := q\<rparr>"
  shows "heap_ok b xs h'" "blocks h' xs = blocks h xs - block t n" "block t n \<subseteq> blocks h xs"
    "unat t + 8 * unat n = unat p + 8 * unat (hp_size h p)" "p < t"
proof -
  note R = ring_split [OF ok sp]
  let ?m = "hp_size h p - n" and ?e = "unat (hp_brk h)"
  have un: "unat ?m = unat (hp_size h p) - unat n" using n(1) by (simp add: unat_sub word_le_nat_alt)
  have "0 < unat n" using n(2) by (simp add: unat_gt_0)
  moreover have "unat n < unat (hp_size h p)"
    using n(1,3) unfolding word_le_nat_alt by (metis word_unat_eq_iff le_neq_implies_less)
  ultimately have nn: "0 < unat n" "unat n < unat (hp_size h p)" by simp_all
  have pe: "unat p + 8 * unat (hp_size h p) \<le> ?e" using apart_end [OF R(5), of p] by simp
  have ut: "unat t = unat p + 8 * unat ?m"
    unfolding t_def using pe un unat_less_32 [of "hp_brk h"] by (intro end_unat) linarith
  then show "unat t + 8 * unat n = unat p + 8 * unat (hp_size h p)" using un nn by simp
  show pt: "p < t" using ut un nn by (simp add: word_less_nat_alt)
  have ap: "apart (hp_size h) ((us @ [q]) @ p # vs) ?e" using ok sp by (simp add: heap_ok_def)
  have "unat u < unat p" if mu: "u \<in> set (us @ [q])" for u
  proof -
    obtain us1 us2 where "us @ [q] = us1 @ u # us2" using split_list [OF mu] by blast
    then have "apart (hp_size h) (u # us2 @ p # vs) ?e"
      using ap apart_append [of "hp_size h" us1 u "us2 @ p # vs"] by simp
    then show ?thesis using apart_lt by fastforce
  qed
  moreover have "unat p + 8 * unat (hp_size h p) < unat v" if "v \<in> set vs" for v
    using apart_less [OF apart_tl [OF R(5)] that] .
  ultimately have fresh: "t \<notin> set us" "t \<noteq> q" "t \<notin> set vs" "t \<noteq> p" using ut un nn pt by fastforce+
  have d: "p \<notin> set us" "p \<noteq> q" "p \<notin> set vs" using R(8) by auto
  have h': "hp_size h' x = (if x = p then ?m else hp_size h x)" if "x \<noteq> t" for x
    using that fresh(4) by (simp add: h'_def)
  have hx: "hp_ptr h' = hp_ptr h" "hp_freep h' = q" "hp_brk h' = hp_brk h" by (simp_all add: h'_def)
  have same: "hp_size h' x = hp_size h x" if "x \<in> set us \<union> set vs" for x
  proof -
    have "x \<noteq> t" "x \<noteq> p" using that fresh d by auto
    then show ?thesis by (simp add: h')
  qed
  have sz: "hp_size h' q = hp_size h q" "hp_size h' p = ?m" using h' fresh d by auto
  note sz = sz same
  have au: "apart (hp_size h') (us @ [q]) (unat q + 8 * unat (hp_size h' q))"
    using R(4) by (subst apart_snoc_cong [of us _ "hp_size h"]) (use sz in auto)
  have "apart (hp_size h') vs ?e = apart (hp_size h) vs ?e" using sz(3) by (intro apart_cong) simp
  then have av: "apart (hp_size h') (q # p # vs) (unat (hp_brk h'))" using R(5) un sz(1,2) by (auto simp: apart_Cons hx)
  have b: "b \<noteq> t" "b \<noteq> p"
  proof -
    have "b \<in> set us \<union> {q}" using R(1) by (cases us) auto
    then show "b \<noteq> t" "b \<noteq> p" using fresh d by auto
  qed
  have ok': "b \<noteq> 0" "b < hp_brk h'" "hp_size h' b = 0" using ok b h' by (simp_all add: heap_ok_def hx)
  have "?m \<noteq> 0" using un nn by (auto simp: word_unat_eq_iff)
  then have nz: "\<forall>x\<in>set (us @ q # p # vs). x \<noteq> b \<longrightarrow> hp_size h' x \<noteq> 0" using R(6) sz by auto
  note H = heap_okI [OF R(1) R(2,3) [folded hx(1)] au av ok'(3) nz hx(2) ok'(1,2), folded R(7)]
  show "heap_ok b xs h'" by (rule H(1))
  have cut: "block p (hp_size h p) = block p ?m \<union> block t n" "block p ?m \<inter> block t n = {}"
    using ut un nn by (auto simp: block_def)
  show "block t n \<subseteq> blocks h xs" unfolding R(10) using cut by auto
  have "blocks h' us = blocks h us" "blocks h' vs = blocks h vs" by (rule blocks_cong; use sz in simp)+
  then show "blocks h' xs = blocks h xs - block t n"
    unfolding H(2) R(10) using sz cut blocks_apart [OF ap] by auto
qed

lemma take_block_spec:
  assumes ok: "heap_ok b xs h" and p: "p \<in> set xs" and q: "q \<in> set (b # xs)" "hp_ptr h q = p"
    and n: "n \<le> hp_size h p" "n \<noteq> 0" and t: "take_block n q p h = (r, h')"
  obtains ys where "heap_ok b ys h'" "hp_brk h' = hp_brk h" "r \<noteq> 0" "hp_size h' (r - 8) = n" "b < r - 8"
    "block (r - 8) n \<subseteq> blocks h xs" "blocks h' ys = blocks h xs - block (r - 8) n"
proof -
  have f: "seg (hp_ptr h) b xs b" "apart (hp_size h) (b # xs) (unat (hp_brk h))" "hp_size h p \<noteq> 0"
    using ok p by (simp_all add: heap_ok_def)
  obtain us vs where sp: "b # xs = us @ q # p # vs" using ring_prev [OF f(1) apart_distinct [OF f(2)] q p] by blast
  have bp: "b < p" using apart_lt [OF f(2) p] by (simp add: word_less_nat_alt)
  have pe: "unat p + 8 * unat (hp_size h p) \<le> unat (hp_brk h)" using apart_end [OF f(2), of p] p by simp
  have r8: "x + 8 \<noteq> 0" if "unat x + 8 * m \<le> unat (hp_brk h)" "1 \<le> m" for x :: u32 and m
  proof -
    have "unat x + 8 < 2 ^ 32" using that unat_less_32 [of "hp_brk h"] by linarith
    then have "unat (x + 8) = unat x + 8" using unat_add_nat_32 [of x 8] by simp
    then show ?thesis by (metis add_is_0 unsigned_0 zero_neq_numeral)
  qed
  have pos: "1 \<le> unat n" using n(2) by (simp add: unat_gt_0 Suc_le_eq)
  show thesis
  proof (cases "hp_size h p = n")
    case True
    have r: "r = p + 8" "h' = (set_ptr q (hp_ptr h p) h)\<lparr>hp_freep := q\<rparr>" using t True by (simp_all add: take_block_def)
    have "block p n \<subseteq> blocks h xs" using p True by (auto simp: blocks_def)
    then show thesis
      using that [of "tl (us @ q # vs)"] take_whole [OF ok sp] r True r8 [OF pe] pos bp by auto
  next
    case False
    note T = take_tail [OF ok sp n False]
    let ?t = "p + 8 * (hp_size h p - n)"
    have r: "r = ?t + 8" "h' = (set_size ?t n (set_size p (hp_size h p - n) h))\<lparr>hp_freep := q\<rparr>"
      using t False T(5) by (auto simp: take_block_def Let_def)
    have "?t + 8 \<noteq> 0" using r8 [of ?t "unat n"] T(4) pe pos by simp
    moreover have "b < ?t" using bp T(5) by (rule less_trans)
    ultimately show thesis using that [of xs] T(1-3) r by simp
  qed
qed



subsection \<open>malloc\<close>

lemma malloc_walk:
  assumes "seg (hp_ptr h) q ys (hp_freep h)" and "hp_freep h \<notin> set ys"
  shows "(\<exists>q'\<in>set (q # ys). hp_ptr h q' \<in> set (ys @ [hp_freep h]) \<and> n \<le> hp_size h (hp_ptr h q')
      \<and> malloc_loop ok n q (hp_ptr h q) h = Some (take_block n q' (hp_ptr h q') h))
    \<or> (\<forall>p\<in>set (ys @ [hp_freep h]). hp_size h p < n)
      \<and> malloc_loop ok n q (hp_ptr h q) h = Option.bind (morecore ok n h) (\<lambda>r.
          if fst r = 0 then Some (0, snd r)
          else malloc_loop ok n (fst r) (hp_ptr (snd r) (fst r)) (snd r))"
  using assms
proof (induction ys arbitrary: q)
  case Nil
  then show ?case by (auto simp: malloc_loop.simps [of ok n q] not_le)
next
  case (Cons y ys)
  have y: "hp_ptr h q = y" "seg (hp_ptr h) y ys (hp_freep h)" "y \<noteq> hp_freep h" "hp_freep h \<notin> set ys"
    using Cons.prems by auto
  show ?case
  proof (cases "n \<le> hp_size h y")
    case True
    then show ?thesis using y(1) by (intro disjI1 bexI [of _ q]) (simp_all add: malloc_loop.simps [of ok n q])
  next
    case False
    have "malloc_loop ok n q (hp_ptr h q) h = malloc_loop ok n y (hp_ptr h y) h"
      using False y by (subst malloc_loop.simps) simp
    then show ?thesis using Cons.IH [OF y(2,4)] False by (auto simp: not_le)
  qed
qed

text \<open>The ring seen from its current member.\<close>

lemma ring_turn:
  assumes "heap_ok b xs h"
  obtains ys where "seg (hp_ptr h) (hp_freep h) ys (hp_freep h)" "hp_freep h \<notin> set ys"
    "set (hp_freep h # ys) = set (b # xs)"
proof -
  have r: "seg (hp_ptr h) b xs b" and a: "apart (hp_size h) (b # xs) (unat (hp_brk h))"
    and f: "hp_freep h \<in> set (b # xs)"
    using assms by (simp_all add: heap_ok_def)
  have d: "distinct (b # xs)" using apart_distinct [OF a] .
  obtain us vs where s: "b # xs = us @ hp_freep h # vs" using split_list [OF f] by blast
  show thesis
  proof (cases us)
    case Nil
    then show ?thesis using that [of xs] r s d by auto
  next
    case (Cons u us')
    then have xs: "u = b" "xs = us' @ hp_freep h # vs" using s by auto
    then have "seg (hp_ptr h) (hp_freep h) (vs @ b # us') (hp_freep h)"
      using r by (auto simp: seg_append)
    then show ?thesis using that [of "vs @ b # us'"] xs d by auto
  qed
qed

definition taken :: "u32 \<Rightarrow> u32 list \<Rightarrow> heap \<Rightarrow> nat set \<Rightarrow> u32 \<Rightarrow> u32 \<times> heap \<Rightarrow> bool" where
  "taken b xs h F n = (\<lambda>(r, h'). r \<noteq> 0 \<and> b < r - 8 \<and> hp_size h' (r - 8) = n \<and> block (r - 8) n \<subseteq> F
     \<and> (\<exists>ys. heap_ok b ys h' \<and> blocks h' ys = F - block (r - 8) n) \<and> hp_brk h' = hp_brk h)"

lemma taken_block:
  assumes ok: "heap_ok b xs h" and q: "q \<in> set (b # xs)" "hp_ptr h q \<in> set (b # xs)"
    and n: "n \<le> hp_size h (hp_ptr h q)" "n \<noteq> 0"
  shows "taken b xs h (blocks h xs) n (take_block n q (hp_ptr h q) h)"
proof -
  have "hp_ptr h q \<noteq> b" using ok n by (auto simp: heap_ok_def)
  then have p: "hp_ptr h q \<in> set xs" using q(2) by simp
  obtain r h' where t: "take_block n q (hp_ptr h q) h = (r, h')" by fastforce
  from ok p q(1) refl n t
  obtain ys where "heap_ok b ys h'" "hp_brk h' = hp_brk h" "r \<noteq> 0" "hp_size h' (r - 8) = n" "b < r - 8"
    "block (r - 8) n \<subseteq> blocks h xs" "blocks h' ys = blocks h xs - block (r - 8) n"
    by (rule take_block_spec)
  then show ?thesis unfolding t taken_def by auto
qed

lemma malloc_loop_fits:
  assumes ok: "heap_ok b xs h" and n: "n \<noteq> 0" and y: "y \<in> set xs" "n \<le> hp_size h y"
  shows "\<exists>r. malloc_loop sys n (hp_freep h) (hp_ptr h (hp_freep h)) h = Some r \<and> taken b xs h (blocks h xs) n r"
proof -
  obtain ys where ys: "seg (hp_ptr h) (hp_freep h) ys (hp_freep h)" "hp_freep h \<notin> set ys"
      "set (hp_freep h # ys) = set (b # xs)"
    using ring_turn [OF ok] by blast
  have "y \<in> set (ys @ [hp_freep h])" using y(1) ys(3) by auto
  then have "\<not> (\<forall>p\<in>set (ys @ [hp_freep h]). hp_size h p < n)" using y(2) not_less by blast
  with malloc_walk [OF ys(1,2), of n sys] obtain q' where q': "q' \<in> set (hp_freep h # ys)"
      "hp_ptr h q' \<in> set (ys @ [hp_freep h])" "n \<le> hp_size h (hp_ptr h q')"
      "malloc_loop sys n (hp_freep h) (hp_ptr h (hp_freep h)) h = Some (take_block n q' (hp_ptr h q') h)"
    by blast
  have "q' \<in> set (b # xs)" "hp_ptr h q' \<in> set (b # xs)" using q'(1,2) ys(3) by auto
  then show ?thesis using taken_block [OF ok _ _ q'(3) n] q'(4) by blast
qed


text \<open>What \<open>sbrk\<close> promises: it never lets the process reach the kernel's half of the memory.\<close>

definition sbrk_law :: "(u32 \<Rightarrow> int \<Rightarrow> bool) \<Rightarrow> bool" where
  "sbrk_law sys \<longleftrightarrow> (\<forall>e d. sys e d \<longrightarrow> 0 \<le> d \<and> int (unat e) + d < 2 ^ 31)"

lemma heap_ok_grown:
  assumes "heap_ok b xs h" and "unat (hp_brk h) \<le> unat e"
  shows "heap_ok b xs (h\<lparr>hp_brk := e\<rparr>)"
proof -
  have "apart sz ys d \<Longrightarrow> d \<le> d' \<Longrightarrow> apart sz ys d'" for sz ys d d'
    by (induction sz ys d rule: apart.induct) auto
  then show ?thesis using assms by (auto simp: heap_ok_def word_less_nat_alt)
qed

lemma morecore_spec:
  assumes ok: "heap_ok b xs h" and law: "sbrk_law sys" and n: "n \<noteq> 0" "unat n < 2 ^ 28"
  shows "morecore sys n h = Some (0, h)
    \<or> (\<exists>ys h'. morecore sys n h = Some (hp_freep h', h') \<and> hp_freep h' \<noteq> 0 \<and> heap_ok b ys h'
        \<and> blocks h' ys = blocks h xs \<union> {unat (hp_brk h)..<unat (hp_brk h')}
        \<and> unat (hp_brk h) \<le> unat (hp_brk h') \<and> (\<exists>y\<in>set ys. n \<le> hp_size h' y))"
proof -
  define nu :: u32 where "nu = (if n < 4096 then 4096 else n)"
  have nu: "unat nu < 2 ^ 28" "n \<le> nu" "nu \<noteq> 0"
    using n by (auto simp: nu_def word_less_nat_alt word_le_nat_alt)
  have u8: "unat (nu * 8) = 8 * unat nu" using nu(1) by (simp add: unat_word_ariths)
  then have s8: "sint (nu * 8) = int (8 * unat nu)" 
  proof -
    have "uint (nu * 8) = int (8 * unat nu)" by (simp only: u8 [symmetric] uint_nat)
    moreover have "8 * unat nu < 2 ^ 31" using nu(1) by simp
    then have "uint (nu * 8) < 2 ^ 31" by (simp only: calculation of_nat_less_iff [where 'a = int, symmetric]) simp
    then have "sint (nu * 8) = uint (nu * 8)"
      unfolding sint_uint using order_trans [of "- (2 ^ 31)" 0 "uint (nu * 8)"]
      by (intro signed_take_bit_int_eq_self) simp_all
    ultimately show ?thesis by simp
  qed
  show ?thesis
  proof (cases "sys (hp_brk h) (sint (nu * 8))")
    case False
    then show ?thesis by (simp add: morecore_def sbrk_def nu_def [symmetric] Let_def)
  next
    case True
    let ?p = "hp_brk h" and ?e = "hp_brk h + of_int (sint (nu * 8))"
    have "int (unat ?p) + sint (nu * 8) < 2 ^ 31" using law True unfolding sbrk_law_def by blast
    then have "int (unat ?p + 8 * unat nu) < int (2 ^ 31)" unfolding s8 by simp
    then have b: "unat ?p + 8 * unat nu < 2 ^ 31" by (simp only: of_nat_less_iff)
    have ue: "unat ?e = unat ?p + 8 * unat nu" using b u8 by (simp add: unat_add_32)
    let ?h = "set_size ?p nu (h\<lparr>hp_brk := ?e\<rparr>)"
    have ok1: "heap_ok b xs (h\<lparr>hp_brk := ?e\<rparr>)" using heap_ok_grown [OF ok] ue by simp
    have f: "apart (hp_size h) (b # xs) (unat ?p)" "b < ?p" "\<forall>x\<in>set xs. hp_size h x \<noteq> 0"
      using ok by (simp_all add: heap_ok_def)
    have below: "unat x + 8 * unat (hp_size h x) \<le> unat ?p" if "x \<in> set xs" for x
      using apart_end [OF f(1), of x] that by simp
    have fresh: "?p \<notin> set (b # xs)" using below [of ?p] f(2,3) by (auto simp: unat_eq_zero)
    have same: "hp_size ?h x = hp_size h x" if "x \<in> set (b # xs)" for x using that fresh by auto
    have "apart (hp_size ?h) (b # xs) (unat ?e) = apart (hp_size h) (b # xs) (unat ?e)"
      using same by (intro apart_cong) auto
    then have ok2: "heap_ok b xs ?h" using ok1 same by (auto simp: heap_ok_def)
    have bl: "blocks ?h xs = blocks h xs" using same by (intro blocks_cong) auto
    have "block ?p nu \<inter> blocks h xs = {}" using below by (fastforce simp: blocks_def block_def)
    then have pre: "hp_size ?h ?p \<noteq> 0" "unat ?p + 8 * unat (hp_size ?h ?p) \<le> unat (hp_brk ?h)"
        "block ?p (hp_size ?h ?p) \<inter> blocks ?h xs = {}"
      unfolding bl using nu(3) ue by simp_all
    obtain ys h' where r: "free (?p + 8) ?h = Some h'" "heap_ok b ys h'" "hp_brk h' = hp_brk ?h"
        "blocks h' ys = blocks ?h xs \<union> block ?p (hp_size ?h ?p)"
        "\<exists>y\<in>set ys. block ?p (hp_size ?h ?p) \<subseteq> block y (hp_size h' y)"
      by (rule free_spec [OF ok2 f(2) pre])
    have hb: "hp_brk h' = ?e" "hp_size ?h ?p = nu" using r(3) by simp_all
    note r = r(1,2) hb(1) r(4,5) [unfolded bl hb(2)]
    have "?p \<noteq> - 1"
    proof
      assume "?p = - 1"
      then have "unat ?p = 2 ^ 32 - 1" by (simp add: unsigned_minus_1_eq_mask mask_eq_exp_minus_1)
      then show False using b by simp
    qed
    then have m: "morecore sys n h = Some (hp_freep h', h')"
      using True r(1) by (simp add: morecore_def sbrk_def nu_def [symmetric] Let_def)
    have bk: "block ?p nu = {unat ?p..<unat (hp_brk h')}" by (simp only: block_def r(3) ue)
    obtain y where y: "y \<in> set ys" "block ?p nu \<subseteq> block y (hp_size h' y)" using r(5) by blast
    have "0 < unat nu" using nu(3) by (simp add: unat_gt_0)
    then have "unat y \<le> unat ?p" "unat ?p + 8 * unat nu \<le> unat y + 8 * unat (hp_size h' y)"
      using y(2) by (simp_all add: block_def atLeastLessThan_subset_iff)
    then have "nu \<le> hp_size h' y" by (simp add: word_le_nat_alt)
    then have "n \<le> hp_size h' y" using nu(2) by simp
    moreover have "hp_freep h' \<noteq> 0"
    proof -
      have a: "apart (hp_size h') (b # ys) (unat (hp_brk h'))" "hp_freep h' \<in> set (b # ys)" "b \<noteq> 0"
        using r(2) by (simp_all add: heap_ok_def)
      then have "unat b \<le> unat (hp_freep h')" using apart_lt [OF a(1)] by fastforce
      then show ?thesis using a(3) by (auto simp: unat_eq_zero)
    qed
    ultimately show ?thesis using m r(2,4) bk ue y(1) r(3) by auto
  qed
qed



subsection \<open>The allocator against the set of free bytes\<close>

definition heap_inv :: "u32 \<Rightarrow> nat set \<Rightarrow> heap \<Rightarrow> bool" where
  "heap_inv b F h \<longleftrightarrow> hp_freep h = 0 \<and> b \<noteq> 0 \<and> b < hp_brk h \<and> F = {} \<or> (\<exists>xs. heap_ok b xs h \<and> blocks h xs = F)"

definition grown_bytes :: "heap \<Rightarrow> heap \<Rightarrow> nat set" where
  "grown_bytes h h' = {unat (hp_brk h)..<unat (hp_brk h')}"

lemma freep_nonzero: "heap_ok b xs h \<Longrightarrow> hp_freep h \<noteq> 0"
proof -
  assume "heap_ok b xs h"
  then have a: "apart (hp_size h) (b # xs) (unat (hp_brk h))" "hp_freep h \<in> set (b # xs)" "b \<noteq> 0"
    by (simp_all add: heap_ok_def)
  then have "unat b \<le> unat (hp_freep h)" using apart_lt [OF a(1)] by fastforce
  then show ?thesis using a(3) by (auto simp: unat_eq_zero)
qed

lemma nunits:
  assumes "unat nbytes < 2 ^ 30"
  defines "n \<equiv> (nbytes + 8 - 1) div 8 + 1 :: u32"
  shows "n \<noteq> 0" "unat n < 2 ^ 28" "unat nbytes + 8 \<le> 8 * unat n"
proof -
  have a: "unat (nbytes + 7) = unat nbytes + 7" using assms(1) unat_add_nat_32 [of nbytes 7] by simp
  have e: "nbytes + 8 - 1 = nbytes + 7" by simp
  have "unat ((nbytes + 7) div 8) = (unat nbytes + 7) div 8" using a by (simp add: unat_div_distrib)
  then have "unat n = (unat nbytes + 7) div 8 + 1"
    using assms(1) unat_add_nat_32 [of "(nbytes + 7) div 8" 1] by (simp add: n_def e)
  then show "unat n < 2 ^ 28" "unat nbytes + 8 \<le> 8 * unat n" "n \<noteq> 0" using assms(1) by (auto simp: unat_eq_zero)
qed

lemma malloc_loop_spec:
  assumes ok: "heap_ok b xs h" and law: "sbrk_law sys" and n: "n \<noteq> 0" "unat n < 2 ^ 28"
  shows "\<exists>r h'. malloc_loop sys n (hp_freep h) (hp_ptr h (hp_freep h)) h = Some (r, h')
    \<and> (r = 0 \<and> h' = h
       \<or> (\<exists>xs2 h2. unat (hp_brk h) \<le> unat (hp_brk h') \<and> hp_brk h2 = hp_brk h'
            \<and> taken b xs2 h2 (blocks h xs \<union> grown_bytes h h') n (r, h')))"
proof -
  obtain ys where ys: "seg (hp_ptr h) (hp_freep h) ys (hp_freep h)" "hp_freep h \<notin> set ys"
      "set (hp_freep h # ys) = set (b # xs)"
    using ring_turn [OF ok] by blast
  show ?thesis
  proof (cases "\<exists>y\<in>set xs. n \<le> hp_size h y")
    case True
    then obtain r h' where r: "malloc_loop sys n (hp_freep h) (hp_ptr h (hp_freep h)) h = Some (r, h')"
        "taken b xs h (blocks h xs) n (r, h')"
      using malloc_loop_fits [OF ok n(1)] by (metis surj_pair)
    then have "hp_brk h' = hp_brk h" by (simp add: taken_def)
    then have "unat (hp_brk h) \<le> unat (hp_brk h') \<and> hp_brk h = hp_brk h'
        \<and> taken b xs h (blocks h xs \<union> grown_bytes h h') n (r, h')"
      using r(2) by (simp add: grown_bytes_def)
    then show ?thesis using r(1) by blast
  next
    case False
    have "\<not> n \<le> hp_size h b" using ok n(1) by (simp add: heap_ok_def)
    then have no: "\<not> (\<exists>q'\<in>set (hp_freep h # ys). hp_ptr h q' \<in> set (ys @ [hp_freep h]) \<and> n \<le> hp_size h (hp_ptr h q')
        \<and> malloc_loop sys n (hp_freep h) (hp_ptr h (hp_freep h)) h = Some (take_block n q' (hp_ptr h q') h))"
      using False ys(3) by (metis (no_types, lifting) list.set_intros(1) rotate1.simps(2) set_ConsD set_rotate1)
    have step: "malloc_loop sys n (hp_freep h) (hp_ptr h (hp_freep h)) h = Option.bind (morecore sys n h) (\<lambda>r.
          if fst r = 0 then Some (0, snd r)
          else malloc_loop sys n (fst r) (hp_ptr (snd r) (fst r)) (snd r))"
      using malloc_walk [OF ys(1,2), of n sys] no by blast
    from morecore_spec [OF ok law n] show ?thesis
    proof
      assume "morecore sys n h = Some (0, h)"
      then show ?thesis using step by simp
    next
      assume "\<exists>zs h2. morecore sys n h = Some (hp_freep h2, h2) \<and> hp_freep h2 \<noteq> 0 \<and> heap_ok b zs h2
        \<and> blocks h2 zs = blocks h xs \<union> {unat (hp_brk h)..<unat (hp_brk h2)}
        \<and> unat (hp_brk h) \<le> unat (hp_brk h2) \<and> (\<exists>y\<in>set zs. n \<le> hp_size h2 y)"
      then obtain zs h2 y where m: "morecore sys n h = Some (hp_freep h2, h2)" "hp_freep h2 \<noteq> 0" "heap_ok b zs h2"
          "blocks h2 zs = blocks h xs \<union> {unat (hp_brk h)..<unat (hp_brk h2)}"
          "unat (hp_brk h) \<le> unat (hp_brk h2)" "y \<in> set zs" "n \<le> hp_size h2 y"
        by blast
      obtain r h' where r: "malloc_loop sys n (hp_freep h2) (hp_ptr h2 (hp_freep h2)) h2 = Some (r, h')"
          "taken b zs h2 (blocks h2 zs) n (r, h')"
        using malloc_loop_fits [OF m(3) n(1) m(6,7)] by (metis surj_pair)
      then have "hp_brk h' = hp_brk h2" by (simp add: taken_def)
      then have "unat (hp_brk h) \<le> unat (hp_brk h') \<and> hp_brk h2 = hp_brk h'
          \<and> taken b zs h2 (blocks h xs \<union> grown_bytes h h') n (r, h')"
        using r(2) m(4,5) by (simp add: grown_bytes_def)
      then show ?thesis using step m(1,2) r(1) by auto
    qed
  qed
qed

text \<open>The first call makes the list of \<open>base\<close> alone.\<close>

lemma malloc_start:
  assumes "heap_inv b F h"
  obtains xs h0 where "malloc b sys nbytes h = malloc_loop sys ((nbytes + 8 - 1) div 8 + 1) (hp_freep h0) (hp_ptr h0 (hp_freep h0)) h0"
    "heap_ok b xs h0" "blocks h0 xs = F" "hp_brk h0 = hp_brk h" "hp_freep h \<noteq> 0 \<longrightarrow> h0 = h"
proof (cases "hp_freep h = 0")
  case True
  then have F: "b \<noteq> 0" "b < hp_brk h" "F = {}" using assms freep_nonzero by (auto simp: heap_inv_def)
  let ?h = "(set_size b 0 (set_ptr b b h))\<lparr>hp_freep := b\<rparr>"
  have "heap_ok b [] ?h" using F by (simp add: heap_ok_def word_less_nat_alt)
  then show ?thesis using that [of ?h "[]"] True F by (simp add: malloc_def Let_def)
next
  case False
  then show ?thesis using assms that [of h] by (auto simp: heap_inv_def malloc_def Let_def)
qed

lemma malloc_spec:
  assumes inv: "heap_inv b F h" and law: "sbrk_law sys" and nb: "unat nbytes < 2 ^ 30"
  shows "\<exists>r h'. malloc b sys nbytes h = Some (r, h') \<and>
    (if r = 0 then heap_inv b F h' \<and> hp_brk h' = hp_brk h
     else hp_freep h' \<noteq> 0 \<and> b < r - 8 \<and> unat nbytes + 8 \<le> 8 * unat (hp_size h' (r - 8)) \<and> unat (hp_brk h) \<le> unat (hp_brk h')
       \<and> block (r - 8) (hp_size h' (r - 8)) \<subseteq> F \<union> grown_bytes h h'
       \<and> heap_inv b ((F \<union> grown_bytes h h') - block (r - 8) (hp_size h' (r - 8))) h')"
proof -
  let ?n = "(nbytes + 8 - 1) div 8 + 1"
  note n = nunits [OF nb]
  obtain xs h0 where h0: "malloc b sys nbytes h = malloc_loop sys ?n (hp_freep h0) (hp_ptr h0 (hp_freep h0)) h0"
      "heap_ok b xs h0" "blocks h0 xs = F" "hp_brk h0 = hp_brk h"
    using malloc_start [OF inv] by metis
  from malloc_loop_spec [OF h0(2) law n(1,2)] obtain r h' where
      r: "malloc b sys nbytes h = Some (r, h')"
      "r = 0 \<and> h' = h0 \<or> (\<exists>xs2 h2. unat (hp_brk h0) \<le> unat (hp_brk h') \<and> hp_brk h2 = hp_brk h'
            \<and> taken b xs2 h2 (blocks h0 xs \<union> grown_bytes h0 h') ?n (r, h'))"
    unfolding h0(1) by blast
  from r(2) show ?thesis
  proof
    assume "r = 0 \<and> h' = h0"
    then show ?thesis using r(1) h0(2-4) by (auto simp: heap_inv_def)
  next
    have g: "grown_bytes h0 h' = grown_bytes h h'" by (simp add: grown_bytes_def h0(4))
    assume "\<exists>xs2 h2. unat (hp_brk h0) \<le> unat (hp_brk h') \<and> hp_brk h2 = hp_brk h'
            \<and> taken b xs2 h2 (blocks h0 xs \<union> grown_bytes h0 h') ?n (r, h')"
    then have t: "r \<noteq> 0" "b < r - 8" "hp_size h' (r - 8) = ?n" "block (r - 8) ?n \<subseteq> F \<union> grown_bytes h h'"
        "\<exists>ys. heap_ok b ys h' \<and> blocks h' ys = F \<union> grown_bytes h h' - block (r - 8) ?n"
        "unat (hp_brk h) \<le> unat (hp_brk h')"
      unfolding taken_def h0(3,4) g prod.case by blast+
    have "heap_inv b ((F \<union> grown_bytes h h') - block (r - 8) ?n) h'"
      unfolding heap_inv_def using t(5) by blast
    moreover have "hp_freep h' \<noteq> 0" using t(5) freep_nonzero by blast
    ultimately show ?thesis unfolding r(1) using t(1,2,4,6) n(3) unfolding t(3) [symmetric]
      by (intro exI [of _ r] exI [of _ h']) simp
  qed
qed

lemma free_inv:
  assumes "heap_inv b F h" and "hp_freep h \<noteq> 0" and "b < ap - 8" "hp_size h (ap - 8) \<noteq> 0"
    and "unat (ap - 8) + 8 * unat (hp_size h (ap - 8)) \<le> unat (hp_brk h)"
    and "block (ap - 8) (hp_size h (ap - 8)) \<inter> F = {}"
  shows "\<exists>h'. free ap h = Some h' \<and> hp_brk h' = hp_brk h \<and> heap_inv b (F \<union> block (ap - 8) (hp_size h (ap - 8))) h'"
proof -
  obtain xs where xs: "heap_ok b xs h" "blocks h xs = F" using assms(1,2) by (auto simp: heap_inv_def)
  obtain ys h' where "free (ap - 8 + 8) h = Some h'" "heap_ok b ys h'" "hp_brk h' = hp_brk h"
      "blocks h' ys = blocks h xs \<union> block (ap - 8) (hp_size h (ap - 8))"
    using free_spec [OF xs(1) assms(3-5) assms(6) [folded xs(2)]] by metis
  then show ?thesis using xs(2) by (auto simp: heap_inv_def)
qed


lemma heap_inv_bound: "heap_inv b F h \<Longrightarrow> x \<in> F \<Longrightarrow> x < unat (hp_brk h)"
proof -
  assume "heap_inv b F h" "x \<in> F"
  then obtain xs y where xs: "heap_ok b xs h" "y \<in> set xs" "x \<in> block y (hp_size h y)"
    by (auto simp: heap_inv_def blocks_def)
  then have "unat y + 8 * unat (hp_size h y) \<le> unat (hp_brk h)"
    using apart_end [of "hp_size h" "b # xs" "unat (hp_brk h)" y] by (simp add: heap_ok_def)
  then show ?thesis using xs(3) by (simp add: block_def)
qed

lemma malloc_free:
  assumes inv: "heap_inv b F h" and law: "sbrk_law sys" and nb: "unat nbytes < 2 ^ 30"
    and m: "malloc b sys nbytes h = Some (r, h')" "r \<noteq> 0"
  shows "\<exists>h2. free r h' = Some h2 \<and> heap_inv b (F \<union> grown_bytes h h') h2"
proof -
  let ?n = "hp_size h' (r - 8)" and ?F = "F \<union> grown_bytes h h'"
  have s: "hp_freep h' \<noteq> 0" "b < r - 8" "unat nbytes + 8 \<le> 8 * unat ?n" "unat (hp_brk h) \<le> unat (hp_brk h')"
      "block (r - 8) ?n \<subseteq> ?F" "heap_inv b (?F - block (r - 8) ?n) h'"
    using malloc_spec [OF inv law nb] m by auto
  have n0: "?n \<noteq> 0" using s(3) by (auto simp: unat_eq_zero)
  have "unat (r - 8) + 8 * unat ?n - 1 \<in> block (r - 8) ?n" using s(3) by (auto simp: block_def)
  moreover have "x < unat (hp_brk h')" if "x \<in> ?F" for x
    using that heap_inv_bound [OF inv, of x] s(4) by (auto simp: grown_bytes_def)
  ultimately have "unat (r - 8) + 8 * unat ?n \<le> unat (hp_brk h')" using s(5) by fastforce
  from free_inv [OF s(6,1,2) n0 this] show ?thesis using s(5) by (auto simp: Un_absorb2)
qed

text \<open>The rounding of the size overflows for the seven largest requests.\<close>

lemma malloc_overflow:
  assumes "0xFFFFFFF9 \<le> nbytes"
  shows "malloc b sys nbytes h = malloc b sys 0 h"
proof -
  obtain k where k: "unat nbytes = 0xFFFFFFF9 + k" "k < 7"
    using assms unat_less_32 [of nbytes] by (auto simp: word_le_nat_alt dest: le_Suc_ex)
  have e: "nbytes + 8 - 1 = nbytes + 7" by simp
  have "unat (nbytes + 7) = k" using k by (simp add: unat_word_ariths)
  then have "unat (nbytes + 8 - 1) = k" by (simp only: e)
  then have "(nbytes + 8 - 1) div 8 = 0" using k(2) by (simp add: word_unat_eq_iff unat_div_distrib)
  moreover have "(0 + 8 - 1 :: u32) div 8 = 0" by simp
  ultimately show ?thesis by (simp only: malloc_def)
qed

end
