(* ===== verification/Umalloc_Correct.thy ===== *)
theory Umalloc_Correct
  imports Umalloc_Ok
begin

text \<open>
  The properties of the user allocator, applied to a program whose memory ends at 0x4000 and
  whose \<open>base\<close> lies at 0x1000.
\<close>

definition demo_sbrk :: "u32 \<Rightarrow> int \<Rightarrow> bool" where
  "demo_sbrk e d \<longleftrightarrow> 0 \<le> d \<and> int (unat e) + d < 2 ^ 31"

definition demo_heap :: "u32 \<Rightarrow> heap" where
  "demo_heap f = \<lparr>hp_ptr = \<lambda>_. 0x1000, hp_size = (\<lambda>_. 0)(0x2000 := 4), hp_freep = f, hp_brk = 0x4000\<rparr>"

definition demo_block :: heap where
  "demo_block = \<lparr>hp_ptr = (\<lambda>_. 0)(0x1000 := 0x2000, 0x2000 := 0x1000), hp_size = (\<lambda>_. 0)(0x2000 := 4),
     hp_freep = 0x1000, hp_brk = 0x4000\<rparr>"

lemma demo_sbrk_law: "sbrk_law demo_sbrk" by (simp add: sbrk_law_def demo_sbrk_def)

lemma demo_heap_inv: "heap_inv 0x1000 {} (demo_heap 0)" "heap_inv 0x1000 {} (demo_heap 0x1000)"
proof -
  show "heap_inv 0x1000 {} (demo_heap 0)" by (simp add: heap_inv_def demo_heap_def)
  have "heap_ok 0x1000 [] (demo_heap 0x1000)" by (simp add: heap_ok_def demo_heap_def)
  then show "heap_inv 0x1000 {} (demo_heap 0x1000)" unfolding heap_inv_def by (metis blocks_simps(1))
qed



text \<open>
  C35: free of a block that is not free ends with the free list circular, sorted and
  disjoint again, its free bytes being those before and the block, whatever is coalesced.
\<close>

theorem free_gives_back:
  assumes "heap_inv b F h" and "hp_freep h \<noteq> 0" and "b < ap - 8" "hp_size h (ap - 8) \<noteq> 0"
    and "unat (ap - 8) + 8 * unat (hp_size h (ap - 8)) \<le> unat (hp_brk h)"
    and "block (ap - 8) (hp_size h (ap - 8)) \<inter> F = {}"
  shows "\<exists>h'. free ap h = Some h' \<and> hp_brk h' = hp_brk h \<and> heap_inv b (F \<union> block (ap - 8) (hp_size h (ap - 8))) h'"
  using assms by (rule free_inv)

theorem free_gives_back_witness:
  "\<exists>h'. free 0x2008 (demo_heap 0x1000) = Some h' \<and> heap_inv 0x1000 {0x2000..<0x2020} h'"
  using free_gives_back [OF demo_heap_inv(2), of "0x2008"] by (auto simp: demo_heap_def block_def)

theorem malloc_free_roundtrip:
  assumes "heap_inv b F h" and "sbrk_law sys" and "unat nbytes < 2 ^ 30"
    and "malloc b sys nbytes h = Some (r, h')" "r \<noteq> 0"
  shows "\<exists>h2. free r h' = Some h2 \<and> heap_inv b (F \<union> grown_bytes h h') h2"
  using assms by (rule malloc_free)

theorem malloc_free_roundtrip_witness:
  "\<exists>h' h2. malloc 0x1000 demo_sbrk 8 demo_block = Some (0x2018, h') \<and> free 0x2018 h' = Some h2
     \<and> heap_inv 0x1000 {0x2000..<0x2020} h2"
proof -
  have "heap_ok 0x1000 [0x2000] demo_block" "blocks demo_block [0x2000] = {0x2000..<0x2020}"
    by (simp_all add: heap_ok_def demo_block_def block_def)
  then have inv: "heap_inv 0x1000 {0x2000..<0x2020} demo_block" unfolding heap_inv_def by metis
  have "(8 + 8 - 1 :: u32) div 8 + 1 = 2" by simp
  then obtain h' where h': "malloc 0x1000 demo_sbrk 8 demo_block = Some (0x2018, h')" "hp_brk h' = 0x4000"
    unfolding malloc_def by (simp add: malloc_loop.simps [of demo_sbrk 2] demo_block_def take_block_def Let_def)
  have "grown_bytes demo_block h' = {}" using h'(2) by (simp add: grown_bytes_def demo_block_def)
  then show ?thesis using malloc_free_roundtrip [OF inv demo_sbrk_law _ h'(1)] h'(1) by auto
qed

theorem malloc_size_overflow:
  assumes "0xFFFFFFF9 \<le> nbytes"
  shows "malloc b sys nbytes h = malloc b sys 0 h"
  using assms by (rule malloc_overflow)

theorem malloc_size_overflow_witness:
  "malloc 0x1000 demo_sbrk 0xFFFFFFFF (demo_heap 0) = malloc 0x1000 demo_sbrk 0 (demo_heap 0)"
  by (rule malloc_size_overflow) simp

end
