(* ===== verification/Shell.thy ===== *)
theory Shell
  imports Ulib
begin

text \<open>
  sh.c: the parser of the shell and the system calls it makes for a command. The text that is
  left is the rest of the line, which holds no 0; a token is the list of its characters, so
  \<open>nulterminate\<close>, which ends the counted strings, leaves nothing to do. \<open>malloc\<close> is taken to
  succeed. The procedures that call each other in a circle take fuel; \<open>Shell_Correct\<close> proves
  that \<open>parsecmd\<close> has enough of it.
\<close>

datatype redir = R (r_file: "u8 list") (r_mode: u32) (r_fd: nat)

datatype cmd =
    Exec "u8 list list"
  | Redir cmd redir
  | Pipe cmd cmd
  | Seq cmd cmd
  | Back cmd

definition MAXARGS :: nat where "MAXARGS = 10"

definition whitespace :: "u8 list" where "whitespace = [32, 9, 13, 10, 11]"

text \<open>The characters \<open><|>&;()\<close>.\<close>

definition symbols :: "u8 list" where "symbols = [60, 124, 62, 38, 59, 40, 41]"

abbreviation white :: "u8 \<Rightarrow> bool" where "white c \<equiv> strchr whitespace c \<noteq> None"

abbreviation ordinary :: "u8 \<Rightarrow> bool" where
  "ordinary c \<equiv> \<not> white c \<and> strchr symbols c = None"

definition skip :: "u8 list \<Rightarrow> u8 list" where "skip s = dropWhile white s"


subsection \<open>Tokens\<close>

text \<open>\<open>gettoken\<close>: the kind (0 at the end, 97 for a word, 43 for two angles), the token, the rest.\<close>

definition gettoken :: "u8 list \<Rightarrow> (u8 \<times> u8 list) \<times> u8 list" where
  "gettoken s =
     (case skip s of
        [] \<Rightarrow> ((0, []), [])
      | c # t \<Rightarrow>
          if c \<in> {124, 40, 41, 59, 38, 60} then ((c, [c]), skip t)
          else if c = 62 then
            if t \<noteq> [] \<and> hd t = 62 then ((43, [62, 62]), skip (tl t)) else ((c, [c]), skip t)
          else ((97, takeWhile ordinary (c # t)), skip (dropWhile ordinary (c # t))))"

definition peek :: "u8 list \<Rightarrow> u8 list \<Rightarrow> u8 list \<times> bool" where
  "peek toks s = (let s = skip s in (s, s \<noteq> [] \<and> hd s \<noteq> 0 \<and> strchr toks (hd s) \<noteq> None))"

lemma length_skip: "length (skip s) \<le> length s"
  by (simp add: skip_def length_dropWhile_le)

lemma length_skip_tl: "skip s = c # t \<Longrightarrow> length t < length s"
  using length_skip [of s] by simp

lemma gettoken_shorter: "gettoken s = (t, r) \<Longrightarrow> length r \<le> length s \<and> (fst t \<noteq> 0 \<longrightarrow> length r < length s)"
proof (cases "skip s")
  case (Cons c u)
  assume g: "gettoken s = (t, r)"
  note sh = length_skip_tl [OF Cons]
  have k: "length (skip v) < length s" if "length v \<le> length u" for v
    using length_skip [of v] that sh by simp
  show ?thesis
  proof (cases "c \<in> {124, 40, 41, 59, 38, 60} \<or> c = 62")
    case True
    then show ?thesis
      using g k [of u] k [of "tl u"] Cons by (auto simp: gettoken_def split: if_splits)
  next
    case False
    have "\<not> white c" using Cons hd_dropWhile [of white s] by (auto simp: skip_def)
    then have o: "ordinary c"
      using False by (auto simp: strchr_None symbols_def)
    have "length (dropWhile ordinary (c # u)) = length (dropWhile ordinary u)" using o by simp
    then have l: "length (dropWhile ordinary (c # u)) \<le> length u"
      by (metis length_dropWhile_le)
    have "r = skip (dropWhile ordinary (c # u))"
      using g False Cons unfolding gettoken_def by (simp del: dropWhile.simps takeWhile.simps)
    then show ?thesis using k [OF l] by simp
  qed
qed (auto simp: gettoken_def)

lemma skip_skip [simp]: "skip (skip s) = skip s" by (simp add: skip_def dropWhile_idem)

lemma skip_Nil [simp]: "skip [] = []" by (simp add: skip_def)

lemma peek_eq: "peek toks s = (skip s, skip s \<noteq> [] \<and> hd (skip s) \<noteq> 0 \<and> hd (skip s) \<in> set toks)"
  using strchr_None [of toks "hd (skip s)"] by (auto simp: peek_def Let_def)

lemma gettoken_kind: "skip s \<noteq> [] \<Longrightarrow> hd (skip s) \<noteq> 0 \<Longrightarrow> fst (fst (gettoken s)) \<noteq> 0"
  by (cases "skip s") (auto simp: gettoken_def)

lemma gettoken_skip [simp]: "gettoken (skip s) = gettoken s"
  by (simp add: gettoken_def)

lemma peek_gettoken:
  assumes "peek toks s = (s', True)"
  shows "length (snd (gettoken s')) < length s"
proof -
  have "fst (fst (gettoken s')) \<noteq> 0" "length s' \<le> length s"
    using assms gettoken_kind [of s] by (auto simp: peek_eq length_skip)
  then show ?thesis using gettoken_shorter [of s' "fst (gettoken s')" "snd (gettoken s')"] by simp
qed

lemma peek_shorter: "peek toks s = (r, p) \<Longrightarrow> length r \<le> length s"
  using length_skip [of s] by (auto simp: peek_def Let_def)


subsection \<open>Parsing\<close>

definition O_RDONLY :: u32 where "O_RDONLY = 0"
definition O_NEW :: u32 where "O_NEW = 0x201"

text \<open>The redirections behind a command, the innermost first; \<open>redirect\<close> wraps them around it.\<close>

function parseredirs :: "u8 list \<Rightarrow> (redir list \<times> u8 list) res" where
  "parseredirs s =
     (let (s', p) = peek [60, 62] s in
      if \<not> p then Inr ([], s')
      else
        let (tok, s1) = gettoken s';
            (q, s2) = gettoken s1
        in if fst q \<noteq> 97 then Inl (Panic ''missing file for redirection'')
           else bind_res (parseredirs s2) (\<lambda>(rs, s3).
             Inr ((if fst tok = 60 then R (snd q) O_RDONLY 0 else R (snd q) O_NEW 1) # rs, s3)))"
  by pat_completeness auto
termination
proof (relation "measure length", goal_cases)
  case (2 s x s' p y t s1 z q s2)
  then show ?case
    using peek_shorter [of "[60, 62]" s s' p] gettoken_shorter [of s' t s1] gettoken_shorter [of s1 q s2]
    by simp
qed simp

declare parseredirs.simps [simp del]

definition redirect :: "redir list \<Rightarrow> cmd \<Rightarrow> cmd" where
  "redirect rs c = fold (\<lambda>r c. Redir c r) rs c"

lemma parseredirs_shorter: "parseredirs s = Inr (rs, r) \<Longrightarrow> length r \<le> length s"
proof (induction s arbitrary: rs r rule: parseredirs.induct)
  case (1 s)
  obtain s' p where p: "peek [60, 62] s = (s', p)" by fastforce
  obtain t s1 where t: "gettoken s' = (t, s1)" by fastforce
  obtain q s2 where q: "gettoken s1 = (q, s2)" by fastforce
  note l = peek_shorter [OF p] gettoken_shorter [OF t] gettoken_shorter [OF q]
  show ?case
  proof (cases "p \<and> fst q = 97")
    case True
    then obtain rs' where "parseredirs s2 = Inr (rs', r)"
      using "1.prems" p t q by (auto simp: parseredirs.simps [of s] bind_res_Inr_iff)
    moreover have "parseredirs s2 = Inr (rs', r) \<Longrightarrow> length r \<le> length s2"
      using "1.IH" [OF p [symmetric] refl _ t [symmetric] refl q [symmetric] refl] True by simp
    ultimately show ?thesis using l by simp
  qed (use "1.prems" p t q l in \<open>auto simp: parseredirs.simps [of s] split: if_splits\<close>)
qed

text \<open>
  The loop of \<open>parseexec\<close> after \<open>argc\<close> arguments: the words that follow, and the redirections
  between them.
\<close>

function parse_args :: "nat \<Rightarrow> u8 list \<Rightarrow> (u8 list list \<times> redir list \<times> u8 list) res" where
  "parse_args argc s =
     (let (s', p) = peek [124, 41, 38, 59] s in
      if p then Inr ([], [], s')
      else
        let (q, s1) = gettoken s' in
        if fst q = 0 then Inr ([], [], s1)
        else if fst q \<noteq> 97 then Inl (Panic ''syntax'')
        else if argc + 1 \<ge> MAXARGS then Inl (Panic ''too many args'')
        else bind_res (parseredirs s1) (\<lambda>p. case p of (rs, s2) \<Rightarrow>
          bind_res (parse_args (argc + 1) s2) (\<lambda>(ws, rs', s3). Inr (snd q # ws, rs @ rs', s3))))"
  by pat_completeness auto
termination
proof (relation "measure (\<lambda>(n, s). length s)", goal_cases)
  case (2 n s x s' p y q s1 z rs s2)
  then show ?case
    using peek_shorter [of "[124, 41, 38, 59]" s s' p] gettoken_shorter [of s' q s1]
      parseredirs_shorter [of s1 rs s2]
    by simp
qed simp

declare parse_args.simps [simp del]

text \<open>The loop of \<open>parseline\<close> on \<open>&\<close>.\<close>

function parse_back :: "cmd \<Rightarrow> u8 list \<Rightarrow> cmd \<times> u8 list" where
  "parse_back c s =
     (let (s', p) = peek [38] s in
      if p then parse_back (Back c) (snd (gettoken s')) else (c, s'))"
  by pat_completeness auto
termination
proof (relation "measure (\<lambda>(c, s). length s)", goal_cases)
  case (2 c s x s' p)
  then show ?case using peek_gettoken [of "[38]" s s'] by simp
qed simp

declare parse_back.simps [simp del]

text \<open>Going on with what was parsed; \<open>None\<close> is fuel that ran out.\<close>

definition parsed :: "'a res option \<Rightarrow> ('a \<Rightarrow> 'b res option) \<Rightarrow> 'b res option" where
  "parsed m f = (case m of None \<Rightarrow> None | Some (Inl e) \<Rightarrow> Some (Inl e) | Some (Inr x) \<Rightarrow> f x)"

definition parseblock :: "(u8 list \<Rightarrow> (cmd \<times> u8 list) res option) \<Rightarrow> u8 list \<Rightarrow> (cmd \<times> u8 list) res option" where
  "parseblock line s =
     (let (s1, p) = peek [40] s in
      if \<not> p then Some (Inl (Panic ''parseblock''))
      else parsed (line (snd (gettoken s1))) (\<lambda>(c, s2).
        let (s3, p) = peek [41] s2 in
        if \<not> p then Some (Inl (Panic ''syntax - missing )''))
        else Some (bind_res (parseredirs (snd (gettoken s3))) (\<lambda>(rs, s4). Inr (redirect rs c, s4)))))"

fun parseline :: "nat \<Rightarrow> u8 list \<Rightarrow> (cmd \<times> u8 list) res option"
  and parsepipe :: "nat \<Rightarrow> u8 list \<Rightarrow> (cmd \<times> u8 list) res option"
  and parseexec :: "nat \<Rightarrow> u8 list \<Rightarrow> (cmd \<times> u8 list) res option" where
  "parseline 0 s = None"
| "parseline (Suc n) s =
     parsed (parsepipe n s) (\<lambda>(c, s1).
       let (c, s2) = parse_back c s1; (s3, p) = peek [59] s2 in
       if p then parsed (parseline n (snd (gettoken s3))) (\<lambda>(d, s4). Some (Inr (Seq c d, s4)))
       else Some (Inr (c, s3)))"
| "parsepipe 0 s = None"
| "parsepipe (Suc n) s =
     parsed (parseexec n s) (\<lambda>(c, s1).
       let (s2, p) = peek [124] s1 in
       if p then parsed (parsepipe n (snd (gettoken s2))) (\<lambda>(d, s3). Some (Inr (Pipe c d, s3)))
       else Some (Inr (c, s2)))"
| "parseexec 0 s = None"
| "parseexec (Suc n) s =
     (let (s1, p) = peek [40] s in
      if p then parseblock (\<lambda>s. parseline n s) s1
      else Some (bind_res (parseredirs s1) (\<lambda>(rs, s2).
        bind_res (parse_args 0 s2) (\<lambda>(ws, rs', s3). Inr (redirect (rs @ rs') (Exec ws), s3)))))"

text \<open>\<open>parsecmd\<close> on the bytes before the 0 of the line.\<close>

definition parsecmd :: "u8 list \<Rightarrow> cmd res option" where
  "parsecmd s =
     parsed (parseline (3 * length s + 3) s) (\<lambda>(c, s1).
       Some (if fst (peek [] s1) \<noteq> [] then Inl (Panic ''syntax'') else Inr c))"

end
