(* ===== verification/Shell_Parse.thy ===== *)
theory Shell_Parse
  imports Shell
begin

text \<open>
  The fuel of the parser of sh.c is enough for every line: \<open>line\<close>, \<open>pipe\<close> and \<open>exec\<close> are the procedures
  without fuel, with the equations of the code.
\<close>

subsection \<open>What is left is never longer\<close>

lemma parse_args_shorter: "parse_args n s = Inr (ws, rs, r) \<Longrightarrow> length r \<le> length s"
proof (induction n s arbitrary: ws rs r rule: parse_args.induct)
  case (1 n s)
  obtain s' p where p: "peek [124, 41, 38, 59] s = (s', p)" by fastforce
  obtain q s1 where q: "gettoken s' = (q, s1)" by fastforce
  note l = peek_shorter [OF p] gettoken_shorter [OF q]
  show ?case
  proof (cases "p \<or> fst q = 0 \<or> fst q \<noteq> 97 \<or> n + 1 \<ge> MAXARGS")
    case False
    then obtain rs1 s2 ws' rs2 where a: "parseredirs s1 = Inr (rs1, s2)" "parse_args (n + 1) s2 = Inr (ws', rs2, r)"
      using "1.prems" p q by (auto simp: parse_args.simps [of n s] bind_res_Inr_iff)
    then have "length r \<le> length s2"
      using "1.IH" [OF p [symmetric] refl _ q [symmetric] refl _ _ _ a(1) refl] False by simp
    then show ?thesis using l parseredirs_shorter [OF a(1)] by simp
  qed (use "1.prems" p q l in \<open>auto simp: parse_args.simps [of n s] split: if_splits\<close>)
qed

lemma parse_back_shorter: "parse_back c s = (d, r) \<Longrightarrow> length r \<le> length s"
proof (induction c s rule: parse_back.induct)
  case (1 c s)
  obtain s' p where p: "peek [38] s = (s', p)" by fastforce
  show ?case
  proof (cases p)
    case True
    then have "length r \<le> length (snd (gettoken s'))"
      using "1.IH" [OF p [symmetric] refl] "1.prems" p by (simp add: parse_back.simps [of c s])
    then show ?thesis using peek_gettoken [of "[38]" s s'] p True by simp
  qed (use "1.prems" p peek_shorter [OF p] in \<open>simp add: parse_back.simps [of c s]\<close>)
qed

lemma parsed_Some: "parsed m f = Some r \<longleftrightarrow> (\<exists>e. m = Some (Inl e) \<and> r = Inl e) \<or> (\<exists>x. m = Some (Inr x) \<and> f x = Some r)"
  by (auto simp: parsed_def split: option.splits sum.splits)

lemma parsed_simps [simp]:
  "parsed None f = None" "parsed (Some (Inl e)) f = Some (Inl e)" "parsed (Some (Inr x)) f = f x"
  by (simp_all add: parsed_def)

lemma peek_gettoken2: "peek toks s = (s', p) \<Longrightarrow> p \<Longrightarrow> length s \<le> n \<Longrightarrow> length r \<le> length (snd (gettoken s')) \<Longrightarrow> length r < n"
  using peek_gettoken [of toks s s'] by simp

lemma parse_shorter:
  "parseline n s = Some (Inr (c, r)) \<Longrightarrow> length r \<le> length s"
  "parsepipe n s = Some (Inr (c, r)) \<Longrightarrow> length r \<le> length s"
  "parseexec n s = Some (Inr (c, r)) \<Longrightarrow> length r \<le> length s"
proof (induction n s and n s and n s arbitrary: c r and c r and c r rule: parseline_parsepipe_parseexec.induct)
  case (2 n s)
  then obtain c1 s1 where a: "parsepipe n s = Some (Inr (c1, s1))" by (auto simp: parsed_Some)
  obtain c2 s2 where b: "parse_back c1 s1 = (c2, s2)" by fastforce
  obtain s3 p where p: "peek [59] s2 = (s3, p)" by fastforce
  have l: "length s2 \<le> length s" using 2(1) [OF a] parse_back_shorter [OF b] by simp
  show ?case
  proof (cases p)
    case True
    then obtain d where "parseline n (snd (gettoken s3)) = Some (Inr (d, r))"
      using 2(3) a b p by (auto simp: parsed_Some)
    then show ?thesis using 2(2) [OF b [symmetric] refl p [symmetric] refl True]
        peek_gettoken2 [OF p True l] by fastforce
  qed (use 2(3) a b p peek_shorter [OF p] l in auto)
next
  case (4 n s)
  then obtain c1 s1 where a: "parseexec n s = Some (Inr (c1, s1))" by (auto simp: parsed_Some)
  obtain s2 p where p: "peek [124] s1 = (s2, p)" by fastforce
  have l: "length s1 \<le> length s" using 4(1) [OF a] .
  show ?case
  proof (cases p)
    case True
    then obtain d where "parsepipe n (snd (gettoken s2)) = Some (Inr (d, r))"
      using 4(3) a p by (auto simp: parsed_Some)
    then show ?thesis using 4(2) [OF p [symmetric] refl True]
        peek_gettoken2 [OF p True l] by fastforce
  qed (use 4(3) a p peek_shorter [OF p] l in auto)
next
  case (6 n s)
  obtain s1 p where p: "peek [40] s = (s1, p)" by fastforce
  show ?case
  proof (cases p)
    case True
    have p1: "peek [40] s1 = (s1, True)" using p True by (auto simp: peek_eq)
    obtain c1 s2 where a: "parseline n (snd (gettoken s1)) = Some (Inr (c1, s2))"
      using 6(2) p p1 True by (auto simp: parseblock_def parsed_Some)
    obtain s3 p' where q: "peek [41] s2 = (s3, p')" by fastforce
    have l: "length s2 < length s"
      by (rule peek_gettoken2 [OF p True order_refl 6(1) [OF p [symmetric] refl True a]])
    from True have p': "p'" using 6(2) p p1 a q by (auto split: if_splits simp: parseblock_def)
    then obtain rs where "parseredirs (snd (gettoken s3)) = Inr (rs, r)"
      using 6(2) p p1 True a q by (auto simp: parseblock_def bind_res_Inr_iff)
    then have "length r < length s2"
      by (rule peek_gettoken2 [OF q p' order_refl parseredirs_shorter])
    then show ?thesis using l by simp
  next
    case False
    then show ?thesis using 6(2) p peek_shorter [OF p]
      by (fastforce simp: bind_res_Inr_iff dest: parseredirs_shorter parse_args_shorter)
  qed
qed auto


subsection \<open>More fuel changes nothing\<close>

lemma parsed_mono:
  assumes "parsed m f = Some y" and "\<And>x. m = Some x \<Longrightarrow> m' = Some x"
    and "\<And>x y. m = Some (Inr x) \<Longrightarrow> f x = Some y \<Longrightarrow> g x = Some y"
  shows "parsed m' g = Some y"
  using assms by (fastforce simp: parsed_Some)

lemma parse_mono:
  "parseline n s = Some r \<Longrightarrow> parseline (Suc n) s = Some r"
  "parsepipe n s = Some r \<Longrightarrow> parsepipe (Suc n) s = Some r"
  "parseexec n s = Some r \<Longrightarrow> parseexec (Suc n) s = Some r"
proof (induction n s and n s and n s arbitrary: r and r and r rule: parseline_parsepipe_parseexec.induct)
  case (2 n s)
  have "parsed (parsepipe n s) (\<lambda>(c, s1). let (c, s2) = parse_back c s1; (s3, p) = peek [59] s2 in
      if p then parsed (parseline n (snd (gettoken s3))) (\<lambda>(d, s4). Some (Inr (Seq c d, s4))) else Some (Inr (c, s3))) = Some r"
    using 2(3) by simp
  then show ?case unfolding parseline.simps(2) [of "Suc n"]
  proof (rule parsed_mono, goal_cases)
    case (2 x y)
    obtain c s1 d s2 s3 p where x: "x = (c, s1)" "parse_back c s1 = (d, s2)" "peek [59] s2 = (s3, p)" by (metis prod.exhaust)
    then have "p \<Longrightarrow> parseline n (snd (gettoken s3)) = Some v \<Longrightarrow> parseline (Suc n) (snd (gettoken s3)) = Some v" for v
      using "2.IH"(2) [OF x(2) [symmetric] refl x(3) [symmetric] refl] by simp
    then show ?case using 2(2) x by (auto simp del: parseline.simps elim!: parsed_mono)
  qed (use 2 in simp)
next
  case (4 n s)
  have "parsed (parseexec n s) (\<lambda>(c, s1). let (s2, p) = peek [124] s1 in
      if p then parsed (parsepipe n (snd (gettoken s2))) (\<lambda>(d, s3). Some (Inr (Pipe c d, s3))) else Some (Inr (c, s2))) = Some r"
    using 4(3) by simp
  then show ?case unfolding parsepipe.simps(2) [of "Suc n"]
  proof (rule parsed_mono, goal_cases)
    case (2 x y)
    obtain c s1 s2 p where x: "x = (c, s1)" "peek [124] s1 = (s2, p)" by (metis prod.exhaust)
    then have "p \<Longrightarrow> parsepipe n (snd (gettoken s2)) = Some v \<Longrightarrow> parsepipe (Suc n) (snd (gettoken s2)) = Some v" for v
      using "4.IH"(2) [OF x(2) [symmetric] refl] by simp
    then show ?case using 2(2) x by (auto simp del: parsepipe.simps elim!: parsed_mono)
  qed (use 4 in simp)
next
  case (6 n s)
  obtain s1 p where p: "peek [40] s = (s1, p)" by fastforce
  show ?case
  proof (cases p)
    case True
    have p1: "peek [40] s1 = (s1, True)" using p True by (auto simp: peek_eq)
    have "parseblock (parseline (Suc n)) s1 = Some r"
      using 6(2) p True p1 6(1) [OF p [symmetric] refl True]
      by (auto simp: parseblock_def simp del: parseline.simps elim!: parsed_mono)
    then show ?thesis using p True by simp
  qed (use 6(2) p in simp)
qed simp_all

lemma parse_more:
  "n \<le> m \<Longrightarrow> parseline n s = Some r \<Longrightarrow> parseline m s = Some r"
  "n \<le> m \<Longrightarrow> parsepipe n s = Some r \<Longrightarrow> parsepipe m s = Some r"
  "n \<le> m \<Longrightarrow> parseexec n s = Some r \<Longrightarrow> parseexec m s = Some r"
  by (induction rule: dec_induct; use parse_mono in blast)+


subsection \<open>Three units for each byte are enough\<close>

lemma parsed_total:
  assumes "\<exists>x. m = Some x" "\<And>x. m = Some (Inr x) \<Longrightarrow> \<exists>y. f x = Some y"
  shows "\<exists>y. parsed m f = Some y"
  using assms by (auto simp: parsed_Some) (metis sum.exhaust)

lemma parse_total:
  "3 * length s + 3 \<le> n \<Longrightarrow> \<exists>r. parseline n s = Some r"
  "3 * length s + 2 \<le> n \<Longrightarrow> \<exists>r. parsepipe n s = Some r"
  "3 * length s + 1 \<le> n \<Longrightarrow> \<exists>r. parseexec n s = Some r"
proof (induction n s and n s and n s rule: parseline_parsepipe_parseexec.induct)
  case (2 n s)
  show ?case unfolding parseline.simps
  proof (rule parsed_total, goal_cases)
    case (2 x)
    obtain c s1 where x: "x = (c, s1)" by fastforce
    obtain d s2 where b: "parse_back c s1 = (d, s2)" by fastforce
    obtain s3 p where p: "peek [59] s2 = (s3, p)" by fastforce
    have l: "length s2 \<le> length s" using parse_shorter(2) [OF 2 [unfolded x]] parse_back_shorter [OF b] by simp
    have "p \<Longrightarrow> \<exists>r. parseline n (snd (gettoken s3)) = Some r"
      using "2.IH"(2) [OF b [symmetric] refl p [symmetric] refl] "2.prems" peek_gettoken2 [OF p _ l order_refl] by fastforce
    then show ?case using x b p by (auto intro: parsed_total)
  qed (use 2 in simp)
next
  case (4 n s)
  show ?case unfolding parsepipe.simps
  proof (rule parsed_total, goal_cases)
    case (2 x)
    obtain c s1 where x: "x = (c, s1)" by fastforce
    obtain s2 p where p: "peek [124] s1 = (s2, p)" by fastforce
    have l: "length s1 \<le> length s" using parse_shorter(3) [OF 2 [unfolded x]] .
    have "p \<Longrightarrow> \<exists>r. parsepipe n (snd (gettoken s2)) = Some r"
      using "4.IH"(2) [OF p [symmetric] refl] "4.prems" peek_gettoken2 [OF p _ l order_refl] by fastforce
    then show ?case using x p by (auto intro: parsed_total)
  qed (use 4 in simp)
next
  case (6 n s)
  obtain s1 p where p: "peek [40] s = (s1, p)" by fastforce
  show ?case
  proof (cases p)
    case True
    have p1: "peek [40] s1 = (s1, True)" using p True by (auto simp: peek_eq)
    have "\<exists>r. parseline n (snd (gettoken s1)) = Some r"
      using "6.IH" [OF p [symmetric] refl True] "6.prems" peek_gettoken2 [OF p True order_refl order_refl] by fastforce
    then have "\<exists>r. parseblock (parseline n) s1 = Some r"
      using p1 by (auto simp: parseblock_def split: prod.splits intro!: parsed_total)
    then show ?thesis using p True by simp
  qed (use p in simp)
qed simp_all

end
