(* ===== verification/Shell_Text.thy ===== *)
theory Shell_Text
  imports Shell_Parse
begin

text \<open>
  The text of a command, with no more parentheses than its grammar asks for, and the proof that the
  parser of sh.c reads every command back from its text.
\<close>

subsection \<open>The text of a command\<close>

definition word_ok :: "u8 list \<Rightarrow> bool" where
  "word_ok w \<longleftrightarrow> w \<noteq> [] \<and> (\<forall>c\<in>set w. c \<noteq> 0 \<and> c \<notin> set whitespace \<and> c \<notin> set symbols)"

definition redir_ok :: "redir \<Rightarrow> bool" where
  "redir_ok r \<longleftrightarrow> word_ok (r_file r) \<and> (r_mode r, r_fd r) \<in> {(O_RDONLY, 0), (O_NEW, 1)}"

fun cmd_ok :: "cmd \<Rightarrow> bool" where
  "cmd_ok (Exec ws) = (length ws < MAXARGS \<and> (\<forall>w\<in>set ws. word_ok w))"
| "cmd_ok (Redir c r) = (cmd_ok c \<and> redir_ok r)"
| "cmd_ok (Pipe a b) = (cmd_ok a \<and> cmd_ok b)"
| "cmd_ok (Seq a b) = (cmd_ok a \<and> cmd_ok b)"
| "cmd_ok (Back c) = cmd_ok c"

definition words_text :: "u8 list list \<Rightarrow> u8 list" where
  "words_text ws = concat (map (\<lambda>w. w @ [32]) ws)"

definition redir_text :: "redir \<Rightarrow> u8 list" where
  "redir_text r = (if r_mode r = O_RDONLY then 60 else 62) # r_file r @ [32]"

definition redirs_text :: "redir list \<Rightarrow> u8 list" where
  "redirs_text rs = concat (map redir_text rs)"

definition paren :: "bool \<Rightarrow> u8 list \<Rightarrow> u8 list" where
  "paren p s = (if p then [40] @ s @ [41] else s)"

text \<open>The levels: 0 a line, 1 a part of it before a semicolon, 2 a pipeline, 3 one of its commands.\<close>

fun cmd_text :: "nat \<Rightarrow> cmd \<Rightarrow> u8 list" where
  "cmd_text k (Exec ws) = words_text ws"
| "cmd_text k (Redir c r) = cmd_text 3 c @ redir_text r"
| "cmd_text k (Pipe a b) = paren (2 < k) (cmd_text 3 a @ [124] @ cmd_text 2 b)"
| "cmd_text k (Back c) = paren (1 < k) (cmd_text 1 c @ [38])"
| "cmd_text k (Seq a b) = paren (0 < k) (cmd_text 1 a @ [59] @ cmd_text 0 b)"


subsection \<open>Reading tokens\<close>

text \<open>A text that may follow a command: nothing, or one of the given symbols.\<close>

definition stops :: "u8 set \<Rightarrow> u8 list \<Rightarrow> bool" where
  "stops S s \<longleftrightarrow> s = [] \<or> hd s \<in> S"

lemma white_iff: "white c \<longleftrightarrow> c \<in> set whitespace" using strchr_None [of whitespace c] by auto

lemma skip_symbol: "c \<notin> set whitespace \<Longrightarrow> skip (c # s) = c # s"
  using white_iff [of c] by (simp add: skip_def)

lemma skip_blank: "skip (32 # s) = skip s"
  using white_iff [of 32] by (auto simp: skip_def whitespace_def)

lemma skip_stops: "stops S s \<Longrightarrow> S \<subseteq> set symbols \<Longrightarrow> skip s = s"
  by (cases s) (auto simp: stops_def symbols_def whitespace_def intro!: skip_symbol)

lemma gettoken_symbol:
  "c \<in> {124, 40, 41, 59, 38, 60} \<Longrightarrow> gettoken (c # s) = ((c, [c]), skip s)"
  "s \<noteq> [] \<Longrightarrow> hd s \<noteq> 62 \<Longrightarrow> gettoken (62 # s) = ((62, [62]), skip s)"
  by (auto simp: gettoken_def skip_symbol whitespace_def)

lemma takeWhile_word:
  "\<forall>c\<in>set w. P c \<Longrightarrow> \<not> P x \<Longrightarrow> takeWhile P (w @ x # s) = w"
  "\<forall>c\<in>set w. P c \<Longrightarrow> \<not> P x \<Longrightarrow> dropWhile P (w @ x # s) = x # s"
  by (induction w) auto

lemma word_start: "word_ok w \<Longrightarrow> \<exists>c v. w = c # v \<and> c \<noteq> 0 \<and> c \<notin> set whitespace \<and> c \<notin> set symbols"
  by (cases w) (auto simp: word_ok_def)

lemma gettoken_word:
  assumes "word_ok w"
  shows "gettoken (w @ 32 # s) = ((97, w), skip s)"
proof -
  obtain c v where c: "w = c # v" "c \<notin> set whitespace" "c \<notin> set symbols"
    using word_start [OF assms] by blast
  have o: "\<forall>c\<in>set w. ordinary c" "\<not> ordinary 32"
    using assms white_iff by (auto simp: word_ok_def strchr_None whitespace_def)
  have n: "c \<notin> {124, 40, 41, 59, 38, 60}" "c \<noteq> 62" using c(3) by (auto simp: symbols_def)
  have "skip (w @ 32 # s) = c # v @ 32 # s" using c by (simp add: skip_symbol)
  then have "gettoken (w @ 32 # s) = ((97, takeWhile ordinary (w @ 32 # s)), skip (dropWhile ordinary (w @ 32 # s)))"
    unfolding gettoken_def using n c(1) by (simp del: takeWhile.simps dropWhile.simps)
  then show ?thesis unfolding takeWhile_word [OF o] by (simp add: skip_blank)
qed

lemma peek_stops: "stops S s \<Longrightarrow> S \<subseteq> set symbols \<Longrightarrow> peek toks s = (s, s \<noteq> [] \<and> hd s \<in> set toks)"
  unfolding peek_eq using skip_stops [of S s] by (cases s) (auto simp: stops_def symbols_def)

lemma peek_word: "word_ok w \<Longrightarrow> set toks \<subseteq> set symbols \<Longrightarrow> peek toks (w @ s) = (w @ s, False)"
  using word_start [of w] by (auto simp: peek_eq skip_symbol)


subsection \<open>Redirections and arguments\<close>

lemma redirect_simps [simp]: "redirect [] c = c" "redirect (r # rs) c = redirect rs (Redir c r)"
  by (simp_all add: redirect_def)

lemma redirs_text_simps [simp]: "redirs_text [] = []" "redirs_text (r # rs) = redir_text r @ redirs_text rs"
  by (simp_all add: redirs_text_def)

lemma words_text_simps [simp]: "words_text [] = []" "words_text (w # ws) = w @ 32 # words_text ws"
  by (simp_all add: words_text_def)

lemma parseredirs_skip: "parseredirs (skip s) = parseredirs s"
  by (simp add: parseredirs.simps [of s] parseredirs.simps [of "skip s"] peek_eq)

lemma parseredirs_none: "snd (peek [60, 62] s) = False \<Longrightarrow> parseredirs s = Inr ([], skip s)"
  by (simp add: parseredirs.simps [of s] peek_eq)

lemma parseredirs_text:
  assumes "\<forall>r\<in>set rs. redir_ok r" "snd (peek [60, 62] s) = False"
  shows "parseredirs (redirs_text rs @ s) = Inr (rs, skip s)"
  using assms
proof (induction rs)
  case (Cons r rs)
  define a where "a = (if r_mode r = O_RDONLY then 60 else 62 :: u8)"
  let ?t = "redirs_text rs @ s"
  have r: "redir_ok r" "word_ok (r_file r)" using Cons.prems(1) by (auto simp: redir_ok_def)
  obtain c v where c: "r_file r = c # v" "c \<notin> set symbols" "c \<notin> set whitespace" using word_start [OF r(2)] by blast
  have t: "redirs_text (r # rs) @ s = a # r_file r @ 32 # ?t" by (simp add: a_def redir_text_def)
  have p: "peek [60, 62] (a # r_file r @ 32 # ?t) = (a # r_file r @ 32 # ?t, True)"
    by (auto simp: a_def peek_eq skip_symbol whitespace_def)
  have f: "skip (r_file r @ 32 # ?t) = r_file r @ 32 # ?t" using c by (simp add: skip_symbol)
  have g: "gettoken (a # r_file r @ 32 # ?t) = ((a, [a]), r_file r @ 32 # ?t)"
    using c f by (auto simp: a_def gettoken_symbol symbols_def)
  have e: "a = 60 \<Longrightarrow> R (r_file r) O_RDONLY 0 = r" "a \<noteq> 60 \<Longrightarrow> R (r_file r) O_NEW (Suc 0) = r"
    using r(1) by (cases r; auto simp: redir_ok_def a_def O_RDONLY_def O_NEW_def split: if_splits)+
  show ?case
    unfolding t parseredirs.simps [of "a # r_file r @ 32 # ?t"] p
    using Cons by (auto simp: e g gettoken_word [OF r(2)] parseredirs_skip)
qed (simp add: parseredirs_none)

abbreviation ends :: "u8 set" where "ends \<equiv> {124, 41, 38, 59}"

lemma ends_symbols: "ends \<subseteq> set symbols" by (simp add: symbols_def)

lemma ends_no_redir: "stops ends s \<Longrightarrow> snd (peek [60, 62] s) = False"
  using peek_stops [OF _ ends_symbols, of s "[60, 62]"] by (auto simp: stops_def)

lemma parse_args_skip: "parse_args n (skip s) = parse_args n s"
  by (simp add: parse_args.simps [of n s] parse_args.simps [of n "skip s"] peek_eq)

lemma parse_args_end: "stops ends s \<Longrightarrow> parse_args n s = Inr ([], [], s)"
  unfolding parse_args.simps [of n s] using peek_stops [OF _ ends_symbols, of s "[124, 41, 38, 59]"]
  by (cases s) (auto simp: stops_def gettoken_def)

lemma parse_args_text:
  assumes "\<forall>w\<in>set ws. word_ok w" "\<forall>r\<in>set rs. redir_ok r" "stops ends s" "ws \<noteq> []" "n + length ws < MAXARGS"
  shows "parse_args n (words_text ws @ redirs_text rs @ s) = Inr (ws, rs, s)"
  using assms(1,4,5)
proof (induction ws arbitrary: n)
  case (Cons w ws)
  note rest = skip_stops [OF assms(3) ends_symbols]
  let ?t = "words_text ws @ redirs_text rs @ s"
  have w: "word_ok w" using Cons.prems(1) by simp
  have t: "words_text (w # ws) @ redirs_text rs @ s = w @ 32 # ?t" by simp
  have a: "bind_res (parseredirs (skip ?t)) (\<lambda>p. case p of (rs, s2) \<Rightarrow>
      bind_res (parse_args (n + 1) s2) (\<lambda>(ws, rs', s3). Inr (w # ws, rs @ rs', s3))) = Inr (w # ws, rs, s)"
  proof (cases ws)
    case Nil
    then show ?thesis using parseredirs_text [OF assms(2) ends_no_redir [OF assms(3)]] parse_args_end [OF assms(3)]
      by (simp add: parseredirs_skip rest)
  next
    case (Cons v vs)
    have "word_ok v" using Cons.prems(1) Cons by simp
    then have "snd (peek [60, 62] ?t) = False" using peek_word [of v "[60, 62]"] Cons by (simp add: symbols_def)
    then have "parseredirs (skip ?t) = Inr ([], skip ?t)" by (simp add: parseredirs_skip parseredirs_none)
    moreover have "parse_args (n + 1) (skip ?t) = Inr (ws, rs, s)"
      using Cons.IH [of "n + 1"] Cons.prems Cons by (simp add: parse_args_skip)
    ultimately show ?thesis by simp
  qed
  show ?case unfolding t parse_args.simps [of n "w @ 32 # ?t"]
    using a Cons.prems(3) peek_word [OF w, of "[124, 41, 38, 59]" "32 # ?t"]
    by (simp add: gettoken_word [OF w] symbols_def)
qed simp


subsection \<open>One step of each procedure\<close>

lemma parse_skip [simp]:
  "parseexec n (skip s) = parseexec n s" "parsepipe n (skip s) = parsepipe n s" "parseline n (skip s) = parseline n s"
proof -
  show e: "parseexec n (skip s) = parseexec n s" for n by (cases n) (simp_all add: peek_eq)
  show p: "parsepipe n (skip s) = parsepipe n s" for n by (cases n) (simp_all add: e)
  show "parseline n (skip s) = parseline n s" by (cases n) (simp_all add: p)
qed

lemma peek_next: "stops S s \<Longrightarrow> S \<subseteq> set symbols \<Longrightarrow> c \<notin> S \<Longrightarrow> peek [c] s = (s, False)"
  using peek_stops [of S s "[c]"] by (auto simp: stops_def)

lemma peek_symbol: "c \<in> set symbols \<Longrightarrow> peek [c] (c # s) = (c # s, True)"
  using peek_stops [of "set symbols" "c # s" "[c]"] by (simp add: stops_def)

lemma parse_back_stop: "stops {41, 59} s \<Longrightarrow> parse_back c s = (c, s)"
  unfolding parse_back.simps [of c s] using peek_next [of "{41, 59}" s 38] by (simp add: symbols_def)

lemma parse_back_skip: "parse_back c (skip s) = parse_back c s"
  by (simp add: parse_back.simps [of c s] parse_back.simps [of c "skip s"] peek_eq)

lemma parse_back_amp: "parse_back c (38 # s) = parse_back (Back c) s"
  unfolding parse_back.simps [of c "38 # s"]
  using peek_symbol [of 38 s] by (simp add: symbols_def gettoken_symbol parse_back_skip)

lemma pipe_single:
  "parseexec n t = Some (Inr (c, s)) \<Longrightarrow> stops {41, 38, 59} s \<Longrightarrow> parsepipe (Suc n) t = Some (Inr (c, s))"
  using peek_next [of "{41, 38, 59}" s 124] by (simp add: symbols_def)

lemma pipe_more:
  assumes "parseexec n t = Some (Inr (a, 124 # u))" "parsepipe m u = Some (Inr (b, r))"
  shows "\<exists>k. parsepipe k t = Some (Inr (Pipe a b, r))"
proof -
  have "parseexec (max n m) t = Some (Inr (a, 124 # u))" "parsepipe (max n m) u = Some (Inr (b, r))"
    using parse_more assms by (metis max.cobounded1, metis max.cobounded2)
  then have "parsepipe (Suc (max n m)) t = Some (Inr (Pipe a b, r))"
    using peek_symbol [of 124 u] by (simp add: symbols_def gettoken_symbol)
  then show ?thesis by blast
qed

lemma line_single:
  "parsepipe n t = Some (Inr (d, r)) \<Longrightarrow> parse_back d r = (c, s) \<Longrightarrow> stops {41} s \<Longrightarrow> parseline (Suc n) t = Some (Inr (c, s))"
  using peek_next [of "{41}" s 59] by (simp add: symbols_def)

lemma line_more:
  assumes "parsepipe n t = Some (Inr (d, r))" "parse_back d r = (a, 59 # u)" "parseline m u = Some (Inr (b, s))"
  shows "\<exists>k. parseline k t = Some (Inr (Seq a b, s))"
proof -
  have "parsepipe (max n m) t = Some (Inr (d, r))" "parseline (max n m) u = Some (Inr (b, s))"
    using parse_more assms by (metis max.cobounded1, metis max.cobounded2)
  then have "parseline (Suc (max n m)) t = Some (Inr (Seq a b, s))"
    using peek_symbol [of 59 u] assms(2) by (simp add: symbols_def gettoken_symbol)
  then show ?thesis by blast
qed

lemma exec_paren:
  assumes "parseline n (t @ 41 # u) = Some (Inr (c, 41 # u))" "parseredirs u = Inr (rs, s)"
  shows "parseexec (Suc n) (40 # t @ 41 # u) = Some (Inr (redirect rs c, s))"
  using peek_symbol [of 40 "t @ 41 # u"] peek_symbol [of 41 u] assms
  by (simp add: parseblock_def symbols_def gettoken_symbol parseredirs_skip)

lemma exec_words:
  assumes "cmd_ok (Exec ws)" "\<forall>r\<in>set rs. redir_ok r" "stops ends s"
  shows "parseexec (Suc n) (words_text ws @ redirs_text rs @ s) = Some (Inr (redirect rs (Exec ws), s))"
proof (cases ws)
  case Nil
  have "peek [40] (redirs_text rs @ s) = (redirs_text rs @ s, False)"
    using peek_next [OF assms(3) ends_symbols, of 40]
    by (cases rs) (auto simp: redir_text_def peek_eq skip_symbol whitespace_def)
  then show ?thesis
    using Nil parseredirs_text [OF assms(2) ends_no_redir [OF assms(3)]] skip_stops [OF assms(3) ends_symbols]
      parse_args_end [OF assms(3)] by simp
next
  case (Cons w v)
  let ?t = "words_text ws @ redirs_text rs @ s"
  have w: "word_ok w" using assms(1) Cons by simp
  have p: "peek [40] ?t = (?t, False)" "peek [60, 62] ?t = (?t, False)"
    using peek_word [OF w, of "[40]"] peek_word [OF w, of "[60, 62]"] Cons by (simp_all add: symbols_def)
  have "parse_args 0 ?t = Inr (ws, rs, s)"
    using assms Cons by (intro parse_args_text) auto
  then show ?thesis using p parseredirs_none [of ?t] parse_args_skip [of 0 ?t] by simp
qed


subsection \<open>Reading a command back\<close>

declare parseline.simps [simp del] parsepipe.simps [simp del] parseexec.simps [simp del]

definition reads_exec :: "cmd \<Rightarrow> bool" where
  "reads_exec c \<longleftrightarrow> (\<forall>rs s. (\<forall>r\<in>set rs. redir_ok r) \<longrightarrow> stops ends s \<longrightarrow>
     (\<exists>n. parseexec n (cmd_text 3 c @ redirs_text rs @ s) = Some (Inr (redirect rs c, s))))"

definition reads_pipe :: "cmd \<Rightarrow> bool" where
  "reads_pipe c \<longleftrightarrow> (\<forall>s. stops {41, 38, 59} s \<longrightarrow> (\<exists>n. parsepipe n (cmd_text 2 c @ s) = Some (Inr (c, s))))"

definition reads_back :: "cmd \<Rightarrow> bool" where
  "reads_back c \<longleftrightarrow> (\<forall>s. stops {41, 38, 59} s \<longrightarrow>
     (\<exists>n d r. parsepipe n (cmd_text 1 c @ s) = Some (Inr (d, r)) \<and> parse_back d r = parse_back c s))"

definition reads_line :: "cmd \<Rightarrow> bool" where
  "reads_line c \<longleftrightarrow> (\<forall>s. stops {41} s \<longrightarrow> (\<exists>n. parseline n (cmd_text 0 c @ s) = Some (Inr (c, s))))"

lemma stops_mono: "stops S s \<Longrightarrow> S \<subseteq> T \<Longrightarrow> stops T s" by (auto simp: stops_def)

lemma stops_Cons [simp]: "stops S (c # s) \<longleftrightarrow> c \<in> S" by (simp add: stops_def)

lemma reads_pipe_single: "reads_exec c \<Longrightarrow> cmd_text 2 c = cmd_text 3 c \<Longrightarrow> reads_pipe c"
  unfolding reads_pipe_def
proof (intro allI impI)
  fix s assume r: "reads_exec c" and t: "cmd_text 2 c = cmd_text 3 c" and s: "stops {41, 38, 59} s"
  have "stops ends s" using s by (rule stops_mono) auto
  then obtain n where "parseexec n (cmd_text 3 c @ redirs_text [] @ s) = Some (Inr (redirect [] c, s))"
    using r unfolding reads_exec_def by (metis empty_iff list.set(1))
  then show "\<exists>n. parsepipe n (cmd_text 2 c @ s) = Some (Inr (c, s))"
    using pipe_single [OF _ s, of n "cmd_text 2 c @ s" c] t by auto
qed

lemma reads_back_single: "reads_pipe c \<Longrightarrow> cmd_text 1 c = cmd_text 2 c \<Longrightarrow> reads_back c"
  unfolding reads_pipe_def reads_back_def by metis

lemma reads_line_single: "reads_back c \<Longrightarrow> cmd_text 0 c = cmd_text 1 c \<Longrightarrow> reads_line c"
  unfolding reads_line_def
proof (intro allI impI)
  fix s assume r: "reads_back c" and t: "cmd_text 0 c = cmd_text 1 c" and s: "stops {41} s"
  have l: "stops {41, 38, 59} s" "stops {41, 59} s" by (rule stops_mono [OF s], simp)+
  then obtain n d u where "parsepipe n (cmd_text 1 c @ s) = Some (Inr (d, u))" "parse_back d u = (c, s)"
    using r parse_back_stop [OF l(2), of c] unfolding reads_back_def by metis
  then show "\<exists>n. parseline n (cmd_text 0 c @ s) = Some (Inr (c, s))"
    using line_single [OF _ _ s] t by metis
qed

lemma reads_exec_paren:
  assumes "reads_line c" "cmd_text 3 c = 40 # cmd_text 0 c @ [41]"
  shows "reads_exec c"
  unfolding reads_exec_def
proof (intro allI impI)
  fix rs s assume rs: "\<forall>r\<in>set rs. redir_ok r" and s: "stops ends s"
  let ?u = "redirs_text rs @ s"
  obtain n where "parseline n (cmd_text 0 c @ 41 # ?u) = Some (Inr (c, 41 # ?u))"
    using assms(1) unfolding reads_line_def by (metis insertI1 stops_Cons)
  moreover have "parseredirs ?u = Inr (rs, s)"
    using parseredirs_text [OF rs ends_no_redir [OF s]] skip_stops [OF s ends_symbols] by simp
  ultimately have "parseexec (Suc n) (40 # cmd_text 0 c @ 41 # ?u) = Some (Inr (redirect rs c, s))"
    by (rule exec_paren)
  then show "\<exists>n. parseexec n (cmd_text 3 c @ ?u) = Some (Inr (redirect rs c, s))"
    using assms(2) by auto
qed

lemma reads_pipe_Pipe: "reads_exec a \<Longrightarrow> reads_pipe b \<Longrightarrow> reads_pipe (Pipe a b)"
  unfolding reads_pipe_def
proof (intro allI impI)
  fix s assume a: "reads_exec a" and b: "\<forall>s. stops {41, 38, 59} s \<longrightarrow> (\<exists>n. parsepipe n (cmd_text 2 b @ s) = Some (Inr (b, s)))"
    and s: "stops {41, 38, 59} s"
  obtain n where "parseexec n (cmd_text 3 a @ redirs_text [] @ 124 # cmd_text 2 b @ s) = Some (Inr (redirect [] a, 124 # cmd_text 2 b @ s))"
    using a unfolding reads_exec_def by (metis empty_iff insertI1 list.set(1) stops_Cons)
  moreover obtain m where "parsepipe m (cmd_text 2 b @ s) = Some (Inr (b, s))" using b s by blast
  ultimately show "\<exists>n. parsepipe n (cmd_text 2 (Pipe a b) @ s) = Some (Inr (Pipe a b, s))"
    using pipe_more by (simp add: paren_def)
qed

lemma reads_back_Back: "reads_back c \<Longrightarrow> reads_back (Back c)"
  unfolding reads_back_def
proof (intro allI impI)
  fix s assume c: "\<forall>s. stops {41, 38, 59} s \<longrightarrow>
     (\<exists>n d r. parsepipe n (cmd_text 1 c @ s) = Some (Inr (d, r)) \<and> parse_back d r = parse_back c s)"
  have "stops {41, 38, 59} (38 # s)" by simp
  then obtain n d r where "parsepipe n (cmd_text 1 c @ 38 # s) = Some (Inr (d, r))" "parse_back d r = parse_back c (38 # s)"
    using c by blast
  then show "\<exists>n d r. parsepipe n (cmd_text 1 (Back c) @ s) = Some (Inr (d, r)) \<and> parse_back d r = parse_back (Back c) s"
    by (auto simp: paren_def parse_back_amp)
qed

lemma reads_line_Seq: "reads_back a \<Longrightarrow> reads_line b \<Longrightarrow> reads_line (Seq a b)"
  unfolding reads_line_def
proof (intro allI impI)
  fix s assume a: "reads_back a" and b: "\<forall>s. stops {41} s \<longrightarrow> (\<exists>n. parseline n (cmd_text 0 b @ s) = Some (Inr (b, s)))"
    and s: "stops {41} s"
  let ?u = "59 # cmd_text 0 b @ s"
  have "stops {41, 38, 59} ?u" "stops {41, 59} ?u" by simp_all
  then obtain n d r where "parsepipe n (cmd_text 1 a @ ?u) = Some (Inr (d, r))" "parse_back d r = (a, ?u)"
    using a parse_back_stop [of ?u a] unfolding reads_back_def by metis
  moreover obtain m where "parseline m (cmd_text 0 b @ s) = Some (Inr (b, s))" using b s by blast
  ultimately show "\<exists>n. parseline n (cmd_text 0 (Seq a b) @ s) = Some (Inr (Seq a b, s))"
    using line_more by (simp add: paren_def)
qed

lemma reads_exec_Redir: "reads_exec c \<Longrightarrow> redir_ok r \<Longrightarrow> reads_exec (Redir c r)"
  unfolding reads_exec_def
proof (intro allI impI)
  fix rs s
  assume c: "\<forall>rs s. (\<forall>r\<in>set rs. redir_ok r) \<longrightarrow> stops ends s \<longrightarrow>
     (\<exists>n. parseexec n (cmd_text 3 c @ redirs_text rs @ s) = Some (Inr (redirect rs c, s)))"
    and "redir_ok r" "\<forall>r\<in>set rs. redir_ok r" "stops ends s"
  then show "\<exists>n. parseexec n (cmd_text 3 (Redir c r) @ redirs_text rs @ s) = Some (Inr (redirect rs (Redir c r), s))"
    using c [THEN spec, of "r # rs", THEN spec, of s] by simp
qed

lemma reads_all: "cmd_ok c \<Longrightarrow> reads_exec c \<and> reads_pipe c \<and> reads_back c \<and> reads_line c"
proof (induction c)
  case (Exec ws)
  then have "reads_exec (Exec ws)" unfolding reads_exec_def cmd_text.simps using exec_words by blast
  then show ?case using reads_pipe_single reads_back_single reads_line_single by simp
next
  case (Redir c r)
  then have "reads_exec (Redir c r)" using reads_exec_Redir by simp
  then show ?case using reads_pipe_single reads_back_single reads_line_single by simp
next
  case (Pipe a b)
  then have "reads_pipe (Pipe a b)" using reads_pipe_Pipe by simp
  then have "reads_back (Pipe a b)" "reads_line (Pipe a b)"
    using reads_back_single reads_line_single by (simp_all add: paren_def)
  then show ?case using \<open>reads_pipe (Pipe a b)\<close> reads_exec_paren by (simp add: paren_def)
next
  case (Back c)
  then have "reads_back (Back c)" using reads_back_Back by simp
  then have "reads_line (Back c)" using reads_line_single by (simp add: paren_def)
  then have "reads_exec (Back c)" using reads_exec_paren by (simp add: paren_def)
  then show ?case using \<open>reads_back (Back c)\<close> \<open>reads_line (Back c)\<close> reads_pipe_single by (simp add: paren_def)
next
  case (Seq a b)
  then have l: "reads_line (Seq a b)" using reads_line_Seq by simp
  then have e: "reads_exec (Seq a b)" using reads_exec_paren by (simp add: paren_def)
  then have "reads_pipe (Seq a b)" using reads_pipe_single by (simp add: paren_def)
  then show ?case using l e reads_back_single by (simp add: paren_def)
qed

lemma parsecmd_text: "cmd_ok c \<Longrightarrow> parsecmd (cmd_text 0 c) = Some (Inr c)"
proof -
  assume "cmd_ok c"
  then obtain n where n: "parseline n (cmd_text 0 c) = Some (Inr (c, []))"
    using reads_all [of c] unfolding reads_line_def by (metis append_Nil2 stops_def)
  let ?f = "3 * length (cmd_text 0 c) + 3"
  obtain r where r: "parseline ?f (cmd_text 0 c) = Some r" using parse_total(1) [OF order_refl] by blast
  have "Some r = Some (Inr (c, []))"
    using parse_more(1) [OF max.cobounded1 n, of ?f] parse_more(1) [OF max.cobounded2 r, of n] by simp
  then show "parsecmd (cmd_text 0 c) = Some (Inr c)" using r by (simp add: parsecmd_def peek_eq)
qed

end
