(* ===== verification/Shell_Run.thy ===== *)
theory Shell_Run
  imports Shell
begin

text \<open>
  sh.c: what a command does. \<open>runcmd\<close> is the tree of the system calls it makes, with the branch for
  each answer the code looks at; \<open>execs\<close> runs such a tree over a table of descriptors and lists the
  programs that start, each with the descriptors it gets. \<open>plumb\<close> says which those should be.
\<close>

subsection \<open>The system calls of a command\<close>

text \<open>
  The calls carry the rest of the process. \<open>Execv\<close> goes on only when it fails; \<open>Open\<close>, \<open>Mkpipe\<close> and
  \<open>Fork\<close> have the branch of the failure first, then those of success (\<open>Fork\<close>: child, parent).
\<close>

datatype act =
    Leave
  | Execv "u8 list list" act
  | Close nat act
  | Dup nat act
  | Open "u8 list" u32 act act
  | Mkpipe act "nat \<Rightarrow> nat \<Rightarrow> act"
  | Fork act act act
  | Wait act
  | Print string "u8 list" act

definition panic :: "string \<Rightarrow> act" where
  "panic s = Print s [] Leave"

definition fork1 :: "act \<Rightarrow> act \<Rightarrow> act" where
  "fork1 child parent = Fork (panic ''fork'') child parent"

primrec runcmd :: "cmd \<Rightarrow> act" where
  "runcmd (Exec argv) =
     (if argv = [] then Leave else Execv argv (Print ''exec %s failed'' (hd argv) Leave))"
| "runcmd (Redir c r) =
     Close (r_fd r) (Open (r_file r) (r_mode r) (Print ''open %s failed'' (r_file r) Leave) (runcmd c))"
| "runcmd (Seq a b) = fork1 (runcmd a) (Wait (runcmd b))"
| "runcmd (Pipe a b) =
     Mkpipe (panic ''pipe'') (\<lambda>p0 p1.
       fork1 (Close 1 (Dup p1 (Close p0 (Close p1 (runcmd a)))))
         (fork1 (Close 0 (Dup p0 (Close p0 (Close p1 (runcmd b)))))
           (Close p0 (Close p1 (Wait (Wait Leave))))))"
| "runcmd (Back c) = fork1 (runcmd c) Leave"


subsection \<open>The loop of main\<close>

datatype line = Chdir "u8 list" | Child "cmd res option"

text \<open>The string in the buffer of 100 bytes.\<close>

definition buf_str :: "mem \<Rightarrow> u8 list" where
  "buf_str buf = takeWhile (\<lambda>c. c \<noteq> 0) (map buf [0..<100])"

definition getcmd :: "mem \<Rightarrow> u8 list \<Rightarrow> u8 list \<times> mem" where
  "getcmd buf input = gets (memset_u 0 0 100 buf) 100 input"

text \<open>One line: \<open>cd\<close> is done by the shell itself, and loses the last byte of the line.\<close>

definition do_line :: "u8 list \<Rightarrow> line" where
  "do_line s = (if take 3 s = [99, 100, 32] then Chdir (drop 3 (butlast s)) else Child (parsecmd s))"

lemma gets_loop_shorter: "gets_loop n i input buf = (j, r, b) \<Longrightarrow> length r \<le> length input"
  by (induction n i input buf rule: gets_loop.induct) (auto split: list.splits if_splits)

lemma gets_loop_first: "gets_loop (Suc n) i (c # cs) buf = (j, r, b) \<Longrightarrow> length r \<le> length cs"
  by (auto dest: gets_loop_shorter split: if_splits)

lemma getcmd_gets:
  "getcmd buf input = (case gets_loop (Suc 98) 0 input (memset_u 0 0 100 buf) of (i, r, b) \<Rightarrow> (r, b(i := 0)))"
  by (simp add: getcmd_def gets_def Let_def)

lemma getcmd_shorter:
  assumes "input \<noteq> []" "getcmd buf input = (r, b)"
  shows "length r < length input"
proof -
  obtain c cs where i: "input = c # cs" using assms(1) by (cases input) auto
  obtain j r' b' where g: "gets_loop (Suc 98) 0 (c # cs) (memset_u 0 0 100 buf) = (j, r', b')" by (metis prod_cases3)
  have "r = r'" using assms(2) g unfolding getcmd_gets i by simp
  then show ?thesis using gets_loop_first [OF g] i by simp
qed

lemma getcmd_eof: "getcmd buf [] = (r, b) \<Longrightarrow> b 0 = 0"
proof -
  have "gets_loop 99 0 [] m = (0, [], m)" for m by (simp add: numeral_eq_Suc)
  then show "getcmd buf [] = (r, b) \<Longrightarrow> b 0 = 0" by (auto simp: getcmd_def gets_def)
qed

function main_loop :: "mem \<Rightarrow> u8 list \<Rightarrow> line list" where
  "main_loop buf input =
     (let (input', buf') = getcmd buf input in
      if buf' 0 = 0 then [] else do_line (buf_str buf') # main_loop buf' input')"
  by pat_completeness auto
termination
proof (relation "measure (\<lambda>(b, i). length i)", goal_cases)
  case (2 buf input x input' buf')
  then show ?case using getcmd_shorter [of input buf input' buf'] getcmd_eof [of buf input' buf']
    by (cases "input = []") auto
qed simp

declare main_loop.simps [simp del]


subsection \<open>Running a tree of calls\<close>

text \<open>What a descriptor names: what the shell was started with, an opened file, an end of a pipe.\<close>

datatype end_of = Given nat | Opened "u8 list" u32 | Reads "nat list" | Writes "nat list"

type_synonym fdtab = "nat \<Rightarrow> end_of option"

text \<open>Which forks, opens and execs succeed; processes are named by the forks that led to them.\<close>

record luck =
  forks :: "nat list \<Rightarrow> bool"
  opens :: "u8 list \<Rightarrow> u32 \<Rightarrow> bool"
  runs :: "u8 list list \<Rightarrow> bool"

definition lowest :: "fdtab \<Rightarrow> nat option" where
  "lowest t = find (\<lambda>n. t n = None) [0..<16]"

text \<open>The loop that opens \<open>console\<close> until three descriptors are in use.\<close>

fun open_console :: "nat \<Rightarrow> fdtab \<Rightarrow> fdtab option" where
  "open_console 0 t = None"
| "open_console (Suc n) t =
     (case lowest t of None \<Rightarrow> Some t
      | Some fd \<Rightarrow> if fd \<ge> 3 then Some t else open_console n (t(fd \<mapsto> Given fd)))"

primrec execs :: "luck \<Rightarrow> nat list \<Rightarrow> fdtab \<Rightarrow> act \<Rightarrow> (u8 list list \<times> fdtab) list" where
  "execs w p t Leave = []"
| "execs w p t (Execv argv k) = (if runs w argv then [(argv, t)] else execs w p t k)"
| "execs w p t (Close fd k) = execs w p (t(fd := None)) k"
| "execs w p t (Dup fd k) =
     execs w p (case (t fd, lowest t) of (Some x, Some n) \<Rightarrow> t(n \<mapsto> x) | _ \<Rightarrow> t) k"
| "execs w p t (Open f m bad k) =
     (case lowest t of Some n \<Rightarrow> if opens w f m then execs w p (t(n \<mapsto> Opened f m)) k else execs w p t bad
      | None \<Rightarrow> execs w p t bad)"
| "execs w p t (Mkpipe bad k) =
     (case lowest t of None \<Rightarrow> execs w p t bad
      | Some i \<Rightarrow> (case lowest (t(i \<mapsto> Reads p)) of None \<Rightarrow> execs w p t bad
         | Some j \<Rightarrow> execs w p (t(i \<mapsto> Reads p, j \<mapsto> Writes p)) (k i j)))"
| "execs w p t (Fork bad child parent) =
     (if forks w p then execs w (0 # p) t child @ execs w (1 # p) t parent else execs w p t bad)"
| "execs w p t (Wait k) = execs w p t k"
| "execs w p t (Print f s k) = execs w p t k"


subsection \<open>The descriptors of the programs\<close>

text \<open>
  The descriptors a command hands to its programs: \<open>plumb\<close> reads them off the tree of the command,
  with no table of descriptors, and the system calls of \<open>runcmd\<close> arrange exactly those.
\<close>

fun plumb :: "luck \<Rightarrow> nat list \<Rightarrow> fdtab \<Rightarrow> cmd \<Rightarrow> (u8 list list \<times> fdtab) list" where
  "plumb w p t (Exec argv) = (if argv \<noteq> [] \<and> runs w argv then [(argv, t)] else [])"
| "plumb w p t (Redir c r) =
     (if opens w (r_file r) (r_mode r) then plumb w p (t(r_fd r \<mapsto> Opened (r_file r) (r_mode r))) c else [])"
| "plumb w p t (Seq a b) = (if forks w p then plumb w (0 # p) t a @ plumb w (1 # p) t b else [])"
| "plumb w p t (Pipe a b) =
     (if forks w p then plumb w (0 # p) (t(1 \<mapsto> Writes p)) a @
        (if forks w (1 # p) then plumb w (0 # 1 # p) (t(0 \<mapsto> Reads p)) b else []) else [])"
| "plumb w p t (Back c) = (if forks w p then plumb w (0 # p) t c else [])"

text \<open>The redirections of a parsed command are of the input or of the output.\<close>

fun io_only :: "cmd \<Rightarrow> bool" where
  "io_only (Exec argv) = True"
| "io_only (Redir c r) = (r_fd r < 2 \<and> io_only c)"
| "io_only (Seq a b) = (io_only a \<and> io_only b)"
| "io_only (Pipe a b) = (io_only a \<and> io_only b)"
| "io_only (Back c) = io_only c"

text \<open>Exactly the three standard descriptors are open.\<close>

definition std_open :: "fdtab \<Rightarrow> bool" where
  "std_open t \<longleftrightarrow> (\<forall>n. t n = None \<longleftrightarrow> 3 \<le> n)"

lemma upt_16: "[0..<16::nat] = [0, 1, 2, 3, 4, 5, 6, 7, 8, 9, 10, 11, 12, 13, 14, 15]"
  by (simp add: upt_rec)

lemma std_open_update [simp]: "std_open t \<Longrightarrow> n < 3 \<Longrightarrow> std_open (t(n \<mapsto> x))"
  by (auto simp: std_open_def)

lemma std_open_some: "std_open t \<Longrightarrow> n < 3 \<Longrightarrow> \<exists>x. t n = Some x"
  unfolding std_open_def by (metis linorder_not_le option.exhaust)

lemma std_open_none: "std_open t \<Longrightarrow> 3 \<le> n \<Longrightarrow> t n = None"
  unfolding std_open_def by blast

lemma std_open_get:
  assumes "std_open t"
  obtains a b c where "t 0 = Some a" "t (Suc 0) = Some b" "t 2 = Some c" "t 3 = None" "t 4 = None"
  using std_open_some [OF assms, of 0] std_open_some [OF assms, of 1] std_open_some [OF assms, of 2]
    std_open_none [OF assms, of 3] std_open_none [OF assms, of 4] that by auto

lemma lowest_closed: "std_open t \<Longrightarrow> n < 3 \<Longrightarrow> lowest (t(n := None)) = Some n"
proof -
  assume t: "std_open t" and n: "n < 3"
  from n have "n = 0 \<or> n = 1 \<or> n = 2" by auto
  with t show ?thesis by (elim std_open_get disjE) (simp_all add: lowest_def upt_16)
qed

lemma lowest_std: "std_open t \<Longrightarrow> lowest t = Some 3" "std_open t \<Longrightarrow> lowest (t(3 \<mapsto> x)) = Some 4"
  by (elim std_open_get; simp add: lowest_def upt_16)+

text \<open>The shell starts its loop with the three descriptors open.\<close>

lemma std_open_iff: "\<forall>n\<ge>3. t n = None \<Longrightarrow> std_open t \<longleftrightarrow> t 0 \<noteq> None \<and> t (Suc 0) \<noteq> None \<and> t 2 \<noteq> None"
proof -
  assume t: "\<forall>n\<ge>3. t n = None"
  have "n = 0 \<or> n = Suc 0 \<or> n = 2 \<or> 3 \<le> n" for n :: nat by auto
  then show ?thesis using t unfolding std_open_def by (metis Suc_1 Suc_n_not_le_n le_Suc_eq numeral_3_eq_3 zero_le not_less_eq_eq)
qed

lemma open_console_std:
  assumes "\<forall>n\<ge>3. t n = None"
  shows "\<exists>t'. open_console (Suc (Suc (Suc (Suc 0)))) t = Some t' \<and> std_open t'"
  by (cases "t 0"; cases "t (Suc 0)"; cases "t 2"; use assms in \<open>simp add: lowest_def upt_16 std_open_iff\<close>)

text \<open>What the two sides of a pipe do before they run: one end replaces a standard descriptor.\<close>

lemma take_end:
  fixes t :: fdtab and x y :: end_of
  assumes "std_open t" "n < 3"
  defines "t' \<equiv> t(3 \<mapsto> x, 4 \<mapsto> y)"
  shows "execs w p t' (Close n (Dup 3 (Close 3 (Close 4 k)))) = execs w p (t(n \<mapsto> x)) k"
    "execs w p t' (Close n (Dup 4 (Close 3 (Close 4 k)))) = execs w p (t(n \<mapsto> y)) k"
proof -
  from assms(2) have n: "n = 0 \<or> n = 1 \<or> n = 2" by auto
  have l: "lowest (t'(n := None)) = Some n"
    using n assms(1) unfolding t'_def by (elim std_open_get disjE) (simp_all add: lowest_def upt_16)
  have e: "t'(n := None, n \<mapsto> z, 3 := None, 4 := None) = t(n \<mapsto> z)" for z
    using std_open_none [OF assms(1), of 3] std_open_none [OF assms(1), of 4] assms(2)
    by (auto simp: t'_def fun_eq_iff)
  show "execs w p t' (Close n (Dup 3 (Close 3 (Close 4 k)))) = execs w p (t(n \<mapsto> x)) k"
    "execs w p t' (Close n (Dup 4 (Close 3 (Close 4 k)))) = execs w p (t(n \<mapsto> y)) k"
    using l e [of x] e [of y] assms(2) by (auto simp: t'_def)
qed

lemma execs_runcmd:
  assumes "std_open t" "io_only c"
  shows "execs w p t (runcmd c) = plumb w p t c"
  using assms
proof (induction c arbitrary: p t)
  case (Redir c r)
  then have n: "r_fd r < 3" by simp
  have "execs w p (t(r_fd r \<mapsto> x)) (runcmd c) = plumb w p (t(r_fd r \<mapsto> x)) c" for x
    using Redir.prems n by (intro Redir.IH std_open_update) simp_all
  then show ?case using lowest_closed [OF Redir.prems(1) n] by simp
next
  case (Pipe a b)
  have n: "Suc 0 < 3" "(0::nat) < 3" by simp_all
  let ?t = "t(3 \<mapsto> Reads p, 4 \<mapsto> Writes p)"
  have l: "execs w q ?t (Close (Suc 0) (Dup 4 (Close 3 (Close 4 (runcmd a))))) = plumb w q (t(Suc 0 \<mapsto> Writes p)) a" for q
    unfolding take_end(2) [OF Pipe.prems(1) n(1)]
    using Pipe.prems by (intro Pipe.IH std_open_update) simp_all
  have r: "execs w q ?t (Close 0 (Dup 3 (Close 3 (Close 4 (runcmd b))))) = plumb w q (t(0 \<mapsto> Reads p)) b" for q
    unfolding take_end(1) [OF Pipe.prems(1) n(2)]
    using Pipe.prems by (intro Pipe.IH std_open_update) simp_all
  have m: "execs w q ?t (Close 3 (Close 4 (Wait (Wait Leave)))) = []" for q by simp
  show ?case
    using lowest_std [OF Pipe.prems(1)]
    by (simp add: fork1_def panic_def l r m del: execs.simps(3,4))
qed (auto simp: fork1_def panic_def)

lemma io_only_redirect: "io_only (redirect rs c) \<longleftrightarrow> io_only c \<and> (\<forall>r\<in>set rs. r_fd r < 2)"
  by (induction rs arbitrary: c) (auto simp: redirect_def)

end
