(* ===== verification/Shell_Ok.thy ===== *)
theory Shell_Ok
  imports Shell_Text Shell_Run
begin

text \<open>
  Every command the parser of sh.c returns is well formed (\<open>cmd_ok\<close>), and the loop of \<open>main\<close> does
  one thing for each line.
\<close>

subsection \<open>What is parsed is well formed\<close>

abbreviation nz :: "u8 list \<Rightarrow> bool" where "nz s \<equiv> 0 \<notin> set s"

lemma nz_skip: "nz s \<Longrightarrow> nz (skip s)"
  by (auto simp: skip_def dest: set_dropWhileD)

lemma nz_peek: "peek toks s = (r, p) \<Longrightarrow> nz s \<Longrightarrow> nz r"
  by (auto simp: peek_eq dest: nz_skip)

lemma nz_gettoken:
  assumes "gettoken s = (q, r)" "nz s"
  shows "nz r \<and> (fst q = 97 \<longrightarrow> word_ok (snd q))"
proof (cases "skip s")
  case (Cons c t)
  have n: "nz (c # t)" using nz_skip [OF assms(2)] Cons by simp
  then have nt: "nz t" "nz (tl t)" by (cases t; simp)+
  show ?thesis
  proof (cases "c \<in> {124, 40, 41, 59, 38, 60} \<or> c = 62")
    case True
    then show ?thesis
      using assms(1) Cons nz_skip [OF nt(1)] nz_skip [OF nt(2)] by (auto simp: gettoken_def split: if_splits)
  next
    case False
    have w: "\<not> white c" using Cons hd_dropWhile [of white s] by (auto simp: skip_def)
    then have o: "ordinary c" using False by (auto simp: strchr_None symbols_def)
    have g: "q = (97, takeWhile ordinary (c # t))" "r = skip (dropWhile ordinary (c # t))"
      using assms(1) False Cons unfolding gettoken_def by (simp_all del: takeWhile.simps dropWhile.simps)
    have "word_ok (takeWhile ordinary (c # t))"
      unfolding word_ok_def using o n white_iff by (auto simp: strchr_None dest: set_takeWhileD)
    moreover have "nz (dropWhile ordinary (c # t))" using n set_dropWhileD [of 0 ordinary "c # t"] by blast
    then have "nz r" unfolding g(2) by (rule nz_skip)
    ultimately show ?thesis using g(1) by simp
  qed
qed (use assms in \<open>auto simp: gettoken_def\<close>)

lemma nz_next: "nz s \<Longrightarrow> nz (snd (gettoken s))"
  using nz_gettoken [of s "fst (gettoken s)" "snd (gettoken s)"] by simp

lemma nz_next_peek: "peek toks s = (r, p) \<Longrightarrow> nz s \<Longrightarrow> nz (snd (gettoken r))"
  using nz_next [OF nz_peek] by blast

lemma parseredirs_ok: "parseredirs s = Inr (rs, r) \<Longrightarrow> nz s \<Longrightarrow> nz r \<and> (\<forall>x\<in>set rs. redir_ok x)"
proof (induction s arbitrary: rs r rule: parseredirs.induct)
  case (1 s)
  obtain s' p where p: "peek [60, 62] s = (s', p)" by fastforce
  obtain t s1 where t: "gettoken s' = (t, s1)" by fastforce
  obtain q s2 where q: "gettoken s1 = (q, s2)" by fastforce
  have n: "nz s'" using nz_peek [OF p] "1.prems" by simp
  have n2: "nz s2 \<and> (fst q = 97 \<longrightarrow> word_ok (snd q))" using nz_gettoken [OF q] nz_gettoken [OF t n] by blast
  show ?case
  proof (cases "p \<and> fst q = 97")
    case True
    then obtain rs' where "parseredirs s2 = Inr (rs', r)"
      "rs = (if fst t = 60 then R (snd q) O_RDONLY 0 else R (snd q) O_NEW 1) # rs'"
      using "1.prems" p t q by (auto simp: parseredirs.simps [of s] bind_res_Inr_iff)
    moreover from this have "nz r \<and> (\<forall>x\<in>set rs'. redir_ok x)"
      using "1.IH" [OF p [symmetric] refl _ t [symmetric] refl q [symmetric] refl] True n2 by simp
    ultimately show ?thesis using n2 True by (simp add: redir_ok_def)
  qed (use "1.prems" p t q n in \<open>auto simp: parseredirs.simps [of s] split: if_splits\<close>)
qed

lemma parse_args_ok:
  "parse_args n s = Inr (ws, rs, r) \<Longrightarrow> nz s \<Longrightarrow> n < MAXARGS \<Longrightarrow>
     nz r \<and> n + length ws < MAXARGS \<and> (\<forall>w\<in>set ws. word_ok w) \<and> (\<forall>x\<in>set rs. redir_ok x)"
proof (induction n s arbitrary: ws rs r rule: parse_args.induct)
  case (1 n s)
  obtain s' p where p: "peek [124, 41, 38, 59] s = (s', p)" by fastforce
  obtain q s1 where q: "gettoken s' = (q, s1)" by fastforce
  have n: "nz s'" using nz_peek [OF p] "1.prems" by simp
  note n1 = nz_gettoken [OF q n]
  show ?case
  proof (cases "p \<or> fst q = 0 \<or> fst q \<noteq> 97 \<or> n + 1 \<ge> MAXARGS")
    case False
    then obtain rs1 s2 ws' rs2 where a: "parseredirs s1 = Inr (rs1, s2)" "parse_args (n + 1) s2 = Inr (ws', rs2, r)"
      "ws = snd q # ws'" "rs = rs1 @ rs2"
      using "1.prems" p q by (auto simp: parse_args.simps [of n s] bind_res_Inr_iff)
    have r1: "nz s2 \<and> (\<forall>x\<in>set rs1. redir_ok x)" using parseredirs_ok [OF a(1)] n1 by blast
    have "nz r \<and> n + 1 + length ws' < MAXARGS \<and> (\<forall>w\<in>set ws'. word_ok w) \<and> (\<forall>x\<in>set rs2. redir_ok x)"
      using "1.IH" [OF p [symmetric] refl _ q [symmetric] refl _ _ _ a(1) refl a(2)] False r1 by simp
    then show ?thesis using n1 r1 False a by auto
  qed (use "1.prems" p q n n1 in \<open>auto simp: parse_args.simps [of n s] split: if_splits\<close>)
qed

lemma parse_back_ok: "parse_back c s = (d, r) \<Longrightarrow> nz s \<Longrightarrow> cmd_ok c \<Longrightarrow> nz r \<and> cmd_ok d"
proof (induction c s rule: parse_back.induct)
  case (1 c s)
  obtain s' p where p: "peek [38] s = (s', p)" by fastforce
  show ?case
  proof (cases p)
    case True
    then show ?thesis using "1.IH" [OF p [symmetric] refl] "1.prems" p nz_next_peek [OF p]
      by (simp add: parse_back.simps [of c s])
  qed (use "1.prems" p nz_peek [OF p] in \<open>simp add: parse_back.simps [of c s]\<close>)
qed

lemma cmd_ok_redirect: "cmd_ok (redirect rs c) \<longleftrightarrow> cmd_ok c \<and> (\<forall>r\<in>set rs. redir_ok r)"
  by (induction rs arbitrary: c) auto

lemma parse_ok:
  "parseline n s = Some (Inr (c, r)) \<Longrightarrow> nz s \<Longrightarrow> nz r \<and> cmd_ok c"
  "parsepipe n s = Some (Inr (c, r)) \<Longrightarrow> nz s \<Longrightarrow> nz r \<and> cmd_ok c"
  "parseexec n s = Some (Inr (c, r)) \<Longrightarrow> nz s \<Longrightarrow> nz r \<and> cmd_ok c"
proof (induction n s and n s and n s arbitrary: c r and c r and c r rule: parseline_parsepipe_parseexec.induct)
  case (2 n s)
  then obtain c1 s1 where a: "parsepipe n s = Some (Inr (c1, s1))" by (auto simp: parseline.simps parsed_Some)
  obtain c2 s2 where b: "parse_back c1 s1 = (c2, s2)" by fastforce
  obtain s3 p where p: "peek [59] s2 = (s3, p)" by fastforce
  have l: "nz s2" "cmd_ok c2" using 2(1) [OF a 2(4)] parse_back_ok [OF b] by simp_all
  show ?case
  proof (cases p)
    case True
    then obtain d where "parseline n (snd (gettoken s3)) = Some (Inr (d, r))" "c = Seq c2 d"
      using 2(3) a b p by (auto simp: parseline.simps parsed_Some)
    then show ?thesis using 2(2) [OF b [symmetric] refl p [symmetric] refl True] nz_next_peek [OF p l(1)] l by simp
  qed (use 2(3) a b p nz_peek [OF p l(1)] l in \<open>auto simp: parseline.simps\<close>)
next
  case (4 n s)
  then obtain c1 s1 where a: "parseexec n s = Some (Inr (c1, s1))" by (auto simp: parsepipe.simps parsed_Some)
  obtain s2 p where p: "peek [124] s1 = (s2, p)" by fastforce
  have l: "nz s1" "cmd_ok c1" using 4(1) [OF a 4(4)] by simp_all
  show ?case
  proof (cases p)
    case True
    then obtain d where "parsepipe n (snd (gettoken s2)) = Some (Inr (d, r))" "c = Pipe c1 d"
      using 4(3) a p by (auto simp: parsepipe.simps parsed_Some)
    then show ?thesis using 4(2) [OF p [symmetric] refl True] nz_next_peek [OF p l(1)] l by simp
  qed (use 4(3) a p nz_peek [OF p l(1)] l in \<open>auto simp: parsepipe.simps\<close>)
next
  case (6 n s)
  obtain s1 p where p: "peek [40] s = (s1, p)" by fastforce
  have n1: "nz s1" using nz_peek [OF p 6(3)] .
  show ?case
  proof (cases p)
    case True
    have p1: "peek [40] s1 = (s1, True)" using p True by (auto simp: peek_eq)
    obtain c1 s2 where a: "parseline n (snd (gettoken s1)) = Some (Inr (c1, s2))"
      using 6(2) p p1 True by (auto simp: parseexec.simps parseblock_def parsed_Some)
    obtain s3 p' where q: "peek [41] s2 = (s3, p')" by fastforce
    have l: "nz s2" "cmd_ok c1" using 6(1) [OF p [symmetric] refl True a nz_next_peek [OF p 6(3)]] by simp_all
    from True have p': "p'" using 6(2) p p1 a q by (auto split: if_splits simp: parseexec.simps parseblock_def)
    then obtain rs where "parseredirs (snd (gettoken s3)) = Inr (rs, r)" "c = redirect rs c1"
      using 6(2) p p1 True a q by (auto simp: parseexec.simps parseblock_def bind_res_Inr_iff)
    then show ?thesis using parseredirs_ok nz_next_peek [OF q l(1)] l(2) cmd_ok_redirect by blast
  next
    case False
    then obtain rs s2 ws rs' where "parseredirs s1 = Inr (rs, s2)" "parse_args 0 s2 = Inr (ws, rs', r)"
      "c = redirect (rs @ rs') (Exec ws)"
      using 6(2) p by (auto simp: parseexec.simps bind_res_Inr_iff)
    then show ?thesis using parseredirs_ok n1 parse_args_ok [of 0 s2 ws rs' r]
      by (auto simp: cmd_ok_redirect MAXARGS_def)
  qed
qed (simp_all add: parseline.simps parsepipe.simps parseexec.simps)

lemma parsecmd_ok: "parsecmd s = Some (Inr c) \<Longrightarrow> nz s \<Longrightarrow> cmd_ok c"
  by (auto simp: parsecmd_def parsed_Some split: if_splits dest: parse_ok(1))

lemma cmd_ok_io: "cmd_ok c \<Longrightarrow> io_only c"
  by (induction c) (auto simp: redir_ok_def)


subsection \<open>The loop of main\<close>

text \<open>What \<open>gets\<close> puts behind the \<open>i\<close> bytes it has: \<open>l\<close>.\<close>

definition filled :: "nat \<Rightarrow> u8 list \<Rightarrow> mem \<Rightarrow> mem" where
  "filled i l buf = (\<lambda>j. if i \<le> j \<and> j < i + length l then l ! (j - i) else buf j)"

lemma filled_Cons: "filled i (c # l) buf = filled (Suc i) l (buf(i := c))"
  by (auto simp: filled_def fun_eq_iff nth_Cons' Suc_diff_Suc)

lemma filled_Nil: "filled i [] buf = buf"
  by (auto simp: filled_def fun_eq_iff)

lemma gets_loop_line:
  "length l < n \<Longrightarrow> 10 \<notin> set l \<Longrightarrow> 13 \<notin> set l \<Longrightarrow>
     gets_loop n i (l @ 10 # input) buf = (i + length l + 1, input, filled i (l @ [10]) buf)"
proof (induction l arbitrary: n i buf)
  case Nil
  then show ?case by (cases n) (auto simp: filled_Cons filled_Nil)
next
  case (Cons c l)
  then show ?case by (cases n) (auto simp: filled_Cons)
qed

lemma gets_loop_last:
  "length l < n \<Longrightarrow> 10 \<notin> set l \<Longrightarrow> 13 \<notin> set l \<Longrightarrow>
     gets_loop n i l buf = (i + length l, [], filled i l buf)"
proof (induction l arbitrary: n i buf)
  case Nil
  then show ?case by (cases n) (auto simp: filled_Nil)
next
  case (Cons c l)
  then show ?case by (cases n) (auto simp: filled_Cons)
qed

lemma buf_str_filled:
  assumes "length l < 100" "nz l" "buf (length l) = 0"
  shows "buf_str (filled 0 l buf) = l"
proof -
  have "map (filled 0 l buf) [0..<length l] = l" by (rule nth_equalityI) (simp_all add: filled_def)
  moreover have "filled 0 l buf (length l) = 0" using assms(3) by (simp add: filled_def)
  ultimately have "map (filled 0 l buf) [0..<100] = l @ 0 # map (filled 0 l buf) [Suc (length l)..<100]"
    unfolding upt_at [OF assms(1)] by (simp only: map_append list.map)
  moreover have "takeWhile (\<lambda>c. c \<noteq> 0) (l @ 0 # r) = l" for r
    using assms(2) by (intro takeWhile_word) auto
  ultimately show ?thesis unfolding buf_str_def by metis
qed

lemma main_loop_line:
  assumes "length l < 99" "nz l" "10 \<notin> set l" "13 \<notin> set l"
  shows "\<exists>buf'. main_loop buf (l @ 10 # input) = do_line (l @ [10]) # main_loop buf' input"
proof -
  define m where "m = memset_u 0 0 100 buf"
  define b where "b = (filled 0 (l @ [10]) m)(length l + 1 := 0)"
  have l: "length l < Suc 98" using assms(1) by simp
  have g: "getcmd buf (l @ 10 # input) = (input, b)"
    unfolding getcmd_gets gets_loop_line [OF l assms(3,4)] b_def m_def by simp
  have f: "b = filled 0 (l @ [10]) (m(length l + 1 := 0))" by (auto simp: b_def filled_def fun_eq_iff)
  have s: "buf_str b = l @ [10]" unfolding f using assms by (intro buf_str_filled) auto
  have "b 0 \<noteq> 0" using assms(2) by (cases l) (auto simp: b_def filled_def)
  then have "main_loop buf (l @ 10 # input) = do_line (l @ [10]) # main_loop b input"
    unfolding main_loop.simps [of buf] g using s by simp
  then show ?thesis by blast
qed

lemma main_loop_eof: "main_loop buf [] = []"
  using getcmd_eof [of buf "fst (getcmd buf [])" "snd (getcmd buf [])"]
  unfolding main_loop.simps [of buf "[]"] by (simp add: split_beta)

lemma main_loop_last:
  assumes "l \<noteq> []" "length l < 99" "nz l" "10 \<notin> set l" "13 \<notin> set l"
  shows "main_loop buf l = [do_line l]"
proof -
  define m where "m = memset_u 0 0 100 buf"
  define b where "b = (filled 0 l m)(length l := 0)"
  have n: "length l < Suc 98" using assms(2) by simp
  have g: "getcmd buf l = ([], b)"
    unfolding getcmd_gets gets_loop_last [OF n assms(4,5)] b_def m_def by simp
  have f: "b = filled 0 l (m(length l := 0))" by (auto simp: b_def filled_def fun_eq_iff)
  have s: "buf_str b = l" unfolding f using assms by (intro buf_str_filled) auto
  have "b 0 \<noteq> 0" using assms(1,3) by (cases l) (auto simp: b_def filled_def)
  then show ?thesis unfolding main_loop.simps [of buf] g using s main_loop_eof by simp
qed

end
