(* ===== verification/Shell_Correct.thy ===== *)
theory Shell_Correct
  imports Shell_Ok
begin

text \<open>The properties of the shell, applied to the line
  \<open>ls | wc > o & ; wc ls < f\<close> and to small inputs.\<close>

definition demo_ls :: "u8 list" where "demo_ls = [108, 115]"
definition demo_wc :: "u8 list" where "demo_wc = [119, 99]"

definition demo_cmd :: cmd where
  "demo_cmd = Seq (Back (Pipe (Exec [demo_ls]) (Redir (Exec [demo_wc]) (R [111] O_NEW 1))))
     (Redir (Exec [demo_wc, demo_ls]) (R [102] O_RDONLY 0))"

definition demo_fds :: fdtab where
  "demo_fds = (\<lambda>n. if n < 3 then Some (Given n) else None)"

definition demo_luck :: luck where
  "demo_luck = \<lparr>forks = \<lambda>_. True, opens = \<lambda>_ _. True, runs = \<lambda>_. True\<rparr>"

lemma demo_cmd_ok: "cmd_ok demo_cmd"
  by (simp add: demo_cmd_def demo_ls_def demo_wc_def word_ok_def redir_ok_def MAXARGS_def whitespace_def symbols_def)

lemma demo_fds_std: "std_open demo_fds" by (auto simp: std_open_def demo_fds_def)

text \<open>
  C39: The parser of the shell ends on every line, with a command or a syntax error: the
  mutual recursion of parseline, parsepipe and parseexec never runs out of the three calls
  for each byte it is given.
\<close>

theorem shell_parser_ends: "\<exists>r. parsecmd s = Some r"
  using parse_total(1) [OF order_refl, of s] by (auto simp: parsecmd_def intro!: parsed_total)

text \<open>
  C37: Every well-formed command, printed with no more parentheses than needed, is what the
  parser of the shell reads back.
\<close>

theorem shell_parses_text:
  assumes "cmd_ok c"
  shows "parsecmd (cmd_text 0 c) = Some (Inr c)"
  using assms by (rule parsecmd_text)

theorem shell_parses_text_witness:
  "cmd_text 0 demo_cmd =
     [108, 115, 32, 124, 119, 99, 32, 62, 111, 32, 38, 59, 119, 99, 32, 108, 115, 32, 60, 102, 32] \<and>
   parsecmd (cmd_text 0 demo_cmd) = Some (Inr demo_cmd)"
proof
  show "parsecmd (cmd_text 0 demo_cmd) = Some (Inr demo_cmd)" by (rule shell_parses_text [OF demo_cmd_ok])
qed (simp add: demo_cmd_def demo_ls_def demo_wc_def paren_def words_text_def redir_text_def O_RDONLY_def O_NEW_def)

text \<open>
  C38: A command the parser returns has fewer than ten arguments in every call, non-empty
  words without blanks or symbols, and redirections of the input for reading or the output
  for writing only.
\<close>

theorem shell_parses_well_formed:
  assumes "parsecmd s = Some (Inr c)" and "0 \<notin> set s"
  shows "cmd_ok c"
  using assms by (rule parsecmd_ok)

theorem shell_parses_well_formed_witness: "\<exists>c. parsecmd [108, 115, 38] = Some (Inr c) \<and> cmd_ok c"
proof -
  have "parsecmd [108, 115, 38] = Some (Inr (Back (Exec [[108, 115]])))" by code_simp
  then show ?thesis using shell_parses_well_formed [of "[108, 115, 38]"] by auto
qed

text \<open>
  C36: Running a parsed command with the three standard descriptors open, whichever forks,
  opens and execs succeed, starts exactly the programs its tree names, each with the pipe
  ends and files its place in the tree gives it as input and output and no other descriptor
  left open.
\<close>

theorem shell_plumbs_commands:
  assumes "parsecmd s = Some (Inr c)" and "0 \<notin> set s" and "std_open t"
  shows "execs w p t (runcmd c) = plumb w p t c"
  using assms by (intro execs_runcmd cmd_ok_io parsecmd_ok)

theorem shell_plumbs_commands_witness:
  "execs demo_luck [] demo_fds (runcmd demo_cmd) =
     [([demo_ls], demo_fds(1 \<mapsto> Writes [0, 0])),
      ([demo_wc], demo_fds(0 \<mapsto> Reads [0, 0], 1 \<mapsto> Opened [111] O_NEW)),
      ([demo_wc, demo_ls], demo_fds(0 \<mapsto> Opened [102] O_RDONLY))]"
proof -
  have "0 \<notin> set (cmd_text 0 demo_cmd)"
    by (simp add: demo_cmd_def demo_ls_def demo_wc_def paren_def words_text_def redir_text_def)
  then have "execs demo_luck [] demo_fds (runcmd demo_cmd) = plumb demo_luck [] demo_fds demo_cmd"
    using shell_plumbs_commands [OF parsecmd_text [OF demo_cmd_ok]] demo_fds_std by blast
  then show ?thesis by (simp add: demo_luck_def demo_cmd_def)
qed

theorem shell_runs_line_by_line:
  assumes "\<forall>l\<in>set ls. length l < 99 \<and> 0 \<notin> set l \<and> 10 \<notin> set l \<and> 13 \<notin> set l"
  shows "main_loop buf (concat (map (\<lambda>l. l @ [10]) ls)) = map (\<lambda>l. do_line (l @ [10])) ls"
  using assms
proof (induction ls arbitrary: buf)
  case (Cons l ls)
  obtain b where "main_loop buf (l @ 10 # concat (map (\<lambda>l. l @ [10]) ls)) =
      do_line (l @ [10]) # main_loop b (concat (map (\<lambda>l. l @ [10]) ls))"
    using main_loop_line [of l] Cons.prems by (metis list.set_intros(1))
  then show ?case using Cons by simp
qed (simp add: main_loop_eof)

theorem shell_runs_line_by_line_witness:
  "main_loop (\<lambda>_. 7) [99, 100, 32, 47, 10, 10] = [Chdir [47], Child (Some (Inr (Exec [])))]"
proof -
  have "main_loop (\<lambda>_. 7) (concat (map (\<lambda>l. l @ [10]) [[99, 100, 32, 47], []])) =
      map (\<lambda>l. do_line (l @ [10])) [[99, 100, 32, 47], []]"
    by (rule shell_runs_line_by_line) simp
  moreover have "parsecmd [10] = Some (Inr (Exec []))" by code_simp
  ultimately show ?thesis by (simp add: do_line_def)
qed

theorem shell_cd_drops_last:
  assumes "d \<noteq> []" "length d < 96" "0 \<notin> set d" "10 \<notin> set d" "13 \<notin> set d"
  shows "main_loop buf ([99, 100, 32] @ d) = [Chdir (butlast d)]"
  using main_loop_last [of "[99, 100, 32] @ d" buf] assms by (simp add: do_line_def)

theorem shell_cd_drops_last_witness: "main_loop (\<lambda>_. 7) [99, 100, 32, 47, 97, 98] = [Chdir [47, 97]]"
  using shell_cd_drops_last [of "[47, 97, 98]" "\<lambda>_. 7"] by simp

end
