(* ===== verification/Dir_Ok.thy ===== *)
theory Dir_Ok
  imports Dir Inode_Write
begin

text \<open>
  A directory as a map from names to inode numbers: \<open>dirlookup\<close> looks a name up in the map of its
  bytes, \<open>dirlink\<close> updates the map.
\<close>

subsection \<open>Names and entries\<close>

text \<open>A name is the bytes before the first 0, at most \<open>DIRSIZ\<close> of them.\<close>

definition dname :: "mem \<Rightarrow> u8 list" where
  "dname m = takeWhile (\<lambda>c. c \<noteq> 0) (map m [0..<DIRSIZ])"

lemma map_shift: "map m [1..<Suc n] = map (adv m) [0..<n]"
proof -
  have "[1..<Suc n] = map Suc [0..<n]" by (simp only: map_Suc_upt One_nat_def)
  then show ?thesis by (simp del: upt_Suc)
qed

lemma strncmp_names: "strncmp p q n = 0 \<longleftrightarrow>
    takeWhile (\<lambda>c. c \<noteq> 0) (map p [0..<n]) = takeWhile (\<lambda>c. c \<noteq> 0) (map q [0..<n])"
proof (induction n arbitrary: p q)
  case (Suc n)
  have u: "map m [0..<Suc n] = m 0 # map (adv m) [0..<n]" for m :: mem
    using map_shift [of m n] by (simp add: upt_conv_Cons del: upt_Suc)
  have "uint (p 0) - uint (q 0) = 0 \<longleftrightarrow> p 0 = q 0" by (simp add: word_uint_eq_iff)
  then show ?case unfolding u using Suc.IH [of "adv p" "adv q"] by (auto simp del: right_minus_eq)
qed simp

lemma namecmp_names: "namecmp s t = 0 \<longleftrightarrow> dname s = dname t"
  by (simp add: namecmp_def dname_def strncmp_names)

definition dirent_at :: "u8 list \<Rightarrow> nat \<Rightarrow> u8 list" where
  "dirent_at xs k = take DIRENT (drop (k * DIRENT) xs)"

definition ent_name :: "u8 list \<Rightarrow> nat \<Rightarrow> u8 list" where
  "ent_name xs k = dname (de_name (dirent_at xs k))"

definition ent_inum :: "u8 list \<Rightarrow> nat \<Rightarrow> u32" where
  "ent_inum xs k = de_inum (dirent_at xs k)"

definition ents :: "u8 list \<Rightarrow> nat" where "ents xs = length xs div DIRENT"

text \<open>The entry \<open>dirlookup\<close> finds, and the map of a directory.\<close>

definition dir_index :: "u8 list \<Rightarrow> u8 list \<Rightarrow> nat option" where
  "dir_index xs n = first_index (\<lambda>k. ent_inum xs k \<noteq> 0 \<and> ent_name xs k = n) (ents xs)"

definition dir_map :: "u8 list \<Rightarrow> u8 list \<Rightarrow> u32 option" where
  "dir_map xs n = map_option (ent_inum xs) (dir_index xs n)"

text \<open>The first free entry, or the end.\<close>

definition dir_free :: "u8 list \<Rightarrow> nat" where
  "dir_free xs = (case first_index (\<lambda>k. ent_inum xs k = 0) (ents xs) of Some k \<Rightarrow> k | None \<Rightarrow> ents xs)"


subsection \<open>Reading the entries\<close>

text \<open>An inode the operation may use as a directory.\<close>

definition dir_ok :: "fsys \<Rightarrow> nat \<Rightarrow> nat \<Rightarrow> bool" where
  "dir_ok s i nb \<longleftrightarrow> reads s \<and> can_write s i nb \<and> i_type (f_icache s i) = T_DIR
     \<and> DIRENT dvd length (file_bytes s i)"

lemma can_write_view:
  assumes "view s' = view s"
  shows "can_write s' i nb = can_write s i nb" "file_bytes s' i = file_bytes s i"
proof -
  note E = view_eqD [OF assms] and P = block_path_view [OF assms]
  show "can_write s' i nb = can_write s i nb"
    by (simp add: can_write_def Let_def data_ok_def data_blocks_def inode_home_def E P)
  show "file_bytes s' i = file_bytes s i"
    by (simp add: file_bytes_def file_byte_def E P)
qed

lemma dir_ok_view: "view s' = view s \<Longrightarrow> reads s' \<Longrightarrow> dir_ok s i nb \<Longrightarrow> dir_ok s' i nb"
  using can_write_view [of s' s] view_eqD(2) [of s' s] by (simp add: dir_ok_def)

lemma dir_okD:
  assumes "dir_ok s i nb"
  shows "reads s" "can_write s i nb" "i_type (f_icache s i) = T_DIR" "i_dev (f_icache s i) = 1"
    "length (file_bytes s i) = unat (i_size (f_icache s i))"
    "dir_offs (i_size (f_icache s i)) = map (\<lambda>k. k * DIRENT) [0..<ents (file_bytes s i)]"
    "length (file_bytes s i) = ents (file_bytes s i) * DIRENT"
proof -
  show c: "reads s" "can_write s i nb" "i_type (f_icache s i) = T_DIR" using assms by (simp_all add: dir_ok_def)
  then show "i_dev (f_icache s i) = 1" by (simp add: can_write_def Let_def)
  show l: "length (file_bytes s i) = unat (i_size (f_icache s i))" by (simp add: file_bytes_def)
  show "length (file_bytes s i) = ents (file_bytes s i) * DIRENT"
    using assms by (simp add: dir_ok_def ents_def)
  have "DIRENT dvd n \<Longrightarrow> (n + DIRENT - 1) div DIRENT = n div DIRENT" for n
    by (auto simp: DIRENT_def elim!: dvdE)
  then show "dir_offs (i_size (f_icache s i)) = map (\<lambda>k. k * DIRENT) [0..<ents (file_bytes s i)]"
    using assms l by (simp add: dir_ok_def dir_offs_def ents_def)
qed

lemma read_dirent_spec:
  assumes d: "dir_ok s i nb" and k: "k < ents (file_bytes s i)"
  shows "\<exists>s'. read_dirent msg i (k * DIRENT) s = Inr (dirent_at (file_bytes s i) k, s') \<and> dir_ok s' i nb \<and> view s' = view s"
proof -
  note D = dir_okD [OF d]
  have le: "k * DIRENT + DIRENT \<le> unat (i_size (f_icache s i))"
    using k D(5,7) by (metis Suc_leI add.commute mult_Suc mult_le_mono1)
  have lt: "unat (i_size (f_icache s i)) < 2 ^ 32" by (rule unat_less_32)
  have "k * DIRENT < 2 ^ 32" using le lt by linarith
  then have u: "unat (of_nat (k * DIRENT) :: u32) = k * DIRENT"
    by (rule unat_of_nat_32)
  have o: "(of_nat (k * DIRENT) :: u32) \<le> i_size (f_icache s i)"
    "unat (of_nat (k * DIRENT) :: u32) + unat (of_nat DIRENT :: u32) < 2 ^ 32"
    using le lt unfolding word_le_nat_alt u by (simp_all add: DIRENT_def)
  obtain s' where s': "readi i (of_nat (k * DIRENT)) (of_nat DIRENT) s =
      Inr (Io (take DIRENT (drop (k * DIRENT) (file_bytes s i))), s')" "reads s'" "view s' = view s"
    using readi_back [OF D(1,2) o] unfolding u by (auto simp: DIRENT_def)
  have "length (dirent_at (file_bytes s i) k) = DIRENT"
    using le D(5) by (simp add: dirent_at_def)
  then show ?thesis using s' dir_ok_view [OF s'(3,2) d] by (simp add: read_dirent_def dirent_at_def)
qed

lemma dirlookup_loop_spec:
  assumes "dir_ok s i nb" and "m + n = ents (file_bytes s i)"
  shows "\<exists>s'. dir_ok s' i nb \<and> view s' = view s \<and>
    dirlookup_loop i name (map (\<lambda>k. k * DIRENT) [m..<m + n]) s =
      (case find (\<lambda>k. ent_inum (file_bytes s i) k \<noteq> 0 \<and> ent_name (file_bytes s i) k = dname name) [m..<m + n] of
         None \<Rightarrow> Inr (None, s')
       | Some k \<Rightarrow> bind_res (iget 1 (ent_inum (file_bytes s i) k) s') (\<lambda>(ip, s). Inr (Some (ip, k * DIRENT), s)))"
  using assms
proof (induction n arbitrary: m s)
  case (Suc n)
  let ?xs = "file_bytes s i"
  obtain s1 where s1: "read_dirent ''dirlookup read'' i (m * DIRENT) s = Inr (dirent_at ?xs m, s1)"
      "dir_ok s1 i nb" "view s1 = view s"
    using read_dirent_spec [OF Suc.prems(1), of m] Suc.prems(2) by auto
  have x: "file_bytes s1 i = ?xs" using can_write_view(2) [OF s1(3)] .
  have u: "[m..<m + Suc n] = m # [Suc m..<Suc m + n]" by (simp add: upt_conv_Cons)
  have cmp: "namecmp name (de_name (dirent_at ?xs m)) = 0 \<longleftrightarrow> ent_name ?xs m = dname name"
    by (auto simp: namecmp_names ent_name_def)
  show ?case
  proof (cases "ent_inum ?xs m \<noteq> 0 \<and> ent_name ?xs m = dname name")
    case True
    then show ?thesis unfolding u
      using s1 cmp dir_okD(4) [OF s1(2)] by (intro exI [of _ s1]) (simp add: ent_inum_def del: upt_Suc)
  next
    case False
    obtain s2 where "dir_ok s2 i nb" "view s2 = view s"
      "dirlookup_loop i name (map (\<lambda>k. k * DIRENT) [Suc m..<Suc m + n]) s1 =
        (case find (\<lambda>k. ent_inum ?xs k \<noteq> 0 \<and> ent_name ?xs k = dname name) [Suc m..<Suc m + n] of
           None \<Rightarrow> Inr (None, s2)
         | Some k \<Rightarrow> bind_res (iget 1 (ent_inum ?xs k) s2) (\<lambda>(ip, s). Inr (Some (ip, k * DIRENT), s)))"
      using Suc.IH [OF s1(2), of "Suc m", unfolded x s1(3)] Suc.prems(2) by (auto simp del: upt_Suc)
    then show ?thesis unfolding u
      using s1(1) cmp False by (intro exI [of _ s2]) (auto simp: ent_inum_def simp del: upt_Suc)
  qed
qed auto

lemma dirlookup_spec:
  assumes "dir_ok s i nb"
  shows "\<exists>s'. dir_ok s' i nb \<and> view s' = view s \<and>
    dirlookup i name s =
      (case dir_index (file_bytes s i) (dname name) of
         None \<Rightarrow> Inr (None, s')
       | Some k \<Rightarrow> bind_res (iget 1 (ent_inum (file_bytes s i) k) s') (\<lambda>(ip, s). Inr (Some (ip, k * DIRENT), s)))"
  using dirlookup_loop_spec [OF assms, of 0 "ents (file_bytes s i)" name] dir_okD(3,6) [OF assms]
  by (simp add: dirlookup_def dir_index_def first_index_def)


subsection \<open>Writing an entry\<close>

lemma dirlink_slot_spec:
  assumes "dir_ok s i nb" and "m + n = ents (file_bytes s i)"
  shows "\<exists>s'. dir_ok s' i nb \<and> view s' = view s \<and>
    dirlink_slot i (map (\<lambda>k. k * DIRENT) [m..<m + n]) (m * DIRENT) s =
      Inr ((case find (\<lambda>k. ent_inum (file_bytes s i) k = 0) [m..<m + n] of Some k \<Rightarrow> k | None \<Rightarrow> m + n) * DIRENT, s')"
  using assms
proof (induction n arbitrary: m s)
  case (Suc n)
  let ?xs = "file_bytes s i"
  obtain s1 where s1: "read_dirent ''dirlink read'' i (m * DIRENT) s = Inr (dirent_at ?xs m, s1)"
      "dir_ok s1 i nb" "view s1 = view s"
    using read_dirent_spec [OF Suc.prems(1), of m] Suc.prems(2) by auto
  have x: "file_bytes s1 i = ?xs" using can_write_view(2) [OF s1(3)] .
  have u: "[m..<m + Suc n] = m # [Suc m..<Suc m + n]" by (simp add: upt_conv_Cons)
  show ?case
  proof (cases "ent_inum ?xs m = 0")
    case True
    then show ?thesis unfolding u using s1 by (intro exI [of _ s1]) (simp add: ent_inum_def del: upt_Suc)
  next
    case False
    obtain s2 where "dir_ok s2 i nb" "view s2 = view s"
      "dirlink_slot i (map (\<lambda>k. k * DIRENT) [Suc m..<Suc m + n]) (Suc m * DIRENT) s1 =
        Inr ((case find (\<lambda>k. ent_inum ?xs k = 0) [Suc m..<Suc m + n] of Some k \<Rightarrow> k | None \<Rightarrow> Suc m + n) * DIRENT, s2)"
      using Suc.IH [OF s1(2), of "Suc m", unfolded x s1(3)] Suc.prems(2) by (auto simp del: upt_Suc)
    then show ?thesis unfolding u
      using s1(1) False by (intro exI [of _ s2]) (simp add: ent_inum_def add.commute del: upt_Suc split: option.split)
  qed
qed auto

lemma txn_same: "txn k s \<Longrightarrow> view s' = view s \<Longrightarrow> bio_ok s' \<Longrightarrow> txn k s'"
  using txn_held [of k s s' "v_held (view s)"] by simp

lemma reads_idle: "reads s \<Longrightarrow> idle s \<and> bio_ok s"
  by (auto simp: reads_def view_def idle_def)

lemma touched_dirent: "touched (k * DIRENT) DIRENT = 1"
proof -
  have "(k * 16 + 15) div (16 * 32) = k * 16 div (16 * 32 :: nat)" by (simp add: div_mult2_eq)
  then show ?thesis by (simp add: touched_def DIRENT_def BSIZE_def)
qed

lemma dir_free_le: "dir_free xs \<le> ents xs"
  by (auto simp: dir_free_def first_index_Some split: option.split)

lemma dirlink_spec:
  assumes t: "txn (Suc (Suc k)) s" and d: "dir_ok s i nb" and n: "dir_map (file_bytes s i) (dname name) = None"
    and room: "length (file_bytes s i) + DIRENT \<le> nb * BSIZE"
  shows "\<exists>s'. dirlink i name inum s = Inr (0, s') \<and>
    written k i (dir_free (file_bytes s i) * DIRENT) (bytes (make_dirent name inum) 0 DIRENT) nb s s'"
proof -
  let ?xs = "file_bytes s i" and ?f = "dir_free (file_bytes s i)"
  have "dir_index ?xs (dname name) = None" using n by (simp add: dir_map_def)
  then obtain s1 where s1: "dirlookup i name s = Inr (None, s1)" "dir_ok s1 i nb" "view s1 = view s"
    using dirlookup_spec [OF d, of name] by auto
  have x1: "file_bytes s1 i = ?xs" using can_write_view(2) [OF s1(3)] .
  obtain s2 where s2: "dirlink_slot i (dir_offs (i_size (f_icache s1 i))) 0 s1 = Inr (?f * DIRENT, s2)"
      "dir_ok s2 i nb" "view s2 = view s"
    using dirlink_slot_spec [OF s1(2), of 0 "ents ?xs"] s1(3) x1 dir_okD(6) [OF s1(2)]
    by (auto simp: dir_free_def first_index_def split: option.splits)
  have x2: "file_bytes s2 i = ?xs" using can_write_view(2) [OF s2(3)] .
  note D = dir_okD [OF s2(2)] and V = view_eqD [OF s2(3)]
  have le: "?f * DIRENT \<le> unat (i_size (f_icache s2 i))"
    using dir_free_le [of ?xs] D(5,7) x2 by simp
  then have lt: "?f * DIRENT < 2 ^ 32" using unat_less_32 [of "i_size (f_icache s2 i)"] by linarith
  have u: "unat (of_nat (?f * DIRENT) :: u32) = ?f * DIRENT" "unat (of_nat DIRENT :: u32) = DIRENT"
    by (rule unat_of_nat_32 [OF lt]) (simp add: DIRENT_def)
  have t2: "txn (Suc (k + touched (unat (of_nat (?f * DIRENT) :: u32)) (unat (of_nat DIRENT :: u32)))) s2"
    unfolding u touched_dirent using txn_same [OF t s2(3)] reads_idle [OF D(1)] by simp
  have off: "(of_nat (?f * DIRENT) :: u32) \<le> i_size (f_icache s2 i)" using le by (simp only: word_le_nat_alt u)
  have rm: "unat (of_nat (?f * DIRENT) :: u32) + unat (of_nat DIRENT :: u32) \<le> nb * BSIZE"
    unfolding u using le room D(5) [unfolded x2] by linarith
  obtain s' where s': "writei i (make_dirent name inum) (of_nat (?f * DIRENT)) (of_nat DIRENT) s2 = Inr (Io (of_nat DIRENT), s')"
      "written k i (?f * DIRENT) (bytes (make_dirent name inum) 0 DIRENT) nb s2 s'"
    using writei_spec [OF t2 _ D(2) off rm] reads_idle [OF D(1)] unfolding u by blast
  have "written k i (?f * DIRENT) (bytes (make_dirent name inum) 0 DIRENT) nb s s'"
    using s'(2) x2 block_path_view [OF s2(3)] by (simp add: written_def data_blocks_def V)
  then show ?thesis using s1(1) s2(1) s'(1) by (auto simp: dirlink_def)
qed


subsection \<open>The map after dirlink\<close>

lemma length_entry: "length (bytes (make_dirent name inum) 0 DIRENT) = DIRENT"
  by (simp add: bytes_def)

lemma entry_nth: "j < DIRENT \<Longrightarrow> bytes (make_dirent name inum) 0 DIRENT ! j = make_dirent name inum j"
  by (simp add: bytes_def)

lemma entry_inum: "de_inum (bytes (make_dirent name inum) 0 DIRENT) = ucast (ucast inum :: u16)"
proof -
  have "get16 (list_mem (bytes (make_dirent name inum) 0 DIRENT)) 0 = get16 (make_dirent name inum) 0"
    by (simp add: get16_def list_mem_def length_entry entry_nth) (simp add: DIRENT_def entry_nth)
  then show ?thesis by (simp add: de_inum_def make_dirent_def)
qed

lemma entry_name: "dname (de_name (bytes (make_dirent name inum) 0 DIRENT)) = dname name"
proof -
  have "de_name (bytes (make_dirent name inum) 0 DIRENT) j = (if \<exists>l<j. name l = 0 then 0 else name j)"
    if "j < DIRSIZ" for j
  proof -
    have "2 + j < DIRENT" using that by (simp add: DIRENT_def DIRSIZ_def)
    then show ?thesis
      using that by (simp add: de_name_def list_mem_def length_entry entry_nth make_dirent_def put16_def
        strncpy_def strncpy_loop_eq) blast
  qed
  then have "strncmp (de_name (bytes (make_dirent name inum) 0 DIRENT)) name DIRSIZ = 0"
    unfolding strncmp_0 by (metis less_trans)
  then show ?thesis using strncmp_names by (simp add: dname_def)
qed

lemma splice_nth:
  assumes "off \<le> length xs" and "j < off \<or> off + length cs \<le> j" and "j < length xs"
  shows "splice off cs xs ! j = xs ! j"
  using assms by (auto simp: splice_def nth_append)

lemma splice_dirent:
  assumes f: "f \<le> ents xs" and d: "DIRENT dvd length xs" "length d = DIRENT"
  defines "ys \<equiv> splice (f * DIRENT) d xs"
  shows "ents ys = max (ents xs) (Suc f)" "dirent_at ys f = d"
    "k \<noteq> f \<Longrightarrow> k < ents xs \<Longrightarrow> dirent_at ys k = dirent_at xs k"
proof -
  have l: "length xs = ents xs * DIRENT" using d by (simp add: ents_def)
  have le: "f * DIRENT \<le> length xs" using f l by simp
  have ly: "length ys = max (ents xs) (Suc f) * DIRENT"
    using le d l unfolding ys_def by (simp add: max_def DIRENT_def)
  then show "ents ys = max (ents xs) (Suc f)" by (simp add: ents_def DIRENT_def)
  show "dirent_at ys f = d" using splice_back [OF le, of d] d by (simp add: dirent_at_def ys_def)
  assume k: "k \<noteq> f" "k < ents xs"
  have s: "Suc k * DIRENT \<le> f * DIRENT \<or> Suc f * DIRENT \<le> k * DIRENT"
    using k(1) by (metis Suc_leI linorder_neqE_nat mult_le_mono1)
  have "Suc k * DIRENT \<le> length xs" unfolding l using k(2) by (intro mult_le_mono1) simp
  then have lx: "k * DIRENT + DIRENT \<le> length xs" by simp
  have "ents xs * DIRENT \<le> length ys" unfolding ly by (intro mult_le_mono1) simp
  then have lz: "k * DIRENT + DIRENT \<le> length ys" using lx l by simp
  show "dirent_at ys k = dirent_at xs k"
  proof (rule nth_equalityI)
    fix j assume "j < length (dirent_at ys k)"
    then have j: "j < DIRENT" by (simp add: dirent_at_def)
    have "k * DIRENT + j < f * DIRENT \<or> f * DIRENT + length d \<le> k * DIRENT + j" using s j d(2) by auto
    then have "ys ! (k * DIRENT + j) = xs ! (k * DIRENT + j)" unfolding ys_def
      using le lx j by (intro splice_nth) simp_all
    then show "dirent_at ys k ! j = dirent_at xs k ! j" using j lx lz by (simp add: dirent_at_def)
  qed (use lx lz in \<open>simp add: dirent_at_def\<close>)
qed

lemma ucast_16: "inum < 2 ^ 16 \<Longrightarrow> ucast (ucast inum :: u16) = (inum :: u32)"
  by (simp add: word_unat_eq_iff unsigned_ucast_eq unsigned_take_bit_eq take_bit_nat_eq_self word_less_nat_alt)

lemma dirlink_map:
  assumes d: "DIRENT dvd length xs" and n: "dir_map xs (dname name) = None" and i: "inum \<noteq> 0" "inum < 2 ^ 16"
  defines "ys \<equiv> splice (dir_free xs * DIRENT) (bytes (make_dirent name inum) 0 DIRENT) xs"
  shows "dir_map ys = (dir_map xs)(dname name \<mapsto> inum)"
proof
  fix m
  let ?f = "dir_free xs"
  note S = splice_dirent [OF dir_free_le [of xs] d length_entry [of name inum], folded ys_def]
  have "ucast (ucast inum :: u16) = inum" using i(2) by (rule ucast_16)
  then have fe: "ent_inum ys ?f = inum" "ent_name ys ?f = dname name"
    by (simp_all add: ent_inum_def ent_name_def S(2) entry_inum entry_name)
  have ke: "ent_inum ys k = ent_inum xs k" "ent_name ys k = ent_name xs k" if "k \<noteq> ?f" "k < ents xs" for k
    using S(3) [OF that] by (simp_all add: ent_inum_def ent_name_def)
  have free: "?f < ents xs \<Longrightarrow> ent_inum xs ?f = 0"
    by (auto simp: dir_free_def first_index_Some split: option.splits)
  have lt: "k < ents ys \<Longrightarrow> k \<noteq> ?f \<Longrightarrow> k < ents xs" for k using S(1) dir_free_le [of xs] by auto
  have none: "\<not> (ent_inum xs k \<noteq> 0 \<and> ent_name xs k = dname name)" if "k < ents xs" for k
    using n that by (auto simp: dir_map_def dir_index_def)
  show "dir_map ys m = ((dir_map xs)(dname name \<mapsto> inum)) m"
  proof (cases "m = dname name")
    case True
    have "dir_index ys m = Some ?f" unfolding dir_index_def
    proof (rule first_index_unique)
      fix j assume "j < ents ys" and j: "ent_inum ys j \<noteq> 0 \<and> ent_name ys j = m"
      show "j = ?f"
      proof (rule ccontr)
        assume f: "j \<noteq> ?f"
        note jx = lt [OF \<open>j < ents ys\<close> f]
        show False using none [OF jx] ke [OF f jx] j True by simp
      qed
    qed (use S(1) fe i True in auto)
    then show ?thesis using True fe by (simp add: dir_map_def)
  next
    case False
    have "dir_index ys m = dir_index xs m"
    proof (cases "dir_index xs m")
      case None
      have "\<not> (ent_inum ys k \<noteq> 0 \<and> ent_name ys k = m)" if "k < ents ys" for k
      proof (cases "k = ?f")
        case True
        then show ?thesis using fe False by simp
      next
        case kf: False
        then show ?thesis using None lt [OF that kf] ke [OF kf lt [OF that kf]] by (simp add: dir_index_def)
      qed
      then have "dir_index ys m = None" by (simp add: dir_index_def)
      then show ?thesis using None by simp
    next
      case (Some k)
      then have k: "k < ents xs" "ent_inum xs k \<noteq> 0" "ent_name xs k = m"
        "\<forall>j<k. \<not> (ent_inum xs j \<noteq> 0 \<and> ent_name xs j = m)"
        by (auto simp: dir_index_def first_index_Some)
      then have kf: "k \<noteq> ?f" using free by auto
      have "first_index (\<lambda>k. ent_inum ys k \<noteq> 0 \<and> ent_name ys k = m) (ents ys) = Some k"
        unfolding first_index_Some using k kf ke S(1) fe False by (auto, metis less_trans)
      then show ?thesis using Some by (simp add: dir_index_def)
    qed
    moreover have "dir_index xs m = Some k \<Longrightarrow> k \<noteq> ?f \<and> k < ents xs" for k
      using free by (auto simp: dir_index_def first_index_Some)
    ultimately show ?thesis using False ke by (cases "dir_index xs m") (auto simp: dir_map_def)
  qed
qed

text \<open>A disk inode depends on its 64 bytes.\<close>

lemma get_dinode_cong:
  assumes "\<And>x. a \<le> x \<Longrightarrow> x < a + 64 \<Longrightarrow> m x = m' x"
  shows "get_dinode a m ip = get_dinode a m' ip"
proof -
  have g: "get16 m b = get16 m' b" if "a \<le> b" "b + 2 \<le> a + 64" for b
    using that assms by (intro get16_cong) auto
  have h: "get32 m b = get32 m' b" if "a \<le> b" "b + 4 \<le> a + 64" for b
    using that assms by (intro get32_cong) auto
  have "(\<lambda>k. if k < NDIRECT + 3 then get32 m (a + 12 + 4 * k) else i_addrs ip k)
      = (\<lambda>k. if k < NDIRECT + 3 then get32 m' (a + 12 + 4 * k) else i_addrs ip k)"
    by (intro ext if_cong refl h) (simp_all add: NDIRECT_def)
  then show ?thesis by (simp add: get_dinode_def g h)
qed

end
