(* ===== verification/Path_Ok.thy ===== *)
theory Path_Ok
  imports Dir_Ok
begin

text \<open>
  Path names: \<open>skipelem\<close> takes a path apart at its slashes, and \<open>namex\<close> follows it through the maps
  of the directories on the disk, whatever the inode cache holds, and leaves its references as
  they were but for the inode it answers.
\<close>

subsection \<open>The elements of a path\<close>

fun splits :: "u8 list \<Rightarrow> u8 list list" where
  "splits [] = [[]]"
| "splits (c # cs) = (if c = slash then [] # splits cs else (c # hd (splits cs)) # tl (splits cs))"

definition elems :: "u8 list \<Rightarrow> u8 list list" where
  "elems p = filter (\<lambda>e. e \<noteq> []) (splits p)"

lemma splits_word: "slash \<notin> set w \<Longrightarrow> splits w = [w]" "slash \<notin> set w \<Longrightarrow> splits (w @ slash # r) = w # splits r"
  by (induction w) auto

lemma elems_simps:
  "elems [] = []" "elems (slash # p) = elems p" "w \<noteq> [] \<Longrightarrow> slash \<notin> set w \<Longrightarrow> elems w = [w]"
  "w \<noteq> [] \<Longrightarrow> slash \<notin> set w \<Longrightarrow> elems (w @ slash # r) = w # elems r"
  by (auto simp: elems_def splits_word)

lemma elems_skip: "elems (dropWhile (\<lambda>c. c = slash) p) = elems p"
  by (induction p) (auto simp: elems_simps)

lemma elems_first:
  assumes "p \<noteq> []" "hd p \<noteq> slash"
  shows "elems p = takeWhile (\<lambda>c. c \<noteq> slash) p # elems (dropWhile (\<lambda>c. c \<noteq> slash) p)"
proof -
  let ?w = "takeWhile (\<lambda>c. c \<noteq> slash) p" and ?r = "dropWhile (\<lambda>c. c \<noteq> slash) p"
  have w: "?w \<noteq> []" "slash \<notin> set ?w" using assms by (cases p; auto dest: set_takeWhileD)+
  show ?thesis
  proof (cases ?r)
    case Nil
    then show ?thesis using elems_simps(1,3) w by (metis append_Nil2 takeWhile_dropWhile_id)
  next
    case (Cons c r)
    then have "c = slash" using hd_dropWhile [of "\<lambda>c. c \<noteq> slash" p] by simp
    then show ?thesis using Cons elems_simps(2,4) w by (metis takeWhile_dropWhile_id)
  qed
qed

lemma dname_list:
  assumes "0 \<notin> set e" and "\<And>j. j < min (length e) DIRSIZ \<Longrightarrow> m j = e ! j" and "length e < DIRSIZ \<Longrightarrow> m (length e) = 0"
  shows "dname m = take DIRSIZ e"
proof (cases "DIRSIZ \<le> length e")
  case True
  then have "map m [0..<DIRSIZ] = take DIRSIZ e" using assms(2) by (intro nth_equalityI) auto
  moreover have "c \<noteq> 0" if "c \<in> set (take DIRSIZ e)" for c using that assms(1) by (auto dest: in_set_takeD)
  ultimately show ?thesis by (simp add: dname_def)
next
  case False
  then have l: "length e < DIRSIZ" by simp
  note upt_at [OF l]
  moreover have "map m [0..<length e] = e" using assms(2) l by (intro nth_equalityI) auto
  ultimately have "map m [0..<DIRSIZ] = e @ 0 # map m [Suc (length e)..<DIRSIZ]" using assms(3) l by simp
  moreover have "takeWhile (\<lambda>c. c \<noteq> 0) (e @ 0 # r) = e" for r using assms(1) by (induction e) auto
  ultimately show ?thesis using l by (simp add: dname_def)
qed

lemma elems_Nil: "p = [] \<or> hd p \<noteq> slash \<Longrightarrow> elems p = [] \<longleftrightarrow> p = []"
  using elems_first [of p] elems_simps(1) by (metis list.distinct(1))

lemma skipelem_None: "skipelem p name = None \<longleftrightarrow> elems p = []"
proof -
  let ?q = "dropWhile (\<lambda>c. c = slash) p"
  have "skipelem p name = None \<longleftrightarrow> ?q = []" by (simp add: skipelem_def Let_def del: dropWhile_eq_Nil_conv)
  moreover have "?q = [] \<or> hd ?q \<noteq> slash" using hd_dropWhile [of "\<lambda>c. c = slash" p] by blast
  ultimately show ?thesis using elems_Nil [of ?q] elems_skip [of p] by simp
qed

lemma skipelem_Some:
  assumes "skipelem p name = Some (rest, name')" and "0 \<notin> set p"
  shows "\<exists>e. elems p = e # elems rest \<and> dname name' = take DIRSIZ e" "rest = [] \<longleftrightarrow> elems rest = []" "0 \<notin> set rest"
proof -
  let ?q = "dropWhile (\<lambda>c. c = slash) p"
  let ?e = "takeWhile (\<lambda>c. c \<noteq> slash) ?q" and ?r = "dropWhile (\<lambda>c. c \<noteq> slash) ?q"
  have q: "?q \<noteq> []" and r: "rest = dropWhile (\<lambda>c. c = slash) ?r"
    and n: "name' = (if length ?e \<ge> DIRSIZ then mcopy (list_mem ?e) 0 0 DIRSIZ name
                    else (mcopy (list_mem ?e) 0 0 (length ?e) name)(length ?e := 0))"
    using assms(1) by (auto simp: skipelem_def Let_def split: if_splits)
  have "0 \<notin> set ?e" using assms(2) by (meson set_dropWhileD set_takeWhileD)
  then have "dname name' = take DIRSIZ ?e"
    by (rule dname_list) (auto simp: n mcopy_def list_mem_def)
  moreover have "elems p = ?e # elems rest"
    using elems_first [OF q] hd_dropWhile [OF q] elems_skip [of p] elems_skip [of ?r] r by simp
  ultimately show "\<exists>e. elems p = e # elems rest \<and> dname name' = take DIRSIZ e" by blast
  show "rest = [] \<longleftrightarrow> elems rest = []"
    using elems_Nil [of rest] hd_dropWhile [of "\<lambda>c. c = slash" ?r] unfolding r by blast
  show "0 \<notin> set rest" unfolding r using assms(2) by (meson set_dropWhileD)
qed


subsection \<open>The inodes of the disk\<close>

definition blank :: inode where
  "blank = \<lparr>i_dev = 1, i_inum = 0, i_ref = 0, i_lock = initsleeplock, i_valid = True, i_type = 0, i_major = 0,
     i_minor = 0, i_nlink = 0, i_size = 0, i_addrs = \<lambda>_. 0\<rparr>"

definition dino :: "fsys \<Rightarrow> u32 \<Rightarrow> inode" where
  "dino s inum = get_dinode (dinode_off inum) (cont s (IBLOCK inum (f_sb s))) blank"

definition same_ino :: "inode \<Rightarrow> inode \<Rightarrow> bool" where
  "same_ino ip jp \<longleftrightarrow> i_type ip = i_type jp \<and> i_nlink ip = i_nlink jp \<and> i_size ip = i_size jp
     \<and> (\<forall>k<NDIRECT + 3. i_addrs ip k = i_addrs jp k)"

definition fbytes :: "fsys \<Rightarrow> inode \<Rightarrow> u8 list" where
  "fbytes s ip = map (file_byte s ip) [0..<unat (i_size ip)]"

text \<open>The parts of the state the disk's inodes and files depend on, and those a lookup leaves alone.\<close>

definition same_fs :: "fsys \<Rightarrow> fsys \<Rightarrow> bool" where
  "same_fs s s' \<longleftrightarrow> cont s' = cont s \<and> f_sb s' = f_sb s \<and> f_disksize s' = f_disksize s \<and> f_log s' = f_log s
     \<and> f_pid s' = f_pid s"

lemma same_fs_refl [simp]: "same_fs s s" by (simp add: same_fs_def)

lemma same_fs_trans: "same_fs s s' \<Longrightarrow> same_fs s' s'' \<Longrightarrow> same_fs s s''" by (simp add: same_fs_def)

lemma same_fs_view: "view s' = view s \<Longrightarrow> same_fs s s'"
  using view_eqD [of s' s] by (simp add: same_fs_def)

lemma block_path_ino:
  assumes "\<forall>k<NDIRECT + 3. i_addrs ip k = i_addrs jp k"
  shows "block_path s ip = block_path s jp" "block_addr s ip = block_addr s jp" "mapped s ip = mapped s jp"
    "file_byte s ip = file_byte s jp"
proof -
  show p: "block_path s ip = block_path s jp"
    using assms by (intro ext) (simp add: block_path_def Let_def)
  show a: "block_addr s ip = block_addr s jp" by (simp add: fun_eq_iff block_addr_def p)
  show "mapped s ip = mapped s jp" by (simp add: fun_eq_iff mapped_def p)
  show "file_byte s ip = file_byte s jp" by (simp add: fun_eq_iff file_byte_def a)
qed

lemma block_path_fs:
  assumes "same_fs s s'"
  shows "block_path s' = block_path s" "block_addr s' = block_addr s" "mapped s' = mapped s"
    "file_byte s' = file_byte s" "fbytes s' = fbytes s" "dino s' = dino s"
proof -
  note E = assms [unfolded same_fs_def]
  show p: "block_path s' = block_path s" by (intro ext) (simp add: block_path_def Let_def E)
  show a: "block_addr s' = block_addr s" by (simp add: fun_eq_iff block_addr_def p)
  show "mapped s' = mapped s" by (simp add: fun_eq_iff mapped_def p E)
  show f: "file_byte s' = file_byte s" by (simp add: fun_eq_iff file_byte_def a E)
  show "fbytes s' = fbytes s" by (simp add: fun_eq_iff fbytes_def f)
  show "dino s' = dino s" by (simp add: fun_eq_iff dino_def E)
qed

text \<open>An inode of the disk that a path may go through.\<close>

definition dir_inode :: "fsys \<Rightarrow> u32 \<Rightarrow> nat \<Rightarrow> bool" where
  "dir_inode s inum nb \<longleftrightarrow>
     (let ip = dino s inum; ib = IBLOCK inum (f_sb s) in
      data_ok s ip nb \<and> unat (i_size ip) \<le> nb * BSIZE \<and> inode_home s inum
      \<and> ib \<notin> data_blocks s ip nb \<and> (NDIRECT < nb \<longrightarrow> ib \<noteq> i_addrs ip NDIRECT) \<and> DIRENT dvd unat (i_size ip))"

definition ino_ok :: "fsys \<Rightarrow> u32 \<Rightarrow> bool" where
  "ino_ok s inum \<longleftrightarrow> IBLOCK inum (f_sb s) < f_disksize s \<and> i_type (dino s inum) \<noteq> 0 \<and> i_nlink (dino s inum) \<noteq> 0
     \<and> (i_type (dino s inum) = T_DIR \<longrightarrow> (\<exists>nb. dir_inode s inum nb))"

lemma ino_ok_fs:
  assumes "same_fs s s'"
  shows "dir_inode s' = dir_inode s" "ino_ok s' = ino_ok s"
proof -
  note E = assms [unfolded same_fs_def] and B = block_path_fs [OF assms]
  show d: "dir_inode s' = dir_inode s"
    by (intro ext) (simp add: dir_inode_def Let_def data_ok_def data_blocks_def inode_home_def B E)
  show "ino_ok s' = ino_ok s" by (intro ext) (simp add: ino_ok_def d B E)
qed

text \<open>A slot with the inode \<open>inum\<close> is a directory \<open>dirlookup\<close> can read.\<close>

lemma slot_dir_ok:
  assumes "reads s" "i_dev (f_icache s i) = 1" "i_inum (f_icache s i) = inum" "same_ino (f_icache s i) (dino s inum)"
    and "i_type (dino s inum) = T_DIR" "dir_inode s inum nb"
  shows "dir_ok s i nb" "file_bytes s i = fbytes s (dino s inum)"
proof -
  let ?ip = "f_icache s i"
  have e: "i_type ?ip = T_DIR" "i_size ?ip = i_size (dino s inum)"
    "\<forall>k<NDIRECT + 3. i_addrs ?ip k = i_addrs (dino s inum) k"
    using assms(4,5) by (simp_all add: same_ino_def)
  note B = block_path_ino [OF e(3)]
  have "i_addrs ?ip NDIRECT = i_addrs (dino s inum) NDIRECT" using e(3) by simp
  moreover have "T_DIR \<noteq> T_DEV" by (simp add: T_DIR_def T_DEV_def)
  ultimately have "can_write s i nb"
    using assms(2,3,6) e B by (simp add: can_write_def dir_inode_def Let_def data_ok_def data_blocks_def)
  moreover show f: "file_bytes s i = fbytes s (dino s inum)" by (simp add: file_bytes_def fbytes_def B e(2))
  moreover have "DIRENT dvd length (file_bytes s i)" using assms(6) f by (simp add: dir_inode_def Let_def fbytes_def)
  ultimately show "dir_ok s i nb" using assms(1) e(1) by (simp add: dir_ok_def)
qed


subsection \<open>The inode cache\<close>

definition cache_ok :: "fsys \<Rightarrow> bool" where
  "cache_ok s \<longleftrightarrow> (\<forall>i<NINODE. 0 \<le> i_ref (f_icache s i) \<and> (0 < i_ref (f_icache s i) \<longrightarrow> i_dev (f_icache s i) = 1 \<and>
     (i_valid (f_icache s i) \<longrightarrow> same_ino (f_icache s i) (dino s (i_inum (f_icache s i))))))"

definition refs :: "fsys \<Rightarrow> nat \<Rightarrow> int" where "refs s = (\<lambda>i. i_ref (f_icache s i))"

definition unlocked :: "fsys \<Rightarrow> bool" where
  "unlocked s \<longleftrightarrow> (\<forall>i. \<not> sl_locked (i_lock (f_icache s i)))"

lemma reads_icache [simp]: "reads (s\<lparr>f_icache := c\<rparr>) = reads s" "reads (s\<lparr>f_wakes := w\<rparr>) = reads s"
  by (simp_all add: reads_def)

lemma dino_icache [simp]: "dino (s\<lparr>f_icache := c\<rparr>) = dino s" "dino (s\<lparr>f_wakes := w\<rparr>) = dino s"
  by (simp_all add: fun_eq_iff dino_def)

lemma same_fs_icache [simp]: "same_fs s (s'\<lparr>f_icache := c\<rparr>) = same_fs s s'" "same_fs s (s'\<lparr>f_wakes := w\<rparr>) = same_fs s s'"
  by (simp_all add: same_fs_def)

lemma cache_ok_fs: "same_fs s s' \<Longrightarrow> f_icache s' = f_icache s \<Longrightarrow> cache_ok s' = cache_ok s"
  by (simp add: cache_ok_def block_path_fs)

lemma iget_spec:
  assumes c: "cache_ok s" and f: "\<exists>i<NINODE. refs s i = 0"
  shows "\<exists>i ip. iget 1 inum s = Inr (i, s\<lparr>f_icache := (f_icache s)(i := ip)\<rparr>) \<and> i < NINODE
    \<and> cache_ok (s\<lparr>f_icache := (f_icache s)(i := ip)\<rparr>) \<and> i_inum ip = inum \<and> i_ref ip = refs s i + 1
    \<and> i_lock ip = i_lock (f_icache s i) \<and> (0 < refs s i \<longrightarrow> ip = (f_icache s i)\<lparr>i_ref := i_ref ip\<rparr>)"
proof (cases "first_index (\<lambda>i. i_ref (f_icache s i) > 0 \<and> i_dev (f_icache s i) = 1 \<and> i_inum (f_icache s i) = inum) NINODE")
  case None
  obtain i where i: "first_index (\<lambda>i. i_ref (f_icache s i) = 0) NINODE = Some i"
    using f first_index_exists [where P = "\<lambda>i. i_ref (f_icache s i) = 0"] by (auto simp: refs_def)
  then have "i < NINODE" "i_ref (f_icache s i) = 0" by (auto dest: first_index_SomeD)
  moreover have "iget 1 inum s = Inr (i, s\<lparr>f_icache := (f_icache s)
      (i := (f_icache s i)\<lparr>i_dev := 1, i_inum := inum, i_ref := 1, i_valid := False\<rparr>)\<rparr>)"
    unfolding iget_def None i by simp
  ultimately show ?thesis using c
    by (intro exI [of _ i] exI [of _ "(f_icache s i)\<lparr>i_dev := 1, i_inum := inum, i_ref := 1, i_valid := False\<rparr>"])
      (auto simp: cache_ok_def refs_def)
next
  case (Some i)
  then have "i < NINODE" "i_ref (f_icache s i) > 0" "i_dev (f_icache s i) = 1" "i_inum (f_icache s i) = inum"
    by (auto dest: first_index_SomeD)
  then show ?thesis using c Some
    by (intro exI [of _ i] exI [of _ "(f_icache s i)\<lparr>i_ref := i_ref (f_icache s i) + 1\<rparr>"])
      (auto simp: iget_def cache_ok_def refs_def same_ino_def)
qed

text \<open>Slot \<open>i\<close> is locked by this process and holds the inode of the disk.\<close>

definition locked_ino :: "fsys \<Rightarrow> nat \<Rightarrow> bool" where
  "locked_ino s i \<longleftrightarrow> i_lock (f_icache s i) = \<lparr>sl_locked = True, sl_pid = f_pid s\<rparr> \<and> i_valid (f_icache s i)
     \<and> same_ino (f_icache s i) (dino s (i_inum (f_icache s i))) \<and> i_dev (f_icache s i) = 1"

lemma ilock_spec:
  assumes c: "cache_ok s" "unlocked s" "reads s" and i: "i < NINODE" "0 < refs s i" and k: "ino_ok s (i_inum (f_icache s i))"
  shows "\<exists>s'. ilock i s = Inr s' \<and> reads s' \<and> same_fs s s' \<and> cache_ok s' \<and> locked_ino s' i \<and> refs s' = refs s
    \<and> i_inum (f_icache s' i) = i_inum (f_icache s i) \<and> (\<forall>j. j \<noteq> i \<longrightarrow> f_icache s' j = f_icache s j)"
proof (cases "i_valid (f_icache s i)")
  case True
  then show ?thesis
    using c i by (auto simp: ilock_def acquiresleep_def Let_def cache_ok_def locked_ino_def unlocked_def refs_def same_ino_def)
next
  case False
  let ?ip = "get_dinode (dinode_off (i_inum (f_icache s i))) (cont s (IBLOCK (i_inum (f_icache s i)) (f_sb s))) (f_icache s i)"
  have d: "same_ino ?ip (dino s (i_inum (f_icache s i)))" by (simp add: same_ino_def dino_def get_dinode_def)
  have "i_type ?ip \<noteq> 0" using k d by (simp add: ino_ok_def same_ino_def)
  then obtain s' where s': "ilock i s = Inr s'" "reads s'" "cont s' = cont s"
      "f_icache s' = (f_icache s)(i := ?ip\<lparr>i_lock := \<lparr>sl_locked = True, sl_pid = f_pid s\<rparr>, i_valid := True\<rparr>)"
      "f_sb s' = f_sb s" "f_disksize s' = f_disksize s" "f_log s' = f_log s" "f_pid s' = f_pid s"
    using ilock_fills [OF c(3) _ _ _ _ False refl] c i k unfolding cache_ok_def refs_def unlocked_def ino_ok_def by blast
  have fs: "same_fs s s'" using s' by (simp add: same_fs_def)
  then have "cache_ok s'" using c(1) d s'(4) i by (auto simp: cache_ok_def block_path_fs same_ino_def get_dinode_def)
  moreover have "refs s' = refs s" using s'(4) by (simp add: fun_eq_iff refs_def get_dinode_def)
  moreover have "locked_ino s' i"
    using s'(4,8) d i c(1) block_path_fs(6) [OF fs] by (simp add: locked_ino_def same_ino_def get_dinode_def cache_ok_def refs_def)
  ultimately show ?thesis using s' fs by (intro exI [of _ s']) (simp add: get_dinode_def)
qed


lemma iput_spec:
  assumes "cache_ok s" "reads s" "i < NINODE" "0 < refs s i" "\<not> sl_locked (i_lock (f_icache s i))"
    and "i_valid (f_icache s i) \<Longrightarrow> i_nlink (f_icache s i) \<noteq> 0"
  shows "\<exists>s'. iput i s = Inr s' \<and> reads s' \<and> same_fs s s' \<and> cache_ok s' \<and> refs s' = (refs s)(i := refs s i - 1)
    \<and> \<not> sl_locked (i_lock (f_icache s' i)) \<and> (\<forall>j. i_inum (f_icache s' j) = i_inum (f_icache s j))
    \<and> (\<forall>j. j \<noteq> i \<longrightarrow> f_icache s' j = f_icache s j)"
  using assms
  by (auto simp: iput_def acquiresleep_def releasesleep_def Let_def cache_ok_def refs_def fun_eq_iff same_ino_def)

lemma iunlock_spec:
  assumes "cache_ok s" "reads s" "i < NINODE" "0 < refs s i" "locked_ino s i"
  shows "\<exists>s'. iunlock i s = Inr s' \<and> reads s' \<and> same_fs s s' \<and> cache_ok s' \<and> refs s' = refs s
    \<and> \<not> sl_locked (i_lock (f_icache s' i)) \<and> i_nlink (f_icache s' i) = i_nlink (f_icache s i)
    \<and> (\<forall>j. i_inum (f_icache s' j) = i_inum (f_icache s j)) \<and> (\<forall>j. j \<noteq> i \<longrightarrow> f_icache s' j = f_icache s j)"
  using assms
  by (auto simp: iunlock_def holdingsleep_def releasesleep_def locked_ino_def cache_ok_def refs_def fun_eq_iff same_ino_def)

lemma iunlockput_spec:
  assumes "cache_ok s" "reads s" "i < NINODE" "0 < refs s i" "locked_ino s i" "i_nlink (f_icache s i) \<noteq> 0"
  shows "\<exists>s'. iunlockput i s = Inr s' \<and> reads s' \<and> same_fs s s' \<and> cache_ok s' \<and> refs s' = (refs s)(i := refs s i - 1)
    \<and> \<not> sl_locked (i_lock (f_icache s' i)) \<and> (\<forall>j. i_inum (f_icache s' j) = i_inum (f_icache s j))
    \<and> (\<forall>j. j \<noteq> i \<longrightarrow> f_icache s' j = f_icache s j)"
proof -
  obtain s1 where s1: "iunlock i s = Inr s1" "reads s1" "same_fs s s1" "cache_ok s1" "refs s1 = refs s"
    "\<not> sl_locked (i_lock (f_icache s1 i))" "i_nlink (f_icache s1 i) = i_nlink (f_icache s i)"
    "\<forall>j. i_inum (f_icache s1 j) = i_inum (f_icache s j)" "\<forall>j. j \<noteq> i \<longrightarrow> f_icache s1 j = f_icache s j"
    using iunlock_spec [OF assms(1-5)] by blast
  obtain s2 where s2: "iput i s1 = Inr s2" "reads s2" "same_fs s1 s2" "cache_ok s2" "refs s2 = (refs s1)(i := refs s1 i - 1)"
    "\<not> sl_locked (i_lock (f_icache s2 i))" "\<forall>j. i_inum (f_icache s2 j) = i_inum (f_icache s1 j)"
    "\<forall>j. j \<noteq> i \<longrightarrow> f_icache s2 j = f_icache s1 j"
    using iput_spec [OF s1(4,2) assms(3) _ s1(6)] s1(5,7) assms(4,6) by auto
  show ?thesis using s1 s2 same_fs_trans [OF s1(3) s2(3)] by (intro exI [of _ s2]) (simp add: iunlockput_def)
qed


subsection \<open>Following a path\<close>

text \<open>
  The inode a path leads to from the inode \<open>inum\<close>, by the maps of the directories on the disk;
  with \<open>parent\<close>, the directory of its last element.
\<close>

fun walk :: "fsys \<Rightarrow> bool \<Rightarrow> u32 \<Rightarrow> u8 list list \<Rightarrow> u32 option" where
  "walk s parent inum [] = (if parent then None else Some inum)"
| "walk s parent inum (e # es) =
     (if i_type (dino s inum) \<noteq> T_DIR then None
      else if parent \<and> es = [] then Some inum
      else case dir_map (fbytes s (dino s inum)) (take DIRSIZ e) of
          None \<Rightarrow> None
        | Some next \<Rightarrow> walk s parent next es)"

text \<open>The inodes on the way are well formed.\<close>

fun way_ok :: "fsys \<Rightarrow> bool \<Rightarrow> u32 \<Rightarrow> u8 list list \<Rightarrow> bool" where
  "way_ok s parent inum [] = ino_ok s inum"
| "way_ok s parent inum (e # es) =
     (ino_ok s inum \<and>
      (i_type (dino s inum) = T_DIR \<longrightarrow> \<not> (parent \<and> es = []) \<longrightarrow>
        (case dir_map (fbytes s (dino s inum)) (take DIRSIZ e) of None \<Rightarrow> True | Some next \<Rightarrow> way_ok s parent next es)))"

lemma way_ok_ino: "way_ok s parent inum es \<Longrightarrow> ino_ok s inum" by (cases es) auto

lemma walk_fs: "same_fs s s' \<Longrightarrow> walk s' parent inum es = walk s parent inum es"
  by (induction es arbitrary: inum) (auto simp: block_path_fs split: option.split)

lemma way_ok_fs: "same_fs s s' \<Longrightarrow> way_ok s' parent inum es = way_ok s parent inum es"
  by (induction es arbitrary: inum) (auto simp: block_path_fs ino_ok_fs split: option.split)

text \<open>
  Between two steps the walk holds one reference, to slot \<open>ip\<close>; \<open>r\<close> counts those of everyone
  else, which leave two slots free.
\<close>

definition on_way :: "(nat \<Rightarrow> int) \<Rightarrow> nat \<Rightarrow> fsys \<Rightarrow> bool" where
  "on_way r ip s \<longleftrightarrow> reads s \<and> cache_ok s \<and> unlocked s \<and> ip < NINODE \<and> refs s = r(ip := r ip + 1)
     \<and> (\<forall>i. 0 \<le> r i) \<and> 2 \<le> card {i. i < NINODE \<and> r i = 0}"

lemma two_free:
  assumes "2 \<le> card {i. i < NINODE \<and> r i = (0 :: int)}"
  shows "\<exists>i<NINODE. i \<noteq> ip \<and> r i = 0"
proof (rule ccontr)
  assume "\<not> ?thesis"
  then have "{i. i < NINODE \<and> r i = 0} \<subseteq> {ip}" by auto
  then have "card {i. i < NINODE \<and> r i = 0} \<le> 1" using card_mono [of "{ip}"] by auto
  then show False using assms by simp
qed

text \<open>One step down: the next inode is taken while the directory is locked, then the directory let go.\<close>

lemma step_down:
  assumes w: "on_way r ip s" and k: "ino_ok s (i_inum (f_icache s ip))" and d: "i_type (dino s (i_inum (f_icache s ip))) = T_DIR"
  shows "\<exists>s1. ilock ip s = Inr s1 \<and> i_type (f_icache s1 ip) = T_DIR \<and>
    (case dir_map (fbytes s (dino s (i_inum (f_icache s ip)))) (dname name) of
       None \<Rightarrow> \<exists>s2 s3. dirlookup ip name s1 = Inr (None, s2) \<and> iunlockput ip s2 = Inr s3 \<and> same_fs s s3
         \<and> refs s3 = r \<and> reads s3 \<and> cache_ok s3 \<and> unlocked s3
     | Some inum \<Rightarrow> \<exists>nxt off s2 s3. dirlookup ip name s1 = Inr (Some (nxt, off), s2) \<and> iunlockput ip s2 = Inr s3
         \<and> same_fs s s3 \<and> on_way r nxt s3 \<and> i_inum (f_icache s3 nxt) = inum)"
proof -
  let ?inum = "i_inum (f_icache s ip)"
  have W: "reads s" "cache_ok s" "unlocked s" "ip < NINODE" "refs s = r(ip := r ip + 1)" "\<forall>i. 0 \<le> r i"
    "2 \<le> card {i. i < NINODE \<and> r i = 0}"
    using w by (simp_all add: on_way_def)
  have p: "0 < refs s ip" using W(5,6) by (metis add_pos_nonneg add.commute fun_upd_same zero_less_one)
  obtain s1 where s1: "ilock ip s = Inr s1" "reads s1" "same_fs s s1" "cache_ok s1" "locked_ino s1 ip" "refs s1 = refs s"
    "i_inum (f_icache s1 ip) = ?inum" "\<forall>j. j \<noteq> ip \<longrightarrow> f_icache s1 j = f_icache s j"
    using ilock_spec [OF W(2,3,1,4) p k] by blast
  note B = block_path_fs [OF s1(3)]
  have i1: "same_ino (f_icache s1 ip) (dino s1 ?inum)" "i_dev (f_icache s1 ip) = 1"
    using s1(5,7) by (simp_all add: locked_ino_def)
  have nl: "i_nlink (f_icache s1 ip) \<noteq> 0" "i_type (f_icache s1 ip) = T_DIR"
    using i1 k d by (simp_all add: same_ino_def B ino_ok_def)
  obtain nb where "dir_inode s ?inum nb" using k d by (auto simp: ino_ok_def)
  then have nb: "dir_inode s1 ?inum nb" using ino_ok_fs(1) [OF s1(3)] by simp
  note D = slot_dir_ok [OF s1(2) i1(2) s1(7) i1(1) _ nb]
  have x: "dir_ok s1 ip nb" "file_bytes s1 ip = fbytes s (dino s ?inum)" using D d by (simp_all add: B)
  let ?xs = "fbytes s (dino s ?inum)"
  obtain s2 where s2: "dir_ok s2 ip nb" "view s2 = view s1" "dirlookup ip name s1 =
      (case dir_index ?xs (dname name) of None \<Rightarrow> Inr (None, s2)
       | Some k \<Rightarrow> bind_res (iget 1 (ent_inum ?xs k) s2) (\<lambda>(ip, s). Inr (Some (ip, k * DIRENT), s)))"
    using dirlookup_spec [OF x(1), of name, unfolded x(2)] by blast
  have r2: "reads s2" using dir_okD(1) [OF s2(1)] .
  have f2: "same_fs s1 s2" "f_icache s2 = f_icache s1" using same_fs_view [OF s2(2)] view_eqD(2) [OF s2(2)] by auto
  have c2: "cache_ok s2" using s1(4) cache_ok_fs [OF f2] by simp
  have l2: "locked_ino s2 ip" using s1(5) f2 block_path_fs(6) [OF f2(1)] by (simp add: locked_ino_def same_fs_def)
  have ref2: "refs s2 = r(ip := r ip + 1)" using f2(2) s1(6) W(5) by (simp add: refs_def)
  have un: "\<not> sl_locked (i_lock (f_icache s2 j))" if "j \<noteq> ip" for j
    using that W(3) s1(8) f2(2) by (simp add: unlocked_def)
  have p2: "0 < refs s2 ip" "i_nlink (f_icache s2 ip) \<noteq> 0" using p s1(6) nl(1) f2(2) by (simp_all add: refs_def)
  note F = same_fs_trans [OF s1(3) f2(1)]
  show ?thesis
  proof (cases "dir_index ?xs (dname name)")
    case None
    obtain s3 where s3: "iunlockput ip s2 = Inr s3" "reads s3" "same_fs s2 s3" "cache_ok s3"
      "refs s3 = (refs s2)(ip := refs s2 ip - 1)" "\<not> sl_locked (i_lock (f_icache s3 ip))"
      "\<forall>j. j \<noteq> ip \<longrightarrow> f_icache s3 j = f_icache s2 j"
      using iunlockput_spec [OF c2 r2 W(4) p2(1) l2 p2(2)] by blast
    have "unlocked s3" unfolding unlocked_def by (metis s3(6,7) un)
    moreover have "refs s3 = r" using s3(5) ref2 by simp
    ultimately show ?thesis using s1(1) nl(2) s2(3) None s3 same_fs_trans [OF F s3(3)] by (auto simp: dir_map_def)
  next
    case (Some k)
    obtain fr where fr: "fr < NINODE" "fr \<noteq> ip" "r fr = 0" using two_free [OF W(7)] by blast
    then have "\<exists>i<NINODE. refs s2 i = 0" using ref2 by (intro exI [of _ fr]) simp
    from iget_spec [OF c2 this, of "ent_inum ?xs k"] obtain nxt jp where g:
      "iget 1 (ent_inum ?xs k) s2 = Inr (nxt, s2\<lparr>f_icache := (f_icache s2)(nxt := jp)\<rparr>)" "nxt < NINODE"
      "cache_ok (s2\<lparr>f_icache := (f_icache s2)(nxt := jp)\<rparr>)" "i_inum jp = ent_inum ?xs k" "i_ref jp = refs s2 nxt + 1"
      "i_lock jp = i_lock (f_icache s2 nxt)" "0 < refs s2 nxt \<longrightarrow> jp = (f_icache s2 nxt)\<lparr>i_ref := i_ref jp\<rparr>"
      by blast
    define s2' where "s2' = s2\<lparr>f_icache := (f_icache s2)(nxt := jp)\<rparr>"
    have e: "f_icache s2' ip = (f_icache s2 ip)\<lparr>i_ref := i_ref (f_icache s2' ip)\<rparr>"
      using g(7) p2(1) by (cases "ip = nxt") (auto simp: s2'_def)
    have l2': "locked_ino s2' ip"
      using l2 unfolding locked_ino_def by (subst (1 2 3 4 5) e) (simp add: s2'_def same_ino_def)
    have n2': "i_nlink (f_icache s2' ip) \<noteq> 0" using nl(1) f2(2) by (subst e) simp
    have ref2': "refs s2' = (refs s2)(nxt := refs s2 nxt + 1)" using g(5) by (auto simp: s2'_def refs_def fun_eq_iff)
    have p2': "0 < refs s2' ip" using p s1(6) f2(2) ref2' by (auto simp: refs_def)
    obtain s3 where s3: "iunlockput ip s2' = Inr s3" "reads s3" "same_fs s2' s3" "cache_ok s3"
      "refs s3 = (refs s2')(ip := refs s2' ip - 1)" "\<not> sl_locked (i_lock (f_icache s3 ip))"
      "\<forall>j. i_inum (f_icache s3 j) = i_inum (f_icache s2' j)" "\<forall>j. j \<noteq> ip \<longrightarrow> f_icache s3 j = f_icache s2' j"
      using iunlockput_spec [OF g(3) _ W(4) _ _ , folded s2'_def, OF _ p2' l2' n2'] r2 by (auto simp: s2'_def)
    have "\<not> sl_locked (i_lock (f_icache s3 j))" for j
    proof (cases "j = ip")
      case False
      then have "\<not> sl_locked (i_lock (f_icache s2' j))" using un [of j] g(6) by (cases "j = nxt") (simp_all add: s2'_def)
      then show ?thesis using s3(8) False by simp
    qed (use s3(6) in simp)
    then have "unlocked s3" by (simp add: unlocked_def)
    moreover have "refs s3 = r(nxt := r nxt + 1)" using s3(5) ref2' ref2 by (auto simp: fun_eq_iff)
    ultimately have "on_way r nxt s3" using s3(2,4) g(2) W(6,7) by (simp add: on_way_def)
    moreover have "i_inum (f_icache s3 nxt) = ent_inum ?xs k" using s3(7) g(4) by (simp add: s2'_def)
    moreover have "same_fs s s3" using same_fs_trans [OF F, of s2'] same_fs_trans [OF _ s3(3)] by (simp add: s2'_def)
    moreover have "dirlookup ip name s1 = Inr (Some (nxt, k * DIRENT), s2')" using s2(3) Some g(1) by (simp add: s2'_def)
    ultimately show ?thesis using s1(1) nl(2) s3(1) Some by (auto simp: dir_map_def)
  qed
qed


text \<open>What \<open>namex\<close> does with a path: \<open>target\<close> is the inode it should answer.\<close>

definition walked :: "(nat \<Rightarrow> int) \<Rightarrow> bool \<Rightarrow> u8 list list \<Rightarrow> u32 option \<Rightarrow> (nat \<times> mem) option \<Rightarrow> fsys \<Rightarrow> fsys \<Rightarrow> bool" where
  "walked r parent es target res s s' \<longleftrightarrow> same_fs s s' \<and> reads s' \<and> cache_ok s' \<and> unlocked s' \<and>
     (case target of
        None \<Rightarrow> res = None \<and> refs s' = r
      | Some inum \<Rightarrow> \<exists>ip name'. res = Some (ip, name') \<and> on_way r ip s' \<and> i_inum (f_icache s' ip) = inum
          \<and> (parent \<longrightarrow> dname name' = take DIRSIZ (last es)))"

lemma walked_fs: "same_fs s s1 \<Longrightarrow> walked r parent es target res s1 s' \<Longrightarrow> walked r parent es target res s s'"
  unfolding walked_def using same_fs_trans by blast

lemma on_wayD:
  assumes "on_way r ip s"
  shows "reads s" "cache_ok s" "unlocked s" "ip < NINODE" "refs s = r(ip := r ip + 1)" "\<forall>i. 0 \<le> r i"
    "2 \<le> card {i. i < NINODE \<and> r i = 0}" "0 < refs s ip"
proof -
  show w: "reads s" "cache_ok s" "unlocked s" "ip < NINODE" "refs s = r(ip := r ip + 1)" "\<forall>i. 0 \<le> r i"
    "2 \<le> card {i. i < NINODE \<and> r i = 0}" using assms by (simp_all add: on_way_def)
  show "0 < refs s ip" using w(5,6) by (metis add_pos_nonneg add.commute fun_upd_same zero_less_one)
qed

lemma cached_ino:
  assumes "on_way r ip s" and "ino_ok s (i_inum (f_icache s ip))" and "i_valid (f_icache s ip)"
  shows "i_nlink (f_icache s ip) \<noteq> 0"
  using on_wayD(2,4,8) [OF assms(1)] assms(2,3) by (auto simp: cache_ok_def refs_def same_ino_def ino_ok_def)

text \<open>The ends of a walk: a path without elements, an inode that is no directory, a parent.\<close>

lemma walk_end:
  assumes w: "on_way r ip s" and k: "ino_ok s (i_inum (f_icache s ip))" and p: "skipelem path name = None"
  shows "\<exists>res s'. namex_loop path parent name ip s = Inr (res, s')
    \<and> walked r parent [] (walk s parent (i_inum (f_icache s ip)) []) res s s'"
proof (cases parent)
  case True
  note W = on_wayD [OF w]
  have "\<not> sl_locked (i_lock (f_icache s ip))" using W(3) by (simp add: unlocked_def)
  from iput_spec [OF W(2,1,4,8) this cached_ino [OF w k]] obtain s1 where s1: "iput ip s = Inr s1" "reads s1" "same_fs s s1"
      "cache_ok s1" "refs s1 = (refs s)(ip := refs s ip - 1)" "\<not> sl_locked (i_lock (f_icache s1 ip))"
      "\<forall>j. j \<noteq> ip \<longrightarrow> f_icache s1 j = f_icache s j" by blast
  have "unlocked s1" using s1(6,7) W(3) unfolding unlocked_def by metis
  moreover have "refs s1 = r" using s1(5) W(5) by simp
  ultimately show ?thesis using True p s1 by (simp add: namex_loop.simps [of path] walked_def)
next
  case False
  then show ?thesis using on_wayD [OF w] w p by (simp add: namex_loop.simps [of path] walked_def)
qed

lemma walk_no_dir:
  assumes w: "on_way r ip s" and k: "ino_ok s (i_inum (f_icache s ip))" and t: "i_type (dino s (i_inum (f_icache s ip))) \<noteq> T_DIR"
    and p: "skipelem path name = Some (path', name')"
  shows "\<exists>s'. namex_loop path parent name ip s = Inr (None, s') \<and> walked r parent es None None s s'"
proof -
  note W = on_wayD [OF w]
  obtain s1 where s1: "ilock ip s = Inr s1" "reads s1" "same_fs s s1" "cache_ok s1" "locked_ino s1 ip" "refs s1 = refs s"
    "i_inum (f_icache s1 ip) = i_inum (f_icache s ip)" "\<forall>j. j \<noteq> ip \<longrightarrow> f_icache s1 j = f_icache s j"
    using ilock_spec [OF W(2,3,1,4,8) k] by blast
  have i: "same_ino (f_icache s1 ip) (dino s (i_inum (f_icache s ip)))"
    using s1(5,7) block_path_fs(6) [OF s1(3)] by (simp add: locked_ino_def)
  have nl: "i_nlink (f_icache s1 ip) \<noteq> 0" "i_type (f_icache s1 ip) \<noteq> T_DIR"
    using i k t by (simp_all add: same_ino_def ino_ok_def)
  have p1: "0 < refs s1 ip" using W(8) s1(6) by simp
  from iunlockput_spec [OF s1(4,2) W(4) p1 s1(5) nl(1)] obtain s2 where s2: "iunlockput ip s1 = Inr s2" "reads s2"
      "same_fs s1 s2" "cache_ok s2" "refs s2 = (refs s1)(ip := refs s1 ip - 1)" "\<not> sl_locked (i_lock (f_icache s2 ip))"
      "\<forall>j. j \<noteq> ip \<longrightarrow> f_icache s2 j = f_icache s1 j" by blast
  have "unlocked s2" using s2(6,7) s1(8) W(3) unfolding unlocked_def by metis
  moreover have "refs s2 = r" using s2(5) s1(6) W(5) by simp
  ultimately show ?thesis using p s1(1) nl(2) s2 same_fs_trans [OF s1(3) s2(3)]
    by (simp add: namex_loop.simps [of path] walked_def)
qed

lemma walk_parent:
  assumes w: "on_way r ip s" and k: "ino_ok s (i_inum (f_icache s ip))" and t: "i_type (dino s (i_inum (f_icache s ip))) = T_DIR"
    and p: "skipelem path name = Some ([], name')"
  shows "\<exists>s'. namex_loop path True name ip s = Inr (Some (ip, name'), s') \<and> same_fs s s' \<and> on_way r ip s'
    \<and> i_inum (f_icache s' ip) = i_inum (f_icache s ip)"
proof -
  note W = on_wayD [OF w]
  obtain s1 where s1: "ilock ip s = Inr s1" "reads s1" "same_fs s s1" "cache_ok s1" "locked_ino s1 ip" "refs s1 = refs s"
    "i_inum (f_icache s1 ip) = i_inum (f_icache s ip)" "\<forall>j. j \<noteq> ip \<longrightarrow> f_icache s1 j = f_icache s j"
    using ilock_spec [OF W(2,3,1,4,8) k] by blast
  have ty: "i_type (f_icache s1 ip) = T_DIR"
    using s1(5,7) t block_path_fs(6) [OF s1(3)] by (simp add: locked_ino_def same_ino_def)
  have p1: "0 < refs s1 ip" using W(8) s1(6) by simp
  obtain s2 where s2: "iunlock ip s1 = Inr s2" "reads s2" "same_fs s1 s2" "cache_ok s2" "refs s2 = refs s1"
      "\<not> sl_locked (i_lock (f_icache s2 ip))" "\<forall>j. i_inum (f_icache s2 j) = i_inum (f_icache s1 j)"
      "\<forall>j. j \<noteq> ip \<longrightarrow> f_icache s2 j = f_icache s1 j"
    using iunlock_spec [OF s1(4,2) W(4) p1 s1(5)] by blast
  have "unlocked s2" using s2(6,8) s1(8) W(3) unfolding unlocked_def by metis
  then have "on_way r ip s2" using s2(2,4,5) s1(6) W by (simp add: on_way_def)
  then show ?thesis using p s1(1,7) ty s2 same_fs_trans [OF s1(3) s2(3)]
    by (simp add: namex_loop.simps [of path])
qed

lemma namex_loop_spec:
  assumes "on_way r ip s" and "0 \<notin> set path" and "way_ok s parent (i_inum (f_icache s ip)) (elems path)"
  shows "\<exists>res s'. namex_loop path parent name ip s = Inr (res, s')
    \<and> walked r parent (elems path) (walk s parent (i_inum (f_icache s ip)) (elems path)) res s s'"
  using assms
proof (induction "elems path" arbitrary: path name ip s)
  case Nil
  have k: "ino_ok s (i_inum (f_icache s ip))" using way_ok_ino [OF Nil.prems(3)] .
  show ?case using walk_end [OF Nil.prems(1) k, of path name parent] Nil.hyps skipelem_None [of path name] by simp
next
  case (Cons e es)
  note w = Cons.prems(1) and e = Cons.hyps(2) [symmetric]
  let ?inum = "i_inum (f_icache s ip)"
  have k: "ino_ok s ?inum" using way_ok_ino [OF Cons.prems(3)] .
  obtain path' name' where p: "skipelem path name = Some (path', name')"
    using skipelem_None [of path name] e by (cases "skipelem path name") auto
  have q: "elems path' = es" "dname name' = take DIRSIZ e" "path' = [] \<longleftrightarrow> es = []" "0 \<notin> set path'"
    using skipelem_Some [OF p Cons.prems(2)] e by auto
  consider "i_type (dino s ?inum) \<noteq> T_DIR" | "i_type (dino s ?inum) = T_DIR" "parent \<and> es = []"
    | "i_type (dino s ?inum) = T_DIR" "\<not> (parent \<and> es = [])" by blast
  then show ?case
  proof cases
    case 1
    obtain s' where "namex_loop path parent name ip s = Inr (None, s')" "walked r parent (e # es) None None s s'"
      using walk_no_dir [OF w k 1 p] by blast
    then show ?thesis using 1 by (simp add: e)
  next
    case 2
    then obtain s' where "namex_loop path True name ip s = Inr (Some (ip, name'), s')" "same_fs s s'" "on_way r ip s'"
      "i_inum (f_icache s' ip) = ?inum"
      using walk_parent [OF w k 2(1), of path name name'] p q(3) by blast
    then show ?thesis using 2 q(2) on_wayD [of r ip s'] by (auto simp: e walked_def)
  next
    case 3
    obtain s1 where s1: "ilock ip s = Inr s1" "i_type (f_icache s1 ip) = T_DIR" and d:
      "case dir_map (fbytes s (dino s ?inum)) (dname name') of
       None \<Rightarrow> \<exists>s2 s3. dirlookup ip name' s1 = Inr (None, s2) \<and> iunlockput ip s2 = Inr s3 \<and> same_fs s s3
         \<and> refs s3 = r \<and> reads s3 \<and> cache_ok s3 \<and> unlocked s3
     | Some inum \<Rightarrow> \<exists>nxt off s2 s3. dirlookup ip name' s1 = Inr (Some (nxt, off), s2) \<and> iunlockput ip s2 = Inr s3
         \<and> same_fs s s3 \<and> on_way r nxt s3 \<and> i_inum (f_icache s3 nxt) = inum"
      using step_down [OF w k 3(1), of name'] by blast
    note step = namex_loop.simps [of path parent name ip s]
    have np: "\<not> (parent \<and> path' = [])" using 3(2) q(3) by blast
    show ?thesis
    proof (cases "dir_map (fbytes s (dino s ?inum)) (dname name')")
      case None
      then obtain s2 s3 where "dirlookup ip name' s1 = Inr (None, s2)" "iunlockput ip s2 = Inr s3" "same_fs s s3"
        "refs s3 = r" "reads s3" "cache_ok s3" "unlocked s3" using d by auto
      then show ?thesis using 3 None q(2) s1 np by (auto simp: step p e walked_def)
    next
      case (Some inum)
      then obtain nxt off s2 s3 where s3: "dirlookup ip name' s1 = Inr (Some (nxt, off), s2)" "iunlockput ip s2 = Inr s3"
        "same_fs s s3" "on_way r nxt s3" "i_inum (f_icache s3 nxt) = inum" using d by auto
      have wy: "way_ok s3 parent (i_inum (f_icache s3 nxt)) (elems path')"
        using Cons.prems(3) 3 Some q(1,2) s3(5) way_ok_fs [OF s3(3)] by (simp add: e)
      obtain res s' where r: "namex_loop path' parent name' nxt s3 = Inr (res, s')"
        "walked r parent es (walk s3 parent inum es) res s3 s'"
        using Cons.hyps(1) [OF q(1) [symmetric] s3(4) q(4) wy, of name'] q(1) s3(5) by auto
      have "namex_loop path parent name ip s = Inr (res, s')"
        using s1 s3 np r(1) by (auto simp: step p)
      moreover have "walk s parent ?inum (e # es) = walk s3 parent inum es"
        using 3 Some q(2) walk_fs [OF s3(3)] by simp
      moreover have "walked r parent (e # es) (walk s3 parent inum es) res s s'"
        using walked_fs [OF s3(3) r(2)] 3(2) by (auto simp: walked_def split: option.splits)
      ultimately show ?thesis by (simp add: e)
    qed
  qed
qed


text \<open>A state in which a path can be followed: \<open>cwd\<close> is the directory of the process.\<close>

definition paths_ok :: "nat \<Rightarrow> fsys \<Rightarrow> bool" where
  "paths_ok cwd s \<longleftrightarrow> reads s \<and> cache_ok s \<and> unlocked s \<and> (\<forall>i. 0 \<le> refs s i)
     \<and> 2 \<le> card {i. i < NINODE \<and> refs s i = 0} \<and> cwd < NINODE \<and> 0 < refs s cwd"

definition start_inum :: "nat \<Rightarrow> u8 list \<Rightarrow> fsys \<Rightarrow> u32" where
  "start_inum cwd path s = (if path \<noteq> [] \<and> hd path = slash then ROOTINO else i_inum (f_icache s cwd))"

lemma namex_spec:
  assumes p: "paths_ok cwd s" and z: "0 \<notin> set path" and y: "way_ok s parent (start_inum cwd path s) (elems path)"
  shows "\<exists>res s'. namex cwd path parent name s = Inr (res, s')
    \<and> walked (refs s) parent (elems path) (walk s parent (start_inum cwd path s) (elems path)) res s s'"
proof -
  have P: "reads s" "cache_ok s" "unlocked s" "\<forall>i. 0 \<le> refs s i" "2 \<le> card {i. i < NINODE \<and> refs s i = 0}"
    "cwd < NINODE" "0 < refs s cwd" using p by (simp_all add: paths_ok_def)
  obtain ip jp where g: "(if path \<noteq> [] \<and> hd path = slash then iget ROOTDEV ROOTINO s else Inr (idup cwd s)) =
      Inr (ip, s\<lparr>f_icache := (f_icache s)(ip := jp)\<rparr>)" "on_way (refs s) ip (s\<lparr>f_icache := (f_icache s)(ip := jp)\<rparr>)"
      "i_inum jp = start_inum cwd path s"
  proof (cases "path \<noteq> [] \<and> hd path = slash")
    case True
    obtain i where "i < NINODE" "refs s i = 0" using two_free [OF P(5)] by blast
    then have "\<exists>i<NINODE. refs s i = 0" by blast
    from iget_spec [OF P(2) this, of ROOTINO] obtain i ip where
      i: "iget 1 ROOTINO s = Inr (i, s\<lparr>f_icache := (f_icache s)(i := ip)\<rparr>)" "i < NINODE"
      "cache_ok (s\<lparr>f_icache := (f_icache s)(i := ip)\<rparr>)" "i_inum ip = ROOTINO" "i_ref ip = refs s i + 1"
      "i_lock ip = i_lock (f_icache s i)" by blast
    then have "on_way (refs s) i (s\<lparr>f_icache := (f_icache s)(i := ip)\<rparr>)"
      using P by (auto simp: on_way_def unlocked_def refs_def fun_eq_iff)
    then show ?thesis using True i by (intro that [of i ip]) (simp_all add: start_inum_def ROOTDEV_def)
  next
    case False
    let ?jp = "(f_icache s cwd)\<lparr>i_ref := i_ref (f_icache s cwd) + 1\<rparr>"
    have "cache_ok (s\<lparr>f_icache := (f_icache s)(cwd := ?jp)\<rparr>)"
      using P(2,7) by (auto simp: cache_ok_def refs_def same_ino_def)
    then have "on_way (refs s) cwd (s\<lparr>f_icache := (f_icache s)(cwd := ?jp)\<rparr>)"
      using P by (auto simp: on_way_def unlocked_def refs_def fun_eq_iff)
    then show ?thesis using False by (intro that [of cwd ?jp]) (auto simp: start_inum_def idup_def)
  qed
  let ?s = "s\<lparr>f_icache := (f_icache s)(ip := jp)\<rparr>"
  have fs: "same_fs s ?s" by simp
  have "way_ok ?s parent (i_inum (f_icache ?s ip)) (elems path)" using y g(3) way_ok_fs [OF fs] by simp
  from namex_loop_spec [OF g(2) z this, of name] obtain res s' where
    r: "namex_loop path parent name ip ?s = Inr (res, s')"
      "walked (refs s) parent (elems path) (walk ?s parent (i_inum (f_icache ?s ip)) (elems path)) res ?s s'" by blast
  have "namex cwd path parent name s = Inr (res, s')"
    using g(1) r(1) by (auto simp: namex_def idup_def split: if_splits)
  moreover have "walk ?s parent (i_inum (f_icache ?s ip)) (elems path) = walk s parent (start_inum cwd path s) (elems path)"
    using g(3) walk_fs [OF fs] by simp
  ultimately show ?thesis using walked_fs [OF fs r(2)] by auto
qed

end
