(* ===== verification/Dir_Correct.thy ===== *)
theory Dir_Correct
  imports Path_Ok Inode_Correct
begin

text \<open>
  The properties of directories and paths, applied to a small disk: the root directory (inode 1,
  block 35) holds the names \<open>.\<close>, \<open>..\<close> and \<open>a\<close>, the directory \<open>a\<close> (inode 2, block 36) its own two.
\<close>

definition tree_root :: inode where "tree_root = demo_root\<lparr>i_lock := initsleeplock, i_size := 48\<rparr>"

definition tree_sub :: inode where "tree_sub = demo_root\<lparr>i_inum := 2, i_addrs := (\<lambda>_. 0)(0 := 36)\<rparr>"

definition tree_disk :: "u32 \<Rightarrow> mem" where
  "tree_disk = demo_disk(32 := put_dinode tree_root 64 (put_dinode tree_sub 128 (\<lambda>_. 0)),
     35 := demo_dir(32 := 2, 34 := 97), 36 := demo_dir(0 := 2))"

definition tree_fs :: fsys where
  "tree_fs = (boot tree_disk (demo_base\<lparr>f_icache := \<lambda>i. if i = 0 then tree_root
     else tree_root\<lparr>i_ref := 0, i_valid := False\<rparr>\<rparr>))\<lparr>f_log := demo_log 0\<rparr>"

lemma tree_fs_sel [simp]:
  "f_sb tree_fs = get_sb demo_sb" "f_icache tree_fs = (\<lambda>i. if i = 0 then tree_root else tree_root\<lparr>i_ref := 0, i_valid := False\<rparr>)"
  "f_disksize tree_fs = 1000" "f_log tree_fs = demo_log 0" "cont tree_fs = tree_disk" "reads tree_fs"
proof -
  have "v_held (view tree_fs) = {}" using boot_held by (simp add: view_def tree_fs_def)
  then show "reads tree_fs" by (simp add: reads_def tree_fs_def boot_ok NBUF_def)
qed (simp_all add: tree_fs_def boot_ok demo_base_def)

lemma tree_IBLOCK: "IBLOCK 1 (get_sb demo_sb) = 32" "IBLOCK 2 (get_sb demo_sb) = 32"
  "dinode_off 1 = 64" "dinode_off 2 = 128"
  by (simp_all add: IBLOCK_def IPB_def dinode_off_def)

lemma tree_dino:
  "dino tree_fs 1 = blank\<lparr>i_type := 1, i_nlink := 1, i_size := 48, i_addrs := (\<lambda>_. 0)(0 := 35)\<rparr>"
  "dino tree_fs 2 = blank\<lparr>i_type := 1, i_nlink := 1, i_size := 32, i_addrs := (\<lambda>_. 0)(0 := 36)\<rparr>"
proof -
  have "get_dinode 128 (put_dinode tree_root 64 (put_dinode tree_sub 128 (\<lambda>_. 0))) blank
      = get_dinode 128 (put_dinode tree_sub 128 (\<lambda>_. 0)) blank"
    by (rule get_dinode_cong) (simp add: put_dinode_out)
  then show "dino tree_fs 1 = blank\<lparr>i_type := 1, i_nlink := 1, i_size := 48, i_addrs := (\<lambda>_. 0)(0 := 35)\<rparr>"
    "dino tree_fs 2 = blank\<lparr>i_type := 1, i_nlink := 1, i_size := 32, i_addrs := (\<lambda>_. 0)(0 := 36)\<rparr>"
    by (simp_all add: dino_def tree_IBLOCK tree_disk_def get_put_dinode tree_root_def tree_sub_def demo_root_def blank_def
        fun_eq_iff)
qed

lemma tree_path [simp]: "block_path s (blank\<lparr>i_type := t, i_nlink := n, i_size := z, i_addrs := (\<lambda>_. 0)(0 := b)\<rparr>) 0 = [b]"
  by (simp add: block_path_def NDIRECT_def)

lemma tree_ino_ok: "ino_ok tree_fs 1" "ino_ok tree_fs 2"
proof -
  have "dir_inode tree_fs 1 1" "dir_inode tree_fs 2 1"
    by (simp_all add: dir_inode_def Let_def tree_dino tree_IBLOCK data_ok_def mapped_def block_addr_def data_blocks_def
        inode_home_def demo_area NDIRECT_def NINDIRECT_def BSIZE_def DIRENT_def lessThan_Suc word_less_nat_alt word_le_nat_alt)
  then show "ino_ok tree_fs 1" "ino_ok tree_fs 2"
    by (auto simp: ino_ok_def tree_dino tree_IBLOCK word_less_nat_alt)
qed

lemma tree_bytes: "fbytes tree_fs (dino tree_fs 1) =
    [1, 0, 46, 0, 0, 0, 0, 0, 0, 0, 0, 0, 0, 0, 0, 0, 1, 0, 46, 46, 0, 0, 0, 0, 0, 0, 0, 0, 0, 0, 0, 0,
     2, 0, 97, 0, 0, 0, 0, 0, 0, 0, 0, 0, 0, 0, 0, 0]"
  by (simp add: fbytes_def tree_dino file_byte_def block_addr_def BSIZE_def tree_disk_def demo_dir_def upt_rec)

lemma tree_map: "dir_map (fbytes tree_fs (dino tree_fs 1)) [97] = Some 2"
  unfolding tree_bytes by code_simp

text \<open>
  C17: namex refines following a path through the maps of the directories: on a tree of
  well-formed directories the inode it answers is the one that the names between the slashes
  lead to from the root or the working directory (the last but one with nameiparent, with
  the last name stored), or none exactly when a name is missing or an inode on the way is no
  directory; the content of files is unchanged and the references of the inode cache are
  those before and the one answered.
\<close>

theorem namex_follows_path:
  assumes "paths_ok cwd s" and "0 \<notin> set path" and "way_ok s parent (start_inum cwd path s) (elems path)"
  shows "\<exists>res s'. namex cwd path parent name s = Inr (res, s') \<and> same_fs s s' \<and>
    (case walk s parent (start_inum cwd path s) (elems path) of
       None \<Rightarrow> res = None \<and> refs s' = refs s
     | Some inum \<Rightarrow> \<exists>ip n. res = Some (ip, n) \<and> i_inum (f_icache s' ip) = inum \<and> refs s' = (refs s)(ip := refs s ip + 1)
         \<and> (parent \<longrightarrow> dname n = take DIRSIZ (last (elems path))))"
  using namex_spec [OF assms, of name]
  by (fastforce simp: walked_def on_way_def split: option.splits)

lemma tree_paths_ok: "paths_ok 0 tree_fs"
proof -
  have "cache_ok tree_fs"
    by (simp add: cache_ok_def same_ino_def tree_dino tree_root_def demo_root_def)
  moreover have "unlocked tree_fs" by (simp add: unlocked_def tree_root_def initsleeplock_def)
  moreover have r: "refs tree_fs = (\<lambda>i. if i = 0 then 1 else 0)"
    by (simp add: refs_def fun_eq_iff tree_root_def demo_root_def)
  moreover have "{i. i < NINODE \<and> refs tree_fs i = 0} = {1..<NINODE}" by (auto simp: r)
  ultimately show ?thesis by (simp add: paths_ok_def NINODE_def)
qed

theorem namex_follows_path_witness:
  "\<exists>ip n s'. namex 0 [47, 97] False (\<lambda>_. 0) tree_fs = Inr (Some (ip, n), s') \<and> i_inum (f_icache s' ip) = 2"
proof -
  have e: "elems [47, 97] = [[97]]" by (simp add: elems_def slash_def)
  have st: "start_inum 0 [47, 97] tree_fs = 1" by (simp add: start_inum_def slash_def ROOTINO_def)
  have t: "take DIRSIZ [97 :: u8] = [97]" by (simp add: DIRSIZ_def)
  have w: "walk tree_fs False 1 [[97]] = Some 2" "way_ok tree_fs False 1 [[97]]"
    by (simp_all add: t tree_map tree_ino_ok) (simp add: tree_dino T_DIR_def)
  show ?thesis using namex_follows_path [OF tree_paths_ok, of "[47, 97]" False "\<lambda>_. 0"] w by (auto simp: e st)
qed



end
