(* ===== verification/Proc_Ok.thy ===== *)
theory Proc_Ok
  imports Thread
begin

text \<open>
  Process and thread numbers: every operation of proc.c and of the scheduler keeps a pair of pid and
  tid in at most one slot, and every pid below the next one to be handed out.
\<close>

subsection \<open>What a routine always establishes\<close>

text \<open>\<open>always P r\<close>: if the routine returns, its result satisfies \<open>P\<close>.\<close>

definition always :: "('a \<Rightarrow> bool) \<Rightarrow> 'a res \<Rightarrow> bool" where
  "always P r = (case r of Inl _ \<Rightarrow> True | Inr x \<Rightarrow> P x)"

lemma always_simps [simp]:
  "always P (Inl e)" "always P (Inr x) = P x" "always P (bind_res r f) = always (\<lambda>x. always P (f x)) r"
  "always P (deref w p) = (\<forall>x. p = Some x \<longrightarrow> P x)"
  by (auto simp: always_def bind_res_def deref_def split: sum.split option.split)

lemma alwaysD: "always P r \<Longrightarrow> r = Inr x \<Longrightarrow> P x" by simp

lemma always_mono: "always P r \<Longrightarrow> (\<And>x. P x \<Longrightarrow> Q x) \<Longrightarrow> always Q r"
  by (auto simp: always_def split: sum.split)

lemma always_any: "(\<And>x. P x) \<Longrightarrow> always P r"
  by (auto simp: always_def split: sum.split)

lemma always_for_each:
  assumes "I s" "\<And>x s. x \<in> set xs \<Longrightarrow> I s \<Longrightarrow> always I (f x s)"
  shows "always I (for_each f xs s)"
  using assms by (induction xs arbitrary: s) (auto intro: always_mono)


subsection \<open>Process and thread numbers\<close>

named_theorems keeps "operations that keep the pid and tid of every slot"

definition ids :: "kst \<Rightarrow> nat \<Rightarrow> int \<times> int" where
  "ids s = (\<lambda>i. (p_pid (ptable s i), p_tid (ptable s i)))"

definition ids_ok :: "kst \<Rightarrow> bool" where
  "ids_ok s \<longleftrightarrow> 0 < nextpid s \<and> (\<forall>i<NPROC. p_pid (ptable s i) < nextpid s)
     \<and> (\<forall>i<NPROC. \<forall>j<NPROC. p_pid (ptable s i) \<noteq> 0 \<longrightarrow> ids s i = ids s j \<longrightarrow> i = j)"

definition same_ids :: "kst \<Rightarrow> kst \<Rightarrow> bool" where
  "same_ids s s' \<longleftrightarrow> ids s' = ids s \<and> nextpid s' = nextpid s"

lemma same_ids_refl [keeps]: "same_ids s s" by (simp add: same_ids_def)

lemma same_ids_trans: "same_ids s s' \<Longrightarrow> same_ids s' s'' \<Longrightarrow> same_ids s s''" by (simp add: same_ids_def)

lemma same_idsD: "same_ids s s' \<Longrightarrow> p_pid (ptable s' i) = p_pid (ptable s i)" "same_ids s s' \<Longrightarrow> p_tid (ptable s' i) = p_tid (ptable s i)"
  by (auto simp: same_ids_def ids_def fun_eq_iff)

lemma same_ids_iff: "same_ids s s' \<longleftrightarrow> nextpid s' = nextpid s \<and>
    (\<forall>i. p_pid (ptable s' i) = p_pid (ptable s i) \<and> p_tid (ptable s' i) = p_tid (ptable s i))"
  by (auto simp: same_ids_def ids_def fun_eq_iff)

lemma ids_ok_same: "same_ids s s' \<Longrightarrow> ids_ok s \<Longrightarrow> ids_ok s'"
  by (simp add: ids_ok_def ids_def same_ids_iff)

text \<open>What a new number does: it goes to one slot and is the largest.\<close>

lemma ids_ok_fresh:
  assumes "ids_ok s" "ids s' = (ids s)(i := (nextpid s, t))" "nextpid s' = nextpid s + 1"
  shows "ids_ok s'"
proof -
  have e: "(p_pid (ptable s' j), p_tid (ptable s' j)) = (if j = i then (nextpid s, t) else (p_pid (ptable s j), p_tid (ptable s j)))" for j
    using fun_cong [OF assms(2), of j] by (simp add: ids_def)
  have p: "p_pid (ptable s' j) = (if j = i then nextpid s else p_pid (ptable s j))"
    "p_tid (ptable s' j) = (if j = i then t else p_tid (ptable s j))" for j
    using e [of j] by (simp_all split: if_splits)
  have lt: "p_pid (ptable s j) < nextpid s" if "j < NPROC" for j using assms(1) that by (simp add: ids_ok_def)
  have un: "j = k" if "j < NPROC" "k < NPROC" "p_pid (ptable s j) \<noteq> 0" "ids s j = ids s k" for j k
    using assms(1) that by (simp add: ids_ok_def)
  show ?thesis unfolding ids_ok_def
  proof (intro conjI allI impI)
    show "0 < nextpid s'" using assms(1,3) by (simp add: ids_ok_def)
    show "p_pid (ptable s' j) < nextpid s'" if "j < NPROC" for j using lt [OF that] p assms(3) by simp
    fix j k assume jk: "j < NPROC" "k < NPROC" "p_pid (ptable s' j) \<noteq> 0" "ids s' j = ids s' k"
    show "j = k"
      using jk p [of j] p [of k] lt [OF jk(1)] lt [OF jk(2)] un [OF jk(1,2)] by (auto simp: ids_def split: if_splits)
  qed
qed

text \<open>What freeing a slot does.\<close>

lemma ids_ok_free:
  assumes "ids_ok s" "ids s' = (ids s)(i := (0, 0))" "nextpid s' = nextpid s"
  shows "ids_ok s'"
proof -
  have e: "(p_pid (ptable s' j), p_tid (ptable s' j)) = (if j = i then (0, 0) else (p_pid (ptable s j), p_tid (ptable s j)))" for j
    using fun_cong [OF assms(2), of j] by (simp add: ids_def)
  have p: "p_pid (ptable s' j) = (if j = i then 0 else p_pid (ptable s j))"
    "p_tid (ptable s' j) = (if j = i then 0 else p_tid (ptable s j))" for j
    using e [of j] by (simp_all split: if_splits)
  then show ?thesis using assms(1,3) by (auto simp: ids_ok_def ids_def split: if_splits)
qed


subsection \<open>Operations that keep the numbers\<close>

lemma same_ids_procs [keeps]: "(\<And>p. p_pid (f p) = p_pid p) \<Longrightarrow> (\<And>p. p_tid (f p) = p_tid p) \<Longrightarrow> same_ids s (upd_procs c f s)"
  by (simp add: same_ids_iff)

lemma same_ids_proc [keeps]: "p_pid (f (ptable s i)) = p_pid (ptable s i) \<Longrightarrow> p_tid (f (ptable s i)) = p_tid (ptable s i) \<Longrightarrow>
    same_ids s (upd_proc i f s)"
  by (simp add: same_ids_iff)

lemma same_ids_tables [simp]: "same_ids s (s'\<lparr>s_table := t\<rparr>) = same_ids s s'" "same_ids s (s'\<lparr>m_table := m\<rparr>) = same_ids s s'"
  "same_ids s (s'\<lparr>schedticks := k\<rparr>) = same_ids s s'" "same_ids s (s'\<lparr>initproc := i\<rparr>) = same_ids s s'"
  "same_ids (s\<lparr>s_table := t\<rparr>) s' = same_ids s s'" "same_ids (s\<lparr>m_table := m\<rparr>) s' = same_ids s s'"
  "same_ids (s\<lparr>schedticks := k\<rparr>) s' = same_ids s s'"
  by (simp_all add: same_ids_iff)

lemma same_ids_fold:
  assumes "\<And>x s. x \<in> set xs \<Longrightarrow> same_ids s (f x s)"
  shows "same_ids s (fold f xs s)"
  using assms by (induction xs arbitrary: s) (auto intro: same_ids_refl same_ids_trans)

lemma same_ids_wakeup [keeps]: "same_ids s (wakeup1 c s)" "same_ids s (wakeup d s)"
  by (simp_all add: wakeup_def wakeup1_def same_ids_procs)

lemma same_ids_push [keeps]: "same_ids s (snd (push_mlfq pid q s))"
  by (auto simp: push_mlfq_def Let_def same_ids_iff split: option.split)

lemma same_ids_pop [keeps]: "same_ids s (snd (pop_mlfq pid s))"
  by (auto simp: pop_mlfq_def unlink_procs_def Let_def same_ids_iff split: option.split prod.split)

lemma same_ids_move [keeps]: "same_ids s (snd (move_prior pid q s))"
proof -
  obtain r s' where p: "pop_mlfq pid s = (r, s')" by fastforce
  have "same_ids s s'" using same_ids_pop [of s pid] p by simp
  then show ?thesis using p same_ids_push [of s' pid q] same_ids_trans by (auto simp: move_prior_def)
qed

lemma same_ids_boost [keeps]: "same_ids s (prior_boost s)"
proof -
  have n: "same_ids s (boost_node q i s)" for q i s by (simp add: boost_node_def same_ids_move same_ids_refl)
  have "same_ids s (boost_queue q s)" for q s by (simp add: boost_queue_def same_ids_refl same_ids_fold n)
  then show ?thesis by (simp add: prior_boost_def same_ids_fold)
qed

lemma same_ids_pass [keeps]: "always (same_ids s) (add_pass_stride me s)"
  by (simp add: add_pass_stride_def Let_def same_ids_refl)

lemma same_ids_tick [keeps]: "always (\<lambda>(b, s'). same_ids s s') (add_tick me s)"
proof -
  have m: "same_ids s x \<Longrightarrow> same_ids s (snd (move_prior pid q x))" "same_ids s x \<Longrightarrow> same_ids s (prior_boost x)"
    for pid q x using same_ids_trans same_ids_move same_ids_boost by blast+
  show ?thesis unfolding add_tick_def always_simps Let_def
    by (rule always_mono [OF same_ids_pass]) (auto simp: m split: prod.split)
qed

lemma same_ids_lwp [keeps]: "always (\<lambda>(r, s'). same_ids s s') (pick_lwp pid s)"
  by (auto simp: pick_lwp_def Let_def same_ids_refl same_ids_proc split: option.split)

lemma same_ids_queue: "always (\<lambda>(r, s'). same_ids s s') (pick_queue qs s)"
proof (induction qs s rule: pick_queue.induct)
  case (2 q qs s)
  have "always (\<lambda>(r, s'). same_ids s s') (pick_lwp pid (upd_fq q f s))" for pid f
    by (rule always_mono [OF same_ids_lwp]) auto
  then show ?case using 2 by (auto simp: Let_def split: option.split)
qed (simp add: same_ids_refl)

lemma same_ids_pick [keeps]: "always (\<lambda>(r, s'). same_ids s s') (pick_stride s)"
proof -
  have l: "same_ids s x \<Longrightarrow> always (\<lambda>(r, s'). same_ids s s') (pick_lwp pid x)" for x pid
    by (rule always_mono [OF same_ids_lwp]) (auto intro: same_ids_trans)
  show ?thesis unfolding pick_stride_def pick_mlfq_def Let_def
    by (auto simp: l same_ids_refl intro!: always_mono [OF same_ids_queue] split: option.split)
qed

lemma same_ids_cand [keeps]: "always (\<lambda>(r, s'). same_ids s s') (sched_cand c s)"
  unfolding sched_cand_def
  by (auto simp: switchuvm_def same_ids_iff intro!: always_mono [OF same_ids_pick] split: option.split)

lemma same_ids_share [keeps]: "always (\<lambda>(r, s'). same_ids s s') (set_cpu_share me k s)"
proof -
  have "same_ids s (upd_procs c f (snd (pop_mlfq pid s)\<lparr>s_table := t\<rparr>))"
    if "\<And>p. p_pid (f p) = p_pid p" "\<And>p. p_tid (f p) = p_tid p" for c f pid t
    by (rule same_ids_trans [OF same_ids_pop [of s pid]], rule same_ids_trans [OF _ same_ids_procs [OF that]])
      (simp add: same_ids_refl)
  then show ?thesis by (auto simp: set_cpu_share_def Let_def same_ids_refl split: option.split)
qed


subsection \<open>Operations of proc.c that keep the numbers\<close>

text \<open>The rules take the numbers of a fixed earlier state \<open>s\<close> along and go on with any \<open>P\<close>.\<close>

lemma keep_on_p [simp]: "n_p (on_p g n) = g (n_p n)" by (simp add: on_p_def)

lemma keep_slot [simp]:
  assumes "p_pid q = p_pid (ptable x i)" "p_tid q = p_tid (ptable x i)"
  shows "same_ids s (x\<lparr>ptable := (ptable x)(i := q)\<rparr>) = same_ids s x"
proof -
  have "same_ids x (x\<lparr>ptable := (ptable x)(i := q)\<rparr>)" using assms by (simp add: same_ids_iff)
  then show ?thesis by (auto simp: same_ids_def)
qed

lemma keep_slots [simp]:
  assumes "p_pid q = p_pid (ptable x i)" "p_tid q = p_tid (ptable x i)"
  shows "same_ids s (x\<lparr>m_table := m, ptable := (ptable x)(i := q)\<rparr>) = same_ids s x"
    "i \<noteq> j \<Longrightarrow> p_pid r = p_pid (ptable x j) \<Longrightarrow> p_tid r = p_tid (ptable x j) \<Longrightarrow>
      same_ids s (x\<lparr>ptable := (ptable x)(i := q, j := r)\<rparr>) = same_ids s x"
proof -
  have "same_ids x (x\<lparr>m_table := m, ptable := (ptable x)(i := q)\<rparr>)" using assms by (simp add: same_ids_iff)
  then show "same_ids s (x\<lparr>m_table := m, ptable := (ptable x)(i := q)\<rparr>) = same_ids s x" by (auto simp: same_ids_def)
  assume "i \<noteq> j" "p_pid r = p_pid (ptable x j)" "p_tid r = p_tid (ptable x j)"
  then have "same_ids x (x\<lparr>ptable := (ptable x)(i := q, j := r)\<rparr>)" using assms by (simp add: same_ids_iff)
  then show "same_ids s (x\<lparr>ptable := (ptable x)(i := q, j := r)\<rparr>) = same_ids s x" by (auto simp: same_ids_def)
qed

lemma keep_n_f [simp]: "n_p (n\<lparr>n_f := l\<rparr>) = n_p n" by simp

lemma keep_mem:
  "same_ids s (n_p n) \<Longrightarrow> (\<And>r n'. same_ids s (n_p n') \<Longrightarrow> P (r, n')) \<Longrightarrow> always P (on_mem op n)"
  "same_ids s (n_p n) \<Longrightarrow> (\<And>n'. same_ids s (n_p n') \<Longrightarrow> Q n') \<Longrightarrow> always Q (mem_do op' n)"
  by (auto simp: on_mem_def mem_do_def split_beta intro!: always_any)

lemma keep_drain: "same_ids s (n_p n) \<Longrightarrow> same_ids s (n_p (drain n))"
  by (simp add: drain_def Let_def) (metis same_ids_fold same_ids_trans same_ids_wakeup(2))

lemma keep_file:
  assumes "same_ids s (n_p n)"
  shows "(\<And>n'. same_ids s (n_p n') \<Longrightarrow> Q n') \<Longrightarrow> always Q (file_do me op n)"
    "(\<And>r n'. same_ids s (n_p n') \<Longrightarrow> P (r, n')) \<Longrightarrow> always P (file_call me op' n)"
proof -
  have d: "same_ids s (n_p (drain (n\<lparr>n_f := l\<rparr>)))" for l using assms by (intro keep_drain) simp
  show "(\<And>n'. same_ids s (n_p n') \<Longrightarrow> Q n') \<Longrightarrow> always Q (file_do me op n)"
    using d by (auto simp: file_do_def Let_def intro!: always_any)
  show "(\<And>r n'. same_ids s (n_p n') \<Longrightarrow> P (r, n')) \<Longrightarrow> always P (file_call me op' n)"
    using d by (auto simp: file_call_def Let_def split_beta intro!: always_any)
qed

lemma keep_dup:
  assumes "same_ids s (n_p n)" "\<And>n'. same_ids s (n_p n') \<Longrightarrow> Q n'"
  shows "always Q (dup_files src np n)"
proof -
  have "always (\<lambda>n'. same_ids s (n_p n')) (for_each (\<lambda>fd n.
       case p_ofile (proc_of src n) fd of
         None \<Rightarrow> Inr n
       | Some f \<Rightarrow> bind_res (filedup f (n_f n)) (\<lambda>(f, l).
           Inr (upd_pr np (\<lambda>p. p\<lparr>p_ofile := (p_ofile p)(fd := Some f)\<rparr>) (n\<lparr>n_f := l\<rparr>)))) [0..<NOFILE] n)"
    by (rule always_for_each) (use assms(1) in \<open>auto simp: split_beta intro!: always_any split: option.split\<close>)
  then show ?thesis unfolding dup_files_def always_simps
    by (rule always_mono) (auto simp: Let_def split_beta intro!: assms(2))
qed

lemma keep_exit_files:
  assumes "same_ids s (n_p n)" "\<And>n'. same_ids s (n_p n') \<Longrightarrow> Q n'"
  shows "always Q (exit_files me n)"
proof -
  have "always (\<lambda>n'. same_ids s (n_p n')) (for_each (\<lambda>fd n.
       case p_ofile (proc_of me n) fd of
         None \<Rightarrow> Inr n
       | Some f \<Rightarrow> bind_res (file_do me (fileclose f) n) (\<lambda>n.
           Inr (upd_pr me (\<lambda>p. p\<lparr>p_ofile := (p_ofile p)(fd := None)\<rparr>) n))) [0..<NOFILE] n)"
    by (rule always_for_each) (use assms(1) in \<open>auto intro!: keep_file(1) split: option.split\<close>)
  then show ?thesis unfolding exit_files_def always_simps
    by (rule always_mono) (auto intro!: keep_file(1) assms(2))
qed

lemma keep_sched: "same_ids s x \<Longrightarrow> (\<And>s'. same_ids s s' \<Longrightarrow> Q s') \<Longrightarrow> always Q (sched me x)"
  by (simp add: sched_def)

lemma keep_kst [simp]:
  "same_ids s (wakeup1 c x) = same_ids s x" "same_ids s (wakeup d x) = same_ids s x"
  "same_ids s (sleep_on c me x) = same_ids s x"
  by (auto simp: same_ids_iff wakeup_def wakeup1_def sleep_on_def)

lemma keep_reparent [simp]: "same_ids s (reparent c x) = same_ids s x"
proof -
  have "same_ids x (reparent c x)" unfolding reparent_def
    by (rule same_ids_fold) (auto simp: Let_def same_ids_refl)
  then show ?thesis by (auto simp: same_ids_iff)
qed

lemma keep_exit_start: "same_ids s x \<Longrightarrow> (\<And>s'. same_ids s s' \<Longrightarrow> Q s') \<Longrightarrow> always Q (exit_start me x)"
  by (auto simp: exit_start_def Let_def)

lemma keep_exit_end: "same_ids s x \<Longrightarrow> (\<And>s'. same_ids s s' \<Longrightarrow> Q s') \<Longrightarrow> always Q (exit_end me x)"
  by (auto simp: exit_end_def Let_def intro!: keep_sched)

lemma keep_drop_sched: "same_ids s x \<Longrightarrow> (\<And>s'. same_ids s s' \<Longrightarrow> Q s') \<Longrightarrow> always Q (drop_sched i x)"
  by (auto simp: drop_sched_def drop_share_def drop_node_def Let_def split: prod.split)


subsection \<open>Operations that hand out or take back a number\<close>

lemma ids_slot: "p_pid q = a \<Longrightarrow> p_tid q = b \<Longrightarrow> ids (x\<lparr>ptable := (ptable x)(i := q)\<rparr>) = (ids x)(i := (a, b))"
  by (auto simp: ids_def)

lemma alloc_ids:
  assumes "allocproc n = (np, n')"
  shows "same_ids (n_p n) (n_p n') \<and> np = None \<or>
    (\<exists>i<NPROC. ids (n_p n') = (ids (n_p n))(i := (nextpid (n_p n), 1)) \<and> nextpid (n_p n') = nextpid (n_p n) + 1
       \<and> (np = None \<or> np = Some i))"
proof (cases "first_index (\<lambda>i. p_state (proc_of i n) = UNUSED) NPROC")
  case None
  then have "allocproc n = (None, n)" unfolding allocproc_def None by simp
  then show ?thesis using assms same_ids_refl by simp
next
  case (Some i)
  have i: "i < NPROC" using Some by (auto dest: first_index_SomeD)
  define n1 where "n1 = upd_pr i (\<lambda>p. p\<lparr>p_state := EMBRYO, p_pid := nextpid (n_p n), p_tid := 1, p_parent := Some i,
      p_master := Some i, p_stack_size := 0, p_cur := 0, p_base := p_sz p, p_pgdir := 0\<rparr>)
      (on_p (\<lambda>s. s\<lparr>nextpid := nextpid (n_p n) + 1\<rparr>) n)"
  have n1: "ids (n_p n1) = (ids (n_p n))(i := (nextpid (n_p n), 1))" "nextpid (n_p n1) = nextpid (n_p n) + 1"
    by (auto simp: n1_def on_p_def ids_def)
  have push: "p_pid (ptable (snd (push_mlfq pid q x)) j) = p_pid (ptable x j)"
    "p_tid (ptable (snd (push_mlfq pid q x)) j) = p_tid (ptable x j)" "nextpid (snd (push_mlfq pid q x)) = nextpid x" for x pid q j
    using same_ids_push [of x pid q] by (simp_all add: same_ids_iff)
  have "same_ids (n_p n1) (n_p n') \<and> (np = None \<or> np = Some i)"
    using assms unfolding allocproc_def Some Let_def
    by (auto simp: n1_def same_ids_iff push split: prod.splits if_splits)
  then show ?thesis using n1 i by (auto simp: same_ids_def)
qed

lemma alloc_ids_ok: "allocproc n = (np, n') \<Longrightarrow> ids_ok (n_p n) \<Longrightarrow> ids_ok (n_p n')"
  using alloc_ids [of n np n'] ids_ok_same [of "n_p n" "n_p n'"] ids_ok_fresh [of "n_p n" "n_p n'"] by blast

lemma delete_ids: "always (\<lambda>n'. ids_ok (n_p n) \<longrightarrow> ids_ok (n_p n')) (delete_thread i n)"
proof -
  let ?s = "n_p n"
  let ?t = "?s\<lparr>ptable := (ptable ?s)(i := (ptable ?s i)\<lparr>p_pid := 0, p_tid := 0\<rparr>)\<rparr>"
  have free: "same_ids ?t (x\<lparr>ptable := (ptable x)(i := q)\<rparr>)" if "same_ids ?s x" "p_pid q = 0" "p_tid q = 0" for q x
    using that by (auto simp: same_ids_iff)
  have free2: "same_ids ?t (x\<lparr>ptable := (ptable x)(i := q, m := r)\<rparr>)"
    if "same_ids ?s x" "p_pid q = 0" "p_tid q = 0" "m \<noteq> i" "p_pid r = p_pid (ptable x m)" "p_tid r = p_tid (ptable x m)" for q r m x
    using that by (auto simp: same_ids_iff)
  have ok: "ids_ok ?s \<Longrightarrow> ids_ok ?t" by (rule ids_ok_free [of ?s]) (auto simp: ids_def)
  have fin: "ids_ok ?s \<longrightarrow> ids_ok x" if "same_ids ?t x" for x using ids_ok_same [OF that] ok by blast
  show ?thesis unfolding delete_thread_def Let_def always_simps(3)
  proof (rule always_mono [where P = "\<lambda>x. same_ids ?s (n_p x)"], goal_cases)
    case 1
    show ?case by (auto simp: same_ids_refl intro!: keep_mem(2) [where s = ?s] keep_drop_sched [where s = ?s])
  next
    case (2 n1)
    show ?case
    proof (rule keep_mem(2) [where s = ?s, OF 2], goal_cases)
      case (1 n2)
      show ?case using free [OF 1] free2 [OF 1] fin by (auto intro!: keep_mem(1) [where s = ?t])
    qed
  qed
qed

lemma next_tid_max:
  assumes "j < NPROC" "p_pid (ptable s j) = pid"
  shows "p_tid (ptable s j) < next_tid pid s"
proof -
  let ?f = "\<lambda>i t. if p_pid (ptable s i) = pid \<and> p_tid (ptable s i) > t then p_tid (ptable s i) else t"
  have "t \<le> fold ?f xs t \<and> (j \<in> set xs \<longrightarrow> p_tid (ptable s j) \<le> fold ?f xs t)" for xs t
  proof (induction xs arbitrary: t)
    case (Cons x xs)
    have "t \<le> ?f x t" "j = x \<Longrightarrow> p_tid (ptable s j) \<le> ?f x t" using assms(2) by auto
    then show ?case using Cons.IH [of "?f x t"] by (auto simp del: if_split intro: order_trans)
  qed simp
  then have "p_tid (ptable s j) \<le> fold ?f [0..<NPROC] 1" using assms(1) by simp
  then show ?thesis by (simp add: next_tid_def)
qed

text \<open>A new thread: the next number of its process.\<close>

lemma ids_ok_thread:
  assumes "ids_ok s" and t: "t < NPROC" and me: "me < NPROC" and x: "ids x = (ids s)(t := (nextpid s, 1))" "nextpid x = nextpid s + 1"
    and y: "ids y = (ids x)(t := (p_pid (ptable x me), next_tid (p_pid (ptable s me)) s))" "nextpid y = nextpid x"
  shows "ids_ok y"
proof -
  have X: "(p_pid (ptable x j), p_tid (ptable x j)) = (if j = t then (nextpid s, 1) else (p_pid (ptable s j), p_tid (ptable s j)))" for j
    using fun_cong [OF x(1), of j] by (simp add: ids_def)
  have Y: "(p_pid (ptable y j), p_tid (ptable y j)) = (if j = t then (p_pid (ptable x me), next_tid (p_pid (ptable s me)) s)
      else (p_pid (ptable x j), p_tid (ptable x j)))" for j
    using fun_cong [OF y(1), of j] by (simp add: ids_def)
  have lt: "p_pid (ptable s j) < nextpid s" if "j < NPROC" for j using assms(1) that by (simp add: ids_ok_def)
  have un: "j = k" if "j < NPROC" "k < NPROC" "p_pid (ptable s j) \<noteq> 0" "ids s j = ids s k" for j k
    using assms(1) that by (simp add: ids_ok_def)
  have tid: "p_tid (ptable s j) \<noteq> next_tid (p_pid (ptable s me)) s" if "j < NPROC" "p_pid (ptable s j) = p_pid (ptable s me)" for j
    using next_tid_max [OF that] by simp
  show ?thesis unfolding ids_ok_def
  proof (intro conjI allI impI)
    show "0 < nextpid y" using assms(1) x(2) y(2) by (simp add: ids_ok_def)
    show "p_pid (ptable y j) < nextpid y" if "j < NPROC" for j
      using X [of j] X [of me] Y [of j] lt [OF that] lt [OF me] x(2) y(2) by (auto split: if_splits)
    fix j k assume jk: "j < NPROC" "k < NPROC" "p_pid (ptable y j) \<noteq> 0" "ids y j = ids y k"
    show "j = k"
    proof (rule ccontr)
      assume ne: "j \<noteq> k"
      have fresh: "p_pid (ptable s j) \<noteq> nextpid s" "p_pid (ptable s k) \<noteq> nextpid s" using lt jk by fastforce+
      show False
      proof (cases "j = t \<or> k = t")
        case False
        then show False using jk ne un [OF jk(1,2)] X [of j] X [of k] Y [of j] Y [of k] by (simp add: ids_def)
      next
        case True
        then show False
          using ne jk fresh tid [OF jk(1)] tid [OF jk(2)] X [of j] X [of k] X [of me] Y [of j] Y [of k]
          by (auto simp: ids_def split: if_splits)
      qed
    qed
  qed
qed


subsection \<open>The life of processes\<close>

lemma ids_fork: "ids_ok (n_p n) \<Longrightarrow> always (\<lambda>(r, n'). ids_ok (n_p n')) (fork me n)"
proof -
  assume ok: "ids_ok (n_p n)"
  obtain np n1 where a: "allocproc n = (np, n1)" by fastforce
  have fin: "ids_ok x" if "same_ids (n_p n1) x" for x
    using ids_ok_same [OF that] alloc_ids_ok [OF a ok] by blast
  show ?thesis unfolding fork_def always_simps
    by (auto simp: a Let_def set_name_def same_ids_refl split: option.split
      intro!: keep_mem [where s = "n_p n1"] keep_dup [where s = "n_p n1"] fin)
qed

lemma ids_userinit: "ids_ok (n_p n) \<Longrightarrow> always (\<lambda>n'. ids_ok (n_p n')) (userinit init sz n)"
proof -
  assume ok: "ids_ok (n_p n)"
  let ?n = "on_p init_tables n"
  have ok': "ids_ok (n_p ?n)" by (rule ids_ok_same [OF _ ok]) (simp add: init_tables_def same_ids_iff)
  obtain np n1 where a: "allocproc ?n = (np, n1)" by fastforce
  let ?s = "(init_share (n_p n1))\<lparr>initproc := np\<rparr>"
  have s: "same_ids (n_p n1) ?s" by (simp add: init_share_def same_ids_refl)
  have fin: "ids_ok x" if "same_ids ?s x" for x
    using ids_ok_same [OF same_ids_trans [OF s that]] alloc_ids_ok [OF a ok'] by blast
  show ?thesis unfolding userinit_def always_simps
    by (auto simp: a Let_def set_name_def same_ids_refl split: option.split
      intro!: keep_mem [where s = ?s] keep_file [where s = ?s] fin)
qed

lemma ids_thread_create:
  assumes ok: "ids_ok (n_p n)" and me: "me < NPROC"
  shows "always (\<lambda>(r, n'). ids_ok (n_p n')) (thread_create me start arg n)"
proof -
  obtain np n1 where a: "allocproc n = (np, n1)" by fastforce
  let ?s = "n_p n1" and ?tid = "next_tid (p_pid (proc_of me n)) (n_p n)"
  have fin: "ids_ok x" if "same_ids ?s x" for x
    using ids_ok_same [OF that] alloc_ids_ok [OF a ok] by blast
  have new: "ids_ok (x\<lparr>ptable := (ptable x)(t := q)\<rparr>)"
    if np: "np = Some t" "same_ids ?s x" and q: "p_pid q = p_pid (ptable x me)" "p_tid q = ?tid" for t x q
  proof -
    obtain i where "i < NPROC" "ids ?s = (ids (n_p n))(i := (nextpid (n_p n), 1))" "nextpid ?s = nextpid (n_p n) + 1" "np = Some i"
      using alloc_ids [OF a] np(1) by auto
    moreover have "ids (x\<lparr>ptable := (ptable x)(t := q)\<rparr>) = (ids ?s)(t := (p_pid (ptable ?s me), ?tid))"
      using np(2) q by (auto simp: ids_def same_ids_iff)
    ultimately show ?thesis using ids_ok_thread [OF ok _ me] np by (simp add: same_ids_def)
  qed
  have start: "always (\<lambda>x. ids_ok (n_p x)) (start_thread me m t ?tid base sz st y)"
    if "np = Some t" "same_ids ?s (n_p y)" for m t base sz st y
    unfolding start_thread_def using that
    by (auto simp: Let_def set_name_def intro!: keep_dup [where s = ?s] new)
  have node: "same_ids ?s (n_p (on_p (upd_node q j f) n1))" for q j f by (simp add: same_ids_refl)
  show ?thesis unfolding thread_create_def always_simps
    by (auto simp: a Let_def take_base_def give_base_def same_ids_refl node fin split: option.split prod.split
      intro!: keep_mem [where s = ?s] always_mono [OF start] fin)
qed

lemma ids_ok_eq: "same_ids s s' \<Longrightarrow> ids_ok s' = ids_ok s"
  by (simp add: ids_ok_def ids_def same_ids_iff)

lemma ids_ok_keep [simp]:
  "p_pid q = p_pid (ptable x i) \<Longrightarrow> p_tid q = p_tid (ptable x i) \<Longrightarrow> ids_ok (x\<lparr>ptable := (ptable x)(i := q)\<rparr>) = ids_ok x"
  "ids_ok (wakeup1 c x) = ids_ok x" "ids_ok (wakeup d x) = ids_ok x" "ids_ok (sleep_on c me x) = ids_ok x"
  "ids_ok (reparent r x) = ids_ok x"
  by (rule ids_ok_eq, simp add: same_ids_refl)+

lemma ids_wait: "ids_ok (n_p n) \<Longrightarrow> always (\<lambda>(r, n'). ids_ok (n_p n')) (wait me n)"
  unfolding wait_def Let_def
  by (auto simp: sched_def split: option.split intro!: always_mono [OF delete_ids])

lemma ids_thread_join: "ids_ok (n_p n) \<Longrightarrow> always (\<lambda>(r, n'). ids_ok (n_p n')) (thread_join me tid n)"
  unfolding thread_join_def Let_def
  by (auto simp: sched_def split: option.split intro!: always_mono [OF delete_ids])

lemma ids_exit_scan: "ids_ok (n_p n) \<Longrightarrow> always (\<lambda>(k, n'). ids_ok (n_p n')) (exit_scan me n)"
  unfolding exit_scan_def
  by (rule always_for_each) (auto simp: Let_def intro!: always_mono [OF delete_ids])

lemma ids_exit_reap: "ids_ok (n_p n) \<Longrightarrow> always (\<lambda>(r, n'). ids_ok (n_p n')) (exit_reap me n)"
  unfolding exit_reap_def
  by (auto simp: sched_def split: prod.split intro!: always_mono [OF ids_exit_scan])

lemma ids_exit_end: "ids_ok x \<Longrightarrow> always ids_ok (exit_end me x)"
  by (auto simp: exit_end_def Let_def sched_def)

lemma ids_exit: "ids_ok (n_p n) \<Longrightarrow> always (\<lambda>(r, n'). ids_ok (n_p n')) (exit me n)"
proof -
  assume ok: "ids_ok (n_p n)"
  have fin: "ids_ok x" if "same_ids (n_p n) x" for x using ids_ok_same [OF that ok] .
  show ?thesis unfolding exit_def
    by (auto intro!: keep_exit_files [OF same_ids_refl] keep_exit_start [where s = "n_p n"] fin
        always_mono [OF ids_exit_reap] always_mono [OF ids_exit_end] split: step.split)
qed

lemma ids_exit_resume: "ids_ok (n_p n) \<Longrightarrow> always (\<lambda>(r, n'). ids_ok (n_p n')) (exit_resume me n)"
  unfolding exit_resume_def
  by (auto simp: wake_tail_def intro!: always_mono [OF ids_exit_reap] always_mono [OF ids_exit_end] split: step.split)

lemma ids_thread_exit: "ids_ok (n_p n) \<Longrightarrow> always (\<lambda>n'. ids_ok (n_p n')) (thread_exit me r n)"
proof -
  assume ok: "ids_ok (n_p n)"
  have "same_ids (n_p n) x \<Longrightarrow> ids_ok x" for x using ids_ok_same [OF _ ok] .
  then show ?thesis unfolding thread_exit_def
    by (auto simp: Let_def sched_def intro!: keep_exit_files [OF same_ids_refl])
qed

lemma ids_exec: "ids_ok s \<Longrightarrow> ids_ok (exec_delete_thread cur s)"
proof -
  assume ok: "ids_ok s"
  let ?p = "(ptable s cur)\<lparr>p_pid := nextpid s, p_tid := 1\<rparr>"
  let ?t = "s\<lparr>nextpid := nextpid s + 1, ptable := (ptable s)(cur := ?p)\<rparr>"
  have t: "ids_ok ?t" by (rule ids_ok_fresh [OF ok, where i = cur]) (auto simp: ids_def)
  have "same_ids ?t (exec_delete_thread cur s)" unfolding exec_delete_thread_def Let_def
    by (rule same_ids_trans [OF _ same_ids_push]) (simp add: same_ids_iff)
  then show ?thesis using ids_ok_same t by blast
qed

text \<open>
  The steps the table of processes takes: the first process, a running process \<open>me\<close> in a
  call, the clock, the scheduler, and operations on memory and files, which only wake processes up.
\<close>

inductive life :: "kern \<Rightarrow> kern \<Rightarrow> bool" where
  fork: "fork me n = Inr (r, n') \<Longrightarrow> life n n'"
| init: "userinit init sz n = Inr n' \<Longrightarrow> life n n'"
| exit: "exit me n = Inr (e, n') \<Longrightarrow> life n n'"
| exit_resume: "exit_resume me n = Inr (e, n') \<Longrightarrow> life n n'"
| wait: "wait me n = Inr (w, n') \<Longrightarrow> life n n'"
| thread_create: "me < NPROC \<Longrightarrow> thread_create me start arg n = Inr (c, n') \<Longrightarrow> life n n'"
| thread_exit: "thread_exit me v n = Inr n' \<Longrightarrow> life n n'"
| thread_join: "thread_join me tid n = Inr (j, n') \<Longrightarrow> life n n'"
| exec: "life n (on_p (exec_delete_thread me) n)"
| kill: "life n (on_p (\<lambda>s. snd (kill pid s)) n)"
| yield: "yield me (n_p n) = Inr s \<Longrightarrow> life n (n\<lparr>n_p := s\<rparr>)"
| sleep: "life n (on_p (sleep_on c me) n)"
| wakeup: "life n (on_p (wakeup d) n)"
| dispatch: "sched_cand c (n_p n) = Inr (p, s) \<Longrightarrow> life n (n\<lparr>n_p := s\<rparr>)"
| tick: "add_tick me (n_p n) = Inr (b, s) \<Longrightarrow> life n (n\<lparr>n_p := s\<rparr>)"
| share: "set_cpu_share me k (n_p n) = Inr (q, s) \<Longrightarrow> life n (n\<lparr>n_p := s\<rparr>)"
| files: "file_call me op n = Inr ((), n') \<Longrightarrow> life n n'"

lemma life_step: "life n n' \<Longrightarrow> ids_ok (n_p n) \<Longrightarrow> ids_ok (n_p n')"
proof (induction rule: life.induct)
  case (kill n pid)
  then show ?case by (auto simp: kill_def split: option.split)
next
  case (yield me n s)
  then show ?case by (auto simp: yield_def sched_def split: if_splits)
next
  case (files me op n n')
  have "always (\<lambda>(r, n'). ids_ok (n_p n')) (file_call me op n)"
    by (rule keep_file(2) [OF same_ids_refl]) (use files.prems ids_ok_same in auto)
  then show ?case using files.hyps by simp
next
  case (dispatch c n p s)
  then show ?case using alwaysD [OF same_ids_cand dispatch.hyps] ids_ok_same by simp
next
  case (tick me n b s)
  then show ?case using alwaysD [OF same_ids_tick tick.hyps] ids_ok_same by simp
next
  case (share me k n q s)
  then show ?case using alwaysD [OF same_ids_share share.hyps] ids_ok_same by simp
qed (auto simp: ids_exec dest!: alwaysD [OF ids_fork, rotated] alwaysD [OF ids_userinit, rotated] alwaysD [OF ids_exit, rotated] alwaysD [OF ids_exit_resume, rotated]
  alwaysD [OF ids_wait, rotated] alwaysD [OF ids_thread_create, rotated 2] alwaysD [OF ids_thread_exit, rotated]
  alwaysD [OF ids_thread_join, rotated])

lemma life_reachable: "life\<^sup>*\<^sup>* n n' \<Longrightarrow> ids_ok (n_p n) \<Longrightarrow> ids_ok (n_p n')"
  by (induction rule: rtranclp_induct) (auto dest: life_step)

end
