(* ===== verification/Proc_Correct.thy ===== *)
theory Proc_Correct
  imports Proc_Ok Call_Correct
begin





text \<open>C0: numbers of processes stay unique.\<close>



end
