(* ===== verification/Ide.thy ===== *)
theory Ide
  imports Bio
begin

text \<open>
  ide.c: the disk driver by programmed input and output. The queue of requests is threaded
  through the buffers (\<open>id_queue\<close> and \<open>id_qnext\<close>). What the driver writes to the ports is the list
  \<open>id_io\<close>; what the status port answers is the sequence \<open>id_st\<close>, of which \<open>id_rd\<close> values were
  read. The words that the data port delivers are an argument of the interrupt handler.
\<close>

definition FSSIZE :: u32 where "FSSIZE = 40000"
definition IDE_BSY :: u8 where "IDE_BSY = 0x80"
definition IDE_DRDY :: u8 where "IDE_DRDY = 0x40"
definition IDE_DF :: u8 where "IDE_DF = 0x20"
definition IDE_ERR :: u8 where "IDE_ERR = 0x01"
definition IDE_CMD_READ :: u8 where "IDE_CMD_READ = 0x20"
definition IDE_CMD_WRITE :: u8 where "IDE_CMD_WRITE = 0x30"

datatype port = Outb u16 u8 | Outsl u16 mem

record ide =
  id_fs :: fsys
  id_queue :: "nat option"
  id_qnext :: "nat \<Rightarrow> nat option"
  id_have1 :: bool
  id_io :: "port list"
  id_st :: "nat \<Rightarrow> u8"
  id_rd :: nat

definition out :: "port list \<Rightarrow> ide \<Rightarrow> ide" where
  "out xs s = s\<lparr>id_io := id_io s @ xs\<rparr>"

text \<open>The loop that polls the status port; it need not end.\<close>

partial_function (option) wait_ready :: "(nat \<Rightarrow> u8) \<Rightarrow> nat \<Rightarrow> nat option" where
  "wait_ready st n =
     (if st n AND (IDE_BSY OR IDE_DRDY) = IDE_DRDY then Some n else wait_ready st (Suc n))"

definition idewait :: "bool \<Rightarrow> ide \<Rightarrow> (int \<times> ide) res" where
  "idewait checkerr s =
     (case wait_ready (id_st s) (id_rd s) of
        None \<Rightarrow> Inl (Fault ''idewait: endless loop'')
      | Some n \<Rightarrow>
          Inr (if checkerr \<and> id_st s n AND (IDE_DF OR IDE_ERR) \<noteq> 0 then -1 else 0, s\<lparr>id_rd := Suc n\<rparr>))"

definition ideinit :: "ide \<Rightarrow> ide res" where
  "ideinit s =
     bind_res (idewait False s) (\<lambda>(_, s).
     let s = out [Outb 0x1f6 (0xe0 OR push_bit 4 1)] s;
         s = (case first_index (\<lambda>i. id_st s (id_rd s + i) \<noteq> 0) 1000 of
                Some i \<Rightarrow> s\<lparr>id_rd := id_rd s + Suc i, id_have1 := True\<rparr>
              | None \<Rightarrow> s\<lparr>id_rd := id_rd s + 1000\<rparr>)
     in Inr (out [Outb 0x1f6 0xe0] s))"

definition ide_command :: "buf \<Rightarrow> port list" where
  "ide_command b =
     (let sector = b_blockno b in
      [Outb 0x3f6 0, Outb 0x1f2 1, Outb 0x1f3 (ucast (sector AND 0xff)),
       Outb 0x1f4 (ucast (drop_bit 8 sector AND 0xff)), Outb 0x1f5 (ucast (drop_bit 16 sector AND 0xff)),
       Outb 0x1f6 (0xe0 OR ucast (push_bit 4 (b_dev b AND 1)) OR ucast (drop_bit 24 sector AND 0x0f))]
      @ (if b_dirty b then [Outb 0x1f7 IDE_CMD_WRITE, Outsl 0x1f0 (b_data b)]
         else [Outb 0x1f7 IDE_CMD_READ]))"

definition idestart :: "nat option \<Rightarrow> ide \<Rightarrow> ide res" where
  "idestart p s =
     (case p of
        None \<Rightarrow> Inl (Panic ''idestart'')
      | Some i \<Rightarrow>
          let b = f_bufs (id_fs s) i in
          if b_blockno b \<ge> FSSIZE then Inl (Panic ''incorrect blockno'')
          else bind_res (idewait False s) (\<lambda>(_, s). Inr (out (ide_command b) s)))"

definition on_bufs :: "(fsys \<Rightarrow> fsys) \<Rightarrow> ide \<Rightarrow> ide" where
  "on_bufs g s = s\<lparr>id_fs := g (id_fs s)\<rparr>"

definition ideintr :: "mem \<Rightarrow> ide \<Rightarrow> ide res" where
  "ideintr port s =
     (case id_queue s of
        None \<Rightarrow> Inr s
      | Some i \<Rightarrow>
          let s = s\<lparr>id_queue := id_qnext s i\<rparr> in
          bind_res (if b_dirty (f_bufs (id_fs s) i) then Inr s
                    else bind_res (idewait True s) (\<lambda>(r, s).
                      Inr (if r \<ge> 0 then on_bufs (upd_buf i (\<lambda>b. b\<lparr>b_data := port\<rparr>)) s else s))) (\<lambda>s.
          let s = on_bufs (\<lambda>f. fwake (ChBuf i) (upd_buf i (\<lambda>b. b\<lparr>b_valid := True, b_dirty := False\<rparr>) f)) s
          in if id_queue s \<noteq> None then idestart (id_queue s) s else Inr s))"

text \<open>The end of the queue; the walk does not end on a circular list.\<close>

partial_function (option) queue_end :: "(nat \<Rightarrow> nat option) \<Rightarrow> nat \<Rightarrow> nat option" where
  "queue_end nxt i = (case nxt i of None \<Rightarrow> Some i | Some j \<Rightarrow> queue_end nxt j)"

definition ide_append :: "nat \<Rightarrow> ide \<Rightarrow> ide res" where
  "ide_append i s =
     (let s = s\<lparr>id_qnext := (id_qnext s)(i := None)\<rparr> in
      case id_queue s of
        None \<Rightarrow> Inr (s\<lparr>id_queue := Some i\<rparr>)
      | Some h \<Rightarrow>
          (case queue_end (id_qnext s) h of
             None \<Rightarrow> Inl (Fault ''iderw: endless queue'')
           | Some j \<Rightarrow> Inr (s\<lparr>id_qnext := (id_qnext s)(j := Some i)\<rparr>)))"

definition ide_done :: "nat \<Rightarrow> ide \<Rightarrow> bool" where
  "ide_done i s \<longleftrightarrow> b_valid (f_bufs (id_fs s) i) \<and> \<not> b_dirty (f_bufs (id_fs s) i)"

text \<open>
  The call of \<open>iderw\<close> up to its first sleep; the flag tells whether the request is finished, which
  is what the loop tests again whenever the process wakes up.
\<close>

definition ide_rw :: "nat \<Rightarrow> ide \<Rightarrow> (bool \<times> ide) res" where
  "ide_rw i s =
     (let b = f_bufs (id_fs s) i in
      if \<not> holdingsleep (f_pid (id_fs s)) (b_lock b) then Inl (Panic ''iderw: buf not locked'')
      else if ide_done i s then Inl (Panic ''iderw: nothing to do'')
      else if b_dev b \<noteq> 0 \<and> \<not> id_have1 s then Inl (Panic ''iderw: ide disk 1 not present'')
      else bind_res (ide_append i s) (\<lambda>s.
        bind_res (if id_queue s = Some i then idestart (Some i) s else Inr s) (\<lambda>s.
        Inr (ide_done i s, s))))"

end
