(* ===== verification/Ide_Ok.thy ===== *)
theory Ide_Ok
  imports Ide
begin

text \<open>
  The driver of the IDE disk refines the disk of memide.c: with a drive that follows the commands
  written to its registers, requests are served one at a time in the order of their arrival, and
  each has the effect of \<open>iderw\<close> of memide.c on its buffer and on the disk.
\<close>

subsection \<open>The queue as a list\<close>

fun queue_is :: "(nat \<Rightarrow> nat option) \<Rightarrow> nat option \<Rightarrow> nat list \<Rightarrow> bool" where
  "queue_is nxt p [] \<longleftrightarrow> p = None"
| "queue_is nxt p (i # q) \<longleftrightarrow> p = Some i \<and> queue_is nxt (nxt i) q"

lemma queue_is_cong: "(\<And>i. i \<in> set q \<Longrightarrow> nxt i = nxt' i) \<Longrightarrow> queue_is nxt p q = queue_is nxt' p q"
  by (induction q arbitrary: p) auto

lemma queue_end_last: "queue_is nxt (Some i) q \<Longrightarrow> queue_end nxt i = Some (last q)"
proof (induction q arbitrary: i)
  case (Cons j q)
  then show ?case by (cases q) (auto simp: queue_end.simps [of nxt j])
qed simp

lemma queue_is_append:
  "queue_is nxt p q \<Longrightarrow> q \<noteq> [] \<Longrightarrow> distinct q \<Longrightarrow> i \<notin> set q \<Longrightarrow> nxt i = None \<Longrightarrow>
   queue_is (nxt(last q := Some i)) p (q @ [i])"
proof (induction q arbitrary: p)
  case (Cons j q)
  show ?case
  proof (cases q)
    case (Cons k r)
    then have "last q \<in> set q" "last q \<noteq> j" using Cons.prems by auto
    then show ?thesis using Cons.IH [of "nxt j"] Cons.prems Cons by auto
  qed (use Cons.prems in auto)
qed simp

lemma ide_append_list:
  assumes "queue_is (id_qnext s) (id_queue s) q" "distinct q" "i \<notin> set q"
  shows "\<exists>nxt. ide_append i s = Inr (s\<lparr>id_queue := Some (hd (q @ [i])), id_qnext := nxt\<rparr>)
    \<and> queue_is nxt (Some (hd (q @ [i]))) (q @ [i])"
proof (cases q)
  case Nil
  then show ?thesis using assms
    by (intro exI [of _ "(id_qnext s)(i := None)"]) (simp add: ide_append_def Let_def)
next
  case (Cons h r)
  let ?nxt = "(id_qnext s)(i := None)"
  have "queue_is ?nxt (id_queue s) q = queue_is (id_qnext s) (id_queue s) q"
    by (rule queue_is_cong) (use assms(3) in auto)
  then have q: "queue_is ?nxt (id_queue s) q" using assms(1) by simp
  then have "queue_end ?nxt h = Some (last q)" using queue_end_last [of ?nxt h q] Cons by simp
  then show ?thesis
    using queue_is_append [OF q] assms Cons
    by (intro exI [of _ "?nxt(last q := Some i)"]) (simp add: ide_append_def Let_def)
qed


subsection \<open>The drive\<close>

text \<open>
  What the driver relies on: a drive in LBA mode (bits 5 to 7 of the drive register) that follows the
  registers of the second disk (bit 4). \<open>media\<close> is the content of the disk after a sequence of port
  writes, \<open>reply\<close> what the data port then delivers; the status always becomes ready again, without error.
\<close>

definition lba :: "u8 \<Rightarrow> u8 \<Rightarrow> u8 \<Rightarrow> u8 \<Rightarrow> u32" where
  "lba l0 l1 l2 h = ucast l0 OR push_bit 8 (ucast l1) OR push_bit 16 (ucast l2) OR push_bit 24 (ucast (h AND 0x0f))"

definition select :: "u8 \<Rightarrow> u8 \<Rightarrow> u8 \<Rightarrow> u8 \<Rightarrow> port list" where
  "select l0 l1 l2 h =
     [Outb 0x3f6 0, Outb 0x1f2 1, Outb 0x1f3 l0, Outb 0x1f4 l1, Outb 0x1f5 l2, Outb 0x1f6 h]"

definition drive_ok :: "(port list \<Rightarrow> u32 \<Rightarrow> mem) \<Rightarrow> (port list \<Rightarrow> mem) \<Rightarrow> (nat \<Rightarrow> u8) \<Rightarrow> bool" where
  "drive_ok media reply st \<longleftrightarrow>
     (\<forall>xs l0 l1 l2 h d. h AND 0xf0 = 0xf0 \<longrightarrow>
        media (xs @ select l0 l1 l2 h @ [Outb 0x1f7 0x30, Outsl 0x1f0 d]) = (media xs)(lba l0 l1 l2 h := d))
   \<and> (\<forall>xs l0 l1 l2 h. h AND 0xf0 = 0xf0 \<longrightarrow>
        media (xs @ select l0 l1 l2 h @ [Outb 0x1f7 0x20]) = media xs
        \<and> reply (xs @ select l0 l1 l2 h @ [Outb 0x1f7 0x20]) = media xs (lba l0 l1 l2 h))
   \<and> (\<forall>n. \<exists>m\<ge>n. st m AND 0xc0 = 0x40) \<and> (\<forall>n. st n AND 0xc0 = 0x40 \<longrightarrow> st n AND 0x21 = 0)"

lemma bit_byte_masks:
  "bit (0xff :: int) n \<longleftrightarrow> n < 8" "bit (0x0f :: int) n \<longleftrightarrow> n < 4" "bit (0xf0 :: int) n \<longleftrightarrow> 4 \<le> n \<and> n < 8"
  "bit (0xe0 :: int) n \<longleftrightarrow> 5 \<le> n \<and> n < 8" "bit (0x10 :: int) n \<longleftrightarrow> n = 4"
proof -
  have m: "(0xff :: int) = mask 8" "(0x0f :: int) = mask 4" "(0xf0 :: int) = push_bit 4 (mask 4)"
    "(0xe0 :: int) = push_bit 5 (mask 3)" "(0x10 :: int) = push_bit 4 1"
    by (simp_all add: mask_eq_exp_minus_1)
  show "bit (0xff :: int) n \<longleftrightarrow> n < 8" "bit (0x0f :: int) n \<longleftrightarrow> n < 4" "bit (0xf0 :: int) n \<longleftrightarrow> 4 \<le> n \<and> n < 8"
    "bit (0xe0 :: int) n \<longleftrightarrow> 5 \<le> n \<and> n < 8" "bit (0x10 :: int) n \<longleftrightarrow> n = 4"
    by (simp_all only: m bit_mask_iff bit_push_bit_iff bit_1_iff possible_bit_int) auto
qed

lemma lba_command:
  fixes b :: u32
  assumes "b < FSSIZE"
  shows "lba (ucast (b AND 0xff)) (ucast (drop_bit 8 b AND 0xff)) (ucast (drop_bit 16 b AND 0xff))
      (0xe0 OR 0x10 OR ucast (drop_bit 24 b AND 0x0f)) = b"
    "(0xe0 OR 0x10 OR ucast (drop_bit 24 b AND 0x0f) :: u8) AND 0xf0 = 0xf0"
proof -
  have "unat b < 2 ^ 28" using assms by (simp add: FSSIZE_def word_less_nat_alt)
  then have b: "take_bit 28 b = b" by (metis unsigned_take_bit_eq take_bit_nat_eq_self unsigned_word_eqI)
  have high: "\<not> bit b n" if "28 \<le> n" for n using that by (subst b [symmetric]) (simp add: bit_simps)
  show "lba (ucast (b AND 0xff)) (ucast (drop_bit 8 b AND 0xff)) (ucast (drop_bit 16 b AND 0xff))
      (0xe0 OR 0x10 OR ucast (drop_bit 24 b AND 0x0f)) = b"
  proof (rule bit_eqI)
    fix n assume "possible_bit TYPE(u32) n"
    then consider "n < 8" | "8 \<le> n" "n < 16" | "16 \<le> n" "n < 24" | "24 \<le> n" "n < 28" | "28 \<le> n" "n < 32" by fastforce
    then show "bit (lba (ucast (b AND 0xff)) (ucast (drop_bit 8 b AND 0xff)) (ucast (drop_bit 16 b AND 0xff))
      (0xe0 OR 0x10 OR ucast (drop_bit 24 b AND 0x0f))) n = bit b n"
      by cases (auto simp: lba_def bit_simps bit_byte_masks high)
  qed
  show "(0xe0 OR 0x10 OR ucast (drop_bit 24 b AND 0x0f) :: u8) AND 0xf0 = 0xf0"
    by (rule bit_eqI) (auto simp: bit_simps bit_byte_masks)
qed

lemma on_bufs_sel [simp]:
  "id_fs (on_bufs g s) = g (id_fs s)" "id_queue (on_bufs g s) = id_queue s" "id_qnext (on_bufs g s) = id_qnext s"
  "id_have1 (on_bufs g s) = id_have1 s" "id_io (on_bufs g s) = id_io s" "id_st (on_bufs g s) = id_st s"
  "id_rd (on_bufs g s) = id_rd s"
  by (simp_all add: on_bufs_def)

lemma command_drive:
  assumes "drive_ok media reply st" "b_dev b = 1" "b_blockno b < FSSIZE"
  shows "media (xs @ ide_command b) = (if b_dirty b then (media xs)(b_blockno b := b_data b) else media xs)"
    "\<not> b_dirty b \<Longrightarrow> reply (xs @ ide_command b) = media xs (b_blockno b)"
proof -
  let ?b = "b_blockno b"
  let ?l0 = "ucast (?b AND 0xff) :: u8" and ?l1 = "ucast (drop_bit 8 ?b AND 0xff) :: u8"
    and ?l2 = "ucast (drop_bit 16 ?b AND 0xff) :: u8" and ?h = "0xe0 OR 0x10 OR ucast (drop_bit 24 ?b AND 0x0f) :: u8"
  have c: "ide_command b = select ?l0 ?l1 ?l2 ?h
      @ (if b_dirty b then [Outb 0x1f7 0x30, Outsl 0x1f0 (b_data b)] else [Outb 0x1f7 0x20])"
    by (simp add: ide_command_def select_def assms(2) Let_def IDE_CMD_WRITE_def IDE_CMD_READ_def or.assoc)
  note l = lba_command [OF assms(3)]
  show "media (xs @ ide_command b) = (if b_dirty b then (media xs)(?b := b_data b) else media xs)"
    unfolding c using assms(1) l by (simp add: drive_ok_def)
  assume "\<not> b_dirty b"
  then show "reply (xs @ ide_command b) = media xs ?b" unfolding c using assms(1) l by (simp add: drive_ok_def)
qed

lemma wait_ready_ends:
  assumes "st m AND 0xc0 = 0x40" "n \<le> m"
  shows "\<exists>k. wait_ready st n = Some k \<and> st k AND 0xc0 = 0x40"
  using assms(2)
proof (induction "m - n" arbitrary: n)
  case 0
  then show ?case using assms(1) by (auto simp: wait_ready.simps [of st n] IDE_BSY_def IDE_DRDY_def)
next
  case (Suc d)
  show ?case
  proof (cases "st n AND 0xc0 = 0x40")
    case False
    then have "wait_ready st n = wait_ready st (Suc n)" by (simp add: wait_ready.simps [of st n] IDE_BSY_def IDE_DRDY_def)
    then show ?thesis using Suc by simp
  qed (auto simp: wait_ready.simps [of st n] IDE_BSY_def IDE_DRDY_def)
qed

lemma idewait_ready:
  assumes "drive_ok media reply (id_st s)"
  shows "\<exists>k. idewait c s = Inr (0, s\<lparr>id_rd := k\<rparr>)"
proof -
  have "\<exists>m\<ge>id_rd s. id_st s m AND 0xc0 = 0x40" using assms unfolding drive_ok_def by blast
  then obtain m where "id_rd s \<le> m" "id_st s m AND 0xc0 = 0x40" by blast
  from wait_ready_ends [where st = "id_st s", OF this(2,1)] obtain k where "wait_ready (id_st s) (id_rd s) = Some k" "id_st s k AND 0xc0 = 0x40" by auto
  then show ?thesis using assms by (auto simp: idewait_def drive_ok_def IDE_DF_def IDE_ERR_def)
qed


subsection \<open>The refinement\<close>

text \<open>
  What happens around the driver: a process \<open>pid\<close> asks for buffer \<open>i\<close>, the drive interrupts, or the
  rest of the kernel changes a buffer that is not queued.
\<close>

datatype ide_event = Ask int nat | Interrupt | Change nat buf

definition ide_event :: "(port list \<Rightarrow> mem) \<Rightarrow> ide_event \<Rightarrow> ide \<Rightarrow> ide res" where
  "ide_event reply e s =
     (case e of
        Ask pid i \<Rightarrow> bind_res (ide_rw i (on_bufs (\<lambda>f. f\<lparr>f_pid := pid\<rparr>) s)) (\<lambda>(r, s). Inr s)
      | Interrupt \<Rightarrow> ideintr (reply (id_io s)) s
      | Change i b \<Rightarrow> Inr (on_bufs (upd_buf i (\<lambda>_. b)) s))"

text \<open>
  The specification: the requests wait in a list, and an interrupt serves the first one by the
  synchronous \<open>iderw\<close> of memide.c, run for the process that holds the buffer.
\<close>

definition serve :: "nat \<Rightarrow> fsys \<Rightarrow> fsys res" where
  "serve i f =
     bind_res (iderw i (f\<lparr>f_pid := sl_pid (b_lock (f_bufs f i))\<rparr>)) (\<lambda>g.
     Inr (fwake (ChBuf i) (g\<lparr>f_pid := f_pid f\<rparr>)))"

definition may_ask :: "fsys \<Rightarrow> nat \<Rightarrow> bool" where
  "may_ask f i \<longleftrightarrow> sl_locked (b_lock (f_bufs f i)) \<and> \<not> (b_valid (f_bufs f i) \<and> \<not> b_dirty (f_bufs f i))
     \<and> b_dev (f_bufs f i) = 1 \<and> b_blockno (f_bufs f i) < FSSIZE"

fun spec_event :: "ide_event \<Rightarrow> fsys \<times> nat list \<Rightarrow> (fsys \<times> nat list) option" where
  "spec_event (Ask pid i) (f, q) =
     (if i \<notin> set q \<and> may_ask f i \<and> sl_pid (b_lock (f_bufs f i)) = pid then Some (f\<lparr>f_pid := pid\<rparr>, q @ [i]) else None)"
| "spec_event Interrupt (f, []) = Some (f, [])"
| "spec_event Interrupt (f, i # q) = (case serve i f of Inl _ \<Rightarrow> None | Inr g \<Rightarrow> Some (g, q))"
| "spec_event (Change i b) (f, q) = (if i \<notin> set q then Some (upd_buf i (\<lambda>_. b) f, q) else None)"

definition issued :: "fsys \<Rightarrow> nat list \<Rightarrow> u32 \<Rightarrow> mem" where
  "issued f q =
     (case q of i # _ \<Rightarrow> (let b = f_bufs f i in if b_dirty b then (f_disk f)(b_blockno b := b_data b) else f_disk f)
      | [] \<Rightarrow> f_disk f)"

definition ide_rel :: "(port list \<Rightarrow> u32 \<Rightarrow> mem) \<Rightarrow> (port list \<Rightarrow> mem) \<Rightarrow> ide \<Rightarrow> fsys \<Rightarrow> nat list \<Rightarrow> bool" where
  "ide_rel media reply s f q \<longleftrightarrow>
     f_bufs (id_fs s) = f_bufs f \<and> f_wakes (id_fs s) = f_wakes f \<and> f_disksize f = FSSIZE \<and> id_have1 s
   \<and> queue_is (id_qnext s) (id_queue s) q \<and> distinct q \<and> (\<forall>i\<in>set q. may_ask f i)
   \<and> media (id_io s) = issued f q
   \<and> (q \<noteq> [] \<longrightarrow> \<not> b_dirty (f_bufs f (hd q)) \<longrightarrow> reply (id_io s) = f_disk f (b_blockno (f_bufs f (hd q))))"

text \<open>Starting the head of the queue.\<close>

lemma idestart_ok:
  assumes "drive_ok media reply (id_st s)" "f_bufs (id_fs s) = f_bufs f" "may_ask f i" "media (id_io s) = f_disk f"
  shows "\<exists>k. idestart (Some i) s = Inr (s\<lparr>id_rd := k, id_io := id_io s @ ide_command (f_bufs f i)\<rparr>)"
    "media (id_io s @ ide_command (f_bufs f i)) = issued f (i # q)"
    "\<not> b_dirty (f_bufs f i) \<Longrightarrow> reply (id_io s @ ide_command (f_bufs f i)) = f_disk f (b_blockno (f_bufs f i))"
proof -
  have b: "b_dev (f_bufs f i) = 1" "b_blockno (f_bufs f i) < FSSIZE" using assms(3) by (auto simp: may_ask_def)
  obtain k where "idewait False s = Inr (0, s\<lparr>id_rd := k\<rparr>)" using idewait_ready [OF assms(1)] by blast
  then show "\<exists>k. idestart (Some i) s = Inr (s\<lparr>id_rd := k, id_io := id_io s @ ide_command (f_bufs f i)\<rparr>)"
    using b(2) assms(2) by (auto simp: idestart_def out_def Let_def)
  show "media (id_io s @ ide_command (f_bufs f i)) = issued f (i # q)"
    using command_drive(1) [OF assms(1) b] assms(4) by (simp add: issued_def Let_def)
  show "\<not> b_dirty (f_bufs f i) \<Longrightarrow> reply (id_io s @ ide_command (f_bufs f i)) = f_disk f (b_blockno (f_bufs f i))"
    using command_drive(2) [OF assms(1) b] assms(4) by simp
qed

lemma ask_step:
  assumes d: "drive_ok media reply (id_st s)" and r: "ide_rel media reply s f q"
    and i: "i \<notin> set q" "may_ask f i" "sl_pid (b_lock (f_bufs f i)) = pid"
  shows "\<exists>s'. ide_event reply (Ask pid i) s = Inr s' \<and> ide_rel media reply s' (f\<lparr>f_pid := pid\<rparr>) (q @ [i]) \<and> id_st s' = id_st s"
proof -
  let ?s = "on_bufs (\<lambda>f. f\<lparr>f_pid := pid\<rparr>) s" and ?f = "f\<lparr>f_pid := pid\<rparr>"
  have sel: "f_bufs (id_fs s) = f_bufs f" "f_wakes (id_fs s) = f_wakes f" "f_disksize f = FSSIZE" "id_have1 s"
    "queue_is (id_qnext s) (id_queue s) q" "distinct q" "\<forall>j\<in>set q. may_ask f j" "media (id_io s) = issued f q"
    using r by (auto simp: ide_rel_def)
  obtain nxt where a: "ide_append i ?s = Inr (?s\<lparr>id_queue := Some (hd (q @ [i])), id_qnext := nxt\<rparr>)"
    and qn: "queue_is nxt (Some (hd (q @ [i]))) (q @ [i])"
    using ide_append_list [of ?s q i] sel(5,6) i(1) by auto
  have m: "may_ask ?f j = may_ask f j" for j by (simp add: may_ask_def)
  have ok: "holdingsleep pid (b_lock (f_bufs f i))" "\<not> ide_done i ?s"
    using i(2,3) sel(1) by (auto simp: may_ask_def holdingsleep_def ide_done_def on_bufs_def)
  show ?thesis
  proof (cases q)
    case Nil
    let ?t = "?s\<lparr>id_queue := Some i, id_qnext := nxt\<rparr>"
    have md: "media (id_io ?t) = f_disk ?f" using sel(8) Nil by (simp add: issued_def on_bufs_def)
    have t: "drive_ok media reply (id_st ?t)" "f_bufs (id_fs ?t) = f_bufs ?f" "may_ask ?f i"
      using d sel(1) i(2) m by (simp_all add: on_bufs_def)
    note st = idestart_ok [OF t md]
    obtain k where "idestart (Some i) ?t = Inr (?t\<lparr>id_rd := k, id_io := id_io ?t @ ide_command (f_bufs ?f i)\<rparr>)"
      using st(1) by blast
    then have "ide_event reply (Ask pid i) s = Inr (?t\<lparr>id_rd := k, id_io := id_io ?t @ ide_command (f_bufs ?f i)\<rparr>)"
      using a ok sel(1,4) Nil by (auto simp: ide_event_def ide_rw_def Let_def on_bufs_def)
    then show ?thesis using st(2) [of "[]"] st(3) sel qn m i(2) Nil by (auto simp: ide_rel_def on_bufs_def)
  next
    case (Cons h r')
    then have "id_queue s = Some h" "h \<noteq> i" using sel(5) i(1) by auto
    then have "ide_event reply (Ask pid i) s = Inr (?s\<lparr>id_qnext := nxt\<rparr>)"
      using a ok sel(1,4) Cons by (auto simp: ide_event_def ide_rw_def Let_def on_bufs_def)
    then show ?thesis using r qn m i(1,2) Cons by (auto simp: ide_rel_def on_bufs_def issued_def Let_def)
  qed
qed

text \<open>What \<open>iderw\<close> of memide.c does for a request that may be asked.\<close>

lemma serve_eq:
  assumes "may_ask f i" "f_disksize f = FSSIZE"
  shows "serve i f = Inr (fwake (ChBuf i)
    (let b = f_bufs f i in
     if b_dirty b then upd_buf i (\<lambda>b. b\<lparr>b_dirty := False, b_valid := True\<rparr>)
       (f\<lparr>f_disk := (f_disk f)(b_blockno b := b_data b), f_writes := f_writes f @ [(b_blockno b, b_data b)]\<rparr>)
     else upd_buf i (\<lambda>b. b\<lparr>b_data := f_disk f (b_blockno b), b_valid := True\<rparr>) f))"
  using assms by (auto simp: serve_def iderw_def may_ask_def holdingsleep_def Let_def)

lemma interrupt_step:
  assumes d: "drive_ok media reply (id_st s)" and r: "ide_rel media reply s f (i # q)"
  shows "\<exists>s' g. ide_event reply Interrupt s = Inr s' \<and> serve i f = Inr g \<and> ide_rel media reply s' g q \<and> id_st s' = id_st s"
proof -
  have sel: "f_bufs (id_fs s) = f_bufs f" "f_wakes (id_fs s) = f_wakes f" "f_disksize f = FSSIZE" "id_have1 s"
    "id_queue s = Some i" "queue_is (id_qnext s) (id_qnext s i) q" "i \<notin> set q" "distinct q"
    "may_ask f i" "\<forall>j\<in>set q. may_ask f j" "media (id_io s) = issued f (i # q)"
    "\<not> b_dirty (f_bufs f i) \<Longrightarrow> reply (id_io s) = f_disk f (b_blockno (f_bufs f i))"
    using r by (auto simp: ide_rel_def)
  let ?b = "f_bufs f i"
  obtain g where g: "serve i f = Inr g" using serve_eq [OF sel(9,3)] by simp
  have gb: "f_bufs g = (f_bufs f)(i := ?b\<lparr>b_data := (if b_dirty ?b then b_data ?b else f_disk f (b_blockno ?b)),
        b_valid := True, b_dirty := False\<rparr>)" "f_wakes g = f_wakes f @ [ChBuf i]" "f_disksize g = FSSIZE"
    "f_disk g = (if b_dirty ?b then (f_disk f)(b_blockno ?b := b_data ?b) else f_disk f)"
    using g sel(3) serve_eq [OF sel(9,3)] by (auto simp: Let_def split: if_splits)
  have ask: "may_ask g j" if "j \<in> set q" for j using that sel(7,10) gb(1) by (auto simp: may_ask_def)
  define t where "t k = on_bufs (\<lambda>f. fwake (ChBuf i) (upd_buf i (\<lambda>b. b\<lparr>b_valid := True, b_dirty := False\<rparr>) f))
      (on_bufs (\<lambda>h. if b_dirty ?b then h else upd_buf i (\<lambda>b. b\<lparr>b_data := f_disk f (b_blockno ?b)\<rparr>) h)
        (s\<lparr>id_queue := id_qnext s i, id_rd := k\<rparr>))" for k
  have tb: "f_bufs (id_fs (t k)) = f_bufs g" "f_wakes (id_fs (t k)) = f_wakes g" "id_io (t k) = id_io s" "id_st (t k) = id_st s"
    "id_queue (t k) = id_qnext s i" "id_qnext (t k) = id_qnext s" "id_have1 (t k)" for k
    using gb(1,2) sel(1,2,4) by (auto simp: t_def)
  have m: "media (id_io s) = f_disk g" using sel(11) gb(4) by (simp add: issued_def Let_def)
  have "\<exists>k. ideintr (reply (id_io s)) s = (if id_queue (t k) \<noteq> None then idestart (id_queue (t k)) (t k) else Inr (t k))"
  proof (cases "b_dirty ?b")
    case True
    then show ?thesis using sel(1,5)
      by (intro exI [of _ "id_rd s"]) (simp add: ideintr_def t_def on_bufs_def Let_def)
  next
    case False
    obtain k where "idewait True (s\<lparr>id_queue := id_qnext s i\<rparr>) = Inr (0, s\<lparr>id_queue := id_qnext s i, id_rd := k\<rparr>)"
      using idewait_ready [of media reply "s\<lparr>id_queue := id_qnext s i\<rparr>" True] d by auto
    then show ?thesis using False sel(1,5,12)
      by (intro exI [of _ k]) (simp add: ideintr_def t_def on_bufs_def Let_def)
  qed
  then obtain k where k: "ide_event reply Interrupt s
      = (if id_queue (t k) \<noteq> None then idestart (id_queue (t k)) (t k) else Inr (t k))" by (auto simp: ide_event_def)
  show ?thesis
  proof (cases q)
    case Nil
    then have "ide_event reply Interrupt s = Inr (t k)" using k sel(6) tb by simp
    then show ?thesis using g gb(3) tb sel(6) m Nil by (auto simp: ide_rel_def issued_def)
  next
    case (Cons j r')
    then have j: "id_queue (t k) = Some j" using sel(6) tb by simp
    have h: "drive_ok media reply (id_st (t k))" "may_ask g j" "media (id_io (t k)) = f_disk g"
      using d ask Cons tb m by simp_all
    note st = idestart_ok [OF h(1) tb(1) h(2,3)]
    obtain k' where "ide_event reply Interrupt s
        = Inr ((t k)\<lparr>id_rd := k', id_io := id_io (t k) @ ide_command (f_bufs g j)\<rparr>)"
      using st(1) k j by auto
    then show ?thesis using g gb(3) tb sel(6-8) st(2) [of r'] st(3) ask j Cons by (auto simp: ide_rel_def)
  qed
qed

lemma ide_step:
  assumes d: "drive_ok media reply (id_st s)" and r: "ide_rel media reply s f q"
    and e: "spec_event e (f, q) = Some (g, q')"
  shows "\<exists>s'. ide_event reply e s = Inr s' \<and> ide_rel media reply s' g q' \<and> id_st s' = id_st s"
proof (cases e)
  case (Ask pid i)
  then show ?thesis using ask_step [OF d r, of i pid] e by (auto split: if_splits)
next
  case Interrupt
  show ?thesis
  proof (cases q)
    case Nil
    then have "id_queue s = None" using r by (simp add: ide_rel_def)
    then show ?thesis using e r Interrupt Nil by (simp add: ide_event_def ideintr_def)
  next
    case (Cons i q'')
    then show ?thesis using interrupt_step [OF d, of f i q''] r e Interrupt by auto
  qed
next
  case (Change i b)
  then have "i \<notin> set q" "g = upd_buf i (\<lambda>_. b) f" "q' = q" using e by (auto split: if_splits)
  then show ?thesis using r Change
    by (auto simp: ide_rel_def ide_event_def may_ask_def issued_def Let_def on_bufs_def split: list.split)
qed

fun ide_run :: "(port list \<Rightarrow> mem) \<Rightarrow> ide_event list \<Rightarrow> ide \<Rightarrow> ide res" where
  "ide_run reply [] s = Inr s"
| "ide_run reply (e # es) s = bind_res (ide_event reply e s) (ide_run reply es)"

fun spec_run :: "ide_event list \<Rightarrow> fsys \<times> nat list \<Rightarrow> (fsys \<times> nat list) option" where
  "spec_run [] a = Some a"
| "spec_run (e # es) a = Option.bind (spec_event e a) (spec_run es)"

lemma ide_run_rel:
  assumes "drive_ok media reply (id_st s)" "ide_rel media reply s f q" "spec_run es (f, q) = Some (g, q')"
  shows "\<exists>s'. ide_run reply es s = Inr s' \<and> ide_rel media reply s' g q' \<and> id_st s' = id_st s"
  using assms
proof (induction es arbitrary: s f q)
  case (Cons e es)
  then obtain f1 q1 where e: "spec_event e (f, q) = Some (f1, q1)" and es: "spec_run es (f1, q1) = Some (g, q')"
    by (auto simp: Option.bind_eq_Some_conv)
  from ide_step [OF Cons.prems(1,2) e] obtain s1 where
    "ide_event reply e s = Inr s1" "ide_rel media reply s1 f1 q1" "id_st s1 = id_st s" by blast
  then show ?case using Cons.IH [of s1 f1 q1] Cons.prems(1) es by auto
qed auto

lemma next_served: "ide_rel media reply s f (i # q) \<Longrightarrow> \<exists>g. spec_event Interrupt (f, i # q) = Some (g, q)"
  using serve_eq [of f i] by (auto simp: ide_rel_def)

end
