(* ===== verification/Ide_Correct.thy ===== *)
theory Ide_Correct
  imports Ide_Ok Fs_Example
begin

text \<open>
  The property of the disk driver, applied to a drive that keeps its registers and its blocks, with
  one process that reads a block and one that writes it.
\<close>

definition drive :: "port \<Rightarrow> (u16 \<Rightarrow> u8) \<times> (u32 \<Rightarrow> mem) \<Rightarrow> (u16 \<Rightarrow> u8) \<times> (u32 \<Rightarrow> mem)" where
  "drive x a =
     (case x of
        Outb p v \<Rightarrow> ((fst a)(p := v), snd a)
      | Outsl p d \<Rightarrow> let r = fst a in
          (r, if r 0x1f7 = 0x30 then (snd a)(lba (r 0x1f3) (r 0x1f4) (r 0x1f5) (r 0x1f6) := d) else snd a))"

definition drive_media :: "port list \<Rightarrow> u32 \<Rightarrow> mem" where
  "drive_media xs = snd (fold drive xs (\<lambda>_. 0, \<lambda>_ _. 7))"

definition drive_reply :: "port list \<Rightarrow> mem" where
  "drive_reply xs =
     (let a = fold drive xs (\<lambda>_. 0, \<lambda>_ _. 7); r = fst a
      in snd a (lba (r 0x1f3) (r 0x1f4) (r 0x1f5) (r 0x1f6)))"

lemma drive_is_ok: "drive_ok drive_media drive_reply (\<lambda>_. 0x40)"
  by (auto simp: drive_ok_def drive_media_def drive_reply_def select_def drive_def Let_def)

definition demo_blk :: "bool \<Rightarrow> int \<Rightarrow> mem \<Rightarrow> buf" where
  "demo_blk w pid d = \<lparr>b_valid = w, b_dirty = w, b_dev = 1, b_blockno = 5,
     b_lock = \<lparr>sl_locked = True, sl_pid = pid\<rparr>, b_refcnt = 1, b_data = d\<rparr>"

definition demo_bufs :: fsys where
  "demo_bufs = demo_base\<lparr>f_bufs := \<lambda>i. if i = 0 then demo_blk False 3 (\<lambda>_. 0) else demo_blk True 4 (\<lambda>_. 1),
     f_disk := (\<lambda>_ _. 7), f_disksize := FSSIZE, f_wakes := []\<rparr>"

definition demo_ide :: ide where
  "demo_ide = \<lparr>id_fs = demo_bufs, id_queue = None, id_qnext = (\<lambda>_. None), id_have1 = True, id_io = [],
     id_st = (\<lambda>_. 0x40), id_rd = 0\<rparr>"

text \<open>
  C12: With a drive that follows the commands at its registers, the driver of ide.c refines
  the synchronous disk of memide.c: for every order of requests and interrupts the buffers,
  the wake-ups and the content of the disk are those of serving the requests one at a time
  in the order of their arrival, and a queued request is always under way.
\<close>

theorem ide_refines_memide:
  assumes "drive_ok media reply (id_st s)"
    and "id_queue s = None" "id_have1 s" "f_bufs (id_fs s) = f_bufs f" "f_wakes (id_fs s) = f_wakes f"
      "f_disksize f = FSSIZE" "media (id_io s) = f_disk f"
    and "spec_run es (f, []) = Some (g, q)"
  shows "\<exists>s'. ide_run reply es s = Inr s' \<and> f_bufs (id_fs s') = f_bufs g \<and> f_wakes (id_fs s') = f_wakes g
    \<and> queue_is (id_qnext s') (id_queue s') q \<and> media (id_io s') = issued g q
    \<and> (\<forall>i r. q = i # r \<longrightarrow> (\<exists>h. spec_event Interrupt (g, q) = Some (h, r)))"
proof -
  have "ide_rel media reply s f []" using assms(2-7) by (simp add: ide_rel_def issued_def)
  from ide_run_rel [OF assms(1) this assms(8)] obtain s' where s': "ide_run reply es s = Inr s'" "ide_rel media reply s' g q"
    by blast
  moreover have "\<exists>h. spec_event Interrupt (g, q) = Some (h, r)" if "q = i # r" for i r
    using next_served [of media reply s' g i r] s'(2) that by simp
  ultimately show ?thesis by (auto simp: ide_rel_def)
qed

theorem ide_refines_memide_witness:
  "\<exists>s'. ide_run drive_reply [Ask 3 0, Ask 4 1, Interrupt, Interrupt] demo_ide = Inr s' \<and> id_queue s' = None
    \<and> b_data (f_bufs (id_fs s') 0) = (\<lambda>_. 7) \<and> drive_media (id_io s') 5 = (\<lambda>_. 1)
    \<and> f_wakes (id_fs s') = [ChBuf 0, ChBuf 1]"
proof -
  have b: "f_bufs demo_bufs 0 = demo_blk False 3 (\<lambda>_. 0)" "f_bufs demo_bufs (Suc 0) = demo_blk True 4 (\<lambda>_. 1)"
    "f_disk demo_bufs = (\<lambda>_ _. 7)" "f_disksize demo_bufs = FSSIZE" "f_wakes demo_bufs = []"
    by (simp_all add: demo_bufs_def)
  obtain g where g: "spec_run [Ask 3 0, Ask 4 1, Interrupt, Interrupt] (demo_bufs, []) = Some (g, [])"
    "b_data (f_bufs g 0) = (\<lambda>_. 7)" "f_disk g 5 = (\<lambda>_. 1)" "f_wakes g = [ChBuf 0, ChBuf 1]"
    by (simp add: may_ask_def serve_eq demo_blk_def FSSIZE_def b Let_def)
  have d: "drive_ok drive_media drive_reply (id_st demo_ide)" "id_queue demo_ide = None" "id_have1 demo_ide"
    "f_bufs (id_fs demo_ide) = f_bufs demo_bufs" "f_wakes (id_fs demo_ide) = f_wakes demo_bufs"
    "drive_media (id_io demo_ide) = f_disk demo_bufs"
    using drive_is_ok b by (simp_all add: demo_ide_def drive_media_def)
  from ide_refines_memide [OF d(1-5) b(4) d(6) g(1)] obtain s' where
    "ide_run drive_reply [Ask 3 0, Ask 4 1, Interrupt, Interrupt] demo_ide = Inr s'" "f_bufs (id_fs s') = f_bufs g"
    "f_wakes (id_fs s') = f_wakes g" "queue_is (id_qnext s') (id_queue s') []" "drive_media (id_io s') = issued g []"
    by blast
  then show ?thesis using g(2-) by (intro exI [of _ s']) (simp add: issued_def del: ide_run.simps)
qed

end
