(* ===== verification/Mkfs.thy ===== *)
theory Mkfs
  imports Dir
begin

text \<open>
  mkfs.c: the program that builds the image of the file system on the host. The image file is a
  function from a sector number to the sector and its length in sectors; reads and writes of the
  host succeed inside the file, and reading behind its end is the error it reports with \<open>exit(1)\<close>.
  A call of \<open>exit(1)\<close> and a failed assertion are \<open>Panic\<close>. Structures lie in the sectors as in
  the kernel (\<open>put_dinode\<close>, \<open>get_dinode\<close>); the host is little-endian.
\<close>

record image =
  m_disk :: "u32 \<Rightarrow> mem"
  m_size :: nat
  m_sb :: superblock
  m_freeinode :: u32
  m_freeblock :: u32

definition FSBLOCKS :: nat where "FSBLOCKS = 40000"
definition NINODES :: nat where "NINODES = 200"
definition nbitmap :: nat where "nbitmap = FSBLOCKS div (BSIZE * 8) + 1"
definition ninodeblocks :: nat where "ninodeblocks = NINODES div IPB + 1"
definition nlog :: nat where "nlog = LOGSIZE"
definition nmeta :: nat where "nmeta = 2 + nlog + ninodeblocks + nbitmap"

definition xshort :: "u16 \<Rightarrow> u16" where "xshort x = get16 (put16 0 x (\<lambda>_. 0)) 0"
definition xint :: "u32 \<Rightarrow> u32" where "xint x = get32 (put32 0 x (\<lambda>_. 0)) 0"


subsection \<open>Sectors and inodes\<close>

definition wsect :: "u32 \<Rightarrow> mem \<Rightarrow> image \<Rightarrow> image" where
  "wsect sec buf m = m\<lparr>m_disk := (m_disk m)(sec := buf), m_size := max (m_size m) (Suc (unat sec))\<rparr>"

definition rsect :: "u32 \<Rightarrow> image \<Rightarrow> mem res" where
  "rsect sec m = (if unat sec < m_size m then Inr (m_disk m sec) else Inl (Panic ''exit: read''))"

definition bzero_dinode :: inode where
  "bzero_dinode = \<lparr>i_dev = 0, i_inum = 0, i_ref = 0, i_lock = initsleeplock, i_valid = False, i_type = 0,
     i_major = 0, i_minor = 0, i_nlink = 0, i_size = 0, i_addrs = \<lambda>_. 0\<rparr>"

definition winode :: "u32 \<Rightarrow> inode \<Rightarrow> image \<Rightarrow> image res" where
  "winode inum ip m =
     (let bn = IBLOCK inum (m_sb m) in
      bind_res (rsect bn m) (\<lambda>buf. Inr (wsect bn (put_dinode ip (dinode_off inum) buf) m)))"

definition rinode :: "u32 \<Rightarrow> image \<Rightarrow> inode res" where
  "rinode inum m =
     bind_res (rsect (IBLOCK inum (m_sb m)) m) (\<lambda>buf. Inr (get_dinode (dinode_off inum) buf bzero_dinode))"

definition mk_ialloc :: "u16 \<Rightarrow> image \<Rightarrow> (u32 \<times> image) res" where
  "mk_ialloc type m =
     (let inum = m_freeinode m;
          m = m\<lparr>m_freeinode := inum + 1\<rparr>;
          din = bzero_dinode\<lparr>i_type := xshort type, i_nlink := xshort 1, i_size := xint 0\<rparr>
      in bind_res (winode inum din m) (\<lambda>m. Inr (inum, m)))"

definition mk_balloc :: "nat \<Rightarrow> image \<Rightarrow> image res" where
  "mk_balloc used m =
     (if used \<ge> BSIZE * 8 then Inl (Panic ''assert: used < BSIZE*8'')
      else
        let buf = fold (\<lambda>i b. b(i div 8 := b (i div 8) OR push_bit (i mod 8) 1)) [0..<used] (\<lambda>_. 0)
        in Inr (wsect (sb_bmapstart (m_sb m)) buf m))"


subsection \<open>Appending to a file\<close>

definition next_block :: "image \<Rightarrow> u32 \<times> image" where
  "next_block m = (xint (m_freeblock m), m\<lparr>m_freeblock := m_freeblock m + 1\<rparr>)"

definition din_slot :: "nat \<Rightarrow> inode \<Rightarrow> image \<Rightarrow> inode \<times> image" where
  "din_slot k din m =
     (if xint (i_addrs din k) = 0 then
        let (x, m) = next_block m in (din\<lparr>i_addrs := (i_addrs din)(k := x)\<rparr>, m)
      else (din, m))"

text \<open>
  The sector of block \<open>fbn\<close>. The array \<open>indirect\<close> has \<open>NINDIRECT\<close> entries, while the loop only
  asserts that \<open>fbn\<close> is below \<open>MAXFILE\<close>, which counts the doubly and triple indirect blocks.
\<close>

definition file_sector :: "nat \<Rightarrow> inode \<Rightarrow> image \<Rightarrow> (u32 \<times> inode \<times> image) res" where
  "file_sector fbn din m =
     (if fbn < NDIRECT then
        let (din, m) = din_slot fbn din m in Inr (xint (i_addrs din fbn), din, m)
      else
        let (din, m) = din_slot NDIRECT din m; ib = xint (i_addrs din NDIRECT) in
        bind_res (rsect ib m) (\<lambda>ind.
        let k = fbn - NDIRECT in
        if k \<ge> NINDIRECT then Inl (Fault ''iappend: indirect overrun'')
        else if ind_get ind k = 0 then
          let (x, m) = next_block m; ind = ind_put k x ind
          in Inr (xint (ind_get ind k), din, wsect ib ind m)
        else Inr (xint (ind_get ind k), din, m)))"

function iappend_loop :: "u8 list \<Rightarrow> nat \<Rightarrow> inode \<Rightarrow> image \<Rightarrow> (nat \<times> inode \<times> image) res" where
  "iappend_loop p off din m =
     (if p = [] then Inr (off, din, m)
      else
        let fbn = off div BSIZE in
        if \<not> fbn < MAXFILE then Inl (Panic ''assert: fbn < MAXFILE'')
        else bind_res (file_sector fbn din m) (\<lambda>r.
          let x = fst r; din = fst (snd r); m = snd (snd r);
              n1 = min (length p) ((fbn + 1) * BSIZE - off)
          in bind_res (rsect x m) (\<lambda>buf.
             iappend_loop (drop n1 p) (off + n1) din
               (wsect x (mcopy (list_mem p) 0 (off - fbn * BSIZE) n1 buf) m))))"
  by pat_completeness auto
termination
proof (relation "measure (\<lambda>(p, _). length p)")
  fix p :: "u8 list" and off fbn n1 :: nat
  assume "p \<noteq> []" "fbn = off div BSIZE" "n1 = min (length p) ((fbn + 1) * BSIZE - off)"
  moreover have "off < (off div BSIZE + 1) * BSIZE" by (simp add: BSIZE_def)
  ultimately show "((drop n1 p, off + n1, a, b), (p, off, c, d)) \<in> measure (\<lambda>(p, _). length p)" for a b c d
    by (cases p) auto
qed simp

declare iappend_loop.simps [simp del]

definition iappend :: "u32 \<Rightarrow> u8 list \<Rightarrow> image \<Rightarrow> image res" where
  "iappend inum p m =
     bind_res (rinode inum m) (\<lambda>din.
     bind_res (iappend_loop p (unat (xint (i_size din))) din m) (\<lambda>(off, din, m).
     winode inum (din\<lparr>i_size := xint (of_nat off)\<rparr>) m))"


subsection \<open>The program\<close>

text \<open>An entry: \<open>bzero\<close>, the number, and \<open>strncpy\<close> of the name of the C library.\<close>

definition mk_dirent :: "u8 list \<Rightarrow> u32 \<Rightarrow> u8 list" where
  "mk_dirent name inum =
     bytes (put16 0 (xshort (ucast inum)) (\<lambda>j. list_mem (take DIRSIZ name) (j - 2))) 0 DIRENT"

definition put_sb :: "superblock \<Rightarrow> mem \<Rightarrow> mem" where
  "put_sb sb m =
     put32 24 (sb_bmapstart sb) (put32 20 (sb_inodestart sb) (put32 16 (sb_logstart sb) (put32 12 (sb_nlog sb)
       (put32 8 (sb_ninodes sb) (put32 4 (sb_nblocks sb) (put32 0 (sb_size sb) m))))))"

definition mk_sb :: superblock where
  "mk_sb = \<lparr>sb_size = xint (of_nat FSBLOCKS), sb_nblocks = xint (of_nat (FSBLOCKS - nmeta)),
     sb_ninodes = xint (of_nat NINODES), sb_nlog = xint (of_nat nlog), sb_logstart = xint 2,
     sb_inodestart = xint (of_nat (2 + nlog)), sb_bmapstart = xint (of_nat (2 + nlog + ninodeblocks))\<rparr>"

definition mk_empty :: image where
  "mk_empty =
     fold (\<lambda>i. wsect (of_nat i) (\<lambda>_. 0)) [0..<FSBLOCKS]
       \<lparr>m_disk = \<lambda>_ _. 0, m_size = 0, m_sb = mk_sb, m_freeinode = 1, m_freeblock = of_nat nmeta\<rparr>"

definition mk_root :: "image \<Rightarrow> image res" where
  "mk_root m =
     bind_res (mk_ialloc T_DIR m) (\<lambda>(rootino, m).
     if rootino \<noteq> ROOTINO then Inl (Panic ''assert: rootino == ROOTINO'')
     else bind_res (iappend rootino (mk_dirent [46] rootino) m) (\<lambda>m.
          iappend rootino (mk_dirent [46, 46] rootino) m))"

text \<open>
  One file of the command line: its name and the pieces that \<open>read\<close> brings until it brings none,
  or \<open>None\<close> when it cannot be opened. 95 is the underscore.
\<close>

definition mk_name :: "u8 list \<Rightarrow> u8 list" where
  "mk_name arg = (if arg \<noteq> [] \<and> hd arg = 95 then tl arg else arg)"

definition mk_file :: "u8 list \<times> u8 list list option \<Rightarrow> image \<Rightarrow> image res" where
  "mk_file f m =
     (if slash \<in> set (fst f) then Inl (Panic ''assert: no slash'')
      else case snd f of
        None \<Rightarrow> Inl (Panic ''exit: open'')
      | Some reads \<Rightarrow>
          bind_res (mk_ialloc T_FILE m) (\<lambda>(inum, m).
          bind_res (iappend ROOTINO (mk_dirent (mk_name (fst f)) inum) m) (\<lambda>m.
          for_each (iappend inum) (takeWhile (\<lambda>c. c \<noteq> []) reads) m)))"

definition mk_round :: "image \<Rightarrow> image res" where
  "mk_round m =
     bind_res (rinode ROOTINO m) (\<lambda>din.
     let off = xint (i_size din); off = (off div of_nat BSIZE + 1) * of_nat BSIZE
     in winode ROOTINO (din\<lparr>i_size := xint off\<rparr>) m)"

definition mkfs :: "(u8 list \<times> u8 list list option) list \<Rightarrow> image res" where
  "mkfs files =
     (let m = wsect 1 (put_sb mk_sb (\<lambda>_. 0)) mk_empty in
      bind_res (mk_root m) (\<lambda>m.
      bind_res (for_each mk_file files m) (\<lambda>m.
      bind_res (mk_round m) (\<lambda>m.
      mk_balloc (unat (m_freeblock m)) m))))"

end
