(* ===== verification/Mkfs_Ok.thy ===== *)
theory Mkfs_Ok
  imports Mkfs Dir_Ok
begin

text \<open>
  What the image of mkfs.c holds: files that own their sectors, with the bytes that were appended to
  them. Every operation of mkfs keeps this, and ends as long as the sectors last.
\<close>

lemma xshort_xint [simp]: "xshort x = x" "xint y = y"
  by (simp_all add: xshort_def xint_def)

lemma mk_consts: "nmeta = 68" "nlog = 30" "ninodeblocks = 26" "BSIZE = 512" "NDIRECT = 10" "NINDIRECT = 128"
  by (simp_all add: nmeta_def nlog_def ninodeblocks_def nbitmap_def FSBLOCKS_def NINODES_def BSIZE_def IPB_def LOGSIZE_def
      NDIRECT_def NINDIRECT_def)

lemma mk_sb_sel: "sb_size mk_sb = 40000" "sb_inodestart mk_sb = 32" "sb_bmapstart mk_sb = 58" "sb_logstart mk_sb = 2"
  "sb_nlog mk_sb = 30"
  by (simp_all add: mk_sb_def mk_consts FSBLOCKS_def)


subsection \<open>Files and their sectors\<close>

text \<open>
  The sectors of a file in the order in which they are taken: ten direct ones, the indirect one,
  and those it points to. \<open>sect_at b\<close> is the place of block \<open>b\<close>, \<open>need n\<close> the number of sectors for
  \<open>n\<close> bytes.
\<close>

definition sect_at :: "nat \<Rightarrow> nat" where "sect_at b = (if b < NDIRECT then b else Suc b)"

definition need :: "nat \<Rightarrow> nat" where
  "need n = (let k = (n + (BSIZE - 1)) div BSIZE in if k \<le> NDIRECT then k else Suc k)"

definition sects :: "(u32 \<Rightarrow> mem) \<Rightarrow> inode \<Rightarrow> u32 list \<Rightarrow> bool" where
  "sects d ip bl \<longleftrightarrow>
     (\<forall>j<NDIRECT + 3. i_addrs ip j = (if j \<le> NDIRECT \<and> j < length bl then bl ! j else 0))
   \<and> (NDIRECT < length bl \<longrightarrow> (\<forall>k<NINDIRECT. ind_get (d (bl ! NDIRECT)) k
        = (if Suc NDIRECT + k < length bl then bl ! (Suc NDIRECT + k) else 0)))"

definition content :: "(u32 \<Rightarrow> mem) \<Rightarrow> u32 list \<Rightarrow> u8 list \<Rightarrow> bool" where
  "content d bl cs \<longleftrightarrow>
     (\<forall>k. sect_at (k div BSIZE) < length bl \<longrightarrow>
        d (bl ! sect_at (k div BSIZE)) (k mod BSIZE) = (if k < length cs then cs ! k else 0))"

text \<open>The sectors that are neither inodes nor data: the super block, and the bitmap that is written last.\<close>

definition mk_meta :: "u32 \<Rightarrow> mem" where
  "mk_meta b = (if b = 1 then put_sb mk_sb (\<lambda>_. 0) else (\<lambda>_. 0))"

definition img_ok :: "image \<Rightarrow> bool" where
  "img_ok m \<longleftrightarrow> m_sb m = mk_sb \<and> m_size m = FSBLOCKS \<and> nmeta \<le> unat (m_freeblock m) \<and> unat (m_freeblock m) \<le> FSBLOCKS
     \<and> (\<forall>b. m_freeblock m \<le> b \<longrightarrow> unat b < FSBLOCKS \<longrightarrow> m_disk m b = (\<lambda>_. 0))
     \<and> (\<forall>b. unat b < 32 \<or> 58 \<le> unat b \<and> unat b < nmeta \<longrightarrow> m_disk m b = mk_meta b)"

definition file_ok :: "image \<Rightarrow> inode \<Rightarrow> u32 list \<Rightarrow> u8 list \<Rightarrow> bool" where
  "file_ok m ip bl cs \<longleftrightarrow> sects (m_disk m) ip bl \<and> content (m_disk m) bl cs \<and> distinct bl
     \<and> (\<forall>b\<in>set bl. nmeta \<le> unat b \<and> b < m_freeblock m) \<and> length bl = need (length cs)"

text \<open>\<open>took n m\<close>: \<open>m\<close> with \<open>n\<close> more sectors took; \<open>news n m\<close> these sectors.\<close>

definition took :: "nat \<Rightarrow> image \<Rightarrow> image" where
  "took n m = m\<lparr>m_freeblock := m_freeblock m + of_nat n\<rparr>"

definition news :: "nat \<Rightarrow> image \<Rightarrow> u32 list" where
  "news n m = map (\<lambda>i. m_freeblock m + of_nat i) [0..<n]"

lemma unat_free: "unat (m_freeblock m) + n < 2 ^ 32 \<Longrightarrow> unat (m_freeblock m + of_nat n) = unat (m_freeblock m) + n"
  by (rule unat_add_nat_32)

lemma need_slot:
  assumes "0 < j" "n + j \<le> (n div BSIZE + 1) * BSIZE"
  shows "need (n + j) = Suc (sect_at (n div BSIZE))" "need n = Suc (sect_at (n div BSIZE)) \<or>
     n mod BSIZE = 0 \<and> need n = (if n div BSIZE \<le> NDIRECT then n div BSIZE else Suc (n div BSIZE))"
proof -
  have k: "(n + j + 511) div 512 = n div 512 + 1"
    by (rule div_nat_eqI) (use assms in \<open>simp_all add: mk_consts\<close>)
  show "need (n + j) = Suc (sect_at (n div BSIZE))" using k by (simp add: need_def sect_at_def mk_consts Let_def)
  show "need n = Suc (sect_at (n div BSIZE)) \<or>
     n mod BSIZE = 0 \<and> need n = (if n div BSIZE \<le> NDIRECT then n div BSIZE else Suc (n div BSIZE))"
  proof (cases "n mod 512 = 0")
    case True
    then have "(n + 511) div 512 = n div 512" by (intro div_nat_eqI) auto
    then show ?thesis using True by (simp add: need_def mk_consts Let_def)
  next
    case False
    define q r where "q = n div 512" and "r = n mod 512"
    have "n = 512 * q + r" "0 < r" "r < 512" using False by (simp_all add: q_def r_def)
    then have "(n + 511) div 512 = q + 1" by (intro div_nat_eqI) simp_all
    then have "(n + 511) div 512 = n div 512 + 1" by (simp only: q_def)
    then show ?thesis by (simp add: need_def sect_at_def mk_consts Let_def)
  qed
qed

lemma din_slot_has:
  assumes "sects d din bl" "j < length bl" "j \<le> NDIRECT" "0 \<notin> set bl"
  shows "din_slot j din m = (din, m)" "i_addrs din j = bl ! j"
proof -
  show a: "i_addrs din j = bl ! j" using assms(1-3) by (simp add: sects_def)
  have "bl ! j \<noteq> 0" using assms(2,4) nth_mem by metis
  then show "din_slot j din m = (din, m)" using a by (simp add: din_slot_def)
qed

lemma din_slot_new:
  assumes "sects d din bl" "j = length bl" "j \<le> NDIRECT" "d (m_freeblock m) = (\<lambda>_. 0)"
  shows "\<exists>a. din_slot j din m = (din\<lparr>i_addrs := a\<rparr>, took 1 m) \<and> sects d (din\<lparr>i_addrs := a\<rparr>) (bl @ [m_freeblock m])
    \<and> a j = m_freeblock m"
proof -
  let ?a = "(i_addrs din)(j := m_freeblock m)"
  have "i_addrs din j = 0" using assms(1-3) by (simp add: sects_def)
  then have "din_slot j din m = (din\<lparr>i_addrs := ?a\<rparr>, took 1 m)"
    by (simp add: din_slot_def next_block_def took_def)
  moreover have "sects d (din\<lparr>i_addrs := ?a\<rparr>) (bl @ [m_freeblock m])"
    using assms by (auto simp: sects_def nth_append ind_get_def get32_def)
  ultimately show ?thesis by (intro exI [of _ ?a]) simp
qed

lemma ind_get_put: "ind_get (ind_put k v m) j = (if j = k then v else ind_get m j)"
  by (cases j k rule: linorder_cases) (simp_all add: ind_get_def ind_put_def get_put32_other)

lemma owns_grow:
  assumes "sects d din bl" "NDIRECT < length bl" "k = length bl - Suc NDIRECT" "k < NINDIRECT"
  shows "sects (d(bl ! NDIRECT := ind_put k v (d (bl ! NDIRECT)))) din (bl @ [v])"
  using assms by (auto simp: sects_def nth_append ind_get_put)

text \<open>Inodes that differ in their sectors only.\<close>

definition same_din :: "inode \<Rightarrow> inode \<Rightarrow> bool" where
  "same_din ip jp \<longleftrightarrow> (\<exists>a. jp = ip\<lparr>i_addrs := a\<rparr>)"

lemma same_din_refl [simp]: "same_din ip ip" unfolding same_din_def by (rule exI [of _ "i_addrs ip"]) simp

lemma same_din_upd [simp]: "same_din ip (ip\<lparr>i_addrs := a\<rparr>)" by (auto simp: same_din_def)

lemma same_din_trans: "same_din ip jp \<Longrightarrow> same_din jp kp \<Longrightarrow> same_din ip kp"
  by (auto simp: same_din_def)

lemma news_simps: "news 0 m = []" "news (Suc 0) m = [m_freeblock m]" "news (Suc n) m = m_freeblock m # news n (took 1 m)"
  by (simp_all add: news_def took_def upt_conv_Cons map_Suc_upt [symmetric] algebra_simps del: upt_Suc)

lemma took_simps [simp]: "took 0 m = m" "m_disk (took n m) = m_disk m" "m_size (took n m) = m_size m"
  "m_sb (took n m) = m_sb m" "m_freeinode (took n m) = m_freeinode m" "took a (took b m) = took (a + b) m"
  "took n (wsect x buf m) = wsect x buf (took n m)"
  by (simp_all add: took_def wsect_def algebra_simps)

text \<open>
  The sector of block \<open>fbn\<close>, which is mapped or the next one: the sectors that are missing are
  taken, and only the indirect sector is written.
\<close>

lemma file_sector_direct:
  assumes o: "sects (m_disk m) din bl" "0 \<notin> set bl" and f: "fbn < NDIRECT"
    and z: "m_disk m (m_freeblock m) = (\<lambda>_. 0)" and l: "length bl = fbn \<or> fbn < length bl"
  defines "n \<equiv> Suc (sect_at fbn) - length bl"
  shows "\<exists>din'. file_sector fbn din m = Inr ((bl @ news n m) ! sect_at fbn, din', took n m)
    \<and> sects (m_disk m) din' (bl @ news n m) \<and> same_din din din'"
proof (cases "fbn < length bl")
  case True
  then have "din_slot fbn din m = (din, m)" "i_addrs din fbn = bl ! fbn"
    using din_slot_has [OF o(1) True _ o(2)] f by auto
  then show ?thesis using True o f by (auto simp: file_sector_def sect_at_def n_def news_simps)
next
  case False
  then have j: "fbn = length bl" using l by simp
  obtain a where a: "din_slot fbn din m = (din\<lparr>i_addrs := a\<rparr>, took 1 m)"
    "sects (m_disk m) (din\<lparr>i_addrs := a\<rparr>) (bl @ [m_freeblock m])" "a fbn = m_freeblock m"
    using din_slot_new [OF o(1) j _ z] f by auto
  then show ?thesis using j f
    by (intro exI [of _ "din\<lparr>i_addrs := a\<rparr>"]) (auto simp: file_sector_def sect_at_def n_def news_simps nth_append)
qed

lemma unat_nz: "nmeta \<le> unat (b :: u32) \<Longrightarrow> b \<noteq> 0"
  by (auto simp: mk_consts)

lemma ind_sector:
  assumes o: "sects (m_disk m) din bl" "0 \<notin> set bl" and l: "NDIRECT \<le> length bl" and z: "m_disk m (m_freeblock m) = (\<lambda>_. 0)"
  defines "n \<equiv> Suc NDIRECT - length bl"
  shows "\<exists>din'. din_slot NDIRECT din m = (din', took n m) \<and> sects (m_disk m) din' (bl @ news n m)
    \<and> i_addrs din' NDIRECT = (bl @ news n m) ! NDIRECT \<and> same_din din din'"
proof (cases "NDIRECT < length bl")
  case True
  then show ?thesis using din_slot_has(1) [OF o(1) True _ o(2)] din_slot_has(2) [OF o(1) True _ o(2)] o(1)
    by (intro exI [of _ din]) (simp add: n_def news_simps)
next
  case False
  then have j: "NDIRECT = length bl" using l by simp
  obtain a where "din_slot NDIRECT din m = (din\<lparr>i_addrs := a\<rparr>, took 1 m)"
    "sects (m_disk m) (din\<lparr>i_addrs := a\<rparr>) (bl @ [m_freeblock m])" "a NDIRECT = m_freeblock m"
    using din_slot_new [OF o(1) j _ z] by auto
  then show ?thesis using j by (intro exI [of _ "din\<lparr>i_addrs := a\<rparr>"]) (simp add: n_def news_simps nth_append)
qed

lemma set_news: "b \<in> set (news n m) \<Longrightarrow> \<exists>i<n. b = m_freeblock m + of_nat i"
  by (auto simp: news_def)

lemma news_append: "news (a + b) m = news a m @ news b (took a m)"
  by (rule nth_equalityI) (auto simp: news_def took_def nth_append algebra_simps of_nat_diff)

lemma length_news [simp]: "length (news n m) = n"
  by (simp add: news_def)

lemma file_sector_indirect:
  assumes o: "sects (m_disk m) din bl" "\<forall>b\<in>set bl. nmeta \<le> unat b \<and> unat b < FSBLOCKS"
    and f: "NDIRECT \<le> fbn" "fbn < NDIRECT + NINDIRECT" and l: "Suc fbn < length bl \<or> length bl = (if fbn = NDIRECT then fbn else Suc fbn)"
    and m: "img_ok m" and room: "unat (m_freeblock m) + 2 \<le> FSBLOCKS"
  defines "n \<equiv> Suc (sect_at fbn) - length bl"
  shows "\<exists>din' ind. file_sector fbn din m = Inr ((bl @ news n m) ! sect_at fbn, din',
        (took n m)\<lparr>m_disk := (m_disk m)((bl @ news n m) ! NDIRECT := ind)\<rparr>)
    \<and> sects ((m_disk m)((bl @ news n m) ! NDIRECT := ind)) din' (bl @ news n m) \<and> same_din din din'"
proof -
  let ?fb = "m_freeblock m" and ?n1 = "Suc NDIRECT - length bl" and ?k = "fbn - NDIRECT"
  let ?bl = "bl @ news ?n1 m" and ?m = "took ?n1 m"
  have nz: "0 \<notin> set bl" using o(2) unat_nz by blast
  have fz: "nmeta \<le> unat ?fb" "m_disk m ?fb = (\<lambda>_. 0)" "m_size m = FSBLOCKS"
    using m room by (auto simp: img_ok_def)
  obtain din1 where d1: "din_slot NDIRECT din m = (din1, ?m)" "sects (m_disk m) din1 ?bl"
    "i_addrs din1 NDIRECT = ?bl ! NDIRECT" "same_din din din1"
    using ind_sector [OF o(1) nz _ fz(2)] l f by (auto split: if_splits)
  let ?ib = "?bl ! NDIRECT"
  have len: "NDIRECT < length ?bl" "?n1 \<le> 1" "length ?bl = max (length bl) (Suc NDIRECT)" using l f by (auto split: if_splits)
  have inb: "b \<in> set bl \<or> b = ?fb" if "b \<in> set ?bl" for b
    using that len(2) set_news [of b ?n1 m] by (auto simp: le_Suc_eq)
  have big: "nmeta \<le> unat b \<and> unat b < FSBLOCKS" if "b \<in> set ?bl" for b using inb [OF that] o(2) fz(1) room by auto
  have ib: "unat ?ib < FSBLOCKS" using big nth_mem [OF len(1)] by blast
  have e: "file_sector fbn din m =
      (let ind = m_disk m ?ib in
       if ind_get ind ?k = 0 then Inr (m_freeblock ?m, din1, wsect ?ib (ind_put ?k (m_freeblock ?m) ind) (took 1 ?m))
       else Inr (ind_get ind ?k, din1, ?m))"
    using f d1(1,3) ib fz(3)
    by (simp add: file_sector_def Let_def rsect_def next_block_def took_def ind_get_put)
  show ?thesis
  proof (cases "Suc fbn < length ?bl")
    case True
    then have n: "n = ?n1" using len l f by (auto simp: n_def sect_at_def split: if_splits)
    have "ind_get (m_disk m ?ib) ?k = ?bl ! Suc fbn" using d1(2) len(1) f True by (auto simp: sects_def)
    moreover have "?bl ! Suc fbn \<noteq> 0" using big [OF nth_mem [OF True]] unat_nz by blast
    ultimately show ?thesis using e d1(2,4) f n
      by (intro exI [of _ din1] exI [of _ "m_disk m ?ib"]) (simp add: sect_at_def took_def)
  next
    case False
    then have b: "length ?bl = Suc fbn" using len l f by (auto split: if_splits)
    then have n: "n = ?n1 + 1" using len f by (auto simp: n_def sect_at_def)
    have "ind_get (m_disk m ?ib) ?k = 0" using d1(2) len(1) f b by (auto simp: sects_def)
    have own: "sects ((m_disk m)(?ib := ind_put ?k (m_freeblock ?m) (m_disk m ?ib))) din1 (?bl @ [m_freeblock ?m])"
      by (rule owns_grow [OF d1(2) len(1)]) (use b f in auto)
    have bn: "bl @ news n m = ?bl @ [m_freeblock ?m]" unfolding n news_append by (simp add: news_simps)
    have nth: "(?bl @ [m_freeblock ?m]) ! sect_at fbn = m_freeblock ?m" "(?bl @ [m_freeblock ?m]) ! NDIRECT = ?ib"
      using b f len(1) by (simp_all add: sect_at_def nth_append_left nth_append_length [symmetric] del: append_assoc)
        (metis b nth_append_length)
    have "wsect ?ib ind (took 1 ?m) = (took n m)\<lparr>m_disk := (m_disk m)(?ib := ind)\<rparr>" for ind
      using ib fz(3) by (simp add: wsect_def n took_def)
    then show ?thesis using e own d1(4) \<open>ind_get (m_disk m ?ib) ?k = 0\<close> unfolding bn nth
      by (intro exI [of _ din1] exI [of _ "ind_put ?k (m_freeblock ?m) (m_disk m ?ib)"]) (simp del: append_assoc)
  qed
qed

lemma sect_at_simps: "sect_at a = sect_at b \<longleftrightarrow> a = b" "sect_at a < sect_at b \<longleftrightarrow> a < b" "sect_at a \<noteq> NDIRECT"
  by (auto simp: sect_at_def)

lemma slot_need: "k < n \<Longrightarrow> sect_at (k div BSIZE) < need n"
proof -
  assume k: "k < n"
  define q where "q = k div 512"
  have "512 * q \<le> k" by (simp add: q_def)
  then have "q + 1 \<le> (n + 511) div 512" using k by (simp add: less_eq_div_iff_mult_less_eq)
  then show ?thesis by (auto simp: sect_at_def need_def mk_consts Let_def q_def)
qed

lemma owns_other: "sects d ip bl \<Longrightarrow> (NDIRECT < length bl \<Longrightarrow> d' (bl ! NDIRECT) = d (bl ! NDIRECT)) \<Longrightarrow> sects d' ip bl"
  by (simp add: sects_def)

lemma news_bounds:
  assumes "b \<in> set (news n m)" "unat (m_freeblock m) + n \<le> FSBLOCKS"
  shows "m_freeblock m \<le> b" "unat b < unat (m_freeblock m) + n"
proof -
  obtain i where i: "i < n" "b = m_freeblock m + of_nat i" using assms(1) set_news by blast
  then have "unat b = unat (m_freeblock m) + i" using assms(2) unat_free [of m i] by (simp add: FSBLOCKS_def)
  then show "m_freeblock m \<le> b" "unat b < unat (m_freeblock m) + n" using i(1) by (simp_all add: word_le_nat_alt)
qed

lemma distinct_news: "unat (m_freeblock m) + n \<le> FSBLOCKS \<Longrightarrow> distinct (news n m)"
proof -
  assume "unat (m_freeblock m) + n \<le> FSBLOCKS"
  then have "unat (m_freeblock m + of_nat i) = unat (m_freeblock m) + i" if "i < n" for i
    using that unat_free [of m i] by (simp add: FSBLOCKS_def)
  then show ?thesis unfolding news_def distinct_map by (auto intro!: inj_onI) (metis add_left_cancel)
qed

lemma file_sector_spec:
  assumes m: "img_ok m" and f: "file_ok m din bl cs" and fbn: "fbn < NDIRECT + NINDIRECT" "fbn = length cs div BSIZE"
    and room: "unat (m_freeblock m) + 2 \<le> FSBLOCKS"
  defines "n \<equiv> Suc (sect_at fbn) - length bl"
  shows "\<exists>din' d. file_sector fbn din m = Inr ((bl @ news n m) ! sect_at fbn, din', (took n m)\<lparr>m_disk := d\<rparr>)
    \<and> sects d din' (bl @ news n m) \<and> same_din din din'
    \<and> (\<forall>b. d b \<noteq> m_disk m b \<longrightarrow> NDIRECT < length (bl @ news n m) \<and> b = (bl @ news n m) ! NDIRECT)
    \<and> length bl + n = Suc (sect_at fbn) \<and> n \<le> 2"
proof -
  have o: "sects (m_disk m) din bl" "\<forall>b\<in>set bl. nmeta \<le> unat b \<and> b < m_freeblock m" "length bl = need (length cs)"
    using f by (auto simp: file_ok_def)
  have fs: "unat (m_freeblock m) \<le> FSBLOCKS" "m_disk m (m_freeblock m) = (\<lambda>_. 0)" using m room by (auto simp: img_ok_def)
  have ob: "\<forall>b\<in>set bl. nmeta \<le> unat b \<and> unat b < FSBLOCKS" using o(2) fs(1) by (fastforce simp: word_less_nat_alt)
  then have nz: "0 \<notin> set bl" using unat_nz by blast
  have l: "length bl = Suc (sect_at fbn) \<or> length bl = (if fbn \<le> NDIRECT then fbn else Suc fbn)"
    using need_slot(2) [of 1 "length cs"] o(3) fbn(2) by (auto simp: mk_consts)
  then have n: "length bl + n = Suc (sect_at fbn)" "n \<le> 2" by (auto simp: n_def sect_at_def split: if_splits)
  show ?thesis
  proof (cases "fbn < NDIRECT")
    case True
    then have "length bl = fbn \<or> fbn < length bl" using l by (auto simp: sect_at_def)
    from file_sector_direct [OF o(1) nz True fs(2) this] obtain din' where
      "file_sector fbn din m = Inr ((bl @ news n m) ! sect_at fbn, din', took n m)" "sects (m_disk m) din' (bl @ news n m)"
      "same_din din din'" by (auto simp: n_def)
    then show ?thesis using n by (intro exI [of _ din'] exI [of _ "m_disk m"]) (simp add: took_def)
  next
    case False
    then have nd: "NDIRECT \<le> fbn" "Suc fbn < length bl \<or> length bl = (if fbn = NDIRECT then fbn else Suc fbn)"
      using l by (auto simp: sect_at_def split: if_splits)
    from file_sector_indirect [OF o(1) ob nd(1) fbn(1) nd(2) m room] obtain din' ind where
      "file_sector fbn din m = Inr ((bl @ news n m) ! sect_at fbn, din',
        (took n m)\<lparr>m_disk := (m_disk m)((bl @ news n m) ! NDIRECT := ind)\<rparr>)"
      "sects ((m_disk m)((bl @ news n m) ! NDIRECT := ind)) din' (bl @ news n m)" "same_din din din'"
      by (auto simp: n_def)
    moreover have "NDIRECT < length (bl @ news n m)" using n(1) nd(1) by (simp add: sect_at_def)
    ultimately show ?thesis using n
      by (intro exI [of _ din'] exI [of _ "(m_disk m)((bl @ news n m) ! NDIRECT := ind)"]) auto
  qed
qed

text \<open>\<open>img_grown m bl k m'\<close>: \<open>k\<close> sectors were took, and only the sectors \<open>bl\<close> were written.\<close>

definition img_grown :: "image \<Rightarrow> u32 list \<Rightarrow> nat \<Rightarrow> image \<Rightarrow> bool" where
  "img_grown m bl k m' \<longleftrightarrow> unat (m_freeblock m') = unat (m_freeblock m) + k \<and> m_freeinode m' = m_freeinode m
     \<and> (\<forall>b. b \<notin> set bl \<longrightarrow> m_disk m' b = m_disk m b)"

lemma content_grow:
  assumes "content d bl cs" "length bl = need (length cs)" "\<forall>b\<in>set bs. d b = (\<lambda>_. 0)"
  shows "content d (bl @ bs) cs"
  unfolding content_def
proof (intro allI impI)
  fix k assume k: "sect_at (k div BSIZE) < length (bl @ bs)"
  show "d ((bl @ bs) ! sect_at (k div BSIZE)) (k mod BSIZE) = (if k < length cs then cs ! k else 0)"
  proof (cases "sect_at (k div BSIZE) < length bl")
    case True
    then show ?thesis using assms(1) by (simp add: content_def nth_append)
  next
    case False
    then have "(bl @ bs) ! sect_at (k div BSIZE) \<in> set bs" using k by (simp add: nth_append)
    moreover have "\<not> k < length cs" using False assms(2) slot_need [of k "length cs"] by auto
    ultimately show ?thesis using assms(3) by simp
  qed
qed

lemma content_write:
  assumes c: "content d bl cs" and d: "distinct bl" and l: "length bl = Suc (sect_at fbn)" and fbn: "fbn = length cs div BSIZE"
    and n1: "n1 \<le> length p" "length cs + n1 \<le> (fbn + 1) * BSIZE"
    and d': "\<And>j. j < length bl \<Longrightarrow> j \<noteq> NDIRECT \<Longrightarrow> d' (bl ! j) = d (bl ! j)"
  shows "content (d'(bl ! sect_at fbn := mcopy (list_mem p) 0 (length cs - fbn * BSIZE) n1 (d' (bl ! sect_at fbn)))) bl (cs @ take n1 p)"
  unfolding content_def
proof (intro allI impI)
  fix k assume k: "sect_at (k div BSIZE) < length bl"
  let ?b = "bl ! sect_at (k div BSIZE)" and ?x = "bl ! sect_at fbn" and ?e = "d'(bl ! sect_at fbn := mcopy (list_mem p) 0 (length cs - fbn * BSIZE) n1 (d' (bl ! sect_at fbn)))"
  have old: "d' ?b (k mod BSIZE) = (if k < length cs then cs ! k else 0)"
    using c k d' [OF k] sect_at_simps(3) by (simp add: content_def)
  have eq: "?b = ?x \<longleftrightarrow> k div BSIZE = fbn" using d k l by (simp add: nth_eq_iff_index_eq sect_at_simps)
  have m: "k = k div BSIZE * BSIZE + k mod BSIZE" "length cs = fbn * BSIZE + length cs mod BSIZE"
    by (simp_all add: fbn)
  show "?e ?b (k mod BSIZE) = (if k < length (cs @ take n1 p) then (cs @ take n1 p) ! k else 0)"
  proof (cases "k div BSIZE = fbn")
    case True
    then have k2: "k = fbn * BSIZE + k mod BSIZE" using m(1) by simp
    have "?e ?b (k mod BSIZE) = mcopy (list_mem p) 0 (length cs - fbn * BSIZE) n1 (d' ?b) (k mod BSIZE)"
      using eq True by simp
    also have "\<dots> = (if length cs \<le> k \<and> k < length cs + n1 then p ! (k - length cs) else d' ?b (k mod BSIZE))"
    proof -
      have cond: "length cs - fbn * BSIZE \<le> k mod BSIZE \<and> k mod BSIZE < length cs - fbn * BSIZE + n1 \<longleftrightarrow>
          length cs \<le> k \<and> k < length cs + n1" using k2 m(2) by linarith
      have "0 + (k mod BSIZE - (length cs - fbn * BSIZE)) = k - length cs" if "length cs \<le> k" using k2 m(2) that by linarith
      then show ?thesis unfolding mcopy_def cond list_mem_def using n1(1) by (auto cong: if_cong)
    qed
    finally show ?thesis using old n1(1) by (auto simp: nth_append)
  next
    case False
    have "\<not> (length cs \<le> k \<and> k < length cs + n1)"
    proof
      assume a: "length cs \<le> k \<and> k < length cs + n1"
      then have "fbn * BSIZE \<le> k" "k < (fbn + 1) * BSIZE" using m(2) n1(2) by linarith+
      then have "k div BSIZE = fbn" by (intro div_nat_eqI) (simp_all add: mult.commute)
      then show False using False by simp
    qed
    then show ?thesis using old eq False n1(1) by (auto simp: nth_append)
  qed
qed

lemma iappend_step:
  assumes m: "img_ok m" and f: "file_ok m din bl cs" and p: "p \<noteq> []" and fbn: "fbn = length cs div BSIZE" "fbn < NDIRECT + NINDIRECT"
    and room: "unat (m_freeblock m) + 2 \<le> FSBLOCKS"
  defines "n1 \<equiv> min (length p) ((fbn + 1) * BSIZE - length cs)" and "k \<equiv> Suc (sect_at fbn) - length bl"
  shows "\<exists>x din' m1 buf m2. file_sector fbn din m = Inr (x, din', m1) \<and> rsect x m1 = Inr buf
    \<and> m2 = wsect x (mcopy (list_mem p) 0 (length cs - fbn * BSIZE) n1 buf) m1
    \<and> img_ok m2 \<and> file_ok m2 din' (bl @ news k m) (cs @ take n1 p) \<and> img_grown m (bl @ news k m) k m2
    \<and> same_din din din' \<and> 0 < n1 \<and> need (length cs + n1) = need (length cs) + k"
proof -
  let ?bl = "bl @ news k m"
  obtain din' d where fs: "file_sector fbn din m = Inr (?bl ! sect_at fbn, din', (took k m)\<lparr>m_disk := d\<rparr>)"
    and o: "sects d din' ?bl" "same_din din din'" "\<forall>b. d b \<noteq> m_disk m b \<longrightarrow> NDIRECT < length ?bl \<and> b = ?bl ! NDIRECT"
    and l: "length bl + k = Suc (sect_at fbn)" "k \<le> 2"
    using file_sector_spec [OF m f fbn(2,1) room] by (auto simp: k_def)
  have F: "content (m_disk m) bl cs" "distinct bl" "\<forall>b\<in>set bl. nmeta \<le> unat b \<and> b < m_freeblock m"
    "length bl = need (length cs)" using f by (auto simp: file_ok_def)
  have I: "m_sb m = mk_sb" "m_size m = FSBLOCKS" "nmeta \<le> unat (m_freeblock m)"
    "\<And>b. m_freeblock m \<le> b \<Longrightarrow> unat b < FSBLOCKS \<Longrightarrow> m_disk m b = (\<lambda>_. 0)" using m by (auto simp: img_ok_def)
  have fb: "unat (m_freeblock m) + k \<le> FSBLOCKS" "unat (m_freeblock m + of_nat k) = unat (m_freeblock m) + k"
    using room l(2) unat_free [of m k] by (simp_all add: FSBLOCKS_def)
  note nb = news_bounds [OF _ fb(1)]
  have dist: "distinct ?bl"
    using F(2,3) distinct_news [OF fb(1)] nb(1) by (fastforce simp: word_less_nat_alt word_le_nat_alt)
  have rng: "nmeta \<le> unat b \<and> unat b < unat (m_freeblock m) + k" if "b \<in> set ?bl" for b
    using that F(3) nb I(3) by (fastforce simp: word_less_nat_alt word_le_nat_alt)
  have x: "?bl ! sect_at fbn \<in> set ?bl" using l(1) by (intro nth_mem) simp
  have len: "length ?bl = Suc (sect_at fbn)" using l(1) by simp
  have n1: "0 < n1" "n1 \<le> length p" "length cs + n1 \<le> (fbn + 1) * BSIZE"
  proof -
    have "length cs < (fbn + 1) * BSIZE" unfolding fbn(1) by (simp add: BSIZE_def)
    then show "0 < n1" "n1 \<le> length p" "length cs + n1 \<le> (fbn + 1) * BSIZE" using p by (auto simp: n1_def)
  qed
  let ?m1 = "(took k m)\<lparr>m_disk := d\<rparr>"
  let ?m2 = "wsect (?bl ! sect_at fbn) (mcopy (list_mem p) 0 (length cs - fbn * BSIZE) n1 (d (?bl ! sect_at fbn))) ?m1"
  have xs: "unat (?bl ! sect_at fbn) < FSBLOCKS" using rng [OF x] fb(1) by simp
  then have r: "rsect (?bl ! sect_at fbn) ?m1 = Inr (d (?bl ! sect_at fbn))" using I(2) by (simp add: rsect_def)
  have m2: "m_disk ?m2 = d(?bl ! sect_at fbn := mcopy (list_mem p) 0 (length cs - fbn * BSIZE) n1 (d (?bl ! sect_at fbn)))"
    "m_sb ?m2 = mk_sb" "m_size ?m2 = FSBLOCKS" "m_freeblock ?m2 = m_freeblock m + of_nat k" "m_freeinode ?m2 = m_freeinode m"
    using I(1,2) xs by (simp_all add: wsect_def took_def)
  have out: "m_disk ?m2 b = m_disk m b" if "b \<notin> set ?bl" for b
    using that x o(3) unfolding m2 by (metis fun_upd_other nth_mem)
  have "img_ok ?m2" unfolding img_ok_def m2
  proof (intro conjI allI impI)
    fix b assume b: "m_freeblock m + of_nat k \<le> b" "unat b < FSBLOCKS"
    then have "b \<notin> set ?bl" using rng [of b] fb(2) by (auto simp: word_le_nat_alt)
    moreover have "m_freeblock m \<le> b" using b(1) fb(2) by (simp add: word_le_nat_alt)
    ultimately show "(d(?bl ! sect_at fbn := mcopy (list_mem p) 0 (length cs - fbn * BSIZE) n1 (d (?bl ! sect_at fbn)))) b = (\<lambda>_. 0)"
      using out [of b] I(4) b(2) unfolding m2 by simp
  next
    fix b :: u32 assume b: "unat b < 32 \<or> 58 \<le> unat b \<and> unat b < nmeta"
    then have "b \<notin> set ?bl" using rng [of b] by (auto simp: mk_consts)
    moreover have "m_disk m b = mk_meta b" using m b unfolding img_ok_def by blast
    ultimately show "(d(?bl ! sect_at fbn := mcopy (list_mem p) 0 (length cs - fbn * BSIZE) n1 (d (?bl ! sect_at fbn)))) b = mk_meta b"
      using out [of b] unfolding m2 by simp
  qed (use fb I(3) in simp_all)
  moreover have c: "content (m_disk m) ?bl cs"
    by (rule content_grow [OF F(1,4)]) (use nb fb(1) I(4) in fastforce)
  have "content (m_disk ?m2) ?bl (cs @ take n1 p)" unfolding m2
  proof (rule content_write [OF c dist len fbn(1) n1(2,3)])
    fix j assume "j < length ?bl" "j \<noteq> NDIRECT"
    then have "?bl ! j \<noteq> ?bl ! NDIRECT \<or> \<not> NDIRECT < length ?bl" using dist by (metis nth_eq_iff_index_eq)
    then show "d (?bl ! j) = m_disk m (?bl ! j)" using o(3) by metis
  qed
  moreover have "sects (m_disk ?m2) din' ?bl"
  proof (rule owns_other [OF o(1)])
    assume "NDIRECT < length ?bl"
    then have "?bl ! NDIRECT \<noteq> ?bl ! sect_at fbn" using dist len sect_at_simps(3) [of fbn] by (simp add: nth_eq_iff_index_eq)
    then show "m_disk ?m2 (?bl ! NDIRECT) = d (?bl ! NDIRECT)" unfolding m2 by simp
  qed
  moreover have nd: "need (length cs + n1) = Suc (sect_at fbn)" using need_slot(1) [OF n1(1)] n1(3) fbn(1) by simp
  ultimately have "file_ok ?m2 din' ?bl (cs @ take n1 p)"
    using dist rng fb(2) len n1(2) by (auto simp: file_ok_def m2(4) word_less_nat_alt)
  moreover have "img_grown m ?bl k ?m2" using out fb(2) by (simp add: img_grown_def m2(4,5))
  ultimately show ?thesis using fs r o(2) \<open>img_ok ?m2\<close> n1(1) nd l(1) F(4) by auto
qed

lemma need_mono: "a \<le> b \<Longrightarrow> need a \<le> need b"
proof -
  assume "a \<le> b"
  then have "(a + 511) div 512 \<le> (b + 511) div 512" by (intro div_le_mono) simp
  then show ?thesis by (auto simp: need_def mk_consts Let_def)
qed

lemma grown_trans: "img_grown m bl k m' \<Longrightarrow> img_grown m' bl' k' m'' \<Longrightarrow> set bl \<subseteq> set bl' \<Longrightarrow> img_grown m bl' (k + k') m''"
  by (auto simp: img_grown_def)

lemma iappend_loop_ok:
  assumes "img_ok m" "file_ok m din bl cs" "length cs + length p \<le> (NDIRECT + NINDIRECT) * BSIZE"
    and "unat (m_freeblock m) + (need (length cs + length p) - need (length cs)) + 2 \<le> FSBLOCKS"
  shows "\<exists>din' m' bs. iappend_loop p (length cs) din m = Inr (length cs + length p, din', m') \<and> img_ok m'
    \<and> file_ok m' din' (bl @ bs) (cs @ p) \<and> img_grown m (bl @ bs) (need (length cs + length p) - need (length cs)) m'
    \<and> same_din din din' \<and> (\<forall>b\<in>set bs. m_freeblock m \<le> b)"
  using assms
proof (induction "length p" arbitrary: p cs m din bl rule: less_induct)
  case less
  show ?case
  proof (cases "p = []")
    case True
    then show ?thesis using less.prems
      by (intro exI [of _ din] exI [of _ m] exI [of _ "[]"]) (simp add: iappend_loop.simps [of "[]"] img_grown_def)
  next
    case False
    let ?fbn = "length cs div BSIZE"
    let ?n1 = "min (length p) ((?fbn + 1) * BSIZE - length cs)" and ?k = "Suc (sect_at ?fbn) - length bl"
    have "length cs < (NDIRECT + NINDIRECT) * BSIZE" using less.prems(3) False by (cases p) simp_all
    then have fbn: "?fbn < NDIRECT + NINDIRECT" by (simp add: less_mult_imp_div_less)
    from iappend_step [OF less.prems(1,2) False refl fbn] less.prems(4)
    obtain x din1 m1 buf m2 where st: "file_sector ?fbn din m = Inr (x, din1, m1)" "rsect x m1 = Inr buf"
      "m2 = wsect x (mcopy (list_mem p) 0 (length cs - ?fbn * BSIZE) ?n1 buf) m1" "img_ok m2"
      "file_ok m2 din1 (bl @ news ?k m) (cs @ take ?n1 p)" "img_grown m (bl @ news ?k m) ?k m2" "same_din din din1" "0 < ?n1"
      "need (length cs + ?n1) = need (length cs) + ?k" by auto
    have n1: "?n1 \<le> length p" "length (cs @ take ?n1 p) = length cs + ?n1" by simp_all
    have rest: "length (cs @ take ?n1 p) + length (drop ?n1 p) = length cs + length p" using n1 by simp
    have mono: "need (length cs + ?n1) \<le> need (length cs + length p)" by (rule need_mono) simp
    have free: "unat (m_freeblock m2) = unat (m_freeblock m) + ?k" using st(6) by (simp add: img_grown_def)
    have "\<exists>din' m' bs. iappend_loop (drop ?n1 p) (length (cs @ take ?n1 p)) din1 m2
        = Inr (length (cs @ take ?n1 p) + length (drop ?n1 p), din', m') \<and> img_ok m'
      \<and> file_ok m' din' ((bl @ news ?k m) @ bs) ((cs @ take ?n1 p) @ drop ?n1 p)
      \<and> img_grown m2 ((bl @ news ?k m) @ bs) (need (length (cs @ take ?n1 p) + length (drop ?n1 p)) - need (length (cs @ take ?n1 p))) m'
      \<and> same_din din1 din' \<and> (\<forall>b\<in>set bs. m_freeblock m2 \<le> b)"
      by (rule less.hyps) (use st(4,5,8,9) n1 rest mono free less.prems(3,4) in \<open>simp_all only: rest n1(2), simp_all\<close>)
    then obtain din' m' bs where r: "iappend_loop (drop ?n1 p) (length cs + ?n1) din1 m2 = Inr (length cs + length p, din', m')"
      "img_ok m'" "file_ok m' din' ((bl @ news ?k m) @ bs) (cs @ p)"
      "img_grown m2 ((bl @ news ?k m) @ bs) (need (length cs + length p) - need (length cs + ?n1)) m'" "same_din din1 din'"
      "\<forall>b\<in>set bs. m_freeblock m2 \<le> b"
      unfolding rest unfolding n1(2) append_assoc [of cs] append_take_drop_id by blast
    have "?fbn < MAXFILE" using fbn by (simp add: MAXFILE_def mk_consts)
    then have "iappend_loop p (length cs) din m = Inr (length cs + length p, din', m')"
      using False st(1-3) r(1) by (subst iappend_loop.simps) (simp add: Let_def)
    moreover have "img_grown m (bl @ (news ?k m @ bs)) (need (length cs + length p) - need (length cs)) m'"
    proof -
      have "?k + (need (length cs + length p) - need (length cs + ?n1)) = need (length cs + length p) - need (length cs)"
        using st(9) mono by linarith
      then show ?thesis using grown_trans [OF st(6) r(4)] by auto
    qed
    moreover have "\<forall>b\<in>set (news ?k m @ bs). m_freeblock m \<le> b"
      using r(6) free news_bounds(1) [of _ ?k m] less.prems(4) st(9) mono by (force simp: word_le_nat_alt)
    ultimately show ?thesis using r(2,3) same_din_trans [OF st(7) r(5)] by (metis append_assoc)
  qed
qed

subsection \<open>Inodes of the image\<close>

definition ino_at :: "(u32 \<Rightarrow> mem) \<Rightarrow> nat \<Rightarrow> inode" where
  "ino_at d i = get_dinode (dinode_off (of_nat i)) (d (IBLOCK (of_nat i) mk_sb)) bzero_dinode"

lemma inode_place:
  assumes "i < NINODES"
  shows "unat (IBLOCK (of_nat i) mk_sb) = 32 + i div 8" "dinode_off (of_nat i) = i mod 8 * 64"
    "IBLOCK (of_nat i) mk_sb = IBLOCK (of_nat j) mk_sb \<Longrightarrow> j < NINODES \<Longrightarrow> i div 8 = j div 8"
proof -
  have u: "unat (IBLOCK (of_nat i) mk_sb) = 32 + i div 8" if "i < NINODES" for i
  proof -
    have "unat (of_nat i div of_nat IPB :: u32) = i div 8"
      using that by (simp add: unat_div IPB_def NINODES_def unat_of_nat_32)
    moreover have "i div 8 \<le> i" by simp
    ultimately show ?thesis using that unat_add_32 [of "of_nat i div of_nat IPB" 32]
      by (simp add: IBLOCK_def mk_sb_sel NINODES_def)
  qed
  show "unat (IBLOCK (of_nat i) mk_sb) = 32 + i div 8" by (rule u [OF assms])
  show "dinode_off (of_nat i) = i mod 8 * 64"
    using assms by (simp add: dinode_off_def IPB_def NINODES_def unat_of_nat_32)
  show "i div 8 = j div 8" if "IBLOCK (of_nat i) mk_sb = IBLOCK (of_nat j) mk_sb" "j < NINODES"
    using u [OF assms] u [OF that(2)] that(1) by simp
qed

definition same_node :: "inode \<Rightarrow> inode \<Rightarrow> bool" where
  "same_node ip jp \<longleftrightarrow> i_type ip = i_type jp \<and> i_nlink ip = i_nlink jp \<and> i_size ip = i_size jp
     \<and> (\<forall>k<NDIRECT + 3. i_addrs ip k = i_addrs jp k)"

lemma wsect_in: "unat b < m_size m \<Longrightarrow> wsect b buf m = m\<lparr>m_disk := (m_disk m)(b := buf)\<rparr>"
  by (simp add: wsect_def)

lemma winode_ok:
  assumes m: "img_ok m" and i: "i < NINODES"
  shows "\<exists>d. winode (of_nat i) ip m = Inr (m\<lparr>m_disk := d\<rparr>) \<and> img_ok (m\<lparr>m_disk := d\<rparr>)
    \<and> same_node (ino_at d i) ip
    \<and> (\<forall>j<NINODES. j \<noteq> i \<longrightarrow> ino_at d j = ino_at (m_disk m) j)
    \<and> (\<forall>b. unat b < 32 \<or> 58 \<le> unat b \<longrightarrow> d b = m_disk m b)"
proof -
  let ?b = "IBLOCK (of_nat i) mk_sb"
  let ?d = "(m_disk m)(?b := put_dinode ip (dinode_off (of_nat i)) (m_disk m ?b))"
  note pl = inode_place [OF i]
  have ib: "unat ?b < 58" "32 \<le> unat ?b" using pl(1) i by (simp_all add: NINODES_def less_mult_imp_div_less)
  have I: "m_sb m = mk_sb" "m_size m = FSBLOCKS" "nmeta \<le> unat (m_freeblock m)" using m by (auto simp: img_ok_def)
  have w: "winode (of_nat i) ip m = Inr (m\<lparr>m_disk := ?d\<rparr>)"
    using I(1,2) ib by (simp add: winode_def rsect_def wsect_in FSBLOCKS_def Let_def)
  have "?b < m_freeblock m" using ib I(3) by (simp add: mk_consts word_less_nat_alt)
  then have "img_ok (m\<lparr>m_disk := ?d\<rparr>)" using m ib by (auto simp: img_ok_def)
  moreover have "ino_at ?d j = ino_at (m_disk m) j" if j: "j < NINODES" "j \<noteq> i" for j
  proof (cases "IBLOCK (of_nat j) mk_sb = ?b")
    case True
    then have "i div 8 = j div 8" using pl(3) [of j] j(1) by simp
    moreover have "i = i div 8 * 8 + i mod 8" "j = j div 8 * 8 + j mod 8" by simp_all
    ultimately have "i mod 8 < j mod 8 \<or> j mod 8 < i mod 8" using j(2) by linarith
    then show ?thesis unfolding ino_at_def True
      by (intro get_dinode_cong) (use inode_place(2) [OF j(1)] pl(2) in \<open>auto intro!: put_dinode_out\<close>)
  qed (simp add: ino_at_def)
  moreover have "?d b = m_disk m b" if "unat b < 32 \<or> 58 \<le> unat b" for b using that ib by auto
  moreover have "same_node (ino_at ?d i) ip" by (simp add: ino_at_def get_put_dinode same_node_def)
  ultimately show ?thesis using w by (intro exI [of _ ?d]) blast
qed

lemma rinode_ok: "img_ok m \<Longrightarrow> i < NINODES \<Longrightarrow> rinode (of_nat i) m = Inr (ino_at (m_disk m) i)"
  using inode_place(1) [of i] by (simp add: rinode_def rsect_def img_ok_def ino_at_def NINODES_def FSBLOCKS_def)

lemma file_ok_frame:
  assumes "file_ok m ip bl cs" "\<forall>b\<in>set bl. m_disk m' b = m_disk m b" "m_freeblock m \<le> m_freeblock m'"
    and "\<forall>j<NDIRECT + 3. i_addrs jp j = i_addrs ip j"
  shows "file_ok m' jp bl cs"
proof -
  have "sects (m_disk m') jp bl" using assms(1,2,4) by (auto simp: file_ok_def sects_def)
  moreover have "content (m_disk m') bl cs" using assms(1,2) by (simp add: file_ok_def content_def)
  ultimately show ?thesis using assms(1,3) by (auto simp: file_ok_def intro: less_le_trans)
qed

end
