(* ===== verification/Mkfs_Tree.thy ===== *)
theory Mkfs_Tree
  imports Mkfs_Ok
begin

text \<open>
  The image of mkfs.c as a tree of files: what \<open>ialloc\<close>, \<open>iappend\<close> and the loop over the command
  line add to it.
\<close>

text \<open>
  An image with the inodes 1 to \<open>n\<close>: their types, contents and sectors. No two files share a
  sector, and every sector before the next free one belongs to a file.
\<close>

definition sectors :: "nat \<Rightarrow> (nat \<Rightarrow> u8 list) \<Rightarrow> nat" where
  "sectors n cs = nmeta + (\<Sum>i\<in>{1..n}. need (length (cs i)))"

definition tree_ok :: "image \<Rightarrow> nat \<Rightarrow> (nat \<Rightarrow> u16) \<Rightarrow> (nat \<Rightarrow> u8 list) \<Rightarrow> (nat \<Rightarrow> u32 list) \<Rightarrow> bool" where
  "tree_ok m n ty cs bl \<longleftrightarrow> img_ok m \<and> m_freeinode m = of_nat (Suc n) \<and> n < NINODES
   \<and> (\<forall>i\<in>{1..n}. let ip = ino_at (m_disk m) i in i_type ip = ty i \<and> i_nlink ip = 1 \<and> i_size ip = of_nat (length (cs i))
        \<and> length (cs i) \<le> (NDIRECT + NINDIRECT) * BSIZE \<and> file_ok m ip (bl i) (cs i))
   \<and> (\<forall>i\<in>{1..n}. \<forall>j\<in>{1..n}. i \<noteq> j \<longrightarrow> set (bl i) \<inter> set (bl j) = {})
   \<and> unat (m_freeblock m) = sectors n cs"

lemma tree_okD:
  assumes "tree_ok m n ty cs bl" "1 \<le> i" "i \<le> n"
  shows "i_type (ino_at (m_disk m) i) = ty i" "i_nlink (ino_at (m_disk m) i) = 1"
    "i_size (ino_at (m_disk m) i) = of_nat (length (cs i))" "length (cs i) \<le> (NDIRECT + NINDIRECT) * BSIZE"
    "file_ok m (ino_at (m_disk m) i) (bl i) (cs i)" "i < NINODES"
  using assms by (auto simp: tree_ok_def Let_def)

lemma tree_img: "tree_ok m n ty cs bl \<Longrightarrow> img_ok m" by (simp add: tree_ok_def)

lemma need_0: "need 0 = 0" by (simp add: need_def mk_consts)

lemma sectors_upd: "1 \<le> i \<Longrightarrow> i \<le> n \<Longrightarrow> sectors n (cs(i := x)) + need (length (cs i)) = sectors n cs + need (length x)"
proof -
  assume i: "1 \<le> i" "i \<le> n"
  have r: "(\<Sum>j\<in>{1..n}. f j) = f i + (\<Sum>j\<in>{1..n} - {i}. f j)" for f :: "nat \<Rightarrow> nat"
    using i by (simp add: sum.remove)
  have eq: "(\<Sum>j\<in>{1..n} - {i}. need (length ((cs(i := x)) j))) = (\<Sum>j\<in>{1..n} - {i}. need (length (cs j)))"
    by (rule sum.cong) auto
  show ?thesis unfolding sectors_def r [of "\<lambda>j. need (length ((cs(i := x)) j))"] r [of "\<lambda>j. need (length (cs j))"] eq by simp
qed

lemma sectors_new: "sectors (Suc n) (cs(Suc n := x)) = sectors n cs + need (length x)"
proof -
  have "(\<Sum>i\<in>{1..n}. need (length ((cs(Suc n := x)) i))) = (\<Sum>i\<in>{1..n}. need (length (cs i)))"
    by (rule sum.cong) auto
  then show ?thesis by (simp add: sectors_def)
qed

lemma sectors_mono: "n \<le> n' \<Longrightarrow> (\<And>i. 1 \<le> i \<Longrightarrow> i \<le> n \<Longrightarrow> length (cs i) \<le> length (cs' i)) \<Longrightarrow> sectors n cs \<le> sectors n' cs'"
proof -
  assume n: "n \<le> n'" and l: "\<And>i. 1 \<le> i \<Longrightarrow> i \<le> n \<Longrightarrow> length (cs i) \<le> length (cs' i)"
  have "(\<Sum>i\<in>{1..n}. need (length (cs i))) \<le> (\<Sum>i\<in>{1..n}. need (length (cs' i)))"
    by (rule sum_mono) (use l need_mono in auto)
  also have "\<dots> \<le> (\<Sum>i\<in>{1..n'}. need (length (cs' i)))" by (rule sum_mono2) (use n in auto)
  finally show ?thesis by (simp add: sectors_def)
qed

lemma ialloc_ok:
  assumes t: "tree_ok m n ty cs bl" and n: "Suc n < NINODES"
  shows "\<exists>m'. mk_ialloc t m = Inr (of_nat (Suc n), m')
    \<and> tree_ok m' (Suc n) (ty(Suc n := t)) (cs(Suc n := [])) (bl(Suc n := []))"
proof -
  let ?m = "m\<lparr>m_freeinode := m_freeinode m + 1\<rparr>" and ?ip = "bzero_dinode\<lparr>i_type := t, i_nlink := 1, i_size := 0\<rparr>"
  have "img_ok ?m" using tree_img [OF t] by (simp add: img_ok_def)
  from winode_ok [OF this n, of ?ip] obtain d where d: "winode (of_nat (Suc n)) ?ip ?m = Inr (?m\<lparr>m_disk := d\<rparr>)"
    "img_ok (?m\<lparr>m_disk := d\<rparr>)" "same_node (ino_at d (Suc n)) ?ip" "\<forall>j<NINODES. j \<noteq> Suc n \<longrightarrow> ino_at d j = ino_at (m_disk m) j"
    "\<forall>b. unat b < 32 \<or> 58 \<le> unat b \<longrightarrow> d b = m_disk m b"
    by (auto simp del: of_nat_Suc)
  let ?m' = "?m\<lparr>m_disk := d\<rparr>"
  have fr: "m_freeinode m = of_nat (Suc n)" using t by (simp add: tree_ok_def)
  have same: "file_ok ?m' (ino_at d i) (bl i) (cs i)" if "i \<in> {1..n}" for i
  proof (rule file_ok_frame)
    show "file_ok m (ino_at (m_disk m) i) (bl i) (cs i)" using tree_okD(5) [OF t] that by simp
    then show "\<forall>b\<in>set (bl i). m_disk ?m' b = m_disk m b" using d(5) by (auto simp: file_ok_def mk_consts)
    show "\<forall>j<NDIRECT + 3. i_addrs (ino_at d i) j = i_addrs (ino_at (m_disk m) i) j"
      using d(4) that tree_okD(6) [OF t] by auto
  qed simp
  have "file_ok ?m' (ino_at d (Suc n)) [] []"
    using d(3) by (simp add: file_ok_def sects_def content_def same_node_def bzero_dinode_def need_0)
  moreover have "ino_at d i = ino_at (m_disk m) i" if "i \<in> {1..n}" for i using d(4) that tree_okD(6) [OF t] by auto
  ultimately have "tree_ok ?m' (Suc n) (ty(Suc n := t)) (cs(Suc n := [])) (bl(Suc n := []))"
    using t d(2,3) n fr same sectors_new [of n cs "[]"] unfolding tree_ok_def
    by (auto simp: Let_def need_0 atLeastAtMostSuc_conv same_node_def)
  moreover have "mk_ialloc t m = Inr (of_nat (Suc n), ?m')" using d(1) fr by (simp add: mk_ialloc_def Let_def)
  ultimately show ?thesis by blast
qed

lemma iappend_ok:
  assumes t: "tree_ok m n ty cs bl" and i: "1 \<le> i" "i \<le> n" and l: "length (cs i @ p) \<le> (NDIRECT + NINDIRECT) * BSIZE"
    and tot: "sectors n (cs(i := cs i @ p)) + 2 \<le> FSBLOCKS"
  shows "\<exists>m' bs. iappend (of_nat i) p m = Inr m' \<and> tree_ok m' n ty (cs(i := cs i @ p)) (bl(i := bl i @ bs))"
proof -
  note T = tree_okD [OF t]
  let ?ip = "ino_at (m_disk m) i" and ?k = "need (length (cs i @ p)) - need (length (cs i))"
  have mono: "need (length (cs i)) \<le> need (length (cs i @ p))" by (rule need_mono) simp
  have room: "unat (m_freeblock m) + (need (length (cs i @ p)) - need (length (cs i))) + 2 \<le> FSBLOCKS"
    using sectors_upd [OF i, of cs "cs i @ p"] mono tot t by (simp add: tree_ok_def)
  have sz: "unat (xint (i_size ?ip)) = length (cs i)"
    using T(3,4) [OF i] by (simp add: unat_of_nat_32 mk_consts)
  have l': "length (cs i) + length p \<le> (NDIRECT + NINDIRECT) * BSIZE" using l by simp
  have r': "unat (m_freeblock m) + (need (length (cs i) + length p) - need (length (cs i))) + 2 \<le> FSBLOCKS" using room by simp
  from iappend_loop_ok [OF tree_img [OF t] T(5) [OF i] l' r'] obtain din m1 bs where
    L: "iappend_loop p (length (cs i)) ?ip m = Inr (length (cs i @ p), din, m1)" "img_ok m1"
      "file_ok m1 din (bl i @ bs) (cs i @ p)" "img_grown m (bl i @ bs) ?k m1" "same_din ?ip din" "\<forall>b\<in>set bs. m_freeblock m \<le> b"
    unfolding length_append by blast
  let ?jp = "din\<lparr>i_size := xint (of_nat (length (cs i @ p)))\<rparr>"
  from winode_ok [OF L(2) T(6) [OF i], of ?jp] obtain d where W: "winode (of_nat i) ?jp m1 = Inr (m1\<lparr>m_disk := d\<rparr>)"
    "img_ok (m1\<lparr>m_disk := d\<rparr>)" "same_node (ino_at d i) ?jp" "\<forall>j<NINODES. j \<noteq> i \<longrightarrow> ino_at d j = ino_at (m_disk m1) j"
    "\<forall>b. unat b < 32 \<or> 58 \<le> unat b \<longrightarrow> d b = m_disk m1 b" by blast
  let ?m = "m1\<lparr>m_disk := d\<rparr>"
  have run: "iappend (of_nat i) p m = Inr ?m"
    using rinode_ok [OF tree_img [OF t] T(6) [OF i]] L(1) W(1) sz by (simp add: iappend_def)
  have G: "unat (m_freeblock m1) = unat (m_freeblock m) + ?k" "m_freeinode m1 = m_freeinode m"
    "\<And>b. b \<notin> set (bl i @ bs) \<Longrightarrow> m_disk m1 b = m_disk m b" using L(4) by (auto simp: img_grown_def)
  have own: "58 \<le> unat b" if "b \<in> set (bl i @ bs)" for b
  proof -
    have "nmeta \<le> unat b" using L(3) that unfolding file_ok_def by blast
    then show ?thesis by (simp add: mk_consts)
  qed
  have apart: "b \<notin> set (bl i @ bs)" if "b \<in> set (bl j)" "j \<in> {1..n}" "j \<noteq> i" for b j
    using t that i L(6) T(5) [of j] by (fastforce simp: tree_ok_def file_ok_def)
  have node: "ino_at d j = ino_at (m_disk m) j" if j: "j \<in> {1..n}" "j \<noteq> i" for j
  proof -
    have "j < NINODES" using T(6) [of j] j by simp
    moreover have "IBLOCK (of_nat j) mk_sb \<notin> set (bl i @ bs)"
    proof
      assume "IBLOCK (of_nat j) mk_sb \<in> set (bl i @ bs)"
      from own [OF this] show False using inode_place(1) [OF \<open>j < NINODES\<close>] \<open>j < NINODES\<close>
        by (simp add: NINODES_def less_mult_imp_div_less)
    qed
    ultimately show ?thesis using W(4) j(2) G(3) by (simp add: ino_at_def)
  qed
  have other: "file_ok ?m (ino_at d j) (bl j) (cs j)" if j: "j \<in> {1..n}" "j \<noteq> i" for j
  proof (rule file_ok_frame)
    show f: "file_ok m (ino_at (m_disk m) j) (bl j) (cs j)" using T(5) j by simp
    show "\<forall>b\<in>set (bl j). m_disk ?m b = m_disk m b"
      using W(5) f G(3) apart [OF _ j] by (auto simp: file_ok_def mk_consts)
    show "m_freeblock m \<le> m_freeblock ?m" using G(1) by (simp add: word_le_nat_alt)
  qed (use node [OF j] in simp)
  have this_file: "file_ok ?m (ino_at d i) (bl i @ bs) (cs i @ p)"
    by (rule file_ok_frame [OF L(3)]) (use W(3,5) own in \<open>auto simp: same_node_def\<close>)
  have "tree_ok ?m n ty (cs(i := cs i @ p)) (bl(i := bl i @ bs))"
    unfolding tree_ok_def
  proof (intro conjI ballI)
    show "img_ok ?m" "m_freeinode ?m = of_nat (Suc n)" "n < NINODES" using W(2) G(2) t by (simp_all add: tree_ok_def)
    show "unat (m_freeblock ?m) = sectors n (cs(i := cs i @ p))"
      using sectors_upd [OF i, of cs "cs i @ p"] mono G(1) t by (simp add: tree_ok_def)
    fix j assume j: "j \<in> {1..n}"
    show "let ip = ino_at (m_disk ?m) j in i_type ip = ty j \<and> i_nlink ip = 1
        \<and> i_size ip = of_nat (length ((cs(i := cs i @ p)) j)) \<and> length ((cs(i := cs i @ p)) j) \<le> (NDIRECT + NINDIRECT) * BSIZE
        \<and> file_ok ?m ip ((bl(i := bl i @ bs)) j) ((cs(i := cs i @ p)) j)"
    proof (cases "j = i")
      case True
      then show ?thesis using this_file W(3) L(5) T(1,2) [OF i] l by (auto simp: same_node_def same_din_def Let_def)
    next
      case False
      then show ?thesis using other [OF j] node [OF j] T(1-4) [of j] j by (simp add: Let_def)
    qed
    fix j' assume j': "j' \<in> {1..n}"
    show "j \<noteq> j' \<longrightarrow> set ((bl(i := bl i @ bs)) j) \<inter> set ((bl(i := bl i @ bs)) j') = {}"
      using apart [of _ j] apart [of _ j'] j j' t by (auto simp: tree_ok_def)
  qed
  then show ?thesis using run by blast
qed



subsection \<open>The command line\<close>

definition file_data :: "u8 list \<times> u8 list list option \<Rightarrow> u8 list" where
  "file_data f = concat (takeWhile (\<lambda>c. c \<noteq> []) (the (snd f)))"

definition mk_type :: "nat \<Rightarrow> u16" where "mk_type i = (if i = 1 then T_DIR else T_FILE)"

text \<open>The contents when a file, or the files \<open>fs\<close>, are added to \<open>n\<close> inodes.\<close>

definition put_file :: "u8 list \<times> u8 list list option \<Rightarrow> nat \<Rightarrow> (nat \<Rightarrow> u8 list) \<Rightarrow> nat \<Rightarrow> u8 list" where
  "put_file f n cs = cs(Suc n := file_data f, 1 := cs 1 @ mk_dirent (mk_name (fst f)) (of_nat (Suc n)))"

lemma put_file_at: "1 \<le> n \<Longrightarrow> put_file f n cs (Suc n) = file_data f"
  "put_file f n cs 1 = cs 1 @ mk_dirent (mk_name (fst f)) (of_nat (Suc n))"
  "i \<le> n \<Longrightarrow> i \<noteq> 1 \<Longrightarrow> put_file f n cs i = cs i" "i \<le> n \<Longrightarrow> length (cs i) \<le> length (put_file f n cs i)"
  by (auto simp: put_file_def)

fun put_files :: "(u8 list \<times> u8 list list option) list \<Rightarrow> nat \<Rightarrow> (nat \<Rightarrow> u8 list) \<Rightarrow> nat \<Rightarrow> u8 list" where
  "put_files [] n cs = cs"
| "put_files (f # fs) n cs =
     put_files fs (Suc n) (put_file f n cs)"

lemma iappend_all:
  assumes "tree_ok m n ty cs bl" "1 \<le> i" "i \<le> n" "length (cs i @ concat ps) \<le> (NDIRECT + NINDIRECT) * BSIZE"
    and "sectors n (cs(i := cs i @ concat ps)) + 2 \<le> FSBLOCKS"
  shows "\<exists>m' bl'. for_each (iappend (of_nat i)) ps m = Inr m' \<and> tree_ok m' n ty (cs(i := cs i @ concat ps)) bl'"
  using assms
proof (induction ps arbitrary: m cs bl)
  case (Cons p ps)
  have "sectors n (cs(i := cs i @ p)) \<le> sectors n (cs(i := cs i @ concat (p # ps)))" by (rule sectors_mono) auto
  then have room: "sectors n (cs(i := cs i @ p)) + 2 \<le> FSBLOCKS" using Cons.prems(5) by linarith
  have "length (cs i @ p) \<le> (NDIRECT + NINDIRECT) * BSIZE" using Cons.prems(4) by simp
  then obtain m1 bs where 1: "iappend (of_nat i) p m = Inr m1" "tree_ok m1 n ty (cs(i := cs i @ p)) (bl(i := bl i @ bs))"
    using iappend_ok [OF Cons.prems(1-3) _ room] by blast
  have e: "(cs(i := cs i @ p))(i := (cs(i := cs i @ p)) i @ concat ps) = cs(i := cs i @ concat (p # ps))" by auto
  have "length ((cs(i := cs i @ p)) i @ concat ps) \<le> (NDIRECT + NINDIRECT) * BSIZE" using Cons.prems(4) by simp
  from Cons.IH [OF 1(2) Cons.prems(2,3), unfolded e, OF this Cons.prems(5)] show ?case using 1(1) by simp
qed auto

lemma mk_file_ok:
  assumes t: "tree_ok m n mk_type cs bl" and n: "1 \<le> n" "Suc n < NINODES" and f: "slash \<notin> set (fst f)" "snd f \<noteq> None"
    and l: "length (file_data f) \<le> (NDIRECT + NINDIRECT) * BSIZE" "length (cs 1) + DIRENT \<le> (NDIRECT + NINDIRECT) * BSIZE"
  defines "cs' \<equiv> put_file f n cs"
  assumes tot: "sectors (Suc n) cs' + 2 \<le> FSBLOCKS"
  shows "\<exists>m' bl'. mk_file f m = Inr m' \<and> tree_ok m' (Suc n) mk_type cs' bl'"
proof -
  let ?de = "mk_dirent (mk_name (fst f)) (of_nat (Suc n))"
  obtain m1 where 1: "mk_ialloc T_FILE m = Inr (of_nat (Suc n), m1)"
    "tree_ok m1 (Suc n) (mk_type(Suc n := T_FILE)) (cs(Suc n := [])) (bl(Suc n := []))"
    using ialloc_ok [OF t n(2)] by blast
  have ty: "mk_type(Suc n := T_FILE) = mk_type" using n(1) by (auto simp: mk_type_def)
  let ?cs1 = "cs(Suc n := [])"
  have c1: "?cs1(1 := ?cs1 1 @ ?de) = cs(Suc n := [], 1 := cs 1 @ ?de)" using n(1) by auto
  have "sectors (Suc n) (cs(Suc n := [], 1 := cs 1 @ ?de)) \<le> sectors (Suc n) cs'" by (rule sectors_mono) (auto simp: cs'_def put_file_def)
  moreover have "length ?de = DIRENT" by (simp add: mk_dirent_def)
  ultimately have "\<exists>m' bs. iappend (of_nat 1) ?de m1 = Inr m'
      \<and> tree_ok m' (Suc n) mk_type (?cs1(1 := ?cs1 1 @ ?de)) ((bl(Suc n := []))(1 := (bl(Suc n := [])) 1 @ bs))"
    by (intro iappend_ok [OF 1(2) [unfolded ty]]) (use n(1) l(2) tot c1 in auto)
  then obtain m2 bl2 where 2: "iappend 1 ?de m1 = Inr m2" "tree_ok m2 (Suc n) mk_type (cs(Suc n := [], 1 := cs 1 @ ?de)) bl2"
    unfolding c1 by auto
  obtain reads where r: "snd f = Some reads" using f(2) by auto
  let ?cs2 = "cs(Suc n := [], 1 := cs 1 @ ?de)" and ?ps = "takeWhile (\<lambda>c. c \<noteq> []) reads"
  have c2: "?cs2(Suc n := ?cs2 (Suc n) @ concat ?ps) = cs'" using n(1) r by (auto simp: cs'_def put_file_def file_data_def)
  have "\<exists>m' bl'. for_each (iappend (of_nat (Suc n))) ?ps m2 = Inr m'
      \<and> tree_ok m' (Suc n) mk_type (?cs2(Suc n := ?cs2 (Suc n) @ concat ?ps)) bl'"
    by (rule iappend_all [OF 2(2)]) (use n(1) l(1) r tot c2 in \<open>auto simp: file_data_def\<close>)
  then show ?thesis using 1(1) 2(1) f(1) r unfolding c2 by (auto simp: mk_file_def ROOTINO_def simp del: of_nat_Suc)
qed

lemma put_files_old: "1 \<le> n \<Longrightarrow> i \<le> n \<Longrightarrow> i \<noteq> 1 \<Longrightarrow> put_files fs n cs i = cs i"
  by (induction fs n cs rule: put_files.induct) (auto simp: put_file_at)

lemma put_files_root:
  "1 \<le> n \<Longrightarrow> put_files fs n cs 1
    = cs 1 @ concat (map (\<lambda>k. mk_dirent (mk_name (fst (fs ! k))) (of_nat (Suc n + k))) [0..<length fs])"
proof (induction fs n cs rule: put_files.induct)
  case (2 f fs n cs)
  have "map (\<lambda>k. mk_dirent (mk_name (fst ((f # fs) ! k))) (of_nat (Suc n + k))) [0..<length (f # fs)]
      = mk_dirent (mk_name (fst f)) (of_nat (Suc n))
        # map (\<lambda>k. mk_dirent (mk_name (fst (fs ! k))) (of_nat (Suc (Suc n) + k))) [0..<length fs]"
    by (simp add: upt_conv_Cons map_Suc_upt [symmetric] del: upt_Suc of_nat_Suc)
  then show ?case using 2 unfolding put_files.simps put_file_at by simp
qed simp

lemma put_files_new: "1 \<le> n \<Longrightarrow> k < length fs \<Longrightarrow> put_files fs n cs (Suc n + k) = file_data (fs ! k)"
proof (induction fs n cs arbitrary: k rule: put_files.induct)
  case (2 f fs n cs)
  show ?case
  proof (cases k)
    case 0
    then show ?thesis using 2(2) put_files_old [of "Suc n" "Suc n" fs] by (simp add: put_file_at)
  next
    case (Suc j)
    then show ?thesis using 2(1) [of j] 2(2,3) by simp
  qed
qed simp

lemma put_files_le: "1 \<le> n \<Longrightarrow> i \<le> n \<Longrightarrow> length (cs i) \<le> length (put_files fs n cs i)"
  using put_files_old [of n i fs cs] put_files_root [of n fs cs] by (cases "i = 1") auto

lemma mk_files_ok:
  assumes "tree_ok m n mk_type cs bl" "1 \<le> n" "n + length fs < NINODES" "\<forall>f\<in>set fs. slash \<notin> set (fst f) \<and> snd f \<noteq> None"
    and "\<forall>i. 1 \<le> i \<longrightarrow> i \<le> n + length fs \<longrightarrow> length (put_files fs n cs i) \<le> (NDIRECT + NINDIRECT) * BSIZE"
    and "sectors (n + length fs) (put_files fs n cs) + 2 \<le> FSBLOCKS"
  shows "\<exists>m' bl'. for_each mk_file fs m = Inr m' \<and> tree_ok m' (n + length fs) mk_type (put_files fs n cs) bl'"
  using assms
proof (induction fs arbitrary: m n cs bl)
  case (Cons f fs)
  let ?cs = "put_file f n cs"
  have le: "length (?cs i) \<le> length (put_files (f # fs) n cs i)" if "i \<le> Suc n" for i
    using put_files_le [of "Suc n" i ?cs fs] that by simp
  have bound: "length (?cs i) \<le> (NDIRECT + NINDIRECT) * BSIZE" if "1 \<le> i" "i \<le> Suc n" for i
    using le [OF that(2)] Cons.prems(5) that by fastforce
  have l: "length (file_data f) \<le> (NDIRECT + NINDIRECT) * BSIZE" "length (cs 1) + DIRENT \<le> (NDIRECT + NINDIRECT) * BSIZE"
    using bound [of "Suc n"] bound [of 1] Cons.prems(2) put_file_at(1) [of n f cs] put_file_at(2) [of f n cs] by (simp_all add: mk_dirent_def)
  have "sectors (Suc n) ?cs \<le> sectors (n + length (f # fs)) (put_files (f # fs) n cs)"
    by (rule sectors_mono) (use le in simp_all)
  then have "sectors (Suc n) ?cs + 2 \<le> FSBLOCKS" using Cons.prems(6) by linarith
  then obtain m1 bl1 where 1: "mk_file f m = Inr m1" "tree_ok m1 (Suc n) mk_type ?cs bl1"
    using mk_file_ok [OF Cons.prems(1,2) _ _ _ l] Cons.prems(3,4) by auto
  from Cons.IH [OF 1(2)] Cons.prems(3-6) 1(1) show ?case by simp
qed auto


subsection \<open>The whole run\<close>

text \<open>
  The whole run of mkfs.c: it ends when the files fit, with an image that holds the files of the
  command line, the root directory that names them, the super block and the bitmap.
\<close>

lemma mk_empty_eq:
  "mk_empty = \<lparr>m_disk = \<lambda>_ _. 0, m_size = FSBLOCKS, m_sb = mk_sb, m_freeinode = 1, m_freeblock = of_nat nmeta\<rparr>"
proof -
  let ?z = "\<lambda>n. \<lparr>m_disk = \<lambda>_ _. 0, m_size = n, m_sb = mk_sb, m_freeinode = 1, m_freeblock = of_nat nmeta\<rparr>"
  have step: "wsect (of_nat i) (\<lambda>_. 0) (?z i) = ?z (Suc i)" if "i < 2 ^ 32" for i
    using that by (simp add: wsect_def unat_of_nat_32 fun_eq_iff)
  have "n \<le> FSBLOCKS \<Longrightarrow> fold (\<lambda>i. wsect (of_nat i) (\<lambda>_. 0)) [0..<n] (?z 0) = ?z n" for n
  proof (induction n)
    case (Suc n)
    then show ?case using step [of n] by (simp add: FSBLOCKS_def)
  qed simp
  then show ?thesis by (simp add: mk_empty_def)
qed

definition root_files :: "nat \<Rightarrow> u8 list" where
  "root_files i = (if i = 1 then mk_dirent [46] 1 @ mk_dirent [46, 46] 1 else [])"

definition tree_files :: "(u8 list \<times> u8 list list option) list \<Rightarrow> nat \<Rightarrow> u8 list" where
  "tree_files fs = put_files fs 1 root_files"

definition fits :: "(u8 list \<times> u8 list list option) list \<Rightarrow> bool" where
  "fits fs \<longleftrightarrow> (\<forall>f\<in>set fs. slash \<notin> set (fst f) \<and> snd f \<noteq> None \<and> length (file_data f) \<le> (NDIRECT + NINDIRECT) * BSIZE)
     \<and> Suc (length fs) < NINODES \<and> sectors (Suc (length fs)) (tree_files fs) < BSIZE * 8"

lemma length_dirent [simp]: "length (mk_dirent name i) = DIRENT" by (simp add: mk_dirent_def)

lemma length_root: "length (tree_files fs 1) = (length fs + 2) * DIRENT"
proof -
  have "length (concat (map (\<lambda>k. mk_dirent (g k) (h k)) [0..<n])) = n * DIRENT" for g h n
    by (induction n) simp_all
  then show ?thesis unfolding tree_files_def put_files_root [OF order_refl] by (simp add: root_files_def)
qed

lemma tree_root_ok:
  "\<exists>m bl. mk_root (wsect 1 (put_sb mk_sb (\<lambda>_. 0)) mk_empty) = Inr m \<and> tree_ok m 1 mk_type root_files bl"
proof -
  let ?m = "wsect 1 (put_sb mk_sb (\<lambda>_. 0)) mk_empty"
  have "img_ok ?m" by (auto simp: img_ok_def mk_empty_eq wsect_def FSBLOCKS_def mk_consts mk_meta_def word_le_nat_alt)
  then have "tree_ok ?m 0 mk_type (\<lambda>_. []) (\<lambda>_. [])"
    by (simp add: tree_ok_def sectors_def mk_empty_eq wsect_def NINODES_def mk_consts)
  from ialloc_ok [OF this, of T_DIR] obtain m1 where 1: "mk_ialloc T_DIR ?m = Inr (of_nat 1, m1)"
    "tree_ok m1 1 (mk_type(1 := T_DIR)) ((\<lambda>_. [])(1 := [])) ((\<lambda>_. [])(1 := []))" by (auto simp: NINODES_def)
  have ty: "mk_type(1 := T_DIR) = mk_type" by (auto simp: mk_type_def)
  have cs: "(\<lambda>_. [])(1 := []) = (\<lambda>_. [])" by auto
  have sec: "sectors 1 c + 2 \<le> FSBLOCKS" if "length (c 1) \<le> 512" for c
    using that need_mono [of "length (c 1)" 512] by (simp add: sectors_def need_def mk_consts FSBLOCKS_def Let_def)
  let ?d = "mk_dirent [46] 1" and ?dd = "mk_dirent [46, 46] 1"
  obtain m2 bl2 where 2: "iappend (of_nat 1) ?d m1 = Inr m2" "tree_ok m2 1 mk_type ((\<lambda>_. [])(1 := ?d)) bl2"
    using iappend_ok [OF 1(2) [unfolded ty cs], of 1 ?d] sec [of "(\<lambda>_. [])(1 := ?d)"] by (auto simp: DIRENT_def mk_consts)
  have r: "((\<lambda>_. [])(1 := ?d))(1 := ((\<lambda>_. [])(1 := ?d)) 1 @ ?dd) = root_files" by (auto simp: root_files_def)
  obtain m3 bl3 where "iappend (of_nat 1) ?dd m2 = Inr m3" "tree_ok m3 1 mk_type root_files bl3"
    using iappend_ok [OF 2(2), of 1 ?dd, unfolded r] sec [of root_files] by (auto simp: DIRENT_def mk_consts root_files_def)
  then show ?thesis using 1(1) 2(1) by (auto simp: mk_root_def ROOTINO_def)
qed

text \<open>The bits below \<open>used\<close>.\<close>

lemma mk_bits: "bit_set (fold (\<lambda>i b. b(i div 8 := b (i div 8) OR push_bit (i mod 8) 1)) [0..<used] (\<lambda>_. 0)) k \<longleftrightarrow> k < used"
proof -
  have e: "(\<lambda>i b. b(i div 8 := b (i div 8) OR push_bit (i mod 8) 1)) = bit_on"
    by (simp add: bit_on_def bit_mask_def fun_eq_iff)
  show ?thesis unfolding e by (induction used) (simp add: bit_set_def, auto simp: less_Suc_eq)
qed

text \<open>What \<open>mkfs\<close> leaves behind.\<close>

definition made :: "(u8 list \<times> u8 list list option) list \<Rightarrow> image \<Rightarrow> (nat \<Rightarrow> u32 list) \<Rightarrow> bool" where
  "made fs m bl \<longleftrightarrow> m_sb m = mk_sb
   \<and> (\<forall>i\<in>{1..Suc (length fs)}. let ip = ino_at (m_disk m) i in i_type ip = mk_type i \<and> i_nlink ip = 1
        \<and> i_size ip = of_nat (if i = 1 then (length (tree_files fs 1) div BSIZE + 1) * BSIZE else length (tree_files fs i))
        \<and> file_ok m ip (bl i) (tree_files fs i))
   \<and> m_disk m 1 = put_sb mk_sb (\<lambda>_. 0)
   \<and> (\<forall>b. unat b < FSBLOCKS \<longrightarrow> (bit_set (m_disk m (BBLOCK b mk_sb)) (unat b mod BPB) \<longleftrightarrow> b < m_freeblock m))
   \<and> unat (m_freeblock m) = sectors (Suc (length fs)) (tree_files fs)"

lemma tree_bounds:
  assumes "fits fs" "1 \<le> i" "i \<le> Suc (length fs)"
  shows "length (tree_files fs i) \<le> (NDIRECT + NINDIRECT) * BSIZE"
proof (cases "i = 1")
  case True
  show ?thesis unfolding True length_root using assms(1) by (simp add: fits_def NINODES_def DIRENT_def mk_consts)
next
  case False
  define k where "k = i - 2"
  have i: "i = Suc 1 + k" "k < length fs" using False assms(2,3) by (auto simp: k_def)
  then show ?thesis using put_files_new [of 1 k fs root_files] assms(1) by (simp add: tree_files_def fits_def)
qed

lemma mkfs_tree:
  assumes "fits fs"
  shows "\<exists>m bl. bind_res (mk_root (wsect 1 (put_sb mk_sb (\<lambda>_. 0)) mk_empty)) (for_each mk_file fs) = Inr m
    \<and> tree_ok m (Suc (length fs)) mk_type (tree_files fs) bl"
proof -
  obtain m1 bl1 where 1: "mk_root (wsect 1 (put_sb mk_sb (\<lambda>_. 0)) mk_empty) = Inr m1" "tree_ok m1 1 mk_type root_files bl1"
    using tree_root_ok by blast
  have "\<exists>m' bl'. for_each mk_file fs m1 = Inr m' \<and> tree_ok m' (1 + length fs) mk_type (put_files fs 1 root_files) bl'"
  proof (rule mk_files_ok [OF 1(2)])
    show "1 + length fs < NINODES" "\<forall>f\<in>set fs. slash \<notin> set (fst f) \<and> snd f \<noteq> None"
      "sectors (1 + length fs) (put_files fs 1 root_files) + 2 \<le> FSBLOCKS"
      using assms by (auto simp: fits_def tree_files_def FSBLOCKS_def mk_consts)
    show "\<forall>i. 1 \<le> i \<longrightarrow> i \<le> 1 + length fs \<longrightarrow> length (put_files fs 1 root_files i) \<le> (NDIRECT + NINDIRECT) * BSIZE"
      using tree_bounds [OF assms] by (simp add: tree_files_def)
  qed simp
  then show ?thesis using 1(1) by (auto simp: tree_files_def)
qed

lemma round_word:
  assumes "n \<le> 2 ^ 20"
  shows "((of_nat n :: u32) div of_nat BSIZE + 1) * of_nat BSIZE = of_nat ((n div BSIZE + 1) * BSIZE)"
proof -
  have "unat ((of_nat n :: u32) div of_nat BSIZE) = n div 512"
    using assms by (simp add: unat_div mk_consts unat_of_nat_32)
  moreover have "unat (of_nat (n div 512) :: u32) = n div 512" using assms by (intro unat_of_nat_32) simp
  ultimately have "(of_nat n :: u32) div of_nat BSIZE = of_nat (n div 512)" by (simp only: word_unat_eq_iff)
  then show ?thesis by (simp add: mk_consts)
qed

lemma mkfs_made:
  assumes f: "fits fs"
  shows "\<exists>m bl. mkfs fs = Inr m \<and> made fs m bl"
proof -
  let ?n = "Suc (length fs)" and ?cs = "tree_files fs"
  obtain m1 bl where 1: "bind_res (mk_root (wsect 1 (put_sb mk_sb (\<lambda>_. 0)) mk_empty)) (for_each mk_file fs) = Inr m1"
    "tree_ok m1 ?n mk_type ?cs bl" using mkfs_tree [OF f] by blast
  note T = tree_okD [OF 1(2)]
  have I: "img_ok m1" "unat (m_freeblock m1) = sectors ?n ?cs" using 1(2) by (simp_all add: tree_ok_def)
  let ?ip = "ino_at (m_disk m1) 1"
  let ?sz = "(length (?cs 1) div BSIZE + 1) * BSIZE"
  have sz: "i_size ?ip = of_nat (length (?cs 1))" "length (?cs 1) \<le> 2 ^ 20"
    using T(3,4) [of 1] by (simp_all add: mk_consts)
  obtain d where W: "winode 1 (?ip\<lparr>i_size := of_nat ?sz\<rparr>) m1 = Inr (m1\<lparr>m_disk := d\<rparr>)"
    "img_ok (m1\<lparr>m_disk := d\<rparr>)" "same_node (ino_at d 1) (?ip\<lparr>i_size := of_nat ?sz\<rparr>)"
    "\<forall>j<NINODES. j \<noteq> 1 \<longrightarrow> ino_at d j = ino_at (m_disk m1) j" "\<forall>b. unat b < 32 \<or> 58 \<le> unat b \<longrightarrow> d b = m_disk m1 b"
    using winode_ok [OF I(1), of 1] by (force simp: NINODES_def)
  have round: "mk_round m1 = Inr (m1\<lparr>m_disk := d\<rparr>)"
    using rinode_ok [OF I(1), of 1] W(1) round_word [OF sz(2)] sz(1)
    by (simp add: mk_round_def ROOTINO_def NINODES_def Let_def)
  let ?m2 = "m1\<lparr>m_disk := d\<rparr>" and ?used = "unat (m_freeblock m1)"
  let ?bits = "fold (\<lambda>i b. b(i div 8 := b (i div 8) OR push_bit (i mod 8) 1)) [0..<?used] (\<lambda>_. 0 :: u8)"
  have S: "m_sb ?m2 = mk_sb" "m_size ?m2 = FSBLOCKS" using W(2) by (simp_all add: img_ok_def)
  have used: "?used < BSIZE * 8" using f I(2) by (simp add: fits_def)
  let ?m3 = "?m2\<lparr>m_disk := d(58 := ?bits)\<rparr>"
  have "mk_balloc (unat (m_freeblock ?m2)) ?m2 = Inr ?m3"
    using used S by (simp add: mk_balloc_def mk_sb_sel wsect_in FSBLOCKS_def Let_def)
  then have run: "mkfs fs = Inr ?m3" using 1(1) round by (simp add: mkfs_def bind_res_assoc [symmetric])
  have low: "m_disk ?m3 b = d b" if "unat b \<noteq> 58" for b using that by auto
  have node: "ino_at (m_disk ?m3) i = ino_at d i" if "i < NINODES" for i
  proof -
    have "unat (IBLOCK (of_nat i) mk_sb) \<noteq> 58"
      using inode_place(1) [OF that] that by (simp add: NINODES_def less_mult_imp_div_less)
    then have "IBLOCK (of_nat i) mk_sb \<noteq> 58" by auto
    then show ?thesis by (simp add: ino_at_def)
  qed
  have files: "file_ok ?m3 (ino_at (m_disk ?m3) i) (bl i) (?cs i)" if i: "1 \<le> i" "i \<le> ?n" for i
  proof (rule file_ok_frame [OF T(5) [OF i]])
    show "\<forall>b\<in>set (bl i). m_disk ?m3 b = m_disk m1 b"
      using T(5) [OF i] W(5) low by (fastforce simp: file_ok_def mk_consts)
    show "\<forall>j<NDIRECT + 3. i_addrs (ino_at (m_disk ?m3) i) j = i_addrs (ino_at (m_disk m1) i) j"
      using node [OF T(6) [OF i]] W(3,4) T(6) [OF i] by (cases "i = 1") (simp_all add: same_node_def)
  qed simp
  have "made fs ?m3 bl" unfolding made_def
  proof (intro conjI ballI allI impI)
    fix i assume "i \<in> {1..?n}"
    then have i: "1 \<le> i" "i \<le> ?n" by auto
    show "let ip = ino_at (m_disk ?m3) i in i_type ip = mk_type i \<and> i_nlink ip = 1
        \<and> i_size ip = of_nat (if i = 1 then ?sz else length (?cs i)) \<and> file_ok ?m3 ip (bl i) (?cs i)"
      using files [OF i] node [OF T(6) [OF i]] W(3,4) T(1-3) [OF i] T(6) [OF i]
      by (cases "i = 1") (simp_all add: same_node_def Let_def)
  next
    show "m_disk ?m3 1 = put_sb mk_sb (\<lambda>_. 0)" using W(2) by (simp add: img_ok_def mk_meta_def)
  next
    fix b :: u32 assume b: "unat b < FSBLOCKS"
    have BB: "unat (BBLOCK b mk_sb) = 58 + unat b div BPB"
    proof -
      have d: "unat (b div of_nat BPB) = unat b div BPB" by (rule unat_div_BPB)
      have "unat b div BPB < 10" using b by (simp add: FSBLOCKS_def BPB_def less_mult_imp_div_less)
      then have "unat (b div of_nat BPB + 58) = unat (b div of_nat BPB) + 58"
        using d by (simp add: unat_add_32)
      then show ?thesis using d by (simp add: BBLOCK_def mk_sb_sel)
    qed
    show "bit_set (m_disk ?m3 (BBLOCK b mk_sb)) (unat b mod BPB) \<longleftrightarrow> b < m_freeblock ?m3"
    proof (cases "unat b < BPB")
      case True
      then have "BBLOCK b mk_sb = 58" using BB by (simp add: word_unat_eq_iff)
      then show ?thesis using True mk_bits [of ?used "unat b"] by (simp add: word_less_nat_alt)
    next
      case False
      have "unat b div BPB < 10" "unat b div BPB \<noteq> 0" using b False by (simp_all add: FSBLOCKS_def BPB_def less_mult_imp_div_less div_eq_0_iff)
      then have u: "58 < unat (BBLOCK b mk_sb)" "unat (BBLOCK b mk_sb) < nmeta" using BB by (simp_all add: mk_consts)
      then have "BBLOCK b mk_sb \<noteq> 58" by auto
      then have "m_disk ?m3 (BBLOCK b mk_sb) = mk_meta (BBLOCK b mk_sb)" using W(2) u by (simp add: img_ok_def)
      moreover have "BBLOCK b mk_sb \<noteq> 1" using u(1) by auto
      ultimately have "m_disk ?m3 (BBLOCK b mk_sb) = (\<lambda>_. 0)" by (simp add: mk_meta_def)
      then show ?thesis using False used by (simp add: bit_set_def word_less_nat_alt BPB_def mk_consts)
    qed
  qed (use S I(2) in simp_all)
  then show ?thesis using run by blast
qed

end
