(* ===== verification/Mkfs_Correct.thy ===== *)
theory Mkfs_Correct
  imports Mkfs_Tree Path_Ok Fs_Example
begin

text \<open>
  The image of mkfs.c as the kernel reads it: on a disk that mkfs has written, the kernel's bitmap,
  directories and inodes hold the files of the command line.
\<close>

subsection \<open>The disk under the kernel\<close>

definition on_image :: "image \<Rightarrow> fsys \<Rightarrow> bool" where
  "on_image m s \<longleftrightarrow> cont s = m_disk m \<and> f_sb s = get_sb (m_disk m 1) \<and> f_disksize s = of_nat FSBLOCKS
     \<and> lg_start (f_log s) = sb_logstart (f_sb s)"

lemma get_put_sb: "get_sb (put_sb sb m) = sb"
  by (simp add: get_sb_def put_sb_def get_put32_other)

lemma on_imageD:
  assumes "made fs m bl" "on_image m s"
  shows "f_sb s = mk_sb" "cont s = m_disk m" "f_disksize s = 40000" "b \<in> log_area (f_log s) \<Longrightarrow> unat b < 32"
proof -
  show sb: "f_sb s = mk_sb" using assms by (simp add: made_def on_image_def get_put_sb)
  show "cont s = m_disk m" "f_disksize s = 40000" using assms(2) by (simp_all add: on_image_def FSBLOCKS_def)
  assume "b \<in> log_area (f_log s)"
  then obtain t where t: "b = 2 + of_nat t" "t < 30"
    using assms(2) sb by (auto simp: log_area_def on_image_def mk_sb_sel LOGSIZE_def)
  then show "unat b < 32" using unat_add_nat_32 [of 2 t] by simp
qed

lemma image_ino:
  assumes "f_sb s = mk_sb"
  shows "same_ino (dino s (of_nat i)) (ino_at (cont s) i)"
  using assms by (simp add: same_ino_def dino_def ino_at_def get_dinode_def)

lemma slot_lt: "q < (n + (BSIZE - 1)) div BSIZE \<Longrightarrow> sect_at q < need n"
  by (auto simp: sect_at_def need_def Let_def)

lemma sect_inj: "sect_at p = sect_at q \<longleftrightarrow> p = q" "sect_at p \<noteq> NDIRECT" "NDIRECT \<noteq> sect_at p"
  by (auto simp: sect_at_def split: if_splits)

text \<open>The sectors of a file are the blocks at which the kernel finds its content.\<close>

lemma owns_path:
  assumes o: "sects (cont s) ip bl" and q: "sect_at q < length bl" "q < NDIRECT + NINDIRECT"
  shows "set (block_path s ip q) \<subseteq> set bl" "block_addr s ip q = bl ! sect_at q"
proof -
  have "block_path s ip q = (if q < NDIRECT then [bl ! q] else [bl ! NDIRECT, bl ! Suc q])"
  proof (cases "q < NDIRECT")
    case True
    then show ?thesis using o q by (simp add: sects_def block_path_def sect_at_def)
  next
    case False
    then have "NDIRECT < length bl" "Suc NDIRECT + (q - NDIRECT) = Suc q" using q by (simp_all add: sect_at_def)
    then have "i_addrs ip NDIRECT = bl ! NDIRECT" "ind_get (cont s (bl ! NDIRECT)) (q - NDIRECT) = bl ! Suc q"
      using o q False unfolding sects_def by (auto simp: sect_at_def)
    then show ?thesis using False q by (simp add: block_path_def Let_def)
  qed
  then show "set (block_path s ip q) \<subseteq> set bl" "block_addr s ip q = bl ! sect_at q"
    using q(1) by (auto simp: block_addr_def sect_at_def split: if_splits)
qed

definition nblocks :: "nat \<Rightarrow> nat" where "nblocks n = (n + (BSIZE - 1)) div BSIZE"

lemma image_bytes:
  assumes o: "sects (cont s) ip bl" "content (cont s) bl cs" "length bl = need (length cs)"
    and z: "i_size ip = of_nat sz" "length cs \<le> sz" "sz \<le> nblocks (length cs) * BSIZE" "nblocks (length cs) \<le> NDIRECT + NINDIRECT"
  shows "fbytes s ip = cs @ replicate (sz - length cs) 0"
proof -
  have "sz \<le> (10 + 128) * 512" using z(3,4) by (simp add: mk_consts)
  then have sz: "unat (i_size ip) = sz" using z(1) by (simp add: unat_of_nat_32)
  have "file_byte s ip k = (if k < length cs then cs ! k else 0)" if k: "k < sz" for k
  proof -
    have q: "k div BSIZE < nblocks (length cs)" using k z(3) by (simp add: less_mult_imp_div_less)
    then have "sect_at (k div BSIZE) < length bl" using slot_lt o(3) by (simp add: nblocks_def)
    then show ?thesis using o(2) owns_path(2) [OF o(1)] q z(4) by (simp add: file_byte_def content_def)
  qed
  then show ?thesis unfolding fbytes_def sz using z(2) by (intro nth_equalityI) (auto simp: nth_append)
qed

lemma image_data_ok:
  assumes i: "on_image m s" "made fs m bs" and f: "file_ok m ip bl cs" "sects (cont s) jp bl" and n: "n = nblocks (length cs)"
    "n \<le> NDIRECT + NINDIRECT" and free: "unat (m_freeblock m) \<le> FSBLOCKS"
  shows "data_ok s jp n" "b \<in> data_blocks s jp n \<Longrightarrow> nmeta \<le> unat b" "NDIRECT < n \<Longrightarrow> nmeta \<le> unat (i_addrs jp NDIRECT)"
proof -
  have l: "sect_at q < length bl" if "q < n" for q using that n(1) slot_lt f(1) by (simp add: file_ok_def nblocks_def)
  have P: "set (block_path s jp q) \<subseteq> set bl" "block_addr s jp q = bl ! sect_at q" if "q < n" for q
    using owns_path [OF f(2) l [OF that]] that n(2) by auto
  have big: "nmeta \<le> unat b" "b < m_freeblock m" if "b \<in> set bl" for b using f(1) that by (simp_all add: file_ok_def)
  have a: "bl ! sect_at q \<in> set bl" if "q < n" for q using l [OF that] by simp
  have ind: "i_addrs jp NDIRECT = bl ! NDIRECT" "NDIRECT < length bl" if "NDIRECT < n"
  proof -
    show "NDIRECT < length bl" using l [OF that] by (simp add: sect_at_def)
    then show "i_addrs jp NDIRECT = bl ! NDIRECT" using f(2) by (simp add: sects_def)
  qed
  have d: "distinct bl" using f(1) by (simp add: file_ok_def)
  note D = on_imageD [OF i(2,1)]
  have lim: "b \<noteq> 0 \<and> b < f_disksize s" if "b \<in> set bl" for b
    using big [OF that] free D(3) unat_nz by (auto simp: word_less_nat_alt FSBLOCKS_def)
  show "data_ok s jp n" unfolding data_ok_def
  proof (intro conjI allI impI)
    fix q assume q: "q < n"
    show "mapped s jp q" using P(1) [OF q] lim by (auto simp: mapped_def)
    show "block_addr s jp q \<notin> log_area (f_log s)"
      using P(2) [OF q] big(1) [OF a [OF q]] D(4) by (fastforce simp: mk_consts)
  next
    show "inj_on (block_addr s jp) {..<n}"
      using d l P(2) by (auto simp: inj_on_def nth_eq_iff_index_eq sect_inj)
    assume "NDIRECT < n"
    then show "i_addrs jp NDIRECT \<notin> block_addr s jp ` {..<n}"
      using d l P(2) ind by (auto simp: nth_eq_iff_index_eq sect_inj)
  qed (use n(2) in simp)
  show "b \<in> data_blocks s jp n \<Longrightarrow> nmeta \<le> unat b" using P(2) a big(1) by (auto simp: data_blocks_def)
  show "NDIRECT < n \<Longrightarrow> nmeta \<le> unat (i_addrs jp NDIRECT)" using ind big(1) by simp
qed


subsection \<open>The root directory\<close>

definition root_names :: "(u8 list \<times> u8 list list option) list \<Rightarrow> u8 list list" where
  "root_names fs = [46] # [46, 46] # map (\<lambda>f. mk_name (fst f)) fs"

definition root_ent :: "(u8 list \<times> u8 list list option) list \<Rightarrow> nat \<Rightarrow> u8 list" where
  "root_ent fs k = mk_dirent (root_names fs ! k) (of_nat (max k 1))"

lemma root_entries: "tree_files fs 1 = concat (map (root_ent fs) [0..<length fs + 2])"
proof -
  have u: "[0..<length fs + 2] = 0 # 1 # map (\<lambda>k. k + 2) [0..<length fs]"
    by (rule nth_equalityI) (auto simp: nth_Cons' simp del: upt_Suc)
  have m: "map (\<lambda>k. root_ent fs (k + 2)) [0..<length fs]
      = map (\<lambda>k. mk_dirent (mk_name (fst (fs ! k))) (of_nat (Suc 1 + k))) [0..<length fs]"
    by (rule map_cong) (simp_all add: root_ent_def root_names_def)
  have e: "root_ent fs 0 = mk_dirent [46] 1" "root_ent fs 1 = mk_dirent [46, 46] 1"
    by (simp_all add: root_ent_def root_names_def)
  show ?thesis
    unfolding tree_files_def put_files_root [OF order_refl] u list.map map_map comp_def m e by (simp add: root_files_def)
qed

lemma dirent_inum: "i < 2 ^ 16 \<Longrightarrow> de_inum (mk_dirent name i) = i"
proof -
  assume i: "i < 2 ^ 16"
  have "get16 (list_mem (mk_dirent name i)) 0 = get16 (put16 0 (ucast i) (\<lambda>j. list_mem (take DIRSIZ name) (j - 2))) 0"
    by (rule get16_cong) (simp add: mk_dirent_def bytes_def list_mem_def DIRENT_def)
  then have "get16 (list_mem (mk_dirent name i)) 0 = ucast i" by simp
  then show ?thesis using ucast_16 [OF i] by (simp add: de_inum_def)
qed

lemma dirent_name:
  assumes "0 \<notin> set name"
  shows "dname (de_name (mk_dirent name i)) = take DIRSIZ name"
proof -
  have j: "de_name (mk_dirent name i) j = list_mem (take DIRSIZ name) j" if "j < DIRSIZ" for j
    using that by (simp add: de_name_def list_mem_def mk_dirent_def bytes_def put16_def DIRENT_def DIRSIZ_def)
  show ?thesis by (rule dname_list [OF assms]) (simp_all add: j list_mem_def)
qed

lemma dirent_concat:
  assumes "\<And>k. length (g k) = DIRENT" and "k < n"
  shows "dirent_at (concat (map g [0..<n]) @ r) k = g k"
proof -
  have l: "length (concat (map g xs)) = length xs * DIRENT" for xs using assms(1) by (induction xs) auto
  show ?thesis unfolding upt_at [OF assms(2)] dirent_at_def using assms(1) l [of "[0..<k]"] by simp
qed

lemma dirent_zeros:
  assumes "length xs \<le> k * DIRENT"
  shows "de_inum (dirent_at (xs @ replicate z 0) k) = 0"
proof -
  have "list_mem (take DIRENT (drop (k * DIRENT) (xs @ replicate z 0))) = (\<lambda>_. 0)"
    using assms by (auto simp: list_mem_def fun_eq_iff)
  then show ?thesis by (simp add: dirent_at_def de_inum_def get16_def)
qed

lemma root_map:
  assumes n: "distinct (map (take DIRSIZ) (root_names fs))" "\<forall>n\<in>set (root_names fs). 0 \<notin> set n" and l: "Suc (length fs) < NINODES"
    and k: "k < length (root_names fs)"
  shows "dir_map (tree_files fs 1 @ replicate z 0) (take DIRSIZ (root_names fs ! k)) = Some (of_nat (max k 1))"
proof -
  let ?xs = "tree_files fs 1 @ replicate z 0" and ?ns = "root_names fs"
  have len: "length ?ns = length fs + 2" by (simp add: root_names_def)
  have at: "dirent_at ?xs j = root_ent fs j" if "j < length ?ns" for j
    unfolding root_entries using that len by (intro dirent_concat) (simp_all add: root_ent_def)
  have name: "ent_name ?xs j = take DIRSIZ (?ns ! j)" if "j < length ?ns" for j
    using at [OF that] n(2) that by (simp add: ent_name_def root_ent_def dirent_name)
  have inum: "ent_inum ?xs j = of_nat (max j 1)" "ent_inum ?xs j \<noteq> 0" if "j < length ?ns" for j
  proof -
    have u: "unat (of_nat (max j 1) :: u32) = max j 1" using that l len by (intro unat_of_nat_32) (simp add: NINODES_def)
    then have "(of_nat (max j 1) :: u32) < 2 ^ 16" using that l len by (simp add: word_less_nat_alt NINODES_def)
    then show e: "ent_inum ?xs j = of_nat (max j 1)"
      using at [OF that] by (simp add: ent_inum_def root_ent_def dirent_inum)
    show "ent_inum ?xs j \<noteq> 0" unfolding e using u by (metis max.cobounded2 not_one_le_zero unsigned_0)
  qed
  have none: "ent_inum ?xs j = 0" if "\<not> j < length ?ns" for j
    unfolding ent_inum_def by (rule dirent_zeros) (use that len length_root [of fs] mult_le_mono1 [of "length fs + 2" j DIRENT] in simp)
  have "dir_index ?xs (take DIRSIZ (?ns ! k)) = Some k" unfolding dir_index_def
  proof (rule first_index_unique)
    show "k < ents ?xs" using k len length_root [of fs] by (simp add: ents_def DIRENT_def)
    show "ent_inum ?xs k \<noteq> 0 \<and> ent_name ?xs k = take DIRSIZ (?ns ! k)" using inum name k by simp
    fix j assume "ent_inum ?xs j \<noteq> 0 \<and> ent_name ?xs j = take DIRSIZ (?ns ! k)"
    moreover from this have "j < length ?ns" using none by blast
    ultimately show "j = k" using n(1) k name by (metis length_map nth_eq_iff_index_eq nth_map)
  qed
  then show ?thesis using inum(1) k by (simp add: dir_map_def)
qed


subsection \<open>The files\<close>

text \<open>
  Names on the command line that the kernel can tell apart, and a root directory that does not end
  at the end of a block (mkfs would then add a block to its size that it does not map).
\<close>

definition good_names :: "(u8 list \<times> u8 list list option) list \<Rightarrow> bool" where
  "good_names fs \<longleftrightarrow> distinct (map (take DIRSIZ) (root_names fs)) \<and> (\<forall>n\<in>set (root_names fs). n \<noteq> [] \<and> 0 \<notin> set n)
     \<and> length (root_names fs) mod (BSIZE div DIRENT) \<noteq> 0"

lemma madeD:
  assumes "made fs m bl" "1 \<le> i" "i \<le> Suc (length fs)"
  shows "i_type (ino_at (m_disk m) i) = mk_type i" "i_nlink (ino_at (m_disk m) i) = 1"
    "i_size (ino_at (m_disk m) i) = of_nat (if i = 1 then (length (tree_files fs 1) div BSIZE + 1) * BSIZE else length (tree_files fs i))"
    "file_ok m (ino_at (m_disk m) i) (bl i) (tree_files fs i)"
  using assms by (auto simp: made_def Let_def)

lemma nblocks_le: "n \<le> k * BSIZE \<Longrightarrow> nblocks n \<le> k" "n \<le> nblocks n * BSIZE"
  by (simp_all add: nblocks_def mk_consts)

lemma nblocks_up: "n mod BSIZE \<noteq> 0 \<Longrightarrow> nblocks n = n div BSIZE + 1"
proof -
  assume n: "n mod BSIZE \<noteq> 0"
  define q r where "q = n div 512" and "r = n mod 512"
  have "n = 512 * q + r" "0 < r" "r < 512" using n by (simp_all add: q_def r_def mk_consts)
  then have "(n + 511) div 512 = q + 1" by (intro div_nat_eqI) simp_all
  then show ?thesis by (simp add: nblocks_def mk_consts q_def)
qed

lemma root_blocks:
  assumes "good_names fs"
  shows "length (tree_files fs 1) div BSIZE + 1 = nblocks (length (tree_files fs 1))"
proof -
  have "(length fs + 2) mod 32 \<noteq> 0" using assms by (simp add: good_names_def root_names_def mk_consts DIRENT_def)
  then have "((length fs + 2) * 16) mod (32 * 16) \<noteq> 0" unfolding mult_mod_left [symmetric] by simp
  then show ?thesis using nblocks_up unfolding length_root by (simp add: mk_consts DIRENT_def)
qed

text \<open>The inodes under the kernel, which reads 0 bytes behind the entries of the root.\<close>

lemma image_files:
  assumes m: "made fs m bl" "on_image m s" and f: "fits fs" "good_names fs" and i: "1 \<le> i" "i \<le> Suc (length fs)"
  defines "ip \<equiv> dino s (of_nat i)"
  shows "i_type ip = mk_type i" "i_nlink ip = 1"
    "\<exists>z. fbytes s ip = tree_files fs i @ replicate z 0 \<and> (i \<noteq> 1 \<longrightarrow> z = 0)
       \<and> (i = 1 \<longrightarrow> unat (i_size ip) = nblocks (length (tree_files fs 1)) * BSIZE)"
    "sects (cont s) ip (bl i)"
proof -
  let ?cs = "tree_files fs i"
  note M = madeD [OF m(1) i] and D = on_imageD [OF m]
  have same: "same_ino ip (ino_at (m_disk m) i)" using image_ino [OF D(1), of i] D(2) by (simp add: ip_def)
  then show "i_type ip = mk_type i" "i_nlink ip = 1" using M by (simp_all add: same_ino_def)
  show o: "sects (cont s) ip (bl i)" using same M(4) D(2) by (simp add: sects_def same_ino_def file_ok_def)
  let ?sz = "if i = 1 then nblocks (length ?cs) * BSIZE else length ?cs"
  have b: "nblocks (length ?cs) \<le> NDIRECT + NINDIRECT" using nblocks_le(1) tree_bounds [OF f(1) i] by blast
  have z: "i_size ip = of_nat ?sz" using same M(3) root_blocks [OF f(2)] by (auto simp: same_ino_def)
  have le: "length ?cs \<le> ?sz" "?sz \<le> nblocks (length ?cs) * BSIZE" using nblocks_le(2) by auto
  have "?sz \<le> (10 + 128) * 512" using le(2) b by (simp add: mk_consts)
  then have "unat (i_size ip) = ?sz" using z by (simp add: unat_of_nat_32)
  moreover have "fbytes s ip = ?cs @ replicate (?sz - length ?cs) 0"
    using image_bytes [OF o _ _ z le b] M(4) D(2) by (simp add: file_ok_def)
  ultimately show "\<exists>z. fbytes s ip = ?cs @ replicate z 0 \<and> (i \<noteq> 1 \<longrightarrow> z = 0)
       \<and> (i = 1 \<longrightarrow> unat (i_size ip) = nblocks (length (tree_files fs 1)) * BSIZE)"
    by (intro exI [of _ "?sz - length ?cs"]) auto
qed

lemma image_ino_ok:
  assumes m: "made fs m bl" "on_image m s" and f: "fits fs" "good_names fs" and i: "1 \<le> i" "i \<le> Suc (length fs)"
  shows "ino_ok s (of_nat i)"
proof -
  note D = on_imageD [OF m] and I = image_files [OF m f i]
  let ?ip = "dino s (of_nat i)" and ?ib = "IBLOCK (of_nat i) (f_sb s)"
  have "i < NINODES" using i(2) f(1) by (simp add: fits_def)
  note p = inode_place(1) [OF this]
  have ib: "32 \<le> unat ?ib" "unat ?ib < 58"
    using p \<open>i < NINODES\<close> D(1) by (simp_all add: NINODES_def less_mult_imp_div_less)
  then have home: "inode_home s (of_nat i)" using D(3,4) by (fastforce simp: inode_home_def word_less_nat_alt)
  have "\<exists>nb. dir_inode s (of_nat i) nb" if "i = 1"
  proof
    let ?n = "nblocks (length (tree_files fs i))"
    have free: "unat (m_freeblock m) \<le> FSBLOCKS" using m(1) f(1) by (simp add: made_def fits_def mk_consts FSBLOCKS_def)
    have n: "?n \<le> NDIRECT + NINDIRECT" using nblocks_le(1) tree_bounds [OF f(1) i] by blast
    note K = image_data_ok [OF m(2,1) madeD(4) [OF m(1) i] I(4) refl n free]
    have sz: "unat (i_size ?ip) = ?n * BSIZE" using I(3) that by auto
    have "?ib \<notin> data_blocks s ?ip ?n" using K(2) ib(2) by (fastforce simp: mk_consts)
    moreover have "NDIRECT < ?n \<longrightarrow> ?ib \<noteq> i_addrs ?ip NDIRECT" using K(3) ib(2) by (fastforce simp: mk_consts)
    moreover have "DIRENT dvd ?n * BSIZE" by (simp add: DIRENT_def mk_consts)
    ultimately show "dir_inode s (of_nat i) ?n"
      using K(1) sz home unfolding dir_inode_def Let_def by simp
  qed
  moreover have "i_type ?ip = T_DIR \<longrightarrow> i = 1" using I(1) by (simp add: mk_type_def T_DIR_def T_FILE_def split: if_splits)
  moreover have "i_type ?ip \<noteq> 0" using I(1) by (simp add: mk_type_def T_DIR_def T_FILE_def)
  ultimately show ?thesis using I(2) home by (auto simp: ino_ok_def inode_home_def)
qed

lemma image_lookup:
  assumes m: "made fs m bl" "on_image m s" and f: "fits fs" "good_names fs" and k: "k < length fs"
  defines "e \<equiv> mk_name (fst (fs ! k))" and "inum \<equiv> of_nat (k + 2)"
  shows "walk s False ROOTINO [e] = Some inum" "way_ok s False ROOTINO [e]"
    "i_type (dino s inum) = T_FILE" "fbytes s (dino s inum) = file_data (fs ! k)"
proof -
  note R = image_files [OF m f, of 1] and F = image_files [OF m f, of "k + 2"]
  have root: "i_type (dino s 1) = T_DIR" using R(1) by (simp add: mk_type_def)
  obtain z where z: "fbytes s (dino s 1) = tree_files fs 1 @ replicate z 0" using R(3) by auto
  have e: "root_names fs ! (k + 2) = e" "k + 2 < length (root_names fs)" using k by (simp_all add: root_names_def e_def)
  have "dir_map (fbytes s (dino s 1)) (take DIRSIZ e) = Some inum"
    using root_map [of fs "k + 2" z] f e by (simp add: z good_names_def fits_def inum_def)
  moreover have "ino_ok s 1" "ino_ok s inum"
    using image_ino_ok [OF m f, of 1] image_ino_ok [OF m f, of "k + 2"] k by (simp_all add: inum_def)
  ultimately show "walk s False ROOTINO [e] = Some inum" "way_ok s False ROOTINO [e]"
    using root by (simp_all add: ROOTINO_def)
  have "tree_files fs (k + 2) = file_data (fs ! k)"
    using put_files_new [of 1 k fs root_files] k by (simp add: tree_files_def)
  then show "fbytes s (dino s inum) = file_data (fs ! k)" using F(3) k by (auto simp: inum_def)
  show "i_type (dino s inum) = T_FILE" using F(1) k by (simp add: mk_type_def inum_def)
qed

text \<open>
  C19: mkfs on files that fit ends with an image from which every kernel that runs on it
  finds them: the path of a slash and the name, without its leading underscore, leads namex
  to an inode of type file whose bytes are those that were read, in the order of the command
  line, and the bitmap marks exactly the blocks that mkfs has filled.
\<close>

theorem mkfs_builds_tree:
  assumes "fits fs" and "good_names fs"
  shows "\<exists>m. mkfs fs = Inr m \<and> (\<forall>cwd s. on_image m s \<longrightarrow> paths_ok cwd s \<longrightarrow>
      (\<forall>k<length fs. \<exists>ip n s'. namex cwd (slash # mk_name (fst (fs ! k))) False name s = Inr (Some (ip, n), s')
         \<and> i_inum (f_icache s' ip) = of_nat (k + 2) \<and> i_type (dino s (of_nat (k + 2))) = T_FILE
         \<and> fbytes s (dino s (of_nat (k + 2))) = file_data (fs ! k))
    \<and> (\<forall>b. unat b < FSBLOCKS \<longrightarrow> (bused s b \<longleftrightarrow> unat b < sectors (Suc (length fs)) (tree_files fs))))"
proof -
  obtain m bl where m: "mkfs fs = Inr m" "made fs m bl" using mkfs_made [OF assms(1)] by blast
  have find: "\<exists>ip n s'. namex cwd (slash # mk_name (fst (fs ! k))) False name s = Inr (Some (ip, n), s')
      \<and> i_inum (f_icache s' ip) = of_nat (k + 2)"
    if s: "on_image m s" "paths_ok cwd s" and k: "k < length fs" for cwd s k
  proof -
    let ?e = "mk_name (fst (fs ! k))"
    have e: "?e \<noteq> []" "0 \<notin> set ?e" using assms(2) k by (auto simp: good_names_def root_names_def)
    have "set ?e \<subseteq> set (fst (fs ! k))" by (cases "fst (fs ! k)") (auto simp: mk_name_def)
    then have "slash \<notin> set ?e" using assms(1) k by (fastforce simp: fits_def)
    then have el: "elems (slash # ?e) = [?e]" using e(1) by (simp add: elems_simps)
    have z: "0 \<notin> set (slash # ?e)" using e(2) by (simp add: slash_def)
    have st: "start_inum cwd (slash # ?e) s = ROOTINO" by (simp add: start_inum_def)
    note L = image_lookup [OF m(2) s(1) assms k]
    show ?thesis using namex_spec [OF s(2) z, of False name] L(1,2) unfolding el st
      by (fastforce simp: walked_def on_way_def)
  qed
  have "bused s b \<longleftrightarrow> unat b < sectors (Suc (length fs)) (tree_files fs)" if "on_image m s" "unat b < FSBLOCKS" for s b
    using m(2) on_imageD(1,2) [OF m(2) that(1)] that(2) by (simp add: bused_def made_def word_less_nat_alt)
  then show ?thesis using m(1) find image_lookup(3,4) [OF m(2) _ assms] by (intro exI [of _ m]) blast
qed

text \<open>A kernel that has started on the image, with a process in the root directory.\<close>

definition started :: "image \<Rightarrow> fsys" where
  "started m = (boot (m_disk m) (demo_base\<lparr>f_sb := get_sb (m_disk m 1), f_disksize := of_nat FSBLOCKS,
     f_icache := \<lambda>i. bzero_dinode\<lparr>i_dev := 1, i_inum := 1, i_ref := if i = 0 then 1 else 0\<rparr>\<rparr>))
       \<lparr>f_log := (demo_log 0)\<lparr>lg_start := sb_logstart (get_sb (m_disk m 1))\<rparr>\<rparr>"

lemma started_ok: "on_image m (started m)" "paths_ok 0 (started m)"
proof -
  have c: "f_icache (started m) = (\<lambda>i. bzero_dinode\<lparr>i_dev := 1, i_inum := 1, i_ref := if i = 0 then 1 else 0\<rparr>)"
    by (simp add: started_def)
  have "v_held (view (started m)) = {}" using boot_held by (simp add: view_def started_def)
  then have "reads (started m)" by (simp add: reads_def started_def boot_ok NBUF_def)
  moreover have "cache_ok (started m)" by (simp add: cache_ok_def c bzero_dinode_def)
  moreover have "unlocked (started m)" by (simp add: unlocked_def c bzero_dinode_def initsleeplock_def)
  moreover have r: "refs (started m) = (\<lambda>i. if i = 0 then 1 else 0)" by (simp add: refs_def c fun_eq_iff)
  moreover have "{i. i < NINODE \<and> refs (started m) i = 0} = {1..<NINODE}" by (auto simp: r)
  ultimately show "paths_ok 0 (started m)" by (simp add: paths_ok_def NINODE_def)
  show "on_image m (started m)" by (simp add: on_image_def started_def boot_ok)
qed

theorem mkfs_builds_tree_witness:
  "\<exists>m s ip n s'. mkfs [([95, 97], Some [[1, 2], [3], []])] = Inr m
    \<and> namex 0 [47, 97] False (\<lambda>_. 0) s = Inr (Some (ip, n), s')
    \<and> i_inum (f_icache s' ip) = 2 \<and> fbytes s (dino s 2) = [1, 2, 3] \<and> bused s 69 \<and> \<not> bused s 70"
proof -
  let ?f = "([95, 97], Some [[1, 2], [3], []]) :: u8 list \<times> u8 list list option"
  have d: "file_data ?f = [1, 2, 3]" "mk_name [95, 97 :: u8] = [97]" by (simp_all add: file_data_def mk_name_def)
  have sec: "sectors (Suc (length [?f])) (tree_files [?f]) = 70"
    by (simp add: sectors_def tree_files_def put_file_def root_files_def d need_def mk_consts DIRENT_def Let_def)
  have f: "fits [?f]" using sec d by (simp add: fits_def slash_def NINODES_def mk_consts)
  have g: "good_names [?f]" by (simp add: good_names_def root_names_def d DIRSIZ_def DIRENT_def mk_consts)
  obtain m where m: "mkfs [?f] = Inr m" and t: "\<forall>cwd s. on_image m s \<longrightarrow> paths_ok cwd s \<longrightarrow>
      (\<forall>k<length [?f]. \<exists>ip n s'. namex cwd (slash # mk_name (fst ([?f] ! k))) False (\<lambda>_. 0) s = Inr (Some (ip, n), s')
         \<and> i_inum (f_icache s' ip) = of_nat (k + 2) \<and> i_type (dino s (of_nat (k + 2))) = T_FILE
         \<and> fbytes s (dino s (of_nat (k + 2))) = file_data ([?f] ! k))
    \<and> (\<forall>b. unat b < FSBLOCKS \<longrightarrow> (bused s b \<longleftrightarrow> unat b < sectors (Suc (length [?f])) (tree_files [?f])))"
    using mkfs_builds_tree [OF f g, of "\<lambda>_. 0"] by blast
  note s = t [rule_format, OF started_ok]
  have "bused (started m) 69" "\<not> bused (started m) 70"
    using conjunct2 [OF s, THEN spec, of 69] conjunct2 [OF s, THEN spec, of 70] sec by (simp_all add: FSBLOCKS_def)
  moreover obtain ip n s' where "namex 0 [47, 97] False (\<lambda>_. 0) (started m) = Inr (Some (ip, n), s')"
    "i_inum (f_icache s' ip) = 2" "fbytes (started m) (dino (started m) 2) = [1, 2, 3]"
    using conjunct1 [OF s, THEN spec, of 0] d by (auto simp: slash_def)
  ultimately show ?thesis using m by blast
qed

end
