(* ===== verification/Boot.thy ===== *)
theory Boot
  imports Ide_Ok
begin

text \<open>
  bootmain.c: the boot loader, which reads the kernel from the disk, an ELF file that begins at
  sector 1, into physical memory and jumps to its entry. As in the driver, the ports are the list
  of what was written and the sequence of the answers of the status port; \<open>reply\<close> is what the data
  port delivers after a sequence of writes. Pointers are words of 32 bits, so sums wrap, and \<open>None\<close>
  is a loop that does not end.
\<close>

definition SECTSIZE :: nat where "SECTSIZE = 512"
definition BOOT_MAGIC :: u32 where "BOOT_MAGIC = 0x464C457F"

record loader =
  bt_mem :: mem
  bt_io :: "port list"
  bt_st :: "nat \<Rightarrow> u8"
  bt_rd :: nat

text \<open>\<open>n\<close> bytes from \<open>a\<close> on; the string instructions wrap around the top of memory.\<close>

definition put_bytes :: "u32 \<Rightarrow> u32 \<Rightarrow> mem \<Rightarrow> mem \<Rightarrow> mem" where
  "put_bytes a n data m = (\<lambda>x. if x < 2 ^ 32 \<and> (of_nat x - a :: u32) < n then data (unat (of_nat x - a :: u32)) else m x)"

definition ld32 :: "u32 \<Rightarrow> loader \<Rightarrow> u32" where
  "ld32 a s = get32 (bt_mem s) (unat a)"

definition ld16 :: "u32 \<Rightarrow> loader \<Rightarrow> u16" where
  "ld16 a s = get16 (bt_mem s) (unat a)"

partial_function (option) disk_ready :: "(nat \<Rightarrow> u8) \<Rightarrow> nat \<Rightarrow> nat option" where
  "disk_ready st n = (if st n AND 0xC0 \<noteq> 0x40 then disk_ready st (Suc n) else Some n)"

definition waitdisk :: "loader \<Rightarrow> loader option" where
  "waitdisk s = map_option (\<lambda>n. s\<lparr>bt_rd := Suc n\<rparr>) (disk_ready (bt_st s) (bt_rd s))"

definition boot_command :: "u32 \<Rightarrow> port list" where
  "boot_command sector =
     [Outb 0x1F2 1, Outb 0x1F3 (ucast sector), Outb 0x1F4 (ucast (drop_bit 8 sector)),
      Outb 0x1F5 (ucast (drop_bit 16 sector)), Outb 0x1F6 (ucast (drop_bit 24 sector OR 0xE0)), Outb 0x1F7 0x20]"

definition readsect :: "(port list \<Rightarrow> mem) \<Rightarrow> u32 \<Rightarrow> u32 \<Rightarrow> loader \<Rightarrow> loader option" where
  "readsect reply dst sector s =
     Option.bind (waitdisk s) (\<lambda>s.
     let s = s\<lparr>bt_io := bt_io s @ boot_command sector\<rparr> in
     Option.bind (waitdisk s) (\<lambda>s.
     Some (s\<lparr>bt_mem := put_bytes dst (of_nat SECTSIZE) (reply (bt_io s)) (bt_mem s)\<rparr>)))"

partial_function (option) readseg_loop :: "(port list \<Rightarrow> mem) \<Rightarrow> u32 \<Rightarrow> u32 \<Rightarrow> u32 \<Rightarrow> loader \<Rightarrow> loader option" where
  "readseg_loop reply epa pa sector s =
     (if pa < epa then
        Option.bind (readsect reply pa sector s) (\<lambda>s.
        readseg_loop reply epa (pa + of_nat SECTSIZE) (sector + 1) s)
      else Some s)"

definition readseg :: "(port list \<Rightarrow> mem) \<Rightarrow> u32 \<Rightarrow> u32 \<Rightarrow> u32 \<Rightarrow> loader \<Rightarrow> loader option" where
  "readseg reply pa count off s =
     (let epa = pa + count;
          pa = pa - off mod of_nat SECTSIZE;
          sector = off div of_nat SECTSIZE + 1
      in readseg_loop reply epa pa sector s)"

text \<open>The fields of a program header are read from memory whenever the code uses them.\<close>

definition load_segment :: "(port list \<Rightarrow> mem) \<Rightarrow> u32 \<Rightarrow> loader \<Rightarrow> loader option" where
  "load_segment reply ph s =
     (let pa = ld32 (ph + 12) s in
      Option.bind (readseg reply pa (ld32 (ph + 16) s) (ld32 (ph + 4) s) s) (\<lambda>s.
      let filesz = ld32 (ph + 16) s; memsz = ld32 (ph + 20) s in
      Some (if memsz > filesz
            then s\<lparr>bt_mem := put_bytes (pa + filesz) (memsz - filesz) (\<lambda>_. 0) (bt_mem s)\<rparr>
            else s)))"

partial_function (option) segment_loop :: "(port list \<Rightarrow> mem) \<Rightarrow> u32 \<Rightarrow> u32 \<Rightarrow> loader \<Rightarrow> loader option" where
  "segment_loop reply eph ph s =
     (if ph < eph then Option.bind (load_segment reply ph s) (\<lambda>s. segment_loop reply eph (ph + 32) s)
      else Some s)"

text \<open>The answer is the address it jumps to, or \<open>None\<close> when it returns to the assembly.\<close>

definition bootmain :: "(port list \<Rightarrow> mem) \<Rightarrow> loader \<Rightarrow> (u32 option \<times> loader) option" where
  "bootmain reply s =
     (let elf = 0x10000 in
      Option.bind (readseg reply elf 4096 0 s) (\<lambda>s.
      if ld32 elf s \<noteq> BOOT_MAGIC then Some (None, s)
      else
        let ph = elf + ld32 (elf + 28) s;
            eph = ph + ucast (ld16 (elf + 44) s) * 32
        in Option.bind (segment_loop reply eph ph s) (\<lambda>s.
           Some (Some (ld32 (elf + 24) s), s))))"


subsection \<open>What is loaded\<close>

text \<open>
  The boot loader loads the kernel: with a disk that answers the commands, every segment of the ELF
  file stands in memory at its physical address, followed by zeros, although whole sectors are
  read and may run over what follows a segment.
\<close>

subsection \<open>The disk\<close>

definition boot_disk :: "(u32 \<Rightarrow> mem) \<Rightarrow> (port list \<Rightarrow> mem) \<Rightarrow> (nat \<Rightarrow> u8) \<Rightarrow> bool" where
  "boot_disk disk reply st \<longleftrightarrow>
     (\<forall>xs l0 l1 l2 h. h AND 0xf0 = 0xe0 \<longrightarrow>
        reply (xs @ [Outb 0x1f2 1, Outb 0x1f3 l0, Outb 0x1f4 l1, Outb 0x1f5 l2, Outb 0x1f6 h, Outb 0x1f7 0x20])
          = disk (lba l0 l1 l2 h))
   \<and> (\<forall>n. \<exists>m\<ge>n. st m AND 0xC0 = 0x40)"

lemma boot_lba:
  fixes b :: u32
  assumes "unat b < 2 ^ 28"
  shows "lba (ucast b) (ucast (drop_bit 8 b)) (ucast (drop_bit 16 b)) (ucast (drop_bit 24 b OR 0xE0)) = b"
    "(ucast (drop_bit 24 b OR 0xE0) :: u8) AND 0xf0 = 0xe0"
proof -
  have b: "take_bit 28 b = b" using assms by (metis unsigned_take_bit_eq take_bit_nat_eq_self unsigned_word_eqI)
  have high: "\<not> bit b n" if "28 \<le> n" for n using that by (subst b [symmetric]) (simp add: bit_simps)
  show "lba (ucast b) (ucast (drop_bit 8 b)) (ucast (drop_bit 16 b)) (ucast (drop_bit 24 b OR 0xE0)) = b"
  proof (rule bit_eqI)
    fix n assume "possible_bit TYPE(u32) n"
    then consider "n < 8" | "8 \<le> n" "n < 16" | "16 \<le> n" "n < 24" | "24 \<le> n" "n < 28" | "28 \<le> n" "n < 32" by fastforce
    then show "bit (lba (ucast b) (ucast (drop_bit 8 b)) (ucast (drop_bit 16 b)) (ucast (drop_bit 24 b OR 0xE0))) n = bit b n"
      by cases (auto simp: lba_def bit_simps bit_byte_masks high)
  qed
  show "(ucast (drop_bit 24 b OR 0xE0) :: u8) AND 0xf0 = 0xe0"
    by (rule bit_eqI) (auto simp: bit_simps bit_byte_masks high)
qed

lemma disk_ready_ends:
  assumes "st m AND 0xC0 = 0x40" "n \<le> m"
  shows "\<exists>k. disk_ready st n = Some k"
  using assms(2)
proof (induction "m - n" arbitrary: n)
  case 0
  then show ?case using assms(1) by (simp add: disk_ready.simps [of st n])
next
  case (Suc d)
  then show ?case by (cases "st n AND 0xC0 = 0x40") (simp_all add: disk_ready.simps [of st n])
qed

lemma waitdisk_ready:
  assumes "boot_disk disk reply (bt_st s)"
  shows "\<exists>n. waitdisk s = Some (s\<lparr>bt_rd := n\<rparr>)"
proof -
  obtain m where "bt_rd s \<le> m" "bt_st s m AND 0xC0 = 0x40" using assms unfolding boot_disk_def by blast
  then obtain k where "disk_ready (bt_st s) (bt_rd s) = Some k"
    using disk_ready_ends [where st = "bt_st s"] by blast
  then show ?thesis by (auto simp: waitdisk_def)
qed


subsection \<open>Reading sectors\<close>

text \<open>Without a wrap around the top of memory.\<close>

lemma put_bytes_copy:
  assumes "unat a + unat n \<le> 2 ^ 32"
  shows "put_bytes a n data m = mcopy data 0 (unat a) (unat n) m"
proof (rule ext)
  fix x
  show "put_bytes a n data m x = mcopy data 0 (unat a) (unat n) m x"
  proof (cases "x < 2 ^ 32")
    case True
    then have x: "unat (of_nat x :: u32) = x" by (rule unat_of_nat_32)
    show ?thesis
    proof (cases "unat a \<le> x")
      case True
      then have "unat (of_nat x - a) = x - unat a" using x by (simp add: unat_sub word_le_nat_alt)
      then show ?thesis using True \<open>x < 2 ^ 32\<close> by (auto simp: put_bytes_def mcopy_def word_less_nat_alt)
    next
      case False
      then have "unat (of_nat x - a) = 2 ^ 32 + x - unat a"
        using x by (simp add: unat_sub_if_size word_size)
      then have "\<not> of_nat x - a < n" using assms unat_less_32 [of a] unfolding word_less_nat_alt by linarith
      then show ?thesis using False by (simp add: put_bytes_def mcopy_def)
    qed
  next
    case False
    then show ?thesis using assms by (simp add: put_bytes_def mcopy_def)
  qed
qed

lemma readsect_ok:
  assumes d: "boot_disk disk reply (bt_st s)" and b: "unat sector < 2 ^ 28" and a: "unat dst + 512 \<le> 2 ^ 32"
  shows "\<exists>s'. readsect reply dst sector s = Some s' \<and> bt_st s' = bt_st s
    \<and> bt_mem s' = mcopy (disk sector) 0 (unat dst) 512 (bt_mem s)"
proof -
  obtain n where n: "waitdisk s = Some (s\<lparr>bt_rd := n\<rparr>)" using waitdisk_ready [OF d] by blast
  let ?s = "s\<lparr>bt_rd := n, bt_io := bt_io s @ boot_command sector\<rparr>"
  have "boot_disk disk reply (bt_st ?s)" using d by simp
  then obtain k where k: "waitdisk ?s = Some (?s\<lparr>bt_rd := k\<rparr>)" using waitdisk_ready by blast
  have "reply (bt_io s @ boot_command sector) = disk sector"
    using d boot_lba [OF b] by (simp add: boot_disk_def boot_command_def)
  moreover have "put_bytes dst 512 x m = mcopy x 0 (unat dst) 512 m" for x m
    using put_bytes_copy [of dst 512] a by simp
  ultimately show ?thesis using n k by (simp add: readsect_def SECTSIZE_def)
qed

text \<open>Byte \<open>k\<close> of the kernel's file, which begins at sector 1.\<close>

definition kbyte :: "(u32 \<Rightarrow> mem) \<Rightarrow> mem" where
  "kbyte disk k = disk (of_nat (k div 512 + 1)) (k mod 512)"

lemma readseg_loop_ok:
  assumes "boot_disk disk reply (bt_st s)" and "unat pa + 512 * n < 2 ^ 32" and "q + n < 2 ^ 28"
    and "0 < n \<Longrightarrow> unat pa + 512 * (n - 1) < unat epa" and "unat epa \<le> unat pa + 512 * n"
  shows "\<exists>s'. readseg_loop reply epa pa (of_nat (q + 1)) s = Some s' \<and> bt_st s' = bt_st s
    \<and> bt_mem s' = mcopy (kbyte disk) (512 * q) (unat pa) (512 * n) (bt_mem s)"
  using assms
proof (induction n arbitrary: pa q s)
  case 0
  have "\<not> pa < epa" using 0(5) by (simp add: word_less_nat_alt)
  then show ?case by (auto simp: readseg_loop.simps [of reply epa pa] mcopy_def fun_eq_iff)
next
  case (Suc n)
  have lt: "pa < epa" using Suc.prems(4) by (simp add: word_less_nat_alt)
  have p: "unat (pa + of_nat SECTSIZE) = unat pa + 512"
    using Suc.prems(2) unat_add_nat_32 [of pa 512] by (simp add: SECTSIZE_def)
  have q: "unat (of_nat (q + 1) :: u32) = q + 1" using Suc.prems(3) by (intro unat_of_nat_32) simp
  obtain s1 where s1: "readsect reply pa (of_nat (q + 1)) s = Some s1" "bt_st s1 = bt_st s"
    "bt_mem s1 = mcopy (disk (of_nat (q + 1))) 0 (unat pa) 512 (bt_mem s)"
    using readsect_ok [OF Suc.prems(1), of "of_nat (q + 1)" pa] q Suc.prems(2,3) by auto
  have "\<exists>s'. readseg_loop reply epa (pa + of_nat SECTSIZE) (of_nat (Suc q + 1)) s1 = Some s' \<and> bt_st s' = bt_st s1
    \<and> bt_mem s' = mcopy (kbyte disk) (512 * Suc q) (unat (pa + of_nat SECTSIZE)) (512 * n) (bt_mem s1)"
    by (rule Suc.IH) (use Suc.prems s1(2) p in \<open>auto simp: diff_mult_distrib2\<close>)
  then obtain s' where s': "readseg_loop reply epa (pa + of_nat SECTSIZE) (of_nat (Suc q + 1)) s1 = Some s'"
    "bt_st s' = bt_st s" "bt_mem s' = mcopy (kbyte disk) (512 * Suc q) (unat pa + 512) (512 * n) (bt_mem s1)"
    using p s1(2) by auto
  have "mcopy (kbyte disk) (512 * Suc q) (unat pa + 512) (512 * n) (bt_mem s1)
      = mcopy (kbyte disk) (512 * q) (unat pa) (512 * Suc n) (bt_mem s)"
  proof (rule ext)
    fix x
    have "kbyte disk (512 * q + (x - unat pa)) = disk (of_nat (q + 1)) (x - unat pa)" if "x < unat pa + 512" for x
    proof -
      have "(512 * q + (x - unat pa)) div 512 = q" "(512 * q + (x - unat pa)) mod 512 = x - unat pa"
        using that by (auto simp: div_nat_eqI)
      then show ?thesis by (simp add: kbyte_def)
    qed
    note low = this
    have high: "512 * Suc q + (x - (unat pa + 512)) = 512 * q + (x - unat pa)" if "unat pa + 512 \<le> x"
      using that by simp
    show "mcopy (kbyte disk) (512 * Suc q) (unat pa + 512) (512 * n) (bt_mem s1) x
      = mcopy (kbyte disk) (512 * q) (unat pa) (512 * Suc n) (bt_mem s) x"
    proof (cases "unat pa + 512 \<le> x")
      case True
      then show ?thesis unfolding s1(3) mcopy_def high [OF True] by auto
    next
      case False
      then have "kbyte disk (512 * q + (x - unat pa)) = disk (of_nat (q + 1)) (x - unat pa)" by (intro low) simp
      then show ?thesis unfolding s1(3) mcopy_def using False by auto
    qed
  qed
  then show ?case using lt s1(1) s' by (simp add: readseg_loop.simps [of reply epa pa] algebra_simps)
qed

text \<open>A segment of \<open>count\<close> bytes at offset \<open>off\<close>: the first byte and the number of the sectors.\<close>

definition seg_first :: "nat \<Rightarrow> nat \<Rightarrow> nat" where "seg_first pa off = pa - off mod 512"
definition seg_sects :: "nat \<Rightarrow> nat \<Rightarrow> nat" where "seg_sects count off = (off mod 512 + count + 511) div 512"

lemma seg_sects_le: "off mod 512 + count \<le> 512 * seg_sects count off"
  "0 < seg_sects count off \<Longrightarrow> 512 * (seg_sects count off - 1) < off mod 512 + count"
  by (simp_all add: seg_sects_def)

lemma readseg_ok:
  fixes pa count off :: u32
  assumes d: "boot_disk disk reply (bt_st s)" and lo: "unat off mod 512 \<le> unat pa"
    and top: "seg_first (unat pa) (unat off) + 512 * seg_sects (unat count) (unat off) < 2 ^ 32"
  shows "\<exists>s'. readseg reply pa count off s = Some s' \<and> bt_st s' = bt_st s
    \<and> bt_mem s' = mcopy (kbyte disk) (unat off - unat off mod 512) (seg_first (unat pa) (unat off))
        (512 * seg_sects (unat count) (unat off)) (bt_mem s)"
proof -
  let ?r = "unat off mod 512" and ?n = "seg_sects (unat count) (unat off)" and ?f = "seg_first (unat pa) (unat off)"
  note n = seg_sects_le [where count = "unat count" and off = "unat off"]
  have f: "?f + ?r = unat pa" using lo by (simp add: seg_first_def)
  have "unat pa + unat count \<le> ?f + 512 * ?n" using n(1) f by linarith
  then have epa: "unat (pa + count) = unat pa + unat count" using top by (intro unat_add_32) linarith
  have "unat (off mod of_nat SECTSIZE) = ?r" by (simp add: unat_mod_distrib SECTSIZE_def)
  then have start: "unat (pa - off mod of_nat SECTSIZE) = ?f"
    using lo by (simp add: unat_sub word_le_nat_alt seg_first_def)
  have q: "off div of_nat SECTSIZE + 1 = of_nat (unat off div 512 + 1)"
  proof -
    have "unat off div 512 < 2 ^ 32" using unat_less_32 [of off] by simp
    then have "unat (of_nat (unat off div 512) :: u32) = unat off div 512" by (rule unat_of_nat_32)
    then have "off div of_nat SECTSIZE = of_nat (unat off div 512)"
      by (simp add: word_unat_eq_iff unat_div_distrib SECTSIZE_def)
    then show ?thesis by simp
  qed
  have "unat off div 512 < 2 ^ 23" using unat_less_32 [of off] by (simp add: less_mult_imp_div_less)
  moreover have "?n < 2 ^ 23" using top by simp
  ultimately have "unat off div 512 + ?n < 2 ^ 28" by simp
  moreover have "512 * (unat off div 512) = unat off - ?r" by (simp add: minus_mod_eq_mult_div)
  moreover have "unat (pa - off mod of_nat SECTSIZE) + 512 * (?n - 1) < unat (pa + count)" if "0 < ?n"
    using n(2) [OF that] f unfolding start epa by linarith
  moreover have "unat (pa + count) \<le> unat (pa - off mod of_nat SECTSIZE) + 512 * ?n"
    using n(1) f unfolding start epa by linarith
  ultimately show ?thesis
    using readseg_loop_ok [OF d, of "pa - off mod of_nat SECTSIZE" ?n "unat off div 512" "pa + count"] top
    unfolding readseg_def Let_def q start by presburger
qed


subsection \<open>The kernel\<close>

definition kphnum :: "mem \<Rightarrow> nat" where "kphnum k = unat (get16 k 44)"
definition kph :: "mem \<Rightarrow> nat \<Rightarrow> nat" where "kph k i = unat (get32 k 28) + 32 * i"
definition koff :: "mem \<Rightarrow> nat \<Rightarrow> nat" where "koff k i = unat (get32 k (kph k i + 4))"
definition kaddr :: "mem \<Rightarrow> nat \<Rightarrow> nat" where "kaddr k i = unat (get32 k (kph k i + 12))"
definition kfilesz :: "mem \<Rightarrow> nat \<Rightarrow> nat" where "kfilesz k i = unat (get32 k (kph k i + 16))"
definition kmemsz :: "mem \<Rightarrow> nat \<Rightarrow> nat" where "kmemsz k i = unat (get32 k (kph k i + 20))"

text \<open>
  A file the loader can load: the program headers lie in its first page, and the segments, whose
  first sectors may begin before them, lie above the scratch page in increasing order.
\<close>

definition kernel_ok :: "mem \<Rightarrow> bool" where
  "kernel_ok k \<longleftrightarrow> get32 k 0 = BOOT_MAGIC \<and> kph k (kphnum k) \<le> 4096
     \<and> (\<forall>i<kphnum k. koff k i mod 512 \<le> kaddr k i \<and> 0x11000 \<le> seg_first (kaddr k i) (koff k i)
          \<and> seg_first (kaddr k i) (koff k i) + 512 * seg_sects (kfilesz k i) (koff k i) < 2 ^ 32
          \<and> kaddr k i + kmemsz k i < 2 ^ 32
          \<and> (\<forall>j<kphnum k. i < j \<longrightarrow> kaddr k i + max (kfilesz k i) (kmemsz k i) \<le> seg_first (kaddr k j) (koff k j)))"

definition loaded :: "mem \<Rightarrow> nat \<Rightarrow> mem \<Rightarrow> bool" where
  "loaded k i m \<longleftrightarrow> (\<forall>j<kfilesz k i. m (kaddr k i + j) = k (koff k i + j))
     \<and> (\<forall>j. kfilesz k i \<le> j \<longrightarrow> j < kmemsz k i \<longrightarrow> m (kaddr k i + j) = 0)"

text \<open>The scratch page holds the beginning of the file.\<close>

definition header :: "mem \<Rightarrow> mem \<Rightarrow> bool" where
  "header k m \<longleftrightarrow> (\<forall>j<4096. m (0x10000 + j) = k j)"

lemma header_ld:
  assumes "header k (bt_mem s)"
  shows "a + 4 \<le> 4096 \<Longrightarrow> ld32 (0x10000 + of_nat a) s = get32 k a" "a + 2 \<le> 4096 \<Longrightarrow> ld16 (0x10000 + of_nat a) s = get16 k a"
proof -
  have u: "unat (0x10000 + of_nat a :: u32) = 0x10000 + a" if "a \<le> 4096" using that unat_add_nat_32 [of "0x10000" a] by simp
  have e: "bt_mem s (0x10000 + a + i) = k (a + i)" if "a + i < 4096" for i
    using assms that by (simp add: header_def add.assoc)
  note e0 = e [of 0, unfolded add_0_right]
  show "ld32 (0x10000 + of_nat a) s = get32 k a" if "a + 4 \<le> 4096"
  proof -
    have "unat (0x10000 + of_nat a :: u32) = 0x10000 + a" "a < 4096" "a + 1 < 4096" "a + 2 < 4096" "a + 3 < 4096" using that u by simp_all
    then show ?thesis unfolding ld32_def get32_def by (simp only: e0 e)
  qed
  show "ld16 (0x10000 + of_nat a) s = get16 k a" if "a + 2 \<le> 4096"
  proof -
    have "unat (0x10000 + of_nat a :: u32) = 0x10000 + a" "a < 4096" "a + 1 < 4096" using that u by simp_all
    then show ?thesis unfolding ld16_def get16_def by (simp only: e0 e)
  qed
qed

lemma load_segment_ok:
  assumes d: "boot_disk disk reply (bt_st s)" and k: "kernel_ok (kbyte disk)" and h: "header (kbyte disk) (bt_mem s)"
    and i: "i < kphnum (kbyte disk)"
  shows "\<exists>s'. load_segment reply (0x10000 + of_nat (kph (kbyte disk) i)) s = Some s' \<and> bt_st s' = bt_st s
    \<and> loaded (kbyte disk) i (bt_mem s')
    \<and> (\<forall>x. x < seg_first (kaddr (kbyte disk) i) (koff (kbyte disk) i) \<longrightarrow> bt_mem s' x = bt_mem s x)"
proof -
  let ?k = "kbyte disk" and ?m = "bt_mem s"
  let ?p = "kph ?k i"
  note K = k [unfolded kernel_ok_def]
  have in_page: "?p + 32 \<le> 4096" using K i by (simp add: kph_def)
  have F: "ld32 (0x10000 + of_nat ?p + of_nat c) t = get32 ?k (?p + c)" if "header ?k (bt_mem t)" "c + 4 \<le> 32" for c t
    using header_ld(1) [OF that(1), of "?p + c"] that(2) in_page by (simp add: add.assoc)
  note F4 = F [of _ 4, simplified] and F12 = F [of _ 12, simplified] and F16 = F [of _ 16, simplified] and F20 = F [of _ 20, simplified]
  let ?pa = "get32 ?k (?p + 12)" and ?fs = "get32 ?k (?p + 16)" and ?off = "get32 ?k (?p + 4)" and ?ms = "get32 ?k (?p + 20)"
  let ?lo = "seg_first (unat ?pa) (unat ?off)" and ?n = "seg_sects (unat ?fs) (unat ?off)"
  have S: "unat ?off mod 512 \<le> unat ?pa" "0x11000 \<le> ?lo" "?lo + 512 * ?n < 2 ^ 32" "unat ?pa + unat ?ms < 2 ^ 32"
    using K i by (simp_all add: koff_def kaddr_def kfilesz_def kmemsz_def)
  obtain s1 where s1: "readseg reply ?pa ?fs ?off s = Some s1" "bt_st s1 = bt_st s"
    "bt_mem s1 = mcopy ?k (unat ?off - unat ?off mod 512) ?lo (512 * ?n) ?m"
    using readseg_ok [OF d S(1,3)] by blast
  have h1: "header ?k (bt_mem s1)" using h S(2) by (simp add: header_def s1(3) mcopy_def)
  have got: "bt_mem s1 (unat ?pa + j) = ?k (unat ?off + j)" if "j < unat ?fs" for j
  proof -
    have f: "unat ?pa = ?lo + unat ?off mod 512" using S(1) by (simp add: seg_first_def)
    have "unat ?off mod 512 + j < 512 * ?n" using that seg_sects_le(1) [of "unat ?off" "unat ?fs"] by linarith
    then have "bt_mem s1 (unat ?pa + j) = ?k (unat ?off - unat ?off mod 512 + (unat ?pa + j - ?lo))"
      unfolding s1(3) using f by (intro mcopy_in) linarith+
    moreover have "unat ?pa + j - ?lo = unat ?off mod 512 + j" using f by linarith
    moreover have "unat ?off - unat ?off mod 512 + (unat ?off mod 512 + j) = unat ?off + j"
      using mod_less_eq_dividend [of "unat ?off" 512] by linarith
    ultimately show ?thesis by (simp only:)
  qed
  let ?z = "put_bytes (?pa + ?fs) (?ms - ?fs) (\<lambda>_. 0) (bt_mem s1)"
  have zero: "?z = mset (unat ?pa + unat ?fs) 0 (unat ?ms - unat ?fs) (bt_mem s1)" if "?ms > ?fs"
  proof -
    have le: "unat ?fs < unat ?ms" using that by (simp add: word_less_nat_alt)
    then have "unat (?pa + ?fs) = unat ?pa + unat ?fs" "unat (?ms - ?fs) = unat ?ms - unat ?fs"
      using S(4) by (auto simp: unat_add_32 unat_sub word_le_nat_alt)
    then show ?thesis using put_bytes_copy [of "?pa + ?fs" "?ms - ?fs"] S(4) le by (auto simp: mset_def mcopy_def)
  qed
  let ?s = "if ?ms > ?fs then s1\<lparr>bt_mem := ?z\<rparr> else s1"
  have run: "load_segment reply (0x10000 + of_nat ?p) s = Some ?s"
    using s1(1) F4 [OF h] F12 [OF h] F16 [OF h] F16 [OF h1] F20 [OF h1] by (simp add: load_segment_def Let_def)
  have "loaded ?k i (bt_mem ?s)"
    unfolding loaded_def kfilesz_def kmemsz_def kaddr_def koff_def
    using got zero by (auto simp: mset_def word_less_nat_alt)
  moreover have "bt_mem ?s x = ?m x" if "x < ?lo" for x
  proof -
    have "x < unat ?pa" using that by (simp add: seg_first_def)
    then show ?thesis using that zero by (auto simp: s1(3) mset_def mcopy_def)
  qed
  ultimately show ?thesis using run s1(2) by (auto simp: kaddr_def koff_def)
qed

lemma segment_loop_ok:
  assumes "boot_disk disk reply (bt_st s)" and k: "kernel_ok (kbyte disk)" and "header (kbyte disk) (bt_mem s)"
    and "n + i = kphnum (kbyte disk)"
  shows "\<exists>s'. segment_loop reply (0x10000 + of_nat (kph (kbyte disk) (kphnum (kbyte disk))))
      (0x10000 + of_nat (kph (kbyte disk) i)) s = Some s'
    \<and> header (kbyte disk) (bt_mem s') \<and> (\<forall>j<kphnum (kbyte disk). i \<le> j \<longrightarrow> loaded (kbyte disk) j (bt_mem s'))
    \<and> (\<forall>x. (\<forall>j<kphnum (kbyte disk). i \<le> j \<longrightarrow> x < seg_first (kaddr (kbyte disk) j) (koff (kbyte disk) j))
        \<longrightarrow> bt_mem s' x = bt_mem s x)"
  using assms(1,3,4)
proof (induction n arbitrary: i s)
  case 0
  then show ?case by (simp add: segment_loop.simps)
next
  case (Suc n)
  let ?k = "kbyte disk"
  let ?N = "kphnum ?k" and ?lo = "\<lambda>j. seg_first (kaddr ?k j) (koff ?k j)"
  note K = k [unfolded kernel_ok_def]
  have i: "i < ?N" using Suc.prems(3) by simp
  have le: "kph ?k ?N \<le> 4096" "kph ?k i < kph ?k ?N" using K i by (auto simp: kph_def)
  have u: "unat (0x10000 + of_nat (kph ?k j) :: u32) = 0x10000 + kph ?k j" if "j \<le> ?N" for j
  proof -
    have "kph ?k j \<le> 4096" using le(1) that by (simp add: kph_def)
    then show ?thesis using unat_add_nat_32 [of "0x10000" "kph ?k j"] by simp
  qed
  have lt: "(0x10000 + of_nat (kph ?k i) :: u32) < 0x10000 + of_nat (kph ?k ?N)"
    using u [of i] u [of ?N] le i by (simp add: word_less_nat_alt)
  obtain s1 where s1: "load_segment reply (0x10000 + of_nat (kph ?k i)) s = Some s1" "bt_st s1 = bt_st s"
    "loaded ?k i (bt_mem s1)" "\<forall>x. x < ?lo i \<longrightarrow> bt_mem s1 x = bt_mem s x"
    using load_segment_ok [OF Suc.prems(1) k Suc.prems(2) i] by blast
  have h1: "header ?k (bt_mem s1)" using Suc.prems(2) s1(4) K i by (fastforce simp: header_def)
  have "\<exists>s'. segment_loop reply (0x10000 + of_nat (kph ?k ?N)) (0x10000 + of_nat (kph ?k (Suc i))) s1 = Some s'
    \<and> header ?k (bt_mem s') \<and> (\<forall>j<?N. Suc i \<le> j \<longrightarrow> loaded ?k j (bt_mem s'))
    \<and> (\<forall>x. (\<forall>j<?N. Suc i \<le> j \<longrightarrow> x < ?lo j) \<longrightarrow> bt_mem s' x = bt_mem s1 x)"
    by (rule Suc.IH) (use Suc.prems s1(2) h1 in auto)
  then obtain s' where s': "segment_loop reply (0x10000 + of_nat (kph ?k ?N)) (0x10000 + of_nat (kph ?k (Suc i))) s1 = Some s'"
    "header ?k (bt_mem s')" "\<forall>j<?N. Suc i \<le> j \<longrightarrow> loaded ?k j (bt_mem s')"
    "\<And>x. (\<forall>j<?N. Suc i \<le> j \<longrightarrow> x < ?lo j) \<Longrightarrow> bt_mem s' x = bt_mem s1 x" by blast
  have keep: "bt_mem s' x = bt_mem s1 x" if "x < kaddr ?k i + max (kfilesz ?k i) (kmemsz ?k i)" for x
    using s'(4) that K i by (meson Suc_le_lessD less_le_trans)
  have this_one: "loaded ?k i (bt_mem s')"
    using s1(3) keep unfolding loaded_def by (metis add_less_cancel_left less_max_iff_disj)
  have all: "loaded ?k j (bt_mem s')" if "j < ?N" "i \<le> j" for j
    using that this_one s'(3) by (cases "j = i") auto
  have same: "bt_mem s' x = bt_mem s x" if "\<forall>j<?N. i \<le> j \<longrightarrow> x < ?lo j" for x
    using that s'(4) [of x] s1(4) i by simp
  have nx: "0x10000 + of_nat (kph ?k i) + 32 = (0x10000 + of_nat (kph ?k (Suc i)) :: u32)" by (simp add: kph_def)
  have "segment_loop reply (0x10000 + of_nat (kph ?k ?N)) (0x10000 + of_nat (kph ?k i)) s =
      Option.bind (load_segment reply (0x10000 + of_nat (kph ?k i)) s)
        (segment_loop reply (0x10000 + of_nat (kph ?k ?N)) (0x10000 + of_nat (kph ?k i) + 32))"
    using lt by (subst segment_loop.simps) simp
  then have "segment_loop reply (0x10000 + of_nat (kph ?k ?N)) (0x10000 + of_nat (kph ?k i)) s = Some s'"
    unfolding nx s1(1) using s'(1) by simp
  then show ?case using s'(2) all same by blast
qed

text \<open>The whole loader.\<close>

lemma bootmain_ok:
  assumes d: "boot_disk disk reply (bt_st s)" and k: "kernel_ok (kbyte disk)"
  shows "\<exists>s'. bootmain reply s = Some (Some (get32 (kbyte disk) 24), s')
    \<and> (\<forall>i<kphnum (kbyte disk). loaded (kbyte disk) i (bt_mem s'))"
proof -
  let ?k = "kbyte disk"
  obtain s1 where s1: "readseg reply 0x10000 4096 0 s = Some s1" "bt_st s1 = bt_st s"
    "bt_mem s1 = mcopy ?k 0 0x10000 4096 (bt_mem s)"
    using readseg_ok [OF d, of 0 "0x10000" 4096] by (auto simp: seg_first_def seg_sects_def)
  have h: "header ?k (bt_mem s1)" by (simp add: header_def s1(3) mcopy_def)
  have d1: "boot_disk disk reply (bt_st s1)" using d s1(2) by simp
  obtain s2 where s2: "segment_loop reply (0x10000 + of_nat (kph ?k (kphnum ?k))) (0x10000 + of_nat (kph ?k 0)) s1 = Some s2"
    "header ?k (bt_mem s2)" "\<forall>j<kphnum ?k. loaded ?k j (bt_mem s2)"
    using segment_loop_ok [OF d1 k h, of "kphnum ?k" 0] by auto
  have L: "ld32 0x10000 s1 = BOOT_MAGIC" "ld32 (0x10000 + 28) s1 = get32 ?k 28" "ld16 (0x10000 + 44) s1 = get16 ?k 44"
    "ld32 (0x10000 + 24) s2 = get32 ?k 24"
    using header_ld(1) [OF h, of 0] header_ld(1) [OF h, of 28] header_ld(2) [OF h, of 44] header_ld(1) [OF s2(2), of 24] k
    by (simp_all add: kernel_ok_def)
  have e: "0x10000 + get32 ?k 28 = (0x10000 + of_nat (kph ?k 0) :: u32)"
    "0x10000 + of_nat (kph ?k 0) + ucast (get16 ?k 44) * 32 = (0x10000 + of_nat (kph ?k (kphnum ?k)) :: u32)"
    by (simp_all add: kph_def kphnum_def)
  have "bootmain reply s = Option.bind (segment_loop reply
      (0x10000 + ld32 (0x10000 + 28) s1 + ucast (ld16 (0x10000 + 44) s1) * 32) (0x10000 + ld32 (0x10000 + 28) s1) s1)
      (\<lambda>s. Some (Some (ld32 (0x10000 + 24) s), s))"
    by (simp add: bootmain_def Let_def s1(1) L(1))
  then show ?thesis unfolding L(2,3) e s2(1) using L(4) s2(3) by simp
qed

end
