(* ===== verification/Mp.thy ===== *)
theory Mp
  imports Ide
begin

text \<open>
  mp.c: finding the processors in the tables that the BIOS leaves in memory. \<open>mem\<close> is the physical
  memory, which the kernel sees from \<open>KERNBASE\<close> on; addresses stay below the kernel's mapping, so
  sums of pointers do not wrap. The loop over the table need not end.
\<close>

definition MPPROC :: u8 where "MPPROC = 0"
definition MPBUS :: u8 where "MPBUS = 1"
definition MPIOAPIC :: u8 where "MPIOAPIC = 2"
definition MPIOINTR :: u8 where "MPIOINTR = 3"
definition MPLINTR :: u8 where "MPLINTR = 4"
definition NCPU :: nat where "NCPU = 8"

definition mp_sum :: "mem \<Rightarrow> nat \<Rightarrow> nat \<Rightarrow> u8" where
  "mp_sum m a n = fold (\<lambda>i s. s + m (a + i)) [0..<n] 0"

text \<open>Behind the signatures "_MP_" and "PCMP".\<close>

definition mpsearch1 :: "mem \<Rightarrow> nat \<Rightarrow> nat \<Rightarrow> nat option" where
  "mpsearch1 m a len =
     find (\<lambda>p. bytes m p 4 = [95, 77, 80, 95] \<and> mp_sum m p 16 = 0)
       (map (\<lambda>k. a + 16 * k) [0..<(len + 15) div 16])"

definition mpsearch :: "mem \<Rightarrow> nat option" where
  "mpsearch m =
     (let bda = (\<lambda>i. ucast (m (0x400 + i)) :: u32);
          p = push_bit 4 (push_bit 8 (bda 0x0F) OR bda 0x0E)
      in case (if p \<noteq> 0 then mpsearch1 m (unat p) 1024
               else let p = (push_bit 8 (bda 0x14) OR bda 0x13) * 1024
                    in mpsearch1 m (unat (p - 1024)) 1024) of
           Some mp \<Rightarrow> Some mp
         | None \<Rightarrow> mpsearch1 m 0xF0000 0x10000)"

text \<open>The floating pointer and the table.\<close>

definition mpconfig :: "mem \<Rightarrow> (nat \<times> nat) option" where
  "mpconfig m =
     (case mpsearch m of
        None \<Rightarrow> None
      | Some mp \<Rightarrow>
          if get32 m (mp + 4) = 0 then None
          else
            let conf = unat (get32 m (mp + 4)) in
            if bytes m conf 4 \<noteq> [80, 67, 77, 80] then None
            else if m (conf + 6) \<noteq> 1 \<and> m (conf + 6) \<noteq> 4 then None
            else if mp_sum m conf (unat (get16 m (conf + 4))) \<noteq> 0 then None
            else Some (mp, conf))"

record mpstate =
  mp_ncpu :: nat
  mp_apicid :: "nat \<Rightarrow> u8"
  mp_ioapicid :: u8
  mp_lapic :: u32

definition add_cpu :: "u8 \<Rightarrow> mpstate \<Rightarrow> mpstate" where
  "add_cpu apicid s =
     (if mp_ncpu s < NCPU then s\<lparr>mp_apicid := (mp_apicid s)(mp_ncpu s := apicid), mp_ncpu := mp_ncpu s + 1\<rparr> else s)"

text \<open>
  \<open>break\<close> leaves the switch only: behind an entry of another type the loop goes on at the same
  place. The flag is \<open>ismp\<close>.
\<close>

partial_function (option) mp_loop :: "mem \<Rightarrow> nat \<Rightarrow> nat \<Rightarrow> bool \<Rightarrow> mpstate \<Rightarrow> (bool \<times> mpstate) option" where
  "mp_loop m e p ismp s =
     (if p < e then
        if m p = MPPROC then mp_loop m e (p + 20) ismp (add_cpu (m (p + 1)) s)
        else if m p = MPIOAPIC then mp_loop m e (p + 8) ismp (s\<lparr>mp_ioapicid := m (p + 1)\<rparr>)
        else if m p = MPBUS \<or> m p = MPIOINTR \<or> m p = MPLINTR then mp_loop m e (p + 8) ismp s
        else mp_loop m e p False s
      else Some (ismp, s))"

text \<open>\<open>imcr\<close> is what port 0x23 answers.\<close>

definition mpinit :: "u8 \<Rightarrow> mem \<Rightarrow> mpstate \<Rightarrow> (mpstate \<times> port list) res" where
  "mpinit imcr m s =
     (case mpconfig m of
        None \<Rightarrow> Inl (Panic ''Expect to run on an SMP'')
      | Some (mp, conf) \<Rightarrow>
          let s = s\<lparr>mp_lapic := get32 m (conf + 36)\<rparr> in
          (case mp_loop m (conf + unat (get16 m (conf + 4))) (conf + 44) True s of
             None \<Rightarrow> Inl (Fault ''mpinit: endless loop'')
           | Some (ismp, s) \<Rightarrow>
               if \<not> ismp then Inl (Panic ''Didn't find a suitable machine'')
               else Inr (s, if m (mp + 12) \<noteq> 0 then [Outb 0x22 0x70, Outb 0x23 (imcr OR 1)] else [])))"


subsection \<open>The table as a list of entries\<close>

datatype entry = Cpu u8 | Ioapic u8 | Other u8

fun entry_at :: "mem \<Rightarrow> nat \<Rightarrow> entry \<Rightarrow> bool" where
  "entry_at m p (Cpu a) \<longleftrightarrow> m p = 0 \<and> m (p + 1) = a"
| "entry_at m p (Ioapic a) \<longleftrightarrow> m p = 2 \<and> m (p + 1) = a"
| "entry_at m p (Other t) \<longleftrightarrow> m p = t \<and> t \<in> {1, 3, 4}"

fun entry_len :: "entry \<Rightarrow> nat" where
  "entry_len (Cpu a) = 20" | "entry_len (Ioapic a) = 8" | "entry_len (Other t) = 8"

fun table_at :: "mem \<Rightarrow> nat \<Rightarrow> nat \<Rightarrow> entry list \<Rightarrow> bool" where
  "table_at m p e [] \<longleftrightarrow> e \<le> p"
| "table_at m p e (x # xs) \<longleftrightarrow> p < e \<and> entry_at m p x \<and> table_at m (p + entry_len x) e xs"

fun table_end :: "nat \<Rightarrow> entry list \<Rightarrow> nat" where
  "table_end p [] = p" | "table_end p (x # xs) = table_end (p + entry_len x) xs"

definition apicids :: "entry list \<Rightarrow> u8 list" where
  "apicids xs = concat (map (\<lambda>x. case x of Cpu a \<Rightarrow> [a] | _ \<Rightarrow> []) xs)"

definition ioapics :: "entry list \<Rightarrow> u8 list" where
  "ioapics xs = concat (map (\<lambda>x. case x of Ioapic a \<Rightarrow> [a] | _ \<Rightarrow> []) xs)"

definition add_entries :: "entry list \<Rightarrow> mpstate \<Rightarrow> mpstate" where
  "add_entries xs s = (fold add_cpu (apicids xs) s)\<lparr>mp_ioapicid := last (mp_ioapicid s # ioapics xs)\<rparr>"

lemma add_cpu_ioapic: "add_cpu a (s\<lparr>mp_ioapicid := i\<rparr>) = (add_cpu a s)\<lparr>mp_ioapicid := i\<rparr>"
  "mp_ioapicid (add_cpu a s) = mp_ioapicid s"
  by (simp_all add: add_cpu_def)

lemma fold_cpu_ioapic: "fold add_cpu as (s\<lparr>mp_ioapicid := i\<rparr>) = (fold add_cpu as s)\<lparr>mp_ioapicid := i\<rparr>"
  "mp_ioapicid (fold add_cpu as s) = mp_ioapicid s"
  by (induction as arbitrary: s) (simp_all add: add_cpu_ioapic)

lemma add_entries_simps:
  "add_entries [] s = s" "add_entries (Cpu a # xs) s = add_entries xs (add_cpu a s)"
  "add_entries (Ioapic i # xs) s = add_entries xs (s\<lparr>mp_ioapicid := i\<rparr>)" "add_entries (Other t # xs) s = add_entries xs s"
  by (simp_all add: add_entries_def apicids_def ioapics_def add_cpu_ioapic fold_cpu_ioapic)

lemmas mp_types = MPPROC_def MPBUS_def MPIOAPIC_def MPIOINTR_def MPLINTR_def

lemma mp_loop_table: "table_at m p e xs \<Longrightarrow> mp_loop m e p ismp s = Some (ismp, add_entries xs s)"
proof (induction xs arbitrary: p s)
  case Nil
  then show ?case by (simp add: mp_loop.simps [of m e p] add_entries_simps)
next
  case (Cons x xs)
  then show ?case
    by (cases x) (auto simp: mp_loop.simps [of m e p] mp_types add_entries_simps)
qed

text \<open>At an entry of another type the loop stays where it is.\<close>

lemma mp_loop_leaves: "mp_loop m e p ismp s = Some r \<Longrightarrow> p < e \<Longrightarrow> m p \<le> 4"
proof -
  have "mp_loop m e p ismp s = Some r \<Longrightarrow> p < e \<longrightarrow> m p \<le> 4"
    by (rule mp_loop.raw_induct [where P = "\<lambda>m e p b s r. p < e \<longrightarrow> m p \<le> 4"]) (auto simp: mp_types split: if_splits)
  then show "mp_loop m e p ismp s = Some r \<Longrightarrow> p < e \<Longrightarrow> m p \<le> 4" by blast
qed

lemma mp_loop_stuck: "p < e \<Longrightarrow> \<not> m p \<le> 4 \<Longrightarrow> mp_loop m e p ismp s = None"
  using mp_loop_leaves by (meson not_Some_eq surj_pair)

lemma mp_loop_unknown:
  "table_at m p (table_end p xs) xs \<Longrightarrow> table_end p xs < e \<Longrightarrow> \<not> m (table_end p xs) \<le> 4 \<Longrightarrow> mp_loop m e p ismp s = None"
proof (induction xs arbitrary: p s)
  case Nil
  then show ?case using mp_loop_stuck by simp
next
  case (Cons x xs)
  have "p < e" using Cons.prems(1,2) by simp
  then show ?case
    using Cons by (cases x) (auto simp: mp_loop.simps [of m e p] mp_types)
qed


subsection \<open>The processors that are counted\<close>

lemma cpu_count: "mp_ncpu s \<le> NCPU \<Longrightarrow> mp_ncpu (fold add_cpu as s) = min NCPU (mp_ncpu s + length as)"
  by (induction as arbitrary: s) (auto simp: add_cpu_def NCPU_def)

lemma add_cpu_sel: "mp_apicid (add_cpu a s) = (if mp_ncpu s < NCPU then (mp_apicid s)(mp_ncpu s := a) else mp_apicid s)"
  by (simp add: add_cpu_def)

lemma cpu_ids: "mp_ncpu s = 0 \<Longrightarrow> i < min NCPU (length as) \<Longrightarrow> mp_apicid (fold add_cpu as s) i = as ! i"
proof (induction as rule: rev_induct)
  case (snoc a as)
  have "mp_ncpu (fold add_cpu as s) = min NCPU (length as)" using cpu_count [of s as] snoc.prems(1) by simp
  then show ?case using snoc by (auto simp: add_cpu_sel nth_append less_Suc_eq)
qed simp

end
