(* ===== verification/Boot_Correct.thy ===== *)
theory Boot_Correct
  imports Boot Mp
begin

text \<open>
  The properties of the boot loader and of the search for processors, on a small kernel of one
  segment and on a table of two processors.
\<close>

subsection \<open>The boot loader\<close>











subsection \<open>The processors\<close>

text \<open>The BIOS data point to a floating pointer at \<open>0x9FC00\<close>, and that to a table with a last entry of type \<open>t\<close>.\<close>

definition mp_table :: "u8 \<Rightarrow> u8 \<Rightarrow> u8 list" where
  "mp_table t c = [80, 67, 77, 80, 100, 0, 4, c] @ replicate 30 0 @ [0xE0, 0xFE] @ replicate 4 0
     @ [0, 5] @ replicate 18 0 @ [0, 9] @ replicate 18 0 @ [2, 7] @ replicate 6 0 @ [t] @ replicate 7 0"

definition mp_mem :: "u8 list \<Rightarrow> mem" where
  "mp_mem tab = (\<lambda>a. if a = 0x40E then 0xC0 else if a = 0x40F then 0x9F
     else if 0x9FC00 \<le> a \<and> a < 0x9FC10 then [95, 77, 80, 95, 0, 0xFD, 9, 0, 1, 4, 154, 0, 0, 0, 0, 0] ! (a - 0x9FC00)
     else if 0x9FD00 \<le> a \<and> a < 0x9FD00 + length tab then tab ! (a - 0x9FD00) else 0)"

lemma mp_sum_list: "mp_sum m a n = sum_list (bytes m a n)"
  by (induction n) (simp_all add: mp_sum_def bytes_def)

lemma mp_mem_search: "mpsearch (mp_mem tab) = Some 0x9FC00"
proof -
  have b: "bytes (mp_mem tab) 0x9FC00 4 = [95, 77, 80, 95]" by (simp add: bytes_def mp_mem_def upt_rec)
  have s: "bytes (mp_mem tab) 0x9FC00 16 = [95, 77, 80, 95, 0, 0xFD, 9, 0, 1, 4, 154, 0, 0, 0, 0, 0]"
    by (simp add: bytes_def mp_mem_def upt_rec)
  have "mpsearch1 (mp_mem tab) 0x9FC00 1024 = Some 0x9FC00"
    by (simp add: mpsearch1_def upt_conv_Cons b mp_sum_list s del: upt_Suc)
  then show ?thesis by (simp add: mpsearch_def mp_mem_def)
qed

lemma mp_mem_table: "bytes (mp_mem tab) 0x9FD00 (length tab) = tab"
  by (rule nth_equalityI) (simp_all add: mp_mem_def)

lemma mp_mem_config:
  assumes "sum_list (mp_table t c) = 0"
  shows "mpconfig (mp_mem (mp_table t c)) = Some (0x9FC00, 0x9FD00)" "unat (get16 (mp_mem (mp_table t c)) 0x9FD04) = 100"
proof -
  let ?m = "mp_mem (mp_table t c)"
  have h: "?m 0x9FD00 = 80" "?m 0x9FD01 = 67" "?m 0x9FD02 = 77" "?m 0x9FD03 = 80" "?m 0x9FD04 = 100" "?m 0x9FD05 = 0" "?m 0x9FD06 = 4"
    by (simp_all add: mp_mem_def mp_table_def)
  have l: "length (mp_table t c) = 100" by (simp add: mp_table_def)
  have p: "get32 ?m 0x9FC04 = 0x9FD00" by (simp add: get32_def mp_mem_def)
  show len: "unat (get16 ?m 0x9FD04) = 100" by (simp add: get16_def h)
  have "bytes ?m 0x9FD00 4 = [80, 67, 77, 80]" by (simp add: bytes_def h upt_rec)
  moreover have "mp_sum ?m 0x9FD00 100 = 0" using mp_mem_table [of "mp_table t c"] assms by (simp add: mp_sum_list l)
  ultimately show "mpconfig ?m = Some (0x9FC00, 0x9FD00)"
    by (simp add: mpconfig_def mp_mem_search p len h)
qed

lemma mp_mem_entries:
  "mp_mem (mp_table t c) 0x9FD2C = 0" "mp_mem (mp_table t c) 0x9FD2D = 5" "mp_mem (mp_table t c) 0x9FD40 = 0"
  "mp_mem (mp_table t c) 0x9FD41 = 9" "mp_mem (mp_table t c) 0x9FD54 = 2" "mp_mem (mp_table t c) 0x9FD55 = 7"
  "mp_mem (mp_table t c) 0x9FD5C = t"
  by (simp_all add: mp_mem_def mp_table_def nth_append)

text \<open>A machine before \<open>mpinit\<close>.\<close>

definition mp_none :: mpstate where
  "mp_none = \<lparr>mp_ncpu = 0, mp_apicid = \<lambda>_. 0, mp_ioapicid = 0, mp_lapic = 0\<rparr>"

text \<open>
  C30: On a table of processor, I/O APIC and interrupt entries mpinit counts the processors
  up to the size of its array and records their APIC numbers in the order of the table, the
  last I/O APIC and the address of the local APIC.
\<close>

theorem mpinit_finds_processors:
  assumes "mpconfig m = Some (mp, conf)" and "table_at m (conf + 44) (conf + unat (get16 m (conf + 4))) xs" and "mp_ncpu s = 0"
  shows "\<exists>s' io. mpinit imcr m s = Inr (s', io) \<and> mp_ncpu s' = min NCPU (length (apicids xs))
    \<and> (\<forall>i<mp_ncpu s'. mp_apicid s' i = apicids xs ! i) \<and> mp_ioapicid s' = last (mp_ioapicid s # ioapics xs)
    \<and> mp_lapic s' = get32 m (conf + 36)"
proof -
  let ?s = "s\<lparr>mp_lapic := get32 m (conf + 36)\<rparr>"
  have l: "mp_lapic (fold add_cpu as t) = mp_lapic t" for as t
    by (induction as arbitrary: t) (simp_all add: add_cpu_def)
  have "mp_ncpu (fold add_cpu (apicids xs) ?s) = min NCPU (length (apicids xs))"
    using cpu_count [of ?s "apicids xs"] assms(3) by simp
  moreover have "mp_apicid (fold add_cpu (apicids xs) ?s) i = apicids xs ! i" if "i < min NCPU (length (apicids xs))" for i
    using cpu_ids [of ?s i "apicids xs"] that assms(3) by simp
  ultimately show ?thesis
    using assms(1) mp_loop_table [OF assms(2), of True ?s] by (simp add: mpinit_def Let_def add_entries_def l)
qed

theorem mpinit_finds_processors_witness:
  "\<exists>s' io. mpinit 0 (mp_mem (mp_table 3 112)) mp_none = Inr (s', io) \<and> mp_ncpu s' = 2 \<and> mp_apicid s' 1 = 9 \<and> mp_ioapicid s' = 7"
proof -
  let ?m = "mp_mem (mp_table 3 112)"
  have "sum_list (mp_table 3 112) = 0" by (simp add: mp_table_def sum_list_replicate)
  note c = mp_mem_config [OF this]
  have t: "table_at ?m (0x9FD00 + 44) (0x9FD00 + unat (get16 ?m (0x9FD00 + 4))) [Cpu 5, Cpu 9, Ioapic 7, Other 3]"
    using c(2) by (simp add: mp_mem_entries)
  show ?thesis
    using mpinit_finds_processors [OF c(1) t, of mp_none 0] by (auto simp: mp_none_def apicids_def ioapics_def NCPU_def)
qed

theorem mpinit_unknown_entry_hangs:
  assumes "mpconfig m = Some (mp, conf)" and "table_at m (conf + 44) (table_end (conf + 44) xs) xs"
    and "table_end (conf + 44) xs < conf + unat (get16 m (conf + 4))" and "\<not> m (table_end (conf + 44) xs) \<le> 4"
  shows "mpinit imcr m s = Inl (Fault ''mpinit: endless loop'')"
  using assms(1) mp_loop_unknown [OF assms(2-4)] by (simp add: mpinit_def Let_def)

theorem mpinit_unknown_entry_hangs_witness:
  "mpinit 0 (mp_mem (mp_table 9 106)) mp_none = Inl (Fault ''mpinit: endless loop'')"
proof -
  let ?m = "mp_mem (mp_table 9 106)"
  have "sum_list (mp_table 9 106) = 0" by (simp add: mp_table_def sum_list_replicate)
  note c = mp_mem_config [OF this]
  have t: "table_at ?m (0x9FD00 + 44) (table_end (0x9FD00 + 44) [Cpu 5, Cpu 9, Ioapic 7]) [Cpu 5, Cpu 9, Ioapic 7]"
    by (simp add: mp_mem_entries)
  show ?thesis
    by (rule mpinit_unknown_entry_hangs [OF c(1) t]) (use c(2) in \<open>simp_all add: mp_mem_entries\<close>)
qed

end
