(* ===== verification/Spec2Isabelle.thy ===== *)
theory Spec2Isabelle
  imports Sched_Correct Fs_Correct Inode_Correct Mem_Correct Vm_Correct User_Correct Call_Correct Spinlock Umalloc_Correct Shell_Correct
    Dir_Correct Proc_Correct Ide_Correct Mkfs_Correct Boot_Correct
begin

text \<open>
  A model of the modified xv6 kernel, of its boot loader and mkfs, and of parts of its user programs.

  The repository holds three stages of the same kernel; the files named below are those of
  src/project\_03, which contains the other two. The kernel is xv6 for one x86 machine with a
  stride scheduler over a three-level feedback queue, threads that share the memory of a
  process, doubly and triple indirect blocks, a log that commits in groups, and pread, pwrite
  and sync. System calls enter through the trap; they work on processes, files and memory;
  files lie on inodes, inodes on the log, the log on the buffer cache, the cache on the disk (a
  disk in memory, or the driver of an IDE disk, which is shown to behave like it); mkfs writes the
  first content of the disk, the boot loader reads the kernel from another;
  the clock interrupt drives the scheduler.

  Conventions. A routine is a function from the state to a result \<open>'a res\<close>: \<open>Inr\<close> the value and
  the new state, or \<open>Inl\<close> why it did not return: \<open>Panic\<close> with its message, \<open>Fault\<close> for what C
  leaves undefined (a null pointer, an index out of an array, an endless loop), \<open>Sleeps\<close> with
  the channel of the sleep. \<open>bind_res\<close> is sequencing, \<open>for_each\<close> a loop over a list. Words are
  \<open>u8\<close>, \<open>u16\<close>, \<open>u32\<close>, so that counters wrap around as in C; a C int is an \<open>int\<close>, converted where
  the code converts. Arrays are functions from an index, pointers into a static array are
  indices and null is \<open>None\<close>; pointers to pages are \<open>u32\<close> addresses of one byte memory.
  A locked section runs as one step: the routines are the code between \<open>acquire\<close> and
  \<open>release\<close>, and that the lock excludes others is the theorem about spinlock.c.

  Theories, and the code they model.

  \<^item> Prelude, Bytes, Ring: results, loops, round robin searches, little-endian memory, the
    circular list of the buffer cache.
  \<^item> Proc\_Types (proc.h, param.h), Sched (sched.c): the process table, the stride table, the
    feedback queues. Mlfq\_Queue proves that the queues behave as a map from a pid to a level and
    its ticks (locale \<open>feedback_queue\<close>), Mlfq\_Boost that the priority boost resets that map,
    Sched\_Pick and Stride\_Share the choice of a thread and the arithmetic of tickets and passes,
    Dispatch the scheduler loop, Tick the clock tick; Sched\_Correct holds the properties.
  \<^item> Spinlock (spinlock.c): interleaved steps of processors as an inductive relation, with the
    invariant of reachable states.
  \<^item> Fs\_Types (fs.h, buf.h, sleeplock.c), Bio (bio.c, memide.c), Log (log.c), Fs, Inode, Dir
    (fs.c): the file system from the disk to paths. Bio\_Ok and Bio\_Cache prove that the cache
    is transparent (locale \<open>block_cache\<close>), Log\_Ok and Log\_Crash that a commit is atomic for every
    crash point, Txn the view of an operation on logged blocks (locale \<open>transaction\<close>), Alloc the
    block allocator, Inode\_Read and Inode\_Write the content of files as a list of bytes. Dir\_Ok
    proves that a directory file is a map from names to inodes, Path\_Ok that the cache of inodes
    is transparent and a path is followed through these maps. Fs\_Example holds a small disk;
    Fs\_Correct, Inode\_Correct and Dir\_Correct the properties.
  \<^item> Ide (ide.c): the disk driver over the ports of a drive, its queue threaded through the buffers.
    Ide\_Ok relates the queue to a list and the port writes to commands of a drive, Ide\_Correct
    holds the refinement to memide.c.
  \<^item> Mkfs (mkfs.c): the program that builds the image. Mkfs\_Ok proves that appending to a file keeps
    its sectors and content, Mkfs\_Tree that the image is a tree of disjoint files and what the whole
    run leaves behind, Mkfs\_Correct that the kernel finds the files by their paths.
  \<^item> Boot (bootmain.c), Mp (mp.c): the loader of the kernel and the search for processors, with what
    readseg leaves in memory and what the loop over the table collects; Boot\_Correct holds the
    properties of both.
  \<^item> Cstring (string.c), Kalloc (kalloc.c), Pipe (pipe.c): with their properties in Mem\_Correct.
  \<^item> Vm (vm.c, mmu.h): page tables in memory. Vm\_Ok proves when the tables are well formed and that a store to an entry changes that entry only, Vm\_Map walks, mappages and
    copyout, Vm\_Alloc and Vm\_Grow the growing and shrinking of a process; Vm\_Correct the
    properties.
  \<^item> File (file.c), Sysfile (sysfile.c), Proc and Thread (proc.c), Exec (exec.c): open files, the
    calls on files, the life of processes and threads, loading a program. Proc\_Ok proves which
    operations keep the numbers of processes and threads, over an inductive step relation;
    Proc\_Correct holds the property.
  \<^item> Console (console.c), Kbd (kbd.c, kbd.h): the screen, the line editor and the keyboard.
  \<^item> Syscall (syscall.c), Sysproc (sysproc.c, prac\_syscall.c, the argument fetching of sysfile.c),
    Trap (trap.c): the boundary to the user. Call\_Correct holds its properties.
  \<^item> Grep (grep.c), Ulib (ulib.c, printf.c, wc.c): user programs, with properties in User\_Correct.
  \<^item> Umalloc (umalloc.c): the allocator of user programs. Umalloc\_Ok proves that the circular list
    stays sorted and disjoint and follows its free bytes; Umalloc\_Correct holds the properties.
  \<^item> Shell (the parser of sh.c), Shell\_Run (its runcmd and main, and which descriptors the programs
    of a command get). Shell\_Parse proves that the
    fuel of the parser is enough, Shell\_Text that it reads back the text of every command,
    Shell\_Ok that what is parsed is well formed and that main does one thing for each line; Shell\_Correct holds the properties.

  What the lemmas show. Each component has an invariant (\<open>mlfq_ok\<close>, \<open>tickets_ok\<close>, \<open>sched_ok\<close>,
  \<open>bio_ok\<close>, \<open>log_ok\<close>, \<open>txn\<close>, \<open>kmem_ok\<close>, \<open>vm_ok\<close>, \<open>space_ok\<close>, \<open>pipe_ok\<close>, \<open>cons_ok\<close>, \<open>heap_inv\<close>,
  \<open>cmd_ok\<close>, \<open>dir_ok\<close>, \<open>cache_ok\<close>, \<open>ids_ok\<close>, \<open>ide_rel\<close>, \<open>img_ok\<close>, \<open>tree_ok\<close>), an abstraction to the value a client sees (a map of levels, the content of blocks,
  the bytes of a file, the entries of a page table, the lists of a line editor, the free bytes of
  a heap, the descriptors of a pipeline, the names of a directory, the queue of a driver, the files
  of an image), and lemmas that its operations keep the
  one and refine the other. The properties are stated over the operations themselves; each
  is applied to a concrete state by its witness. What the code relies on outside of it is a named
  hypothesis: \<open>drive_ok\<close> and \<open>boot_disk\<close> say how a drive answers the commands at its registers,
  \<open>sbrk_law\<close> what the kernel grants to an allocator; their witnesses give a concrete drive and a
  concrete sbrk. Some theorems state what the code does wrong: a deep
  file cannot be read outside a transaction, exec by a thread leaves a null pointer for the
  next tick, a hole in the memory of a process lets a system call panic the kernel, grep loses
  the beginning of a split line, an unknown entry of the processor table stops the start of the
  kernel in an endless loop.

  Bounds and fuel. \<open>map_loop\<close> gets the number of pages between its two rounded addresses, which
  its termination property shows to be enough; \<open>rr_scan\<close> and \<open>ring_scan\<close> get the length of the
  array or list they go around, proved enough where they are used; the digits of a number get
  the 16 bytes of the buffer of the code; the parser of the shell gets three calls for each byte
  of the line, enough by \<open>shell_parser_ends\<close>. Loops that need not end (waiting for a drive, the end of a queue,
  the entries of the processor table, pointers that may wrap around in the loader) are partial
  functions whose value \<open>None\<close> is not ending; the properties prove that they end. Other loops
  recurse on a list of the indices they visit or have a termination proof.

  Not modelled. The interrupt controllers and the serial port (lapic.c, ioapic.c, picirq.c, uart.c)
  are fixed sequences of register writes, and main.c is the order of the calls; the context switch
  and the assembly are the machine's. A routine that has to sleep inside the file system stops with
  its channel: the interleaving of two such routines is not followed. procdump only prints.
  A write whose user buffer contains an absent page is checked for the bytes it consumed, after
  the operation. The tests are programs that exercise the kernel, and the small user programs
  (cat, echo, ls, \<dots>) do nothing but call it.
\<close>

end
